(* ===== verification/Prelude.thy ===== *)
theory Prelude
  imports Main "HOL-Library.Word"
begin

section \<open>Shared types, collections and generic lemmas\<close>

text \<open>
  What every component of the development shares: names for the fixed-width integers of the
  C++ sources, the collections of facts the component proofs rewrite with, and generic
  lemmas on lists and words.  \<open>size_t\<close> and \<open>uintptr_t\<close> are 64-bit, as on every platform the
  sources are built for.
\<close>

unbundle bit_operations_syntax

type_synonym u8 = "8 word"
type_synonym u16 = "16 word"
type_synonym u32 = "32 word"
type_synonym u64 = "64 word"
type_synonym size_t = "64 word"
type_synonym addr = "64 word"

named_theorems no_wrap \<open>unsigned reading of word arithmetic that does not wrap around\<close>
named_theorems inv_defs \<open>the invariants of the components\<close>

subsection \<open>The C++ standard library's min\<close>

text \<open>
  \<open>std::min(a, b)\<close> is \<open>(b < a) ? b : a\<close>; the order is a parameter, because the sources use it
  on floating-point values too, whose order is not total.
\<close>

definition std_min :: "('a \<Rightarrow> 'a \<Rightarrow> bool) \<Rightarrow> 'a \<Rightarrow> 'a \<Rightarrow> 'a" where
  "std_min lt a b = (if lt b a then b else a)"

lemma std_min_linorder [simp]: "std_min (<) a b = min a (b::'a::linorder)"
  by (auto simp: std_min_def min_def)

subsection \<open>Words read as naturals\<close>

lemma unat_add_nowrap [no_wrap]:
  fixes a b :: "'w::len word"
  assumes "unat a + unat b < 2 ^ LENGTH('w)"
  shows "unat (a + b) = unat a + unat b"
  using assms by (simp add: unat_word_ariths)

lemma unat_add_nowrap64: "unat (a :: u64) + unat b < 2 ^ 64 \<Longrightarrow> unat (a + b) = unat a + unat b"
  by (rule unat_add_nowrap) simp

lemma unat_diff_nowrap [no_wrap]:
  fixes a b :: "'w::len word"
  assumes "unat b \<le> unat a"
  shows "unat (a - b) = unat a - unat b"
  using assms by (simp add: unat_sub word_le_nat_alt)

lemma unat_lt_word [simp]: "unat (a :: 'w::len word) < 2 ^ LENGTH('w)"
  by (rule unsigned_less)

lemma unat_of_nat_small [no_wrap]:
  "n < 2 ^ LENGTH('w) \<Longrightarrow> unat (of_nat n :: 'w::len word) = n"
  by (simp add: unat_of_nat take_bit_eq_mod)

subsection \<open>Lists\<close>

lemma find_None_set: "List.find P xs = None \<longleftrightarrow> (\<forall>x\<in>set xs. \<not> P x)"
  by (auto simp: find_None_iff)

lemma find_Some_set: "List.find P xs = Some x \<Longrightarrow> x \<in> set xs \<and> P x"
  by (auto simp: find_Some_iff)

lemma find_inj_unique:
  assumes "inj_on f (set xs)" and "x \<in> set xs"
  shows "List.find (\<lambda>y. f y = f x) xs = Some x"
proof -
  from assms(2) obtain y where y: "List.find (\<lambda>y. f y = f x) xs = Some y"
    using find_None_set[of "\<lambda>y. f y = f x" xs] by (cases "List.find (\<lambda>y. f y = f x) xs") auto
  with assms show ?thesis
    by (auto dest!: find_Some_set dest: inj_onD)
qed

text \<open>What a sum over threads becomes when one thread's state changes.\<close>

lemma sum_fun_upd:
  fixes i n :: nat and f :: "'a \<Rightarrow> 'b::comm_monoid_add"
  assumes "i < n"
  shows "(\<Sum>j<n. f ((g(i := x)) j)) + f (g i) = (\<Sum>j<n. f (g j)) + f x"
proof -
  have "(\<Sum>j<n. f (g j)) = f (g i) + (\<Sum>j\<in>{..<n} - {i}. f (g j))"
    using assms by (intro sum.remove) simp_all
  moreover have "(\<Sum>j<n. f ((g(i := x)) j)) = f x + (\<Sum>j\<in>{..<n} - {i}. f (g j))"
    using assms by (subst sum.remove[of _ i]) simp_all
  ultimately show ?thesis by (simp add: ac_simps)
qed

subsection \<open>Decimal numbers\<close>

text \<open>How the C++ library prints an unsigned integer in decimal, and the value of a string of digits.\<close>

definition digit_char :: "nat \<Rightarrow> char" where
  "digit_char d = char_of (48 + d)"

fun dec :: "nat \<Rightarrow> string" where
  "dec n = (if n < 10 then [digit_char n] else dec (n div 10) @ [digit_char (n mod 10)])"

declare dec.simps [simp del]

definition dec_value :: "string \<Rightarrow> nat" where
  "dec_value ds = foldl (\<lambda>v c. v * 10 + (of_char c - 48)) 0 ds"

lemma digit_char_value: "d < 10 \<Longrightarrow> of_char (digit_char d) = (48 + d :: nat)"
  by (simp add: digit_char_def)

lemma dec_extend: "0 < v \<Longrightarrow> d < 10 \<Longrightarrow> dec (v * 10 + d) = dec v @ [digit_char d]"
  by (subst dec.simps) simp

lemma dec_value_dec [simp]: "dec_value (dec n) = n"
proof (induction n rule: dec.induct)
  case (1 n)
  then show ?case by (subst dec.simps) (auto simp: dec_value_def digit_char_value)
qed

lemma dec_value_zeros [simp]: "dec_value (replicate k CHR ''0'' @ ds) = dec_value ds"
proof -
  have "foldl (\<lambda>v c. v * 10 + (of_char c - 48)) 0 (replicate k CHR ''0'') = (0 :: nat)" by (induction k) auto
  then show ?thesis by (simp add: dec_value_def)
qed

lemma dec_nonempty [simp]: "dec n \<noteq> []"
  by (subst dec.simps) simp

lemma length_dec: "n < 10 ^ k \<Longrightarrow> 0 < k \<Longrightarrow> length (dec n) \<le> k"
proof (induction n arbitrary: k rule: dec.induct)
  case (1 n)
  show ?case
  proof (cases "n < 10")
    case False
    then obtain j where j: "k = Suc j" "0 < j" using 1(2,3) by (cases k; cases "k - 1") auto
    then have "n div 10 < 10 ^ j" using 1(2) by auto
    then show ?thesis using 1(1)[OF False, of j] j False by (subst dec.simps) simp
  qed (use 1(3) in \<open>subst dec.simps, simp\<close>)
qed

lemma dec_digits: "c \<in> set (dec n) \<Longrightarrow> 48 \<le> (of_char c :: nat) \<and> (of_char c :: nat) \<le> 57"
proof (induction n rule: dec.induct)
  case (1 n)
  have "48 \<le> (of_char (digit_char d) :: nat) \<and> (of_char (digit_char d) :: nat) \<le> 57" if "d < 10" for d
    using that by (simp add: digit_char_value)
  then show ?case using 1 by (subst (asm) (2) dec.simps) (auto split: if_splits)
qed

subsection \<open>Splitting text\<close>

text \<open>The pieces between the characters that \<open>P\<close> holds of, empty ones included.\<close>

fun split_at :: "(char \<Rightarrow> bool) \<Rightarrow> string \<Rightarrow> string list" where
  "split_at P [] = [[]]"
| "split_at P (c # cs) = (if P c then [] # split_at P cs else (c # hd (split_at P cs)) # tl (split_at P cs))"

lemma split_at_nonempty: "split_at P cs \<noteq> []"
  by (induction cs) auto

lemma split_at_plain: "(\<And>c. c \<in> set xs \<Longrightarrow> \<not> P c) \<Longrightarrow> split_at P xs = [xs]"
  by (induction xs) auto

lemma split_at_sep:
  assumes "\<And>c. c \<in> set xs \<Longrightarrow> \<not> P c" and "P s"
  shows "split_at P (xs @ s # ys) = xs # split_at P ys"
  using assms by (induction xs) (auto simp: split_at_nonempty)

text \<open>The bytes of a word in the memory of a little-endian machine.\<close>

definition bytes_in_memory :: "u32 \<Rightarrow> u8 list" where
  "bytes_in_memory w = map (\<lambda>i. ucast (drop_bit (8 * i) w)) [0, 1, 2, 3]"

lemma length_bytes_in_memory [simp]: "length (bytes_in_memory w) = 4"
  by (simp add: bytes_in_memory_def)

end
