(* ===== verification/Module_Graph.thy ===== *)
theory Module_Graph
  imports Prelude "HOL-Library.Multiset"
begin

section \<open>The module dependency graph\<close>

text \<open>
  Models \<^verbatim>\<open>public/tge/module/version.hpp\<close>, \<^verbatim>\<open>public/tge/module/module.hpp\<close> (the data a module
  declares) and \<^verbatim>\<open>private/module/module_graph.cpp\<close> (\<open>CModuleGraph::Resolve\<close>).  Modules and module
  identities are pointers in the source and natural numbers here; the virtual functions
  \<open>GetId\<close>, \<open>GetDependencies\<close>, \<open>GetName\<close>, \<open>GetVersion\<close> and \<open>GetContractVersion\<close> are the fields of a
  table indexed by those pointers.  \<open>None\<close> is the null pointer.  What \<open>gLog.Error\<close> prints is the
  list of \<open>graph_error\<close> values, in the order in which the lines are written.
\<close>

type_synonym module_ptr = nat
type_synonym id_ptr = nat

record SVersion =
  major :: u16
  minor :: u16
  patch :: u16

definition Satisfies :: "SVersion \<Rightarrow> SVersion \<Rightarrow> bool" where
  "Satisfies loaded required \<longleftrightarrow>
     major loaded = major required
     \<and> (minor loaded > minor required
        \<or> (minor loaded = minor required \<and> patch loaded \<ge> patch required))"

definition IsConstrained :: "SVersion \<Rightarrow> bool" where
  "IsConstrained version \<longleftrightarrow> major version \<noteq> 0 \<or> minor version \<noteq> 0 \<or> patch version \<noteq> 0"

datatype EDependencyKind = Required | Optional | Notify

record SDependency =
  pModule :: "id_ptr option"
  kind :: EDependencyKind
  minVersion :: SVersion

record CModuleId =
  id_name :: string
  id_version :: SVersion
  id_contract :: u32

record module_table =
  GetId :: "module_ptr \<Rightarrow> id_ptr"
  GetDependencies :: "module_ptr \<Rightarrow> SDependency list"
  id_info :: "id_ptr \<Rightarrow> CModuleId"

definition ModuleContractVersion :: u32 where
  "ModuleContractVersion = 1"

definition GetName :: "module_table \<Rightarrow> module_ptr \<Rightarrow> string" where
  "GetName t m = id_name (id_info t (GetId t m))"

datatype graph_error =
    ContractMismatch string u32 u32
  | NullDependency string
  | MissingRequired string string
  | VersionMismatch string string SVersion SVersion
  | DependencyCycle "string list"

subsection \<open>Validation\<close>

definition Emitted :: u32 where
  "Emitted = - 1"

definition FindLoaded :: "module_table \<Rightarrow> module_ptr list \<Rightarrow> id_ptr option \<Rightarrow> module_ptr option" where
  "FindLoaded t modules p = List.find (\<lambda>m. Some (GetId t m) = p) modules"

definition IsOrderingDependency :: "EDependencyKind \<Rightarrow> bool" where
  "IsOrderingDependency k \<longleftrightarrow> k = Required \<or> k = Optional"

definition ValidateContract :: "module_table \<Rightarrow> module_ptr \<Rightarrow> bool \<times> graph_error list" where
  "ValidateContract t m =
     (let contractVersion = id_contract (id_info t (GetId t m))
      in if contractVersion \<noteq> ModuleContractVersion
         then (False, [ContractMismatch (GetName t m) contractVersion ModuleContractVersion])
         else (True, []))"

definition validate_dependency ::
  "module_table \<Rightarrow> module_ptr list \<Rightarrow> module_ptr \<Rightarrow> SDependency \<Rightarrow> bool \<times> graph_error list" where
  "validate_dependency t modules dependent d =
     (case pModule d of
        None \<Rightarrow> (False, [NullDependency (GetName t dependent)])
      | Some p \<Rightarrow>
          if FindLoaded t modules (Some p) = None
          then (if kind d = Required
                then (False, [MissingRequired (GetName t dependent) (id_name (id_info t p))])
                else (True, []))
          else if IsConstrained (minVersion d) \<and> \<not> Satisfies (id_version (id_info t p)) (minVersion d)
          then (False, [VersionMismatch (GetName t dependent) (id_name (id_info t p))
                          (minVersion d) (id_version (id_info t p))])
          else (True, []))"

fun validate_deps ::
  "module_table \<Rightarrow> module_ptr list \<Rightarrow> module_ptr \<Rightarrow> SDependency list \<Rightarrow> bool \<Rightarrow> graph_error list
     \<Rightarrow> bool \<times> graph_error list" where
  "validate_deps t modules dependent [] valid log = (valid, log)"
| "validate_deps t modules dependent (d # ds) valid log =
     (let (ok, errors) = validate_dependency t modules dependent d
      in validate_deps t modules dependent ds (valid \<and> ok) (log @ errors))"

definition ValidateDependencies ::
  "module_table \<Rightarrow> module_ptr \<Rightarrow> module_ptr list \<Rightarrow> bool \<times> graph_error list" where
  "ValidateDependencies t dependent modules =
     validate_deps t modules dependent (GetDependencies t dependent) True []"

definition DependsOn :: "module_table \<Rightarrow> module_ptr \<Rightarrow> module_ptr \<Rightarrow> bool" where
  "DependsOn t dependent dependency =
     fold (\<lambda>d depends. depends
             \<or> (IsOrderingDependency (kind d) \<and> pModule d = Some (GetId t dependency)))
       (GetDependencies t dependent) False"

fun validate_modules ::
  "module_table \<Rightarrow> module_ptr list \<Rightarrow> module_ptr list \<Rightarrow> bool \<Rightarrow> graph_error list
     \<Rightarrow> bool \<times> graph_error list" where
  "validate_modules t modules [] resolved log = (resolved, log)"
| "validate_modules t modules (m # ms) resolved log =
     (let (contractValid, log1) = ValidateContract t m;
          (dependenciesValid, log2) = ValidateDependencies t m modules
      in validate_modules t modules ms (resolved \<and> contractValid \<and> dependenciesValid)
           (log @ log1 @ log2))"

subsection \<open>Resolution\<close>

definition waiting_count :: "module_table \<Rightarrow> module_ptr list \<Rightarrow> module_ptr \<Rightarrow> u32" where
  "waiting_count t modules m =
     fold (\<lambda>d waiting. if IsOrderingDependency (kind d) \<and> FindLoaded t modules (pModule d) \<noteq> None
                        then waiting + 1 else waiting)
       (GetDependencies t m) 0"

text \<open>The scan runs from the last index to the first and keeps the latest hit.\<close>

definition next_ready :: "u32 list \<Rightarrow> nat option" where
  "next_ready pending =
     fold (\<lambda>index nxt. if pending ! (index - 1) = 0 then Some (index - 1) else nxt)
       (rev [1..<Suc (length pending)]) None"

definition release_dependents ::
  "module_table \<Rightarrow> module_ptr list \<Rightarrow> u32 list \<Rightarrow> nat \<Rightarrow> u32 list" where
  "release_dependents t modules pending nxt =
     map (\<lambda>index. if pending ! index \<noteq> Emitted \<and> DependsOn t (modules ! index) (modules ! nxt)
                   then pending ! index - 1 else pending ! index)
       [0..<length modules]"

definition cycle_names :: "module_table \<Rightarrow> module_ptr list \<Rightarrow> u32 list \<Rightarrow> string list" where
  "cycle_names t modules pending =
     map (\<lambda>index. GetName t (modules ! index))
       (filter (\<lambda>index. pending ! index \<noteq> Emitted) [0..<length modules])"

function resolve_loop ::
  "module_table \<Rightarrow> module_ptr list \<Rightarrow> u32 list \<Rightarrow> module_ptr list
     \<Rightarrow> bool \<times> module_ptr list \<times> graph_error list" where
  "resolve_loop t modules pending order =
     (if length order < length modules then
        (case next_ready pending of
           None \<Rightarrow> (False, order, [DependencyCycle (cycle_names t modules pending)])
         | Some nxt \<Rightarrow>
             resolve_loop t modules (release_dependents t modules (pending[nxt := Emitted]) nxt)
               (order @ [modules ! nxt]))
      else (True, order, []))"
  by pat_completeness auto
termination
  by (relation "measure (\<lambda>(t, modules, pending, order). length modules - length order)") auto

declare resolve_loop.simps [simp del]

definition Resolve :: "module_table \<Rightarrow> module_ptr list \<Rightarrow> bool \<times> module_ptr list \<times> graph_error list" where
  "Resolve t modules =
     (let (resolved, log) = validate_modules t modules modules True []
      in if resolved
         then (let (ok, order, errors) =
                     resolve_loop t modules (map (waiting_count t modules) modules) []
               in (ok, order, log @ errors))
         else (False, [], log))"


subsection \<open>Reading the loops\<close>

definition ordering_deps :: "module_table \<Rightarrow> module_ptr list \<Rightarrow> module_ptr \<Rightarrow> SDependency list" where
  "ordering_deps t modules m =
     filter (\<lambda>d. IsOrderingDependency (kind d) \<and> FindLoaded t modules (pModule d) \<noteq> None)
       (GetDependencies t m)"

definition deps_met :: "module_table \<Rightarrow> module_ptr list \<Rightarrow> module_ptr set \<Rightarrow> module_ptr \<Rightarrow> bool" where
  "deps_met t modules placed m \<longleftrightarrow> (\<forall>d\<in>set modules. DependsOn t m d \<longrightarrow> d \<in> placed)"

definition graph_wf :: "module_table \<Rightarrow> module_ptr list \<Rightarrow> bool" where
  "graph_wf t modules \<longleftrightarrow>
     distinct modules \<and> inj_on (GetId t) (set modules)
     \<and> (\<forall>m\<in>set modules. length (GetDependencies t m) < 2 ^ 32 - 1)"

definition deps_distinct :: "module_table \<Rightarrow> module_ptr list \<Rightarrow> bool" where
  "deps_distinct t modules \<longleftrightarrow>
     (\<forall>m\<in>set modules. distinct (map pModule (ordering_deps t modules m)))"

definition topological :: "module_table \<Rightarrow> module_ptr list \<Rightarrow> bool" where
  "topological t order \<longleftrightarrow>
     (\<forall>k<length order. deps_met t order (set (take k order)) (order ! k))"

definition greedy_order :: "module_table \<Rightarrow> module_ptr list \<Rightarrow> module_ptr list \<Rightarrow> bool" where
  "greedy_order t modules order \<longleftrightarrow>
     (\<forall>k<length order.
        List.find (\<lambda>m. m \<notin> set (take k order) \<and> deps_met t modules (set (take k order)) m) modules
        = Some (order ! k))"

definition dependency_relation :: "module_table \<Rightarrow> module_ptr list \<Rightarrow> (module_ptr \<times> module_ptr) set" where
  "dependency_relation t modules =
     {(m, d). m \<in> set modules \<and> d \<in> set modules \<and> DependsOn t m d}"

definition resolve_inv :: "module_table \<Rightarrow> module_ptr list \<Rightarrow> u32 list \<Rightarrow> nat list \<Rightarrow> bool" where
  "resolve_inv t modules pending es \<longleftrightarrow>
     length pending = length modules \<and> distinct es \<and> set es \<subseteq> {..<length modules}
     \<and> (\<forall>i\<in>set es. pending ! i = Emitted)
     \<and> (\<forall>i<length modules. i \<notin> set es \<longrightarrow>
          unat (pending ! i) + card {e\<in>set es. DependsOn t (modules ! i) (modules ! e)}
          = length (ordering_deps t modules (modules ! i)))"

lemma fold_or: "fold (\<lambda>d acc. acc \<or> P d) xs b \<longleftrightarrow> b \<or> (\<exists>d\<in>set xs. P d)"
  by (induction xs arbitrary: b) auto

lemma fold_count: "fold (\<lambda>d n. if P d then n + 1 else n) xs (c :: 'w::len word) = c + of_nat (length (filter P xs))"
  by (induction xs arbitrary: c) (auto simp: algebra_simps)

lemma fold_rev_find:
  "fold (\<lambda>x acc. if P x then Some (f x) else acc) (rev xs) None = map_option f (List.find P xs)"
  by (induction xs) auto

lemma find_map_option: "List.find P (map f xs) = map_option f (List.find (P \<circ> f) xs)"
  by (induction xs) auto

lemma DependsOn_iff:
  "DependsOn t a b \<longleftrightarrow>
     (\<exists>d\<in>set (GetDependencies t a). IsOrderingDependency (kind d) \<and> pModule d = Some (GetId t b))"
  unfolding DependsOn_def by (subst fold_or) auto

lemma waiting_count_eq: "waiting_count t modules m = of_nat (length (ordering_deps t modules m))"
  unfolding waiting_count_def ordering_deps_def by (subst fold_count) simp

lemma next_ready_find: "next_ready pending = List.find (\<lambda>i. pending ! i = 0) [0..<length pending]"
proof -
  have "[1..<Suc (length pending)] = map Suc [0..<length pending]"
    by (simp add: map_Suc_upt)
  then have "next_ready pending =
      map_option (\<lambda>i. i - 1) (List.find (\<lambda>i. pending ! (i - 1) = 0) (map Suc [0..<length pending]))"
    unfolding next_ready_def by (simp add: fold_rev_find)
  also have "\<dots> = List.find (\<lambda>i. pending ! i = 0) [0..<length pending]"
    by (simp add: find_map_option comp_def option.map_comp option.map_ident)
  finally show ?thesis .
qed

lemma next_ready_Some:
  assumes "next_ready pending = Some n"
  shows "n < length pending" and "pending ! n = 0" and "\<And>j. j < n \<Longrightarrow> pending ! j \<noteq> 0"
  using assms unfolding next_ready_find find_Some_iff by auto

lemma next_ready_None:
  "next_ready pending = None \<longleftrightarrow> (\<forall>i<length pending. pending ! i \<noteq> 0)"
  unfolding next_ready_find find_None_set by auto

lemma FindLoaded_Some_iff:
  "FindLoaded t modules p \<noteq> None \<longleftrightarrow> (\<exists>m\<in>set modules. p = Some (GetId t m))"
  unfolding FindLoaded_def by (subst find_None_set) auto

subsection \<open>The resolution loop keeps its counters\<close>

lemma graph_wf_index_inj:
  assumes "graph_wf t modules" and "x < length modules" and "y < length modules"
    and "GetId t (modules ! x) = GetId t (modules ! y)"
  shows "x = y"
  using assms inj_onD[of "GetId t" "set modules" "modules ! x" "modules ! y"]
  by (auto simp: graph_wf_def nth_eq_iff_index_eq)

lemma dependents_card_le:
  assumes "graph_wf t modules"
  shows "card {e. e < length modules \<and> DependsOn t m (modules ! e)} \<le> length (ordering_deps t modules m)"
    and "E \<subseteq> {..<length modules} \<Longrightarrow>
         card {e\<in>E. DependsOn t m (modules ! e)} \<le> length (ordering_deps t modules m)"
proof -
  let ?D = "{e. e < length modules \<and> DependsOn t m (modules ! e)}"
  let ?f = "\<lambda>e. Some (GetId t (modules ! e))"
  have inj: "inj_on ?f ?D"
    using graph_wf_index_inj[OF assms] by (auto intro!: inj_onI)
  have "?f ` ?D \<subseteq> pModule ` set (ordering_deps t modules m)"
  proof
    fix p assume "p \<in> ?f ` ?D"
    then obtain e d where "e < length modules" "p = ?f e" "d \<in> set (GetDependencies t m)"
        "IsOrderingDependency (kind d)" "pModule d = p"
      by (auto simp: DependsOn_iff)
    moreover from this have "FindLoaded t modules p \<noteq> None"
      by (subst FindLoaded_Some_iff) auto
    ultimately show "p \<in> pModule ` set (ordering_deps t modules m)"
      by (auto simp: ordering_deps_def image_iff)
  qed
  then have "card (?f ` ?D) \<le> card (pModule ` set (ordering_deps t modules m))"
    by (intro card_mono) auto
  also have "\<dots> \<le> length (ordering_deps t modules m)"
    using card_image_le[of "set (ordering_deps t modules m)" pModule] card_length[of "ordering_deps t modules m"]
    by simp
  finally show le: "card ?D \<le> length (ordering_deps t modules m)"
    using card_image[OF inj] by simp
  assume "E \<subseteq> {..<length modules}"
  then have "card {e\<in>E. DependsOn t m (modules ! e)} \<le> card ?D"
    by (intro card_mono) auto
  with le show "card {e\<in>E. DependsOn t m (modules ! e)} \<le> length (ordering_deps t modules m)"
    by linarith
qed

lemma dependents_card_eq:
  assumes wf: "graph_wf t modules" and m: "m \<in> set modules" and dd: "deps_distinct t modules"
  shows "card {e. e < length modules \<and> DependsOn t m (modules ! e)} = length (ordering_deps t modules m)"
proof -
  let ?D = "{e. e < length modules \<and> DependsOn t m (modules ! e)}"
  let ?f = "\<lambda>e. Some (GetId t (modules ! e))"
  have inj: "inj_on ?f ?D"
    using graph_wf_index_inj[OF wf] by (auto intro!: inj_onI)
  have "pModule ` set (ordering_deps t modules m) \<subseteq> ?f ` ?D"
  proof
    fix p assume "p \<in> pModule ` set (ordering_deps t modules m)"
    then obtain d where d: "d \<in> set (GetDependencies t m)" "IsOrderingDependency (kind d)"
        "FindLoaded t modules (pModule d) \<noteq> None" "p = pModule d"
      by (auto simp: ordering_deps_def)
    then obtain i where "i < length modules" "p = Some (GetId t (modules ! i))"
      by (auto simp: FindLoaded_Some_iff in_set_conv_nth simp del: not_None_eq)
    moreover from this d have "DependsOn t m (modules ! i)"
      by (auto simp: DependsOn_iff)
    ultimately show "p \<in> ?f ` ?D" by blast
  qed
  then have "card (pModule ` set (ordering_deps t modules m)) \<le> card (?f ` ?D)"
    by (intro card_mono) auto
  moreover have "card (pModule ` set (ordering_deps t modules m)) = length (ordering_deps t modules m)"
    using dd m distinct_card[of "map pModule (ordering_deps t modules m)"] by (auto simp: deps_distinct_def)
  ultimately show ?thesis
    using card_image[OF inj] dependents_card_le(1)[OF wf, of m] by simp
qed

lemma ordering_deps_short:
  assumes "graph_wf t modules" and "m \<in> set modules"
  shows "length (ordering_deps t modules m) < 2 ^ 32 - 1"
proof -
  have "length (ordering_deps t modules m) \<le> length (GetDependencies t m)"
    by (simp add: ordering_deps_def)
  with assms show ?thesis by (fastforce simp: graph_wf_def)
qed

lemma unat_Emitted: "unat Emitted = 2 ^ 32 - 1"
  by (simp add: Emitted_def unsigned_minus_1_eq_mask mask_eq_exp_minus_1)

lemma resolve_inv_start:
  assumes "graph_wf t modules"
  shows "resolve_inv t modules (map (waiting_count t modules) modules) []"
proof -
  have "unat (of_nat (length (ordering_deps t modules (modules ! i))) :: u32)
      = length (ordering_deps t modules (modules ! i))" if "i < length modules" for i
    using ordering_deps_short[OF assms, of "modules ! i"] that by (intro unat_of_nat_small) simp
  then show ?thesis
    by (simp add: resolve_inv_def waiting_count_eq)
qed

lemma resolve_inv_pending:
  assumes "graph_wf t modules" and "resolve_inv t modules pending es"
    and "i < length modules" and "i \<notin> set es"
  shows "unat (pending ! i) < 2 ^ 32 - 1" and "pending ! i \<noteq> Emitted"
proof -
  have "unat (pending ! i) \<le> length (ordering_deps t modules (modules ! i))"
    using assms(2-4) by (fastforce simp: resolve_inv_def)
  with ordering_deps_short[OF assms(1), of "modules ! i"] assms(3)
  show lt: "unat (pending ! i) < 2 ^ 32 - 1" by simp
  then show "pending ! i \<noteq> Emitted" using unat_Emitted by auto
qed

lemma next_ready_fresh:
  assumes "resolve_inv t modules pending es" and "next_ready pending = Some nxt"
  shows "nxt < length modules" and "nxt \<notin> set es"
  using assms next_ready_Some[OF assms(2)] by (auto simp: resolve_inv_def Emitted_def)

lemma resolve_inv_step:
  assumes wf: "graph_wf t modules" and inv: "resolve_inv t modules pending es"
    and nxt: "next_ready pending = Some nxt"
  shows "resolve_inv t modules (release_dependents t modules (pending[nxt := Emitted]) nxt) (es @ [nxt])"
proof -
  let ?p = "pending[nxt := Emitted]"
  let ?q = "release_dependents t modules ?p nxt"
  note fresh = next_ready_fresh[OF inv nxt]
  have len: "length pending = length modules" using inv by (simp add: resolve_inv_def)
  have q: "?q ! i = (if ?p ! i \<noteq> Emitted \<and> DependsOn t (modules ! i) (modules ! nxt)
                     then ?p ! i - 1 else ?p ! i)" if "i < length modules" for i
    using that by (simp add: release_dependents_def)
  have emitted: "?q ! i = Emitted" if "i \<in> set (es @ [nxt])" for i
    using that inv fresh len by (cases "i = nxt") (auto simp: q resolve_inv_def subset_eq)
  have count: "unat (?q ! i) + card {e\<in>set (es @ [nxt]). DependsOn t (modules ! i) (modules ! e)}
      = length (ordering_deps t modules (modules ! i))"
    if i: "i < length modules" "i \<notin> set (es @ [nxt])" for i
  proof -
    let ?C = "{e\<in>set es. DependsOn t (modules ! i) (modules ! e)}"
    have old: "unat (pending ! i) + card ?C = length (ordering_deps t modules (modules ! i))"
      using inv i by (simp add: resolve_inv_def)
    have pi: "?p ! i = pending ! i" using i by simp
    have ne: "pending ! i \<noteq> Emitted" using resolve_inv_pending(2)[OF wf inv i(1)] i by simp
    show ?thesis
    proof (cases "DependsOn t (modules ! i) (modules ! nxt)")
      case True
      have set_eq: "{e\<in>set (es @ [nxt]). DependsOn t (modules ! i) (modules ! e)} = insert nxt ?C"
        using True by auto
      have card_eq: "card (insert nxt ?C) = Suc (card ?C)"
        using fresh by simp
      have "Suc (card ?C) \<le> length (ordering_deps t modules (modules ! i))"
        using dependents_card_le(2)[OF wf, of "set (es @ [nxt])" "modules ! i"] inv fresh
        unfolding set_eq card_eq by (auto simp: resolve_inv_def)
      with old have "1 \<le> unat (pending ! i)" by linarith
      then have "unat (pending ! i - 1) = unat (pending ! i) - 1"
        by (simp add: unat_diff_nowrap)
      with old True ne i q[OF i(1)] pi card_eq set_eq \<open>1 \<le> unat (pending ! i)\<close>
      show ?thesis by simp
    next
      case False
      then have "{e\<in>set (es @ [nxt]). DependsOn t (modules ! i) (modules ! e)} = ?C" by auto
      with old False q[OF i(1)] pi show ?thesis by simp
    qed
  qed
  show ?thesis
    using inv fresh emitted count unfolding resolve_inv_def
    by (auto simp: release_dependents_def)
qed

text \<open>
  A proof rule for the loop: a property of the emitted indices that every iteration keeps
  holds when the loop ends, together with the counter invariant and the reason it ended.
\<close>

lemma resolve_loop_rule:
  assumes wf: "graph_wf t modules"
    and step: "\<And>pending es nxt. resolve_inv t modules pending es \<Longrightarrow> Q es \<Longrightarrow>
                 next_ready pending = Some nxt \<Longrightarrow> Q (es @ [nxt])"
    and "resolve_inv t modules pending es" and "Q es"
    and "resolve_loop t modules pending (map ((!) modules) es) = (ok, order, errors)"
  obtains pending' es' where "order = map ((!) modules) es'" and "resolve_inv t modules pending' es'"
    and "Q es'" and "ok \<longleftrightarrow> length es' \<ge> length modules"
    and "\<not> ok \<Longrightarrow> next_ready pending' = None"
    and "errors = (if ok then [] else [DependencyCycle (cycle_names t modules pending')])"
proof -
  define n where "n = length modules - length es"
  have "\<exists>pending' es'. order = map ((!) modules) es' \<and> resolve_inv t modules pending' es' \<and> Q es'
      \<and> (ok \<longleftrightarrow> length es' \<ge> length modules) \<and> (\<not> ok \<longrightarrow> next_ready pending' = None)
      \<and> errors = (if ok then [] else [DependencyCycle (cycle_names t modules pending')])"
    using assms(3-5) n_def
  proof (induction n arbitrary: pending es rule: less_induct)
    case (less n)
    show ?case
    proof (cases "length es < length modules")
      case False
      with less.prems(3) have "ok" "order = map ((!) modules) es" "errors = []"
        by (auto simp: resolve_loop.simps[of t modules pending])
      with False less.prems(1,2) show ?thesis by (auto intro!: exI[of _ pending] exI[of _ es])
    next
      case True
      show ?thesis
      proof (cases "next_ready pending")
        case None
        with True less.prems(3) have "\<not> ok" "order = map ((!) modules) es"
            "errors = [DependencyCycle (cycle_names t modules pending)]"
          by (auto simp: resolve_loop.simps[of t modules pending])
        with True None less.prems(1,2) show ?thesis by (auto intro!: exI[of _ pending] exI[of _ es])
      next
        case (Some nxt)
        let ?q = "release_dependents t modules (pending[nxt := Emitted]) nxt"
        have "resolve_loop t modules ?q (map ((!) modules) (es @ [nxt])) = (ok, order, errors)"
          using True Some less.prems(3) by (simp add: resolve_loop.simps[of t modules pending])
        moreover have "resolve_inv t modules ?q (es @ [nxt])"
          using resolve_inv_step[OF wf less.prems(1) Some] .
        moreover have "Q (es @ [nxt])" using step[OF less.prems(1,2) Some] .
        moreover have "length modules - length (es @ [nxt]) < n" using True less.prems(4) by simp
        ultimately show ?thesis using less.IH by blast
      qed
    qed
  qed
  then show thesis using that by blast
qed

lemma ready_deps_met:
  assumes wf: "graph_wf t modules" and inv: "resolve_inv t modules pending es"
    and i: "i < length modules" "i \<notin> set es" and zero: "pending ! i = 0"
  shows "deps_met t modules ((!) modules ` set es) (modules ! i)"
proof -
  let ?D = "{e. e < length modules \<and> DependsOn t (modules ! i) (modules ! e)}"
  let ?C = "{e\<in>set es. DependsOn t (modules ! i) (modules ! e)}"
  have sub: "?C \<subseteq> ?D" using inv by (auto simp: resolve_inv_def)
  have "card ?C = length (ordering_deps t modules (modules ! i))"
    using inv i zero by (auto simp: resolve_inv_def)
  then have "card ?D \<le> card ?C" using dependents_card_le(1)[OF wf] by simp
  then have eq: "?C = ?D" using sub card_seteq[of ?D ?C] by auto
  show ?thesis
    unfolding deps_met_def
  proof (intro ballI impI)
    fix d assume "d \<in> set modules" "DependsOn t (modules ! i) d"
    then obtain e where "e \<in> ?D" "d = modules ! e" by (auto simp: in_set_conv_nth)
    with eq show "d \<in> (!) modules ` set es" by blast
  qed
qed

lemma deps_met_ready:
  assumes wf: "graph_wf t modules" and dd: "deps_distinct t modules"
    and inv: "resolve_inv t modules pending es"
    and i: "i < length modules" "i \<notin> set es"
    and met: "deps_met t modules ((!) modules ` set es) (modules ! i)"
  shows "pending ! i = 0"
proof -
  let ?D = "{e. e < length modules \<and> DependsOn t (modules ! i) (modules ! e)}"
  let ?C = "{e\<in>set es. DependsOn t (modules ! i) (modules ! e)}"
  have "?D \<subseteq> ?C"
  proof
    fix e assume e: "e \<in> ?D"
    then obtain e' where "e' \<in> set es" "modules ! e = modules ! e'"
      using met by (auto simp: deps_met_def)
    moreover have "e' < length modules" using \<open>e' \<in> set es\<close> inv by (auto simp: resolve_inv_def)
    ultimately have "e = e'" using wf e by (auto simp: graph_wf_def nth_eq_iff_index_eq)
    with e \<open>e' \<in> set es\<close> show "e \<in> ?C" by simp
  qed
  then have "card ?D \<le> card ?C" by (intro card_mono) auto
  then have "length (ordering_deps t modules (modules ! i)) \<le> card ?C"
    using dependents_card_eq[OF wf _ dd, of "modules ! i"] i by simp
  moreover have "unat (pending ! i) + card ?C = length (ordering_deps t modules (modules ! i))"
    using inv i by (simp add: resolve_inv_def)
  ultimately have "unat (pending ! i) = 0" by linarith
  then show ?thesis by (simp add: unat_eq_0)
qed

lemma index_of_emitted:
  assumes "graph_wf t modules" and "resolve_inv t modules pending es" and "i < length modules"
  shows "modules ! i \<in> (!) modules ` set es \<longleftrightarrow> i \<in> set es"
  using assms by (auto simp: graph_wf_def resolve_inv_def nth_eq_iff_index_eq)

subsection \<open>What Resolve computes\<close>

definition emitted_closed :: "module_table \<Rightarrow> module_ptr list \<Rightarrow> nat list \<Rightarrow> bool" where
  "emitted_closed t modules es \<longleftrightarrow>
     (\<forall>k<length es. deps_met t modules ((!) modules ` set (take k es)) (modules ! (es ! k)))"

lemma emitted_closed_snoc:
  assumes "emitted_closed t modules es"
    and "deps_met t modules ((!) modules ` set es) (modules ! nxt)"
  shows "emitted_closed t modules (es @ [nxt])"
  using assms by (auto simp: emitted_closed_def nth_append less_Suc_eq)

lemma greedy_order_snoc:
  assumes "greedy_order t modules order"
    and "List.find (\<lambda>m. m \<notin> set order \<and> deps_met t modules (set order) m) modules = Some m"
  shows "greedy_order t modules (order @ [m])"
  using assms by (auto simp: greedy_order_def nth_append less_Suc_eq)

lemma Resolve_cases:
  assumes wf: "graph_wf t modules"
    and step: "\<And>pending es nxt. resolve_inv t modules pending es \<Longrightarrow> Q es \<Longrightarrow>
                 next_ready pending = Some nxt \<Longrightarrow> Q (es @ [nxt])"
    and "Q []"
    and res: "Resolve t modules = (ok, order, errors)"
  obtains (invalid) "\<not> ok" "order = []" "\<not> fst (validate_modules t modules modules True [])"
          "errors = snd (validate_modules t modules modules True [])"
  | (valid) pending es where "fst (validate_modules t modules modules True [])"
      "order = map ((!) modules) es" "resolve_inv t modules pending es" "Q es"
      "ok \<longleftrightarrow> length es \<ge> length modules" "\<not> ok \<Longrightarrow> next_ready pending = None"
proof (cases "fst (validate_modules t modules modules True [])")
  case False
  with res show thesis by (intro invalid) (auto simp: Resolve_def split: prod.splits)
next
  case True
  then obtain errs where loop:
      "resolve_loop t modules (map (waiting_count t modules) modules) (map ((!) modules) []) = (ok, order, errs)"
    using res by (auto simp: Resolve_def split: prod.splits)
  show thesis
  proof (rule resolve_loop_rule[where Q = Q, OF wf _ resolve_inv_start[OF wf] \<open>Q []\<close> loop])
    show "\<And>pending es nxt. resolve_inv t modules pending es \<Longrightarrow> Q es \<Longrightarrow>
        next_ready pending = Some nxt \<Longrightarrow> Q (es @ [nxt])" by (rule step)
  next
    fix pending es
    assume "order = map ((!) modules) es" "resolve_inv t modules pending es" "Q es"
      "ok = (length modules \<le> length es)" "\<not> ok \<Longrightarrow> next_ready pending = None"
    with True show thesis by (rule valid)
  qed
qed

lemma resolve_inv_complete:
  assumes "resolve_inv t modules pending es" and "length es \<ge> length modules"
  shows "set es = {..<length modules}"
proof -
  have "card (set es) = length es" and sub: "set es \<subseteq> {..<length modules}"
    using assms(1) by (auto simp: resolve_inv_def distinct_card)
  then show ?thesis using assms(2) card_seteq[of "{..<length modules}" "set es"] by simp
qed


lemma emitted_sets:
  assumes "resolve_inv t modules pending es"
  shows "set (take k (map ((!) modules) es)) = (!) modules ` set (take k es)"
  by (simp add: take_map)

lemma find_first_index:
  assumes "n < length xs" and "P (xs ! n)" and "\<And>j. j < n \<Longrightarrow> \<not> P (xs ! j)"
  shows "List.find P xs = Some (xs ! n)"
  using assms by (auto simp: find_Some_iff)

lemma greedy_step:
  assumes wf: "graph_wf t modules" and dd: "deps_distinct t modules"
    and inv: "resolve_inv t modules pending es"
    and nxt: "next_ready pending = Some nxt"
  shows "List.find (\<lambda>m. m \<notin> (!) modules ` set es \<and> deps_met t modules ((!) modules ` set es) m) modules
         = Some (modules ! nxt)"
proof (rule find_first_index)
  note fresh = next_ready_fresh[OF inv nxt]
  show "nxt < length modules" by (rule fresh)
  show "modules ! nxt \<notin> (!) modules ` set es \<and> deps_met t modules ((!) modules ` set es) (modules ! nxt)"
    using ready_deps_met[OF wf inv fresh next_ready_Some(2)[OF nxt]] index_of_emitted[OF wf inv fresh(1)] fresh
    by simp
next
  fix j assume j: "j < nxt"
  then have jn: "j < length modules" using next_ready_fresh(1)[OF inv nxt] by simp
  show "\<not> (modules ! j \<notin> (!) modules ` set es \<and> deps_met t modules ((!) modules ` set es) (modules ! j))"
    using deps_met_ready[OF wf dd inv jn] next_ready_Some(3)[OF nxt j] index_of_emitted[OF wf inv jn] by blast
qed

lemma resolve_sound:
  assumes wf: "graph_wf t modules" and res: "Resolve t modules = (True, order, errors)"
  shows "mset order = mset modules" and "topological t order"
proof -
  have "mset order = mset modules \<and> topological t order"
  proof (rule Resolve_cases[where Q = "emitted_closed t modules", OF wf _ _ res])
    fix pending es nxt
    assume inv: "resolve_inv t modules pending es" and closed: "emitted_closed t modules es"
      and nxt: "next_ready pending = Some nxt"
    show "emitted_closed t modules (es @ [nxt])"
      using closed ready_deps_met[OF wf inv next_ready_fresh[OF inv nxt] next_ready_Some(2)[OF nxt]]
      by (rule emitted_closed_snoc)
  next
    show "emitted_closed t modules []" by (simp add: emitted_closed_def)
  next
    fix pending es
    assume order: "order = map ((!) modules) es" and inv: "resolve_inv t modules pending es"
      and closed: "emitted_closed t modules es" and ok: "True = (length modules \<le> length es)"
    have es: "set es = {..<length modules}" using resolve_inv_complete[OF inv] ok by simp
    then have "mset es = mset [0..<length modules]"
      using inv by (intro set_eq_iff_mset_eq_distinct[THEN iffD1]) (auto simp: resolve_inv_def atLeast0LessThan)
    then have "mset order = mset (map ((!) modules) [0..<length modules])"
      unfolding order by (metis mset_map)
    then have ms: "mset order = mset modules" by (simp add: map_nth)
    then have "set order = set modules" by (rule mset_eq_setD)
    then have "topological t order"
      using closed unfolding order topological_def emitted_closed_def deps_met_def
      by (simp add: take_map)
    with ms show ?thesis by blast
  qed simp
  then show "mset order = mset modules" and "topological t order" by blast+
qed

lemma resolve_greedy:
  assumes wf: "graph_wf t modules" and dd: "deps_distinct t modules"
    and res: "Resolve t modules = (ok, order, errors)"
  shows "greedy_order t modules order"
proof (rule Resolve_cases[where Q = "\<lambda>es. greedy_order t modules (map ((!) modules) es)", OF wf _ _ res])
  fix pending es nxt
  assume inv: "resolve_inv t modules pending es" and nxt: "next_ready pending = Some nxt"
    and g: "greedy_order t modules (map ((!) modules) es)"
  show "greedy_order t modules (map ((!) modules) (es @ [nxt]))"
    using greedy_order_snoc[OF g, of "modules ! nxt"] greedy_step[OF wf dd inv nxt] by simp
qed (auto simp: greedy_order_def)

subsection \<open>When Resolve succeeds\<close>

definition dependency_ok :: "module_table \<Rightarrow> module_ptr list \<Rightarrow> SDependency \<Rightarrow> bool" where
  "dependency_ok t modules d \<longleftrightarrow>
     (\<exists>p. pModule d = Some p
        \<and> (if p \<in> GetId t ` set modules
            then IsConstrained (minVersion d) \<longrightarrow> Satisfies (id_version (id_info t p)) (minVersion d)
            else kind d \<noteq> Required))"

definition graph_valid :: "module_table \<Rightarrow> module_ptr list \<Rightarrow> bool" where
  "graph_valid t modules \<longleftrightarrow>
     (\<forall>m\<in>set modules. id_contract (id_info t (GetId t m)) = ModuleContractVersion
        \<and> (\<forall>d\<in>set (GetDependencies t m). dependency_ok t modules d))"

lemma FindLoaded_None_iff: "FindLoaded t modules (Some p) = None \<longleftrightarrow> p \<notin> GetId t ` set modules"
  unfolding FindLoaded_def by (subst find_None_set) auto

lemma validate_dependency_ok: "fst (validate_dependency t modules m d) \<longleftrightarrow> dependency_ok t modules d"
  by (auto simp: validate_dependency_def dependency_ok_def FindLoaded_None_iff split: option.splits if_splits)

lemma validate_deps_eq:
  "validate_deps t modules m ds valid log =
     (valid \<and> (\<forall>d\<in>set ds. fst (validate_dependency t modules m d)),
      log @ concat (map (\<lambda>d. snd (validate_dependency t modules m d)) ds))"
  by (induction ds arbitrary: valid log) (auto split: prod.splits)

lemma validate_modules_eq:
  "validate_modules t modules ms resolved log =
     (resolved \<and> (\<forall>m\<in>set ms. fst (ValidateContract t m) \<and> fst (ValidateDependencies t m modules)),
      log @ concat (map (\<lambda>m. snd (ValidateContract t m) @ snd (ValidateDependencies t m modules)) ms))"
  by (induction ms arbitrary: resolved log) (auto split: prod.splits)

lemma validate_modules_valid:
  "fst (validate_modules t modules modules True []) \<longleftrightarrow> graph_valid t modules"
  by (auto simp: validate_modules_eq graph_valid_def ValidateDependencies_def validate_deps_eq
      validate_dependency_ok ValidateContract_def Let_def split: if_splits)

lemma ready_distinct:
  assumes wf: "graph_wf t modules" and inv: "resolve_inv t modules pending es"
    and i: "i < length modules" "i \<notin> set es" and zero: "pending ! i = 0"
  shows "distinct (map pModule (ordering_deps t modules (modules ! i)))"
proof -
  let ?C = "{e\<in>set es. DependsOn t (modules ! i) (modules ! e)}"
  let ?f = "\<lambda>e. Some (GetId t (modules ! e))"
  let ?od = "map pModule (ordering_deps t modules (modules ! i))"
  have bound: "\<And>e. e \<in> set es \<Longrightarrow> e < length modules" using inv by (auto simp: resolve_inv_def)
  have "inj_on ?f ?C" using graph_wf_index_inj[OF wf] bound by (auto intro!: inj_onI)
  moreover have "?f ` ?C \<subseteq> set ?od"
  proof
    fix p assume "p \<in> ?f ` ?C"
    then obtain e d where "e < length modules" "p = ?f e" "d \<in> set (GetDependencies t (modules ! i))"
        "IsOrderingDependency (kind d)" "pModule d = p"
      using bound by (auto simp: DependsOn_iff)
    moreover from this have "FindLoaded t modules p \<noteq> None"
      by (subst FindLoaded_Some_iff) auto
    ultimately show "p \<in> set ?od" by (auto simp: ordering_deps_def image_iff)
  qed
  ultimately have "card ?C \<le> card (set ?od)" by (metis card_image card_mono List.finite_set)
  moreover have "card ?C = length ?od" using inv i zero by (auto simp: resolve_inv_def)
  ultimately show ?thesis using card_length[of ?od] by (intro card_distinct) simp
qed

lemma resolve_success_distinct:
  assumes wf: "graph_wf t modules" and res: "Resolve t modules = (True, order, errors)"
  shows "deps_distinct t modules"
proof (rule Resolve_cases[OF wf _ _ res,
      where Q = "\<lambda>es. \<forall>e\<in>set es. distinct (map pModule (ordering_deps t modules (modules ! e)))"])
  fix pending es nxt
  assume inv: "resolve_inv t modules pending es" and nxt: "next_ready pending = Some nxt"
    and "\<forall>e\<in>set es. distinct (map pModule (ordering_deps t modules (modules ! e)))"
  then show "\<forall>e\<in>set (es @ [nxt]). distinct (map pModule (ordering_deps t modules (modules ! e)))"
    using ready_distinct[OF wf inv next_ready_fresh[OF inv nxt] next_ready_Some(2)[OF nxt]] by auto
next
  fix pending es
  assume inv: "resolve_inv t modules pending es" and ok: "True = (length modules \<le> length es)"
    and d: "\<forall>e\<in>set es. distinct (map pModule (ordering_deps t modules (modules ! e)))"
  have "set es = {..<length modules}" using resolve_inv_complete[OF inv] ok by simp
  with d show ?thesis by (auto simp: deps_distinct_def in_set_conv_nth)
qed auto

lemma topological_acyclic:
  assumes "distinct order" and "topological t order" and "set order = set modules"
  shows "acyclic (dependency_relation t modules)"
proof -
  define pos where "pos m = (THE k. k < length order \<and> order ! k = m)" for m
  have pos: "pos (order ! k) = k" if "k < length order" for k
    unfolding pos_def using that assms(1) by (auto simp: nth_eq_iff_index_eq)
  have "(dependency_relation t modules)\<inverse> \<subseteq> measure pos"
  proof (clarsimp simp: dependency_relation_def)
    fix m d assume "m \<in> set modules" "d \<in> set modules" "DependsOn t m d"
    then obtain k where k: "k < length order" "m = order ! k"
      using assms(3) by (metis in_set_conv_nth)
    with assms(2,3) \<open>DependsOn t m d\<close> \<open>d \<in> set modules\<close> have "d \<in> set (take k order)"
      by (auto simp: topological_def deps_met_def)
    then obtain j where "j < k" "d = order ! j" using k by (auto simp: in_set_conv_nth)
    with k show "pos d < pos m" by (simp add: pos)
  qed
  then have "wf ((dependency_relation t modules)\<inverse>)" by (rule wf_subset[OF wf_measure])
  then show ?thesis using wf_acyclic acyclic_converse by blast
qed

lemma resolve_complete:
  assumes wf: "graph_wf t modules" and dd: "deps_distinct t modules" and valid: "graph_valid t modules"
    and ac: "acyclic (dependency_relation t modules)"
  shows "fst (Resolve t modules)"
proof (rule ccontr)
  assume "\<not> fst (Resolve t modules)"
  then obtain order errors where res: "Resolve t modules = (False, order, errors)"
    by (cases "Resolve t modules") auto
  show False
  proof (rule Resolve_cases[where Q = "\<lambda>_. True", OF wf _ _ res])
    assume "\<not> fst (validate_modules t modules modules True [])"
    then show False using valid validate_modules_valid by blast
  next
    fix pending es
    assume inv: "resolve_inv t modules pending es" and short: "False = (length modules \<le> length es)"
      and none: "\<not> False \<Longrightarrow> next_ready pending = None"
    let ?U = "set modules - (!) modules ` set es"
    have "card ((!) modules ` set es) \<le> length es"
      by (rule order_trans[OF card_image_le[OF List.finite_set] card_length])
    moreover have "card (set modules) = length modules"
      using wf by (simp add: graph_wf_def distinct_card)
    ultimately have "?U \<noteq> {}"
      using short card_mono[of "(!) modules ` set es" "set modules"] by fastforce
    then obtain u where "u \<in> ?U" by blast
    have "finite (dependency_relation t modules)"
      by (rule finite_subset[of _ "set modules \<times> set modules"]) (auto simp: dependency_relation_def)
    then have "wf ((dependency_relation t modules)\<inverse>)"
      using ac by (rule finite_acyclic_wf_converse)
    then obtain m where m: "m \<in> ?U" "\<And>d. (m, d) \<in> dependency_relation t modules \<Longrightarrow> d \<notin> ?U"
      using wfE_min[OF _ \<open>u \<in> ?U\<close>] by (metis converse_iff)
    then obtain i where i: "i < length modules" "m = modules ! i" "i \<notin> set es"
      by (metis DiffD1 DiffD2 imageI in_set_conv_nth)
    have "deps_met t modules ((!) modules ` set es) (modules ! i)"
      using m i by (auto simp: deps_met_def dependency_relation_def)
    then have "pending ! i = 0" by (rule deps_met_ready[OF wf dd inv i(1,3)])
    moreover have "length pending = length modules" using inv by (simp add: resolve_inv_def)
    ultimately show False using none i next_ready_None by auto
  qed auto
qed


lemma resolve_success_iff:
  assumes wf: "graph_wf t modules"
  shows "fst (Resolve t modules) \<longleftrightarrow>
    graph_valid t modules \<and> deps_distinct t modules \<and> acyclic (dependency_relation t modules)"
proof
  assume "fst (Resolve t modules)"
  then obtain order errors where res: "Resolve t modules = (True, order, errors)"
    by (cases "Resolve t modules") auto
  note sound = resolve_sound[OF wf res]
  have "graph_valid t modules"
    using res validate_modules_valid[of t modules] by (auto simp: Resolve_def split: prod.splits if_splits)
  moreover have "distinct order" and "set order = set modules"
    using sound(1) wf by (auto simp: graph_wf_def dest: mset_eq_imp_distinct_iff mset_eq_setD)
  ultimately show "graph_valid t modules \<and> deps_distinct t modules
      \<and> acyclic (dependency_relation t modules)"
    using resolve_success_distinct[OF wf res] topological_acyclic[OF _ sound(2)] by blast
qed (use resolve_complete[OF wf] in blast)

lemma resolve_errors_superset:
  assumes "Resolve t modules = (ok, order, errors)" and "m \<in> set modules"
  shows "set (snd (ValidateContract t m)) \<subseteq> set errors"
    and "d \<in> set (GetDependencies t m) \<Longrightarrow> set (snd (validate_dependency t modules m d)) \<subseteq> set errors"
proof -
  have log: "set (snd (validate_modules t modules modules True [])) \<subseteq> set errors"
    using assms(1) by (auto simp: Resolve_def split: prod.splits if_splits)
  have "set (snd (ValidateContract t m) @ snd (ValidateDependencies t m modules))
      \<subseteq> set (snd (validate_modules t modules modules True []))"
    using assms(2) by (auto simp: validate_modules_eq)
  with log have all: "set (snd (ValidateContract t m) @ snd (ValidateDependencies t m modules)) \<subseteq> set errors"
    by blast
  then show "set (snd (ValidateContract t m)) \<subseteq> set errors" by simp
  assume "d \<in> set (GetDependencies t m)"
  then have "set (snd (validate_dependency t modules m d)) \<subseteq> set (snd (ValidateDependencies t m modules))"
    by (auto simp: ValidateDependencies_def validate_deps_eq)
  with all show "set (snd (validate_dependency t modules m d)) \<subseteq> set errors" by auto
qed

lemma resolve_invalid_fails:
  assumes "Resolve t modules = (ok, order, errors)" and "\<not> graph_valid t modules"
  shows "\<not> ok" and "order = []"
  using assms validate_modules_valid[of t modules] by (auto simp: Resolve_def split: prod.splits if_splits)

lemma resolve_offence:
  assumes res: "Resolve t modules = (ok, order, errors)" and "m \<in> set modules"
    and "d \<in> set (GetDependencies t m)" and "validate_dependency t modules m d = (False, [e])"
  shows "\<not> ok \<and> order = [] \<and> e \<in> set errors"
proof -
  have "\<not> dependency_ok t modules d" using assms(4) validate_dependency_ok[of t modules m d] by simp
  then have "\<not> graph_valid t modules" using assms(2,3) by (auto simp: graph_valid_def)
  with resolve_invalid_fails[OF res] resolve_errors_superset(2)[OF res assms(2,3)] assms(4)
  show ?thesis by simp
qed

subsection \<open>The interface the runtime relies on\<close>

text \<open>
  The runtime needs two laws of a resolver: a successful resolution orders exactly the modules it was
  given, and it orders them topologically.
\<close>

locale dependency_resolver =
  fixes resolve :: "module_table \<Rightarrow> module_ptr list \<Rightarrow> bool \<times> module_ptr list \<times> graph_error list"
  assumes order_complete: "graph_wf t modules \<Longrightarrow> resolve t modules = (True, order, errors) \<Longrightarrow> mset order = mset modules"
    and order_topological: "graph_wf t modules \<Longrightarrow> resolve t modules = (True, order, errors) \<Longrightarrow> topological t order"
begin

lemma dependency_first:
  assumes "graph_wf t modules" and "resolve t modules = (True, order, errors)"
    and "m \<in> set order" and "d \<in> set order" and "DependsOn t m d"
  shows "\<exists>i j. i < j \<and> j < length order \<and> order ! i = d \<and> order ! j = m"
proof -
  obtain j where j: "j < length order" "order ! j = m" using assms(3) by (auto simp: in_set_conv_nth)
  with order_topological[OF assms(1,2)] assms(4,5) have "d \<in> set (take j order)"
    by (auto simp: topological_def deps_met_def)
  then obtain i where "i < j" "order ! i = d" using j by (auto simp: in_set_conv_nth)
  with j show ?thesis by blast
qed

end

interpretation module_graph: dependency_resolver Resolve
  by unfold_locales (use resolve_sound in blast)+

subsection \<open>Properties\<close>

text \<open>
  A small run context for the witnesses: module 1 requires module 3, module 2 uses 1 when it is
  loaded, module 3 stands alone.  Identities equal the module pointers.
\<close>

definition demo_table :: module_table where
  "demo_table =
     \<lparr>GetId = (\<lambda>m. m),
      GetDependencies = (\<lambda>m. if m = 1 then [\<lparr>pModule = Some 3, kind = Required, minVersion = \<lparr>major = 1, minor = 2, patch = 0\<rparr>\<rparr>]
                             else if m = 2 then [\<lparr>pModule = Some 1, kind = Optional, minVersion = \<lparr>major = 0, minor = 0, patch = 0\<rparr>\<rparr>]
                             else []),
      id_info = (\<lambda>p. \<lparr>id_name = ''m'', id_version = \<lparr>major = 1, minor = 2, patch = 3\<rparr>, id_contract = 1\<rparr>)\<rparr>"

lemma demo_wf: "graph_wf demo_table [1, 2, 3]"
  by (simp add: graph_wf_def demo_table_def)

lemma demo_resolve: "Resolve demo_table [1, 2, 3] = (True, [3, 1, 2], [])"
  by code_simp

text \<open>
  C1. When \<open>Resolve\<close> succeeds, the initialization order holds every module of the run context
  exactly once, and every Required or Optional dependency that is loaded stands before its
  dependent.
\<close>

theorem resolve_order_sound:
  assumes "graph_wf t modules" and "Resolve t modules = (True, order, errors)"
  shows "mset order = mset modules \<and> topological t order"
  using resolve_sound[OF assms] by blast

theorem resolve_order_sound_witness:
  "mset [3, 1, 2] = mset [1, 2, 3 :: module_ptr] \<and> topological demo_table [3, 1, 2]"
  by (rule resolve_order_sound[OF demo_wf demo_resolve])

text \<open>
  C2. \<open>Resolve\<close> succeeds exactly when every module passes validation, no module names the same
  ordering dependency twice, and the loaded ordering dependencies form no cycle.
\<close>

theorem resolve_succeeds_iff:
  assumes "graph_wf t modules"
  shows "fst (Resolve t modules) \<longleftrightarrow>
    graph_valid t modules \<and> deps_distinct t modules \<and> acyclic (dependency_relation t modules)"
  using assms by (rule resolve_success_iff)

theorem resolve_succeeds_iff_witness:
  "graph_valid demo_table [1, 2, 3] \<and> deps_distinct demo_table [1, 2, 3]
   \<and> acyclic (dependency_relation demo_table [1, 2, 3])"
  using resolve_succeeds_iff[OF demo_wf] demo_resolve by simp

text \<open>
  The order is stable: at every position stands the first module of the run context, in input
  order, that is not yet placed and whose loaded ordering dependencies all are.
\<close>

theorem resolve_order_stable:
  assumes "graph_wf t modules" and "Resolve t modules = (True, order, errors)" and "k < length order"
  shows "List.find (\<lambda>m. m \<notin> set (take k order) \<and> deps_met t modules (set (take k order)) m) modules
         = Some (order ! k)"
  using resolve_greedy[OF assms(1) resolve_success_distinct[OF assms(1,2)] assms(2)] assms(3)
  by (simp add: greedy_order_def)

theorem resolve_order_stable_witness:
  "List.find (\<lambda>m. m \<notin> set (take 0 [3, 1, 2]) \<and> deps_met demo_table [1, 2, 3] (set (take 0 [3, 1, 2])) m)
     [1, 2, 3] = Some ([3, 1, 2] ! 0)"
  by (rule resolve_order_stable[OF demo_wf demo_resolve]) simp

text \<open>
  Every offender is reported, whatever else is wrong with the context: a contract mismatch, a
  null dependency, a missing required dependency and an unsatisfied version each fail the
  resolution, empty the order and appear among the logged errors.
\<close>

theorem resolve_reports_offenders:
  assumes res: "Resolve t modules = (ok, order, errors)" and m: "m \<in> set modules"
  shows "(id_contract (id_info t (GetId t m)) \<noteq> ModuleContractVersion \<longrightarrow> \<not> ok \<and> order = []
          \<and> ContractMismatch (GetName t m) (id_contract (id_info t (GetId t m))) ModuleContractVersion \<in> set errors)
    \<and> (\<forall>d\<in>set (GetDependencies t m).
        (pModule d = None \<longrightarrow> \<not> ok \<and> order = [] \<and> NullDependency (GetName t m) \<in> set errors)
        \<and> (\<forall>p. pModule d = Some p \<longrightarrow> p \<notin> GetId t ` set modules \<longrightarrow> kind d = Required \<longrightarrow>
            \<not> ok \<and> order = [] \<and> MissingRequired (GetName t m) (id_name (id_info t p)) \<in> set errors)
        \<and> (\<forall>p. pModule d = Some p \<longrightarrow> p \<in> GetId t ` set modules \<longrightarrow> IsConstrained (minVersion d) \<longrightarrow>
            \<not> Satisfies (id_version (id_info t p)) (minVersion d) \<longrightarrow>
            \<not> ok \<and> order = [] \<and> VersionMismatch (GetName t m) (id_name (id_info t p)) (minVersion d)
              (id_version (id_info t p)) \<in> set errors))"
proof -
  have "\<not> ok \<and> order = []
      \<and> ContractMismatch (GetName t m) (id_contract (id_info t (GetId t m))) ModuleContractVersion \<in> set errors"
    if "id_contract (id_info t (GetId t m)) \<noteq> ModuleContractVersion"
    using that m resolve_invalid_fails[OF res] resolve_errors_superset(1)[OF res m]
    by (auto simp: graph_valid_def ValidateContract_def)
  moreover note resolve_offence[OF res m]
  ultimately show ?thesis
    by (simp add: validate_dependency_def FindLoaded_None_iff)
qed

theorem resolve_reports_offenders_witness:
  "\<not> fst (Resolve demo_table [1, 2])
   \<and> MissingRequired ''m'' ''m'' \<in> set (snd (snd (Resolve demo_table [1, 2])))"
proof -
  obtain ok order errors where res: "Resolve demo_table [1, 2] = (ok, order, errors)"
    by (cases "Resolve demo_table [1, 2]") auto
  from resolve_reports_offenders[OF res, of 1] show ?thesis
    unfolding res by (simp add: demo_table_def GetName_def)
qed

text \<open>
  A module that names one loaded ordering dependency twice, say as Required and again as Optional,
  is never resolved: its counter starts at two, a placed dependency takes one off, and the context is
  reported as a cycle although the dependencies may have none.
\<close>

theorem resolve_rejects_duplicates:
  assumes "graph_wf t modules" and "m \<in> set modules"
    and "\<not> distinct (map pModule (ordering_deps t modules m))"
  shows "\<not> fst (Resolve t modules)"
  using resolve_success_iff[OF assms(1)] assms(2,3) by (auto simp: deps_distinct_def)

definition twice_table :: module_table where
  "twice_table = demo_table\<lparr>GetDependencies :=
     (\<lambda>m. if m = 1 then [\<lparr>pModule = Some 3, kind = Required, minVersion = \<lparr>major = 0, minor = 0, patch = 0\<rparr>\<rparr>,
                          \<lparr>pModule = Some 3, kind = Optional, minVersion = \<lparr>major = 0, minor = 0, patch = 0\<rparr>\<rparr>]
          else [])\<rparr>"

theorem resolve_rejects_duplicates_witness: "\<not> fst (Resolve twice_table [1, 3])"
proof (rule resolve_rejects_duplicates[of _ _ 1])
  show "graph_wf twice_table [1, 3]" by (simp add: graph_wf_def twice_table_def demo_table_def)
  show "1 \<in> set [1, 3 :: module_ptr]" by simp
  show "\<not> distinct (map pModule (ordering_deps twice_table [1, 3] 1))" by code_simp
qed

end
