(* ===== verification/Module_Runtime.thy ===== *)
theory Module_Runtime
  imports Module_Graph
begin

section \<open>The module runtime\<close>

text \<open>
  Models \<^verbatim>\<open>private/module/runtime.cpp\<close> (\<open>CRuntime\<close>), the phases of
  \<^verbatim>\<open>public/tge/module/frame_phase.hpp\<close> and the run context of \<^verbatim>\<open>public/tge/module/run_context.hpp\<close>.
  The runtime drives modules it does not implement: what it does to them is a trace of calls, one
  constructor per virtual function or subsystem call.  Whether a module's \<open>Initialize\<close> returns true
  is a parameter \<open>init_ok\<close> that may depend on everything called before.  Frame times are of any type
  \<open>'f\<close> with the comparison \<open>std::min\<close> uses, since C++ floats are not totally ordered.  Error lines
  are part of the trace; the informational lines with timings are left out.
\<close>

datatype EFramePhase = FrameStart | Pace | Input | Simulate | Render | PostRender

definition frame_phases :: "EFramePhase list" where
  "frame_phases = [FrameStart, Pace, Input, Simulate, Render, PostRender]"

fun phase_index :: "EFramePhase \<Rightarrow> nat" where
  "phase_index FrameStart = 0"
| "phase_index Pace = 1"
| "phase_index Input = 2"
| "phase_index Simulate = 3"
| "phase_index Render = 4"
| "phase_index PostRender = 5"

definition FramePhaseNames :: "(EFramePhase \<times> string) list" where
  "FramePhaseNames =
     [(FrameStart, ''FrameStart''), (Pace, ''Pace''), (Input, ''Input''), (Simulate, ''Simulate''),
      (Render, ''Render''), (PostRender, ''PostRender'')]"

definition GetFramePhaseName :: "EFramePhase \<Rightarrow> string" where
  "GetFramePhaseName phase =
     fold (\<lambda>entry name. if fst entry = phase then snd entry else name) FramePhaseNames ''Unknown''"

record SScheduleEntry =
  entry_phase :: EFramePhase
  entry_module :: module_ptr

record SRunContext =
  ctx_modules :: "module_ptr list"
  ctx_schedule :: "SScheduleEntry list"
  ctx_noTick :: "module_ptr list"
  ctx_logsDir :: string
  ctx_configDir :: string
  ctx_numWorkerThreads :: size_t

record CRuntime =
  m_modules :: "module_ptr list"
  m_activeModules :: "module_ptr list"
  m_schedule :: "module_ptr list list"
  m_noTick :: "module_ptr list"
  m_running :: bool
  m_initialized :: bool

definition initial_runtime :: CRuntime where
  "initial_runtime = \<lparr>m_modules = [], m_activeModules = [], m_schedule = replicate 6 [],
     m_noTick = [], m_running = True, m_initialized = False\<rparr>"

datatype (dead 'f) runtime_call =
    LogSystemInitialize string string string
  | LogSystemTerminate
  | SetNumWorkerThreads size_t
  | CallInitialize module_ptr
  | CallTerminate module_ptr
  | CallUpdate module_ptr EFramePhase 'f
  | OnDependencyInitialized module_ptr id_ptr
  | OnDependencyTerminating module_ptr id_ptr
  | GraphError graph_error
  | ScheduledUnregistered string string
  | NeverTicks string
  | ModuleFailed string
  | InitializationFailed

definition Declares :: "module_table \<Rightarrow> module_ptr \<Rightarrow> module_ptr \<Rightarrow> bool" where
  "Declares t dependent m = list_ex (\<lambda>d. pModule d = Some (GetId t m)) (GetDependencies t dependent)"

subsection \<open>Registration\<close>

definition RegisterModule :: "module_ptr \<Rightarrow> CRuntime \<Rightarrow> CRuntime" where
  "RegisterModule m rt =
     (if m \<notin> set (m_modules rt) then rt\<lparr>m_modules := m_modules rt @ [m]\<rparr> else rt)"

definition UnregisterModule :: "module_ptr \<Rightarrow> CRuntime \<Rightarrow> CRuntime" where
  "UnregisterModule m rt = rt\<lparr>m_modules := remove1 m (m_modules rt)\<rparr>"

definition RegisterUpdate ::
  "module_table \<Rightarrow> EFramePhase \<Rightarrow> module_ptr \<Rightarrow> CRuntime \<Rightarrow> CRuntime \<times> 'f runtime_call list" where
  "RegisterUpdate t phase m rt =
     (if m \<in> set (m_modules rt)
      then (rt\<lparr>m_schedule := (m_schedule rt)[phase_index phase := m_schedule rt ! phase_index phase @ [m]]\<rparr>, [])
      else (rt, [ScheduledUnregistered (GetName t m) (GetFramePhaseName phase)]))"

definition DeclareNoTick :: "module_ptr \<Rightarrow> CRuntime \<Rightarrow> CRuntime" where
  "DeclareNoTick m rt = rt\<lparr>m_noTick := m_noTick rt @ [m]\<rparr>"

fun register_schedule ::
  "module_table \<Rightarrow> SScheduleEntry list \<Rightarrow> CRuntime \<Rightarrow> CRuntime \<times> 'f runtime_call list" where
  "register_schedule t [] rt = (rt, [])"
| "register_schedule t (e # es) rt =
     (let (rt1, log1) = RegisterUpdate t (entry_phase e) (entry_module e) rt;
          (rt2, log2) = register_schedule t es rt1
      in (rt2, log1 @ log2))"

definition ValidateSchedule :: "module_table \<Rightarrow> CRuntime \<Rightarrow> 'f runtime_call list" where
  "ValidateSchedule t rt =
     map (\<lambda>m. NeverTicks (GetName t m))
       (filter (\<lambda>m. \<not> fold (\<lambda>phaseModules scheduled. scheduled \<or> m \<in> set phaseModules)
                      (m_schedule rt) (m \<in> set (m_noTick rt)))
         (m_modules rt))"

subsection \<open>Start-up, frames and shutdown\<close>

definition NotifyDependentsInitialized ::
  "module_table \<Rightarrow> CRuntime \<Rightarrow> module_ptr \<Rightarrow> 'f runtime_call list" where
  "NotifyDependentsInitialized t rt m =
     map (\<lambda>dependent. OnDependencyInitialized dependent (GetId t m))
       (filter (\<lambda>dependent. Declares t dependent m) (m_modules rt))"

fun initialize_loop ::
  "module_table \<Rightarrow> ('f runtime_call list \<Rightarrow> module_ptr \<Rightarrow> bool) \<Rightarrow> module_ptr list \<Rightarrow> CRuntime
     \<Rightarrow> 'f runtime_call list \<Rightarrow> bool \<times> CRuntime \<times> 'f runtime_call list" where
  "initialize_loop t init_ok [] rt trace = (True, rt, trace)"
| "initialize_loop t init_ok (m # ms) rt trace =
     (if init_ok trace m
      then (let rt1 = rt\<lparr>m_activeModules := m_activeModules rt @ [m]\<rparr>
            in initialize_loop t init_ok ms rt1
                 (trace @ CallInitialize m # NotifyDependentsInitialized t rt1 m))
      else (False, rt, trace @ [CallInitialize m, ModuleFailed (GetName t m), CallTerminate m]))"

definition InitializeModules ::
  "module_table \<Rightarrow> ('f runtime_call list \<Rightarrow> module_ptr \<Rightarrow> bool) \<Rightarrow> CRuntime \<Rightarrow> 'f runtime_call list
     \<Rightarrow> bool \<times> CRuntime \<times> 'f runtime_call list" where
  "InitializeModules t init_ok rt trace =
     (let (resolved, order, errors) = Resolve t (m_modules rt);
          trace1 = trace @ map GraphError errors
      in if resolved then initialize_loop t init_ok order rt trace1 else (False, rt, trace1))"

definition Runtime_Initialize ::
  "module_table \<Rightarrow> ('f runtime_call list \<Rightarrow> module_ptr \<Rightarrow> bool) \<Rightarrow> SRunContext \<Rightarrow> CRuntime
     \<Rightarrow> 'f runtime_call list \<Rightarrow> bool \<times> CRuntime \<times> 'f runtime_call list" where
  "Runtime_Initialize t init_ok context rt trace =
     (let trace1 = trace @ [LogSystemInitialize ''tge'' (ctx_logsDir context) (ctx_configDir context)];
          rt1 = fold RegisterModule (ctx_modules context) rt;
          (rt2, log2) = register_schedule t (ctx_schedule context) rt1;
          rt3 = fold DeclareNoTick (ctx_noTick context) rt2;
          trace3 = trace1 @ log2 @ ValidateSchedule t rt3
                     @ [SetNumWorkerThreads (ctx_numWorkerThreads context)];
          (initialized, rt4, trace4) = InitializeModules t init_ok rt3 trace3
      in (initialized, rt4\<lparr>m_initialized := initialized\<rparr>,
          if initialized then trace4 else trace4 @ [InitializationFailed]))"

function terminate_loop ::
  "module_table \<Rightarrow> module_ptr list \<Rightarrow> 'f runtime_call list \<Rightarrow> 'f runtime_call list" where
  "terminate_loop t active trace =
     (if active = [] then trace
      else (let m = last active;
                notes = map (\<lambda>dependent. OnDependencyTerminating dependent (GetId t m))
                          (filter (\<lambda>dependent. dependent \<noteq> m \<and> Declares t dependent m) active)
            in terminate_loop t (butlast active) (trace @ notes @ [CallTerminate m])))"
  by pat_completeness auto
termination
  by (relation "measure (\<lambda>(t, active, trace). length active)") auto

declare terminate_loop.simps [simp del]

definition TerminateModules ::
  "module_table \<Rightarrow> CRuntime \<Rightarrow> 'f runtime_call list \<Rightarrow> CRuntime \<times> 'f runtime_call list" where
  "TerminateModules t rt trace =
     (rt\<lparr>m_activeModules := [], m_modules := []\<rparr>, terminate_loop t (m_activeModules rt) trace)"

definition Runtime_Terminate ::
  "module_table \<Rightarrow> CRuntime \<Rightarrow> 'f runtime_call list \<Rightarrow> CRuntime \<times> 'f runtime_call list" where
  "Runtime_Terminate t rt trace =
     (let (rt1, trace1) = TerminateModules t (rt\<lparr>m_initialized := False\<rparr>) trace
      in (rt1, trace1 @ [LogSystemTerminate]))"

definition Runtime_Update ::
  "('f \<Rightarrow> 'f \<Rightarrow> bool) \<Rightarrow> 'f \<Rightarrow> 'f \<Rightarrow> CRuntime \<Rightarrow> 'f runtime_call list \<Rightarrow> 'f runtime_call list" where
  "Runtime_Update lt MaxFrameDelta deltaTime rt trace =
     (let frameDelta = std_min lt deltaTime MaxFrameDelta
      in if m_initialized rt
         then fold (\<lambda>phase tr. fold (\<lambda>m tr'. tr' @ [CallUpdate m phase frameDelta])
                      (m_schedule rt ! phase_index phase) tr)
                frame_phases trace
         else trace)"

definition Quit :: "CRuntime \<Rightarrow> CRuntime" where
  "Quit rt = rt\<lparr>m_running := False\<rparr>"

definition CanRun :: "CRuntime \<Rightarrow> bool" where
  "CanRun rt = m_running rt"

subsection \<open>Reading a trace\<close>

definition inits :: "'f runtime_call list \<Rightarrow> module_ptr list" where
  "inits trace = concat (map (\<lambda>c. case c of CallInitialize m \<Rightarrow> [m] | _ \<Rightarrow> []) trace)"

definition terms :: "'f runtime_call list \<Rightarrow> module_ptr list" where
  "terms trace = concat (map (\<lambda>c. case c of CallTerminate m \<Rightarrow> [m] | _ \<Rightarrow> []) trace)"

lemma inits_simps [simp]:
  "inits [] = []" "inits (xs @ ys) = inits xs @ inits ys"
  "inits (c # xs) = (case c of CallInitialize m \<Rightarrow> [m] | _ \<Rightarrow> []) @ inits xs"
  by (simp_all add: inits_def)

lemma terms_simps [simp]:
  "terms [] = []" "terms (xs @ ys) = terms xs @ terms ys"
  "terms (c # xs) = (case c of CallTerminate m \<Rightarrow> [m] | _ \<Rightarrow> []) @ terms xs"
  by (simp_all add: terms_def)

lemma trace_map_neutral [simp]:
  "inits (map GraphError es) = []" "terms (map GraphError es) = []"
  "inits (map (\<lambda>d. OnDependencyTerminating d p) ds) = []" "terms (map (\<lambda>d. OnDependencyTerminating d p) ds) = []"
  "inits (NotifyDependentsInitialized t rt m) = []" "terms (NotifyDependentsInitialized t rt m) = []"
  "inits (ValidateSchedule t rt) = []" "terms (ValidateSchedule t rt) = []"
  by (induction es) (auto simp: NotifyDependentsInitialized_def ValidateSchedule_def inits_def terms_def)

lemma register_schedule_neutral:
  "register_schedule t es rt = (rt', log) \<Longrightarrow> inits log = [] \<and> terms log = []
     \<and> m_modules rt' = m_modules rt \<and> m_activeModules rt' = m_activeModules rt"
  by (induction es arbitrary: rt rt' log)
     (auto simp: RegisterUpdate_def split: prod.splits if_splits)

lemma fold_RegisterModule:
  "m_activeModules (fold RegisterModule ms rt) = m_activeModules rt"
  "distinct (m_modules rt) \<Longrightarrow> distinct (m_modules (fold RegisterModule ms rt))"
  "set (m_modules (fold RegisterModule ms rt)) = set (m_modules rt) \<union> set ms"
  by (induction ms arbitrary: rt) (auto simp: RegisterModule_def)

lemma fold_DeclareNoTick:
  "m_activeModules (fold DeclareNoTick ms rt) = m_activeModules rt"
  "m_modules (fold DeclareNoTick ms rt) = m_modules rt"
  by (induction ms arbitrary: rt) (auto simp: DeclareNoTick_def)

subsection \<open>Order of start-up and shutdown\<close>

lemma initialize_loop_trace:
  assumes "initialize_loop t init_ok ms rt trace = (ok, rt', trace')"
  obtains (success) "ok" "m_activeModules rt' = m_activeModules rt @ ms"
      "inits trace' = inits trace @ ms" "terms trace' = terms trace"
  | (failure) pre m post where "\<not> ok" "ms = pre @ m # post"
      "m_activeModules rt' = m_activeModules rt @ pre"
      "inits trace' = inits trace @ pre @ [m]" "terms trace' = terms trace @ [m]"
proof -
  have "(ok \<and> m_activeModules rt' = m_activeModules rt @ ms \<and> inits trace' = inits trace @ ms
         \<and> terms trace' = terms trace)
      \<or> (\<not> ok \<and> (\<exists>pre m post. ms = pre @ m # post \<and> m_activeModules rt' = m_activeModules rt @ pre
         \<and> inits trace' = inits trace @ pre @ [m] \<and> terms trace' = terms trace @ [m]))"
    using assms
  proof (induction ms arbitrary: rt trace)
    case (Cons m ms)
    show ?case
    proof (cases "init_ok trace m")
      case False
      with Cons.prems show ?thesis by (auto intro!: exI[of _ "[]"])
    next
      case True
      let ?rt = "rt\<lparr>m_activeModules := m_activeModules rt @ [m]\<rparr>"
      let ?tr = "trace @ CallInitialize m # NotifyDependentsInitialized t ?rt m"
      have "initialize_loop t init_ok ms ?rt ?tr = (ok, rt', trace')"
        using Cons.prems True by (simp add: Let_def)
      from Cons.IH[OF this] show ?thesis
      proof (elim disjE conjE exE)
        fix pre m' post
        assume "\<not> ok" "ms = pre @ m' # post" "m_activeModules rt' = m_activeModules ?rt @ pre"
          "inits trace' = inits ?tr @ pre @ [m']" "terms trace' = terms ?tr @ [m']"
        then show ?thesis by (auto intro!: disjI2 exI[of _ "m # pre"] exI[of _ m'])
      qed auto
    qed
  qed auto
  then show thesis using success failure by blast
qed

lemma terminate_loop_trace:
  "terms (terminate_loop t active trace) = terms trace @ rev active
   \<and> inits (terminate_loop t active trace) = inits trace"
proof (induction t active trace rule: terminate_loop.induct)
  case (1 t active trace)
  show ?case
  proof (cases "active = []")
    case True
    then show ?thesis by (simp add: terminate_loop.simps)
  next
    case False
    then obtain xs x where "active = xs @ [x]" by (metis append_butlast_last_id)
    with 1[OF False refl refl] show ?thesis
      by (simp add: terminate_loop.simps[of t "xs @ [x]"] Let_def)
  qed
qed

lemma InitializeModules_balance:
  assumes "InitializeModules t init_ok rt trace = (ok, rt', trace')" and "m_activeModules rt = []"
  shows "\<exists>new. inits trace' = inits trace @ new
      \<and> terms trace' @ rev (m_activeModules rt') = terms trace @ rev new
      \<and> (ok \<longrightarrow> m_activeModules rt' = new \<and> terms trace' = terms trace
           \<and> (\<exists>errors. Resolve t (m_modules rt) = (True, new, errors)))"
proof -
  obtain resolved order errors where res: "Resolve t (m_modules rt) = (resolved, order, errors)"
    by (cases "Resolve t (m_modules rt)") auto
  show ?thesis
  proof (cases resolved)
    case False
    with assms res show ?thesis by (auto simp: InitializeModules_def)
  next
    case True
    with assms res have "initialize_loop t init_ok order rt (trace @ map GraphError errors) = (ok, rt', trace')"
      by (simp add: InitializeModules_def)
    then show ?thesis
      by (cases rule: initialize_loop_trace) (use assms(2) res True in auto)
  qed
qed

lemma Runtime_Initialize_steps:
  fixes trace :: "'f runtime_call list"
  assumes "Runtime_Initialize t init_ok context rt trace = (ok, rt', trace')"
  obtains rt3 rt4 trace3 trace4 where
    "m_activeModules rt3 = m_activeModules rt" "m_modules rt3 = m_modules (fold RegisterModule (ctx_modules context) rt)"
    "inits trace3 = inits trace" "terms trace3 = terms trace"
    "InitializeModules t init_ok rt3 trace3 = (ok, rt4, trace4)"
    "rt' = rt4\<lparr>m_initialized := ok\<rparr>" "inits trace' = inits trace4" "terms trace' = terms trace4"
proof -
  let ?rt1 = "fold RegisterModule (ctx_modules context) rt"
  obtain rt2 and log2 :: "'f runtime_call list" where reg: "register_schedule t (ctx_schedule context) ?rt1 = (rt2, log2)"
    by (cases "register_schedule t (ctx_schedule context) ?rt1 :: _ \<times> 'f runtime_call list") auto
  let ?rt3 = "fold DeclareNoTick (ctx_noTick context) rt2"
  let ?tr3 = "trace @ LogSystemInitialize ''tge'' (ctx_logsDir context) (ctx_configDir context)
      # log2 @ ValidateSchedule t ?rt3 @ [SetNumWorkerThreads (ctx_numWorkerThreads context)]"
  obtain ok4 rt4 trace4 where im: "InitializeModules t init_ok ?rt3 ?tr3 = (ok4, rt4, trace4)"
    by (cases "InitializeModules t init_ok ?rt3 ?tr3") auto
  show thesis
    using assms reg im register_schedule_neutral[OF reg]
    by (intro that[of ?rt3 ?tr3 rt4 trace4])
       (auto simp: Runtime_Initialize_def Let_def fold_DeclareNoTick fold_RegisterModule split: if_splits)
qed

lemma register_schedule_effect:
  fixes log :: "'f runtime_call list"
  assumes "register_schedule t es rt = (rt', log)" and "i < length (m_schedule rt)"
  shows "length (m_schedule rt') = length (m_schedule rt)"
    and "m_schedule rt' ! i = m_schedule rt ! i
           @ map entry_module (filter (\<lambda>e. phase_index (entry_phase e) = i \<and> entry_module e \<in> set (m_modules rt)) es)"
  using assms
proof (induction es arbitrary: rt rt' log)
  case (Cons e es)
  { case 1
    with Cons.IH(1) show ?case by (auto simp: RegisterUpdate_def split: prod.splits if_splits)
  next
    case 2
    then obtain rt1 and log1 log2 :: "'f runtime_call list" where r: "RegisterUpdate t (entry_phase e) (entry_module e) rt = (rt1, log1)"
        "register_schedule t es rt1 = (rt', log2)"
      by (auto split: prod.splits)
    have "i < length (m_schedule rt1)" "m_modules rt1 = m_modules rt"
      "m_schedule rt1 ! i = m_schedule rt ! i
         @ (if phase_index (entry_phase e) = i \<and> entry_module e \<in> set (m_modules rt) then [entry_module e] else [])"
      using r(1) 2(2) by (auto simp: RegisterUpdate_def split: if_splits)
    with Cons.IH(2)[OF r(2)] show ?case by simp }
qed auto

lemma fold_RegisterModule_schedule: "m_schedule (fold RegisterModule ms rt) = m_schedule rt"
  by (induction ms arbitrary: rt) (auto simp: RegisterModule_def)

lemma fold_DeclareNoTick_schedule: "m_schedule (fold DeclareNoTick ms rt) = m_schedule rt"
  by (induction ms arbitrary: rt) (auto simp: DeclareNoTick_def)

lemma initialize_loop_schedule:
  "initialize_loop t init_ok ms rt trace = (ok, rt', trace') \<Longrightarrow> m_schedule rt' = m_schedule rt \<and> m_modules rt' = m_modules rt"
  by (induction ms arbitrary: rt trace) (fastforce simp: Let_def split: if_splits)+

lemma InitializeModules_modules:
  "InitializeModules t init_ok rt trace = (ok, rt', trace') \<Longrightarrow> m_modules rt' = m_modules rt"
  by (auto simp: InitializeModules_def Let_def split: prod.splits if_splits dest!: initialize_loop_schedule)

lemma Runtime_Initialize_schedule:
  fixes trace :: "'f runtime_call list"
  assumes "Runtime_Initialize t init_ok context rt trace = (ok, rt', trace')"
    and i: "i < length (m_schedule rt)"
  shows "m_schedule rt' ! i = m_schedule rt ! i
      @ map entry_module (filter (\<lambda>e. phase_index (entry_phase e) = i
            \<and> entry_module e \<in> set (m_modules rt) \<union> set (ctx_modules context)) (ctx_schedule context))"
    and "length (m_schedule rt') = length (m_schedule rt)"
    and "m_modules rt' = m_modules (fold RegisterModule (ctx_modules context) rt)"
proof -
  let ?rt1 = "fold RegisterModule (ctx_modules context) rt"
  obtain rt2 and log2 :: "'f runtime_call list" where reg: "register_schedule t (ctx_schedule context) ?rt1 = (rt2, log2)"
    by (cases "register_schedule t (ctx_schedule context) ?rt1 :: _ \<times> 'f runtime_call list") auto
  have i1: "i < length (m_schedule ?rt1)" using i by (simp add: fold_RegisterModule_schedule)
  have keep: "m_schedule rt' = m_schedule rt2 \<and> m_modules rt' = m_modules rt2"
    using assms(1) reg
    by (auto simp: Runtime_Initialize_def Let_def InitializeModules_def fold_DeclareNoTick_schedule
        fold_DeclareNoTick split: prod.splits if_splits dest!: initialize_loop_schedule)
  note eff = register_schedule_effect[OF reg i1]
  show "m_schedule rt' ! i = m_schedule rt ! i
      @ map entry_module (filter (\<lambda>e. phase_index (entry_phase e) = i
            \<and> entry_module e \<in> set (m_modules rt) \<union> set (ctx_modules context)) (ctx_schedule context))"
    using keep eff(2) by (simp add: fold_RegisterModule_schedule fold_RegisterModule)
  show "length (m_schedule rt') = length (m_schedule rt)"
    using keep eff(1) by (simp add: fold_RegisterModule_schedule)
  show "m_modules rt' = m_modules ?rt1"
    using keep register_schedule_neutral[OF reg] by simp
qed

lemma phase_index_less: "phase_index p < 6"
  by (cases p) auto

lemma fold_append_map: "fold (\<lambda>m tr. tr @ [f m]) ms tr = tr @ map f ms"
  by (induction ms arbitrary: tr) auto

lemma fold_append_concat: "fold (\<lambda>p tr. tr @ f p) ps tr = tr @ concat (map f ps)"
  by (induction ps arbitrary: tr) auto

subsection \<open>Properties\<close>

definition demo_context :: SRunContext where
  "demo_context = \<lparr>ctx_modules = [1, 2, 3], ctx_schedule = [\<lparr>entry_phase = Simulate, entry_module = 2\<rparr>],
     ctx_noTick = [1, 3], ctx_logsDir = ''logs'', ctx_configDir = ''configs'', ctx_numWorkerThreads = 0\<rparr>"

definition all_start :: "nat runtime_call list \<Rightarrow> module_ptr \<Rightarrow> bool" where
  "all_start trace m = True"

lemma demo_started:
  "Runtime_Initialize demo_table all_start demo_context initial_runtime [] =
     (True,
      \<lparr>m_modules = [1, 2, 3], m_activeModules = [3, 1, 2], m_schedule = [[], [], [], [2], [], []],
       m_noTick = [1, 3], m_running = True, m_initialized = True\<rparr>,
      [LogSystemInitialize ''tge'' ''logs'' ''configs'', SetNumWorkerThreads 0,
       CallInitialize 3, OnDependencyInitialized 1 3, CallInitialize 1, OnDependencyInitialized 2 1,
       CallInitialize 2])"
  by code_simp

text \<open>
  C3. A runtime that starts up initializes the registered modules in an order in which each comes
  exactly once and after every loaded module it requires or optionally uses.
\<close>

theorem startup_respects_dependencies:
  fixes trace :: "'f runtime_call list"
  assumes run: "Runtime_Initialize t init_ok context rt trace = (True, rt', trace')"
    and idle: "m_activeModules rt = []" and wf: "graph_wf t (m_modules rt')"
  shows "\<exists>started. inits trace' = inits trace @ started \<and> mset started = mset (m_modules rt')
    \<and> (\<forall>m d. m \<in> set started \<longrightarrow> d \<in> set started \<longrightarrow> DependsOn t m d \<longrightarrow>
         (\<exists>i j. i < j \<and> j < length started \<and> started ! i = d \<and> started ! j = m))"
proof -
  from run obtain rt3 rt4 trace3 trace4 where s: "m_activeModules rt3 = m_activeModules rt"
      "inits trace3 = inits trace" "inits trace' = inits trace4" "rt' = rt4\<lparr>m_initialized := True\<rparr>"
      "InitializeModules t init_ok rt3 trace3 = (True, rt4, trace4)"
    by (rule Runtime_Initialize_steps) blast
  moreover from this have "m_modules rt3 = m_modules rt'" using InitializeModules_modules by fastforce
  ultimately obtain new errors where "inits trace' = inits trace @ new" "Resolve t (m_modules rt') = (True, new, errors)"
    using InitializeModules_balance[OF s(5)] idle by auto
  with module_graph.order_complete[OF wf] module_graph.dependency_first[OF wf] show ?thesis
    by blast
qed

theorem startup_respects_dependencies_witness:
  "\<exists>started. [3, 1, 2] = started \<and> mset started = mset [1, 2, 3]
    \<and> (\<forall>m d. m \<in> set started \<longrightarrow> d \<in> set started \<longrightarrow> DependsOn demo_table m d \<longrightarrow>
         (\<exists>i j. i < j \<and> j < length started \<and> started ! i = d \<and> started ! j = m))"
  using startup_respects_dependencies[OF demo_started] demo_wf by (simp add: initial_runtime_def)

text \<open>
  C4. Start-up and shutdown balance on every path: after \<open>Initialize\<close>, whether it succeeded, failed in the
  graph or failed in some module, \<open>Terminate\<close> leaves a trace in which the modules were terminated in
  exactly the reverse of the order in which their \<open>Initialize\<close> was called, and no module stays active.
\<close>

theorem lifecycle_balanced:
  assumes run: "Runtime_Initialize t init_ok context rt [] = (ok, rt1, trace1)"
    and idle: "m_activeModules rt = []"
    and stop: "Runtime_Terminate t rt1 trace1 = (rt2, trace2)"
  shows "terms trace2 = rev (inits trace2) \<and> m_activeModules rt2 = [] \<and> \<not> m_initialized rt2"
proof -
  from run obtain rt3 rt4 trace3 trace4 where s: "m_activeModules rt3 = []"
      "inits trace3 = []" "terms trace3 = []"
      "InitializeModules t init_ok rt3 trace3 = (ok, rt4, trace4)"
      "m_activeModules rt1 = m_activeModules rt4" "inits trace1 = inits trace4" "terms trace1 = terms trace4"
    by (rule Runtime_Initialize_steps) (auto simp: idle)
  from InitializeModules_balance[OF s(4,1)] s have "terms trace1 @ rev (m_activeModules rt1) = rev (inits trace1)"
    by auto
  then show ?thesis
    using stop terminate_loop_trace[of t "m_activeModules rt1" trace1]
    by (auto simp: Runtime_Terminate_def TerminateModules_def)
qed

theorem lifecycle_balanced_witness:
  "\<exists>(rt2 :: CRuntime) trace2. terms trace2 = rev (inits trace2) \<and> m_activeModules rt2 = [] \<and> \<not> m_initialized rt2
     \<and> inits trace2 = [3, 1, 2 :: module_ptr] \<and> (trace2 :: nat runtime_call list) \<noteq> []"
proof -
  obtain rt1 trace1 where run: "Runtime_Initialize demo_table all_start demo_context initial_runtime [] = (True, rt1, trace1)"
    and i: "inits trace1 = [3, 1, 2]" using demo_started by auto
  obtain rt2 trace2 where stop: "Runtime_Terminate demo_table rt1 trace1 = (rt2, trace2)"
    by (cases "Runtime_Terminate demo_table rt1 trace1") auto
  then have "inits trace2 = [3, 1, 2]"
    using i terminate_loop_trace[of demo_table "m_activeModules rt1" trace1]
    by (auto simp: Runtime_Terminate_def TerminateModules_def)
  moreover have "m_activeModules initial_runtime = []" by (simp add: initial_runtime_def)
  ultimately show ?thesis using lifecycle_balanced[OF run _ stop]
    by (intro exI[of _ rt2] exI[of _ trace2]) auto
qed

text \<open>
  A frame runs the six phases in order; in each phase every scheduled module is updated once per
  schedule entry, in registration order, with one and the same time step, never above the limit.
  A runtime that is not initialized updates nothing.
\<close>

theorem update_runs_schedule:
  fixes deltaTime limit :: "'f::linorder"
  shows "Runtime_Update (<) limit deltaTime rt trace =
     trace @ (if m_initialized rt
              then concat (map (\<lambda>phase. map (\<lambda>m. CallUpdate m phase (min deltaTime limit))
                                            (m_schedule rt ! phase_index phase))
                     [FrameStart, Pace, Input, Simulate, Render, PostRender])
              else [])"
  unfolding Runtime_Update_def Let_def
  by (simp add: fold_append_map fold_append_concat frame_phases_def del: fold_simps)

text \<open>
  \<open>Terminate\<close> forgets the modules but not the schedule: starting the same context again after a
  shutdown schedules every module twice, so it is updated twice in each of its phases.
\<close>

theorem restart_doubles_schedule:
  assumes first: "Runtime_Initialize t init_ok context rt trace = (ok1, rt1, trace1)"
    and stop: "Runtime_Terminate t rt1 trace1 = (rt2, trace2)"
    and again: "Runtime_Initialize t init_ok2 context rt2 trace2 = (ok2, rt3, trace3)"
    and fresh: "m_modules rt = []" "m_schedule rt = replicate 6 []"
  shows "m_schedule rt3 ! phase_index phase = m_schedule rt1 ! phase_index phase @ m_schedule rt1 ! phase_index phase"
proof -
  have p: "phase_index phase < length (m_schedule rt)" using fresh phase_index_less by simp
  have r2: "m_schedule rt2 = m_schedule rt1" "m_modules rt2 = []"
    using stop by (auto simp: Runtime_Terminate_def TerminateModules_def)
  have "phase_index phase < length (m_schedule rt2)"
    using r2 Runtime_Initialize_schedule(2)[OF first p] p by simp
  from Runtime_Initialize_schedule(1)[OF again this] Runtime_Initialize_schedule(1)[OF first p]
  show ?thesis using r2 fresh phase_index_less by simp
qed

theorem restart_doubles_schedule_witness:
  "\<exists>rt3 :: CRuntime. m_schedule rt3 ! phase_index Simulate = [2, 2]"
proof -
  let ?init = "Runtime_Initialize demo_table all_start demo_context"
  obtain rt1 trace1 where run: "?init initial_runtime [] = (True, rt1, trace1)"
    and s: "m_schedule rt1 ! phase_index Simulate = [2]" using demo_started by auto
  obtain rt2 trace2 where stop: "Runtime_Terminate demo_table rt1 trace1 = (rt2, trace2)"
    by (cases "Runtime_Terminate demo_table rt1 trace1") auto
  obtain ok2 rt3 trace3 where again: "?init rt2 trace2 = (ok2, rt3, trace3)"
    by (cases "?init rt2 trace2") auto
  show ?thesis
    using restart_doubles_schedule[OF run stop again, of Simulate] s by (auto simp: initial_runtime_def)
qed

end
