(* ===== verification/Event_System.thy ===== *)
theory Event_System
  imports Prelude "HOL-Library.Sublist"
begin

section \<open>The event system\<close>

text \<open>
  Models \<^verbatim>\<open>private/events/system.cpp\<close> (\<open>CSystem\<close>), its data in \<^verbatim>\<open>private/events/system.hpp\<close> and the
  typed front end of \<^verbatim>\<open>public/tge/events/system.hpp\<close>.  A \<open>shared_ptr<SHandler>\<close> is an index into a
  heap that only grows: an entry lives as long as anything refers to it, and a dead entry is never
  revived.  A handler body is foreign code; what it does to the event system is the parameter
  \<open>call\<close>, a state transformer that may subscribe, unsubscribe, emit and queue.  Dispatching returns
  the list of entries whose handlers were invoked, in order.  Each operation holds its mutex for its
  whole body (\<open>EmitErased\<close> only for \<open>GetSnapshot\<close>), so concurrent operations are sequences of the
  operations modelled here.
\<close>

type_synonym EventHandle = u64
type_synonym EventTypeId = u32

definition InvalidEventHandle :: EventHandle where
  "InvalidEventHandle = 0"

record 'h SHandler =
  sh_handle :: EventHandle
  sh_handler :: 'h
  sh_alive :: bool

record SEventSlot =
  handlers :: "nat list"
  snapshot :: "nat list option"
  numDead :: size_t
  dirty :: bool

record ('h, 'p) CSystem =
  heap :: "'h SHandler list"
  m_events :: "SEventSlot list"
  m_subscriptions :: "EventHandle \<rightharpoonup> EventTypeId \<times> nat"
  m_nextHandle :: EventHandle
  m_queue :: "(EventTypeId \<times> 'p) list"
  m_draining :: "(EventTypeId \<times> 'p) list"

definition empty_slot :: SEventSlot where
  "empty_slot = \<lparr>handlers = [], snapshot = None, numDead = 0, dirty = False\<rparr>"

definition initial_system :: "('h, 'p) CSystem" where
  "initial_system = \<lparr>heap = [], m_events = [], m_subscriptions = Map.empty, m_nextHandle = 1,
     m_queue = [], m_draining = []\<rparr>"

definition is_alive :: "('h, 'p) CSystem \<Rightarrow> nat \<Rightarrow> bool" where
  "is_alive s e = sh_alive (heap s ! e)"

definition resize_events :: "SEventSlot list \<Rightarrow> nat \<Rightarrow> SEventSlot list" where
  "resize_events evs n = evs @ replicate (n - length evs) empty_slot"

definition SubscribeErased ::
  "EventTypeId \<Rightarrow> 'h \<Rightarrow> ('h, 'p) CSystem \<Rightarrow> EventHandle \<times> ('h, 'p) CSystem" where
  "SubscribeErased type handler s =
     (let handle = m_nextHandle s;
          entry = length (heap s);
          evs = (if unat type \<ge> length (m_events s)
                 then resize_events (m_events s) (unat type + 1) else m_events s);
          slot = evs ! unat type
      in (handle,
          s\<lparr>m_nextHandle := m_nextHandle s + 1,
            heap := heap s @ [\<lparr>sh_handle = handle, sh_handler = handler, sh_alive = True\<rparr>],
            m_events := evs[unat type := slot\<lparr>handlers := handlers slot @ [entry], dirty := True\<rparr>],
            m_subscriptions := (m_subscriptions s)(handle \<mapsto> (type, entry))\<rparr>))"

definition Unsubscribe :: "EventHandle \<Rightarrow> ('h, 'p) CSystem \<Rightarrow> ('h, 'p) CSystem" where
  "Unsubscribe handle s =
     (case m_subscriptions s handle of
        None \<Rightarrow> s
      | Some (type, entry) \<Rightarrow>
          (let heap' = (heap s)[entry := (heap s ! entry)\<lparr>sh_alive := False\<rparr>];
               slot = m_events s ! unat type;
               slot1 = slot\<lparr>numDead := numDead slot + 1, dirty := True\<rparr>;
               slot2 = (if numDead slot1 * 2 > of_nat (length (handlers slot1))
                        then slot1\<lparr>handlers := filter (\<lambda>e. sh_alive (heap' ! e)) (handlers slot1), numDead := 0\<rparr>
                        else slot1)
           in s\<lparr>heap := heap', m_events := (m_events s)[unat type := slot2],
                m_subscriptions := (m_subscriptions s)(handle := None)\<rparr>))"

definition GetSnapshot :: "EventTypeId \<Rightarrow> ('h, 'p) CSystem \<Rightarrow> nat list option \<times> ('h, 'p) CSystem" where
  "GetSnapshot type s =
     (if unat type < length (m_events s)
      then (let slot = m_events s ! unat type;
                slot1 = (if dirty slot
                         then (let hs = filter (is_alive s) (handlers slot)
                               in slot\<lparr>handlers := hs, numDead := 0, snapshot := Some hs, dirty := False\<rparr>)
                         else slot)
            in (snapshot slot1, s\<lparr>m_events := (m_events s)[unat type := slot1]\<rparr>))
      else (None, s))"

fun emit_loop ::
  "('h \<Rightarrow> 'p \<Rightarrow> ('h, 'p) CSystem \<Rightarrow> ('h, 'p) CSystem) \<Rightarrow> 'p \<Rightarrow> nat list \<Rightarrow> ('h, 'p) CSystem
     \<Rightarrow> ('h, 'p) CSystem \<times> nat list" where
  "emit_loop call payload [] s = (s, [])"
| "emit_loop call payload (e # es) s =
     (if is_alive s e
      then (let (s', invoked) = emit_loop call payload es (call (sh_handler (heap s ! e)) payload s)
            in (s', e # invoked))
      else emit_loop call payload es s)"

definition EmitErased ::
  "('h \<Rightarrow> 'p \<Rightarrow> ('h, 'p) CSystem \<Rightarrow> ('h, 'p) CSystem) \<Rightarrow> EventTypeId \<Rightarrow> 'p \<Rightarrow> ('h, 'p) CSystem
     \<Rightarrow> ('h, 'p) CSystem \<times> nat list" where
  "EmitErased call type payload s =
     (case GetSnapshot type s of
        (None, s1) \<Rightarrow> (s1, [])
      | (Some snap, s1) \<Rightarrow> emit_loop call payload snap s1)"

definition QueueErased :: "EventTypeId \<times> 'p \<Rightarrow> ('h, 'p) CSystem \<Rightarrow> ('h, 'p) CSystem" where
  "QueueErased dispatch s = s\<lparr>m_queue := m_queue s @ [dispatch]\<rparr>"

fun drain_loop ::
  "('h \<Rightarrow> 'p \<Rightarrow> ('h, 'p) CSystem \<Rightarrow> ('h, 'p) CSystem) \<Rightarrow> (EventTypeId \<times> 'p) list \<Rightarrow> ('h, 'p) CSystem
     \<Rightarrow> ('h, 'p) CSystem \<times> nat list" where
  "drain_loop call [] s = (s, [])"
| "drain_loop call ((type, payload) # ds) s =
     (let (s1, inv1) = EmitErased call type payload s; (s2, inv2) = drain_loop call ds s1
      in (s2, inv1 @ inv2))"

definition DispatchQueued ::
  "('h \<Rightarrow> 'p \<Rightarrow> ('h, 'p) CSystem \<Rightarrow> ('h, 'p) CSystem) \<Rightarrow> ('h, 'p) CSystem
     \<Rightarrow> ('h, 'p) CSystem \<times> nat list" where
  "DispatchQueued call s =
     (let s1 = s\<lparr>m_queue := m_draining s, m_draining := m_queue s\<rparr>;
          (s2, invoked) = drain_loop call (m_draining s1) s1
      in (s2\<lparr>m_draining := []\<rparr>, invoked))"

subsection \<open>What the bookkeeping means\<close>

text \<open>The subscribers of a type: its living entries, in subscription order.\<close>

definition slot_of :: "('h, 'p) CSystem \<Rightarrow> EventTypeId \<Rightarrow> SEventSlot" where
  "slot_of s type = (if unat type < length (m_events s) then m_events s ! unat type else empty_slot)"

definition subscribers :: "('h, 'p) CSystem \<Rightarrow> EventTypeId \<Rightarrow> nat list" where
  "subscribers s type = filter (is_alive s) (handlers (slot_of s type))"

definition slot_ok :: "('h, 'p) CSystem \<Rightarrow> SEventSlot \<Rightarrow> bool" where
  "slot_ok s slot \<longleftrightarrow>
     distinct (handlers slot) \<and> set (handlers slot) \<subseteq> {..<length (heap s)}
     \<and> unat (numDead slot) = length (filter (\<lambda>e. \<not> is_alive s e) (handlers slot))
     \<and> (\<not> dirty slot \<longrightarrow> (\<forall>e\<in>set (handlers slot). is_alive s e)
          \<and> (snapshot slot = Some (handlers slot) \<or> snapshot slot = None \<and> handlers slot = []))"

definition events_wf :: "('h, 'p) CSystem \<Rightarrow> bool" where
  "events_wf s \<longleftrightarrow>
     length (heap s) < 2 ^ 63
     \<and> unat (m_nextHandle s) = length (heap s) + 1
     \<and> (\<forall>e<length (heap s). unat (sh_handle (heap s ! e)) = e + 1)
     \<and> (\<forall>type. slot_ok s (slot_of s type))
     \<and> (\<forall>handle type entry. m_subscriptions s handle = Some (type, entry) \<longrightarrow>
          entry < length (heap s) \<and> is_alive s entry \<and> sh_handle (heap s ! entry) = handle
          \<and> unat type < length (m_events s) \<and> entry \<in> set (handlers (slot_of s type)))
     \<and> (\<forall>type. \<forall>entry\<in>set (subscribers s type).
          m_subscriptions s (sh_handle (heap s ! entry)) = Some (type, entry))"

text \<open>
  What an operation may do to the heap: entries are added, never changed but for dying.
\<close>

definition heap_extends :: "('h, 'p) CSystem \<Rightarrow> ('h, 'p) CSystem \<Rightarrow> bool" where
  "heap_extends s s' \<longleftrightarrow>
     length (heap s) \<le> length (heap s')
     \<and> (\<forall>e<length (heap s). sh_handle (heap s' ! e) = sh_handle (heap s ! e)
          \<and> sh_handler (heap s' ! e) = sh_handler (heap s ! e)
          \<and> (is_alive s' e \<longrightarrow> is_alive s e))"

lemmas slot_simps = slot_of_def slot_ok_def is_alive_def empty_slot_def

lemma heap_extends_refl [simp]: "heap_extends s s"
  by (simp add: heap_extends_def)

lemma heap_extends_trans: "heap_extends a b \<Longrightarrow> heap_extends b c \<Longrightarrow> heap_extends a c"
  unfolding heap_extends_def by (simp add: order_trans)

lemma initial_wf: "events_wf initial_system"
  by (auto simp: events_wf_def initial_system_def slot_simps subscribers_def)

subsection \<open>Subscribing\<close>

lemma resize_nth: "i < n \<Longrightarrow> length evs \<le> n \<Longrightarrow>
  resize_events evs n ! i = (if i < length evs then evs ! i else empty_slot)"
  by (auto simp: resize_events_def nth_append)

lemma resize_length: "length evs \<le> n \<Longrightarrow> length (resize_events evs n) = n"
  by (simp add: resize_events_def)

lemma unat_type_eq [simp]: "unat (a :: EventTypeId) = unat b \<longleftrightarrow> a = b"
  by (simp add: word_unat_eq_iff)

lemma subscribe_fields:
  assumes "SubscribeErased type handler s = (handle, s')"
  shows "handle = m_nextHandle s" and "m_nextHandle s' = m_nextHandle s + 1"
    and "heap s' = heap s @ [\<lparr>sh_handle = handle, sh_handler = handler, sh_alive = True\<rparr>]"
    and "m_subscriptions s' = (m_subscriptions s)(handle \<mapsto> (type, length (heap s)))"
    and "slot_of s' ty = (if ty = type
           then (slot_of s type)\<lparr>handlers := handlers (slot_of s type) @ [length (heap s)], dirty := True\<rparr>
           else slot_of s ty)"
    and "unat type < length (m_events s')" and "length (m_events s) \<le> length (m_events s')"
    and "m_queue s' = m_queue s"
proof -
  show "handle = m_nextHandle s" "m_nextHandle s' = m_nextHandle s + 1" "m_queue s' = m_queue s"
    "heap s' = heap s @ [\<lparr>sh_handle = handle, sh_handler = handler, sh_alive = True\<rparr>]"
    "m_subscriptions s' = (m_subscriptions s)(handle \<mapsto> (type, length (heap s)))"
    "unat type < length (m_events s')" "length (m_events s) \<le> length (m_events s')"
    using assms by (auto simp: SubscribeErased_def Let_def resize_length)
  show "slot_of s' ty = (if ty = type
           then (slot_of s type)\<lparr>handlers := handlers (slot_of s type) @ [length (heap s)], dirty := True\<rparr>
           else slot_of s ty)"
    using assms
    by (auto simp: SubscribeErased_def Let_def slot_of_def resize_length resize_nth nth_list_update less_Suc_eq
        split: if_splits)
qed

lemma subscribe_alive:
  assumes "SubscribeErased type handler s = (handle, s')"
  shows "e < length (heap s) \<Longrightarrow> is_alive s' e = is_alive s e" and "is_alive s' (length (heap s))"
  using subscribe_fields(3)[OF assms] by (auto simp: is_alive_def nth_append)

lemma slot_in_heap: "events_wf s \<Longrightarrow> e \<in> set (handlers (slot_of s type)) \<Longrightarrow> e < length (heap s)"
  by (fastforce simp: events_wf_def slot_ok_def)

lemma filter_cong_set: "(\<And>x. x \<in> set xs \<Longrightarrow> P x = Q x) \<Longrightarrow> filter P xs = filter Q xs"
  by (rule filter_cong) auto

lemma subscribe_subscribers:
  assumes wf: "events_wf s" and sub: "SubscribeErased type handler s = (handle, s')"
  shows "subscribers s' ty = subscribers s ty @ (if ty = type then [length (heap s)] else [])"
proof -
  have "filter (is_alive s') (handlers (slot_of s ty)) = filter (is_alive s) (handlers (slot_of s ty))"
    using slot_in_heap[OF wf] subscribe_alive(1)[OF sub] by (intro filter_cong_set) blast
  then show ?thesis
    using subscribe_fields(5)[OF sub, of ty] subscribe_alive(2)[OF sub] by (auto simp: subscribers_def)
qed

lemma subscribe_extends: "SubscribeErased type handler s = (handle, s') \<Longrightarrow> heap_extends s s'"
  using subscribe_fields(3) subscribe_alive(1) by (fastforce simp: heap_extends_def nth_append)

lemma subscribe_slot_ok:
  assumes wf: "events_wf s" and sub: "SubscribeErased type handler s = (handle, s')"
  shows "slot_ok s' (slot_of s' ty)"
proof -
  have ok: "slot_ok s (slot_of s ty)" using wf by (simp add: events_wf_def)
  have inh: "e < length (heap s)" if "e \<in> set (handlers (slot_of s ty))" for e
    using slot_in_heap[OF wf that] .
  have eq: "is_alive s' e = is_alive s e" if "e \<in> set (handlers (slot_of s ty))" for e
    using subscribe_alive(1)[OF sub inh[OF that]] .
  have dead: "filter (\<lambda>e. \<not> is_alive s' e) (handlers (slot_of s ty))
      = filter (\<lambda>e. \<not> is_alive s e) (handlers (slot_of s ty))"
    using eq by (intro filter_cong_set) blast
  have "length (heap s') = Suc (length (heap s))" using subscribe_fields(3)[OF sub] by simp
  with ok dead eq inh subscribe_alive(2)[OF sub] subscribe_fields(5)[OF sub, of ty] show ?thesis
    by (auto simp: slot_ok_def less_Suc_eq)
qed

lemma subscribe_wf:
  assumes wf: "events_wf s" and sub: "SubscribeErased type handler s = (handle, s')"
    and room: "length (heap s) + 1 < 2 ^ 63"
  shows "events_wf s'"
  unfolding events_wf_def
proof (intro conjI allI impI ballI; (elim conjE)?)
  note f = subscribe_fields[OF sub]
  show "length (heap s') < 2 ^ 63" using room f(3) by simp
  show "unat (m_nextHandle s') = length (heap s') + 1"
    using wf room f(2,3) by (simp add: events_wf_def unat_add_nowrap)
  show "unat (sh_handle (heap s' ! e)) = e + 1" if "e < length (heap s')" for e
    using that wf f(1,3) by (auto simp: events_wf_def nth_append less_Suc_eq)
  show "slot_ok s' (slot_of s' ty)" for ty by (rule subscribe_slot_ok[OF wf sub])
next
  note f = subscribe_fields[OF sub]
  fix h ty entry assume sb: "m_subscriptions s' h = Some (ty, entry)"
  have "entry < length (heap s') \<and> is_alive s' entry \<and> sh_handle (heap s' ! entry) = h
      \<and> unat ty < length (m_events s') \<and> entry \<in> set (handlers (slot_of s' ty))"
  proof (cases "h = handle")
    case True
    with sb f subscribe_alive(2)[OF sub] show ?thesis by (auto simp: nth_append)
  next
    case False
    with sb f(4) have old: "m_subscriptions s h = Some (ty, entry)" by simp
    with wf have "entry < length (heap s) \<and> is_alive s entry \<and> sh_handle (heap s ! entry) = h
        \<and> unat ty < length (m_events s) \<and> entry \<in> set (handlers (slot_of s ty))"
      by (auto simp: events_wf_def)
    with f(3,5,7) subscribe_alive(1)[OF sub] show ?thesis by (auto simp: nth_append)
  qed
  then show "entry < length (heap s')" "is_alive s' entry" "sh_handle (heap s' ! entry) = h"
    "unat ty < length (m_events s')" "entry \<in> set (handlers (slot_of s' ty))" by blast+
next
  note f = subscribe_fields[OF sub]
  fix ty entry assume "entry \<in> set (subscribers s' ty)"
  then consider "entry \<in> set (subscribers s ty)" | "ty = type" "entry = length (heap s)"
    using subscribe_subscribers[OF wf sub, of ty] by (auto split: if_splits)
  then show "m_subscriptions s' (sh_handle (heap s' ! entry)) = Some (ty, entry)"
  proof cases
    case 1
    then have "entry < length (heap s)" using slot_in_heap[OF wf] by (auto simp: subscribers_def)
    moreover have "m_subscriptions s (sh_handle (heap s ! entry)) = Some (ty, entry)"
      using wf 1 by (simp add: events_wf_def)
    moreover have "sh_handle (heap s ! entry) \<noteq> handle"
      using wf \<open>entry < length (heap s)\<close> f(1) by (auto simp: events_wf_def dest!: arg_cong[where f = unat])
    ultimately show ?thesis using f(3,4) by (simp add: nth_append)
  next
    case 2
    with f(3,4) show ?thesis by simp
  qed
qed

subsection \<open>Unsubscribing\<close>

definition kill :: "'h SHandler list \<Rightarrow> nat \<Rightarrow> 'h SHandler list" where
  "kill h e = h[e := (h ! e)\<lparr>sh_alive := False\<rparr>]"

lemma unsubscribe_fields:
  assumes wf: "events_wf s" and sb: "m_subscriptions s handle = Some (type, entry)"
  shows "heap (Unsubscribe handle s) = kill (heap s) entry"
    and "m_subscriptions (Unsubscribe handle s) = (m_subscriptions s)(handle := None)"
    and "m_nextHandle (Unsubscribe handle s) = m_nextHandle s"
    and "length (m_events (Unsubscribe handle s)) = length (m_events s)"
    and "ty \<noteq> type \<Longrightarrow> slot_of (Unsubscribe handle s) ty = slot_of s ty"
    and "m_queue (Unsubscribe handle s) = m_queue s"
  using assms by (auto simp: Unsubscribe_def kill_def Let_def slot_of_def)

lemma kill_alive:
  assumes "entry < length (heap s)" and "heap s' = kill (heap s) entry"
  shows "is_alive s' e = (is_alive s e \<and> e \<noteq> entry)"
  using assms by (auto simp: is_alive_def kill_def nth_list_update)

lemma nth_list_update': "xs[i := v] ! j = (if i = j \<and> j < length xs then v else xs ! j)"
  by (cases "i < length xs") (auto simp: nth_list_update list_update_beyond)

lemma kill_nth [simp]: "sh_handle (kill h e ! i) = sh_handle (h ! i)" "sh_handler (kill h e ! i) = sh_handler (h ! i)"
    "length (kill h e) = length h"
  by (simp_all add: kill_def nth_list_update')

text \<open>The slot of the unsubscribed type: the entry joins the dead, and the dead may be swept.\<close>

lemma unsubscribe_slot:
  assumes wf: "events_wf s" and sb: "m_subscriptions s handle = Some (type, entry)"
  defines "s' \<equiv> Unsubscribe handle s" and "old \<equiv> slot_of s type"
  obtains (swept) "slot_of s' type = old\<lparr>numDead := 0, dirty := True, handlers := filter (is_alive s') (handlers old)\<rparr>"
  | (kept) "slot_of s' type = old\<lparr>numDead := numDead old + 1, dirty := True\<rparr>"
proof -
  have "unat type < length (m_events s)" using wf sb by (auto simp: events_wf_def)
  then have "slot_of s' type = old\<lparr>numDead := 0, dirty := True, handlers := filter (is_alive s') (handlers old)\<rparr>
      \<or> slot_of s' type = old\<lparr>numDead := numDead old + 1, dirty := True\<rparr>"
    using sb unfolding s'_def old_def
    by (auto simp: Unsubscribe_def Let_def slot_of_def is_alive_def[abs_def])
  then show thesis using swept kept by blast
qed

lemma subscriber_unique:
  assumes wf: "events_wf s" and sb: "m_subscriptions s handle = Some (type, entry)"
    and e: "entry \<in> set (handlers (slot_of s ty))"
  shows "ty = type"
proof -
  have "is_alive s entry" "sh_handle (heap s ! entry) = handle" using wf sb by (auto simp: events_wf_def)
  with e have "entry \<in> set (subscribers s ty)" by (simp add: subscribers_def)
  with wf have "m_subscriptions s (sh_handle (heap s ! entry)) = Some (ty, entry)"
    by (simp add: events_wf_def)
  with sb \<open>sh_handle (heap s ! entry) = handle\<close> show ?thesis by simp
qed

lemma unsubscribe_alive:
  assumes wf: "events_wf s" and sb: "m_subscriptions s handle = Some (type, entry)"
  shows "is_alive (Unsubscribe handle s) e = (is_alive s e \<and> e \<noteq> entry)"
  using kill_alive[OF _ unsubscribe_fields(1)[OF wf sb]] wf sb by (auto simp: events_wf_def)

lemma unsubscribe_subscribers_entry:
  assumes wf: "events_wf s" and sb: "m_subscriptions s handle = Some (type, entry)"
  shows "subscribers (Unsubscribe handle s) ty = filter (\<lambda>e. e \<noteq> entry) (subscribers s ty)"
proof -
  have "handlers (slot_of (Unsubscribe handle s) ty) = handlers (slot_of s ty)
      \<or> handlers (slot_of (Unsubscribe handle s) ty)
          = filter (is_alive (Unsubscribe handle s)) (handlers (slot_of s ty))"
    by (cases "ty = type"; cases rule: unsubscribe_slot[OF wf sb])
       (auto simp: unsubscribe_fields(5)[OF wf sb])
  then have "subscribers (Unsubscribe handle s) ty
      = filter (is_alive (Unsubscribe handle s)) (handlers (slot_of s ty))"
    by (auto simp: subscribers_def)
  moreover have "is_alive (Unsubscribe handle s) = (\<lambda>e. is_alive s e \<and> e \<noteq> entry)"
    using unsubscribe_alive[OF wf sb] by blast
  ultimately show ?thesis by (simp add: subscribers_def)
qed

lemma unsubscribe_extends: "events_wf s \<Longrightarrow> heap_extends s (Unsubscribe handle s)"
proof (cases "m_subscriptions s handle")
  case None
  then show ?thesis by (simp add: Unsubscribe_def)
next
  case (Some te)
  moreover assume "events_wf s"
  ultimately show ?thesis
    by (cases te) (simp add: heap_extends_def unsubscribe_fields unsubscribe_alive)
qed

lemma dead_count_insert:
  assumes "distinct xs" and "entry \<in> set xs" and "P entry"
  shows "length (filter (\<lambda>e. \<not> (P e \<and> e \<noteq> entry)) xs) = length (filter (\<lambda>e. \<not> P e) xs) + 1"
  using assms
proof (induction xs)
  case (Cons x xs)
  show ?case
  proof (cases "x = entry")
    case True
    then have "filter (\<lambda>e. \<not> (P e \<and> e \<noteq> entry)) xs = filter (\<lambda>e. \<not> P e) xs"
      using Cons.prems by (intro filter_cong_set) auto
    with True Cons.prems show ?thesis by simp
  qed (use Cons in auto)
qed simp

lemma unsubscribe_slot_ok:
  assumes wf: "events_wf s" and sb: "m_subscriptions s handle = Some (type, entry)"
  shows "slot_ok (Unsubscribe handle s) (slot_of (Unsubscribe handle s) ty)"
proof -
  let ?s = "Unsubscribe handle s"
  have ok: "slot_ok s (slot_of s ty)" using wf by (simp add: events_wf_def)
  have entry: "is_alive s entry" "entry \<in> set (handlers (slot_of s type))"
    using wf sb by (auto simp: events_wf_def)
  note alive = unsubscribe_alive[OF wf sb] and len = unsubscribe_fields(1)[OF wf sb]
  show ?thesis
  proof (cases "ty = type")
    case False
    then have ne: "e \<noteq> entry" if "e \<in> set (handlers (slot_of s ty))" for e
      using that subscriber_unique[OF wf sb] by blast
    then have dead: "filter (\<lambda>e. \<not> is_alive ?s e) (handlers (slot_of s ty)) = filter (\<lambda>e. \<not> is_alive s e) (handlers (slot_of s ty))"
      by (intro filter_cong_set) (auto simp: alive)
    have "slot_of ?s ty = slot_of s ty" using unsubscribe_fields(5)[OF wf sb False] .
    with dead ok show ?thesis
      using ne by (auto simp: slot_ok_def alive len)
  next
    case True
    let ?hs = "handlers (slot_of s type)"
    have dist: "distinct ?hs" "set ?hs \<subseteq> {..<length (heap s)}"
      and nd: "unat (numDead (slot_of s type)) = length (filter (\<lambda>e. \<not> is_alive s e) ?hs)"
      using ok True by (auto simp: slot_ok_def)
    have dead: "length (filter (\<lambda>e. \<not> is_alive ?s e) ?hs) = length (filter (\<lambda>e. \<not> is_alive s e) ?hs) + 1"
      unfolding alive using dead_count_insert[of ?hs entry "is_alive s"] dist entry by blast
    have "length ?hs \<le> length (heap s)"
      using dist distinct_card[of ?hs] card_mono[of "{..<length (heap s)}" "set ?hs"] by simp
    then have "length (filter (\<lambda>e. \<not> is_alive s e) ?hs) \<le> length (heap s)"
      using length_filter_le[of _ ?hs] le_trans by blast
    moreover have "length (heap s) < 2 ^ 63" using wf by (simp add: events_wf_def)
    ultimately have "unat (numDead (slot_of s type) + 1) = length (filter (\<lambda>e. \<not> is_alive ?s e) ?hs)"
      using nd dead by (simp add: unat_add_nowrap)
    with dist True show ?thesis
      by (cases rule: unsubscribe_slot[OF wf sb]) (auto simp: slot_ok_def len filter_empty_conv)
  qed
qed

lemma unsubscribe_wf:
  assumes wf: "events_wf s"
  shows "events_wf (Unsubscribe handle s)"
proof (cases "m_subscriptions s handle")
  case None
  with wf show ?thesis by (simp add: Unsubscribe_def)
next
  case (Some te)
  then obtain type entry where sb: "m_subscriptions s handle = Some (type, entry)" by (cases te) auto
  let ?s = "Unsubscribe handle s"
  note f = unsubscribe_fields[OF wf sb] and alive = unsubscribe_alive[OF wf sb]
  have entry: "entry < length (heap s)" "sh_handle (heap s ! entry) = handle" using wf sb by (auto simp: events_wf_def)
  have inj: "e = entry" if "e < length (heap s)" "sh_handle (heap s ! e) = handle" for e
    using wf that entry by (metis events_wf_def add_right_cancel)
  have bwd: "e' < length (heap s) \<and> is_alive ?s e' \<and> sh_handle (heap s ! e') = h
      \<and> unat ty < length (m_events s) \<and> e' \<in> set (handlers (slot_of ?s ty))"
    if "m_subscriptions ?s h = Some (ty, e')" for h ty e'
  proof -
    have old: "m_subscriptions s h = Some (ty, e')" "h \<noteq> handle"
      using that f(2) by (auto split: if_splits)
    with wf have o: "e' < length (heap s) \<and> is_alive s e' \<and> sh_handle (heap s ! e') = h
        \<and> unat ty < length (m_events s) \<and> e' \<in> set (subscribers s ty)"
      by (auto simp: events_wf_def subscribers_def)
    with old(2) entry have "e' \<in> set (subscribers ?s ty)"
      by (auto simp: unsubscribe_subscribers_entry[OF wf sb])
    with o show ?thesis by (auto simp: subscribers_def)
  qed
  have fwd: "m_subscriptions ?s (sh_handle (heap s ! e)) = Some (ty, e)" if "e \<in> set (subscribers ?s ty)" for ty e
  proof -
    have e: "e \<in> set (subscribers s ty)" "e \<noteq> entry" using that by (auto simp: unsubscribe_subscribers_entry[OF wf sb])
    then have "e < length (heap s)" using slot_in_heap[OF wf] by (auto simp: subscribers_def)
    with e inj wf f(2) show ?thesis by (auto simp: events_wf_def)
  qed
  show ?thesis
    using wf bwd fwd unsubscribe_slot_ok[OF wf sb] f(1,3,4) unfolding events_wf_def by simp
qed

lemma unsubscribe_subscribers:
  assumes wf: "events_wf s"
  shows "subscribers (Unsubscribe handle s) ty = filter (\<lambda>e. sh_handle (heap s ! e) \<noteq> handle) (subscribers s ty)"
proof -
  have inh: "e < length (heap s) \<and> m_subscriptions s (sh_handle (heap s ! e)) = Some (ty, e)"
    if "e \<in> set (subscribers s ty)" for e
    using wf that slot_in_heap[OF wf] by (auto simp: subscribers_def events_wf_def)
  show ?thesis
  proof (cases "m_subscriptions s handle")
    case None
    then show ?thesis using inh by (fastforce simp: Unsubscribe_def intro!: filter_True[symmetric])
  next
    case (Some te)
    then obtain type entry where sb: "m_subscriptions s handle = Some (type, entry)" by (cases te) auto
    have "sh_handle (heap s ! entry) = handle" using wf sb by (auto simp: events_wf_def)
    then have "(e \<noteq> entry) = (sh_handle (heap s ! e) \<noteq> handle)" if "e \<in> set (subscribers s ty)" for e
      using inh[OF that] sb by auto
    then show ?thesis
      unfolding unsubscribe_subscribers_entry[OF wf sb] by (intro filter_cong_set) blast
  qed
qed

subsection \<open>Snapshots and dispatch\<close>

lemma snapshot_fields:
  assumes "GetSnapshot type s = (snap, s')"
  shows "heap s' = heap s" and "m_subscriptions s' = m_subscriptions s" and "m_nextHandle s' = m_nextHandle s"
    and "length (m_events s') = length (m_events s)" and "m_queue s' = m_queue s" and "m_draining s' = m_draining s"
  using assms by (auto simp: GetSnapshot_def Let_def split: if_splits)

lemma snapshot_alive: "GetSnapshot type s = (snap, s') \<Longrightarrow> is_alive s' = is_alive s"
  using snapshot_fields(1) by (fastforce simp: is_alive_def)

lemma snapshot_slot:
  assumes wf: "events_wf s" and g: "GetSnapshot type s = (snap, s')"
  shows "slot_of s' ty = (if ty = type \<and> dirty (slot_of s type) \<and> unat type < length (m_events s)
      then (slot_of s type)\<lparr>handlers := subscribers s type, numDead := 0,
              snapshot := Some (subscribers s type), dirty := False\<rparr>
      else slot_of s ty)"
  using g by (auto simp: GetSnapshot_def Let_def slot_of_def subscribers_def split: if_splits)

lemma snapshot_subscribers:
  assumes wf: "events_wf s" and g: "GetSnapshot type s = (snap, s')"
  shows "subscribers s' ty = subscribers s ty"
    and "(case snap of None \<Rightarrow> [] | Some es \<Rightarrow> es) = subscribers s type"
proof -
  show "subscribers s' ty = subscribers s ty"
    unfolding subscribers_def snapshot_alive[OF g] snapshot_slot[OF wf g, of ty] by (auto simp: subscribers_def)
  have ok: "slot_ok s (slot_of s type)" using wf by (simp add: events_wf_def)
  show "(case snap of None \<Rightarrow> [] | Some es \<Rightarrow> es) = subscribers s type"
  proof (cases "unat type < length (m_events s) \<and> dirty (slot_of s type)")
    case True
    with g show ?thesis by (auto simp: GetSnapshot_def Let_def slot_of_def subscribers_def)
  next
    case False
    then have nd: "\<not> dirty (slot_of s type)" by (auto simp: slot_of_def empty_slot_def)
    then have "subscribers s type = handlers (slot_of s type)"
      using ok by (auto simp: slot_ok_def subscribers_def intro: filter_True)
    moreover have "snap = snapshot (slot_of s type)"
      using g nd by (auto simp: GetSnapshot_def Let_def slot_of_def empty_slot_def split: if_splits)
    ultimately show ?thesis using ok nd by (auto simp: slot_ok_def)
  qed
qed

lemma snapshot_wf:
  assumes wf: "events_wf s" and g: "GetSnapshot type s = (snap, s')"
  shows "events_wf s'"
proof -
  have slot: "slot_ok s' (slot_of s' ty)" for ty
  proof -
    have "slot_ok s (slot_of s ty)" using wf by (simp add: events_wf_def)
    then show ?thesis
      unfolding snapshot_slot[OF wf g, of ty]
      by (auto simp: slot_ok_def snapshot_alive[OF g] snapshot_fields(1)[OF g] subscribers_def filter_empty_conv)
  qed
  have "entry \<in> set (handlers (slot_of s' ty))" if "m_subscriptions s handle = Some (ty, entry)" for handle ty entry
  proof -
    have "entry \<in> set (subscribers s ty)" using wf that by (auto simp: events_wf_def subscribers_def)
    then have "entry \<in> set (subscribers s' ty)" using snapshot_subscribers(1)[OF wf g] by simp
    then show ?thesis by (simp add: subscribers_def)
  qed
  with wf slot show ?thesis
    unfolding events_wf_def snapshot_subscribers(1)[OF wf g] snapshot_alive[OF g]
    by (simp add: snapshot_fields[OF g])
qed

lemma snapshot_extends: "GetSnapshot type s = (snap, s') \<Longrightarrow> heap_extends s s'"
  by (simp add: heap_extends_def snapshot_fields snapshot_alive)

text \<open>What a handler may do to the event system: any sequence of its operations.\<close>

inductive bus_step :: "('h, 'p) CSystem \<Rightarrow> ('h, 'p) CSystem \<Rightarrow> bool" where
  subscribe: "length (heap s) + 1 < 2 ^ 63 \<Longrightarrow> bus_step s (snd (SubscribeErased type handler s))"
| unsubscribe: "bus_step s (Unsubscribe handle s)"
| take_snapshot: "bus_step s (snd (GetSnapshot type s))"
| queue: "bus_step s (QueueErased d s)"

abbreviation bus_steps :: "('h, 'p) CSystem \<Rightarrow> ('h, 'p) CSystem \<Rightarrow> bool" where
  "bus_steps \<equiv> bus_step\<^sup>*\<^sup>*"

lemma queue_wf: "events_wf s \<Longrightarrow> events_wf (QueueErased d s) \<and> heap_extends s (QueueErased d s)"
proof -
  have "slot_of (QueueErased d s) = slot_of s" "is_alive (QueueErased d s) = is_alive s"
    by (auto simp: QueueErased_def slot_of_def is_alive_def)
  then show "events_wf s \<Longrightarrow> events_wf (QueueErased d s) \<and> heap_extends s (QueueErased d s)"
    by (simp add: events_wf_def slot_ok_def subscribers_def heap_extends_def) (simp add: QueueErased_def)
qed

lemma bus_step_wf: "bus_step s s' \<Longrightarrow> events_wf s \<Longrightarrow> events_wf s' \<and> heap_extends s s'"
proof (induction rule: bus_step.induct)
  case (subscribe s type handler)
  then show ?case
    by (cases "SubscribeErased type handler s") (auto intro: subscribe_wf subscribe_extends)
next
  case (take_snapshot s type)
  then show ?case
    by (cases "GetSnapshot type s") (auto intro: snapshot_wf snapshot_extends)
qed (auto intro: unsubscribe_wf unsubscribe_extends simp: queue_wf)

lemma bus_steps_wf: "bus_steps s s' \<Longrightarrow> events_wf s \<Longrightarrow> events_wf s' \<and> heap_extends s s'"
  by (induction rule: rtranclp_induct) (auto dest: bus_step_wf intro: heap_extends_trans)

lemma emit_loop_append:
  "emit_loop call p (xs @ ys) s =
     (let (s1, run1) = emit_loop call p xs s; (s2, run2) = emit_loop call p ys s1 in (s2, run1 @ run2))"
  by (induction xs arbitrary: s) (auto simp: Let_def split: prod.splits)

lemma emit_loop_subseq: "emit_loop call p es s = (s', run) \<Longrightarrow> subseq run es"
  by (induction es arbitrary: s s' run) (auto simp: Let_def split: prod.splits if_splits)

lemma emit_loop_spec:
  assumes call: "\<And>h p s. bus_steps s (call h p s)"
    and "events_wf s" and "set es \<subseteq> {..<length (heap s)}" and "emit_loop call p es s = (s', run)"
  shows "bus_steps s s' \<and> (\<forall>e\<in>set run. is_alive s e) \<and> (\<forall>e\<in>set es. is_alive s' e \<longrightarrow> e \<in> set run)"
  using assms(2-4)
proof (induction es arbitrary: s run)
  case (Cons e es)
  define s1 where "s1 = (if is_alive s e then call (sh_handler (heap s ! e)) p s else s)"
  have st: "bus_steps s s1" using call by (simp add: s1_def)
  then have wf1: "events_wf s1" and ext: "heap_extends s s1" using bus_steps_wf Cons.prems(1) by blast+
  obtain run1 where run1: "emit_loop call p es s1 = (s', run1)" "run = (if is_alive s e then e # run1 else run1)"
    using Cons.prems(3) by (auto simp: s1_def Let_def split: prod.splits if_splits)
  have "set es \<subseteq> {..<length (heap s1)}" using Cons.prems(2) ext by (auto simp: heap_extends_def)
  note ih = Cons.IH[OF wf1 this run1(1)]
  have back_alive: "is_alive s x" if "x \<in> set es" "is_alive s1 x" for x
    using that ext Cons.prems(2) by (auto simp: heap_extends_def)
  have "is_alive s' e \<Longrightarrow> is_alive s e"
    using bus_steps_wf[of s s'] st ih Cons.prems(1,2) by (auto simp: heap_extends_def dest: rtranclp_trans)
  moreover have "set run1 \<subseteq> set es" using emit_loop_subseq[OF run1(1)] by (auto simp: subseq_conv_nths dest: in_set_nthsD)
  ultimately show ?case using ih st back_alive run1(2) by (auto intro: rtranclp_trans)
qed simp

text \<open>
  What a dispatch owes its subscribers, said without its loop: \<open>after_calls\<close> is the system once the handlers of some entries have run one after the
  other, and \<open>at_turn\<close> the system that an entry meets when its turn comes, which is what the invoked entries before it have left.
\<close>

fun after_calls :: "('h \<Rightarrow> 'p \<Rightarrow> ('h, 'p) CSystem \<Rightarrow> ('h, 'p) CSystem) \<Rightarrow> 'p \<Rightarrow> nat list \<Rightarrow> ('h, 'p) CSystem \<Rightarrow> ('h, 'p) CSystem" where
  "after_calls call payload [] s = s"
| "after_calls call payload (e # es) s = after_calls call payload es (call (sh_handler (heap s ! e)) payload s)"

definition at_turn ::
    "('h \<Rightarrow> 'p \<Rightarrow> ('h, 'p) CSystem \<Rightarrow> ('h, 'p) CSystem) \<Rightarrow> 'p \<Rightarrow> nat list \<Rightarrow> nat list \<Rightarrow> nat \<Rightarrow> ('h, 'p) CSystem \<Rightarrow> ('h, 'p) CSystem" where
  "at_turn call payload entries invoked e s =
     after_calls call payload (filter (\<lambda>x. x \<in> set (takeWhile (\<lambda>y. y \<noteq> e) entries)) invoked) s"

lemma emit_loop_exact:
  assumes "emit_loop call p es s = (s', run)" and "distinct es"
  shows "s' = after_calls call p run s \<and> (\<forall>e\<in>set es. e \<in> set run \<longleftrightarrow> is_alive (at_turn call p es run e s) e)"
  using assms
proof (induction es arbitrary: s run)
  case (Cons a es)
  define s1 where "s1 = (if is_alive s a then call (sh_handler (heap s ! a)) p s else s)"
  obtain run1 where run1: "emit_loop call p es s1 = (s', run1)" "run = (if is_alive s a then a # run1 else run1)"
    using Cons.prems(1) by (auto simp: s1_def Let_def split: prod.splits if_splits)
  have "set run1 \<subseteq> set es" using emit_loop_subseq[OF run1(1)] by (auto simp: subseq_conv_nths dest: in_set_nthsD)
  then have a: "a \<notin> set run1" using Cons.prems(2) by auto
  have ih: "s' = after_calls call p run1 s1" "\<And>e. e \<in> set es \<Longrightarrow> e \<in> set run1 \<longleftrightarrow> is_alive (at_turn call p es run1 e s1) e"
    using Cons.IH[OF run1(1)] Cons.prems(2) by auto
  have "at_turn call p (a # es) run e s = at_turn call p es run1 e s1" if "e \<in> set es" for e
  proof -
    have "e \<noteq> a" using that Cons.prems(2) by auto
    moreover have "filter (\<lambda>x. x = a \<or> x \<in> set (takeWhile (\<lambda>y. y \<noteq> e) es)) run1 = filter (\<lambda>x. x \<in> set (takeWhile (\<lambda>y. y \<noteq> e) es)) run1"
      using a by (intro filter_cong) auto
    ultimately show ?thesis using run1(2) by (auto simp: at_turn_def s1_def)
  qed
  moreover have "at_turn call p (a # es) run a s = s" by (simp add: at_turn_def)
  moreover have "s' = after_calls call p run s" using ih(1) run1(2) by (simp add: s1_def)
  ultimately show ?case using ih(2) a run1(2) Cons.prems(2) by auto
qed simp

lemma EmitErased_loop:
  assumes wf: "events_wf s" and e: "EmitErased call type p s = (s', run)"
  obtains s1 where "bus_step s s1" "subscribers s1 = subscribers s" "is_alive s1 = is_alive s"
    "heap s1 = heap s" "m_queue s1 = m_queue s" "m_draining s1 = m_draining s" "events_wf s1"
    "s1 = snd (GetSnapshot type s)" "emit_loop call p (subscribers s type) s1 = (s', run)"
proof -
  obtain snap s1 where g: "GetSnapshot type s = (snap, s1)" by (cases "GetSnapshot type s") auto
  have "emit_loop call p (subscribers s type) s1 = (s', run)"
    using e g snapshot_subscribers(2)[OF wf g] by (auto simp: EmitErased_def split: option.splits)
  moreover have "bus_step s s1" using bus_step.take_snapshot[of s type] g by simp
  moreover have "subscribers s1 = subscribers s" using snapshot_subscribers(1)[OF wf g] by (intro ext)
  ultimately show thesis
    using snapshot_alive[OF g] snapshot_fields[OF g] snapshot_wf[OF wf g]
    by (intro that[of s1]) (simp_all add: g)
qed

subsection \<open>The interface of the event bus\<close>

text \<open>
  What a client of the bus relies on, with a subscription seen as the pair of its handle and handler.
\<close>

locale event_bus =
  fixes subscribe :: "'t \<Rightarrow> 'h \<Rightarrow> 's \<Rightarrow> 'k \<times> 's" and unsubscribe :: "'k \<Rightarrow> 's \<Rightarrow> 's"
    and subs :: "'s \<Rightarrow> 't \<Rightarrow> ('k \<times> 'h) list" and invar :: "'s \<Rightarrow> bool" and room :: "'s \<Rightarrow> bool"
  assumes subs_subscribe: "invar s \<Longrightarrow> room s \<Longrightarrow> subscribe ty h s = (k, s') \<Longrightarrow>
      invar s' \<and> subs s' ty' = subs s ty' @ (if ty' = ty then [(k, h)] else [])"
    and subs_fresh: "invar s \<Longrightarrow> subscribe ty h s = (k, s') \<Longrightarrow> k \<notin> fst ` set (subs s ty')"
    and subs_unsubscribe: "invar s \<Longrightarrow>
      invar (unsubscribe k s) \<and> subs (unsubscribe k s) ty = filter (\<lambda>x. fst x \<noteq> k) (subs s ty)"
begin

lemma unsubscribe_undoes_subscribe:
  assumes "invar s" and "room s" and "subscribe ty h s = (k, s')"
  shows "subs (unsubscribe k s') = subs s"
proof
  fix ty'
  have "filter (\<lambda>x. fst x \<noteq> k) (subs s ty') = subs s ty'"
    using subs_fresh[OF assms(1,3)] by (intro filter_True) force
  with subs_subscribe[OF assms, of ty'] subs_unsubscribe[of s' k ty']
  show "subs (unsubscribe k s') ty' = subs s ty'" by simp
qed

lemma unsubscribe_idempotent: "invar s \<Longrightarrow> subs (unsubscribe k (unsubscribe k s)) = subs (unsubscribe k s)"
  by (rule ext) (simp add: subs_unsubscribe)

end

definition subscription_list :: "('h, 'p) CSystem \<Rightarrow> EventTypeId \<Rightarrow> (EventHandle \<times> 'h) list" where
  "subscription_list s type = map (\<lambda>e. (sh_handle (heap s ! e), sh_handler (heap s ! e))) (subscribers s type)"

definition has_room :: "('h, 'p) CSystem \<Rightarrow> bool" where
  "has_room s \<longleftrightarrow> length (heap s) + 1 < 2 ^ 63"

lemma subscriber_in_heap: "events_wf s \<Longrightarrow> e \<in> set (subscribers s type) \<Longrightarrow> e < length (heap s)"
  using slot_in_heap by (fastforce simp: subscribers_def)

lemma subscription_list_subscribe:
  assumes "events_wf s" and "SubscribeErased type handler s = (handle, s')"
  shows "subscription_list s' ty = subscription_list s ty @ (if ty = type then [(handle, handler)] else [])"
  using subscriber_in_heap[OF assms(1)]
  by (auto simp: subscription_list_def subscribe_subscribers[OF assms] subscribe_fields(3)[OF assms(2)] nth_append)

lemma subscription_list_unsubscribe:
  assumes wf: "events_wf s"
  shows "subscription_list (Unsubscribe handle s) ty = filter (\<lambda>x. fst x \<noteq> handle) (subscription_list s ty)"
proof -
  have "sh_handle (heap (Unsubscribe handle s) ! e) = sh_handle (heap s ! e)
      \<and> sh_handler (heap (Unsubscribe handle s) ! e) = sh_handler (heap s ! e)"
    if "e \<in> set (subscribers s ty)" for e
    using unsubscribe_extends[OF wf] subscriber_in_heap[OF wf that] by (simp add: heap_extends_def)
  then show ?thesis
    by (simp add: subscription_list_def unsubscribe_subscribers[OF wf] filter_map comp_def)
qed

lemma subscription_fresh:
  assumes wf: "events_wf s" and "SubscribeErased type handler s = (handle, s')"
  shows "handle \<notin> fst ` set (subscription_list s ty)"
proof
  assume "handle \<in> fst ` set (subscription_list s ty)"
  then obtain e where "e \<in> set (subscribers s ty)" "sh_handle (heap s ! e) = m_nextHandle s"
    using subscribe_fields(1)[OF assms(2)] by (auto simp: subscription_list_def)
  moreover from this have "e < length (heap s)" using subscriber_in_heap[OF wf] by blast
  moreover from this have "unat (sh_handle (heap s ! e)) = e + 1" using wf by (simp add: events_wf_def)
  moreover have "unat (m_nextHandle s) = length (heap s) + 1" using wf by (simp add: events_wf_def)
  ultimately show False by simp
qed

interpretation bus: event_bus SubscribeErased Unsubscribe subscription_list events_wf has_room
  by unfold_locales
     (auto simp: subscription_list_subscribe subscription_list_unsubscribe has_room_def
       intro: subscribe_wf unsubscribe_wf dest: subscription_fresh)

subsection \<open>Draining the queue\<close>

text \<open>A handler that only queues another event.\<close>

definition requeue :: "('h \<Rightarrow> 'p \<Rightarrow> EventTypeId \<times> 'p) \<Rightarrow> 'h \<Rightarrow> 'p \<Rightarrow> ('h, 'p) CSystem \<Rightarrow> ('h, 'p) CSystem" where
  "requeue g h p s = QueueErased (g h p) s"

lemma emit_loop_requeue:
  assumes "\<forall>e\<in>set es. is_alive s e"
  shows "emit_loop (requeue g) p es s =
    (s\<lparr>m_queue := m_queue s @ map (\<lambda>e. g (sh_handler (heap s ! e)) p) es\<rparr>, es)"
  using assms
proof (induction es arbitrary: s)
  case (Cons e es)
  have "\<forall>x\<in>set es. is_alive (requeue g (sh_handler (heap s ! e)) p s) x"
    using Cons.prems by (simp add: requeue_def QueueErased_def is_alive_def)
  from Cons.IH[OF this] Cons.prems show ?case
    by (simp add: requeue_def QueueErased_def)
qed simp

lemma requeue_transparent:
  "subscribers (s\<lparr>m_queue := q\<rparr>) = subscribers s" "events_wf (s\<lparr>m_queue := q\<rparr>) = events_wf s"
  "subscribers (s\<lparr>m_draining := q\<rparr>) = subscribers s" "events_wf (s\<lparr>m_draining := q\<rparr>) = events_wf s"
proof -
  have alive: "is_alive (s\<lparr>m_queue := q\<rparr>) = is_alive s" "is_alive (s\<lparr>m_draining := q\<rparr>) = is_alive s"
    and slot: "slot_of (s\<lparr>m_queue := q\<rparr>) = slot_of s" "slot_of (s\<lparr>m_draining := q\<rparr>) = slot_of s"
    by (auto simp: is_alive_def slot_of_def)
  show sub: "subscribers (s\<lparr>m_queue := q\<rparr>) = subscribers s" "subscribers (s\<lparr>m_draining := q\<rparr>) = subscribers s"
    by (rule ext, simp add: subscribers_def alive slot)+
  show "events_wf (s\<lparr>m_queue := q\<rparr>) = events_wf s" "events_wf (s\<lparr>m_draining := q\<rparr>) = events_wf s"
    by (simp_all add: events_wf_def slot_ok_def alive slot sub)
qed

lemma EmitErased_requeue:
  assumes wf: "events_wf s" and e: "EmitErased (requeue g) type p s = (s', run)"
  shows "run = subscribers s type" and "heap s' = heap s" and "subscribers s' = subscribers s" and "events_wf s'"
    and "m_queue s' = m_queue s @ map (\<lambda>e. g (sh_handler (heap s ! e)) p) (subscribers s type)"
    and "m_draining s' = m_draining s"
proof -
  from wf e obtain s1 where s1: "subscribers s1 = subscribers s" "is_alive s1 = is_alive s"
      "heap s1 = heap s" "m_queue s1 = m_queue s" "m_draining s1 = m_draining s" "events_wf s1"
      "emit_loop (requeue g) p (subscribers s type) s1 = (s', run)"
    by (rule EmitErased_loop)
  have alive: "\<forall>e\<in>set (subscribers s type). is_alive s1 e" using s1(2) by (simp add: subscribers_def)
  have "(s', run) = (s1\<lparr>m_queue := m_queue s1 @ map (\<lambda>e. g (sh_handler (heap s1 ! e)) p) (subscribers s type)\<rparr>,
      subscribers s type)"
    using emit_loop_requeue[OF alive, of g p] s1(7) by (rule trans[OF sym, rotated])
  then have "run = subscribers s type"
    "s' = s1\<lparr>m_queue := m_queue s1 @ map (\<lambda>e. g (sh_handler (heap s1 ! e)) p) (subscribers s type)\<rparr>"
    by blast+
  then show "run = subscribers s type" "heap s' = heap s" "subscribers s' = subscribers s" "events_wf s'"
    "m_queue s' = m_queue s @ map (\<lambda>e. g (sh_handler (heap s ! e)) p) (subscribers s type)"
    "m_draining s' = m_draining s"
    using s1 by (simp_all add: requeue_transparent)
qed

lemma drain_loop_requeue:
  assumes "events_wf s" and "drain_loop (requeue g) ds s = (s', run)"
  shows "run = concat (map (\<lambda>(ty, p). subscribers s ty) ds)
    \<and> m_queue s' = m_queue s @ concat (map (\<lambda>(ty, p). map (\<lambda>e. g (sh_handler (heap s ! e)) p) (subscribers s ty)) ds)"
  using assms
proof (induction ds arbitrary: s run)
  case (Cons d ds)
  obtain ty p where d: "d = (ty, p)" by (cases d)
  obtain s1 run1 run2 where e: "EmitErased (requeue g) ty p s = (s1, run1)"
      "drain_loop (requeue g) ds s1 = (s', run2)" "run = run1 @ run2"
    using Cons.prems(2) by (auto simp: d split: prod.splits)
  note r = EmitErased_requeue[OF Cons.prems(1) e(1)]
  from Cons.IH[OF r(4) e(2)] show ?case by (simp add: d e(3) r)
qed auto

subsection \<open>Properties\<close>

text \<open>Two handlers on event type 0; the first one unsubscribes the second when it runs.\<close>

definition demo_bus :: "(string, nat) CSystem" where
  "demo_bus = snd (SubscribeErased 0 ''second'' (snd (SubscribeErased 0 ''first'' initial_system)))"

definition demo_call :: "string \<Rightarrow> nat \<Rightarrow> (string, nat) CSystem \<Rightarrow> (string, nat) CSystem" where
  "demo_call h p s = (if h = ''first'' then Unsubscribe 2 s else s)"

lemma demo_bus_wf: "events_wf demo_bus"
proof -
  obtain k1 s1 where s1: "SubscribeErased 0 ''first'' (initial_system :: (string, nat) CSystem) = (k1, s1)"
    by (cases "SubscribeErased 0 ''first'' (initial_system :: (string, nat) CSystem)") auto
  obtain k2 s2 where s2: "SubscribeErased 0 ''second'' s1 = (k2, s2)"
    by (cases "SubscribeErased 0 ''second'' s1") auto
  have "events_wf s1" using subscribe_wf[OF initial_wf s1] by (simp add: initial_system_def)
  moreover have "length (heap s1) = 1" using subscribe_fields(3)[OF s1] by (simp add: initial_system_def)
  ultimately have "events_wf s2" using subscribe_wf[OF _ s2] by simp
  then show ?thesis using s1 s2 by (simp add: demo_bus_def)
qed

lemma demo_call_steps: "bus_steps s (demo_call h p s)"
  by (auto simp: demo_call_def intro: bus_step.unsubscribe)

lemma demo_subscribers: "subscribers demo_bus 0 = [0, 1]"
  by code_simp

text \<open>
  C5. Dispatch: whatever the handlers do to the event system while it runs, an emit runs handlers of
  subscribers only, in subscription order and each at most once, and it runs the one of a subscriber exactly when that is
  still alive at its turn, after the handlers before it have run: one that was unsubscribed earlier in the same dispatch is
  not invoked, and none that is subscribed still when the dispatch ends is missed.  Nothing subscribed during the dispatch is
  invoked by it, the system is left as those handlers leave it, and the bookkeeping stays consistent.
\<close>

theorem emit_invokes_subscribers:
  assumes wf: "events_wf s" and call: "\<And>h p s. bus_steps s (call h p s)"
    and emit: "EmitErased call type payload s = (s', invoked)"
  shows "subseq invoked (subscribers s type) \<and> distinct invoked
    \<and> (\<forall>e\<in>set (subscribers s type).
         e \<in> set invoked \<longleftrightarrow> is_alive (at_turn call payload (subscribers s type) invoked e (snd (GetSnapshot type s))) e)
    \<and> (\<forall>e\<in>set (subscribers s type). is_alive s' e \<longrightarrow> e \<in> set invoked)
    \<and> s' = after_calls call payload invoked (snd (GetSnapshot type s))
    \<and> events_wf s' \<and> heap_extends s s'"
proof -
  from wf emit obtain s1 where s1: "bus_step s s1" "heap s1 = heap s" "events_wf s1"
      "emit_loop call payload (subscribers s type) s1 = (s', invoked)" "s1 = snd (GetSnapshot type s)"
    by (rule EmitErased_loop)
  have "set (subscribers s type) \<subseteq> {..<length (heap s1)}" using subscriber_in_heap[OF wf] s1(2) by auto
  note spec = emit_loop_spec[OF call s1(3) this s1(4)]
  then have steps: "bus_steps s s'" using s1(1) by (meson converse_rtranclp_into_rtranclp)
  have dist: "distinct (subscribers s type)" using wf by (auto simp: events_wf_def slot_ok_def subscribers_def)
  then have "distinct invoked" using emit_loop_subseq[OF s1(4)]
    by (auto simp: subseq_conv_nths)
  with spec steps emit_loop_subseq[OF s1(4)] bus_steps_wf[OF steps wf] emit_loop_exact[OF s1(4) dist] show ?thesis
    unfolding s1(5) by blast
qed

theorem emit_invokes_subscribers_witness:
  "\<exists>s' invoked. EmitErased demo_call 0 7 demo_bus = (s', invoked) \<and> invoked = [0]
     \<and> subseq invoked (subscribers demo_bus 0)
     \<and> \<not> is_alive (at_turn demo_call 7 (subscribers demo_bus 0) invoked 1 (snd (GetSnapshot 0 demo_bus))) 1"
proof -
  have run: "snd (EmitErased demo_call 0 7 demo_bus) = [0]" by code_simp
  obtain s' invoked where e: "EmitErased demo_call 0 7 demo_bus = (s', invoked)"
    by (cases "EmitErased demo_call 0 7 demo_bus") auto
  then show ?thesis using emit_invokes_subscribers[OF demo_bus_wf demo_call_steps e] run by (auto simp: demo_subscribers)
qed

text \<open>
  Unsubscribing takes effect at once, even in the middle of a dispatch: an entry that is no longer
  alive after the handlers before it have run is skipped.
\<close>

theorem unsubscribe_mid_dispatch:
  assumes wf: "events_wf s" and emit: "EmitErased call type payload s = (s', invoked)"
    and split: "subscribers s type = before @ e # after"
    and turn: "emit_loop call payload before (snd (GetSnapshot type s)) = (s1, invoked1)"
    and dead: "\<not> is_alive s1 e"
  shows "e \<notin> set invoked"
proof -
  from wf emit obtain s0 where s0: "s0 = snd (GetSnapshot type s)"
      "emit_loop call payload (subscribers s type) s0 = (s', invoked)"
    by (rule EmitErased_loop)
  obtain s2 run2 where r2: "emit_loop call payload after s1 = (s2, run2)"
    by (cases "emit_loop call payload after s1") auto
  have inv: "invoked = invoked1 @ run2"
    using s0 turn dead r2 by (simp add: split emit_loop_append)
  have "subseq invoked1 before" "subseq run2 after"
    using emit_loop_subseq[OF turn] emit_loop_subseq[OF r2] by blast+
  then have "set invoked1 \<subseteq> set before" "set run2 \<subseteq> set after"
    by (auto simp: subseq_conv_nths dest: in_set_nthsD)
  moreover have "distinct (before @ e # after)"
    using wf split by (auto simp: events_wf_def slot_ok_def subscribers_def simp flip: split)
  ultimately show ?thesis unfolding inv by auto
qed

theorem unsubscribe_mid_dispatch_witness: "1 \<notin> set (snd (EmitErased demo_call 0 7 demo_bus))"
proof -
  obtain s' invoked where e: "EmitErased demo_call 0 7 demo_bus = (s', invoked)"
    by (cases "EmitErased demo_call 0 7 demo_bus") auto
  obtain s1 run1 where t: "emit_loop demo_call 7 [0] (snd (GetSnapshot 0 demo_bus)) = (s1, run1)"
    by (cases "emit_loop demo_call 7 [0] (snd (GetSnapshot 0 demo_bus))") auto
  have "\<not> is_alive (fst (emit_loop demo_call 7 [0] (snd (GetSnapshot 0 demo_bus)))) 1" by code_simp
  then have "\<not> is_alive s1 1" using t by simp
  with unsubscribe_mid_dispatch[OF demo_bus_wf e _ t, of 1 "[]"] demo_subscribers e show ?thesis by simp
qed

text \<open>
  C6. The handle table, the lazily rebuilt snapshots and the sweeping of dead entries implement the plain
  list of subscriptions: subscribing appends to the list of its type under a fresh handle, unsubscribing
  removes that handle and nothing else, and unsubscribing the handle just returned restores every list.
\<close>

theorem subscriptions_refine_lists:
  assumes wf: "events_wf s" and room: "has_room s" and sub: "SubscribeErased type handler s = (handle, s')"
  shows "events_wf s'
    \<and> subscription_list s' ty = subscription_list s ty @ (if ty = type then [(handle, handler)] else [])
    \<and> subscription_list (Unsubscribe k s) ty = filter (\<lambda>x. fst x \<noteq> k) (subscription_list s ty)
    \<and> events_wf (Unsubscribe k s)
    \<and> subscription_list (Unsubscribe handle s') = subscription_list s"
  using bus.subs_subscribe[OF assms] bus.subs_unsubscribe[OF wf] bus.unsubscribe_undoes_subscribe[OF assms]
  by simp

theorem subscriptions_refine_lists_witness:
  "\<exists>handle s'. SubscribeErased 3 ''third'' demo_bus = (handle, s')
     \<and> subscription_list s' 3 = [(handle, ''third'')]
     \<and> subscription_list (Unsubscribe handle s') = subscription_list demo_bus"
proof -
  obtain handle s' where sub: "SubscribeErased 3 ''third'' demo_bus = (handle, s')"
    by (cases "SubscribeErased 3 ''third'' demo_bus") auto
  have "length (heap demo_bus) = 2" by code_simp
  then have room: "has_room demo_bus" by (simp add: has_room_def)
  have "subscription_list demo_bus 3 = []" by code_simp
  with subscriptions_refine_lists[OF demo_bus_wf room sub, of 3 0] sub show ?thesis by simp
qed

text \<open>
  A drain dispatches exactly the events queued before it, first in first out, however many events the
  handlers queue meanwhile: those are left in the queue for the next drain.
\<close>

theorem drain_defers_requeued:
  assumes wf: "events_wf s" and idle: "m_draining s = []"
    and drain: "DispatchQueued (requeue g) s = (s', invoked)"
  shows "invoked = concat (map (\<lambda>(ty, p). subscribers s ty) (m_queue s))
    \<and> m_queue s' = concat (map (\<lambda>(ty, p). map (\<lambda>e. g (sh_handler (heap s ! e)) p) (subscribers s ty)) (m_queue s))
    \<and> m_draining s' = []"
proof -
  let ?s = "s\<lparr>m_queue := [], m_draining := m_queue s\<rparr>"
  have t: "subscribers ?s = subscribers s" "events_wf ?s" using wf by (simp_all add: requeue_transparent)
  obtain s2 where d: "drain_loop (requeue g) (m_queue s) ?s = (s2, invoked)" "s' = s2\<lparr>m_draining := []\<rparr>"
    using drain idle by (auto simp: DispatchQueued_def Let_def split: prod.splits)
  with drain_loop_requeue[OF t(2) d(1)] t(1) show ?thesis by simp
qed

theorem drain_defers_requeued_witness:
  "\<exists>s' invoked. DispatchQueued (requeue (\<lambda>h p. (0, p + 1))) (QueueErased (0, 5) demo_bus) = (s', invoked)
     \<and> invoked = [0, 1] \<and> m_queue s' = [(0, 6), (0, 6)]"
proof -
  let ?s = "QueueErased (0, 5) demo_bus"
  have wf: "events_wf ?s" using queue_wf[OF demo_bus_wf] by blast
  have q: "m_queue ?s = [(0, 5)]" "m_draining ?s = []" "subscribers ?s 0 = [0, 1]" by code_simp+
  obtain s' invoked where d: "DispatchQueued (requeue (\<lambda>h p. (0, p + 1))) ?s = (s', invoked)"
    by (cases "DispatchQueued (requeue (\<lambda>h p. (0, p + 1))) ?s") auto
  from drain_defers_requeued[OF wf q(2) d] q(1,3) d show ?thesis by simp
qed

end
