(* ===== verification/Raw_Memory.thy ===== *)
theory Raw_Memory
  imports Prelude
begin

section \<open>Byte-addressed memory and alignment\<close>

text \<open>
  The allocators keep their bookkeeping inside the memory they hand out: a \<open>size_t\<close> or a pointer is
  stored in the eight bytes from its address on, least significant byte first.  This theory has that
  memory, the reading and writing of such a field, the alignment expression
  \<^verbatim>\<open>(addr + alignment - 1) & ~(alignment - 1)\<close> the sources repeat, and the laws all of them share.
  Addresses are compared as naturals; a region that does not wrap around ends at or below \<open>2 ^ 64\<close>.
\<close>

type_synonym memory = "addr \<Rightarrow> u8"

definition nullptr :: addr where
  "nullptr = 0"

definition byte_of :: "u64 \<Rightarrow> nat \<Rightarrow> u8" where
  "byte_of v i = ucast (drop_bit (8 * i) v)"

definition read64 :: "memory \<Rightarrow> addr \<Rightarrow> u64" where
  "read64 m a = foldr (\<lambda>i acc. push_bit (8 * i) (ucast (m (a + of_nat i))) OR acc) [0..<8] 0"

definition write64 :: "addr \<Rightarrow> u64 \<Rightarrow> memory \<Rightarrow> memory" where
  "write64 a v m = (\<lambda>x. if unat (x - a) < 8 then byte_of v (unat (x - a)) else m x)"

definition align_up :: "addr \<Rightarrow> size_t \<Rightarrow> addr" where
  "align_up x alignment = (x + alignment - 1) AND NOT (alignment - 1)"

subsection \<open>Reading back what was written\<close>

lemma bit_foldr_or:
  "bit (foldr (\<lambda>i acc. f i OR acc) is 0) n \<longleftrightarrow> (\<exists>i\<in>set is. bit (f i :: u64) n)"
  by (induction "is") (auto simp: bit_or_iff)

lemma bit_read64: "bit (read64 m a) n \<longleftrightarrow> n < 64 \<and> bit (m (a + of_nat (n div 8))) (n mod 8)"
proof -
  have "bit (read64 m a) n \<longleftrightarrow> (\<exists>i<8. 8 * i \<le> n \<and> n < 64 \<and> n - 8 * i < 8 \<and> bit (m (a + of_nat i)) (n - 8 * i))"
    unfolding read64_def bit_foldr_or
    by (fastforce simp: bit_push_bit_iff bit_ucast_iff dest: bit_imp_le_length)
  also have "\<dots> \<longleftrightarrow> (\<exists>i<8. i = n div 8 \<and> n < 64 \<and> bit (m (a + of_nat i)) (n mod 8))"
  proof -
    have "8 * i \<le> n \<and> n - 8 * i < 8 \<longleftrightarrow> i = n div 8" "n - 8 * (n div 8) = n mod 8" for i
      by (auto simp: minus_mult_div_eq_mod)
    then show ?thesis by metis
  qed
  also have "\<dots> \<longleftrightarrow> n < 64 \<and> bit (m (a + of_nat (n div 8))) (n mod 8)" by auto
  finally show ?thesis .
qed

lemma unat_of_nat_byte: "i < 8 \<Longrightarrow> unat (of_nat i :: addr) = i"
  by (rule unat_of_nat_small) simp

lemma bit_byte_of: "bit (byte_of v i) j \<longleftrightarrow> j < 8 \<and> bit v (8 * i + j)"
  by (auto simp: byte_of_def bit_ucast_iff bit_drop_bit_eq ac_simps)

lemma read64_write64_same [simp]: "read64 (write64 a v m) a = v"
proof (rule bit_word_eqI)
  fix n assume "n < LENGTH(64)"
  then have n: "n < 64" by simp
  then have "unat (of_nat (n div 8) :: addr) = n div 8" by (intro unat_of_nat_byte) auto
  with n have "bit (read64 (write64 a v m) a) n = bit v (8 * (n div 8) + n mod 8)"
    using div_less_iff_less_mult[of 8 n 8]
    by (simp add: bit_read64 write64_def bit_byte_of)
  then show "bit (read64 (write64 a v m) a) n = bit v n" by simp
qed

lemma read64_cong:
  assumes "\<And>i. i < 8 \<Longrightarrow> m' (a + of_nat i) = m (a + of_nat i)"
  shows "read64 m' a = read64 m a"
  by (rule bit_word_eqI) (use assms in \<open>simp add: bit_read64 less_mult_imp_div_less\<close>)

lemma offset_in_field:
  fixes a x :: addr
  assumes "unat a + 8 \<le> 2 ^ 64"
  shows "unat (x - a) < 8 \<longleftrightarrow> unat a \<le> unat x \<and> unat x < unat a + 8"
proof (cases "unat a \<le> unat x")
  case True
  then show ?thesis using unat_diff_nowrap[of a x] by auto
next
  case False
  then have "x < a" by (simp add: word_less_nat_alt)
  then have "unat (x - a) = 2 ^ 64 - unat a + unat x"
    using False unat_lt_word[of a] by (simp add: unat_sub_if' )
  with False assms show ?thesis by auto
qed

lemma write64_other:
  assumes "unat a + 8 \<le> 2 ^ 64" and "unat x < unat a \<or> unat a + 8 \<le> unat x"
  shows "write64 a v m x = m x"
  using offset_in_field[OF assms(1), of x] assms(2) by (auto simp: write64_def)

lemma unat_field_offset:
  "unat (a :: addr) + 8 \<le> 2 ^ 64 \<Longrightarrow> i < 8 \<Longrightarrow> unat (a + of_nat i) = unat a + i"
  by (subst unat_add_nowrap) (auto simp: unat_of_nat_byte)

lemma read64_write64_other:
  assumes "unat a + 8 \<le> 2 ^ 64" and "unat b + 8 \<le> 2 ^ 64"
    and "unat b + 8 \<le> unat a \<or> unat a + 8 \<le> unat b"
  shows "read64 (write64 a v m) b = read64 m b"
proof (rule read64_cong)
  fix i :: nat assume "i < 8"
  with assms(3) unat_field_offset[OF assms(2) this]
  show "write64 a v m (b + of_nat i) = m (b + of_nat i)"
    by (intro write64_other[OF assms(1)]) auto
qed

text \<open>Memory that is the same on a region of addresses.\<close>

definition same_on :: "nat set \<Rightarrow> memory \<Rightarrow> memory \<Rightarrow> bool" where
  "same_on R m m' \<longleftrightarrow> (\<forall>x. unat x \<in> R \<longrightarrow> m' x = m x)"

lemma same_on_refl [simp]: "same_on R m m"
  by (simp add: same_on_def)

lemma same_on_subset: "same_on R m m' \<Longrightarrow> S \<subseteq> R \<Longrightarrow> same_on S m m'"
  by (auto simp: same_on_def)

lemma same_on_trans: "same_on R m m' \<Longrightarrow> same_on R m' m'' \<Longrightarrow> same_on R m m''"
  by (auto simp: same_on_def)

lemma same_on_read64:
  assumes "same_on R m m'" and "unat a + 8 \<le> 2 ^ 64" and "{unat a..<unat a + 8} \<subseteq> R"
  shows "read64 m' a = read64 m a"
proof (rule read64_cong)
  fix i :: nat assume "i < 8"
  with assms unat_field_offset[OF assms(2) this] show "m' (a + of_nat i) = m (a + of_nat i)"
    by (simp add: same_on_def subset_iff)
qed

lemma same_on_write64:
  assumes "unat a + 8 \<le> 2 ^ 64" and "R \<inter> {unat a..<unat a + 8} = {}"
  shows "same_on R m (write64 a v m)"
  unfolding same_on_def
proof (intro allI impI)
  fix x :: addr assume "unat x \<in> R"
  with assms(2) have "unat x \<notin> {unat a..<unat a + 8}" by blast
  then show "write64 a v m x = m x" by (intro write64_other[OF assms(1)]) auto
qed

subsection \<open>Rounding up to an alignment\<close>

text \<open>The alignments the sources pass are powers of two.\<close>

definition is_pow2 :: "size_t \<Rightarrow> bool" where
  "is_pow2 a \<longleftrightarrow> list_ex (\<lambda>k. a = 2 ^ k) [0..<64]"

lemma is_pow2_cases:
  assumes "is_pow2 a" obtains k where "k < 64" and "a = 2 ^ k" and "unat a = 2 ^ k"
proof -
  from assms obtain k where "k < 64" "a = 2 ^ k" by (auto simp: is_pow2_def list_ex_iff)
  moreover from this have "unat a = 2 ^ k"
    using unat_of_nat_small[of "2 ^ k", where 'w = 64] power_strict_increasing[of k 64 "2::nat"] by simp
  ultimately show ?thesis by (rule that)
qed

lemma and_not_mask_unat: "k < 64 \<Longrightarrow> unat (w AND NOT (2 ^ k - 1 :: addr)) = (unat w div 2 ^ k) * 2 ^ k"
proof -
  assume "k < 64"
  have "unat (w AND NOT (mask k :: addr)) = push_bit k (drop_bit k (unat w))"
    by (rule bit_eqI) (auto simp: bit_simps not_less dest: bit_imp_le_length)
  then show ?thesis by (simp add: push_bit_eq_mult drop_bit_eq_div mask_eq_exp_minus_1)
qed

lemma unat_align_up:
  assumes p: "is_pow2 a" and nw: "unat x + unat a \<le> 2 ^ 64"
  shows "unat (align_up x a) = ((unat x + unat a - 1) div unat a) * unat a"
proof -
  obtain k where k: "k < 64" "a = 2 ^ k" "unat a = 2 ^ k" using p by (rule is_pow2_cases)
  have "unat (x + (a - 1)) = unat x + unat a - 1"
    using nw k by (subst unat_add_nowrap) (auto simp: unat_diff_nowrap)
  then show ?thesis
    using and_not_mask_unat[OF k(1), of "x + (a - 1)"] k by (simp add: align_up_def algebra_simps)
qed

lemma align_up_bounds:
  assumes p: "is_pow2 a" and nw: "unat x + unat a \<le> 2 ^ 64"
  shows "unat x \<le> unat (align_up x a)" and "unat (align_up x a) < unat x + unat a"
    and "unat a dvd unat (align_up x a)"
proof -
  have pos: "0 < unat a" using p by (rule is_pow2_cases) simp
  let ?n = "unat x + unat a - 1"
  have "?n div unat a * unat a + ?n mod unat a = ?n" by simp
  moreover have "?n mod unat a < unat a" using pos by simp
  ultimately show "unat x \<le> unat (align_up x a)" "unat (align_up x a) < unat x + unat a"
    unfolding unat_align_up[OF assms] using pos by linarith+
  show "unat a dvd unat (align_up x a)" unfolding unat_align_up[OF assms] by simp
qed

subsection \<open>Allocation headers\<close>

text \<open>
  The stack and the free list allocator store an \<open>SAllocationHeader\<close> of two \<open>size_t\<close>, the size of the block and
  the padding before it, immediately below the address they return.
\<close>

definition headerSize :: size_t where
  "headerSize = 16"

definition header_size :: "memory \<Rightarrow> addr \<Rightarrow> size_t" where
  "header_size m h = read64 m h"

definition header_padding :: "memory \<Rightarrow> addr \<Rightarrow> size_t" where
  "header_padding m h = read64 m (h + 8)"

definition write_header :: "addr \<Rightarrow> size_t \<Rightarrow> size_t \<Rightarrow> memory \<Rightarrow> memory" where
  "write_header h sz padding m = write64 (h + 8) padding (write64 h sz m)"

lemma header_write_read:
  assumes "unat h + 16 \<le> 2 ^ 64"
  shows "header_size (write_header h sz pd m) h = sz" and "header_padding (write_header h sz pd m) h = pd"
proof -
  have "unat (h + 8) = unat h + 8" using assms by (simp add: unat_add_nowrap)
  then show "header_size (write_header h sz pd m) h = sz" "header_padding (write_header h sz pd m) h = pd"
    using assms by (simp_all add: header_size_def header_padding_def write_header_def read64_write64_other)
qed

lemma header_write_outside:
  assumes "unat h + 16 \<le> 2 ^ 64" and "unat x < unat h \<or> unat h + 16 \<le> unat x"
  shows "write_header h sz pd m x = m x"
proof -
  have "unat (h + 8) = unat h + 8" using assms by (simp add: unat_add_nowrap)
  then show ?thesis using assms by (auto simp: write_header_def write64_other)
qed

lemma header_same_on:
  assumes "unat h + 16 \<le> 2 ^ 64" and "R \<inter> {unat h..<unat h + 16} = {}"
  shows "same_on R m (write_header h sz pd m)"
  unfolding same_on_def
proof (intro allI impI)
  fix x :: addr assume "unat x \<in> R"
  with assms(2) have "unat x \<notin> {unat h..<unat h + 16}" by blast
  then show "write_header h sz pd m x = m x" by (intro header_write_outside[OF assms(1)]) auto
qed

lemma header_store_outside:
  assumes "unat h + 16 \<le> 2 ^ 64" and "unat x < unat h \<or> unat h + 16 \<le> unat x"
  shows "header_size (m(x := v)) h = header_size m h" and "header_padding (m(x := v)) h = header_padding m h"
proof -
  have h8: "unat (h + 8) = unat h + 8" using assms by (simp add: unat_add_nowrap)
  have "same_on {unat h..<unat h + 16} m (m(x := v))" using assms(2) by (auto simp: same_on_def)
  then show "header_size (m(x := v)) h = header_size m h" "header_padding (m(x := v)) h = header_padding m h"
    using assms(1) h8 by (auto simp: header_size_def header_padding_def intro!: same_on_read64)
qed

lemma header_total:
  assumes "unat pd \<le> 2 ^ 61" and "unat sz \<le> 2 ^ 61"
  shows "unat (16 + pd + sz :: size_t) = 16 + unat pd + unat sz"
  using assms by (simp add: unat_add_nowrap)

end
