(* ===== verification/Allocator_Interface.thy ===== *)
theory Allocator_Interface
  imports Raw_Memory
begin

section \<open>The contract of an allocator\<close>

text \<open>
  \<^verbatim>\<open>public/tge/memory/allocator.hpp\<close> declares \<open>IAllocator\<close>: \<open>Allocate\<close> and \<open>Deallocate\<close>, and everything
  that allocates (\<open>CStdAllocator\<close>, the containers of the engine) relies on what they promise.  The locale
  \<open>arena_allocator\<close> states that promise for an allocator that hands out parts of one arena
  \<open>[base, base + capacity)\<close>; \<open>holds live s\<close> says that the state \<open>s\<close> is consistent with the client
  owning the blocks \<open>live\<close> (address and length).  The client's side is proved once: whatever it allocates, frees
  and writes, its blocks behave like separate arrays.  Each allocator of the library interprets the locale.
\<close>

subsection \<open>Blocks\<close>

type_synonym block = "addr \<times> nat"

definition apart :: "block \<Rightarrow> block \<Rightarrow> bool" where
  "apart b c \<longleftrightarrow> unat (fst b) + snd b \<le> unat (fst c) \<or> unat (fst c) + snd c \<le> unat (fst b)"

fun separated :: "block list \<Rightarrow> bool" where
  "separated [] = True"
| "separated (b # bs) = ((\<forall>c\<in>set bs. apart b c) \<and> separated bs)"

definition in_block :: "addr \<Rightarrow> block \<Rightarrow> bool" where
  "in_block x b \<longleftrightarrow> unat (fst b) \<le> unat x \<and> unat x < unat (fst b) + snd b"

lemma apart_sym: "apart b c = apart c b"
  by (auto simp: apart_def)

lemma separated_append:
  "separated (xs @ ys) \<longleftrightarrow> separated xs \<and> separated ys \<and> (\<forall>x\<in>set xs. \<forall>y\<in>set ys. apart x y)"
  by (induction xs) auto

lemma separated_remove: "separated (xs @ b # ys) \<Longrightarrow> separated (xs @ ys)"
  by (simp add: separated_append)

lemma apart_in_block: "apart b c \<Longrightarrow> in_block x b \<Longrightarrow> \<not> in_block x c"
  by (auto simp: apart_def in_block_def)

lemma separated_nth:
  assumes "separated bs" and "i < length bs" and "j < length bs" and "i \<noteq> j"
  shows "apart (bs ! i) (bs ! j)"
  using assms
proof (induction bs arbitrary: i j)
  case (Cons b bs)
  then show ?case by (cases i; cases j) (auto simp: apart_sym[of _ b])
qed simp

text \<open>
  A request the allocators can serve without their address arithmetic wrapping around: the alignment is a power
  of two, and neither it nor the size is beyond any real address space.
\<close>

definition sane_request :: "size_t \<Rightarrow> size_t \<Rightarrow> bool" where
  "sane_request sz al \<longleftrightarrow> is_pow2 al \<and> unat al \<le> 2 ^ 61 \<and> unat sz \<le> 2 ^ 61"

lemma sane_align:
  assumes "sane_request sz al" and "unat x \<le> 2 ^ 63"
  shows "unat x \<le> unat (align_up x al)" and "unat (align_up x al) < unat x + unat al" and "unat al dvd unat (align_up x al)"
    and "unat (align_up x al - x) = unat (align_up x al) - unat x"
proof -
  have p: "is_pow2 al" and nw: "unat x + unat al \<le> 2 ^ 64" using assms by (auto simp: sane_request_def)
  note b = align_up_bounds[OF p nw]
  show "unat x \<le> unat (align_up x al)" "unat (align_up x al) < unat x + unat al" "unat al dvd unat (align_up x al)"
    by (fact b)+
  show "unat (align_up x al - x) = unat (align_up x al) - unat x" using b(1) by (rule unat_diff_nowrap)
qed

subsection \<open>A client\<close>

text \<open>
  What a client does with its allocator: it asks for memory, gives back one of its blocks, or writes a byte of one
  of them.  It keeps, for each block, the address, the alignment it asked for and the bytes it has written
  (\<open>None\<close> for those it has not).
\<close>

datatype client_op =
    Op_Allocate size_t size_t
  | Op_Deallocate nat
  | Op_Store nat nat u8

type_synonym client_block = "addr \<times> size_t \<times> u8 option list"

definition extent :: "client_block \<Rightarrow> block" where
  "extent b = (fst b, length (snd (snd b)))"

fun run_op ::
  "(size_t \<Rightarrow> size_t \<Rightarrow> 's \<Rightarrow> (addr \<times> 's) option) \<Rightarrow> (addr \<Rightarrow> 's \<Rightarrow> 's option) \<Rightarrow> (addr \<Rightarrow> u8 \<Rightarrow> 's \<Rightarrow> 's)
     \<Rightarrow> client_op \<Rightarrow> client_block list \<times> 's \<Rightarrow> (client_block list \<times> 's) option" where
  "run_op alloc dealloc store (Op_Allocate sz al) (bs, s) =
     (case alloc sz al s of
        None \<Rightarrow> None
      | Some (p, s') \<Rightarrow> Some (if p = nullptr then bs else (p, al, replicate (unat sz) None) # bs, s'))"
| "run_op alloc dealloc store (Op_Deallocate i) (bs, s) =
     (if i < length bs
      then map_option (\<lambda>s'. (take i bs @ drop (Suc i) bs, s')) (dealloc (fst (bs ! i)) s)
      else Some (bs, s))"
| "run_op alloc dealloc store (Op_Store i k v) (bs, s) =
     (if i < length bs \<and> k < length (snd (snd (bs ! i)))
      then (case bs ! i of (p, al, bytes) \<Rightarrow>
              Some (bs[i := (p, al, bytes[k := Some v])], store (p + of_nat k) v s))
      else Some (bs, s))"

fun run_ops ::
  "(size_t \<Rightarrow> size_t \<Rightarrow> 's \<Rightarrow> (addr \<times> 's) option) \<Rightarrow> (addr \<Rightarrow> 's \<Rightarrow> 's option) \<Rightarrow> (addr \<Rightarrow> u8 \<Rightarrow> 's \<Rightarrow> 's)
     \<Rightarrow> client_op list \<Rightarrow> client_block list \<times> 's \<Rightarrow> (client_block list \<times> 's) option" where
  "run_ops alloc dealloc store [] c = Some c"
| "run_ops alloc dealloc store (op # ops) c =
     Option.bind (run_op alloc dealloc store op c) (run_ops alloc dealloc store ops)"

fun op_accepted :: "(size_t \<Rightarrow> size_t \<Rightarrow> bool) \<Rightarrow> client_op \<Rightarrow> bool" where
  "op_accepted accepts (Op_Allocate sz al) = accepts sz al"
| "op_accepted accepts (Op_Deallocate i) = True"
| "op_accepted accepts (Op_Store i k v) = True"

text \<open>
  The client's view holds: its blocks lie in the arena, are aligned as asked for, do not overlap, and every byte the
  client wrote is still there.
\<close>

definition client_view :: "nat \<Rightarrow> nat \<Rightarrow> (addr \<Rightarrow> 's \<Rightarrow> u8) \<Rightarrow> client_block list \<times> 's \<Rightarrow> bool" where
  "client_view base capacity load c \<longleftrightarrow>
     separated (map extent (fst c))
     \<and> (\<forall>(p, al, bytes)\<in>set (fst c).
          p \<noteq> nullptr \<and> unat al dvd unat p \<and> base \<le> unat p \<and> unat p + length bytes \<le> base + capacity
          \<and> (\<forall>k<length bytes. \<forall>v. bytes ! k = Some v \<longrightarrow> load (p + of_nat k) (snd c) = v))"

subsection \<open>What the provider promises\<close>

locale arena_allocator =
  fixes allocate :: "size_t \<Rightarrow> size_t \<Rightarrow> 's \<Rightarrow> (addr \<times> 's) option"
    and deallocate :: "addr \<Rightarrow> 's \<Rightarrow> 's option"
    and load :: "addr \<Rightarrow> 's \<Rightarrow> u8"
    and store :: "addr \<Rightarrow> u8 \<Rightarrow> 's \<Rightarrow> 's"
    and accepts :: "size_t \<Rightarrow> size_t \<Rightarrow> bool"
    and holds :: "block list \<Rightarrow> 's \<Rightarrow> bool"
    and base :: nat and capacity :: nat
  assumes arena_bound: "holds live s \<Longrightarrow> base + capacity \<le> 2 ^ 64"
    and load_store: "load x (store y v s) = (if x = y then v else load x s)"
    and allocate_returns: "holds live s \<Longrightarrow> accepts sz al \<Longrightarrow> \<exists>p s'. allocate sz al s = Some (p, s')"
    and allocate_null: "holds live s \<Longrightarrow> accepts sz al \<Longrightarrow> allocate sz al s = Some (nullptr, s') \<Longrightarrow> s' = s"
    and allocate_holds: "holds live s \<Longrightarrow> accepts sz al \<Longrightarrow> allocate sz al s = Some (p, s') \<Longrightarrow> p \<noteq> nullptr
      \<Longrightarrow> holds ((p, unat sz) # live) s' \<and> unat al dvd unat p"
    and allocate_keeps: "holds live s \<Longrightarrow> accepts sz al \<Longrightarrow> allocate sz al s = Some (p, s') \<Longrightarrow> b \<in> set live
      \<Longrightarrow> in_block x b \<Longrightarrow> load x s' = load x s"
    and deallocate_holds: "holds (xs @ (p, n) # ys) s \<Longrightarrow> \<exists>s'. deallocate p s = Some s' \<and> holds (xs @ ys) s'"
    and deallocate_keeps: "holds (xs @ (p, n) # ys) s \<Longrightarrow> deallocate p s = Some s' \<Longrightarrow> b \<in> set (xs @ ys)
      \<Longrightarrow> in_block x b \<Longrightarrow> load x s' = load x s"
    and store_holds: "holds live s \<Longrightarrow> b \<in> set live \<Longrightarrow> in_block x b \<Longrightarrow> holds live (store x v s)"
    and holds_blocks: "holds live s \<Longrightarrow> separated live"
      "holds live s \<Longrightarrow> (p, n) \<in> set live \<Longrightarrow> p \<noteq> nullptr \<and> base \<le> unat p \<and> unat p + n \<le> base + capacity"
begin

definition served :: "client_block list \<times> 's \<Rightarrow> bool" where
  "served c \<longleftrightarrow> holds (map extent (fst c)) (snd c)
     \<and> (\<forall>(p, al, bytes)\<in>set (fst c). unat al dvd unat p
          \<and> (\<forall>k<length bytes. \<forall>v. bytes ! k = Some v \<longrightarrow> load (p + of_nat k) (snd c) = v))"

lemma block_offset:
  assumes "holds live s" and "(p, n) \<in> set live" and "k < n"
  shows "unat (p + of_nat k) = unat p + k" and "in_block (p + of_nat k) (p, n)"
proof -
  have "unat p + k < 2 ^ 64" "k < 2 ^ 64" using holds_blocks(2)[OF assms(1,2)] arena_bound[OF assms(1)] assms(3) by auto
  then show "unat (p + of_nat k) = unat p + k" by (simp add: unat_add_nowrap unat_of_nat_small)
  then show "in_block (p + of_nat k) (p, n)" using assms(3) by (simp add: in_block_def)
qed

lemma served_keeps:
  assumes "served (bs, s)" and "holds (map extent bs') s'"
    and keep: "\<And>b x. b \<in> set bs' \<Longrightarrow> b \<in> set bs \<Longrightarrow> in_block x (extent b) \<Longrightarrow> load x s' = load x s"
    and "\<forall>(p, al, bytes)\<in>set bs' - set bs. unat al dvd unat p \<and> bytes = replicate (length bytes) None"
  shows "served (bs', s')"
  unfolding served_def
proof (safe; simp)
  show "holds (map extent bs') s'" by fact
  fix p al bytes assume b: "(p, al, bytes) \<in> set bs'"
  show "unat al dvd unat p"
    using b assms(1,4) by (cases "(p, al, bytes) \<in> set bs") (fastforce simp: served_def)+
  fix k v assume k: "k < length bytes" and v: "bytes ! k = Some v"
  show "load (p + word_of_nat k) s' = v"
  proof (cases "(p, al, bytes) \<in> set bs")
    case True
    have "in_block (p + of_nat k) (extent (p, al, bytes))"
      using block_offset(2)[OF assms(2), of p "length bytes" k] b k by (force simp: extent_def)
    with keep[OF b True] True v k assms(1) show ?thesis by (auto simp: served_def)
  next
    case False
    with b bspec[OF assms(4), of "(p, al, bytes)"] have "bytes = replicate (length bytes) None" by blast
    then have "bytes ! k = None" using k by (metis nth_replicate)
    with v show ?thesis by simp
  qed
qed

lemma served_allocate:
  assumes "served (bs, s)" and "accepts sz al"
  shows "\<exists>c. run_op allocate deallocate store (Op_Allocate sz al) (bs, s) = Some c \<and> served c"
proof -
  have h: "holds (map extent bs) s" using assms(1) by (simp add: served_def)
  obtain p s' where a: "allocate sz al s = Some (p, s')" using allocate_returns[OF h assms(2)] by blast
  show ?thesis
  proof (cases "p = nullptr")
    case True
    with allocate_null[OF h assms(2)] a assms(1) show ?thesis by auto
  next
    case False
    have hh: "holds ((p, unat sz) # map extent bs) s'" "unat al dvd unat p"
      using allocate_holds[OF h assms(2) a False] by auto
    have "served ((p, al, replicate (unat sz) None) # bs, s')"
    proof (rule served_keeps[OF assms(1)])
      show "holds (map extent ((p, al, replicate (unat sz) None) # bs)) s'" using hh by (simp add: extent_def)
      show "load x s' = load x s" if "b \<in> set bs" "in_block x (extent b)" for b x
        using allocate_keeps[OF h assms(2) a, of "extent b" x] that by simp
    qed (use hh in auto)
    with a False show ?thesis by simp
  qed
qed

lemma served_deallocate:
  assumes "served (bs, s)"
  shows "\<exists>c. run_op allocate deallocate store (Op_Deallocate i) (bs, s) = Some c \<and> served c"
proof (cases "i < length bs")
  case True
  let ?bs = "take i bs @ drop (Suc i) bs"
  obtain p n where pn: "extent (bs ! i) = (p, n)" "fst (bs ! i) = p" by (cases "bs ! i") (auto simp: extent_def)
  have bs: "bs = take i bs @ bs ! i # drop (Suc i) bs" using True by (rule id_take_nth_drop)
  have "map extent bs = map extent (take i bs) @ (p, n) # map extent (drop (Suc i) bs)"
    by (subst bs) (simp add: pn)
  then have h: "holds (map extent (take i bs) @ (p, n) # map extent (drop (Suc i) bs)) s"
    using assms by (simp add: served_def)
  obtain s' where d: "deallocate p s = Some s'" "holds (map extent ?bs) s'"
    using deallocate_holds[OF h] by auto
  have sub: "set ?bs \<subseteq> set bs" by (auto dest: in_set_takeD in_set_dropD)
  have "served (?bs, s')"
  proof (rule served_keeps[OF assms d(2)])
    show "load x s' = load x s" if "b \<in> set ?bs" "in_block x (extent b)" for b x
      using deallocate_keeps[OF h d(1), of "extent b" x] that by (auto simp flip: map_append)
  qed (use sub in auto)
  with d(1) True pn(2) show ?thesis by simp
qed (use assms in simp)

lemma served_store:
  assumes "served (bs, s)"
  shows "\<exists>c. run_op allocate deallocate store (Op_Store i k v) (bs, s) = Some c \<and> served c"
proof (cases "i < length bs \<and> k < length (snd (snd (bs ! i)))")
  case True
  obtain p al bytes where b: "bs ! i = (p, al, bytes)" by (cases "bs ! i")
  let ?bs = "bs[i := (p, al, bytes[k := Some v])]" and ?x = "p + of_nat k"
  have k: "k < length bytes" and i: "i < length bs" using True b by auto
  have h: "holds (map extent bs) s" using assms by (simp add: served_def)
  have mem: "(p, length bytes) \<in> set (map extent bs)"
    using i b by (auto simp: extent_def in_set_conv_nth intro!: image_eqI[of _ _ "bs ! i"])
  note off = block_offset[OF h]
  have ext: "map extent ?bs = map extent bs"
  proof (rule nth_equalityI)
    show "map extent ?bs ! j = map extent bs ! j" if "j < length (map extent ?bs)" for j
      using that b by (cases "j = i") (auto simp: extent_def)
  qed simp
  have "served (?bs, store ?x v s)"
    unfolding served_def
  proof (safe; simp add: ext)
    show "holds (map extent bs) (store ?x v s)" by (rule store_holds[OF h mem off(2)[OF mem k]])
    fix q aq cs assume "(q, aq, cs) \<in> set ?bs"
    then obtain j where j: "j < length bs" "?bs ! j = (q, aq, cs)" by (auto simp: in_set_conv_nth)
    show "unat aq dvd unat q"
      using assms j b i by (fastforce simp: served_def nth_list_update all_set_conv_all_nth split: if_splits)
    fix m w assume m: "m < length cs" and w: "cs ! m = Some w"
    show "load (q + word_of_nat m) (store ?x v s) = w"
    proof (cases "j = i")
      case True
      then have q: "q = p" "cs = bytes[k := Some v]" using j i by auto
      show ?thesis
      proof (cases "m = k")
        case False
        have "q + of_nat m \<noteq> ?x"
          using off(1)[OF mem k] off(1)[OF mem, of m] m q False by (auto dest: arg_cong[where f = unat])
        moreover have "load (p + of_nat m) s = w"
          using assms b i m w False q by (fastforce simp: served_def all_set_conv_all_nth)
        ultimately show ?thesis using q by (simp add: load_store)
      qed (use q w k in \<open>simp add: load_store\<close>)
    next
      case False
      then have qj: "bs ! j = (q, aq, cs)" using j by simp
      have memq: "(q, length cs) \<in> set (map extent bs)"
        using j(1) qj by (auto simp: extent_def in_set_conv_nth intro!: image_eqI[of _ _ "bs ! j"])
      have "apart (q, length cs) (p, length bytes)"
        using separated_nth[OF holds_blocks(1)[OF h], of j i] False j(1) i qj b by (simp add: extent_def)
      then have "q + of_nat m \<noteq> ?x"
        using apart_in_block[OF _ off(2)[OF memq m]] off(2)[OF mem k] by auto
      moreover have "load (q + of_nat m) s = w"
        using assms j(1) qj m w by (fastforce simp: served_def all_set_conv_all_nth)
      ultimately show ?thesis by (simp add: load_store)
    qed
  qed
  with True b show ?thesis by simp
qed (use assms in auto)

lemma served_op:
  assumes "served c" and "op_accepted accepts op"
  shows "\<exists>c'. run_op allocate deallocate store op c = Some c' \<and> served c'"
proof -
  obtain bs s where c: "c = (bs, s)" by (cases c)
  show ?thesis
    using assms served_allocate[of bs s] served_deallocate[of bs s] served_store[of bs s]
    unfolding c by (cases op) (simp_all del: run_op.simps)
qed

lemma served_view: "served c \<Longrightarrow> client_view base capacity load c"
  unfolding served_def client_view_def
  using holds_blocks by (fastforce simp: extent_def)

lemma run_served:
  assumes "served c" and "\<forall>op\<in>set ops. op_accepted accepts op"
  shows "\<exists>c'. run_ops allocate deallocate store ops c = Some c' \<and> served c'"
  using assms
proof (induction ops arbitrary: c)
  case (Cons op ops)
  then obtain c1 where "run_op allocate deallocate store op c = Some c1" "served c1"
    using served_op[of c op] by auto
  with Cons show ?case by auto
qed simp

text \<open>Whatever a client does, it gets an answer, and its blocks behave like separate arrays.\<close>

lemma client_safe:
  assumes "holds [] s" and "\<forall>op\<in>set ops. op_accepted accepts op"
  shows "\<exists>c. run_ops allocate deallocate store ops ([], s) = Some c \<and> client_view base capacity load c"
  using run_served[of "([], s)" ops] assms served_view by (auto simp: served_def)

end

end
