(* ===== verification/Memory_Tracking.thy ===== *)
theory Memory_Tracking
  imports Prelude
begin

section \<open>Memory statistics\<close>

text \<open>
  Models \<^verbatim>\<open>private/memory/tracking.cpp\<close> (per category statistics), \<^verbatim>\<open>private/memory/category_context.cpp\<close>
  (the thread's current category and its scoped guard), \<^verbatim>\<open>private/memory/allocation_hooks.cpp\<close> and the
  counters every allocator inherits from \<^verbatim>\<open>public/tge/memory/tracked_allocator.hpp\<close>.  Each operation of
  \<open>tracking.cpp\<close> holds \<open>gTrackingMutex\<close> for its whole body, so concurrent calls are sequences of the
  operations here.  The arrays have \<open>MaxCategories\<close> cells; an operation whose category lies outside
  (undefined behaviour in the source) or that would fail the assertion of \<open>RegisterCategory\<close> has no
  result (\<open>None\<close>).
\<close>

subsection \<open>Categories\<close>

type_synonym CategoryId = u16

definition Category_Global :: CategoryId where
  "Category_Global = 0"

definition Category_Other :: CategoryId where
  "Category_Other = 1"

definition BuiltInCount :: size_t where
  "BuiltInCount = 2"

definition MaxCategories :: size_t where
  "MaxCategories = 256"

record SStats =
  allocated :: size_t
  deallocated :: size_t
  peakUsage :: size_t
  allocationCount :: u32
  deallocationCount :: u32

definition no_stats :: SStats where
  "no_stats = \<lparr>allocated = 0, deallocated = 0, peakUsage = 0, allocationCount = 0, deallocationCount = 0\<rparr>"

definition Stats_GetCurrentUsage :: "SStats \<Rightarrow> size_t" where
  "Stats_GetCurrentUsage st = allocated st - deallocated st"

record tracking =
  gCategoryStats :: "SStats list"
  gCategoryNames :: "string list"
  gNumCategories :: size_t

definition initial_tracking :: tracking where
  "initial_tracking = \<lparr>gCategoryStats = replicate 256 no_stats,
     gCategoryNames = (replicate 256 [])[unat Category_Global := ''Global'', unat Category_Other := ''Other''],
     gNumCategories = BuiltInCount\<rparr>"

definition RegisterCategory :: "string \<Rightarrow> tracking \<Rightarrow> (CategoryId \<times> tracking) option" where
  "RegisterCategory name t =
     (if gNumCategories t < MaxCategories
      then Some (ucast (gNumCategories t),
                 t\<lparr>gCategoryNames := (gCategoryNames t)[unat (gNumCategories t) := name],
                   gNumCategories := gNumCategories t + 1\<rparr>)
      else None)"

definition GetNumCategories :: "tracking \<Rightarrow> size_t" where
  "GetNumCategories t = gNumCategories t"

definition TrackAllocation :: "CategoryId \<Rightarrow> size_t \<Rightarrow> tracking \<Rightarrow> tracking option" where
  "TrackAllocation category bytes t =
     (if unat category < length (gCategoryStats t)
      then (let st = gCategoryStats t ! unat category;
                st1 = st\<lparr>allocated := allocated st + bytes, allocationCount := allocationCount st + 1\<rparr>;
                currentUsage = Stats_GetCurrentUsage st1;
                st2 = (if currentUsage > peakUsage st1 then st1\<lparr>peakUsage := currentUsage\<rparr> else st1)
            in Some (t\<lparr>gCategoryStats := (gCategoryStats t)[unat category := st2]\<rparr>))
      else None)"

definition TrackDeallocation :: "CategoryId \<Rightarrow> size_t \<Rightarrow> tracking \<Rightarrow> tracking option" where
  "TrackDeallocation category bytes t =
     (if unat category < length (gCategoryStats t)
      then (let st = gCategoryStats t ! unat category;
                st1 = st\<lparr>deallocated := deallocated st + bytes, deallocationCount := deallocationCount st + 1\<rparr>
            in Some (t\<lparr>gCategoryStats := (gCategoryStats t)[unat category := st1]\<rparr>))
      else None)"

definition GetStats :: "CategoryId \<Rightarrow> tracking \<Rightarrow> SStats option" where
  "GetStats category t =
     (if unat category < length (gCategoryStats t) then Some (gCategoryStats t ! unat category) else None)"

fun total_from :: "(SStats \<Rightarrow> size_t) \<Rightarrow> SStats list \<Rightarrow> size_t \<Rightarrow> size_t" where
  "total_from f [] acc = acc"
| "total_from f (st # sts) acc = total_from f sts (acc + f st)"

definition Tracking_GetTotalAllocated :: "tracking \<Rightarrow> size_t" where
  "Tracking_GetTotalAllocated t = total_from allocated (take (unat (gNumCategories t)) (gCategoryStats t)) 0"

definition Tracking_GetTotalDeallocated :: "tracking \<Rightarrow> size_t" where
  "Tracking_GetTotalDeallocated t = total_from deallocated (take (unat (gNumCategories t)) (gCategoryStats t)) 0"

definition Tracking_GetCurrentUsage :: "tracking \<Rightarrow> size_t" where
  "Tracking_GetCurrentUsage t =
     total_from Stats_GetCurrentUsage (take (unat (gNumCategories t)) (gCategoryStats t)) 0"

definition Tracking_GetNumAllocations :: "tracking \<Rightarrow> size_t" where
  "Tracking_GetNumAllocations t =
     total_from (\<lambda>st. ucast (allocationCount st)) (take (unat (gNumCategories t)) (gCategoryStats t)) 0"

definition GetCategoryName :: "CategoryId \<Rightarrow> tracking \<Rightarrow> string option" where
  "GetCategoryName category t =
     (if unat category < length (gCategoryNames t) then Some (gCategoryNames t ! unat category) else None)"

definition Tracking_Reset :: "tracking \<Rightarrow> tracking" where
  "Tracking_Reset t = t\<lparr>gCategoryStats := replicate 256 no_stats\<rparr>"

subsection \<open>The current category of a thread\<close>

definition GetCurrentCategory :: "CategoryId \<Rightarrow> CategoryId" where
  "GetCurrentCategory gCurrentCategory = gCurrentCategory"

definition SetCurrentCategory :: "CategoryId \<Rightarrow> CategoryId \<Rightarrow> CategoryId" where
  "SetCurrentCategory category gCurrentCategory = category"

text \<open>\<open>CScopedCategory\<close>: the constructor yields the guard (the saved category) and the new state.\<close>

definition ScopedCategory_enter :: "CategoryId \<Rightarrow> CategoryId \<Rightarrow> CategoryId \<times> CategoryId" where
  "ScopedCategory_enter category gCurrentCategory = (gCurrentCategory, category)"

definition ScopedCategory_leave :: "CategoryId \<Rightarrow> CategoryId \<Rightarrow> CategoryId" where
  "ScopedCategory_leave m_previousCategory gCurrentCategory = m_previousCategory"

subsection \<open>Allocation hooks\<close>

text \<open>The calls made to a hook are the list of arguments it received.\<close>

record 'h hooks =
  gOnAllocation :: "'h option"
  gOnDeallocation :: "'h option"

definition SetAllocationHooks :: "'h option \<Rightarrow> 'h option \<Rightarrow> 'h hooks" where
  "SetAllocationHooks onAlloc onFree = \<lparr>gOnAllocation = onAlloc, gOnDeallocation = onFree\<rparr>"

datatype 'h hook_call = AllocationHook 'h addr size_t | DeallocationHook 'h addr

definition NotifyAllocation :: "'h hooks \<Rightarrow> addr \<Rightarrow> size_t \<Rightarrow> 'h hook_call list" where
  "NotifyAllocation hk ptr sz =
     (case gOnAllocation hk of
        Some h \<Rightarrow> if ptr \<noteq> 0 then [AllocationHook h ptr sz] else []
      | None \<Rightarrow> [])"

definition NotifyDeallocation :: "'h hooks \<Rightarrow> addr \<Rightarrow> 'h hook_call list" where
  "NotifyDeallocation hk ptr =
     (case gOnDeallocation hk of
        Some h \<Rightarrow> if ptr \<noteq> 0 then [DeallocationHook h ptr] else []
      | None \<Rightarrow> [])"

subsection \<open>The counters of an allocator\<close>

record CTrackedAllocator =
  m_totalAllocated :: size_t
  m_currentUsage :: size_t
  m_numAllocations :: size_t
  m_numDeallocations :: size_t

definition RecordAlloc :: "size_t \<Rightarrow> 'a CTrackedAllocator_scheme \<Rightarrow> 'a CTrackedAllocator_scheme" where
  "RecordAlloc bytes a =
     a\<lparr>m_totalAllocated := m_totalAllocated a + bytes, m_currentUsage := m_currentUsage a + bytes,
       m_numAllocations := m_numAllocations a + 1\<rparr>"

definition RecordDealloc :: "size_t \<Rightarrow> 'a CTrackedAllocator_scheme \<Rightarrow> 'a CTrackedAllocator_scheme" where
  "RecordDealloc bytes a =
     a\<lparr>m_currentUsage := m_currentUsage a - bytes, m_numDeallocations := m_numDeallocations a + 1\<rparr>"

lemma record_fields [simp]:
  "m_totalAllocated (RecordAlloc b a) = m_totalAllocated a + b"
  "m_currentUsage (RecordAlloc b a) = m_currentUsage a + b"
  "m_numAllocations (RecordAlloc b a) = m_numAllocations a + 1"
  "m_numDeallocations (RecordAlloc b a) = m_numDeallocations a"
  "CTrackedAllocator.more (RecordAlloc b a) = CTrackedAllocator.more a"
  "m_totalAllocated (RecordDealloc b a) = m_totalAllocated a"
  "m_currentUsage (RecordDealloc b a) = m_currentUsage a - b"
  "m_numAllocations (RecordDealloc b a) = m_numAllocations a"
  "m_numDeallocations (RecordDealloc b a) = m_numDeallocations a + 1"
  "CTrackedAllocator.more (RecordDealloc b a) = CTrackedAllocator.more a"
  by (simp_all add: RecordAlloc_def RecordDealloc_def)

subsection \<open>What the statistics mean\<close>

text \<open>A history of tracked events, and what each category should show after it.\<close>

datatype track_event = Track_Alloc CategoryId size_t | Track_Dealloc CategoryId size_t

fun track :: "track_event \<Rightarrow> tracking \<Rightarrow> tracking option" where
  "track (Track_Alloc c b) t = TrackAllocation c b t"
| "track (Track_Dealloc c b) t = TrackDeallocation c b t"

fun track_all :: "track_event list \<Rightarrow> tracking \<Rightarrow> tracking option" where
  "track_all [] t = Some t"
| "track_all (e # es) t = Option.bind (track e t) (track_all es)"

fun alloc_bytes :: "CategoryId \<Rightarrow> track_event list \<Rightarrow> nat" where
  "alloc_bytes c [] = 0"
| "alloc_bytes c (Track_Alloc k b # es) = (if k = c then unat b else 0) + alloc_bytes c es"
| "alloc_bytes c (Track_Dealloc k b # es) = alloc_bytes c es"

fun free_bytes :: "CategoryId \<Rightarrow> track_event list \<Rightarrow> nat" where
  "free_bytes c [] = 0"
| "free_bytes c (Track_Alloc k b # es) = free_bytes c es"
| "free_bytes c (Track_Dealloc k b # es) = (if k = c then unat b else 0) + free_bytes c es"

definition used_bytes :: "CategoryId \<Rightarrow> track_event list \<Rightarrow> nat" where
  "used_bytes c es = alloc_bytes c es - free_bytes c es"

definition peak_bytes :: "CategoryId \<Rightarrow> track_event list \<Rightarrow> nat" where
  "peak_bytes c es = Max (set (map (\<lambda>n. used_bytes c (take n es)) [0..<Suc (length es)]))"

definition balanced :: "CategoryId \<Rightarrow> track_event list \<Rightarrow> bool" where
  "balanced c es \<longleftrightarrow> (\<forall>n\<le>length es. free_bytes c (take n es) \<le> alloc_bytes c (take n es))"

lemma alloc_bytes_append [simp]: "alloc_bytes c (es @ fs) = alloc_bytes c es + alloc_bytes c fs"
  by (induction c es rule: alloc_bytes.induct) auto

lemma free_bytes_append [simp]: "free_bytes c (es @ fs) = free_bytes c es + free_bytes c fs"
  by (induction c es rule: free_bytes.induct) auto

lemma track_all_snoc: "track_all (es @ [e]) t = Option.bind (track_all es t) (track e)"
  by (induction es arbitrary: t) (auto split: Option.bind_split)

lemma balanced_snoc: "balanced c (es @ [e]) \<longleftrightarrow> balanced c es \<and> free_bytes c (es @ [e]) \<le> alloc_bytes c (es @ [e])"
  unfolding balanced_def by (auto simp: le_Suc_eq)

lemma peak_snoc: "peak_bytes c (es @ [e]) = max (peak_bytes c es) (used_bytes c (es @ [e]))"
proof -
  have "set (map (\<lambda>n. used_bytes c (take n (es @ [e]))) [0..<Suc (length (es @ [e]))])
      = insert (used_bytes c (es @ [e])) (set (map (\<lambda>n. used_bytes c (take n es)) [0..<Suc (length es)]))"
    by (auto simp: less_Suc_eq image_iff)
  then show ?thesis by (simp add: peak_bytes_def max.commute)
qed

lemma peak_ge: "used_bytes c es \<le> peak_bytes c es"
  unfolding peak_bytes_def by (rule Max_ge) (auto simp: image_iff intro!: bexI[of _ "length es"])

text \<open>What category \<open>c\<close> shows after the history \<open>es\<close>.\<close>

definition accounts :: "CategoryId \<Rightarrow> track_event list \<Rightarrow> SStats \<Rightarrow> bool" where
  "accounts c es st \<longleftrightarrow> unat (allocated st) = alloc_bytes c es \<and> unat (deallocated st) = free_bytes c es
     \<and> unat (Stats_GetCurrentUsage st) = used_bytes c es \<and> unat (peakUsage st) = peak_bytes c es"

lemma track_stats:
  assumes "track e t = Some t'" and "unat c < length (gCategoryStats t)"
  shows "length (gCategoryStats t') = length (gCategoryStats t)"
    and "gCategoryStats t' ! unat c =
      (let st = gCategoryStats t ! unat c in
       case e of
         Track_Alloc k b \<Rightarrow>
           if k = c
           then st\<lparr>allocated := allocated st + b, allocationCount := allocationCount st + 1,
                   peakUsage := max (peakUsage st) (allocated st + b - deallocated st)\<rparr>
           else st
       | Track_Dealloc k b \<Rightarrow>
           if k = c then st\<lparr>deallocated := deallocated st + b, deallocationCount := deallocationCount st + 1\<rparr>
           else st)"
  using assms
  by (cases e;
      auto simp: TrackAllocation_def TrackDeallocation_def Let_def nth_list_update Stats_GetCurrentUsage_def
      max_def not_le word_unat_eq_iff split: if_splits)+

lemma TrackAllocation_length:
  "TrackAllocation c b t = Some t' \<Longrightarrow> length (gCategoryStats t') = length (gCategoryStats t)"
  by (auto simp: TrackAllocation_def Let_def split: if_splits)

lemma unat_max_word: "unat (max a b :: 'w::len word) = max (unat a) (unat b)"
  by (auto simp: max_def word_le_nat_alt)

lemma accounts_usage:
  assumes "unat (allocated st) = a" and "unat (deallocated st) = d" and "d \<le> a"
  shows "unat (Stats_GetCurrentUsage st) = a - d"
  using assms by (simp add: Stats_GetCurrentUsage_def unat_diff_nowrap)

lemma accounts_track:
  assumes tr: "track e t = Some t'" and c: "unat c < length (gCategoryStats t)"
    and acc: "accounts c es (gCategoryStats t ! unat c)"
    and bal: "balanced c (es @ [e])" and fits: "alloc_bytes c (es @ [e]) < 2 ^ 64"
  shows "accounts c (es @ [e]) (gCategoryStats t' ! unat c)"
proof -
  let ?st = "gCategoryStats t ! unat c" and ?st' = "gCategoryStats t' ! unat c"
  have le: "free_bytes c (es @ [e]) \<le> alloc_bytes c (es @ [e])" and le0: "free_bytes c es \<le> alloc_bytes c es"
    using bal by (auto simp: balanced_snoc balanced_def dest: spec[where x = "length es"])
  have al: "unat (allocated ?st') = alloc_bytes c (es @ [e])"
    using track_stats(2)[OF tr c] acc fits
    by (cases e) (auto simp: accounts_def Let_def unat_add_nowrap)
  have de: "unat (deallocated ?st') = free_bytes c (es @ [e])"
    using track_stats(2)[OF tr c] acc fits le
    by (cases e) (auto simp: accounts_def Let_def unat_add_nowrap)
  note us = accounts_usage[OF al de le]
  have "unat (peakUsage ?st') = max (peak_bytes c es) (used_bytes c (es @ [e]))"
  proof (cases e)
    case (Track_Alloc k b)
    show ?thesis
    proof (cases "k = c")
      case True
      have "peakUsage ?st' = max (peakUsage ?st) (Stats_GetCurrentUsage ?st')"
        using track_stats(2)[OF tr c] Track_Alloc True by (simp add: Let_def Stats_GetCurrentUsage_def)
      with us acc show ?thesis by (simp add: unat_max_word accounts_def used_bytes_def)
    next
      case False
      with track_stats(2)[OF tr c] Track_Alloc acc peak_ge[of c es] show ?thesis
        by (simp add: Let_def accounts_def used_bytes_def max_def)
    qed
  next
    case (Track_Dealloc k b)
    then have "used_bytes c (es @ [e]) \<le> peak_bytes c es"
      using peak_ge[of c es] by (auto simp: used_bytes_def)
    with track_stats(2)[OF tr c] Track_Dealloc acc show ?thesis by (simp add: Let_def accounts_def max_def)
  qed
  with al de us show ?thesis by (simp add: accounts_def used_bytes_def peak_snoc)
qed

fun event_category :: "track_event \<Rightarrow> CategoryId" where
  "event_category (Track_Alloc c b) = c"
| "event_category (Track_Dealloc c b) = c"

lemma track_defined:
  "unat (event_category e) < length (gCategoryStats t) \<Longrightarrow> \<exists>t'. track e t = Some t'"
  by (cases e) (auto simp: TrackAllocation_def TrackDeallocation_def Let_def)

lemma initial_accounts: "unat c < 256 \<Longrightarrow> accounts c [] (gCategoryStats initial_tracking ! unat c)"
  by (simp add: accounts_def initial_tracking_def no_stats_def Stats_GetCurrentUsage_def used_bytes_def peak_bytes_def)

lemma track_all_accounts:
  assumes "\<forall>e\<in>set es. unat (event_category e) < 256" and "unat c < 256"
    and "balanced c es" and "alloc_bytes c es < 2 ^ 64"
  shows "\<exists>t. track_all es initial_tracking = Some t \<and> length (gCategoryStats t) = 256
    \<and> accounts c es (gCategoryStats t ! unat c)"
  using assms
proof (induction es rule: rev_induct)
  case Nil
  then show ?case using initial_accounts[of c] by (simp add: initial_tracking_def)
next
  case (snoc e es)
  then obtain t where t: "track_all es initial_tracking = Some t" "length (gCategoryStats t) = 256"
      "accounts c es (gCategoryStats t ! unat c)"
    by (auto simp: balanced_snoc)
  moreover obtain t' where t': "track e t = Some t'"
    using track_defined[of e t] snoc.prems(1) t(2) by auto
  moreover have "accounts c (es @ [e]) (gCategoryStats t' ! unat c)"
    using accounts_track[OF t' _ t(3) snoc.prems(3,4)] t(2) snoc.prems(2) by simp
  ultimately show ?case using track_stats(1)[OF t', of c] snoc.prems(2) by (simp add: track_all_snoc)
qed

lemma total_from_sum: "total_from f sts acc = acc + sum_list (map f sts)"
  by (induction sts arbitrary: acc) (simp_all add: algebra_simps)

lemma current_usage_difference:
  "Tracking_GetCurrentUsage t = Tracking_GetTotalAllocated t - Tracking_GetTotalDeallocated t"
proof -
  have "sum_list (map Stats_GetCurrentUsage sts) = sum_list (map allocated sts) - sum_list (map deallocated sts)"
    for sts by (induction sts) (simp_all add: Stats_GetCurrentUsage_def)
  then show ?thesis
    by (simp add: Tracking_GetCurrentUsage_def Tracking_GetTotalAllocated_def Tracking_GetTotalDeallocated_def
        total_from_sum)
qed

text \<open>
  Statistics: after any history of tracked allocations and deallocations in which a category never
  frees more than it allocated and allocates less than \<open>2 ^ 64\<close> bytes in all, the statistics of that category
  are exact: the bytes allocated and freed, their difference as the current usage, and as the peak the
  largest usage at any moment of the history.  The totals over all categories are consistent.
\<close>

theorem statistics_exact:
  assumes "\<forall>e\<in>set es. unat (event_category e) < 256" and "unat c < 256"
    and "balanced c es" and "alloc_bytes c es < 2 ^ 64"
  shows "\<exists>t st. track_all es initial_tracking = Some t \<and> GetStats c t = Some st \<and> accounts c es st
    \<and> Tracking_GetCurrentUsage t = Tracking_GetTotalAllocated t - Tracking_GetTotalDeallocated t"
  using track_all_accounts[OF assms] assms(2) by (auto simp: GetStats_def current_usage_difference)

theorem statistics_exact_witness:
  "\<exists>t st. track_all [Track_Alloc 1 64, Track_Alloc 0 8, Track_Alloc 1 32, Track_Dealloc 1 64] initial_tracking = Some t
     \<and> GetStats 1 t = Some st \<and> unat (peakUsage st) = 96 \<and> unat (Stats_GetCurrentUsage st) = 32"
proof -
  let ?es = "[Track_Alloc 1 64, Track_Alloc 0 8, Track_Alloc 1 32, Track_Dealloc 1 64]"
  have es: "?es = ((([] @ [Track_Alloc 1 64]) @ [Track_Alloc 0 8]) @ [Track_Alloc 1 32]) @ [Track_Dealloc 1 64]"
    by simp
  have "balanced 1 ?es" unfolding es balanced_snoc by (simp add: balanced_def)
  moreover have "peak_bytes 1 ?es = 96" unfolding es peak_snoc by (simp add: peak_bytes_def used_bytes_def)
  moreover have "used_bytes 1 ?es = 32" by (simp add: used_bytes_def)
  ultimately show ?thesis using statistics_exact[of ?es 1] by (auto simp: accounts_def)
qed

text \<open>
  \<open>Reset\<close> clears the statistics while blocks are still out: freeing one of them afterwards wraps the usage
  of its category around, and the next allocation records that as the peak.
\<close>

lemma reset_with_live_blocks_wraps:
  "\<exists>t st. track_all [Track_Dealloc 1 8, Track_Alloc 1 4] (Tracking_Reset initial_tracking) = Some t
     \<and> GetStats 1 t = Some st \<and> Stats_GetCurrentUsage st = - 4 \<and> peakUsage st = - 4"
  by (simp add: TrackDeallocation_def TrackAllocation_def Tracking_Reset_def initial_tracking_def GetStats_def
      no_stats_def Stats_GetCurrentUsage_def Let_def word_greater_zero_iff)

end
