(* ===== verification/Linear_Allocator.thy ===== *)
theory Linear_Allocator
  imports Allocator_Interface Memory_Tracking
begin

section \<open>The linear allocator\<close>

text \<open>
  Models \<^verbatim>\<open>private/memory/linear_allocator.cpp\<close>: a bump allocator over one buffer, with the memory tracking of
  category \<open>Other\<close> compiled in.  The buffer comes from \<open>std::malloc\<close>, whose result is an argument of the
  constructor.  \<open>tracker\<close> is the global statistics table the operations update; \<open>lin_mem\<close> is the memory
  the client reads and writes.
\<close>

record CLinearAllocator = CTrackedAllocator +
  lin_buffer :: addr
  lin_capacity :: size_t
  lin_offset :: size_t
  lin_mem :: memory
  lin_tracker :: tracking

definition CLinearAllocator_ctor :: "size_t \<Rightarrow> addr \<Rightarrow> memory \<Rightarrow> tracking \<Rightarrow> CLinearAllocator" where
  "CLinearAllocator_ctor capacity malloced mem tr =
     \<lparr>m_totalAllocated = 0, m_currentUsage = 0, m_numAllocations = 0, m_numDeallocations = 0,
      lin_buffer = (if capacity > 0 then malloced else nullptr), lin_capacity = capacity, lin_offset = 0,
      lin_mem = mem, lin_tracker = tr\<rparr>"

definition CLinearAllocator_dtor :: "CLinearAllocator \<Rightarrow> addr option \<times> CLinearAllocator" where
  "CLinearAllocator_dtor a =
     (if lin_buffer a \<noteq> nullptr then (Some (lin_buffer a), a\<lparr>lin_buffer := nullptr\<rparr>) else (None, a))"

definition Linear_Allocate :: "size_t \<Rightarrow> size_t \<Rightarrow> CLinearAllocator \<Rightarrow> (addr \<times> CLinearAllocator) option" where
  "Linear_Allocate sz alignment a =
     (if sz > 0 \<and> lin_buffer a \<noteq> nullptr
      then (let currentAddr = lin_buffer a + lin_offset a;
                alignedAddr = align_up currentAddr alignment;
                padding = alignedAddr - currentAddr;
                totalSize = padding + sz
            in if lin_offset a + totalSize \<le> lin_capacity a
               then (let a1 = RecordAlloc sz (a\<lparr>lin_offset := lin_offset a + totalSize\<rparr>)
                     in map_option (\<lambda>tr. (alignedAddr, a1\<lparr>lin_tracker := tr\<rparr>))
                          (TrackAllocation Category_Other sz (lin_tracker a1)))
               else Some (nullptr, a))
      else Some (nullptr, a))"

definition Linear_Deallocate :: "addr \<Rightarrow> CLinearAllocator \<Rightarrow> CLinearAllocator option" where
  "Linear_Deallocate ptr a = Some a"

definition Linear_Reset :: "CLinearAllocator \<Rightarrow> CLinearAllocator option" where
  "Linear_Reset a =
     map_option (\<lambda>tr. a\<lparr>lin_tracker := tr, lin_offset := 0, m_currentUsage := 0\<rparr>)
       (if m_currentUsage a > 0 then TrackDeallocation Category_Other (m_currentUsage a) (lin_tracker a)
        else Some (lin_tracker a))"

definition linear_load :: "addr \<Rightarrow> CLinearAllocator \<Rightarrow> u8" where
  "linear_load x a = lin_mem a x"

definition linear_store :: "addr \<Rightarrow> u8 \<Rightarrow> CLinearAllocator \<Rightarrow> CLinearAllocator" where
  "linear_store x v a = a\<lparr>lin_mem := (lin_mem a)(x := v)\<rparr>"

subsection \<open>The invariant\<close>

definition linear_holds :: "addr \<Rightarrow> size_t \<Rightarrow> block list \<Rightarrow> CLinearAllocator \<Rightarrow> bool" where
  "linear_holds buf cap live a \<longleftrightarrow>
     lin_buffer a = buf \<and> lin_capacity a = cap \<and> buf \<noteq> nullptr \<and> unat buf + unat cap \<le> 2 ^ 63
     \<and> unat (lin_offset a) \<le> unat cap \<and> length (gCategoryStats (lin_tracker a)) = 256
     \<and> separated live
     \<and> (\<forall>(p, n)\<in>set live. p \<noteq> nullptr \<and> unat buf \<le> unat p \<and> unat p + n \<le> unat buf + unat (lin_offset a))"

lemma other_tracked:
  assumes "length (gCategoryStats t) = 256"
  obtains t' where "TrackAllocation Category_Other b t = Some t'" and "length (gCategoryStats t') = 256"
  using assms that by (auto simp: TrackAllocation_def Category_Other_def Let_def)

text \<open>The two outcomes of an allocation, in terms of natural numbers.\<close>

lemma linear_allocate_cases:
  assumes h: "linear_holds buf cap live a" and r: "sane_request sz al"
  obtains (null) "Linear_Allocate sz al a = Some (nullptr, a)"
      "sz = 0 \<or> unat (align_up (buf + lin_offset a) al) + unat sz > unat buf + unat cap"
  | (block) p a' where "Linear_Allocate sz al a = Some (p, a')" "sz \<noteq> 0"
      "p = align_up (buf + lin_offset a) al" "unat al dvd unat p" "unat buf + unat (lin_offset a) \<le> unat p"
      "unat p + unat sz = unat buf + unat (lin_offset a')" "unat (lin_offset a') \<le> unat cap"
      "unat (lin_offset a) \<le> unat (lin_offset a')"
      "lin_buffer a' = buf" "lin_capacity a' = cap" "lin_mem a' = lin_mem a"
      "length (gCategoryStats (lin_tracker a')) = 256"
proof -
  let ?cur = "buf + lin_offset a"
  let ?p = "align_up ?cur al"
  have fld: "lin_buffer a = buf" "lin_capacity a = cap" "buf \<noteq> nullptr" using h by (auto simp: linear_holds_def)
  have cur: "unat ?cur = unat buf + unat (lin_offset a)" "unat ?cur \<le> 2 ^ 63"
    using h by (auto simp: linear_holds_def unat_add_nowrap)
  note al = sane_align[OF r cur(2)]
  have bnd: "unat al \<le> 2 ^ 61" "unat sz \<le> 2 ^ 61" using r by (auto simp: sane_request_def)
  have tot: "unat (?p - ?cur + sz) = unat ?p - unat ?cur + unat sz"
    using al(4) al(2) bnd by (simp add: unat_add_nowrap)
  have off: "unat (lin_offset a + (?p - ?cur + sz)) = unat ?p + unat sz - unat buf"
    using al(1,2) bnd cur h by (subst unat_add_nowrap) (auto simp: tot linear_holds_def)
  show ?thesis
  proof (cases "sz \<noteq> 0 \<and> lin_offset a + (?p - ?cur + sz) \<le> cap")
    case False
    then show ?thesis
      using fld off al(1) cur by (intro null) (auto simp: Linear_Allocate_def Let_def word_greater_zero_iff word_le_nat_alt)
  next
    case True
    let ?a = "RecordAlloc sz (a\<lparr>lin_offset := lin_offset a + (?p - ?cur + sz)\<rparr>)"
    have "length (gCategoryStats (lin_tracker ?a)) = 256" using h by (simp add: linear_holds_def RecordAlloc_def)
    then obtain tr where tr: "TrackAllocation Category_Other sz (lin_tracker ?a) = Some tr"
        "length (gCategoryStats tr) = 256" by (rule other_tracked)
    show ?thesis
    proof (rule block)
      show "Linear_Allocate sz al a = Some (?p, ?a\<lparr>lin_tracker := tr\<rparr>)"
        using True fld tr by (simp add: Linear_Allocate_def Let_def word_greater_zero_iff)
      show "unat ?p + unat sz = unat buf + unat (lin_offset (?a\<lparr>lin_tracker := tr\<rparr>))"
        "unat (lin_offset a) \<le> unat (lin_offset (?a\<lparr>lin_tracker := tr\<rparr>))"
        using off al(1) cur by (auto simp: RecordAlloc_def)
      show "unat (lin_offset (?a\<lparr>lin_tracker := tr\<rparr>)) \<le> unat cap"
        using True by (simp add: RecordAlloc_def word_le_nat_alt)
    qed (use True al cur fld tr in \<open>auto simp: RecordAlloc_def\<close>)
  qed
qed

lemma linear_store_fields [simp]:
  "linear_holds buf cap live (linear_store x v a) = linear_holds buf cap live a"
  by (simp add: linear_holds_def linear_store_def)

lemma linear_holds_allocate:
  assumes h: "linear_holds buf cap live a" and r: "sane_request sz al"
    and run: "Linear_Allocate sz al a = Some (p, a')" and p: "p \<noteq> nullptr"
  shows "linear_holds buf cap ((p, unat sz) # live) a' \<and> unat al dvd unat p \<and> lin_mem a' = lin_mem a"
  using h r
proof (cases rule: linear_allocate_cases)
  case (block q b)
  then have q: "q = p" "b = a'" using run by auto
  have "apart (p, unat sz) c" if "c \<in> set live" for c
    using h that block(5) q by (fastforce simp: linear_holds_def apart_def)
  moreover have "q \<noteq> nullptr \<and> unat buf \<le> unat q \<and> unat q + n \<le> unat buf + unat (lin_offset a')"
    if "(q, n) \<in> set live" for q n
    using h that block(8) q by (fastforce simp: linear_holds_def)
  ultimately show ?thesis using h block p q by (auto simp: linear_holds_def)
qed (use run p in simp)

interpretation linear: arena_allocator Linear_Allocate Linear_Deallocate linear_load linear_store sane_request
    "linear_holds buf cap" "unat buf" "unat cap" for buf :: addr and cap :: size_t
proof (unfold_locales, goal_cases)
  case (1 live s)
  then show ?case by (simp add: linear_holds_def)
next
  case (2 x y v s)
  then show ?case by (simp add: linear_load_def linear_store_def)
next
  case (3 live s sz al)
  then show ?case by (cases rule: linear_allocate_cases) auto
next
  case (4 live s sz al s')
  from 4(1,2) show ?case
  proof (cases rule: linear_allocate_cases)
    case (block p a')
    then have "p = nullptr" using 4(3) by simp
    then show ?thesis using block(5) 4(1) by (auto simp: linear_holds_def nullptr_def unat_eq_0)
  qed (use 4 in simp)
next
  case (5 live s sz al p s')
  then show ?case using linear_holds_allocate by blast
next
  case (6 live s sz al p s' b x)
  from 6(1,2) show ?case by (cases rule: linear_allocate_cases) (use 6(3) in \<open>auto simp: linear_load_def\<close>)
next
  case (7 xs p n ys s)
  then show ?case by (auto simp: Linear_Deallocate_def linear_holds_def dest: separated_remove)
next
  case (8 xs p n ys s s' b x)
  then show ?case by (simp add: Linear_Deallocate_def)
next
  case (9 live s b x v)
  then show ?case by simp
next
  case (10 live s)
  then show ?case by (simp add: linear_holds_def)
next
  case (11 live s p n)
  then show ?case by (fastforce simp: linear_holds_def)
qed

subsection \<open>Properties\<close>

lemma linear_ctor_holds:
  assumes "0 < cap" and "buf \<noteq> nullptr" and "unat buf + unat cap \<le> 2 ^ 63" and "length (gCategoryStats tr) = 256"
  shows "linear_holds buf cap [] (CLinearAllocator_ctor cap buf mem tr)"
  using assms by (simp add: linear_holds_def CLinearAllocator_ctor_def)

text \<open>
  The linear allocator serves any client: over a buffer that does not wrap around the address space, every
  sequence of allocations (of at most \<open>2 ^ 61\<close> bytes, at a power of two), deallocations and writes is carried out,
  and the blocks handed out are aligned as asked for, lie inside the buffer, never overlap, and keep what the
  client wrote.
\<close>

theorem linear_blocks_are_separate_arrays:
  assumes "0 < cap" and "buf \<noteq> nullptr" and "unat buf + unat cap \<le> 2 ^ 63" and "length (gCategoryStats tr) = 256"
    and "\<forall>op\<in>set ops. op_accepted sane_request op"
  shows "\<exists>c. run_ops Linear_Allocate Linear_Deallocate linear_store ops ([], CLinearAllocator_ctor cap buf mem tr) = Some c
    \<and> client_view (unat buf) (unat cap) linear_load c"
  using linear.client_safe[OF linear_ctor_holds[OF assms(1-4)] assms(5)] .

theorem linear_blocks_are_separate_arrays_witness:
  "\<exists>c. run_ops Linear_Allocate Linear_Deallocate linear_store
       [Op_Allocate 24 16, Op_Store 0 3 7, Op_Allocate 100 64] ([], CLinearAllocator_ctor 4096 65536 (\<lambda>_. 0) initial_tracking) = Some c
     \<and> client_view 65536 4096 linear_load c"
  using linear_blocks_are_separate_arrays[of 4096 65536 initial_tracking
      "[Op_Allocate 24 16, Op_Store 0 3 7, Op_Allocate 100 64]" "\<lambda>_. 0"]
  by (simp add: nullptr_def initial_tracking_def sane_request_def is_pow2_def upt_rec)

text \<open>
  It refuses no request that fits: a request of a positive size fails only if the aligned block would reach
  past the end of the buffer, and \<open>Reset\<close> makes the whole buffer available again.
\<close>

theorem linear_allocates_iff_fits:
  assumes "linear_holds buf cap live a" and "sane_request sz al"
  shows "((\<exists>p a'. Linear_Allocate sz al a = Some (p, a') \<and> p \<noteq> nullptr)
      \<longleftrightarrow> sz \<noteq> 0 \<and> unat (align_up (buf + lin_offset a) al) + unat sz \<le> unat buf + unat cap)
    \<and> (\<exists>a'. Linear_Reset a = Some a' \<and> linear_holds buf cap [] a' \<and> lin_offset a' = 0 \<and> m_currentUsage a' = 0)"
proof (rule conjI)
  show "(\<exists>p a'. Linear_Allocate sz al a = Some (p, a') \<and> p \<noteq> nullptr)
      \<longleftrightarrow> sz \<noteq> 0 \<and> unat (align_up (buf + lin_offset a) al) + unat sz \<le> unat buf + unat cap"
    using assms
  proof (cases rule: linear_allocate_cases)
    case (block p a')
    moreover have "p \<noteq> nullptr" using block(5) assms(1) by (auto simp: linear_holds_def nullptr_def unat_eq_0)
    ultimately show ?thesis using assms(1) by auto
  qed auto
  show "\<exists>a'. Linear_Reset a = Some a' \<and> linear_holds buf cap [] a' \<and> lin_offset a' = 0 \<and> m_currentUsage a' = 0"
    using assms(1)
    by (auto simp: Linear_Reset_def linear_holds_def TrackDeallocation_def Category_Other_def Let_def)
qed

theorem linear_allocates_iff_fits_witness:
  "\<exists>p a'. Linear_Allocate 100 64 (CLinearAllocator_ctor 4096 65536 (\<lambda>_. 0) initial_tracking) = Some (p, a') \<and> p \<noteq> nullptr"
proof -
  let ?a = "CLinearAllocator_ctor 4096 65536 (\<lambda>_. 0) initial_tracking"
  have h: "linear_holds 65536 4096 [] ?a"
    by (rule linear_ctor_holds) (simp_all add: nullptr_def initial_tracking_def)
  have r: "sane_request 100 64" by (simp add: sane_request_def is_pow2_def upt_rec)
  have "align_up (65536 + lin_offset ?a) 64 = 65536" by (simp add: align_up_def CLinearAllocator_ctor_def)
  then show ?thesis using linear_allocates_iff_fits[OF h r] by simp
qed

text \<open>
  The bound on the request size is needed: \<open>m_offset + totalSize\<close> is computed modulo \<open>2 ^ 64\<close>, so a request
  for almost all of the address space is granted, and moves the allocation point back over a block that was
  handed out before.
\<close>

theorem linear_size_wraps:
  "\<exists>p1 a1 p2 a2 p3 a3.
     Linear_Allocate 16 8 (CLinearAllocator_ctor 4096 65536 (\<lambda>_. 0) initial_tracking) = Some (p1, a1)
     \<and> Linear_Allocate (- 16) 8 a1 = Some (p2, a2) \<and> p2 \<noteq> nullptr
     \<and> Linear_Allocate 16 8 a2 = Some (p3, a3) \<and> p3 = p1 \<and> p1 \<noteq> nullptr"
  by (simp add: Linear_Allocate_def CLinearAllocator_ctor_def Let_def align_up_def nullptr_def RecordAlloc_def
      TrackAllocation_def initial_tracking_def Category_Other_def word_greater_zero_iff)

end
