(* ===== verification/Stack_Allocator.thy ===== *)
theory Stack_Allocator
  imports Allocator_Interface Memory_Tracking
begin

section \<open>The stack allocator\<close>

text \<open>
  Models \<^verbatim>\<open>private/memory/stack_allocator.cpp\<close>.  Below every block the allocator stores a header of two
  \<open>size_t\<close>, the size and the padding, in the memory it manages; the model reads and writes it there, byte by
  byte.  The buffer is the result of \<open>std::malloc\<close>, an argument of the constructor.
\<close>

record CStackAllocator = CTrackedAllocator +
  stk_buffer :: addr
  stk_capacity :: size_t
  stk_offset :: size_t
  stk_lastAllocation :: addr
  stk_mem :: memory

definition CStackAllocator_ctor :: "size_t \<Rightarrow> addr \<Rightarrow> memory \<Rightarrow> CStackAllocator" where
  "CStackAllocator_ctor capacity malloced mem =
     \<lparr>m_totalAllocated = 0, m_currentUsage = 0, m_numAllocations = 0, m_numDeallocations = 0,
      stk_buffer = (if capacity > 0 then malloced else nullptr), stk_capacity = capacity, stk_offset = 0,
      stk_lastAllocation = nullptr, stk_mem = mem\<rparr>"

definition CStackAllocator_dtor :: "CStackAllocator \<Rightarrow> addr option \<times> CStackAllocator" where
  "CStackAllocator_dtor a =
     (if stk_buffer a \<noteq> nullptr then (Some (stk_buffer a), a\<lparr>stk_buffer := nullptr\<rparr>) else (None, a))"

definition Stack_Allocate :: "size_t \<Rightarrow> size_t \<Rightarrow> CStackAllocator \<Rightarrow> addr \<times> CStackAllocator" where
  "Stack_Allocate sz alignment a =
     (if sz > 0 \<and> stk_buffer a \<noteq> nullptr
      then (let currentAddr = stk_buffer a + stk_offset a;
                dataAddr = currentAddr + headerSize;
                alignedAddr = align_up dataAddr alignment;
                padding = alignedAddr - dataAddr;
                totalSize = headerSize + padding + sz
            in if stk_offset a + totalSize \<le> stk_capacity a
               then (alignedAddr,
                     RecordAlloc sz
                       (a\<lparr>stk_mem := write_header (alignedAddr - headerSize) sz padding (stk_mem a),
                          stk_lastAllocation := alignedAddr, stk_offset := stk_offset a + totalSize\<rparr>))
               else (nullptr, a))
      else (nullptr, a))"

definition Stack_Deallocate :: "addr \<Rightarrow> CStackAllocator \<Rightarrow> CStackAllocator" where
  "Stack_Deallocate ptr a =
     (if ptr = stk_lastAllocation a \<and> ptr \<noteq> nullptr
      then (let header = ptr - headerSize;
                totalSize = headerSize + header_padding (stk_mem a) header + header_size (stk_mem a) header
            in (RecordDealloc (header_size (stk_mem a) header) (a\<lparr>stk_offset := stk_offset a - totalSize\<rparr>))
                 \<lparr>stk_lastAllocation := nullptr\<rparr>)
      else a)"

definition Stack_Reset :: "CStackAllocator \<Rightarrow> CStackAllocator" where
  "Stack_Reset a = a\<lparr>stk_offset := 0, stk_lastAllocation := nullptr, m_currentUsage := 0\<rparr>"

definition stack_load :: "addr \<Rightarrow> CStackAllocator \<Rightarrow> u8" where
  "stack_load x a = stk_mem a x"

definition stack_store :: "addr \<Rightarrow> u8 \<Rightarrow> CStackAllocator \<Rightarrow> CStackAllocator" where
  "stack_store x v a = a\<lparr>stk_mem := (stk_mem a)(x := v)\<rparr>"

subsection \<open>The invariant\<close>

text \<open>
  Live blocks lie below the offset.  If there is a last allocation, its header is intact, the block it describes
  ends at the offset, and every other live block ends below its header and padding.
\<close>

definition stack_holds :: "addr \<Rightarrow> size_t \<Rightarrow> block list \<Rightarrow> CStackAllocator \<Rightarrow> bool" where
  "stack_holds buf cap live a \<longleftrightarrow>
     stk_buffer a = buf \<and> stk_capacity a = cap \<and> buf \<noteq> nullptr \<and> unat buf + unat cap \<le> 2 ^ 63
     \<and> unat (stk_offset a) \<le> unat cap
     \<and> separated live
     \<and> (\<forall>(p, n)\<in>set live. 0 < n \<and> unat buf + 16 \<le> unat p \<and> unat p + n \<le> unat buf + unat (stk_offset a))
     \<and> (stk_lastAllocation a \<noteq> nullptr \<longrightarrow>
          (let l = stk_lastAllocation a; sz = unat (header_size (stk_mem a) (l - 16));
               pd = unat (header_padding (stk_mem a) (l - 16))
           in unat buf + 16 + pd \<le> unat l \<and> unat l + sz = unat buf + unat (stk_offset a)
              \<and> (\<forall>(p, n)\<in>set live. p = l \<and> n = sz \<or> unat p + n \<le> unat l - 16 - pd)))"

lemma stack_allocate_cases:
  assumes h: "stack_holds buf cap live a" and r: "sane_request sz al"
  obtains (null) "Stack_Allocate sz al a = (nullptr, a)"
      "sz = 0 \<or> unat (align_up (buf + stk_offset a + 16) al) + unat sz > unat buf + unat cap"
  | (block) p pd a' where "Stack_Allocate sz al a = (p, a')" "sz \<noteq> 0" "p = align_up (buf + stk_offset a + 16) al"
      "unat al dvd unat p" "unat p = unat buf + unat (stk_offset a) + 16 + unat pd"
      "unat p + unat sz = unat buf + unat (stk_offset a')" "unat (stk_offset a') \<le> unat cap"
      "stk_buffer a' = buf" "stk_capacity a' = cap" "stk_lastAllocation a' = p"
      "stk_mem a' = write_header (p - 16) sz pd (stk_mem a)" "m_currentUsage a' = m_currentUsage a + sz"
proof -
  let ?data = "buf + stk_offset a + 16"
  let ?p = "align_up ?data al"
  have fld: "stk_buffer a = buf" "stk_capacity a = cap" "buf \<noteq> nullptr" using h by (auto simp: stack_holds_def)
  have bnd: "unat al \<le> 2 ^ 61" "unat sz \<le> 2 ^ 61" "is_pow2 al" "unat (stk_offset a) \<le> unat cap" "unat buf + unat cap \<le> 2 ^ 63"
    using r h by (auto simp: sane_request_def stack_holds_def)
  have data: "unat ?data = unat buf + unat (stk_offset a) + 16"
    using bnd by (simp add: unat_add_nowrap)
  have nw: "unat ?data + unat al \<le> 2 ^ 64" using data bnd by simp
  note al = align_up_bounds[OF bnd(3) nw]
  have pd: "unat (?p - ?data) = unat ?p - unat ?data" using al(1) by (rule unat_diff_nowrap)
  have tot: "unat (16 + (?p - ?data) + sz) = 16 + (unat ?p - unat ?data) + unat sz"
    unfolding pd[symmetric] by (rule header_total) (use pd al(2) bnd in simp_all)
  have off: "unat (stk_offset a + (16 + (?p - ?data) + sz)) = unat ?p + unat sz - unat buf"
  proof -
    have "unat (stk_offset a) + unat (16 + (?p - ?data) + sz) = unat ?p + unat sz - unat buf"
      unfolding tot using al(1) data by linarith
    moreover have "unat ?p + unat sz - unat buf < 2 ^ 64" using al(2) bnd data by simp
    ultimately show ?thesis by (simp only: unat_add_nowrap64)
  qed
  show ?thesis
  proof (cases "sz \<noteq> 0 \<and> stk_offset a + (16 + (?p - ?data) + sz) \<le> cap")
    case False
    then show ?thesis
      using fld off al(1) data
      by (intro null) (auto simp: Stack_Allocate_def Let_def headerSize_def word_greater_zero_iff word_le_nat_alt)
  next
    case True
    let ?a = "RecordAlloc sz (a\<lparr>stk_mem := write_header (?p - 16) sz (?p - ?data) (stk_mem a),
                stk_lastAllocation := ?p, stk_offset := stk_offset a + (16 + (?p - ?data) + sz)\<rparr>)"
    show ?thesis
    proof (rule block)
      show "Stack_Allocate sz al a = (?p, ?a)"
        using True fld by (simp add: Stack_Allocate_def Let_def headerSize_def word_greater_zero_iff)
      show "unat ?p = unat buf + unat (stk_offset a) + 16 + unat (?p - ?data)" using pd al(1) data by simp
      show "unat ?p + unat sz = unat buf + unat (stk_offset ?a)" using off al(1) data by (simp add: RecordAlloc_def)
      show "unat (stk_offset ?a) \<le> unat cap" using True by (simp add: RecordAlloc_def word_le_nat_alt)
      show "stk_mem ?a = write_header (?p - 16) sz (?p - ?data) (stk_mem a)" by (simp add: RecordAlloc_def)
    qed (use True al fld in \<open>auto simp: RecordAlloc_def\<close>)
  qed
qed

lemma stack_p16:
  assumes "unat buf + 16 \<le> unat (p :: addr)"
  shows "unat (p - 16) = unat p - 16" and "unat (p - 16) + 16 = unat p"
proof -
  show "unat (p - 16) = unat p - 16" using assms by (subst unat_diff_nowrap) auto
  then show "unat (p - 16) + 16 = unat p" using assms by simp
qed

lemma stack_holds_allocate:
  assumes h: "stack_holds buf cap live a" and r: "sane_request sz al"
    and run: "Stack_Allocate sz al a = (p, a')" and p: "p \<noteq> nullptr"
  shows "stack_holds buf cap ((p, unat sz) # live) a'" and "unat al dvd unat p"
    and "b \<in> set live \<Longrightarrow> in_block x b \<Longrightarrow> stk_mem a' x = stk_mem a x"
proof -
  from h r obtain pd where block: "sz \<noteq> 0" "unat al dvd unat p"
      "unat p = unat buf + unat (stk_offset a) + 16 + unat pd"
      "unat p + unat sz = unat buf + unat (stk_offset a')" "unat (stk_offset a') \<le> unat cap"
      "stk_buffer a' = buf" "stk_capacity a' = cap" "stk_lastAllocation a' = p"
      "stk_mem a' = write_header (p - 16) sz pd (stk_mem a)"
    by (cases rule: stack_allocate_cases) (use run p in auto)
  have p16: "unat (p - 16) + 16 = unat p" using block(3) by (intro stack_p16(2)[of buf]) simp
  have nw: "unat (p - 16) + 16 \<le> 2 ^ 64" unfolding p16 using unat_lt_word[of p] by simp
  have live: "0 < n \<and> unat buf + 16 \<le> unat q \<and> unat q + n \<le> unat buf + unat (stk_offset a)" if "(q, n) \<in> set live" for q n
    using h that by (fastforce simp: stack_holds_def)
  have sz: "0 < unat sz" using block(1) by (simp add: unat_gt_0)
  have "apart (p, unat sz) c" if "c \<in> set live" for c
    using live[of "fst c" "snd c"] that block(3) by (simp add: apart_def)
  moreover have "0 < n \<and> unat buf + 16 \<le> unat q \<and> unat q + n \<le> unat buf + unat (stk_offset a')
      \<and> unat q + n \<le> unat p - 16 - unat pd" if "(q, n) \<in> set live" for q n
    using live[OF that] block(3,4) by simp
  ultimately show "stack_holds buf cap ((p, unat sz) # live) a'"
    using h block sz header_write_read[OF nw] by (auto simp: stack_holds_def Let_def)
  show "unat al dvd unat p" by (fact block)
  show "stk_mem a' x = stk_mem a x" if "b \<in> set live" "in_block x b"
    unfolding block(9)
    by (rule header_write_outside[OF nw]) (use that live[of "fst b" "snd b"] p16 block(3) in \<open>auto simp: in_block_def\<close>)
qed

lemma stack_holds_store:
  assumes h: "stack_holds buf cap live a" and b: "b \<in> set live" and x: "in_block x b"
  shows "stack_holds buf cap live (stack_store x v a)"
proof (cases "stk_lastAllocation a = nullptr")
  case True
  then show ?thesis using h by (simp add: stack_holds_def stack_store_def)
next
  case False
  let ?l = "stk_lastAllocation a"
  have l: "unat buf + 16 + unat (header_padding (stk_mem a) (?l - 16)) \<le> unat ?l"
    "fst b = ?l \<or> unat (fst b) + snd b \<le> unat ?l - 16 - unat (header_padding (stk_mem a) (?l - 16))"
    using h False b by (auto simp: stack_holds_def Let_def)
  have l16: "unat (?l - 16) + 16 = unat ?l" using l(1) by (intro stack_p16(2)[of buf]) simp
  have nw: "unat (?l - 16) + 16 \<le> 2 ^ 64" unfolding l16 using unat_lt_word[of ?l] by simp
  have "unat x < unat (?l - 16) \<or> unat (?l - 16) + 16 \<le> unat x"
    using x l l16 by (auto simp: in_block_def)
  then show ?thesis
    using h header_store_outside[OF nw] by (simp add: stack_holds_def stack_store_def Let_def)
qed

lemma stack_deallocate_last:
  assumes h: "stack_holds buf cap live a" and l: "stk_lastAllocation a \<noteq> nullptr"
  defines "a' \<equiv> Stack_Deallocate (stk_lastAllocation a) a"
  shows "unat buf + unat (stk_offset a') = unat (stk_lastAllocation a) - 16
      - unat (header_padding (stk_mem a) (stk_lastAllocation a - 16))"
    and "stk_mem a' = stk_mem a" and "stk_buffer a' = stk_buffer a" and "stk_capacity a' = stk_capacity a"
    and "stk_lastAllocation a' = nullptr" and "unat (stk_offset a') \<le> unat (stk_offset a)"
proof -
  let ?l = "stk_lastAllocation a"
  let ?sz = "header_size (stk_mem a) (?l - 16)" and ?pd = "header_padding (stk_mem a) (?l - 16)"
  have inv: "unat buf + 16 + unat ?pd \<le> unat ?l" "unat ?l + unat ?sz = unat buf + unat (stk_offset a)"
      "unat (stk_offset a) \<le> unat cap" "unat buf + unat cap \<le> 2 ^ 63"
    using h l by (auto simp: stack_holds_def Let_def)
  have tot: "unat (16 + ?pd + ?sz) = 16 + unat ?pd + unat ?sz"
    using inv by (simp add: unat_add_nowrap)
  have "unat (stk_offset a - (16 + ?pd + ?sz)) = unat (stk_offset a) - (16 + unat ?pd + unat ?sz)"
    using inv tot by (subst unat_diff_nowrap) auto
  then show "unat buf + unat (stk_offset a') = unat ?l - 16 - unat ?pd" "unat (stk_offset a') \<le> unat (stk_offset a)"
    using inv l by (auto simp: a'_def Stack_Deallocate_def Let_def headerSize_def RecordDealloc_def)
  show "stk_mem a' = stk_mem a" "stk_buffer a' = stk_buffer a" "stk_capacity a' = stk_capacity a"
    "stk_lastAllocation a' = nullptr"
    using l by (auto simp: a'_def Stack_Deallocate_def Let_def RecordDealloc_def)
qed

lemma stack_holds_deallocate:
  assumes h: "stack_holds buf cap (xs @ (p, n) # ys) a"
  shows "stack_holds buf cap (xs @ ys) (Stack_Deallocate p a)" and "stk_mem (Stack_Deallocate p a) = stk_mem a"
proof -
  have sep: "separated (xs @ ys)" using h separated_remove by (fastforce simp: stack_holds_def)
  consider "Stack_Deallocate p a = a" | "p = stk_lastAllocation a" "p \<noteq> nullptr"
    unfolding Stack_Deallocate_def by (cases "p = stk_lastAllocation a \<and> p \<noteq> nullptr") auto
  then have "stack_holds buf cap (xs @ ys) (Stack_Deallocate p a) \<and> stk_mem (Stack_Deallocate p a) = stk_mem a"
  proof cases
    case 1
    with h sep show ?thesis by (auto simp: stack_holds_def Let_def)
  next
    case 2
    note d = stack_deallocate_last[OF h 2(2)[unfolded 2(1)]]
    have "q \<noteq> p" if "(q, m) \<in> set (xs @ ys)" for q m
      using h that by (force simp: stack_holds_def separated_append apart_def)
    then have "unat q + m \<le> unat buf + unat (stk_offset (Stack_Deallocate p a))" if "(q, m) \<in> set (xs @ ys)" for q m
      using h that 2 d(1) by (fastforce simp: stack_holds_def Let_def)
    with d h 2 sep show ?thesis by (fastforce simp: stack_holds_def)
  qed
  then show "stack_holds buf cap (xs @ ys) (Stack_Deallocate p a)" "stk_mem (Stack_Deallocate p a) = stk_mem a"
    by blast+
qed

lemma stack_null_pointer: "stack_holds buf cap live a \<Longrightarrow> unat buf \<le> unat p \<Longrightarrow> p \<noteq> nullptr"
  by (auto simp: stack_holds_def nullptr_def unat_eq_0)

interpretation stack: arena_allocator "\<lambda>sz al a. Some (Stack_Allocate sz al a)" "\<lambda>p a. Some (Stack_Deallocate p a)"
    stack_load stack_store sane_request "stack_holds buf cap" "unat buf" "unat cap" for buf :: addr and cap :: size_t
proof (unfold_locales, goal_cases)
  case (1 live s)
  then show ?case by (simp add: stack_holds_def)
next
  case (2 x y v s)
  then show ?case by (simp add: stack_load_def stack_store_def)
next
  case (3 live s sz al)
  then show ?case by (metis surj_pair)
next
  case (4 live s sz al s')
  from 4(1,2) show ?case
  proof (cases rule: stack_allocate_cases)
    case (block p pd a')
    then show ?thesis using 4(1,3) stack_null_pointer[OF 4(1), of p] by simp
  qed (use 4 in simp)
next
  case (5 live s sz al p s')
  then show ?case using stack_holds_allocate(1,2)[OF 5(1,2)] by simp
next
  case (6 live s sz al p s' b x)
  show ?case
  proof (cases "p = nullptr")
    case True
    from 6(1,2) have "s' = s"
    proof (cases rule: stack_allocate_cases)
      case (block p pd a')
      then show ?thesis using 6(1,3) True stack_null_pointer[OF 6(1), of p] by simp
    qed (use 6 in simp)
    then show ?thesis by simp
  next
    case False
    then show ?thesis using stack_holds_allocate(3)[OF 6(1,2)] 6(3-) by (simp add: stack_load_def)
  qed
next
  case (7 xs p n ys s)
  then show ?case using stack_holds_deallocate(1) by blast
next
  case (8 xs p n ys s s' b x)
  then show ?case using stack_holds_deallocate(2)[OF 8(1)] by (simp add: stack_load_def)
next
  case (9 live s b x v)
  then show ?case by (rule stack_holds_store)
next
  case (10 live s)
  then show ?case by (simp add: stack_holds_def)
next
  case (11 live s p n)
  then have b: "unat buf + 16 \<le> unat p" "unat p + n \<le> unat buf + unat (stk_offset s)" "unat (stk_offset s) \<le> unat cap"
    by (fastforce simp: stack_holds_def)+
  then show ?case using stack_null_pointer[OF 11(1), of p] by simp
qed

subsection \<open>Properties\<close>

lemma stack_ctor_holds:
  assumes "0 < cap" and "buf \<noteq> nullptr" and "unat buf + unat cap \<le> 2 ^ 63"
  shows "stack_holds buf cap [] (CStackAllocator_ctor cap buf mem)"
  using assms by (simp add: stack_holds_def CStackAllocator_ctor_def)

text \<open>
  The stack allocator serves any client, in whatever order it frees: blocks are aligned, inside the buffer,
  disjoint from each other and from the headers, and keep what the client wrote; the header of the last block
  survives every write into a block.
\<close>

theorem stack_blocks_are_separate_arrays:
  assumes "0 < cap" and "buf \<noteq> nullptr" and "unat buf + unat cap \<le> 2 ^ 63"
    and "\<forall>op\<in>set ops. op_accepted sane_request op"
  shows "\<exists>c. run_ops (\<lambda>sz al a. Some (Stack_Allocate sz al a)) (\<lambda>p a. Some (Stack_Deallocate p a)) stack_store ops
      ([], CStackAllocator_ctor cap buf mem) = Some c
    \<and> client_view (unat buf) (unat cap) stack_load c"
  using stack.client_safe[OF stack_ctor_holds[OF assms(1-3)] assms(4)] .

theorem stack_blocks_are_separate_arrays_witness:
  "\<exists>c. run_ops (\<lambda>sz al a. Some (Stack_Allocate sz al a)) (\<lambda>p a. Some (Stack_Deallocate p a)) stack_store
       [Op_Allocate 24 16, Op_Store 0 3 7, Op_Allocate 100 64, Op_Deallocate 1]
       ([], CStackAllocator_ctor 4096 65536 (\<lambda>_. 0)) = Some c
     \<and> client_view 65536 4096 stack_load c"
  using stack_blocks_are_separate_arrays[of 4096 65536
      "[Op_Allocate 24 16, Op_Store 0 3 7, Op_Allocate 100 64, Op_Deallocate 1]" "\<lambda>_. 0"]
  by (simp add: nullptr_def sane_request_def is_pow2_def upt_rec)

text \<open>
  Freeing the block that was allocated last gives its memory back to the byte, header and padding included,
  whatever the client wrote into its blocks; but only that one: after a block has been freed, freeing any further
  block, in stack order or not, changes nothing until the next allocation.
\<close>

theorem stack_pop:
  assumes h: "stack_holds buf cap live a" and r: "sane_request sz al"
    and run: "Stack_Allocate sz al a = (p, a')" and p: "p \<noteq> nullptr"
  shows "stk_offset (Stack_Deallocate p a') = stk_offset a \<and> m_currentUsage (Stack_Deallocate p a') = m_currentUsage a
    \<and> Stack_Deallocate q (Stack_Deallocate p a') = Stack_Deallocate p a'"
proof -
  from h r obtain pd where block: "unat p = unat buf + unat (stk_offset a) + 16 + unat pd"
      "stk_lastAllocation a' = p" "stk_mem a' = write_header (p - 16) sz pd (stk_mem a)"
      "m_currentUsage a' = m_currentUsage a + sz"
    by (cases rule: stack_allocate_cases) (use run p in auto)
  have p16: "unat (p - 16) + 16 = unat p" using block(1) by (intro stack_p16(2)[of buf]) simp
  have "unat (p - 16) + 16 \<le> 2 ^ 64" unfolding p16 using unat_lt_word[of p] by simp
  note hdr = header_write_read[OF this, of sz pd "stk_mem a"]
  have h': "stack_holds buf cap ((p, unat sz) # live) a'" using stack_holds_allocate(1)[OF h r run p] .
  note d = stack_deallocate_last[OF h', unfolded block(2), OF p]
  have "unat (stk_offset (Stack_Deallocate p a')) = unat (stk_offset a)"
    using d(1) block(1) hdr(2) by (simp add: block(3))
  moreover have "m_currentUsage (Stack_Deallocate p a') = m_currentUsage a"
    using block p hdr(1) by (simp add: Stack_Deallocate_def Let_def headerSize_def RecordDealloc_def)
  moreover have "Stack_Deallocate q (Stack_Deallocate p a') = Stack_Deallocate p a'"
    using d(5) by (auto simp: Stack_Deallocate_def[of q])
  ultimately show ?thesis by (simp add: word_unat_eq_iff)
qed

theorem stack_pop_witness:
  "\<exists>p a'. Stack_Allocate 24 16 (CStackAllocator_ctor 4096 65536 (\<lambda>_. 0)) = (p, a') \<and> p \<noteq> nullptr
     \<and> stk_offset (Stack_Deallocate p a') = 0"
proof -
  let ?a = "CStackAllocator_ctor 4096 65536 (\<lambda>_. 0)"
  obtain p a' where run: "Stack_Allocate 24 16 ?a = (p, a')" by (cases "Stack_Allocate 24 16 ?a")
  then have p: "p \<noteq> nullptr"
    by (auto simp: Stack_Allocate_def CStackAllocator_ctor_def Let_def align_up_def nullptr_def headerSize_def
        split: if_splits)
  have h: "stack_holds 65536 4096 [] ?a" by (rule stack_ctor_holds) (simp_all add: nullptr_def)
  have "sane_request 24 16" by (simp add: sane_request_def is_pow2_def upt_rec)
  from stack_pop[OF h this run p] run p show ?thesis by (simp add: CStackAllocator_ctor_def)
qed

end
