(* ===== verification/Pool_Allocator.thy ===== *)
theory Pool_Allocator
  imports Allocator_Interface Memory_Tracking
begin

section \<open>The pool allocator\<close>

text \<open>
  Models \<^verbatim>\<open>private/memory/pool_allocator.cpp\<close>: objects of one size, the free ones linked into a list through
  their own first eight bytes.  The loops over the list and over the objects follow the memory; a walk that would
  not end has no result.  The buffer is the result of \<open>std::malloc\<close>, an argument of the constructor.
\<close>

record CPoolAllocator = CTrackedAllocator +
  pool_buffer :: addr
  pool_objectSize :: size_t
  pool_objectCount :: size_t
  pool_freeList :: addr
  pool_mem :: memory

definition sizeof_SFreeNode :: size_t where
  "sizeof_SFreeNode = 8"

text \<open>The loop of the constructor: objects \<open>i, i + 1, \<dots>\<close>, each linked to the next, the last to \<open>nullptr\<close>.\<close>

fun link_objects :: "addr \<Rightarrow> size_t \<Rightarrow> size_t \<Rightarrow> nat \<Rightarrow> nat \<Rightarrow> memory \<Rightarrow> memory" where
  "link_objects bufferAddr objectSize objectCount i 0 m = m"
| "link_objects bufferAddr objectSize objectCount i (Suc todo) m =
     (let node = bufferAddr + of_nat i * objectSize;
          next = (if of_nat i < objectCount - 1 then bufferAddr + (of_nat i + 1) * objectSize else nullptr)
      in link_objects bufferAddr objectSize objectCount (Suc i) todo (write64 node next m))"

definition CPoolAllocator_ctor :: "size_t \<Rightarrow> size_t \<Rightarrow> (size_t \<Rightarrow> addr) \<Rightarrow> memory \<Rightarrow> CPoolAllocator" where
  "CPoolAllocator_ctor objectSize objectCount malloc mem =
     (let osz = max objectSize sizeof_SFreeNode;
          a = \<lparr>m_totalAllocated = 0, m_currentUsage = 0, m_numAllocations = 0, m_numDeallocations = 0,
               pool_buffer = nullptr, pool_objectSize = osz, pool_objectCount = objectCount,
               pool_freeList = nullptr, pool_mem = mem\<rparr>
      in if objectCount > 0
         then (let totalSize = osz * objectCount; buffer = malloc totalSize
               in if buffer \<noteq> nullptr
                  then a\<lparr>pool_buffer := buffer,
                         pool_mem := link_objects buffer osz objectCount 0 (unat objectCount) mem,
                         pool_freeList := buffer\<rparr>
                  else a\<lparr>pool_buffer := buffer\<rparr>)
         else a)"

definition CPoolAllocator_dtor :: "CPoolAllocator \<Rightarrow> addr option \<times> CPoolAllocator" where
  "CPoolAllocator_dtor a =
     (if pool_buffer a \<noteq> nullptr then (Some (pool_buffer a), a\<lparr>pool_buffer := nullptr\<rparr>) else (None, a))"

definition Pool_Allocate :: "size_t \<Rightarrow> size_t \<Rightarrow> CPoolAllocator \<Rightarrow> addr \<times> CPoolAllocator" where
  "Pool_Allocate sz alignment a =
     (if sz \<le> pool_objectSize a \<and> pool_freeList a \<noteq> nullptr
      then (pool_freeList a,
            RecordAlloc (pool_objectSize a) (a\<lparr>pool_freeList := read64 (pool_mem a) (pool_freeList a)\<rparr>))
      else (nullptr, a))"

definition Pool_Deallocate :: "addr \<Rightarrow> CPoolAllocator \<Rightarrow> CPoolAllocator" where
  "Pool_Deallocate ptr a =
     (if ptr \<noteq> nullptr
      then RecordDealloc (pool_objectSize a)
             (a\<lparr>pool_mem := write64 ptr (pool_freeList a) (pool_mem a), pool_freeList := ptr\<rparr>)
      else a)"

partial_function (option) count_nodes :: "memory \<Rightarrow> addr \<Rightarrow> size_t \<Rightarrow> size_t option" where
  "count_nodes m node count = (if node \<noteq> nullptr then count_nodes m (read64 m node) (count + 1) else Some count)"

declare count_nodes.simps [code]

definition GetAvailableObjects :: "CPoolAllocator \<Rightarrow> size_t option" where
  "GetAvailableObjects a = count_nodes (pool_mem a) (pool_freeList a) 0"

definition pool_load :: "addr \<Rightarrow> CPoolAllocator \<Rightarrow> u8" where
  "pool_load x a = pool_mem a x"

definition pool_store :: "addr \<Rightarrow> u8 \<Rightarrow> CPoolAllocator \<Rightarrow> CPoolAllocator" where
  "pool_store x v a = a\<lparr>pool_mem := (pool_mem a)(x := v)\<rparr>"

subsection \<open>The free list\<close>

fun chain :: "memory \<Rightarrow> addr \<Rightarrow> addr list \<Rightarrow> bool" where
  "chain m p [] = (p = nullptr)"
| "chain m p (q # qs) = (p = q \<and> q \<noteq> nullptr \<and> chain m (read64 m q) qs)"

lemma chain_null [simp]: "chain m nullptr qs \<longleftrightarrow> qs = []"
  by (cases qs) auto

lemma chain_cons: "p \<noteq> nullptr \<Longrightarrow> chain m p qs \<longleftrightarrow> (\<exists>rest. qs = p # rest \<and> chain m (read64 m p) rest)"
  by (cases qs) auto

lemma chain_cong:
  "chain m p qs \<Longrightarrow> (\<And>q. q \<in> set qs \<Longrightarrow> read64 m' q = read64 m q) \<Longrightarrow> chain m' p qs"
  by (induction qs arbitrary: p) auto

lemma count_nodes_chain: "chain m p qs \<Longrightarrow> count_nodes m p n = Some (n + of_nat (length qs))"
proof (induction qs arbitrary: p n)
  case Nil
  then show ?case by (simp add: count_nodes.simps)
next
  case (Cons q qs)
  then show ?case by (subst count_nodes.simps) (simp add: algebra_simps)
qed

subsection \<open>Slots\<close>

definition is_slot :: "addr \<Rightarrow> size_t \<Rightarrow> size_t \<Rightarrow> addr \<Rightarrow> bool" where
  "is_slot buf osz cnt p \<longleftrightarrow> (\<exists>i<unat cnt. unat p = unat buf + i * unat osz)"

lemma slots_apart:
  assumes "is_slot buf osz cnt p" and "is_slot buf osz cnt q" and "p \<noteq> q"
  shows "unat p + unat osz \<le> unat q \<or> unat q + unat osz \<le> unat p"
proof -
  obtain i j where ij: "unat p = unat buf + i * unat osz" "unat q = unat buf + j * unat osz"
    using assms(1,2) by (auto simp: is_slot_def)
  moreover have "i \<noteq> j" using ij assms(3) by (auto simp: word_unat_eq_iff)
  then consider "Suc i \<le> j" | "Suc j \<le> i" by linarith
  then show ?thesis
    by cases (use ij mult_le_mono1[of "Suc i" j "unat osz"] mult_le_mono1[of "Suc j" i "unat osz"] in auto)
qed

lemma slot_bounds:
  assumes "is_slot buf osz cnt p"
  shows "unat buf \<le> unat p" and "unat p + unat osz \<le> unat buf + unat cnt * unat osz"
proof -
  obtain i where i: "i < unat cnt" "unat p = unat buf + i * unat osz" using assms by (auto simp: is_slot_def)
  then show "unat buf \<le> unat p" by simp
  show "unat p + unat osz \<le> unat buf + unat cnt * unat osz"
    using i mult_le_mono1[of "Suc i" "unat cnt" "unat osz"] by simp
qed

subsection \<open>The invariant\<close>

text \<open>The slots are the free ones, linked in some order, and those the client owns.\<close>

definition pool_holds :: "addr \<Rightarrow> size_t \<Rightarrow> size_t \<Rightarrow> block list \<Rightarrow> CPoolAllocator \<Rightarrow> bool" where
  "pool_holds buf osz cnt live a \<longleftrightarrow>
     pool_buffer a = buf \<and> pool_objectSize a = osz \<and> pool_objectCount a = cnt
     \<and> buf \<noteq> nullptr \<and> 8 \<le> unat osz \<and> unat buf + unat cnt * unat osz \<le> 2 ^ 63
     \<and> (\<exists>free. chain (pool_mem a) (pool_freeList a) free
          \<and> distinct (free @ map fst live) \<and> length (free @ map fst live) = unat cnt
          \<and> (\<forall>p\<in>set (free @ map fst live). is_slot buf osz cnt p))
     \<and> (\<forall>(p, n)\<in>set live. n \<le> unat osz)"

lemma pool_holdsE:
  assumes "pool_holds buf osz cnt live a"
  obtains free where "pool_buffer a = buf" "pool_objectSize a = osz" "pool_objectCount a = cnt" "buf \<noteq> nullptr"
    "8 \<le> unat osz" "unat buf + unat cnt * unat osz \<le> 2 ^ 63"
    "chain (pool_mem a) (pool_freeList a) free" "distinct (free @ map fst live)"
    "length (free @ map fst live) = unat cnt" "\<forall>p\<in>set (free @ map fst live). is_slot buf osz cnt p"
    "\<forall>(p, n)\<in>set live. n \<le> unat osz"
  using assms by (auto simp: pool_holds_def)

lemma slot_nonnull: "buf \<noteq> nullptr \<Longrightarrow> is_slot buf osz cnt p \<Longrightarrow> p \<noteq> nullptr"
  using slot_bounds(1)[of buf osz cnt p] by (auto simp: nullptr_def unat_eq_0)

lemma slot_write_other:
  assumes "is_slot buf osz cnt p" and "is_slot buf osz cnt q" and "p \<noteq> q" and "8 \<le> unat osz"
    and "unat buf + unat cnt * unat osz \<le> 2 ^ 63"
  shows "read64 (write64 p v m) q = read64 m q"
  using slots_apart[OF assms(1-3)] slot_bounds(2)[OF assms(1)] slot_bounds(2)[OF assms(2)] assms(4,5)
  by (intro read64_write64_other) auto

lemma pool_holds_allocate:
  assumes h: "pool_holds buf osz cnt live a" and run: "Pool_Allocate sz al a = (p, a')" and p: "p \<noteq> nullptr"
  shows "pool_holds buf osz cnt ((p, unat sz) # live) a'" and "is_slot buf osz cnt p" and "pool_mem a' = pool_mem a"
proof -
  from h obtain free where f: "pool_buffer a = buf" "pool_objectSize a = osz" "pool_objectCount a = cnt" "buf \<noteq> nullptr"
    "8 \<le> unat osz" "unat buf + unat cnt * unat osz \<le> 2 ^ 63"
    "chain (pool_mem a) (pool_freeList a) free" "distinct (free @ map fst live)"
    "length (free @ map fst live) = unat cnt" "\<forall>p\<in>set (free @ map fst live). is_slot buf osz cnt p"
    "\<forall>(p, n)\<in>set live. n \<le> unat osz" by (rule pool_holdsE)
  from run p have r: "sz \<le> osz" "p = pool_freeList a" "pool_freeList a \<noteq> nullptr"
    "a' = RecordAlloc osz (a\<lparr>pool_freeList := read64 (pool_mem a) p\<rparr>)"
    using f(2) by (auto simp: Pool_Allocate_def split: if_splits)
  obtain rest where free: "free = p # rest" "chain (pool_mem a) (read64 (pool_mem a) p) rest"
    using f(7) chain_cons[OF r(3)] r(2) by auto
  show "is_slot buf osz cnt p" using f(10) free(1) by simp
  show mem: "pool_mem a' = pool_mem a" by (simp add: r(4) RecordAlloc_def)
  have "chain (pool_mem a') (pool_freeList a') rest" using free(2) mem by (simp add: r(4) RecordAlloc_def)
  moreover have "unat sz \<le> unat osz" using r(1) by (simp add: word_le_nat_alt)
  ultimately show "pool_holds buf osz cnt ((p, unat sz) # live) a'"
    unfolding pool_holds_def using f free(1)
    by (intro conjI exI[of _ rest]) (auto simp: r(4) RecordAlloc_def)
qed

lemma pool_holds_deallocate:
  assumes h: "pool_holds buf osz cnt (xs @ (p, n) # ys) a"
  shows "pool_holds buf osz cnt (xs @ ys) (Pool_Deallocate p a)"
    and "b \<in> set (xs @ ys) \<Longrightarrow> in_block x b \<Longrightarrow> pool_mem (Pool_Deallocate p a) x = pool_mem a x"
proof -
  from h obtain free where f: "pool_buffer a = buf" "pool_objectSize a = osz" "pool_objectCount a = cnt" "buf \<noteq> nullptr"
    "8 \<le> unat osz" "unat buf + unat cnt * unat osz \<le> 2 ^ 63"
    "chain (pool_mem a) (pool_freeList a) free" "distinct (free @ map fst (xs @ (p, n) # ys))"
    "length (free @ map fst (xs @ (p, n) # ys)) = unat cnt"
    "\<forall>q\<in>set (free @ map fst (xs @ (p, n) # ys)). is_slot buf osz cnt q"
    "\<forall>(q, m)\<in>set (xs @ (p, n) # ys). m \<le> unat osz" by (rule pool_holdsE)
  have sp: "is_slot buf osz cnt p" using f(10) by simp
  have p: "p \<noteq> nullptr" by (rule slot_nonnull[OF f(4) sp])
  have a': "Pool_Deallocate p a = RecordDealloc osz
      (a\<lparr>pool_mem := write64 p (pool_freeList a) (pool_mem a), pool_freeList := p\<rparr>)"
    using p f(2) by (simp add: Pool_Deallocate_def)
  have "chain (write64 p (pool_freeList a) (pool_mem a)) (pool_freeList a) free"
    by (rule chain_cong[OF f(7)]) (use f(8,10) in \<open>auto intro!: slot_write_other[OF sp _ _ f(5,6)]\<close>)
  then have "chain (pool_mem (Pool_Deallocate p a)) (pool_freeList (Pool_Deallocate p a)) (p # free)"
    using p by (simp add: a' RecordDealloc_def)
  then show "pool_holds buf osz cnt (xs @ ys) (Pool_Deallocate p a)"
    unfolding pool_holds_def using f
    by (intro conjI exI[of _ "p # free"]) (auto simp: a' RecordDealloc_def)
  show "pool_mem (Pool_Deallocate p a) x = pool_mem a x" if b: "b \<in> set (xs @ ys)" and x: "in_block x b"
  proof -
    have "is_slot buf osz cnt (fst b)" "fst b \<noteq> p" using f(8,10) b by auto
    moreover have "snd b \<le> unat osz" using f(11) b by (cases b) auto
    ultimately show ?thesis
      using slots_apart[OF sp, of "fst b"] slot_bounds(2)[OF sp] x f(5,6)
      by (auto simp: a' RecordDealloc_def in_block_def intro!: write64_other)
  qed
qed

lemma pool_holds_store:
  assumes h: "pool_holds buf osz cnt live a" and b: "b \<in> set live" and x: "in_block x b"
  shows "pool_holds buf osz cnt live (pool_store x v a)"
proof -
  from h obtain free where f: "pool_buffer a = buf" "pool_objectSize a = osz" "pool_objectCount a = cnt" "buf \<noteq> nullptr"
    "8 \<le> unat osz" "unat buf + unat cnt * unat osz \<le> 2 ^ 63"
    "chain (pool_mem a) (pool_freeList a) free" "distinct (free @ map fst live)"
    "length (free @ map fst live) = unat cnt" "\<forall>p\<in>set (free @ map fst live). is_slot buf osz cnt p"
    "\<forall>(p, n)\<in>set live. n \<le> unat osz" by (rule pool_holdsE)
  have sb: "is_slot buf osz cnt (fst b)" "snd b \<le> unat osz" using f(10,11) b by auto
  have "read64 ((pool_mem a)(x := v)) q = read64 (pool_mem a) q" if "q \<in> set free" for q
  proof -
    have q: "is_slot buf osz cnt q" "q \<noteq> fst b" using f(8,10) that b by auto
    have nw: "unat q + 8 \<le> 2 ^ 64" using slot_bounds(2)[OF q(1)] f(5,6) by simp
    have "unat x \<notin> {unat q..<unat q + 8}"
      using slots_apart[OF q(1) sb(1) q(2)] x sb(2) f(5) by (auto simp: in_block_def)
    then have "same_on {unat q..<unat q + 8} (pool_mem a) ((pool_mem a)(x := v))" by (auto simp: same_on_def)
    then show ?thesis using nw by (rule same_on_read64) simp
  qed
  then have "chain (pool_mem (pool_store x v a)) (pool_freeList (pool_store x v a)) free"
    using chain_cong[OF f(7)] by (simp add: pool_store_def)
  then show ?thesis unfolding pool_holds_def using f by (intro conjI exI[of _ free]) (auto simp: pool_store_def)
qed

subsection \<open>Construction\<close>

definition slot :: "addr \<Rightarrow> size_t \<Rightarrow> nat \<Rightarrow> addr" where
  "slot buf osz i = buf + of_nat i * osz"

lemma unat_slot:
  fixes cnt :: size_t
  assumes "i \<le> unat cnt" and "unat buf + unat cnt * unat osz \<le> 2 ^ 63"
  shows "unat (slot buf osz i) = unat buf + i * unat osz"
proof -
  have i: "i < 2 ^ 64" using le_less_trans[OF assms(1) unat_lt_word[of cnt]] by simp
  have le: "i * unat osz \<le> unat cnt * unat osz" using assms(1) by (rule mult_le_mono1)
  have sum: "unat buf + i * unat osz < 2 ^ 64" using le assms(2) power_strict_increasing[of 63 64 "2::nat"] by linarith
  have "unat (of_nat i * osz) = (i * unat osz) mod 2 ^ 64"
    using i by (simp add: unat_word_ariths unat_of_nat_small take_bit_eq_mod)
  also have "\<dots> = i * unat osz" using sum by (intro mod_less) linarith
  finally show ?thesis unfolding slot_def using sum by (simp only: unat_add_nowrap64)
qed

lemma is_slot_slot: "i < unat cnt \<Longrightarrow> unat buf + unat cnt * unat osz \<le> 2 ^ 63 \<Longrightarrow> is_slot buf osz cnt (slot buf osz i)"
  using unat_slot[of i cnt buf osz] by (auto simp: is_slot_def)

lemma slot_inj:
  fixes cnt :: size_t
  assumes "i < unat cnt" and "j < unat cnt" and "0 < unat osz" and "unat buf + unat cnt * unat osz \<le> 2 ^ 63"
  shows "slot buf osz i = slot buf osz j \<longleftrightarrow> i = j"
  using unat_slot[of i cnt buf osz] unat_slot[of j cnt buf osz] assms by (auto simp: word_unat_eq_iff)

lemma link_objects_reads:
  assumes "i + todo = unat cnt" and "8 \<le> unat osz" and "unat buf + unat cnt * unat osz \<le> 2 ^ 63" and "j < unat cnt"
  shows "read64 (link_objects buf osz cnt i todo m) (slot buf osz j) =
    (if j < i then read64 m (slot buf osz j) else if j + 1 < unat cnt then slot buf osz (j + 1) else nullptr)"
  using assms(1)
proof (induction todo arbitrary: i m)
  case 0
  with assms(4) show ?case by simp
next
  case (Suc todo)
  let ?next = "if of_nat i < cnt - 1 then buf + (of_nat i + 1) * osz else nullptr"
  have i: "i < unat cnt" using Suc.prems by simp
  have "cnt \<noteq> 0" using i by auto
  then have "unat (cnt - 1) = unat cnt - 1" using i by (subst unat_diff_nowrap) auto
  moreover have "unat (of_nat i :: size_t) = i" using i unat_lt_word[of cnt] by (intro unat_of_nat_small) simp
  ultimately have nxt: "?next = (if i + 1 < unat cnt then slot buf osz (i + 1) else nullptr)"
    by (auto simp: slot_def word_less_nat_alt add.commute)
  have "read64 (link_objects buf osz cnt i (Suc todo) m) (slot buf osz j)
      = (if j < Suc i then read64 (write64 (slot buf osz i) ?next m) (slot buf osz j)
         else if j + 1 < unat cnt then slot buf osz (j + 1) else nullptr)"
    using Suc.IH[of "Suc i"] Suc.prems by (simp add: Let_def slot_def)
  moreover have "read64 (write64 (slot buf osz i) ?next m) (slot buf osz j) = read64 m (slot buf osz j)" if "j \<noteq> i"
    using that i assms slot_inj[of i cnt j osz buf]
    by (intro slot_write_other[OF is_slot_slot is_slot_slot]) auto
  ultimately show ?case using nxt by (auto simp: less_Suc_eq)
qed

lemma linked_chain:
  assumes "\<And>j. j < n \<Longrightarrow> read64 m (slot buf osz j) = (if j + 1 < n then slot buf osz (j + 1) else nullptr)"
    and "\<And>j. j < n \<Longrightarrow> slot buf osz j \<noteq> nullptr" and "i < n"
  shows "chain m (slot buf osz i) (map (slot buf osz) [i..<n])"
  using assms(3)
proof (induction "n - i" arbitrary: i)
  case (Suc k)
  then have "[i..<n] = i # [Suc i..<n]" by (simp add: upt_conv_Cons)
  moreover have "chain m (read64 m (slot buf osz i)) (map (slot buf osz) [Suc i..<n])"
    using Suc assms(1)[OF Suc.prems] by (cases "Suc i < n") auto
  ultimately show ?case using assms(2)[OF Suc.prems] by simp
qed simp

lemma pool_ctor_holds:
  assumes "osz = max objectSize 8" and "0 < cnt" and "malloc (osz * cnt) = buf" and "buf \<noteq> nullptr"
    and nw: "unat buf + unat cnt * unat osz \<le> 2 ^ 63"
  shows "pool_holds buf osz cnt [] (CPoolAllocator_ctor objectSize cnt malloc mem)"
proof -
  let ?a = "CPoolAllocator_ctor objectSize cnt malloc mem" and ?free = "map (slot buf osz) [0..<unat cnt]"
  have osz: "8 \<le> unat osz" using assms(1) by (auto simp: max_def word_le_nat_alt not_le)
  have a: "pool_buffer ?a = buf" "pool_objectSize ?a = osz" "pool_objectCount ?a = cnt" "pool_freeList ?a = slot buf osz 0"
    "pool_mem ?a = link_objects buf osz cnt 0 (unat cnt) mem"
    using assms by (auto simp: CPoolAllocator_ctor_def Let_def sizeof_SFreeNode_def slot_def)
  have pos: "0 < unat cnt" using assms(2) by (simp add: word_less_nat_alt)
  have "chain (pool_mem ?a) (slot buf osz 0) ?free"
    unfolding a(5)
  proof (rule linked_chain)
    show "slot buf osz j \<noteq> nullptr" if "j < unat cnt" for j
      using slot_nonnull[OF assms(4) is_slot_slot[OF that nw]] .
  qed (use link_objects_reads[of 0 "unat cnt" cnt osz buf] osz nw pos in auto)
  moreover have "distinct ?free"
    using slot_inj[of _ cnt _ osz buf] osz nw by (auto simp: distinct_map inj_on_def)
  ultimately show ?thesis
    unfolding pool_holds_def using a assms(4) osz nw is_slot_slot[OF _ nw]
    by (intro conjI exI[of _ ?free]) auto
qed

lemma pool_separated:
  assumes h: "pool_holds buf osz cnt live a" shows "separated live"
proof -
  from h have d: "distinct (map fst live)" "\<forall>p\<in>fst ` set live. is_slot buf osz cnt p" "\<forall>(p, n)\<in>set live. n \<le> unat osz"
    by (auto simp: pool_holds_def)
  then show ?thesis
  proof (induction live)
    case (Cons b live)
    have "apart b c" if "c \<in> set live" for c
      using slots_apart[of buf osz cnt "fst b" "fst c"] Cons.prems that
      by (cases b; cases c) (force simp: apart_def)
    with Cons show ?case by auto
  qed simp
qed

text \<open>The pool ignores the alignment it is given: only what its buffer and object size allow is granted.\<close>

definition pool_accepts :: "addr \<Rightarrow> size_t \<Rightarrow> size_t \<Rightarrow> size_t \<Rightarrow> bool" where
  "pool_accepts buf osz sz al \<longleftrightarrow> unat al dvd unat buf \<and> unat al dvd unat osz"

lemma slot_aligned: "is_slot buf osz cnt p \<Longrightarrow> pool_accepts buf osz sz al \<Longrightarrow> unat al dvd unat p"
  by (auto simp: is_slot_def pool_accepts_def)

interpretation pool: arena_allocator "\<lambda>sz al a. Some (Pool_Allocate sz al a)" "\<lambda>p a. Some (Pool_Deallocate p a)"
    pool_load pool_store "pool_accepts buf osz" "pool_holds buf osz cnt" "unat buf" "unat cnt * unat osz"
    for buf :: addr and osz cnt :: size_t
proof (unfold_locales, goal_cases)
  case (1 live s)
  then show ?case by (simp add: pool_holds_def)
next
  case (2 x y v s)
  then show ?case by (simp add: pool_load_def pool_store_def)
next
  case (3 live s sz al)
  then show ?case by (metis surj_pair)
next
  case (4 live s sz al s')
  then show ?case by (auto simp: Pool_Allocate_def split: if_splits)
next
  case (5 live s sz al p s')
  then show ?case using pool_holds_allocate(1,2)[OF 5(1)] slot_aligned by blast
next
  case (6 live s sz al p s' b x)
  then show ?case by (auto simp: pool_load_def Pool_Allocate_def RecordAlloc_def split: if_splits)
next
  case (7 xs p n ys s)
  then show ?case using pool_holds_deallocate(1) by blast
next
  case (8 xs p n ys s s' b x)
  then show ?case using pool_holds_deallocate(2)[OF 8(1)] by (simp add: pool_load_def)
next
  case (9 live s b x v)
  then show ?case by (rule pool_holds_store)
next
  case (10 live s)
  then show ?case by (rule pool_separated)
next
  case (11 live s p n)
  from 11(1) obtain free where "buf \<noteq> nullptr" "\<forall>p\<in>set (free @ map fst live). is_slot buf osz cnt p"
      "\<forall>(p, n)\<in>set live. n \<le> unat osz" by (rule pool_holdsE)
  with 11(2) have s: "is_slot buf osz cnt p" "buf \<noteq> nullptr" "n \<le> unat osz" by force+
  then show ?case using slot_bounds[OF s(1)] slot_nonnull[OF s(2,1)] by simp
qed

subsection \<open>Properties\<close>

text \<open>
  The pool serves any client that asks for an alignment its buffer and object size have: objects are
  aligned, inside the buffer, disjoint, and keep what the client wrote, although the free objects are linked
  through their own memory.
\<close>

theorem pool_blocks_are_separate_arrays:
  assumes "osz = max objectSize 8" and "0 < cnt" and "malloc (osz * cnt) = buf" and "buf \<noteq> nullptr"
    and "unat buf + unat cnt * unat osz \<le> 2 ^ 63" and "\<forall>op\<in>set ops. op_accepted (pool_accepts buf osz) op"
  shows "\<exists>c. run_ops (\<lambda>sz al a. Some (Pool_Allocate sz al a)) (\<lambda>p a. Some (Pool_Deallocate p a)) pool_store ops
      ([], CPoolAllocator_ctor objectSize cnt malloc mem) = Some c
    \<and> client_view (unat buf) (unat cnt * unat osz) pool_load c"
  using pool.client_safe[OF pool_ctor_holds[of osz objectSize cnt malloc buf, OF assms(1-5)] assms(6)] .

theorem pool_blocks_are_separate_arrays_witness:
  "\<exists>c. run_ops (\<lambda>sz al a. Some (Pool_Allocate sz al a)) (\<lambda>p a. Some (Pool_Deallocate p a)) pool_store
       [Op_Allocate 24 16, Op_Store 0 3 7, Op_Allocate 30 16, Op_Deallocate 1]
       ([], CPoolAllocator_ctor 32 8 (\<lambda>_. 65536) (\<lambda>_. 0)) = Some c
     \<and> client_view 65536 (8 * 32) pool_load c"
  using pool_blocks_are_separate_arrays[of 32 32 8 "\<lambda>_. 65536" 65536
      "[Op_Allocate 24 16, Op_Store 0 3 7, Op_Allocate 30 16, Op_Deallocate 1]" "\<lambda>_. 0"]
  by (simp add: nullptr_def pool_accepts_def max_def)

text \<open>
  No object is lost: at any moment the walk over the free list ends, the number of objects it finds and the
  number the client owns add up to the object count, and a request that fits an object is refused only when
  the client owns them all.
\<close>

theorem pool_conserves_objects:
  assumes h: "pool_holds buf osz cnt live a"
  shows "\<exists>n. GetAvailableObjects a = Some n \<and> unat n + length live = unat cnt
    \<and> (sz \<le> osz \<longrightarrow> fst (Pool_Allocate sz al a) = nullptr \<longleftrightarrow> length live = unat cnt)"
proof -
  from h obtain free where f: "pool_objectSize a = osz" "chain (pool_mem a) (pool_freeList a) free"
    "length (free @ map fst live) = unat cnt" by (rule pool_holdsE)
  have "length free < 2 ^ 64" using f(3) le_less_trans[OF _ unat_lt_word[of cnt], of "length free"] by simp
  then have "GetAvailableObjects a = Some (of_nat (length free))" "unat (of_nat (length free) :: size_t) = length free"
    using count_nodes_chain[OF f(2)] by (simp_all add: GetAvailableObjects_def unat_of_nat_small)
  moreover have "fst (Pool_Allocate sz al a) = nullptr \<longleftrightarrow> free = []" if "sz \<le> osz"
    using f(1,2) that by (cases free) (auto simp: Pool_Allocate_def)
  ultimately show ?thesis using f(3) by auto
qed

theorem pool_conserves_objects_witness:
  "GetAvailableObjects (CPoolAllocator_ctor 32 8 (\<lambda>_. 65536) (\<lambda>_. 0)) = Some 8"
proof -
  have "pool_holds 65536 32 8 [] (CPoolAllocator_ctor 32 8 (\<lambda>_. 65536) (\<lambda>_. 0))"
    by (rule pool_ctor_holds) (simp_all add: nullptr_def max_def)
  from pool_conserves_objects[OF this, of 1 1] obtain n where
    "GetAvailableObjects (CPoolAllocator_ctor 32 8 (\<lambda>_. 65536) (\<lambda>_. 0)) = Some n" "unat n = unat (8 :: size_t)"
    by auto
  moreover from this have "n = 8" by (simp only: word_unat_eq_iff)
  ultimately show ?thesis by simp
qed

end
