(* ===== verification/Free_List_Allocator.thy ===== *)
theory Free_List_Allocator
  imports Allocator_Interface Memory_Tracking
begin

section \<open>The free list allocator\<close>

text \<open>
  Models \<^verbatim>\<open>private/memory/free_list_allocator.cpp\<close>: a first-fit allocator whose free blocks are linked, in the
  order of their addresses, through the memory they occupy.  Every field access of the source is a read or a
  write of eight bytes of that memory, in the order of the source, so that the headers, the free blocks and the
  client's data alias here exactly as they do there.  The walks over the list follow the pointers in memory; a walk that would
  not end has no result (\<open>None\<close>).  The buffer is the result of \<open>std::malloc\<close>, an argument of the constructor.
\<close>

record CFreeListAllocator = CTrackedAllocator +
  fl_buffer :: addr
  fl_capacity :: size_t
  fl_freeList :: addr
  fl_mem :: memory

definition sizeof_SFreeBlock :: size_t where
  "sizeof_SFreeBlock = 16"

definition block_size :: "memory \<Rightarrow> addr \<Rightarrow> size_t" where
  "block_size m b = read64 m b"

definition block_next :: "memory \<Rightarrow> addr \<Rightarrow> addr" where
  "block_next m b = read64 m (b + 8)"

definition set_block_size :: "addr \<Rightarrow> size_t \<Rightarrow> memory \<Rightarrow> memory" where
  "set_block_size b v m = write64 b v m"

definition set_block_next :: "addr \<Rightarrow> addr \<Rightarrow> memory \<Rightarrow> memory" where
  "set_block_next b v m = write64 (b + 8) v m"

definition CFreeListAllocator_ctor :: "size_t \<Rightarrow> addr \<Rightarrow> memory \<Rightarrow> CFreeListAllocator" where
  "CFreeListAllocator_ctor capacity malloced mem =
     (let a = \<lparr>m_totalAllocated = 0, m_currentUsage = 0, m_numAllocations = 0, m_numDeallocations = 0,
               fl_buffer = nullptr, fl_capacity = capacity, fl_freeList = nullptr, fl_mem = mem\<rparr>
      in if capacity > 0
         then (if malloced \<noteq> nullptr
               then a\<lparr>fl_buffer := malloced, fl_freeList := malloced,
                      fl_mem := set_block_next malloced nullptr (set_block_size malloced capacity mem)\<rparr>
               else a\<lparr>fl_buffer := malloced\<rparr>)
         else a)"

definition CFreeListAllocator_dtor :: "CFreeListAllocator \<Rightarrow> addr option \<times> CFreeListAllocator" where
  "CFreeListAllocator_dtor a =
     (if fl_buffer a \<noteq> nullptr then (Some (fl_buffer a), a\<lparr>fl_buffer := nullptr\<rparr>) else (None, a))"

definition block_aligned :: "size_t \<Rightarrow> addr \<Rightarrow> addr" where
  "block_aligned alignment blockAddr = align_up (blockAddr + headerSize) alignment"

definition block_padding :: "size_t \<Rightarrow> addr \<Rightarrow> size_t" where
  "block_padding alignment blockAddr = block_aligned alignment blockAddr - (blockAddr + headerSize)"

definition block_total :: "size_t \<Rightarrow> size_t \<Rightarrow> addr \<Rightarrow> size_t" where
  "block_total sz alignment blockAddr = headerSize + block_padding alignment blockAddr + sz"

text \<open>The search: \<open>Some None\<close> when no block fits, else the block found and the one before it.\<close>

partial_function (option) first_fit ::
  "memory \<Rightarrow> size_t \<Rightarrow> size_t \<Rightarrow> addr \<Rightarrow> addr \<Rightarrow> (addr \<times> addr) option option" where
  "first_fit m sz alignment prevBlock currentBlock =
     (if currentBlock \<noteq> nullptr
      then (if block_size m currentBlock \<ge> block_total sz alignment currentBlock
            then Some (Some (prevBlock, currentBlock))
            else first_fit m sz alignment currentBlock (block_next m currentBlock))
      else Some None)"

declare first_fit.simps [code]

definition relink :: "addr \<Rightarrow> addr \<Rightarrow> memory \<times> addr \<Rightarrow> memory \<times> addr" where
  "relink prevBlock target mf =
     (if prevBlock \<noteq> nullptr then (set_block_next prevBlock target (fst mf), snd mf) else (fst mf, target))"

definition FreeList_Allocate ::
  "size_t \<Rightarrow> size_t \<Rightarrow> CFreeListAllocator \<Rightarrow> (addr \<times> CFreeListAllocator) option" where
  "FreeList_Allocate sz alignment a =
     (if sz > 0 \<and> fl_freeList a \<noteq> nullptr
      then (case first_fit (fl_mem a) sz alignment nullptr (fl_freeList a) of
              None \<Rightarrow> None
            | Some None \<Rightarrow> Some (nullptr, a)
            | Some (Some (prevBlock, currentBlock)) \<Rightarrow>
                (let m = fl_mem a;
                     totalSize = block_total sz alignment currentBlock;
                     remainingSize = block_size m currentBlock - totalSize;
                     (m1, freeList) =
                       (if remainingSize > sizeof_SFreeBlock
                        then (let newBlock = currentBlock + totalSize;
                                  m' = set_block_size newBlock remainingSize m;
                                  m'' = set_block_next newBlock (block_next m' currentBlock) m'
                              in relink prevBlock newBlock (m'', fl_freeList a))
                        else relink prevBlock (block_next m currentBlock) (m, fl_freeList a));
                     alignedAddr = block_aligned alignment currentBlock;
                     m2 = write_header (alignedAddr - headerSize) sz (block_padding alignment currentBlock) m1
                 in Some (alignedAddr, RecordAlloc sz (a\<lparr>fl_mem := m2, fl_freeList := freeList\<rparr>))))
      else Some (nullptr, a))"

text \<open>The position of a freed block: the last free block below it, and the one after that.\<close>

partial_function (option) insert_position :: "memory \<Rightarrow> addr \<Rightarrow> addr \<Rightarrow> addr \<Rightarrow> (addr \<times> addr) option" where
  "insert_position m blockAddr prevBlock currentBlock =
     (if currentBlock \<noteq> nullptr \<and> currentBlock < blockAddr
      then insert_position m blockAddr currentBlock (block_next m currentBlock)
      else Some (prevBlock, currentBlock))"

declare insert_position.simps [code]

partial_function (option) CoalesceFreeBlocks :: "memory \<Rightarrow> addr \<Rightarrow> memory option" where
  "CoalesceFreeBlocks m currentBlock =
     (if currentBlock \<noteq> nullptr \<and> block_next m currentBlock \<noteq> nullptr
      then (if currentBlock + block_size m currentBlock = block_next m currentBlock
            then (let m' = set_block_size currentBlock
                             (block_size m currentBlock + block_size m (block_next m currentBlock)) m;
                      m'' = set_block_next currentBlock (block_next m' (block_next m' currentBlock)) m'
                  in CoalesceFreeBlocks m'' currentBlock)
            else CoalesceFreeBlocks m (block_next m currentBlock))
      else Some m)"

declare CoalesceFreeBlocks.simps [code]

definition FreeList_Deallocate :: "addr \<Rightarrow> CFreeListAllocator \<Rightarrow> CFreeListAllocator option" where
  "FreeList_Deallocate ptr a =
     (if ptr \<noteq> nullptr \<and> fl_buffer a \<noteq> nullptr
      then (let m = fl_mem a;
                header = ptr - headerSize;
                totalSize = headerSize + header_padding m header + header_size m header;
                blockAddr = ptr - headerSize - header_padding m header;
                m1 = set_block_next blockAddr nullptr (set_block_size blockAddr totalSize m)
            in case insert_position m1 blockAddr nullptr (fl_freeList a) of
                 None \<Rightarrow> None
               | Some (prevBlock, currentBlock) \<Rightarrow>
                   (let (m2, freeList) = relink prevBlock blockAddr (m1, fl_freeList a);
                        m3 = set_block_next blockAddr currentBlock m2;
                        a1 = RecordDealloc (header_size m3 header) (a\<lparr>fl_mem := m3, fl_freeList := freeList\<rparr>)
                    in map_option (\<lambda>m4. a1\<lparr>fl_mem := m4\<rparr>) (CoalesceFreeBlocks m3 freeList)))
      else Some a)"

definition free_list_load :: "addr \<Rightarrow> CFreeListAllocator \<Rightarrow> u8" where
  "free_list_load x a = fl_mem a x"

definition free_list_store :: "addr \<Rightarrow> u8 \<Rightarrow> CFreeListAllocator \<Rightarrow> CFreeListAllocator" where
  "free_list_store x v a = a\<lparr>fl_mem := (fl_mem a)(x := v)\<rparr>"

subsection \<open>Linked blocks\<close>

text \<open>\<open>seg m p fs r\<close>: following the pointers from \<open>p\<close> visits the blocks \<open>fs\<close> and arrives at \<open>r\<close>.\<close>

fun seg :: "memory \<Rightarrow> addr \<Rightarrow> block list \<Rightarrow> addr \<Rightarrow> bool" where
  "seg m p [] r = (p = r)"
| "seg m p ((q, n) # fs) r = (p = q \<and> q \<noteq> nullptr \<and> unat (block_size m q) = n \<and> seg m (block_next m q) fs r)"

definition node :: "block \<Rightarrow> nat set" where
  "node b = {unat (fst b)..<unat (fst b) + 16}"

definition bytes_of :: "block \<Rightarrow> nat set" where
  "bytes_of b = {unat (fst b)..<unat (fst b) + snd b}"

definition nodes :: "block list \<Rightarrow> nat set" where
  "nodes fs = (\<Union>b\<in>set fs. node b)"

definition node_ok :: "block \<Rightarrow> bool" where
  "node_ok b \<longleftrightarrow> 16 \<le> snd b \<and> unat (fst b) + snd b \<le> 2 ^ 63"

definition ordered :: "block list \<Rightarrow> bool" where
  "ordered fs \<longleftrightarrow> sorted_wrt (\<lambda>b c. unat (fst b) + snd b \<le> unat (fst c)) fs"

definition spaced :: "block list \<Rightarrow> bool" where
  "spaced fs \<longleftrightarrow> sorted_wrt (\<lambda>b c. unat (fst b) + snd b < unat (fst c)) fs"

definition prev_of :: "addr \<Rightarrow> block list \<Rightarrow> addr" where
  "prev_of prev pre = (if pre = [] then prev else fst (last pre))"

lemma spaced_ordered: "spaced fs \<Longrightarrow> ordered fs"
  unfolding spaced_def ordered_def by (induction fs) (auto simp: less_imp_le)

lemma nodes_simps [simp]:
  "nodes [] = {}" "nodes (b # fs) = node b \<union> nodes fs" "nodes (fs @ gs) = nodes fs \<union> nodes gs"
  by (auto simp: nodes_def)

lemma node_subset: "node_ok b \<Longrightarrow> node b \<subseteq> bytes_of b"
  by (auto simp: node_def bytes_of_def node_ok_def)

lemma next_field: "node_ok (q, n) \<Longrightarrow> unat (q + 8) = unat q + 8"
  by (subst unat_add_nowrap64) (auto simp: node_ok_def)

lemma seg_append: "seg m p (xs @ ys) r \<longleftrightarrow> (\<exists>q. seg m p xs q \<and> seg m q ys r)"
  by (induction xs arbitrary: p) auto

lemma seg_head: "seg m c fs nullptr \<Longrightarrow> (case fs of [] \<Rightarrow> nullptr | b # _ \<Rightarrow> fst b) = c"
  by (cases fs) (auto split: prod.splits)

lemma fields_cong:
  assumes "node_ok (q, n)" and "same_on (node (q, n)) m m'"
  shows "block_size m' q = block_size m q" and "block_next m' q = block_next m q"
  using assms next_field[OF assms(1)]
  by (auto simp: block_size_def block_next_def node_def node_ok_def intro!: same_on_read64)

lemma seg_cong:
  assumes "seg m p fs r" and "\<forall>b\<in>set fs. node_ok b" and "same_on (nodes fs) m m'"
  shows "seg m' p fs r"
  using assms
proof (induction fs arbitrary: p)
  case (Cons b fs)
  obtain q n where b: "b = (q, n)" by (cases b)
  have "same_on (node (q, n)) m m'" "same_on (nodes fs) m m'"
    using Cons.prems(3) b by (auto elim: same_on_subset)
  with fields_cong[of q n m m'] Cons b show ?case by auto
qed simp

lemma set_next_frame: "node_ok (q, n) \<Longrightarrow> R \<inter> node (q, n) = {} \<Longrightarrow> same_on R m (set_block_next q v m)"
  unfolding set_block_next_def
  by (rule same_on_write64) (auto simp: next_field node_def node_ok_def)

lemma set_size_frame: "node_ok (q, n) \<Longrightarrow> R \<inter> node (q, n) = {} \<Longrightarrow> same_on R m (set_block_size q v m)"
  unfolding set_block_size_def
  by (rule same_on_write64) (auto simp: node_def node_ok_def)

lemma fields_after_write:
  assumes "node_ok (q, n)"
  shows "block_next (set_block_next q v m) q = v" and "block_size (set_block_size q v m) q = v"
    and "block_size (set_block_next q v m) q = block_size m q"
    and "block_next (set_block_size q v m) q = block_next m q"
  using assms next_field[OF assms]
  by (auto simp: block_next_def block_size_def set_block_next_def set_block_size_def node_ok_def
      intro!: read64_write64_other)

lemma ordered_disjoint:
  assumes "ordered (xs @ b # ys)" and "\<forall>c\<in>set (xs @ b # ys). node_ok c"
  shows "bytes_of b \<inter> (\<Union>c\<in>set xs \<union> set ys. bytes_of c) = {}" and "nodes (xs @ ys) \<inter> bytes_of b = {}"
proof -
  show 1: "bytes_of b \<inter> (\<Union>c\<in>set xs \<union> set ys. bytes_of c) = {}"
    using assms(1) by (fastforce simp: ordered_def sorted_wrt_append bytes_of_def)
  show "nodes (xs @ ys) \<inter> bytes_of b = {}"
    using 1 assms(2) node_subset by (fastforce simp: nodes_def)
qed

lemma spaced_append:
  "spaced (xs @ ys) \<longleftrightarrow> spaced xs \<and> spaced ys \<and> (\<forall>c\<in>set xs. \<forall>d\<in>set ys. unat (fst c) + snd c < unat (fst d))"
  by (simp add: spaced_def sorted_wrt_append)

lemma ordered_append:
  "ordered (xs @ ys) \<longleftrightarrow> ordered xs \<and> ordered ys \<and> (\<forall>c\<in>set xs. \<forall>d\<in>set ys. unat (fst c) + snd c \<le> unat (fst d))"
  by (simp add: ordered_def sorted_wrt_append)

lemma ordered_nodes_disjoint:
  assumes "ordered (xs @ ys)" and "\<forall>c\<in>set xs. node_ok c"
  shows "nodes ys \<inter> nodes xs = {}"
  using assms by (fastforce simp: nodes_def ordered_append node_def node_ok_def)

lemma relink_seg:
  assumes s: "seg m fl pre cur" and ok: "\<forall>b\<in>set pre. node_ok b" and ord: "ordered pre"
    and rl: "relink (prev_of nullptr pre) target (m, fl) = (m', fl')"
  shows "seg m' fl' pre target" and "same_on (- nodes pre) m m'"
proof -
  have "seg m' fl' pre target \<and> same_on (- nodes pre) m m'"
  proof (cases pre rule: rev_cases)
    case Nil
    with s rl show ?thesis by (simp add: relink_def prev_of_def)
  next
    case (snoc xs b)
    obtain q n where b: "b = (q, n)" by (cases b)
    have q: "q \<noteq> nullptr" "seg m fl xs q" "unat (block_size m q) = n"
      using s snoc b by (auto simp: seg_append)
    have m': "m' = set_block_next q target m" "fl' = fl"
      using rl snoc b q(1) by (auto simp: relink_def prev_of_def)
    have okq: "node_ok (q, n)" using ok snoc b by simp
    have "nodes xs \<inter> node (q, n) = {}"
      using ordered_disjoint(2)[of xs b "[]"] ord ok snoc b node_subset[OF okq] by auto
    then have "seg m' fl xs q"
      using seg_cong[OF q(2)] set_next_frame[OF okq] ok snoc m' by auto
    moreover have "same_on (- nodes pre) m m'"
      unfolding m' by (rule set_next_frame[OF okq]) (auto simp: snoc b)
    ultimately show ?thesis
      using q m' fields_after_write(1,3)[OF okq] by (simp add: snoc b seg_append)
  qed
  then show "seg m' fl' pre target" "same_on (- nodes pre) m m'" by blast+
qed

subsection \<open>The search\<close>

definition fits :: "size_t \<Rightarrow> size_t \<Rightarrow> block \<Rightarrow> bool" where
  "fits sz al b \<longleftrightarrow> unat (block_total sz al (fst b)) \<le> snd b"

lemma block_layout:
  assumes r: "sane_request sz al" and ok: "node_ok (q, n)"
  shows "unat (block_aligned al q) = unat q + 16 + unat (block_padding al q)"
    and "unat (block_total sz al q) = 16 + unat (block_padding al q) + unat sz"
    and "unat al dvd unat (block_aligned al q)" and "unat (block_padding al q) < unat al"
proof -
  have q16: "unat (q + 16) = unat q + 16" using ok by (subst unat_add_nowrap64) (auto simp: node_ok_def)
  have "unat (q + 16) \<le> 2 ^ 63" using ok q16 by (auto simp: node_ok_def)
  note al = sane_align[OF r this]
  have pd: "unat (block_padding al q) = unat (block_aligned al q) - unat (q + 16)"
    using al(4) by (simp add: block_padding_def block_aligned_def headerSize_def)
  show "unat (block_aligned al q) = unat q + 16 + unat (block_padding al q)"
    using al(1) pd q16 by (simp add: block_aligned_def headerSize_def)
  show lt: "unat (block_padding al q) < unat al"
    using al(1,2) pd by (simp add: block_aligned_def headerSize_def)
  show "unat al dvd unat (block_aligned al q)" using al(3) by (simp add: block_aligned_def headerSize_def)
  show "unat (block_total sz al q) = 16 + unat (block_padding al q) + unat sz"
    unfolding block_total_def headerSize_def
    by (rule header_total) (use lt r in \<open>auto simp: sane_request_def\<close>)
qed

lemma first_fit_spec:
  assumes "seg m cur fs nullptr"
  shows "first_fit m sz al prev cur = Some (case dropWhile (\<lambda>b. \<not> fits sz al b) fs of
      [] \<Rightarrow> None
    | b # _ \<Rightarrow> Some (prev_of prev (takeWhile (\<lambda>b. \<not> fits sz al b) fs), fst b))"
  using assms
proof (induction fs arbitrary: prev cur)
  case Nil
  then show ?case by (simp add: first_fit.simps)
next
  case (Cons b fs)
  obtain q n where b: "b = (q, n)" by (cases b)
  have q: "cur = q" "q \<noteq> nullptr" "unat (block_size m q) = n" "seg m (block_next m q) fs nullptr"
    using Cons.prems b by auto
  then have fit: "block_total sz al q \<le> block_size m q \<longleftrightarrow> fits sz al b"
    by (simp add: fits_def word_le_nat_alt b)
  show ?case
  proof (cases "fits sz al b")
    case True
    with fit q b show ?thesis by (simp add: first_fit.simps prev_of_def)
  next
    case False
    have "first_fit m sz al prev cur = first_fit m sz al q (block_next m q)"
      using False fit q by (subst first_fit.simps) simp
    with Cons.IH[OF q(4), of q] False b show ?thesis
      by (cases "dropWhile (\<lambda>b. \<not> fits sz al b) fs") (simp_all add: prev_of_def del: dropWhile_eq_Nil_conv)
  qed
qed

lemma dropWhile_split:
  assumes "dropWhile P xs = y # ys"
  shows "xs = takeWhile P xs @ y # ys" and "\<not> P y"
  using takeWhile_dropWhile_id[of P xs] hd_dropWhile[of P xs] assms by (auto simp: dropWhile_eq_Nil_conv)

subsection \<open>Taking a block\<close>

text \<open>What taking \<open>sz\<close> bytes at alignment \<open>al\<close> from the free block \<open>b\<close> leaves of it.\<close>

definition remainder :: "size_t \<Rightarrow> size_t \<Rightarrow> block \<Rightarrow> block list" where
  "remainder sz al b =
     (let t = block_total sz al (fst b)
      in if snd b - unat t > 16 then [(fst b + t, snd b - unat t)] else [])"

text \<open>The free list part of an allocation, as the source performs it on the memory.\<close>

definition unlink_block :: "size_t \<Rightarrow> size_t \<Rightarrow> addr \<Rightarrow> addr \<Rightarrow> memory \<Rightarrow> addr \<Rightarrow> memory \<times> addr" where
  "unlink_block sz alignment prevBlock currentBlock m freeList =
     (let totalSize = block_total sz alignment currentBlock;
          remainingSize = block_size m currentBlock - totalSize
      in if remainingSize > sizeof_SFreeBlock
         then (let newBlock = currentBlock + totalSize;
                   m' = set_block_size newBlock remainingSize m;
                   m'' = set_block_next newBlock (block_next m' currentBlock) m'
               in relink prevBlock newBlock (m'', freeList))
         else relink prevBlock (block_next m currentBlock) (m, freeList))"

lemma remainder_ok:
  assumes r: "sane_request sz al" and ok: "node_ok b" and fit: "fits sz al b" and c: "c \<in> set (remainder sz al b)"
  shows "node_ok c" and "c = (fst b + block_total sz al (fst b), snd b - unat (block_total sz al (fst b)))"
    and "unat (fst c) = unat (fst b) + unat (block_total sz al (fst b))" and "unat (fst c) + snd c = unat (fst b) + snd b"
    and "16 < snd c"
proof -
  let ?t = "block_total sz al (fst b)"
  have t: "unat ?t \<le> snd b" using fit by (simp add: fits_def)
  show c': "c = (fst b + ?t, snd b - unat ?t)" and gt: "16 < snd c"
    using c by (auto simp: remainder_def Let_def split: if_splits)
  show sum: "unat (fst c) = unat (fst b) + unat ?t"
    unfolding c' fst_conv using t ok by (intro unat_add_nowrap64) (auto simp: node_ok_def)
  show tot: "unat (fst c) + snd c = unat (fst b) + snd b" using sum t c' by simp
  show "node_ok c" using tot gt ok by (simp add: node_ok_def)
qed

lemma unlink_block_spec:
  assumes r: "sane_request sz al" and s: "seg m fl (pre @ b # post) nullptr"
    and ok: "\<forall>c\<in>set (pre @ b # post). node_ok c" and ord: "ordered (pre @ b # post)" and fit: "fits sz al b"
    and u: "unlink_block sz al (prev_of nullptr pre) (fst b) m fl = (m', fl')"
  shows "seg m' fl' (pre @ remainder sz al b @ post) nullptr" and "same_on (- nodes pre - bytes_of b) m m'"
proof -
  obtain q n where b: "b = (q, n)" by (cases b)
  let ?t = "block_total sz al q"
  have q: "seg m fl pre q" "q \<noteq> nullptr" "unat (block_size m q) = n" "seg m (block_next m q) post nullptr"
    using s b by (auto simp: seg_append)
  have okq: "node_ok (q, n)" and okpre: "\<forall>c\<in>set pre. node_ok c" and okpost: "\<forall>c\<in>set post. node_ok c"
    using ok b by auto
  have ordpre: "ordered pre" using ord by (simp add: ordered_def sorted_wrt_append)
  have dpre: "nodes pre \<inter> bytes_of b = {}" and dpost: "nodes post \<inter> bytes_of b = {}"
    using ordered_disjoint(2)[OF ord ok] by auto
  have dpp: "nodes post \<inter> nodes pre = {}"
    using ordered_nodes_disjoint[of pre post] ord okpre by (simp add: ordered_def sorted_wrt_append)
  have rem: "unat (block_size m q - ?t) = n - unat ?t"
    using fit q(3) b by (subst unat_diff_nowrap) (auto simp: fits_def)
  have "seg m' fl' (pre @ remainder sz al b @ post) nullptr \<and> same_on (- nodes pre - bytes_of b) m m'"
  proof (cases "remainder sz al b")
    case Nil
    then have "relink (prev_of nullptr pre) (block_next m q) (m, fl) = (m', fl')"
      using u rem b by (simp add: unlink_block_def remainder_def Let_def sizeof_SFreeBlock_def word_less_nat_alt split: if_splits)
    note rl = relink_seg[OF q(1) okpre ordpre this]
    have "seg m' (block_next m q) post nullptr"
      by (rule seg_cong[OF q(4) okpost same_on_subset[OF rl(2)]]) (use dpp in auto)
    with rl Nil show ?thesis by (auto simp: seg_append elim: same_on_subset)
  next
    case (Cons c cs)
    then have cs: "remainder sz al b = [c]" by (auto simp: remainder_def Let_def split: if_splits)
    let ?m1 = "set_block_size (fst c) (block_size m q - ?t) m"
    let ?m2 = "set_block_next (fst c) (block_next ?m1 q) ?m1"
    have c: "node_ok c" "c = (q + ?t, n - unat ?t)" "unat (fst c) = unat q + unat ?t"
      "unat (fst c) + snd c = unat q + n" "16 < snd c"
      using remainder_ok[OF r _ fit, of c] cs okq b by auto
    have "relink (prev_of nullptr pre) (fst c) (?m2, fl) = (m', fl')"
      using u rem b c(2,5) by (simp add: unlink_block_def Let_def sizeof_SFreeBlock_def word_less_nat_alt)
    moreover have cb: "node c \<subseteq> bytes_of b" "node (q, n) \<inter> node c = {}"
      using c(3,4,5) block_layout(2)[OF r okq] by (auto simp: node_def bytes_of_def b)
    have fr: "same_on R m ?m2" if "R \<inter> node c = {}" for R
      using same_on_trans[OF set_size_frame set_next_frame] c(1) that by (metis prod.collapse)
    have "seg ?m2 fl pre q"
      by (rule seg_cong[OF q(1) okpre fr]) (use dpre cb in auto)
    ultimately have rl: "seg m' fl' pre (fst c)" "same_on (- nodes pre) ?m2 m'"
      using relink_seg[OF _ okpre ordpre] by blast+
    have cdis: "node c \<inter> nodes pre = {}" "node c \<inter> nodes post = {}" using cb dpre dpost by auto
    have nxt: "block_next ?m1 q = block_next m q"
      by (rule fields_cong(2)[OF okq]) (use set_size_frame[of "fst c" "snd c"] c(1) cb in auto)
    have "block_size ?m2 (fst c) = block_size m q - ?t" "block_next ?m2 (fst c) = block_next m q"
      using fields_after_write[of "fst c" "snd c"] c(1) nxt by auto
    moreover have "block_size m' (fst c) = block_size ?m2 (fst c)" "block_next m' (fst c) = block_next ?m2 (fst c)"
      using fields_cong[of "fst c" "snd c" ?m2 m'] c(1) same_on_subset[OF rl(2)] cdis by auto
    moreover have "seg m' (block_next m q) post nullptr"
      by (rule seg_cong[OF q(4) okpost same_on_trans[OF fr same_on_subset[OF rl(2)]]]) (use dpp cdis in auto)
    moreover have "fst c \<noteq> nullptr" using c(3) block_layout(2)[OF r okq] by (auto simp: nullptr_def)
    ultimately have "seg m' fl' (pre @ [c] @ post) nullptr"
      using rl(1) rem c(2) by (auto simp: seg_append)
    moreover have "same_on (- nodes pre - bytes_of b) m m'"
      by (rule same_on_trans[OF fr same_on_subset[OF rl(2)]]) (use cb in auto)
    ultimately show ?thesis using cs by simp
  qed
  then show "seg m' fl' (pre @ remainder sz al b @ post) nullptr" "same_on (- nodes pre - bytes_of b) m m'" by blast+
qed

lemma FreeList_Allocate_unlink:
  "FreeList_Allocate sz alignment a =
     (if sz > 0 \<and> fl_freeList a \<noteq> nullptr
      then (case first_fit (fl_mem a) sz alignment nullptr (fl_freeList a) of
              None \<Rightarrow> None
            | Some None \<Rightarrow> Some (nullptr, a)
            | Some (Some (prevBlock, currentBlock)) \<Rightarrow>
                (case unlink_block sz alignment prevBlock currentBlock (fl_mem a) (fl_freeList a) of
                   (m1, freeList) \<Rightarrow>
                     Some (block_aligned alignment currentBlock,
                       RecordAlloc sz (a\<lparr>fl_mem := write_header (block_aligned alignment currentBlock - headerSize) sz
                           (block_padding alignment currentBlock) m1,
                         fl_freeList := freeList\<rparr>))))
      else Some (nullptr, a))"
  by (auto simp: FreeList_Allocate_def unlink_block_def Let_def split: option.splits prod.splits)

subsection \<open>The invariant\<close>

text \<open>
  What a live block occupies: its data, the header below, and the padding before that.
\<close>

definition occupied :: "memory \<Rightarrow> block \<Rightarrow> block" where
  "occupied m b = (fst b - 16 - header_padding m (fst b - 16), 16 + unat (header_padding m (fst b - 16)) + snd b)"

definition live_ok :: "nat \<Rightarrow> memory \<Rightarrow> block \<Rightarrow> bool" where
  "live_ok base m b \<longleftrightarrow> 0 < snd b \<and> unat (header_size m (fst b - 16)) = snd b
     \<and> base + 16 + unat (header_padding m (fst b - 16)) \<le> unat (fst b)"

text \<open>
  The free blocks are linked in the order of their addresses with a gap between any two; they and what the live
  blocks occupy lie in the buffer without overlap.
\<close>

definition arena_ok :: "addr \<Rightarrow> size_t \<Rightarrow> block list \<Rightarrow> memory \<Rightarrow> block list \<Rightarrow> bool" where
  "arena_ok buf cap live m fs \<longleftrightarrow>
     spaced fs \<and> (\<forall>b\<in>set fs. node_ok b)
     \<and> (\<forall>b\<in>set live. live_ok (unat buf) m b)
     \<and> separated (map (occupied m) live @ fs)
     \<and> (\<forall>b\<in>set (map (occupied m) live @ fs). unat buf \<le> unat (fst b) \<and> unat (fst b) + snd b \<le> unat buf + unat cap)"

definition free_list_holds :: "addr \<Rightarrow> size_t \<Rightarrow> block list \<Rightarrow> CFreeListAllocator \<Rightarrow> bool" where
  "free_list_holds buf cap live a \<longleftrightarrow>
     fl_buffer a = buf \<and> buf \<noteq> nullptr \<and> unat buf + unat cap \<le> 2 ^ 63
     \<and> (\<exists>fs. seg (fl_mem a) (fl_freeList a) fs nullptr \<and> arena_ok buf cap live (fl_mem a) fs)"

lemma live_layout:
  assumes "live_ok base m (p, n)"
  shows "unat (p - 16) = unat p - 16" and "unat (p - 16) + 16 = unat p"
    and "unat (fst (occupied m (p, n))) = unat p - 16 - unat (header_padding m (p - 16))"
    and "unat (fst (occupied m (p, n))) + snd (occupied m (p, n)) = unat p + n"
    and "{unat p - 16..<unat p + n} \<subseteq> bytes_of (occupied m (p, n))"
proof -
  let ?pd = "header_padding m (p - 16)"
  have l: "base + 16 + unat ?pd \<le> unat p" using assms by (simp add: live_ok_def)
  show h: "unat (p - 16) = unat p - 16" using l by (subst unat_diff_nowrap) auto
  then show "unat (p - 16) + 16 = unat p" using l by simp
  show o: "unat (fst (occupied m (p, n))) = unat p - 16 - unat ?pd"
    using h l by (simp add: occupied_def unat_diff_nowrap)
  then show e: "unat (fst (occupied m (p, n))) + snd (occupied m (p, n)) = unat p + n"
    using l by (simp add: occupied_def)
  show "{unat p - 16..<unat p + n} \<subseteq> bytes_of (occupied m (p, n))"
    using o e l by (auto simp: bytes_of_def)
qed

lemma live_cong:
  assumes ok: "live_ok base m (p, n)" and same: "same_on (bytes_of (occupied m (p, n))) m m'"
  shows "header_padding m' (p - 16) = header_padding m (p - 16)" and "header_size m' (p - 16) = header_size m (p - 16)"
    and "occupied m' (p, n) = occupied m (p, n)" and "live_ok base m' (p, n)"
proof -
  note l = live_layout[OF ok]
  have nw: "unat (p - 16) + 16 \<le> 2 ^ 64" unfolding l(2) using unat_lt_word[of p] by simp
  have p8: "unat (p - 16 + 8) = unat (p - 16) + 8" using nw by (subst unat_add_nowrap64) auto
  have "same_on {unat (p - 16)..<unat (p - 16) + 16} m m'"
    by (rule same_on_subset[OF same], rule order_trans[OF _ l(5)]) (use l(1,2) in auto)
  then show "header_padding m' (p - 16) = header_padding m (p - 16)" "header_size m' (p - 16) = header_size m (p - 16)"
    unfolding header_padding_def header_size_def using nw p8 by (auto intro!: same_on_read64)
  then show "occupied m' (p, n) = occupied m (p, n)" "live_ok base m' (p, n)"
    using ok by (simp_all add: occupied_def live_ok_def)
qed

text \<open>Memory may change outside of what the live blocks occupy.\<close>

lemma live_frame:
  assumes "\<forall>b\<in>set live. live_ok base m b" and "same_on (\<Union>b\<in>set live. bytes_of (occupied m b)) m m'"
  shows "map (occupied m') live = map (occupied m) live" and "\<forall>b\<in>set live. live_ok base m' b"
proof -
  have "occupied m' b = occupied m b \<and> live_ok base m' b" if "b \<in> set live" for b
    using live_cong[of base m "fst b" "snd b" m'] assms that same_on_subset[OF assms(2)] by (metis UN_upper prod.collapse)
  then show "map (occupied m') live = map (occupied m) live" "\<forall>b\<in>set live. live_ok base m' b" by auto
qed

lemma arena_disjoint:
  assumes "arena_ok buf cap live m fs" and "b \<in> set live" and "c \<in> set fs"
  shows "bytes_of (occupied m b) \<inter> bytes_of c = {}"
  using assms by (fastforce simp: arena_ok_def separated_append apart_def bytes_of_def)

definition within :: "block \<Rightarrow> block \<Rightarrow> bool" where
  "within b c \<longleftrightarrow> unat (fst c) \<le> unat (fst b) \<and> unat (fst b) + snd b \<le> unat (fst c) + snd c"

lemma apart_within: "apart c d \<Longrightarrow> within b c \<Longrightarrow> apart b d"
  by (auto simp: apart_def within_def)

lemma apart_bytes: "apart b c \<Longrightarrow> bytes_of b \<inter> bytes_of c = {}"
  by (auto simp: apart_def bytes_of_def)

lemma within_bytes: "within b c \<Longrightarrow> bytes_of b \<subseteq> bytes_of c"
  by (auto simp: within_def bytes_of_def)

lemma separated_within:
  assumes "separated (map f bs)" and "\<And>b. b \<in> set bs \<Longrightarrow> within b (f b)"
  shows "separated bs"
  using assms
proof (induction bs)
  case (Cons b bs)
  have "apart b c" if "c \<in> set bs" for c
  proof -
    have "apart (f c) b" using Cons.prems that apart_within[of "f b" "f c" b] by (auto simp: apart_sym)
    then have "apart c b" by (rule apart_within) (use Cons.prems(2) that in auto)
    then show ?thesis by (simp add: apart_sym)
  qed
  with Cons show ?case by auto
qed simp

text \<open>Splitting one of several separated blocks into parts keeps them separated.\<close>

lemma separated_parts:
  assumes "separated (xs @ pre @ b # post)" and "separated cs" and "\<forall>c\<in>set cs. within c b" and "cs = c0 # rest"
  shows "separated ((c0 # xs) @ pre @ rest @ post)"
proof -
  have x: "apart c d \<and> apart d c" if "c \<in> set cs" "d \<in> set (xs @ pre @ post)" for c d
  proof -
    have "apart b d" using assms(1) that(2) by (auto simp: separated_append apart_sym[of _ b])
    then have "apart c d" by (rule apart_within) (use assms(3) that(1) in auto)
    then show ?thesis by (simp add: apart_sym)
  qed
  have "separated (xs @ pre @ post)" using assms(1) by (simp add: separated_append)
  with x assms(2,4) show ?thesis by (simp add: separated_append ball_Un)
qed

lemma remainder_within:
  assumes r: "sane_request sz al" and ok: "node_ok b" and fit: "fits sz al b"
  shows "\<forall>c\<in>set ((fst b, unat (block_total sz al (fst b))) # remainder sz al b). within c b"
    and "separated ((fst b, unat (block_total sz al (fst b))) # remainder sz al b)"
proof -
  note rem = remainder_ok[OF r ok fit]
  show "\<forall>c\<in>set ((fst b, unat (block_total sz al (fst b))) # remainder sz al b). within c b"
    using rem(3,4) fit by (auto simp: within_def fits_def)
  have "separated (remainder sz al b)" by (simp add: remainder_def Let_def)
  then show "separated ((fst b, unat (block_total sz al (fst b))) # remainder sz al b)"
    using rem(3) by (auto simp: apart_def)
qed

lemma spaced_remainder:
  assumes r: "sane_request sz al" and ok: "node_ok b" and fit: "fits sz al b" and sp: "spaced (pre @ b # post)"
  shows "spaced (pre @ remainder sz al b @ post)"
proof (cases "remainder sz al b")
  case Nil
  then show ?thesis using sp by (simp add: spaced_def sorted_wrt_append)
next
  case (Cons c cs)
  then have "remainder sz al b = [c]" by (auto simp: remainder_def Let_def split: if_splits)
  moreover have "unat (fst b) \<le> unat (fst c)" "unat (fst c) + snd c = unat (fst b) + snd b"
    using remainder_ok[OF r ok fit, of c] Cons by auto
  ultimately show ?thesis using sp by (auto simp: spaced_def sorted_wrt_append)
qed

lemma taken_block:
  fixes m :: memory
  assumes r: "sane_request sz al" and sz: "sz \<noteq> 0" and ok: "node_ok (q, n)" and fit: "fits sz al (q, n)" and base: "base \<le> unat q"
  defines "p \<equiv> block_aligned al q" and "pd \<equiv> block_padding al q"
  defines "m' \<equiv> write_header (p - headerSize) sz pd m"
  shows "occupied m' (p, unat sz) = (q, unat (block_total sz al q))" and "live_ok base m' (p, unat sz)"
    and "same_on (- bytes_of (q, n)) m m'" and "p \<noteq> nullptr" and "unat al dvd unat p"
proof -
  note l = block_layout[OF r ok, folded p_def pd_def]
  have p16: "unat (p - 16) = unat q + unat pd" using l(1) by (subst unat_diff_nowrap) auto
  have end16: "unat (p - 16) + 16 \<le> unat q + n" using p16 fit l(2) by (simp add: fits_def)
  then have nw: "unat (p - 16) + 16 \<le> 2 ^ 64" using ok by (simp add: node_ok_def)
  note hdr = header_write_read[OF nw, of sz pd m]
  have "unat (p - 16 - pd) = unat q" using p16 by (subst unat_diff_nowrap) auto
  then have "p - 16 - pd = q" by (simp add: word_unat_eq_iff)
  then show "occupied m' (p, unat sz) = (q, unat (block_total sz al q))"
    using hdr l(2) by (simp add: occupied_def m'_def headerSize_def)
  show "live_ok base m' (p, unat sz)"
    using hdr sz base l(1) by (simp add: live_ok_def m'_def headerSize_def unat_gt_0)
  show "same_on (- bytes_of (q, n)) m m'"
    unfolding m'_def headerSize_def
    by (rule header_same_on[OF nw]) (use p16 end16 in \<open>auto simp: bytes_of_def\<close>)
  show "p \<noteq> nullptr" using l(1) by (auto simp: nullptr_def)
  show "unat al dvd unat p" by (fact l(3))
qed

lemma holdsE:
  assumes "free_list_holds buf cap live a"
  obtains fs where "fl_buffer a = buf" "buf \<noteq> nullptr" "unat buf + unat cap \<le> 2 ^ 63"
    "seg (fl_mem a) (fl_freeList a) fs nullptr" "arena_ok buf cap live (fl_mem a) fs"
  using assms by (auto simp: free_list_holds_def)

lemma arena_after_take:
  assumes r: "sane_request sz al" and sz: "sz \<noteq> 0" and arena: "arena_ok buf cap live m (pre @ b # post)" and fit: "fits sz al b"
    and s: "seg m fl (pre @ b # post) nullptr"
    and u: "unlink_block sz al (prev_of nullptr pre) (fst b) m fl = (m1, fl')"
  defines "p \<equiv> block_aligned al (fst b)"
  defines "m2 \<equiv> write_header (p - headerSize) sz (block_padding al (fst b)) m1"
  shows "seg m2 fl' (pre @ remainder sz al b @ post) nullptr"
    and "arena_ok buf cap ((p, unat sz) # live) m2 (pre @ remainder sz al b @ post)"
    and "same_on (\<Union>c\<in>set live. bytes_of (occupied m c)) m m2" and "p \<noteq> nullptr" and "unat al dvd unat p"
    and "occupied m2 (p, unat sz) = (fst b, unat (block_total sz al (fst b)))"
proof -
  obtain q n where b: "b = (q, n)" by (cases b)
  have sp: "spaced (pre @ b # post)" and ok: "\<forall>c\<in>set (pre @ b # post). node_ok c"
    and live: "\<forall>c\<in>set live. live_ok (unat buf) m c"
    using arena by (auto simp: arena_ok_def)
  have okb: "node_ok (q, n)" using ok b by simp
  have base: "unat buf \<le> unat q" using arena b by (auto simp: arena_ok_def)
  note un = unlink_block_spec[OF r s ok spaced_ordered[OF sp] fit u]
  note tk = taken_block(1-3)[where m = m1, OF r sz okb fit[unfolded b] base, folded p_def[unfolded b fst_conv]]
    taken_block(4,5)[OF r sz okb fit[unfolded b] base, folded p_def[unfolded b fst_conv]]
  have m2: "m2 = write_header (p - headerSize) sz (block_padding al q) m1" by (simp add: m2_def b)
  note tk = tk[folded m2]
  let ?fs' = "pre @ remainder sz al b @ post" and ?t = "(q, unat (block_total sz al q))"
  have ok': "\<forall>c\<in>set ?fs'. node_ok c" using ok remainder_ok(1)[OF r _ fit] by auto
  show "p \<noteq> nullptr" "unat al dvd unat p" by (fact tk)+
  show "occupied m2 (p, unat sz) = (fst b, unat (block_total sz al (fst b)))" using tk(1) b by simp
  have parts: "\<forall>c\<in>set (?t # remainder sz al b). within c b" "separated (?t # remainder sz al b)"
    using remainder_within[OF r _ fit] okb b by auto
  have "node c \<inter> {unat (p - 16)..<unat (p - 16) + 16} = {}" if "c \<in> set ?fs'" for c
  proof -
    have p16: "unat (p - 16) + 16 \<le> unat q + unat (block_total sz al q)" "unat q \<le> unat (p - 16)"
    proof -
      note l = block_layout[OF r okb]
      have "unat (p - 16) = unat q + unat (block_padding al q)"
        using l(1) by (subst unat_diff_nowrap) (auto simp: p_def b)
      then show "unat (p - 16) + 16 \<le> unat q + unat (block_total sz al q)" "unat q \<le> unat (p - 16)"
        using l(2) by auto
    qed
    have "apart ?t c"
    proof (cases "c \<in> set (remainder sz al b)")
      case False
      then have "c \<in> set pre \<union> set post" using that by auto
      then have "apart b c" using arena by (auto simp: arena_ok_def separated_append apart_sym)
      then show ?thesis using parts(1) apart_within by auto
    qed (use parts(2) in auto)
    then show ?thesis using p16 ok' that by (fastforce simp: apart_def node_def node_ok_def)
  qed
  then have disj: "nodes ?fs' \<inter> {unat (p - 16)..<unat (p - 16) + 16} = {}" by (auto simp: nodes_def)
  have nw: "unat (p - 16) + 16 \<le> 2 ^ 64"
    using block_layout(1)[OF r okb] unat_lt_word[of p] by (subst unat_diff_nowrap) (auto simp: p_def b)
  have "same_on (nodes ?fs') m1 m2"
    unfolding m2 headerSize_def by (rule header_same_on[OF nw disj])
  then show "seg m2 fl' ?fs' nullptr" by (rule seg_cong[OF un(1) ok'])
  have dl: "bytes_of (occupied m c) \<inter> bytes_of d = {}" if "c \<in> set live" "d \<in> set (pre @ b # post)" for c d
    using arena_disjoint[OF arena that] .
  have dl': "bytes_of (occupied m c) \<inter> nodes pre = {}" if "c \<in> set live" for c
    using dl[OF that] ok node_subset by (fastforce simp: nodes_def)
  show same: "same_on (\<Union>c\<in>set live. bytes_of (occupied m c)) m m2"
    by (rule same_on_trans[OF same_on_subset[OF un(2)] same_on_subset[OF tk(3)]])
       (use dl dl' b in \<open>auto simp: disjoint_iff\<close>)
  note lf = live_frame[OF live same]
  have "separated ((?t # map (occupied m) live) @ ?fs')"
    using separated_parts[OF _ parts(2,1) refl, of "map (occupied m) live" pre post] arena
    by (simp add: arena_ok_def)
  moreover have "\<forall>c\<in>set (?t # remainder sz al b). unat buf \<le> unat (fst c) \<and> unat (fst c) + snd c \<le> unat buf + unat cap"
    using parts(1) arena b by (fastforce simp: arena_ok_def within_def)
  ultimately show "arena_ok buf cap ((p, unat sz) # live) m2 ?fs'"
    unfolding arena_ok_def list.map lf(1) tk(1)
    using lf(2) tk(2) ok' spaced_remainder[OF r _ fit sp] ok arena by (auto simp: arena_ok_def)
qed

lemma free_list_allocate_cases:
  assumes h: "free_list_holds buf cap live a" and s: "seg (fl_mem a) (fl_freeList a) fs nullptr"
    and arena: "arena_ok buf cap live (fl_mem a) fs" and r: "sane_request sz al"
  obtains (null) "FreeList_Allocate sz al a = Some (nullptr, a)" "sz = 0 \<or> (\<forall>b\<in>set fs. \<not> fits sz al b)"
  | (block) pre b post p a' where "fs = pre @ b # post" "sz \<noteq> 0" "fits sz al b" "\<forall>c\<in>set pre. \<not> fits sz al c"
      "FreeList_Allocate sz al a = Some (p, a')" "p = block_aligned al (fst b)" "p \<noteq> nullptr" "unat al dvd unat p"
      "seg (fl_mem a') (fl_freeList a') (pre @ remainder sz al b @ post) nullptr"
      "arena_ok buf cap ((p, unat sz) # live) (fl_mem a') (pre @ remainder sz al b @ post)"
      "same_on (\<Union>c\<in>set live. bytes_of (occupied (fl_mem a) c)) (fl_mem a) (fl_mem a')"
      "fl_buffer a' = fl_buffer a" "m_currentUsage a' = m_currentUsage a + sz"
      "occupied (fl_mem a') (p, unat sz) = (fst b, unat (block_total sz al (fst b)))"
proof (cases "sz = 0 \<or> (\<forall>b\<in>set fs. \<not> fits sz al b)")
  case True
  then have "FreeList_Allocate sz al a = Some (nullptr, a)"
  proof
    assume "\<forall>b\<in>set fs. \<not> fits sz al b"
    then have "dropWhile (\<lambda>b. \<not> fits sz al b) fs = []" by simp
    with first_fit_spec[OF s, of sz al nullptr] show ?thesis by (simp add: FreeList_Allocate_def)
  qed (simp add: FreeList_Allocate_def)
  with True show ?thesis by (intro null)
next
  case False
  then obtain b post where d: "dropWhile (\<lambda>b. \<not> fits sz al b) fs = b # post"
    by (cases "dropWhile (\<lambda>b. \<not> fits sz al b) fs") auto
  define pre where "pre = takeWhile (\<lambda>b. \<not> fits sz al b) fs"
  have fs: "fs = pre @ b # post" and fit: "fits sz al b" using dropWhile_split[OF d] by (auto simp: pre_def)
  obtain m1 fl' where u: "unlink_block sz al (prev_of nullptr pre) (fst b) (fl_mem a) (fl_freeList a) = (m1, fl')"
    by (cases "unlink_block sz al (prev_of nullptr pre) (fst b) (fl_mem a) (fl_freeList a)")
  have sz: "sz \<noteq> 0" using False by simp
  note t = arena_after_take[OF r sz arena[unfolded fs] fit s[unfolded fs] u]
  have "fl_freeList a \<noteq> nullptr" using s fs by (cases pre; cases b) auto
  then have run: "FreeList_Allocate sz al a = Some (block_aligned al (fst b),
      RecordAlloc sz (a\<lparr>fl_mem := write_header (block_aligned al (fst b) - headerSize) sz (block_padding al (fst b)) m1,
        fl_freeList := fl'\<rparr>))"
    using first_fit_spec[OF s, of sz al nullptr] d sz u
    by (simp add: FreeList_Allocate_unlink word_greater_zero_iff flip: pre_def)
  show ?thesis
    by (rule block[OF fs sz fit _ run refl])
       (use t set_takeWhileD[of _ "\<lambda>b. \<not> fits sz al b" fs] in \<open>auto simp: RecordAlloc_def pre_def\<close>)
qed

subsection \<open>Merging neighbours\<close>

fun merge_adjacent :: "block list \<Rightarrow> block list" where
  "merge_adjacent [] = []"
| "merge_adjacent [b] = [b]"
| "merge_adjacent ((q, n) # (q', n') # r) =
     (if unat q + n = unat q' then merge_adjacent ((q, n + n') # r) else (q, n) # merge_adjacent ((q', n') # r))"

lemma merge_adjacent_all:
  assumes "\<And>q n q' n'. P (q, n) \<Longrightarrow> P (q', n') \<Longrightarrow> unat q + n = unat q' \<Longrightarrow> P (q, n + n')" and "\<forall>b\<in>set fs. P b"
  shows "\<forall>b\<in>set (merge_adjacent fs). P b"
  using assms(2) by (induction fs rule: merge_adjacent.induct) (auto intro: assms(1))

lemma merge_adjacent_starts: "fst ` set (merge_adjacent fs) \<subseteq> fst ` set fs"
  by (induction fs rule: merge_adjacent.induct) (auto split: if_splits)

lemma merge_adjacent_spaced: "ordered fs \<Longrightarrow> spaced (merge_adjacent fs)"
proof (induction fs rule: merge_adjacent.induct)
  case (3 q n q' n' r)
  show ?case
  proof (cases "unat q + n = unat q'")
    case True
    then have "ordered ((q, n + n') # r)" using 3(3) by (auto simp: ordered_def)
    with 3(1) True show ?thesis by simp
  next
    case False
    have ord: "ordered ((q', n') # r)" "unat q + n < unat q'" using 3(3) False by (auto simp: ordered_def)
    have "unat q + n < unat (fst c)" if c: "c \<in> set (merge_adjacent ((q', n') # r))" for c
    proof -
      have "fst c \<in> fst ` set ((q', n') # r)" using merge_adjacent_starts c by blast
      then show ?thesis using ord 3(3) by (fastforce simp: ordered_def)
    qed
    with 3(2) False ord(1) show ?thesis by (simp add: spaced_def)
  qed
qed (auto simp: spaced_def ordered_def)

lemma merge_adjacent_node_ok: "\<forall>b\<in>set fs. node_ok b \<Longrightarrow> \<forall>b\<in>set (merge_adjacent fs). node_ok b"
  by (rule merge_adjacent_all) (auto simp: node_ok_def)

lemma merge_adjacent_apart:
  assumes "0 < snd d" and "\<forall>b\<in>set fs. apart d b" shows "\<forall>b\<in>set (merge_adjacent fs). apart d b"
  by (rule merge_adjacent_all[OF _ assms(2)]) (use assms(1) in \<open>auto simp: apart_def\<close>)

lemma spaced_separated: "spaced fs \<Longrightarrow> separated fs"
  unfolding spaced_def by (induction fs) (auto simp: apart_def intro: less_imp_le)

lemma CoalesceFreeBlocks_spec:
  assumes "seg m p fs nullptr" and "\<forall>b\<in>set fs. node_ok b" and "ordered fs"
  shows "\<exists>m'. CoalesceFreeBlocks m p = Some m' \<and> seg m' p (merge_adjacent fs) nullptr \<and> same_on (- nodes fs) m m'"
  using assms
proof (induction fs arbitrary: m p rule: merge_adjacent.induct)
  case (3 q n q' n' r)
  have q: "p = q" "q \<noteq> nullptr" "q' \<noteq> nullptr" "block_next m q = q'" "unat (block_size m q) = n" "unat (block_size m q') = n'"
    "seg m (block_next m q') r nullptr" using 3(3) by auto
  have ok: "node_ok (q, n)" "node_ok (q', n')" "\<forall>b\<in>set r. node_ok b" using 3(4) by auto
  have dq: "nodes ((q', n') # r) \<inter> node (q, n) = {}"
    using ordered_disjoint(2)[of "[]" "(q, n)" "(q', n') # r"] 3(4,5) node_subset[OF ok(1)] by auto
  have adj: "q + block_size m q = q' \<longleftrightarrow> unat q + n = unat q'"
  proof -
    have "unat (q + block_size m q) = unat q + n" using ok(1) q(5) by (subst unat_add_nowrap64) (auto simp: node_ok_def)
    then show ?thesis by (auto simp: word_unat_eq_iff)
  qed
  show ?case
  proof (cases "unat q + n = unat q'")
    case True
    let ?m1 = "set_block_size q (block_size m q + block_size m q') m"
    let ?m2 = "set_block_next q (block_next ?m1 q') ?m1"
    have sum: "unat (block_size m q + block_size m q') = n + n'"
      using q(5,6) ok True by (subst unat_add_nowrap64) (auto simp: node_ok_def)
    have "same_on (node (q', n')) m ?m1" by (rule set_size_frame[OF ok(1)]) (use dq in auto)
    then have nxt: "block_next ?m1 q' = block_next m q'" by (rule fields_cong(2)[OF ok(2)])
    have fr: "same_on R m ?m2" if "R \<inter> node (q, n) = {}" for R
      using same_on_trans[OF set_size_frame set_next_frame] ok(1) that by blast
    have "seg ?m2 (block_next m q') r nullptr" by (rule seg_cong[OF q(7) ok(3) fr]) (use dq in auto)
    then have "seg ?m2 q ((q, n + n') # r) nullptr"
      using q(2) sum nxt fields_after_write[OF ok(1)] by simp
    moreover have "node_ok (q, n + n')" using ok True by (simp add: node_ok_def)
    moreover have "ordered ((q, n + n') # r)" using 3(5) True by (auto simp: ordered_def)
    ultimately obtain m' where m': "CoalesceFreeBlocks ?m2 q = Some m'"
        "seg m' q (merge_adjacent ((q, n + n') # r)) nullptr" "same_on (- nodes ((q, n + n') # r)) ?m2 m'"
      using 3(1)[OF True, of ?m2 q] ok(3) by auto
    have "CoalesceFreeBlocks m p = CoalesceFreeBlocks ?m2 q"
      using q True adj fields_after_write(4)[OF ok(1)] by (subst CoalesceFreeBlocks.simps) (simp add: Let_def)
    moreover have "same_on (- nodes ((q, n) # (q', n') # r)) m m'"
      by (rule same_on_trans[OF fr same_on_subset[OF m'(3)]]) (auto simp: node_def)
    ultimately show ?thesis using m'(1,2) True q(1) by simp
  next
    case False
    have "ordered ((q', n') # r)" using 3(5) by (simp add: ordered_def)
    then obtain m' where m': "CoalesceFreeBlocks m q' = Some m'"
        "seg m' q' (merge_adjacent ((q', n') # r)) nullptr" "same_on (- nodes ((q', n') # r)) m m'"
      using 3(2)[OF False, of m q'] q ok by auto
    have "same_on (node (q, n)) m m'" by (rule same_on_subset[OF m'(3)]) (use dq in auto)
    note f = fields_cong[OF ok(1) this]
    have "CoalesceFreeBlocks m p = CoalesceFreeBlocks m q'"
      using q False adj by (subst CoalesceFreeBlocks.simps) simp
    moreover have "seg m' p ((q, n) # merge_adjacent ((q', n') # r)) nullptr" using q f m'(2) by simp
    moreover have "same_on (- nodes ((q, n) # (q', n') # r)) m m'" by (rule same_on_subset[OF m'(3)]) auto
    ultimately show ?thesis using m'(1) False by simp
  qed
next
  case 1
  then have "CoalesceFreeBlocks m p = Some m" by (subst CoalesceFreeBlocks.simps) simp
  with 1 show ?case by simp
next
  case (2 b)
  obtain q n where b: "b = (q, n)" by (cases b)
  then have "CoalesceFreeBlocks m p = Some m" using 2 by (subst CoalesceFreeBlocks.simps) simp
  with 2 show ?case by simp
qed

lemma insert_position_spec:
  assumes "seg m cur fs nullptr"
  shows "insert_position m blk prev cur = Some (prev_of prev (takeWhile (\<lambda>b. fst b < blk) fs),
      (case dropWhile (\<lambda>b. fst b < blk) fs of [] \<Rightarrow> nullptr | b # _ \<Rightarrow> fst b))"
  using assms
proof (induction fs arbitrary: prev cur)
  case Nil
  then show ?case by (simp add: insert_position.simps prev_of_def)
next
  case (Cons b fs)
  obtain q n where b: "b = (q, n)" by (cases b)
  have q: "cur = q" "q \<noteq> nullptr" "seg m (block_next m q) fs nullptr" using Cons.prems b by auto
  show ?case
  proof (cases "q < blk")
    case True
    have "insert_position m blk prev cur = insert_position m blk q (block_next m q)"
      using True q by (subst insert_position.simps) simp
    with Cons.IH[OF q(3), of q] True b show ?thesis by (simp add: prev_of_def)
  qed (use q b in \<open>simp add: insert_position.simps prev_of_def\<close>)
qed

subsection \<open>Giving a block back\<close>

text \<open>The free list part of a deallocation: write the block's node, find its place, and link it in.\<close>

definition link_block :: "addr \<Rightarrow> size_t \<Rightarrow> memory \<Rightarrow> addr \<Rightarrow> (memory \<times> addr) option" where
  "link_block blockAddr totalSize m freeList =
     (let m1 = set_block_next blockAddr nullptr (set_block_size blockAddr totalSize m)
      in map_option (\<lambda>(prevBlock, currentBlock).
           let (m2, freeList') = relink prevBlock blockAddr (m1, freeList)
           in (set_block_next blockAddr currentBlock m2, freeList'))
         (insert_position m1 blockAddr nullptr freeList))"

lemma FreeList_Deallocate_link:
  assumes "ptr \<noteq> nullptr" and "fl_buffer a \<noteq> nullptr"
  shows "FreeList_Deallocate ptr a =
    (let m = fl_mem a; header = ptr - headerSize;
         totalSize = headerSize + header_padding m header + header_size m header;
         blockAddr = ptr - headerSize - header_padding m header
     in Option.bind (link_block blockAddr totalSize m (fl_freeList a)) (\<lambda>(m3, freeList).
          let a1 = RecordDealloc (header_size m3 header) (a\<lparr>fl_mem := m3, fl_freeList := freeList\<rparr>)
          in map_option (\<lambda>m4. a1\<lparr>fl_mem := m4\<rparr>) (CoalesceFreeBlocks m3 freeList)))"
  using assms by (auto simp: FreeList_Deallocate_def link_block_def Let_def split: option.splits prod.splits)

definition insert_block :: "block \<Rightarrow> block list \<Rightarrow> block list" where
  "insert_block b fs = takeWhile (\<lambda>c. fst c < fst b) fs @ b # dropWhile (\<lambda>c. fst c < fst b) fs"

lemma set_insert_block [simp]: "set (insert_block b fs) = insert b (set fs)"
  unfolding insert_block_def by (metis Un_insert_right list.simps(15) set_append takeWhile_dropWhile_id)

lemma insert_block_ordered:
  assumes sp: "spaced fs" and ok: "\<forall>c\<in>set fs. node_ok c" and ap: "\<forall>c\<in>set fs. apart b c"
  shows "ordered (insert_block b fs)"
proof -
  let ?pre = "takeWhile (\<lambda>c. fst c < fst b) fs" and ?post = "dropWhile (\<lambda>c. fst c < fst b) fs"
  have fs: "fs = ?pre @ ?post" by simp
  have sp': "spaced (?pre @ ?post)" using sp by simp
  have ord: "ordered ?pre" "ordered ?post" "\<forall>c\<in>set ?pre. \<forall>d\<in>set ?post. unat (fst c) + snd c < unat (fst d)"
    using iffD1[OF spaced_append sp'] iffD1[OF ordered_append spaced_ordered[OF sp']] by blast+
  have pre: "unat (fst c) + snd c \<le> unat (fst b)" if "c \<in> set ?pre" for c
  proof -
    have "fst c < fst b" "c \<in> set fs" using set_takeWhileD[OF that] by auto
    then show ?thesis using ap by (auto simp: apart_def word_less_nat_alt)
  qed
  have post: "unat (fst b) + snd b \<le> unat (fst c)" if c: "c \<in> set ?post" for c
  proof -
    have cf: "c \<in> set fs" using c by (rule set_dropWhileD)
    obtain d rest where d: "?post = d # rest" using c by (cases ?post) auto
    have "\<not> fst d < fst b" using dropWhile_split(2)[OF d] .
    moreover have "c = d \<or> unat (fst d) + snd d \<le> unat (fst c)" using ord(2) c d by (auto simp: ordered_def)
    ultimately have "unat (fst b) \<le> unat (fst c)" by (auto simp: word_less_nat_alt)
    moreover have "apart b c" "16 \<le> snd c" using ap ok cf by (auto simp: node_ok_def)
    ultimately show ?thesis by (auto simp: apart_def)
  qed
  show ?thesis
    unfolding insert_block_def ordered_def using ord pre post
    by (auto simp: sorted_wrt_append ordered_def intro: less_imp_le order.trans)
qed

lemma link_block_spec:
  assumes s: "seg m fl fs nullptr" and sp: "spaced fs" and ok: "\<forall>c\<in>set fs. node_ok c"
    and okb: "node_ok b" and ap: "\<forall>c\<in>set fs. apart b c" and q: "fst b \<noteq> nullptr" and t: "unat t = snd b"
  shows "\<exists>m' fl'. link_block (fst b) t m fl = Some (m', fl') \<and> seg m' fl' (insert_block b fs) nullptr
    \<and> same_on (- nodes fs - node b) m m' \<and> block_size m' (fst b) = t"
proof -
  obtain q n where b: "b = (q, n)" by (cases b)
  let ?pre = "takeWhile (\<lambda>c. fst c < fst b) fs" and ?post = "dropWhile (\<lambda>c. fst c < fst b) fs"
  let ?m1 = "set_block_next q nullptr (set_block_size q t m)"
  let ?cur = "case ?post of [] \<Rightarrow> nullptr | c # _ \<Rightarrow> fst c"
  have okq: "node_ok (q, n)" using okb b by simp
  have fs: "fs = ?pre @ ?post" by simp
  have okpre: "\<forall>c\<in>set ?pre. node_ok c" and okpost: "\<forall>c\<in>set ?post. node_ok c"
    using ok by (auto dest: set_takeWhileD set_dropWhileD)
  have ordfs: "ordered (?pre @ ?post)" using spaced_ordered[OF sp] by simp
  then have ordpre: "ordered ?pre" unfolding ordered_append by blast
  have dis: "nodes fs \<inter> node b = {}"
  proof -
    have "node c \<inter> node b = {}" if "c \<in> set fs" for c
      using ap ok okb that by (fastforce simp: apart_def node_def node_ok_def)
    then show ?thesis by (auto simp: nodes_def)
  qed
  have nfs: "nodes fs = nodes ?pre \<union> nodes ?post" by (subst fs) (simp only: nodes_simps)
  have dpp: "nodes ?post \<inter> nodes ?pre = {}"
    by (rule ordered_nodes_disjoint[OF ordfs okpre])
  have fr1: "same_on R m ?m1" if "R \<inter> node b = {}" for R
    using same_on_trans[OF set_size_frame set_next_frame] okq that b by blast
  have s1: "seg ?m1 fl (?pre @ ?post) nullptr" using seg_cong[OF s ok fr1[OF dis]] by simp
  then obtain c where c: "seg ?m1 fl ?pre c" "seg ?m1 c ?post nullptr" by (auto simp only: seg_append)
  have cur: "?cur = c" by (rule seg_head[OF c(2)])
  obtain m2 fl' where rl: "relink (prev_of nullptr ?pre) q (?m1, fl) = (m2, fl')"
    by (cases "relink (prev_of nullptr ?pre) q (?m1, fl)")
  note r = relink_seg[OF c(1) okpre ordpre rl]
  let ?m3 = "set_block_next q c m2"
  have run: "link_block (fst b) t m fl = Some (?m3, fl')"
    using insert_position_spec[OF s1[folded fs], of q nullptr] rl cur b
    by (simp add: link_block_def Let_def)
  have dpre: "nodes ?pre \<inter> node (q, n) = {}" and dpost: "nodes ?post \<inter> node (q, n) = {}"
    using dis nfs b by auto
  have "seg ?m3 fl' ?pre q"
    by (rule seg_cong[OF r(1) okpre set_next_frame[OF okq dpre]])
  moreover have "seg ?m3 c ?post nullptr"
    by (rule seg_cong[OF c(2) okpost same_on_trans[OF same_on_subset[OF r(2)] set_next_frame[OF okq dpost]]])
       (use dpp in auto)
  moreover have sz: "block_size ?m3 q = t"
  proof -
    have "same_on (node (q, n)) ?m1 m2" by (rule same_on_subset[OF r(2)]) (use dpre in auto)
    then show ?thesis using fields_cong(1)[OF okq] fields_after_write[OF okq] by simp
  qed
  ultimately have "seg ?m3 fl' (insert_block b fs) nullptr"
    using q t b fields_after_write(1)[OF okq] by (auto simp: insert_block_def seg_append)
  moreover have "same_on (- nodes fs - node b) m ?m3"
    by (rule same_on_trans[OF same_on_trans[OF fr1 same_on_subset[OF r(2)]] set_next_frame[OF okq]])
       (use nfs b in auto)
  ultimately show ?thesis using run sz b by auto
qed

lemma free_list_deallocate:
  assumes h: "free_list_holds buf cap (xs @ (p, n) # ys) a" and s: "seg (fl_mem a) (fl_freeList a) fs nullptr"
    and arena: "arena_ok buf cap (xs @ (p, n) # ys) (fl_mem a) fs"
  defines "fs' \<equiv> merge_adjacent (insert_block (occupied (fl_mem a) (p, n)) fs)"
  obtains a' where "FreeList_Deallocate p a = Some a'" "seg (fl_mem a') (fl_freeList a') fs' nullptr"
    "arena_ok buf cap (xs @ ys) (fl_mem a') fs'"
    "same_on (\<Union>c\<in>set (xs @ ys). bytes_of (occupied (fl_mem a) c)) (fl_mem a) (fl_mem a')"
    "fl_buffer a' = fl_buffer a"
    "header_padding (fl_mem a) (p - 16) = 0 \<Longrightarrow> m_currentUsage a' = m_currentUsage a - (16 + of_nat n)"
proof -
  let ?m = "fl_mem a" and ?b = "occupied (fl_mem a) (p, n)" and ?live = "xs @ ys"
  let ?pd = "header_padding ?m (p - 16)" and ?sz = "header_size ?m (p - 16)"
  have buf: "fl_buffer a = buf" "buf \<noteq> nullptr" "unat buf + unat cap \<le> 2 ^ 63" using h by (auto simp: free_list_holds_def)
  have ok: "\<forall>c\<in>set fs. node_ok c" and sp: "spaced fs" and lp: "live_ok (unat buf) ?m (p, n)"
    and live: "\<forall>c\<in>set ?live. live_ok (unat buf) ?m c" using arena by (auto simp: arena_ok_def)
  have sep: "separated (map (occupied ?m) ?live @ fs)" "\<forall>c\<in>set (map (occupied ?m) ?live @ fs). apart ?b c"
    using arena by (auto simp: arena_ok_def separated_append apart_sym[of _ ?b])
  have bnd: "unat buf \<le> unat (fst ?b)" "unat (fst ?b) + snd ?b \<le> unat buf + unat cap"
    "\<forall>c\<in>set (map (occupied ?m) ?live @ fs). unat buf \<le> unat (fst c) \<and> unat (fst c) + snd c \<le> unat buf + unat cap"
    using arena by (auto simp: arena_ok_def)
  have okb: "node_ok ?b" using bnd buf(3) by (auto simp: node_ok_def occupied_def)
  have szn: "?sz = of_nat n" "unat ?sz = n" using lp by (auto simp: live_ok_def)
  have tot: "unat (16 + ?pd + ?sz) = snd ?b"
    using lp live_layout(4)[OF lp] okb szn(2)
    by (subst unat_add_nowrap64; subst unat_add_nowrap64) (auto simp: occupied_def node_ok_def live_ok_def)
  have nn: "fst ?b \<noteq> nullptr" "p \<noteq> nullptr"
    using bnd(1) buf(2) lp by (auto simp: nullptr_def unat_eq_0 live_ok_def)
  obtain m3 fl' where l: "link_block (fst ?b) (16 + ?pd + ?sz) ?m (fl_freeList a) = Some (m3, fl')"
      "seg m3 fl' (insert_block ?b fs) nullptr" "same_on (- nodes fs - node ?b) ?m m3" "block_size m3 (fst ?b) = 16 + ?pd + ?sz"
    using link_block_spec[OF s sp ok okb _ nn(1) tot] sep(2) by auto
  have ins: "ordered (insert_block ?b fs)" "\<forall>c\<in>set (insert_block ?b fs). node_ok c"
    using insert_block_ordered[OF sp ok] sep(2) ok okb by auto
  obtain m4 where c: "CoalesceFreeBlocks m3 fl' = Some m4" "seg m4 fl' fs' nullptr"
      "same_on (- nodes (insert_block ?b fs)) m3 m4"
    using CoalesceFreeBlocks_spec[OF l(2) ins(2,1)] by (auto simp: fs'_def)
  have nb: "nodes (insert_block ?b fs) = nodes fs \<union> node ?b" by (auto simp: nodes_def)
  let ?a' = "(RecordDealloc (header_size m3 (p - 16)) (a\<lparr>fl_mem := m3, fl_freeList := fl'\<rparr>))\<lparr>fl_mem := m4\<rparr>"
  have run: "FreeList_Deallocate p a = Some ?a'"
    using l(1) c(1) nn(2) buf by (simp add: FreeList_Deallocate_link Let_def headerSize_def occupied_def)
  have ap: "apart (occupied ?m c) d" if "c \<in> set ?live" "d \<in> insert ?b (set fs)" for c d
    using sep that by (auto simp: separated_append apart_sym[of _ ?b])
  have "bytes_of (occupied ?m c) \<inter> (nodes fs \<union> node ?b) = {}" if "c \<in> set ?live" for c
  proof -
    have "bytes_of (occupied ?m c) \<inter> bytes_of d = {}" if "d \<in> insert ?b (set fs)" for d
      using apart_bytes[OF ap[OF \<open>c \<in> set ?live\<close> that]] .
    then show ?thesis using node_subset ok okb by (fastforce simp: nodes_def)
  qed
  then have same: "same_on (\<Union>c\<in>set ?live. bytes_of (occupied ?m c)) ?m m4"
    by (intro same_on_trans[OF same_on_subset[OF l(3)] same_on_subset[OF c(3)]]) (auto simp: nb)
  note lf = live_frame[OF live same]
  have "\<forall>d\<in>set fs'. apart (occupied ?m c) d" if "c \<in> set ?live" for c
    unfolding fs'_def
  proof (rule merge_adjacent_apart)
    show "0 < snd (occupied ?m c)" by (simp add: occupied_def)
    show "\<forall>d\<in>set (insert_block ?b fs). apart (occupied ?m c) d" using ap[OF that] by simp
  qed
  then have "separated (map (occupied ?m) ?live @ fs')"
    using sep(1) spaced_separated[OF merge_adjacent_spaced[OF ins(1)]] by (auto simp: separated_append fs'_def)
  moreover have "\<forall>d\<in>set fs'. unat buf \<le> unat (fst d) \<and> unat (fst d) + snd d \<le> unat buf + unat cap"
    unfolding fs'_def by (rule merge_adjacent_all) (use bnd in auto)
  ultimately have arena': "arena_ok buf cap ?live m4 fs'"
    unfolding arena_ok_def lf(1)
    using lf(2) bnd(3) merge_adjacent_spaced[OF ins(1)] merge_adjacent_node_ok[OF ins(2)] by (auto simp: fs'_def)
  show ?thesis
  proof (rule that[OF run])
    assume "?pd = 0"
    then have "header_size m3 (p - 16) = 16 + of_nat n"
      using l(4) szn(1) by (simp add: occupied_def header_size_def block_size_def)
    then show "m_currentUsage ?a' = m_currentUsage a - (16 + of_nat n)" by (simp add: RecordDealloc_def)
  qed (use c(2) arena' same in \<open>simp_all add: RecordDealloc_def\<close>)
qed

subsection \<open>The contract\<close>

lemma free_list_holds_store:
  assumes h: "free_list_holds buf cap live a" and b: "b \<in> set live" and x: "in_block x b"
  shows "free_list_holds buf cap live (free_list_store x v a)"
proof -
  from h obtain fs where f: "fl_buffer a = buf" "buf \<noteq> nullptr" "unat buf + unat cap \<le> 2 ^ 63"
    "seg (fl_mem a) (fl_freeList a) fs nullptr" "arena_ok buf cap live (fl_mem a) fs" by (rule holdsE)
  let ?m = "fl_mem a" and ?m' = "(fl_mem a)(x := v)"
  have ok: "\<forall>c\<in>set live. live_ok (unat buf) ?m c" "separated (map (occupied ?m) live)" "\<forall>c\<in>set fs. node_ok c"
    using f(5) by (auto simp: arena_ok_def separated_append)
  have lb: "live_ok (unat buf) ?m (fst b, snd b)" using ok(1) b by simp
  have xb: "unat x \<in> bytes_of (occupied ?m b)" using x live_layout(5)[OF lb] by (force simp: in_block_def)
  have "same_on (nodes fs) ?m ?m'"
    using arena_disjoint[OF f(5) b] xb node_subset ok(3) by (fastforce simp: same_on_def nodes_def)
  then have s: "seg ?m' (fl_freeList a) fs nullptr" by (rule seg_cong[OF f(4) ok(3)])
  have hdr: "header_size ?m' (fst c - 16) = header_size ?m (fst c - 16)
      \<and> header_padding ?m' (fst c - 16) = header_padding ?m (fst c - 16)" if "c \<in> set live" for c
  proof -
    obtain i j where ij: "i < length live" "live ! i = c" "j < length live" "live ! j = b"
      using \<open>c \<in> set live\<close> b by (auto simp: in_set_conv_nth)
    have lc: "live_ok (unat buf) ?m (fst c, snd c)" using ok(1) that by simp
    note ll = live_layout[OF lc]
    have "unat x < unat (fst c - 16) \<or> unat (fst c - 16) + 16 \<le> unat x"
    proof (cases "i = j")
      case True
      then show ?thesis using ij x ll(2) by (auto simp: in_block_def)
    next
      case False
      then have "unat x \<notin> bytes_of (occupied ?m c)"
        using separated_nth[OF ok(2), of i j] ij apart_bytes[of "occupied ?m c" "occupied ?m b"] xb by auto
      then have "unat x \<notin> {unat (fst c) - 16..<unat (fst c) + snd c}" using ll(5) by auto
      then show ?thesis using ll(1,2) by auto
    qed
    moreover have "unat (fst c - 16) + 16 \<le> 2 ^ 64" unfolding ll(2) using unat_lt_word[of "fst c"] by simp
    ultimately show ?thesis using header_store_outside by simp
  qed
  then have "map (occupied ?m') live = map (occupied ?m) live" "\<forall>c\<in>set live. live_ok (unat buf) ?m' c"
    using ok(1) by (simp_all add: occupied_def live_ok_def)
  then have "arena_ok buf cap live ?m' fs" using f(5) unfolding arena_ok_def by metis
  with s f show ?thesis by (auto simp: free_list_holds_def free_list_store_def)
qed

lemma live_data: "live_ok base m b \<Longrightarrow> in_block x b \<Longrightarrow> unat x \<in> bytes_of (occupied m b)"
  using live_layout(5)[of base m "fst b" "snd b"] by (force simp: in_block_def)

lemma free_list_allocate_step:
  assumes h: "free_list_holds buf cap live a" and r: "sane_request sz al" and run: "FreeList_Allocate sz al a = Some (p, a')"
  shows "p = nullptr \<Longrightarrow> a' = a"
    and "p \<noteq> nullptr \<Longrightarrow> free_list_holds buf cap ((p, unat sz) # live) a' \<and> unat al dvd unat p"
    and "b \<in> set live \<Longrightarrow> in_block x b \<Longrightarrow> fl_mem a' x = fl_mem a x"
proof -
  from h obtain fs where f: "seg (fl_mem a) (fl_freeList a) fs nullptr" "arena_ok buf cap live (fl_mem a) fs" by (rule holdsE)
  have live: "\<forall>c\<in>set live. live_ok (unat buf) (fl_mem a) c" using f(2) by (simp add: arena_ok_def)
  show "p = nullptr \<Longrightarrow> a' = a"
    by (cases rule: free_list_allocate_cases[OF h f r]) (use run in auto)
  show "p \<noteq> nullptr \<Longrightarrow> free_list_holds buf cap ((p, unat sz) # live) a' \<and> unat al dvd unat p"
    by (cases rule: free_list_allocate_cases[OF h f r]) (use run h in \<open>auto simp: free_list_holds_def\<close>)
  show "fl_mem a' x = fl_mem a x" if "b \<in> set live" "in_block x b"
    by (cases rule: free_list_allocate_cases[OF h f r])
       (use run that live live_data[of "unat buf" "fl_mem a" b x] in \<open>auto simp: same_on_def\<close>)
qed

lemma free_list_deallocate_step:
  assumes h: "free_list_holds buf cap (xs @ (p, n) # ys) a"
  shows "\<exists>a'. FreeList_Deallocate p a = Some a' \<and> free_list_holds buf cap (xs @ ys) a'"
    and "FreeList_Deallocate p a = Some a' \<Longrightarrow> b \<in> set (xs @ ys) \<Longrightarrow> in_block x b \<Longrightarrow> fl_mem a' x = fl_mem a x"
proof -
  from h obtain fs where f: "seg (fl_mem a) (fl_freeList a) fs nullptr"
    "arena_ok buf cap (xs @ (p, n) # ys) (fl_mem a) fs" by (rule holdsE)
  have live: "\<forall>c\<in>set (xs @ ys). live_ok (unat buf) (fl_mem a) c" using f(2) by (simp add: arena_ok_def)
  obtain a1 where a1: "FreeList_Deallocate p a = Some a1"
    "seg (fl_mem a1) (fl_freeList a1) (merge_adjacent (insert_block (occupied (fl_mem a) (p, n)) fs)) nullptr"
    "arena_ok buf cap (xs @ ys) (fl_mem a1) (merge_adjacent (insert_block (occupied (fl_mem a) (p, n)) fs))"
    "same_on (\<Union>c\<in>set (xs @ ys). bytes_of (occupied (fl_mem a) c)) (fl_mem a) (fl_mem a1)" "fl_buffer a1 = fl_buffer a"
    by (rule free_list_deallocate[OF h f])
  then show "\<exists>a'. FreeList_Deallocate p a = Some a' \<and> free_list_holds buf cap (xs @ ys) a'"
    using h by (auto simp: free_list_holds_def)
  show "FreeList_Deallocate p a = Some a' \<Longrightarrow> b \<in> set (xs @ ys) \<Longrightarrow> in_block x b \<Longrightarrow> fl_mem a' x = fl_mem a x"
    using a1(1,4) live live_data[of "unat buf" "fl_mem a" b x] unfolding same_on_def by auto
qed

interpretation free_list: arena_allocator FreeList_Allocate FreeList_Deallocate free_list_load free_list_store
    sane_request "free_list_holds buf cap" "unat buf" "unat cap" for buf :: addr and cap :: size_t
proof (unfold_locales, goal_cases)
  case (1 live s)
  then show ?case by (simp add: free_list_holds_def)
next
  case (2 x y v s)
  then show ?case by (simp add: free_list_load_def free_list_store_def)
next
  case (3 live s sz al)
  from 3(1) obtain fs where f: "seg (fl_mem s) (fl_freeList s) fs nullptr" "arena_ok buf cap live (fl_mem s) fs"
    by (rule holdsE)
  show ?case by (cases rule: free_list_allocate_cases[OF 3(1) f 3(2)]) auto
next
  case (4 live s sz al s')
  then show ?case using free_list_allocate_step(1) by blast
next
  case (5 live s sz al p s')
  then show ?case using free_list_allocate_step(2) by blast
next
  case (6 live s sz al p s' b x)
  then show ?case using free_list_allocate_step(3)[OF 6(1-3)] by (simp add: free_list_load_def)
next
  case (7 xs p n ys s)
  then show ?case by (rule free_list_deallocate_step(1))
next
  case (8 xs p n ys s s' b x)
  then show ?case using free_list_deallocate_step(2)[OF 8(1)] by (simp add: free_list_load_def)
next
  case (9 live s b x v)
  then show ?case by (rule free_list_holds_store)
next
  case (10 live s)
  then obtain fs where a: "arena_ok buf cap live (fl_mem s) fs" by (rule holdsE)
  have w: "within b (occupied (fl_mem s) b)" if "b \<in> set live" for b
    using live_layout(3,4)[of "unat buf" "fl_mem s" "fst b" "snd b"] a that by (auto simp: arena_ok_def within_def)
  have "separated (map (occupied (fl_mem s)) live)" using a by (simp add: arena_ok_def separated_append)
  then show ?case using w separated_within by blast
next
  case (11 live s p n)
  from 11(1) obtain fs where a: "buf \<noteq> nullptr" "arena_ok buf cap live (fl_mem s) fs" by (rule holdsE)
  then have l: "live_ok (unat buf) (fl_mem s) (p, n)" and o: "unat (fst (occupied (fl_mem s) (p, n)))
      + snd (occupied (fl_mem s) (p, n)) \<le> unat buf + unat cap" using 11(2) by (force simp: arena_ok_def)+
  then show ?case using live_layout(4)[OF l] a(1) by (auto simp: live_ok_def nullptr_def unat_eq_0)
qed

subsection \<open>The free list as a list\<close>

partial_function (option) walk_free :: "memory \<Rightarrow> addr \<Rightarrow> block list option" where
  "walk_free m p =
     (if p = nullptr then Some []
      else Option.bind (walk_free m (block_next m p)) (\<lambda>fs. Some ((p, unat (block_size m p)) # fs)))"

declare walk_free.simps [code]

definition free_blocks :: "CFreeListAllocator \<Rightarrow> block list option" where
  "free_blocks a = walk_free (fl_mem a) (fl_freeList a)"

lemma walk_free_seg: "seg m p fs nullptr \<Longrightarrow> walk_free m p = Some fs"
proof (induction fs arbitrary: p)
  case Nil
  then show ?case by (subst walk_free.simps) simp
next
  case (Cons b fs)
  then show ?case by (cases b; subst walk_free.simps) auto
qed

text \<open>First fit on a list of free blocks: the address handed out and the list that is left.\<close>

definition abs_allocate :: "size_t \<Rightarrow> size_t \<Rightarrow> block list \<Rightarrow> (addr \<times> block list) option" where
  "abs_allocate sz al fs =
     (if sz = 0 then None
      else case dropWhile (\<lambda>b. \<not> fits sz al b) fs of
             [] \<Rightarrow> None
           | b # post \<Rightarrow> Some (block_aligned al (fst b), takeWhile (\<lambda>b. \<not> fits sz al b) fs @ remainder sz al b @ post))"

lemma abs_allocate_block:
  assumes "sz \<noteq> 0" and "\<forall>c\<in>set pre. \<not> fits sz al c" and "fits sz al b"
  shows "abs_allocate sz al (pre @ b # post) = Some (block_aligned al (fst b), pre @ remainder sz al b @ post)"
  using assms by (simp add: abs_allocate_def takeWhile_append dropWhile_append)

lemma abs_allocate_none:
  assumes "sz = 0 \<or> (\<forall>b\<in>set fs. \<not> fits sz al b)" shows "abs_allocate sz al fs = None"
proof (cases "sz = 0")
  case False
  with assms have "dropWhile (\<lambda>b. \<not> fits sz al b) fs = []" by simp
  then show ?thesis by (simp add: abs_allocate_def del: dropWhile_eq_Nil_conv)
qed (simp add: abs_allocate_def)

lemma merge_adjacent_id: "spaced fs \<Longrightarrow> merge_adjacent fs = fs"
  by (induction fs rule: merge_adjacent.induct) (auto simp: spaced_def)

lemma merge_adjacent_middle:
  assumes "unat q + n = unat q'" and "spaced (xs @ (q, n + n') # ys)"
  shows "merge_adjacent (xs @ (q, n) # (q', n') # ys) = xs @ (q, n + n') # ys"
  using assms(2)
proof (induction xs)
  case Nil
  then show ?case using assms(1) merge_adjacent_id by simp
next
  case (Cons x xs)
  obtain a b where x: "x = (a, b)" by (cases x)
  from Cons have IH: "merge_adjacent (xs @ (q, n) # (q', n') # ys) = xs @ (q, n + n') # ys" by (simp add: spaced_def)
  show ?case
  proof (cases xs)
    case Nil
    have "unat a + b < unat q" using Cons.prems x Nil by (auto simp: spaced_def)
    then show ?thesis using IH x Nil by simp
  next
    case (Cons y zs)
    have "unat a + b < unat (fst y)" using Cons.prems x Cons by (auto simp: spaced_def)
    then show ?thesis using IH x Cons by (cases y) simp
  qed
qed

lemma insert_block_middle:
  assumes "\<forall>c\<in>set pre. fst c < fst b" and "\<forall>c\<in>set post. \<not> fst c < fst b"
  shows "insert_block b (pre @ post) = pre @ b # post"
  using assms by (cases post) (auto simp: insert_block_def)

lemma free_list_ctor_holds:
  assumes "16 \<le> unat cap" and "buf \<noteq> nullptr" and "unat buf + unat cap \<le> 2 ^ 63"
  shows "free_list_holds buf cap [] (CFreeListAllocator_ctor cap buf mem)"
    and "free_blocks (CFreeListAllocator_ctor cap buf mem) = Some [(buf, unat cap)]"
proof -
  let ?a = "CFreeListAllocator_ctor cap buf mem"
  have ok: "node_ok (buf, unat cap)" using assms by (simp add: node_ok_def)
  have "0 < cap" using assms(1) by (auto simp: word_less_nat_alt)
  then have a: "fl_buffer ?a = buf" "fl_freeList ?a = buf"
    "fl_mem ?a = set_block_next buf nullptr (set_block_size buf cap mem)"
    using assms(2) by (simp_all add: CFreeListAllocator_ctor_def Let_def)
  have s: "seg (fl_mem ?a) (fl_freeList ?a) [(buf, unat cap)] nullptr"
    using fields_after_write[OF ok] assms(2) by (simp add: a)
  moreover have "arena_ok buf cap [] (fl_mem ?a) [(buf, unat cap)]" using ok by (simp add: arena_ok_def spaced_def)
  ultimately show "free_list_holds buf cap [] ?a"
    using assms(2,3) a(1) unfolding free_list_holds_def by blast
  show "free_blocks ?a = Some [(buf, unat cap)]" using walk_free_seg[OF s] by (simp add: free_blocks_def)
qed

subsection \<open>Properties\<close>

text \<open>
  C7. The free list allocator serves any client: over a buffer of at least sixteen bytes, every sequence of
  allocations, deallocations in any order and writes is carried out (no walk over the list runs forever), and the
  blocks handed out are aligned, inside the buffer, disjoint, and keep what the client wrote, although headers and
  free list live in the same memory.
\<close>

theorem free_list_blocks_are_separate_arrays:
  assumes "16 \<le> unat cap" and "buf \<noteq> nullptr" and "unat buf + unat cap \<le> 2 ^ 63"
    and "\<forall>op\<in>set ops. op_accepted sane_request op"
  shows "\<exists>c. run_ops FreeList_Allocate FreeList_Deallocate free_list_store ops ([], CFreeListAllocator_ctor cap buf mem) = Some c
    \<and> client_view (unat buf) (unat cap) free_list_load c"
  using free_list.client_safe[OF free_list_ctor_holds(1)[OF assms(1-3)] assms(4)] .

theorem free_list_blocks_are_separate_arrays_witness:
  "\<exists>c. run_ops FreeList_Allocate FreeList_Deallocate free_list_store
       [Op_Allocate 24 16, Op_Store 0 3 7, Op_Allocate 100 64, Op_Deallocate 1, Op_Allocate 8 8]
       ([], CFreeListAllocator_ctor 4096 65536 (\<lambda>_. 0)) = Some c
     \<and> client_view 65536 4096 free_list_load c"
  using free_list_blocks_are_separate_arrays[of 4096 65536
      "[Op_Allocate 24 16, Op_Store 0 3 7, Op_Allocate 100 64, Op_Deallocate 1, Op_Allocate 8 8]" "\<lambda>_. 0"]
  by (simp add: nullptr_def sane_request_def is_pow2_def upt_rec)

text \<open>
  C8. The pointer structure refines a list of free blocks in the order of their addresses, no two of them adjacent:
  allocation takes the first block of the list that fits and puts back what is left of it if that is more than
  sixteen bytes, and fails only if no block fits; deallocation puts the block with its header and padding
  back in its place and merges it with its neighbours.
\<close>

theorem free_list_refines_first_fit:
  assumes h: "free_list_holds buf cap live a" and r: "sane_request sz al"
  shows "\<exists>fs. free_blocks a = Some fs \<and> spaced fs
    \<and> (case abs_allocate sz al fs of
         None \<Rightarrow> FreeList_Allocate sz al a = Some (nullptr, a)
       | Some (p, fs') \<Rightarrow> \<exists>a'. FreeList_Allocate sz al a = Some (p, a') \<and> p \<noteq> nullptr \<and> free_blocks a' = Some fs')
    \<and> (\<forall>(q, n)\<in>set live. \<exists>a'. FreeList_Deallocate q a = Some a'
         \<and> free_blocks a' = Some (merge_adjacent (insert_block (occupied (fl_mem a) (q, n)) fs)))"
proof -
  from h obtain fs where f: "seg (fl_mem a) (fl_freeList a) fs nullptr" "arena_ok buf cap live (fl_mem a) fs"
    by (rule holdsE)
  have "case abs_allocate sz al fs of
         None \<Rightarrow> FreeList_Allocate sz al a = Some (nullptr, a)
       | Some (p, fs') \<Rightarrow> \<exists>a'. FreeList_Allocate sz al a = Some (p, a') \<and> p \<noteq> nullptr \<and> free_blocks a' = Some fs'"
    using h f r
  proof (cases rule: free_list_allocate_cases)
    case null
    then show ?thesis using abs_allocate_none[OF null(2)] by simp
  next
    case (block pre b post p a')
    then show ?thesis
      using abs_allocate_block[OF block(2,4,3), of post] walk_free_seg[OF block(9)] by (simp add: free_blocks_def)
  qed
  moreover have "\<exists>a'. FreeList_Deallocate q a = Some a'
      \<and> free_blocks a' = Some (merge_adjacent (insert_block (occupied (fl_mem a) (q, n)) fs))" if qn: "(q, n) \<in> set live" for q n
  proof -
    obtain xs ys where l: "live = xs @ (q, n) # ys" using split_list[OF qn] by blast
    obtain a' where "FreeList_Deallocate q a = Some a'"
      "seg (fl_mem a') (fl_freeList a') (merge_adjacent (insert_block (occupied (fl_mem a) (q, n)) fs)) nullptr"
      by (rule free_list_deallocate[OF h[unfolded l] f(1) f(2)[unfolded l]])
    then show ?thesis using walk_free_seg by (auto simp: free_blocks_def)
  qed
  moreover have "spaced fs" using f(2) by (simp add: arena_ok_def)
  ultimately show ?thesis using walk_free_seg[OF f(1)] by (auto simp: free_blocks_def)
qed

theorem free_list_refines_first_fit_witness:
  "case abs_allocate 24 16 [(65536, 4096)] of
     None \<Rightarrow> False
   | Some (p, fs') \<Rightarrow> \<exists>a'. FreeList_Allocate 24 16 (CFreeListAllocator_ctor 4096 65536 (\<lambda>_. 0)) = Some (p, a') \<and> free_blocks a' = Some fs'"
proof -
  have h: "free_list_holds 65536 4096 [] (CFreeListAllocator_ctor 4096 65536 (\<lambda>_. 0))"
    and f: "free_blocks (CFreeListAllocator_ctor 4096 65536 (\<lambda>_. 0)) = Some [(65536, 4096)]"
    using free_list_ctor_holds[of 4096 65536 "\<lambda>_. 0"] by (simp_all add: nullptr_def)
  have r: "sane_request 24 16" by (simp add: sane_request_def is_pow2_def upt_rec)
  have "fits 24 16 (65536, 4096)"
    by (simp add: fits_def block_total_def block_padding_def block_aligned_def align_up_def headerSize_def)
  then show ?thesis
    using free_list_refines_first_fit[OF h r] f abs_allocate_block[of 24 "[]" 16 "(65536, 4096)" "[]"] by auto
qed

text \<open>
  Freeing a block right after it was allocated restores the free list, except when the block took a free
  block whole although up to sixteen bytes of it were left over: those bytes are in no header, so they are lost for
  good.
\<close>

theorem free_list_leaks_remainder:
  assumes h: "free_list_holds buf cap live a" and r: "sane_request sz al" and fs: "free_blocks a = Some fs"
    and run: "FreeList_Allocate sz al a = Some (p, a')" and p: "p \<noteq> nullptr"
  shows "\<exists>pre q n post a''. fs = pre @ (q, n) # post \<and> FreeList_Deallocate p a' = Some a''
    \<and> (let t = unat (block_total sz al q)
       in t \<le> n \<and> free_blocks a'' = Some (pre @ (q, if n - t > 16 then n else t) # post))"
proof -
  from h obtain fs1 where f: "seg (fl_mem a) (fl_freeList a) fs1 nullptr" "arena_ok buf cap live (fl_mem a) fs1"
    by (rule holdsE)
  have fs1: "fs1 = fs" using walk_free_seg[OF f(1)] fs by (simp add: free_blocks_def)
  from h f r obtain pre b post where blk: "fs = pre @ b # post" "fits sz al b"
      "seg (fl_mem a') (fl_freeList a') (pre @ remainder sz al b @ post) nullptr"
      "arena_ok buf cap ((p, unat sz) # live) (fl_mem a') (pre @ remainder sz al b @ post)"
      "occupied (fl_mem a') (p, unat sz) = (fst b, unat (block_total sz al (fst b)))"
    by (cases rule: free_list_allocate_cases) (use run p fs1 in auto)
  obtain q n where b: "b = (q, n)" by (cases b)
  let ?t = "unat (block_total sz al q)" and ?fs' = "pre @ remainder sz al b @ post"
  have h': "free_list_holds buf cap ([] @ (p, unat sz) # live) a'" using free_list_allocate_step(2)[OF h r run p] by simp
  obtain a'' where d: "FreeList_Deallocate p a' = Some a''"
      "seg (fl_mem a'') (fl_freeList a'') (merge_adjacent (insert_block (q, ?t) ?fs')) nullptr"
    using free_list_deallocate[OF h' blk(3)] blk(4,5) b by (metis append_Nil fst_conv)
  have sp: "spaced (pre @ (q, n) # post)" and okb: "node_ok b" using f(2) blk(1) b fs1 by (auto simp: arena_ok_def)
  note rem = remainder_ok[OF r okb blk(2)]
  have "\<forall>c\<in>set pre. fst c < fst (q, ?t)" using sp by (auto simp: spaced_append word_less_nat_alt)
  moreover have "\<forall>c\<in>set (remainder sz al b @ post). \<not> fst c < fst (q, ?t)"
    using sp rem(3) b by (fastforce simp: spaced_def sorted_wrt_append word_less_nat_alt)
  ultimately have ins: "insert_block (q, ?t) ?fs' = pre @ (q, ?t) # remainder sz al b @ post"
    by (rule insert_block_middle)
  have t: "?t \<le> n" using blk(2) b by (simp add: fits_def)
  have "merge_adjacent (insert_block (q, ?t) ?fs') = pre @ (q, if n - ?t > 16 then n else ?t) # post"
  proof (cases "n - ?t > 16")
    case True
    then have "remainder sz al b = [(q + block_total sz al q, n - ?t)]" by (simp add: remainder_def b Let_def)
    then show ?thesis
      using merge_adjacent_middle[of q ?t "q + block_total sz al q" pre "n - ?t" post] rem(3) sp t True ins b by simp
  next
    case False
    then have "remainder sz al b = []" by (simp add: remainder_def b Let_def)
    moreover have "spaced (pre @ (q, ?t) # post)" using sp t by (auto simp: spaced_def sorted_wrt_append)
    ultimately show ?thesis using merge_adjacent_id ins False by simp
  qed
  then have "free_blocks a'' = Some (pre @ (q, if n - ?t > 16 then n else ?t) # post)"
    using walk_free_seg[OF d(2)] by (simp add: free_blocks_def)
  with d(1) blk(1) b t show ?thesis by (auto simp: Let_def)
qed

text \<open>A buffer of 48 bytes, from which 24 are taken: 16 go to the header, and 8 are left over.\<close>

lemma demo_arena:
  shows "free_list_holds 65536 48 [] (CFreeListAllocator_ctor 48 65536 (\<lambda>_. 0))"
    and "free_blocks (CFreeListAllocator_ctor 48 65536 (\<lambda>_. 0)) = Some [(65536, 48)]"
    and "sane_request 24 8" and "block_total 24 8 65536 = 40" and "block_padding 8 65536 = 0"
    and "\<exists>p a'. FreeList_Allocate 24 8 (CFreeListAllocator_ctor 48 65536 (\<lambda>_. 0)) = Some (p, a') \<and> p \<noteq> nullptr"
proof -
  let ?a = "CFreeListAllocator_ctor 48 65536 (\<lambda>_. 0)"
  show h: "free_list_holds 65536 48 [] ?a" and f: "free_blocks ?a = Some [(65536, 48)]"
    using free_list_ctor_holds[of 48 65536 "\<lambda>_. 0"] by (simp_all add: nullptr_def)
  show r: "sane_request 24 8" by (simp add: sane_request_def is_pow2_def upt_rec)
  show t: "block_total 24 8 65536 = 40" and "block_padding 8 65536 = 0"
    by (simp_all add: block_total_def block_padding_def block_aligned_def align_up_def headerSize_def)
  from h obtain fs where s: "seg (fl_mem ?a) (fl_freeList ?a) fs nullptr" "arena_ok 65536 48 [] (fl_mem ?a) fs"
    by (rule holdsE)
  have fs: "fs = [(65536, 48)]" using walk_free_seg[OF s(1)] f by (simp add: free_blocks_def)
  from h s r show "\<exists>p a'. FreeList_Allocate 24 8 ?a = Some (p, a') \<and> p \<noteq> nullptr"
    by (cases rule: free_list_allocate_cases) (auto simp: fs fits_def t)
qed

theorem free_list_leaks_remainder_witness:
  "\<exists>p a' a''. FreeList_Allocate 24 8 (CFreeListAllocator_ctor 48 65536 (\<lambda>_. 0)) = Some (p, a')
     \<and> FreeList_Deallocate p a' = Some a'' \<and> free_blocks a'' = Some [(65536, 40)]"
proof -
  obtain p a' where run: "FreeList_Allocate 24 8 (CFreeListAllocator_ctor 48 65536 (\<lambda>_. 0)) = Some (p, a')" "p \<noteq> nullptr"
    using demo_arena(6) by blast
  from free_list_leaks_remainder[OF demo_arena(1,3,2) run] obtain pre q n post a'' where
    d: "[(65536, 48)] = pre @ (q, n) # post" "FreeList_Deallocate p a' = Some a''"
      "free_blocks a'' = Some (pre @ (q, if n - unat (block_total 24 8 q) > 16 then n else unat (block_total 24 8 q)) # post)"
    by (auto simp: Let_def)
  from d(1) have "pre = []" "q = 65536" "n = 48" "post = []" by (auto simp: Cons_eq_append_conv)
  with d run demo_arena(4) show ?thesis by auto
qed

text \<open>
  The usage counter drifts: \<open>Deallocate\<close> writes the node of the free block before it reads the size from the
  header, and without padding the node lies over the header, so it records header and padding as freed too.
  Every allocation that needs no padding, freed again, lowers the current usage by sixteen.
\<close>

theorem free_list_usage_drifts:
  assumes h: "free_list_holds buf cap live a" and r: "sane_request sz al"
    and run: "FreeList_Allocate sz al a = Some (p, a')" and p: "p \<noteq> nullptr"
    and pd: "header_padding (fl_mem a') (p - 16) = 0"
  shows "\<exists>a''. FreeList_Deallocate p a' = Some a'' \<and> m_currentUsage a'' = m_currentUsage a - 16"
proof -
  from h obtain fs where f: "seg (fl_mem a) (fl_freeList a) fs nullptr" "arena_ok buf cap live (fl_mem a) fs"
    by (rule holdsE)
  have usage: "m_currentUsage a' = m_currentUsage a + sz"
    using h f r by (cases rule: free_list_allocate_cases) (use run p in auto)
  have h': "free_list_holds buf cap ([] @ (p, unat sz) # live) a'" using free_list_allocate_step(2)[OF h r run p] by simp
  from h' obtain fs' where f': "seg (fl_mem a') (fl_freeList a') fs' nullptr"
    "arena_ok buf cap ([] @ (p, unat sz) # live) (fl_mem a') fs'" by (rule holdsE)
  obtain a'' where "FreeList_Deallocate p a' = Some a''" "m_currentUsage a'' = m_currentUsage a' - (16 + of_nat (unat sz))"
    by (rule free_list_deallocate[OF h' f']) (use pd in auto)
  then show ?thesis using usage by simp
qed

theorem free_list_usage_drifts_witness:
  "\<exists>p a' a''. FreeList_Allocate 24 8 (CFreeListAllocator_ctor 48 65536 (\<lambda>_. 0)) = Some (p, a')
     \<and> FreeList_Deallocate p a' = Some a'' \<and> m_currentUsage a'' = - 16"
proof -
  let ?a = "CFreeListAllocator_ctor 48 65536 (\<lambda>_. 0)"
  obtain p a' where run: "FreeList_Allocate 24 8 ?a = Some (p, a')" "p \<noteq> nullptr" using demo_arena(6) by blast
  from demo_arena(1) obtain fs where s: "seg (fl_mem ?a) (fl_freeList ?a) fs nullptr" "arena_ok 65536 48 [] (fl_mem ?a) fs"
    by (rule holdsE)
  have fs: "fs = [(65536, 48)]" using walk_free_seg[OF s(1)] demo_arena(2) by (simp add: free_blocks_def)
  have "occupied (fl_mem a') (p, 24) = (65536, 40)"
    using demo_arena(1) s demo_arena(3)
    by (cases rule: free_list_allocate_cases) (use run fs demo_arena(4) in \<open>auto simp: Cons_eq_append_conv\<close>)
  then have "header_padding (fl_mem a') (p - 16) = 0" by (simp add: occupied_def unat_eq_0)
  from free_list_usage_drifts[OF demo_arena(1,3) run this] run show ?thesis
    by (auto simp: CFreeListAllocator_ctor_def Let_def nullptr_def)
qed

end
