(* ===== verification/Global_Operators.thy ===== *)
theory Global_Operators
  imports Allocator_Interface Memory_Tracking
begin

section \<open>Global operators, default allocator and container adapter\<close>

text \<open>
  Models \<^verbatim>\<open>private/memory/global_operators.cpp\<close> (with both the global allocator and memory tracking enabled),
  \<^verbatim>\<open>private/memory/default_allocator.cpp\<close> and \<^verbatim>\<open>public/tge/memory/std_allocator.hpp\<close>.  \<open>rpmalloc\<close> is a library
  the sources only call: the pointer it returns is an argument of the allocating operators, the pointer
  given to \<open>rpfree\<close> a result of the deallocating ones, and the default allocator takes its functions as parameters.
  Dereferencing a null pointer has no result (\<open>None\<close>).
\<close>

subsection \<open>The header before a block\<close>

definition sizeof_header :: size_t where
  "sizeof_header = 16"

definition write_category :: "addr \<Rightarrow> CategoryId \<Rightarrow> memory \<Rightarrow> memory" where
  "write_category h c m = m(h := ucast c, h + 1 := ucast (drop_bit 8 c))"

definition read_category :: "memory \<Rightarrow> addr \<Rightarrow> CategoryId" where
  "read_category m h = (ucast (m h)) OR push_bit 8 (ucast (m (h + 1)))"

definition GetHeader :: "addr \<Rightarrow> addr" where
  "GetHeader userPtr = userPtr - sizeof_header"

definition GetUserPtr :: "addr \<Rightarrow> addr" where
  "GetUserPtr rawPtr = rawPtr + sizeof_header"

definition GetAlignedHeaderSize :: "size_t \<Rightarrow> size_t" where
  "GetAlignedHeaderSize alignment = align_up sizeof_header alignment"

subsection \<open>The operators\<close>

record 'h heap_state =
  hs_mem :: memory
  hs_tracker :: tracking
  hs_category :: CategoryId
  hs_hooks :: "'h hooks"
  hs_calls :: "'h hook_call list"

text \<open>Filling in the header of the block at \<open>rawPtr\<close> and tracking it; the user's block starts at \<open>userPtr\<close>.\<close>

definition tracked_block :: "size_t \<Rightarrow> addr \<Rightarrow> addr \<Rightarrow> 'h heap_state \<Rightarrow> 'h heap_state option" where
  "tracked_block sz rawPtr userPtr s =
     (let m = write64 (rawPtr + 8) sz (write_category rawPtr (GetCurrentCategory (hs_category s)) (hs_mem s))
      in map_option (\<lambda>tr. s\<lparr>hs_mem := m, hs_tracker := tr\<rparr>)
           (TrackAllocation (read_category m rawPtr) sz (hs_tracker s)))"

definition notify_alloc :: "addr \<Rightarrow> size_t \<Rightarrow> 'h heap_state \<Rightarrow> 'h heap_state" where
  "notify_alloc ptr sz s = s\<lparr>hs_calls := hs_calls s @ NotifyAllocation (hs_hooks s) ptr sz\<rparr>"

definition operator_new :: "size_t \<Rightarrow> (size_t \<Rightarrow> addr) \<Rightarrow> 'h heap_state \<Rightarrow> (addr \<times> 'h heap_state) option" where
  "operator_new sz rpmalloc s =
     (let rawPtr = rpmalloc (sizeof_header + sz); userPtr = GetUserPtr rawPtr
      in if rawPtr = nullptr then None
         else map_option (\<lambda>s1. (userPtr, notify_alloc userPtr sz s1)) (tracked_block sz rawPtr userPtr s))"

definition operator_new_nothrow :: "size_t \<Rightarrow> (size_t \<Rightarrow> addr) \<Rightarrow> 'h heap_state \<Rightarrow> (addr \<times> 'h heap_state) option" where
  "operator_new_nothrow sz rpmalloc s =
     (let rawPtr = rpmalloc (sizeof_header + sz)
      in if rawPtr \<noteq> nullptr
         then (let userPtr = GetUserPtr rawPtr
               in map_option (\<lambda>s1. (userPtr, notify_alloc userPtr sz s1)) (tracked_block sz rawPtr userPtr s))
         else Some (nullptr, notify_alloc nullptr sz s))"

definition operator_new_aligned ::
  "size_t \<Rightarrow> size_t \<Rightarrow> (size_t \<Rightarrow> size_t \<Rightarrow> addr) \<Rightarrow> 'h heap_state \<Rightarrow> (addr \<times> 'h heap_state) option" where
  "operator_new_aligned sz alignment rpaligned_alloc s =
     (let headerSize = GetAlignedHeaderSize alignment; rawPtr = rpaligned_alloc alignment (headerSize + sz);
          userPtr = rawPtr + headerSize
      in if rawPtr = nullptr then None
         else map_option (\<lambda>s1. (userPtr, notify_alloc userPtr sz s1)) (tracked_block sz rawPtr userPtr s))"

definition operator_new_aligned_nothrow ::
  "size_t \<Rightarrow> size_t \<Rightarrow> (size_t \<Rightarrow> size_t \<Rightarrow> addr) \<Rightarrow> 'h heap_state \<Rightarrow> (addr \<times> 'h heap_state) option" where
  "operator_new_aligned_nothrow sz alignment rpaligned_alloc s =
     (let headerSize = GetAlignedHeaderSize alignment; rawPtr = rpaligned_alloc alignment (headerSize + sz)
      in if rawPtr \<noteq> nullptr
         then (let userPtr = rawPtr + headerSize
               in map_option (\<lambda>s1. (userPtr, notify_alloc userPtr sz s1)) (tracked_block sz rawPtr userPtr s))
         else Some (nullptr, notify_alloc nullptr sz s))"

text \<open>The deallocating operators; \<open>Some rawPtr\<close> is the pointer handed to \<open>rpfree\<close>.\<close>

definition release_block :: "addr \<Rightarrow> addr \<Rightarrow> 'h heap_state \<Rightarrow> (addr option \<times> 'h heap_state) option" where
  "release_block ptr rawPtr s =
     (let s1 = s\<lparr>hs_calls := hs_calls s @ NotifyDeallocation (hs_hooks s) ptr\<rparr>
      in map_option (\<lambda>tr. (Some rawPtr, s1\<lparr>hs_tracker := tr\<rparr>))
           (TrackDeallocation (read_category (hs_mem s) rawPtr) (read64 (hs_mem s) (rawPtr + 8)) (hs_tracker s)))"

definition operator_delete :: "addr \<Rightarrow> 'h heap_state \<Rightarrow> (addr option \<times> 'h heap_state) option" where
  "operator_delete ptr s = (if ptr \<noteq> nullptr then release_block ptr (GetHeader ptr) s else Some (None, s))"

definition operator_delete_aligned :: "addr \<Rightarrow> size_t \<Rightarrow> 'h heap_state \<Rightarrow> (addr option \<times> 'h heap_state) option" where
  "operator_delete_aligned ptr alignment s =
     (if ptr \<noteq> nullptr then release_block ptr (ptr - GetAlignedHeaderSize alignment) s else Some (None, s))"

text \<open>The array and sized forms only forward.\<close>

definition operator_new_array :: "size_t \<Rightarrow> (size_t \<Rightarrow> addr) \<Rightarrow> 'h heap_state \<Rightarrow> (addr \<times> 'h heap_state) option" where
  "operator_new_array sz = operator_new sz"

definition operator_delete_array :: "addr \<Rightarrow> 'h heap_state \<Rightarrow> (addr option \<times> 'h heap_state) option" where
  "operator_delete_array ptr = operator_delete ptr"

definition operator_delete_sized :: "addr \<Rightarrow> size_t \<Rightarrow> 'h heap_state \<Rightarrow> (addr option \<times> 'h heap_state) option" where
  "operator_delete_sized ptr sz = operator_delete ptr"

definition operator_new_aligned_array ::
  "size_t \<Rightarrow> size_t \<Rightarrow> (size_t \<Rightarrow> size_t \<Rightarrow> addr) \<Rightarrow> 'h heap_state \<Rightarrow> (addr \<times> 'h heap_state) option" where
  "operator_new_aligned_array sz alignment = operator_new_aligned sz alignment"

definition operator_delete_aligned_array :: "addr \<Rightarrow> size_t \<Rightarrow> 'h heap_state \<Rightarrow> (addr option \<times> 'h heap_state) option" where
  "operator_delete_aligned_array ptr alignment = operator_delete_aligned ptr alignment"

definition operator_delete_array_sized :: "addr \<Rightarrow> size_t \<Rightarrow> 'h heap_state \<Rightarrow> (addr option \<times> 'h heap_state) option" where
  "operator_delete_array_sized ptr sz = operator_delete ptr"

definition operator_delete_aligned_sized ::
  "addr \<Rightarrow> size_t \<Rightarrow> size_t \<Rightarrow> 'h heap_state \<Rightarrow> (addr option \<times> 'h heap_state) option" where
  "operator_delete_aligned_sized ptr sz alignment = operator_delete_aligned ptr alignment"

definition operator_delete_aligned_array_sized ::
  "addr \<Rightarrow> size_t \<Rightarrow> size_t \<Rightarrow> 'h heap_state \<Rightarrow> (addr option \<times> 'h heap_state) option" where
  "operator_delete_aligned_array_sized ptr sz alignment = operator_delete_aligned ptr alignment"

definition operator_new_array_nothrow :: "size_t \<Rightarrow> (size_t \<Rightarrow> addr) \<Rightarrow> 'h heap_state \<Rightarrow> (addr \<times> 'h heap_state) option" where
  "operator_new_array_nothrow sz = operator_new_nothrow sz"

definition operator_new_aligned_array_nothrow ::
  "size_t \<Rightarrow> size_t \<Rightarrow> (size_t \<Rightarrow> size_t \<Rightarrow> addr) \<Rightarrow> 'h heap_state \<Rightarrow> (addr \<times> 'h heap_state) option" where
  "operator_new_aligned_array_nothrow sz alignment = operator_new_aligned_nothrow sz alignment"

subsection \<open>The default allocator\<close>

record 'r CDefaultAllocator = CTrackedAllocator +
  def_heap :: 'r
  def_tracker :: tracking

definition Default_Allocate ::
  "(size_t \<Rightarrow> 'r \<Rightarrow> addr \<times> 'r) \<Rightarrow> (size_t \<Rightarrow> size_t \<Rightarrow> 'r \<Rightarrow> addr \<times> 'r) \<Rightarrow> ('r \<Rightarrow> addr \<Rightarrow> size_t)
     \<Rightarrow> size_t \<Rightarrow> size_t \<Rightarrow> 'r CDefaultAllocator \<Rightarrow> (addr \<times> 'r CDefaultAllocator) option" where
  "Default_Allocate rpmalloc rpaligned_alloc rpmalloc_usable_size sz alignment a =
     (if sz > 0
      then (let (ptr, r) = (if alignment \<le> 8 then rpmalloc sz (def_heap a) else rpaligned_alloc alignment sz (def_heap a));
                a1 = a\<lparr>def_heap := r\<rparr>
            in if ptr \<noteq> nullptr
               then (let usableSize = rpmalloc_usable_size r ptr; a2 = RecordAlloc usableSize a1
                     in map_option (\<lambda>tr. (ptr, a2\<lparr>def_tracker := tr\<rparr>))
                          (TrackAllocation Category_Other usableSize (def_tracker a2)))
               else Some (nullptr, a1))
      else Some (nullptr, a))"

definition Default_Deallocate ::
  "(addr \<Rightarrow> 'r \<Rightarrow> 'r) \<Rightarrow> ('r \<Rightarrow> addr \<Rightarrow> size_t) \<Rightarrow> addr \<Rightarrow> 'r CDefaultAllocator \<Rightarrow> 'r CDefaultAllocator option" where
  "Default_Deallocate rpfree rpmalloc_usable_size ptr a =
     (if ptr \<noteq> nullptr
      then (let usableSize = rpmalloc_usable_size (def_heap a) ptr;
                a1 = RecordDealloc usableSize (a\<lparr>def_heap := rpfree ptr (def_heap a)\<rparr>)
            in map_option (\<lambda>tr. a1\<lparr>def_tracker := tr\<rparr>) (TrackDeallocation Category_Other usableSize (def_tracker a1)))
      else Some a)"

subsection \<open>The container adapter\<close>

datatype std_error = bad_alloc

definition Std_allocate ::
  "(size_t \<Rightarrow> size_t \<Rightarrow> 's \<Rightarrow> (addr \<times> 's) option) \<Rightarrow> size_t \<Rightarrow> size_t \<Rightarrow> size_t \<Rightarrow> 's
     \<Rightarrow> std_error + (addr \<times> 's) option" where
  "Std_allocate Allocate sizeof_T alignof_T n s =
     (if n > (- 1) div sizeof_T then Inl bad_alloc else Inr (Allocate (n * sizeof_T) alignof_T s))"

definition Std_deallocate :: "(addr \<Rightarrow> 's \<Rightarrow> 's option) \<Rightarrow> addr \<Rightarrow> size_t \<Rightarrow> 's \<Rightarrow> 's option" where
  "Std_deallocate Deallocate ptr n s = Deallocate ptr s"

subsection \<open>Headers survive\<close>

lemma bit_u16_bytes: "(ucast (ucast c :: u8) OR push_bit 8 (ucast (ucast (drop_bit 8 c) :: u8)) :: u16) = c"
proof (rule bit_word_eqI)
  fix n assume "n < LENGTH(16)"
  then show "bit (ucast (ucast c :: u8) OR push_bit 8 (ucast (ucast (drop_bit 8 c) :: u8)) :: u16) n = bit c n"
    by (auto simp: bit_or_iff bit_ucast_iff bit_push_bit_iff bit_drop_bit_eq not_less)
qed

lemma category_write_read: "read_category (write_category h c m) h = c"
  using bit_u16_bytes[of c] by (simp add: read_category_def write_category_def)

lemma tracked_header:
  fixes m :: memory and c :: CategoryId and sz :: size_t
  assumes "unat raw + 16 \<le> 2 ^ 64"
  defines "m' \<equiv> write64 (raw + 8) sz (write_category raw c m)"
  shows "read_category m' raw = c" and "read64 m' (raw + 8) = sz"
proof -
  have u: "unat (raw + 8) = unat raw + 8" "unat (raw + 1) = unat raw + 1"
    using assms by (simp_all add: unat_add_nowrap64)
  have "m' raw = write_category raw c m raw" "m' (raw + 1) = write_category raw c m (raw + 1)"
    unfolding m'_def using u assms(1) by (auto intro!: write64_other)
  then show "read_category m' raw = c" using category_write_read[of raw c m] by (simp add: read_category_def)
  show "read64 m' (raw + 8) = sz" by (simp add: m'_def)
qed

lemma header_unchanged:
  assumes "unat raw + 16 \<le> 2 ^ 64" and "same_on {unat raw..<unat raw + 16} m m'"
  shows "read_category m' raw = read_category m raw" and "read64 m' (raw + 8) = read64 m (raw + 8)"
proof -
  have u: "unat (raw + 8) = unat raw + 8" "unat (raw + 1) = unat raw + 1"
    using assms(1) by (simp_all add: unat_add_nowrap64)
  then show "read_category m' raw = read_category m raw" using assms(2) by (simp add: read_category_def same_on_def)
  show "read64 m' (raw + 8) = read64 m (raw + 8)"
    by (rule same_on_read64[OF assms(2)]) (use u assms(1) in auto)
qed

text \<open>
  A block that was tracked in category \<open>c\<close> is released in that category, with its size, whatever happened
  to the rest of the state meanwhile.
\<close>

lemma tracked_released:
  assumes raw: "unat raw + 16 \<le> 2 ^ 64" and cat: "unat (hs_category s) < 256"
    and len: "length (gCategoryStats (hs_tracker s)) = 256"
  obtains s1 where "tracked_block sz raw user s = Some s1" "hs_hooks s1 = hs_hooks s"
    "TrackAllocation (hs_category s) sz (hs_tracker s) = Some (hs_tracker s1)"
    "\<And>(s2 :: 'h heap_state) ptr. same_on {unat raw..<unat raw + 16} (hs_mem s1) (hs_mem s2)
       \<Longrightarrow> length (gCategoryStats (hs_tracker s2)) = 256
       \<Longrightarrow> \<exists>s3. release_block ptr raw s2 = Some (Some raw, s3)
          \<and> TrackDeallocation (hs_category s) sz (hs_tracker s2) = Some (hs_tracker s3)"
proof -
  let ?m = "write64 (raw + 8) sz (write_category raw (hs_category s) (hs_mem s))"
  obtain tr where tr: "TrackAllocation (hs_category s) sz (hs_tracker s) = Some tr"
    using cat len by (auto simp: TrackAllocation_def Let_def)
  note h = tracked_header[OF raw, of sz "hs_category s" "hs_mem s"]
  show ?thesis
  proof (rule that[of "s\<lparr>hs_mem := ?m, hs_tracker := tr\<rparr>"])
    show "tracked_block sz raw user s = Some (s\<lparr>hs_mem := ?m, hs_tracker := tr\<rparr>)"
      using tr h(1) by (simp add: tracked_block_def Let_def GetCurrentCategory_def)
  next
    fix s2 :: "'h heap_state" and ptr
    assume same: "same_on {unat raw..<unat raw + 16} (hs_mem (s\<lparr>hs_mem := ?m, hs_tracker := tr\<rparr>)) (hs_mem s2)"
      and len2: "length (gCategoryStats (hs_tracker s2)) = 256"
    have "read_category (hs_mem s2) raw = hs_category s" "read64 (hs_mem s2) (raw + 8) = sz"
      using header_unchanged[OF raw] same h by simp_all
    then show "\<exists>s3. release_block ptr raw s2 = Some (Some raw, s3)
        \<and> TrackDeallocation (hs_category s) sz (hs_tracker s2) = Some (hs_tracker s3)"
      using cat len2 by (auto simp: release_block_def Let_def TrackDeallocation_def)
  qed (use tr in simp_all)
qed

lemma header_aligned_size:
  assumes "is_pow2 al" and "unat al \<le> 2 ^ 32"
  shows "16 \<le> unat (GetAlignedHeaderSize al)" and "unat (GetAlignedHeaderSize al) < 16 + unat al"
    and "unat al dvd unat (GetAlignedHeaderSize al)"
  using align_up_bounds[OF assms(1), of 16] assms(2) by (simp_all add: GetAlignedHeaderSize_def sizeof_header_def)

subsection \<open>Properties\<close>

text \<open>
  C15. Aligned \<open>new\<close> and \<open>delete\<close> belong together: for a power-of-two alignment and a block of \<open>rpmalloc\<close> that is
  aligned and large enough, the user's block is aligned and lies inside it behind the header, and as long as the user
  writes only into that block, \<open>delete\<close> gives exactly the pointer of \<open>rpmalloc\<close> back to it and books the
  size in the category that was current at the time of \<open>new\<close>.
\<close>

theorem new_delete_balanced:
  assumes al: "is_pow2 al" "unat al \<le> 2 ^ 32"
    and raw: "rpaligned_alloc al (GetAlignedHeaderSize al + sz) = raw" "raw \<noteq> nullptr" "unat al dvd unat raw"
    and room: "unat raw + unat (GetAlignedHeaderSize al) + unat sz \<le> 2 ^ 63"
    and cat: "unat (hs_category s) < 256" and len: "length (gCategoryStats (hs_tracker s)) = 256"
  shows "\<exists>user s1. operator_new_aligned sz al rpaligned_alloc s = Some (user, s1)
    \<and> user \<noteq> nullptr \<and> unat al dvd unat user \<and> unat raw + 16 \<le> unat user
    \<and> unat user + unat sz = unat raw + unat (GetAlignedHeaderSize al + sz)
    \<and> TrackAllocation (hs_category s) sz (hs_tracker s) = Some (hs_tracker s1)
    \<and> (\<forall>s2 :: 'h heap_state. (\<forall>x. \<not> in_block x (user, unat sz) \<longrightarrow> hs_mem s2 x = hs_mem s1 x)
         \<and> length (gCategoryStats (hs_tracker s2)) = 256
         \<longrightarrow> (\<exists>s3. operator_delete_aligned user al s2 = Some (Some raw, s3)
                \<and> TrackDeallocation (hs_category s) sz (hs_tracker s2) = Some (hs_tracker s3)))"
proof -
  note hd = header_aligned_size[OF al]
  let ?h = "GetAlignedHeaderSize al" and ?user = "raw + GetAlignedHeaderSize al"
  have nw: "unat raw + 16 \<le> 2 ^ 64" using room hd(1) by simp
  have user: "unat ?user = unat raw + unat ?h" and tot: "unat (?h + sz) = unat ?h + unat sz"
    using room by (simp_all add: unat_add_nowrap64)
  obtain s1 where s1: "tracked_block sz raw ?user s = Some s1"
      "TrackAllocation (hs_category s) sz (hs_tracker s) = Some (hs_tracker s1)"
      "\<And>(s2 :: 'h heap_state) ptr. same_on {unat raw..<unat raw + 16} (hs_mem s1) (hs_mem s2)
       \<Longrightarrow> length (gCategoryStats (hs_tracker s2)) = 256
       \<Longrightarrow> \<exists>s3. release_block ptr raw s2 = Some (Some raw, s3)
          \<and> TrackDeallocation (hs_category s) sz (hs_tracker s2) = Some (hs_tracker s3)"
    using tracked_released[OF nw cat len] by metis
  have nn: "?user \<noteq> nullptr" using user hd(1) by (auto simp: nullptr_def)
  have del: "\<exists>s3. operator_delete_aligned ?user al s2 = Some (Some raw, s3)
      \<and> TrackDeallocation (hs_category s) sz (hs_tracker s2) = Some (hs_tracker s3)"
    if "\<forall>x. \<not> in_block x (?user, unat sz) \<longrightarrow> hs_mem s2 x = hs_mem (notify_alloc ?user sz s1) x"
      and "length (gCategoryStats (hs_tracker s2)) = 256" for s2 :: "'h heap_state"
  proof -
    have "same_on {unat raw..<unat raw + 16} (hs_mem s1) (hs_mem s2)"
      using that(1) user hd(1) by (auto simp: same_on_def in_block_def notify_alloc_def)
    from s1(3)[OF this that(2), of ?user] nn show ?thesis by (simp add: operator_delete_aligned_def)
  qed
  show ?thesis
  proof (rule exI[of _ ?user], rule exI[of _ "notify_alloc ?user sz s1"], intro conjI)
    show "operator_new_aligned sz al rpaligned_alloc s = Some (?user, notify_alloc ?user sz s1)"
      using raw s1(1) by (simp add: operator_new_aligned_def Let_def)
    show "unat al dvd unat ?user" using user raw(3) hd(3) by simp
  qed (use nn user tot hd(1) s1(2) del in \<open>auto simp: notify_alloc_def\<close>)
qed

theorem new_delete_balanced_witness:
  "\<exists>user s1. operator_new_aligned 40 64 (\<lambda>_ _. 65536)
      \<lparr>hs_mem = (\<lambda>_. 0), hs_tracker = initial_tracking, hs_category = 1, hs_hooks = SetAllocationHooks None (None :: nat option),
       hs_calls = []\<rparr> = Some (user, s1)
     \<and> 64 dvd unat user \<and> (\<exists>s3. operator_delete_aligned user 64 s1 = Some (Some 65536, s3))"
proof -
  let ?s = "\<lparr>hs_mem = (\<lambda>_. 0), hs_tracker = initial_tracking, hs_category = 1,
    hs_hooks = SetAllocationHooks None (None :: nat option), hs_calls = []\<rparr>"
  have "\<exists>user s1. operator_new_aligned 40 64 (\<lambda>_ _. 65536) ?s = Some (user, s1)
    \<and> user \<noteq> nullptr \<and> unat (64 :: size_t) dvd unat user \<and> unat (65536 :: addr) + 16 \<le> unat user
    \<and> unat user + unat (40 :: size_t) = unat (65536 :: addr) + unat (GetAlignedHeaderSize 64 + 40)
    \<and> TrackAllocation (hs_category ?s) 40 (hs_tracker ?s) = Some (hs_tracker s1)
    \<and> (\<forall>s2 :: nat heap_state. (\<forall>x. \<not> in_block x (user, unat (40 :: size_t)) \<longrightarrow> hs_mem s2 x = hs_mem s1 x)
         \<and> length (gCategoryStats (hs_tracker s2)) = 256
         \<longrightarrow> (\<exists>s3. operator_delete_aligned user 64 s2 = Some (Some 65536, s3)
                \<and> TrackDeallocation (hs_category ?s) 40 (hs_tracker s2) = Some (hs_tracker s3)))"
    by (rule new_delete_balanced)
       (simp_all add: is_pow2_def upt_rec GetAlignedHeaderSize_def sizeof_header_def align_up_def nullptr_def initial_tracking_def)
  then obtain user s1 where w: "operator_new_aligned 40 64 (\<lambda>_ _. 65536) ?s = Some (user, s1)" "unat (64 :: size_t) dvd unat user"
      "TrackAllocation (hs_category ?s) 40 (hs_tracker ?s) = Some (hs_tracker s1)"
      "\<forall>s2 :: nat heap_state. (\<forall>x. \<not> in_block x (user, unat (40 :: size_t)) \<longrightarrow> hs_mem s2 x = hs_mem s1 x)
         \<and> length (gCategoryStats (hs_tracker s2)) = 256
         \<longrightarrow> (\<exists>s3. operator_delete_aligned user 64 s2 = Some (Some 65536, s3)
                \<and> TrackDeallocation (hs_category ?s) 40 (hs_tracker s2) = Some (hs_tracker s3))"
    by blast
  have "length (gCategoryStats (hs_tracker s1)) = 256"
    using TrackAllocation_length[OF w(3)] by (simp add: initial_tracking_def)
  with w(4) have "\<exists>s3. operator_delete_aligned user 64 s1 = Some (Some 65536, s3)" by blast
  with w(1,2) show ?thesis by auto
qed

text \<open>
  The container adapter never asks for less than it needs: for elements of a positive size it throws
  \<open>bad_alloc\<close> exactly when the number of bytes does not fit \<open>size_t\<close>, and else asks the allocator for exactly that number.
\<close>

theorem std_allocate_exact:
  assumes "sizeof_T \<noteq> 0"
  shows "Std_allocate Allocate sizeof_T alignof_T n s =
    (if unat n * unat sizeof_T \<ge> 2 ^ 64 then Inl bad_alloc
     else Inr (Allocate (of_nat (unat n * unat sizeof_T)) alignof_T s))"
proof -
  have pos: "0 < unat sizeof_T" using assms by (simp add: unat_gt_0)
  have "unat ((- 1 :: size_t) div sizeof_T) = (2 ^ 64 - 1) div unat sizeof_T"
    by (simp add: unat_div unsigned_minus_1_eq_mask mask_eq_exp_minus_1)
  then have "n > (- 1) div sizeof_T \<longleftrightarrow> (2 ^ 64 - 1) div unat sizeof_T < unat n" by (simp add: word_less_nat_alt)
  also have "\<dots> \<longleftrightarrow> 2 ^ 64 - 1 < unat n * unat sizeof_T" using div_less_iff_less_mult[OF pos] by simp
  also have "\<dots> \<longleftrightarrow> 2 ^ 64 \<le> unat n * unat sizeof_T" by auto
  finally show ?thesis by (simp add: Std_allocate_def)
qed

theorem std_allocate_exact_witness:
  "Std_allocate (\<lambda>sz al s. Some (sz, s)) 24 8 1000 (0::nat) = Inr (Some (24000, 0))"
  using std_allocate_exact[of 24 "\<lambda>sz al s. Some (sz, s)" 8 1000 "0::nat"] by simp

end
