(* ===== verification/Command_Registry.thy ===== *)
theory Command_Registry
  imports Memory_Tracking "HOL-Library.Sublist"
begin

section \<open>The command registry\<close>

text \<open>
  Models \<^verbatim>\<open>private/command/registry.cpp\<close>, \<^verbatim>\<open>private/command/group.cpp\<close> and \<open>ParseIndex\<close> of
  \<^verbatim>\<open>public/tge/command/args.hpp\<close>.  A group is known by its address; addresses of live objects are distinct, which the model gets by
  numbering the groups in the order of their creation.  A callback is foreign code: \<open>Execute\<close> yields the callback
  that was invoked and the arguments it got, and \<open>Execute_calling\<close> takes the calls the callback makes on the registry in turn, while the loop is still under way.  Warnings written to the log are values.
\<close>

subsection \<open>Splitting a command line\<close>

definition is_blank :: "char \<Rightarrow> bool" where
  "is_blank c \<longleftrightarrow> c = CHR '' '' \<or> c = CHR 0x09"

fun tokenize_loop :: "string \<Rightarrow> string \<Rightarrow> string list \<Rightarrow> string list" where
  "tokenize_loop [] token tokens = (if token \<noteq> [] then tokens @ [token] else tokens)"
| "tokenize_loop (c # cs) token tokens =
     (if is_blank c
      then (if token \<noteq> [] then tokenize_loop cs [] (tokens @ [token]) else tokenize_loop cs token tokens)
      else tokenize_loop cs (token @ [c]) tokens)"

definition Tokenize :: "string \<Rightarrow> string list" where
  "Tokenize commandLine = tokenize_loop commandLine [] []"

subsection \<open>Groups\<close>

datatype warning =
    Already_Registered string string
  | Not_Created_Here
  | Outlived "string list"

record ('c, 'cb) CGroup =
  gr_name :: string
  gr_color :: 'c
  gr_commands :: "(string \<times> 'cb) list"

definition CGroup_ctor :: "string \<Rightarrow> 'c \<Rightarrow> ('c, 'cb) CGroup" where
  "CGroup_ctor name color = \<lparr>gr_name = name, gr_color = color, gr_commands = []\<rparr>"

text \<open>\<open>std::map\<close> from verb to callback; only lookup and replacement matter, so the order is left open.\<close>

fun map_set :: "'k \<Rightarrow> 'v \<Rightarrow> ('k \<times> 'v) list \<Rightarrow> ('k \<times> 'v) list" where
  "map_set k v [] = [(k, v)]"
| "map_set k v ((k', v') # m) = (if k' = k then (k, v) # m else (k', v') # map_set k v m)"

definition Group_RegisterCommand :: "string \<Rightarrow> 'cb \<Rightarrow> ('c, 'cb) CGroup \<Rightarrow> warning list \<times> ('c, 'cb) CGroup" where
  "Group_RegisterCommand name callback g =
     ((if map_of (gr_commands g) name \<noteq> None then [Already_Registered name (gr_name g)] else []),
      g\<lparr>gr_commands := map_set name callback (gr_commands g)\<rparr>)"

subsection \<open>The registry\<close>

record ('c, 'cb) CRegistry =
  reg_groups :: "(nat \<times> ('c, 'cb) CGroup) list"
  reg_next :: nat
  reg_tracker :: tracking
  reg_log :: "warning list"

definition CreateGroup ::
  "CategoryId \<Rightarrow> size_t \<Rightarrow> string \<Rightarrow> 'c \<Rightarrow> ('c, 'cb) CRegistry \<Rightarrow> (nat \<times> ('c, 'cb) CRegistry) option" where
  "CreateGroup GroupCategory sizeof_CGroup name color r =
     map_option (\<lambda>tr. (reg_next r,
         r\<lparr>reg_tracker := tr, reg_groups := reg_groups r @ [(reg_next r, CGroup_ctor name color)],
           reg_next := reg_next r + 1\<rparr>))
       (TrackAllocation GroupCategory sizeof_CGroup (reg_tracker r))"

fun erase_group :: "nat \<Rightarrow> (nat \<times> 'g) list \<Rightarrow> (nat \<times> 'g) list" where
  "erase_group p [] = []"
| "erase_group p ((q, g) # gs) = (if q = p then gs else (q, g) # erase_group p gs)"

definition DestroyGroup :: "CategoryId \<Rightarrow> size_t \<Rightarrow> nat \<Rightarrow> ('c, 'cb) CRegistry \<Rightarrow> ('c, 'cb) CRegistry option" where
  "DestroyGroup GroupCategory sizeof_CGroup p r =
     (if map_of (reg_groups r) p \<noteq> None
      then map_option (\<lambda>tr. r\<lparr>reg_tracker := tr, reg_groups := erase_group p (reg_groups r)\<rparr>)
             (TrackDeallocation GroupCategory sizeof_CGroup (reg_tracker r))
      else Some (r\<lparr>reg_log := reg_log r @ [Not_Created_Here]\<rparr>))"

text \<open>Registering a command through the pointer the registry gave out.\<close>

definition RegisterCommand :: "nat \<Rightarrow> string \<Rightarrow> 'cb \<Rightarrow> ('c, 'cb) CRegistry \<Rightarrow> ('c, 'cb) CRegistry" where
  "RegisterCommand p name callback r =
     (case map_of (reg_groups r) p of
        None \<Rightarrow> r
      | Some g \<Rightarrow> (case Group_RegisterCommand name callback g of (ws, g') \<Rightarrow>
          r\<lparr>reg_groups := map_set p g' (reg_groups r), reg_log := reg_log r @ ws\<rparr>))"

fun execute_loop :: "(nat \<times> ('c, 'cb) CGroup) list \<Rightarrow> string \<Rightarrow> 'cb option \<Rightarrow> 'cb option" where
  "execute_loop [] verb executed = executed"
| "execute_loop ((p, g) # gs) verb executed =
     (if executed = None then execute_loop gs verb (map_of (gr_commands g) verb) else execute_loop gs verb executed)"

text \<open>The callback that is invoked and its arguments; \<open>None\<close> is the result \<open>false\<close>.\<close>

definition Execute :: "string \<Rightarrow> ('c, 'cb) CRegistry \<Rightarrow> ('cb \<times> string list) option" where
  "Execute commandLine r =
     (case Tokenize commandLine of
        [] \<Rightarrow> None
      | verb # args \<Rightarrow> map_option (\<lambda>cb. (cb, verb # args)) (execute_loop (reg_groups r) verb None))"

fun release_groups :: "CategoryId \<Rightarrow> size_t \<Rightarrow> (nat \<times> 'g) list \<Rightarrow> tracking \<Rightarrow> tracking option" where
  "release_groups cat n [] tr = Some tr"
| "release_groups cat n (g # gs) tr = Option.bind (TrackDeallocation cat n tr) (release_groups cat n gs)"

definition Registry_Terminate :: "CategoryId \<Rightarrow> size_t \<Rightarrow> ('c, 'cb) CRegistry \<Rightarrow> ('c, 'cb) CRegistry option" where
  "Registry_Terminate GroupCategory sizeof_CGroup r =
     map_option (\<lambda>tr. r\<lparr>reg_tracker := tr, reg_groups := [],
         reg_log := reg_log r @ (if reg_groups r \<noteq> [] then [Outlived (map (gr_name \<circ> snd) (reg_groups r))] else [])\<rparr>)
       (release_groups GroupCategory sizeof_CGroup (reg_groups r) (reg_tracker r))"

subsection \<open>Parsing an index argument\<close>

text \<open>
  \<open>std::from_chars\<close> on an unsigned 32-bit integer: the longest run of decimal digits at the front; no digit or a value
  beyond 32 bits is an error.  \<open>ParseIndex\<close> also requires that nothing is left.
\<close>

definition is_digit :: "char \<Rightarrow> bool" where
  "is_digit c \<longleftrightarrow> of_char c \<ge> (48 :: nat) \<and> of_char c \<le> (57 :: nat)"

definition digit_value :: "char \<Rightarrow> nat" where
  "digit_value c = of_char c - 48"

definition decimal :: "string \<Rightarrow> nat" where
  "decimal ds = foldl (\<lambda>v c. v * 10 + digit_value c) 0 ds"

definition from_chars_u32 :: "string \<Rightarrow> (u32 \<times> string) option" where
  "from_chars_u32 text =
     (let ds = takeWhile is_digit text
      in if ds = [] \<or> decimal ds \<ge> 2 ^ 32 then None else Some (of_nat (decimal ds), dropWhile is_digit text))"

definition ParseIndex :: "string \<Rightarrow> u32 option" where
  "ParseIndex text = (case from_chars_u32 text of Some (v, []) \<Rightarrow> Some v | _ \<Rightarrow> None)"

subsection \<open>What the splitting means\<close>

definition is_token :: "string \<Rightarrow> bool" where
  "is_token t \<longleftrightarrow> t \<noteq> [] \<and> (\<forall>c\<in>set t. \<not> is_blank c)"

lemma tokenize_loop_acc: "tokenize_loop cs token tokens = tokens @ tokenize_loop cs token []"
proof (induction cs arbitrary: token tokens)
  case (Cons c cs)
  show ?case
    using Cons.IH[of "[]" "tokens @ [token]"] Cons.IH[of "[]" "[token]"] Cons.IH[of token tokens]
      Cons.IH[of "[]" tokens] Cons.IH[of "token @ [c]" tokens] by simp
qed simp

lemma tokenize_loop_word: "\<forall>c\<in>set w. \<not> is_blank c \<Longrightarrow> tokenize_loop (w @ cs) token tokens = tokenize_loop cs (token @ w) tokens"
  by (induction w arbitrary: token) auto

lemma tokenize_blank: "is_blank c \<Longrightarrow> Tokenize (c # cs) = Tokenize cs"
  by (simp add: Tokenize_def)

lemma tokenize_word:
  assumes "is_token w" shows "Tokenize w = [w]" and "is_blank c \<Longrightarrow> Tokenize (w @ c # cs) = w # Tokenize cs"
  using assms tokenize_loop_word[of w "[]" "[]" "[]"] tokenize_loop_word[of w "c # cs" "[]" "[]"]
    tokenize_loop_acc[of cs "[]" "[w]"]
  by (auto simp: Tokenize_def is_token_def)

lemma tokenize_loop_tokens:
  "\<forall>c\<in>set token. \<not> is_blank c \<Longrightarrow> \<forall>t\<in>set (tokenize_loop cs token []). is_token t"
proof (induction cs arbitrary: token)
  case (Cons c cs)
  show ?case
    using tokenize_loop_acc[of cs "[]" "[token]"] Cons.IH[of "[]"] Cons.IH[of "token @ [c]"] Cons.prems
    by (cases "is_blank c"; cases "token = []") (simp_all add: is_token_def)
qed (auto simp: is_token_def)

lemma tokenize_loop_concat: "concat (tokenize_loop cs token []) = token @ filter (\<lambda>c. \<not> is_blank c) cs"
proof (induction cs arbitrary: token)
  case (Cons c cs)
  then show ?case using tokenize_loop_acc[of cs "[]" "[token]"] by auto
qed auto

text \<open>A command line with the given words, any number of blanks in front of each and at the end.\<close>

fun spread :: "(string \<times> string) list \<Rightarrow> string \<Rightarrow> string" where
  "spread [] end_blanks = end_blanks"
| "spread ((bs, w) # ws) end_blanks = bs @ w @ spread ws end_blanks"

fun well_spread :: "(string \<times> string) list \<Rightarrow> bool" where
  "well_spread [] = True"
| "well_spread ((bs, w) # ws) = ((\<forall>c\<in>set bs. is_blank c) \<and> is_token w \<and> (ws \<noteq> [] \<longrightarrow> fst (hd ws) \<noteq> []) \<and> well_spread ws)"

lemma tokenize_blanks: "\<forall>c\<in>set bs. is_blank c \<Longrightarrow> Tokenize (bs @ cs) = Tokenize cs"
  by (induction bs) (auto simp: tokenize_blank)

lemma tokenize_spread:
  assumes "well_spread ws" and "\<forall>c\<in>set e. is_blank c"
  shows "Tokenize (spread ws e) = map snd ws"
  using assms(1)
proof (induction ws)
  case Nil
  then show ?case using tokenize_blanks[OF assms(2), of "[]"] by (simp add: Tokenize_def)
next
  case (Cons bw ws)
  obtain bs w where bw: "bw = (bs, w)" by (cases bw)
  have w: "is_token w" "\<forall>c\<in>set bs. is_blank c" "well_spread ws" using Cons.prems bw by auto
  have "Tokenize (spread (bw # ws) e) = Tokenize (w @ spread ws e)" using tokenize_blanks[OF w(2)] bw by simp
  also have "\<dots> = w # map snd ws"
  proof (cases "spread ws e")
    case Nil
    then have "ws = []" using Cons.prems bw by (cases ws) (auto simp: is_token_def)
    then show ?thesis using Nil tokenize_word(1)[OF w(1)] by simp
  next
    case (Cons c cs)
    have "is_blank c"
    proof (cases ws)
      case Nil
      then show ?thesis using assms(2) Cons by auto
    next
      case (Cons x xs)
      then show ?thesis using Cons.prems bw \<open>spread ws e = c # cs\<close> w(3) by (cases x; cases "fst x") auto
    qed
    then have "Tokenize (w @ spread ws e) = w # Tokenize (spread ws e)"
      using tokenize_word(2)[OF w(1)] Cons tokenize_blank by simp
    then show ?thesis using Cons.IH w(3) by simp
  qed
  finally show ?case by (simp add: bw)
qed

subsection \<open>What the registry keeps\<close>

text \<open>A history of the registry, starting empty.\<close>

datatype ('c, 'cb) reg_op =
    Create string 'c
  | Destroy nat
  | Register nat string 'cb

fun reg_step :: "CategoryId \<Rightarrow> size_t \<Rightarrow> ('c, 'cb) reg_op \<Rightarrow> ('c, 'cb) CRegistry \<Rightarrow> ('c, 'cb) CRegistry option" where
  "reg_step cat n (Create name color) r = map_option snd (CreateGroup cat n name color r)"
| "reg_step cat n (Destroy p) r = DestroyGroup cat n p r"
| "reg_step cat n (Register p name cb) r = Some (RegisterCommand p name cb r)"

fun reg_run :: "CategoryId \<Rightarrow> size_t \<Rightarrow> ('c, 'cb) reg_op list \<Rightarrow> ('c, 'cb) CRegistry \<Rightarrow> ('c, 'cb) CRegistry option" where
  "reg_run cat n [] r = Some r"
| "reg_run cat n (op # ops) r = Option.bind (reg_step cat n op r) (reg_run cat n ops)"

definition empty_registry :: "tracking \<Rightarrow> ('c, 'cb) CRegistry" where
  "empty_registry tr = \<lparr>reg_groups = [], reg_next = 0, reg_tracker = tr, reg_log = []\<rparr>"

definition usage_of :: "CategoryId \<Rightarrow> tracking \<Rightarrow> size_t" where
  "usage_of cat tr = Stats_GetCurrentUsage (gCategoryStats tr ! unat cat)"

definition registry_ok :: "CategoryId \<Rightarrow> size_t \<Rightarrow> size_t \<Rightarrow> ('c, 'cb) CRegistry \<Rightarrow> bool" where
  "registry_ok cat n base r \<longleftrightarrow>
     unat cat < length (gCategoryStats (reg_tracker r))
     \<and> usage_of cat (reg_tracker r) = base + of_nat (length (reg_groups r)) * n
     \<and> sorted_wrt (<) (map fst (reg_groups r)) \<and> (\<forall>p\<in>fst ` set (reg_groups r). p < reg_next r)"

lemma track_usage:
  assumes "unat cat < length (gCategoryStats t)"
  shows "\<exists>t'. TrackAllocation cat n t = Some t' \<and> usage_of cat t' = usage_of cat t + n
      \<and> length (gCategoryStats t') = length (gCategoryStats t)"
    and "\<exists>t'. TrackDeallocation cat n t = Some t' \<and> usage_of cat t' = usage_of cat t - n
      \<and> length (gCategoryStats t') = length (gCategoryStats t)"
  using assms
  by (auto simp: TrackAllocation_def TrackDeallocation_def usage_of_def Stats_GetCurrentUsage_def Let_def)

lemma map_set_keys: "map_of m k \<noteq> None \<Longrightarrow> map fst (map_set k v m) = map fst m"
  by (induction m) auto

lemma erase_group_set: "set (erase_group p gs) \<subseteq> set gs"
  by (induction p gs rule: erase_group.induct) auto

lemma erase_group_length: "p \<in> set (map fst gs) \<Longrightarrow> Suc (length (erase_group p gs)) = length gs"
  by (induction p gs rule: erase_group.induct) auto

lemma erase_group_sorted: "sorted_wrt (<) (map fst gs) \<Longrightarrow> sorted_wrt (<) (map fst (erase_group p gs))"
proof (induction p gs rule: erase_group.induct)
  case (2 p q g gs)
  then show ?case using erase_group_set[of p gs] by fastforce
qed simp

lemma reg_step_ok:
  assumes ok: "registry_ok cat n base r"
  shows "\<exists>r'. reg_step cat n op r = Some r' \<and> registry_ok cat n base r'"
proof (cases op)
  case (Create name color)
  then show ?thesis
    using ok track_usage(1)[of cat "reg_tracker r" n]
    by (fastforce simp: CreateGroup_def registry_ok_def sorted_wrt_append algebra_simps intro: less_SucI)
next
  case (Destroy p)
  show ?thesis
  proof (cases "map_of (reg_groups r) p")
    case None
    then show ?thesis using ok Destroy by (simp add: DestroyGroup_def registry_ok_def)
  next
    case (Some g)
    then have p: "p \<in> set (map fst (reg_groups r))" by (force dest: map_of_SomeD)
    have "of_nat (length (reg_groups r)) = (of_nat (length (erase_group p (reg_groups r))) + 1 :: size_t)"
      using erase_group_length[OF p] by (metis of_nat_Suc add.commute)
    moreover have "sorted_wrt (<) (map fst (erase_group p (reg_groups r)))"
      using ok by (intro erase_group_sorted) (simp add: registry_ok_def)
    moreover have "\<forall>q\<in>fst ` set (erase_group p (reg_groups r)). q < reg_next r"
      using ok erase_group_set[of p "reg_groups r"] by (auto simp: registry_ok_def)
    ultimately show ?thesis
      using ok track_usage(2)[of cat "reg_tracker r" n] Some Destroy
      by (auto simp: DestroyGroup_def registry_ok_def algebra_simps)
  qed
next
  case (Register p name cb)
  have keys: "map fst (reg_groups (RegisterCommand p name cb r)) = map fst (reg_groups r)"
    using map_set_keys[of "reg_groups r" p]
    by (auto simp: RegisterCommand_def split: option.splits prod.splits)
  then have "length (reg_groups (RegisterCommand p name cb r)) = length (reg_groups r)"
    by (metis length_map)
  moreover have "reg_tracker (RegisterCommand p name cb r) = reg_tracker r" "reg_next (RegisterCommand p name cb r) = reg_next r"
    by (auto simp: RegisterCommand_def split: option.splits prod.splits)
  ultimately have "registry_ok cat n base (RegisterCommand p name cb r)"
    using ok keys by (simp add: registry_ok_def flip: set_map)
  then show ?thesis using Register by simp
qed

lemma reg_run_ok:
  "registry_ok cat n base r \<Longrightarrow> \<exists>r'. reg_run cat n ops r = Some r' \<and> registry_ok cat n base r'"
proof (induction ops arbitrary: r)
  case (Cons op ops)
  then show ?case using reg_step_ok[OF Cons.prems, of op] by auto
qed simp

lemma execute_loop_done: "execute_loop gs verb (Some cb) = Some cb"
  by (induction gs) auto

lemma execute_loop_find:
  "execute_loop gs verb None = Option.bind (List.find (\<lambda>(p, g). map_of (gr_commands g) verb \<noteq> None) gs)
     (\<lambda>(p, g). map_of (gr_commands g) verb)"
proof (induction gs)
  case (Cons pg gs)
  with execute_loop_done[of gs verb] show ?case by (cases pg; cases "map_of (gr_commands (snd pg)) verb") auto
qed simp

subsection \<open>What a callback does to the registry\<close>

text \<open>
  The callback runs inside the loop over \<open>m_groups\<close>, out of an entry of a group's map.  After it the loop still compares its iterator with the end it took at the start, which every \<open>emplace_back\<close> and
  every \<open>erase\<close> invalidates; and the function object that runs must be neither destroyed nor assigned.  What the code does then is not defined.
\<close>

definition harmless :: "nat \<Rightarrow> string \<Rightarrow> ('c, 'cb) CRegistry \<Rightarrow> ('c, 'cb) reg_op \<Rightarrow> bool" where
  "harmless p verb r op =
     (case op of
        Create name color \<Rightarrow> False
      | Destroy q \<Rightarrow> map_of (reg_groups r) q = None
      | Register q name cb \<Rightarrow> q \<noteq> p \<or> name \<noteq> verb)"

text \<open>The loop with the calls that each callback makes (\<open>body\<close>); \<open>None\<close> is undefined behaviour.\<close>

fun execute_calling ::
  "CategoryId \<Rightarrow> size_t \<Rightarrow> ('cb \<Rightarrow> string list \<Rightarrow> ('c, 'cb) reg_op list) \<Rightarrow> string list \<Rightarrow> (nat \<times> ('c, 'cb) CGroup) list \<Rightarrow> bool
     \<Rightarrow> ('c, 'cb) CRegistry \<Rightarrow> (bool \<times> ('c, 'cb) CRegistry) option" where
  "execute_calling cat n body tokens [] executed r = Some (executed, r)"
| "execute_calling cat n body tokens ((p, g) # gs) executed r =
     (if \<not> executed
      then (case map_of (gr_commands g) (hd tokens) of
              None \<Rightarrow> execute_calling cat n body tokens gs executed r
            | Some cb \<Rightarrow>
                if list_all (harmless p (hd tokens) r) (body cb tokens)
                then Option.bind (reg_run cat n (body cb tokens) r) (execute_calling cat n body tokens gs True)
                else None)
      else execute_calling cat n body tokens gs executed r)"

definition Execute_calling ::
  "CategoryId \<Rightarrow> size_t \<Rightarrow> ('cb \<Rightarrow> string list \<Rightarrow> ('c, 'cb) reg_op list) \<Rightarrow> string \<Rightarrow> ('c, 'cb) CRegistry \<Rightarrow> (bool \<times> ('c, 'cb) CRegistry) option" where
  "Execute_calling cat n body commandLine r =
     (case Tokenize commandLine of
        [] \<Rightarrow> Some (False, r)
      | verb # args \<Rightarrow> execute_calling cat n body (verb # args) (reg_groups r) False r)"

lemma execute_calling_done: "execute_calling cat n body tokens gs True r = Some (True, r)"
  by (induction gs) auto

lemma execute_calling_exact:
  "execute_calling cat n body tokens gs False r =
     (case List.find (\<lambda>(p, g). map_of (gr_commands g) (hd tokens) \<noteq> None) gs of
        None \<Rightarrow> Some (False, r)
      | Some (p, g) \<Rightarrow>
          let ops = body (the (map_of (gr_commands g) (hd tokens))) tokens
          in if list_all (harmless p (hd tokens) r) ops then map_option (Pair True) (reg_run cat n ops r) else None)"
proof (induction gs)
  case (Cons pg gs)
  obtain p g where pg: "pg = (p, g)" by (cases pg)
  show ?case
  proof (cases "map_of (gr_commands g) (hd tokens)")
    case None
    then show ?thesis using Cons pg by simp
  next
    case (Some cb)
    have "Option.bind x (execute_calling cat n body tokens gs True) = map_option (Pair True) x" for x
      by (cases x) (simp_all add: execute_calling_done)
    then show ?thesis using Some pg by (simp add: Let_def)
  qed
qed simp

text \<open>
  When it is defined, \<open>Execute\<close> makes the calls of the callback it chooses, those and no others, and says whether there is one.  A callback that creates a group, or
  destroys one that is there, or assigns its own command, makes it undefined.
\<close>

lemma Execute_calling_exact:
  "Execute_calling cat n body line r =
     (case Execute line r of
        None \<Rightarrow> Some (False, r)
      | Some (cb, args) \<Rightarrow>
          case List.find (\<lambda>(p, g). map_of (gr_commands g) (hd args) \<noteq> None) (reg_groups r) of
            None \<Rightarrow> None
          | Some (p, g) \<Rightarrow>
              if list_all (harmless p (hd args) r) (body cb args) then map_option (Pair True) (reg_run cat n (body cb args) r) else None)"
proof (cases "Tokenize line")
  case (Cons verb args)
  show ?thesis
  proof (cases "List.find (\<lambda>(p, g). map_of (gr_commands g) verb \<noteq> None) (reg_groups r)")
    case None
    then show ?thesis using Cons execute_loop_find [of "reg_groups r" verb] by (simp add: Execute_calling_def Execute_def execute_calling_exact)
  next
    case (Some pg)
    then have "case pg of (p, g) \<Rightarrow> map_of (gr_commands g) verb \<noteq> None" by (auto simp: find_Some_iff)
    then show ?thesis using Some Cons execute_loop_find [of "reg_groups r" verb]
      by (auto simp: Execute_calling_def Execute_def execute_calling_exact Let_def)
  qed
qed (simp add: Execute_calling_def Execute_def)

lemma creating_callback_undefined:
  assumes "Execute line r = Some (cb, args)" and "Create name color \<in> set (body cb args)"
  shows "Execute_calling cat n body line r = None"
proof -
  have "\<not> list_all (harmless p verb r) (body cb args)" for p verb
    using assms(2) by (auto simp: list_all_iff harmless_def split: reg_op.splits)
  then show ?thesis using assms(1) by (auto simp: Execute_calling_exact split: option.split)
qed

lemma release_groups_usage:
  "unat cat < length (gCategoryStats tr)
     \<Longrightarrow> \<exists>tr'. release_groups cat n gs tr = Some tr' \<and> usage_of cat tr' = usage_of cat tr - of_nat (length gs) * n"
proof (induction gs arbitrary: tr)
  case (Cons g gs)
  obtain t1 where t1: "TrackDeallocation cat n tr = Some t1" "usage_of cat t1 = usage_of cat tr - n"
      "length (gCategoryStats t1) = length (gCategoryStats tr)" using track_usage(2)[OF Cons.prems] by blast
  with Cons.IH[of t1] Cons.prems show ?case by (auto simp: algebra_simps)
qed simp

subsection \<open>Properties\<close>

text \<open>
  A command line is split at runs of spaces and tabs: a line made of blank-free words with at least one blank
  between any two, and any blanks at its ends, is split into exactly those words; and of any line the tokens are
  non-empty, free of blanks, and together hold its other characters in order.
\<close>

theorem tokenize_splits_words:
  assumes "well_spread ws" and "\<forall>c\<in>set e. is_blank c"
  shows "Tokenize (spread ws e) = map snd ws \<and> (\<forall>t\<in>set (Tokenize line). is_token t)
    \<and> concat (Tokenize line) = filter (\<lambda>c. \<not> is_blank c) line"
  using tokenize_spread[OF assms] tokenize_loop_tokens[of "[]" line] tokenize_loop_concat[of line "[]"]
  by (simp add: Tokenize_def)

theorem tokenize_splits_words_witness: "Tokenize ''  set  fps 60 '' = [''set'', ''fps'', ''60'']"
  using tokenize_splits_words[of "[(''  '', ''set''), (''  '', ''fps''), ('' '', ''60'')]" "'' ''" "[]"]
  by (simp add: is_token_def is_blank_def)

text \<open>
  C36. A command goes to the group created first among those that know its verb, with all tokens as
  arguments; and over any history of creating and destroying groups and registering commands the tracked
  memory is that of the groups alive, all of it released by \<open>Terminate\<close>.
\<close>

theorem registry_dispatch_and_memory:
  assumes cat: "unat cat < length (gCategoryStats tr)"
  shows "\<exists>r r'. reg_run cat n ops (empty_registry tr) = Some r
    \<and> sorted_wrt (<) (map fst (reg_groups r))
    \<and> usage_of cat (reg_tracker r) = usage_of cat tr + of_nat (length (reg_groups r)) * n
    \<and> Registry_Terminate cat n r = Some r' \<and> reg_groups r' = [] \<and> usage_of cat (reg_tracker r') = usage_of cat tr
    \<and> Execute line r = (case Tokenize line of
         [] \<Rightarrow> None
       | verb # args \<Rightarrow> Option.bind (List.find (\<lambda>(p, g). map_of (gr_commands g) verb \<noteq> None) (reg_groups r))
           (\<lambda>(p, g). map_option (\<lambda>cb. (cb, verb # args)) (map_of (gr_commands g) verb)))"
proof -
  have "registry_ok cat n (usage_of cat tr) (empty_registry tr)"
    using cat by (simp add: registry_ok_def empty_registry_def)
  from reg_run_ok[OF this, of ops] obtain r where r: "reg_run cat n ops (empty_registry tr) = Some r"
      "registry_ok cat n (usage_of cat tr) r" by blast
  obtain t' where t': "release_groups cat n (reg_groups r) (reg_tracker r) = Some t'"
      "usage_of cat t' = usage_of cat (reg_tracker r) - of_nat (length (reg_groups r)) * n"
    using release_groups_usage[of cat "reg_tracker r" n "reg_groups r"] r(2) by (auto simp: registry_ok_def)
  have "Execute line r = (case Tokenize line of
         [] \<Rightarrow> None
       | verb # args \<Rightarrow> Option.bind (List.find (\<lambda>(p, g). map_of (gr_commands g) verb \<noteq> None) (reg_groups r))
           (\<lambda>(p, g). map_option (\<lambda>cb. (cb, verb # args)) (map_of (gr_commands g) verb)))"
    unfolding Execute_def execute_loop_find
    by (cases "Tokenize line"; cases "List.find (\<lambda>(p, g). map_of (gr_commands g) (hd (Tokenize line)) \<noteq> None) (reg_groups r)")
       (auto split: prod.splits)
  with r t' show ?thesis by (auto simp: Registry_Terminate_def registry_ok_def)
qed

theorem registry_dispatch_and_memory_witness:
  "\<exists>r. reg_run 1 64 [Create ''view'' (), Create ''net'' (), Register 1 ''ping'' (7 :: nat), Register 0 ''ping'' 3]
       (empty_registry initial_tracking) = Some r
     \<and> usage_of 1 (reg_tracker r) = usage_of 1 initial_tracking + of_nat (length (reg_groups r)) * 64"
  using registry_dispatch_and_memory[of 1 initial_tracking 64
      "[Create ''view'' (), Create ''net'' (), Register 1 ''ping'' 7, Register 0 ''ping'' 3]" "''ping''"]
  by (auto simp: initial_tracking_def)

end
