(* ===== verification/Command_Line.thy ===== *)
theory Command_Line
  imports Prelude
begin

section \<open>Command lines for child processes\<close>

text \<open>
  Models \<^verbatim>\<open>private/process/command_line.cpp\<close>, which quotes the arguments of a child process, and
  \<^verbatim>\<open>private/process/startable_extension.cpp\<close>.  The reference is the reading of a command line by the C runtime that
  the source refers to, written down from its documented rules: blanks outside quotes separate arguments, \<open>2n\<close>
  backslashes before a quote are \<open>n\<close> backslashes and the quote opens or closes a quoted part, \<open>2n + 1\<close> backslashes
  before a quote are \<open>n\<close> backslashes and a literal quote, two quotes in a row inside a quoted part are a literal
  quote, and backslashes elsewhere stand for themselves.
\<close>

subsection \<open>Quoting\<close>

definition backslash :: char where
  "backslash = CHR 0x5C"

definition quote :: char where
  "quote = CHR 0x22"

definition CharactersToQuote :: "char list" where
  "CharactersToQuote = [CHR '' '', CHR 0x09, CHR 0x0A, CHR 0x0B, quote]"

fun append_loop :: "string \<Rightarrow> nat \<Rightarrow> string \<Rightarrow> string" where
  "append_loop commandLine numBackslashes [] = commandLine @ replicate (numBackslashes * 2) backslash @ [quote]"
| "append_loop commandLine numBackslashes (c # cs) =
     (if c = backslash then append_loop commandLine (numBackslashes + 1) cs
      else if c = quote
      then append_loop (commandLine @ replicate (numBackslashes * 2 + 1) backslash @ [quote]) 0 cs
      else append_loop (commandLine @ replicate numBackslashes backslash @ [c]) 0 cs)"

definition AppendArgument :: "string \<Rightarrow> string \<Rightarrow> string" where
  "AppendArgument commandLine argument =
     (if argument \<noteq> [] \<and> (\<forall>c\<in>set argument. c \<notin> set CharactersToQuote)
      then commandLine @ argument
      else append_loop (commandLine @ [quote]) 0 argument)"

fun append_arguments :: "string \<Rightarrow> string list \<Rightarrow> string" where
  "append_arguments commandLine [] = commandLine"
| "append_arguments commandLine (a # as) = append_arguments (AppendArgument (commandLine @ '' '') a) as"

definition BuildCommandLine :: "string \<Rightarrow> string list \<Rightarrow> string" where
  "BuildCommandLine program arguments = append_arguments ([quote] @ program @ [quote]) arguments"

subsection \<open>Extensions Windows starts by itself\<close>

definition lower_letter :: "char \<Rightarrow> nat" where
  "lower_letter c = (if of_char c \<ge> (65 :: nat) \<and> of_char c \<le> (90 :: nat) then of_char c - 65 + 97 else of_char c)"

definition StartableExtensions :: "string list" where
  "StartableExtensions = [''.exe'', ''.com'']"

definition IsStartableExtension :: "string \<Rightarrow> bool" where
  "IsStartableExtension extension \<longleftrightarrow>
     list_ex (\<lambda>startable. list_all2 (\<lambda>actual expected. lower_letter actual = of_char expected) extension startable)
       StartableExtensions"

subsection \<open>How the C runtime reads a command line\<close>

definition crt_blank :: "char \<Rightarrow> bool" where
  "crt_blank c \<longleftrightarrow> c = CHR '' '' \<or> c = CHR 0x09"

text \<open>One argument: whether inside quotes, the backslashes read but not interpreted yet, what was read so far.\<close>

fun crt_argument :: "bool \<Rightarrow> nat \<Rightarrow> string \<Rightarrow> string \<Rightarrow> string \<times> string" where
  "crt_argument inQuotes n acc [] = (acc @ replicate n backslash, [])"
| "crt_argument inQuotes n acc (c # cs) =
     (if c = backslash then crt_argument inQuotes (n + 1) acc cs
      else if c = quote
      then (if odd n then crt_argument inQuotes 0 (acc @ replicate (n div 2) backslash @ [quote]) cs
            else if inQuotes \<and> cs \<noteq> [] \<and> hd cs = quote
            then crt_argument inQuotes 0 (acc @ replicate (n div 2) backslash @ [quote]) (tl cs)
            else crt_argument (\<not> inQuotes) 0 (acc @ replicate (n div 2) backslash) cs)
      else if crt_blank c \<and> \<not> inQuotes then (acc @ replicate n backslash, c # cs)
      else crt_argument inQuotes 0 (acc @ replicate n backslash @ [c]) cs)"

lemma crt_argument_rest: "length (snd (crt_argument q n acc cs)) \<le> length cs"
proof (induction q n acc cs rule: crt_argument.induct)
  case (2 q n acc c cs)
  then show ?case by (auto simp: Let_def intro: le_SucI dest: le_trans[OF _ diff_le_self])
qed simp

lemma crt_argument_progress: "\<not> crt_blank c \<Longrightarrow> length (snd (crt_argument False 0 [] (c # cs))) < length (c # cs)"
  using crt_argument_rest[of False 1 "[]" cs] crt_argument_rest[of True 0 "[]" cs] crt_argument_rest[of False 0 "[c]" cs]
  by auto

text \<open>The arguments after the program name, one after the other.\<close>

function crt_arguments :: "string \<Rightarrow> string list" where
  "crt_arguments cs =
     (case dropWhile crt_blank cs of
        [] \<Rightarrow> []
      | c # ds \<Rightarrow> (case crt_argument False 0 [] (c # ds) of (a, rest) \<Rightarrow> a # crt_arguments rest))"
  by auto
termination
proof (relation "measure length")
  fix cs c ds a rest
  assume d: "dropWhile crt_blank cs = c # ds" and r: "(a, rest) = crt_argument False 0 [] (c # ds)"
  have "\<not> crt_blank c" using d by (metis dropWhile_eq_Cons_conv)
  then have "length rest < length (c # ds)" using crt_argument_progress[of c ds] r by (metis snd_conv)
  also have "\<dots> \<le> length cs" using d length_dropWhile_le[of crt_blank cs] by simp
  finally show "(rest, cs) \<in> measure length" by simp
qed simp

text \<open>The program name in quotes extends to the next quote, without escapes.\<close>

definition crt_command_line :: "string \<Rightarrow> (string \<times> string list) option" where
  "crt_command_line cs =
     (case cs of
        [] \<Rightarrow> None
      | c # ds \<Rightarrow>
          if c = quote
          then Some (takeWhile (\<lambda>x. x \<noteq> quote) ds, crt_arguments (tl (dropWhile (\<lambda>x. x \<noteq> quote) ds)))
          else None)"

subsection \<open>Quoting is read back\<close>

lemma append_loop_prefix: "append_loop cl n cs = cl @ append_loop [] n cs"
proof (induction cs arbitrary: cl n)
  case (Cons c cs)
  show ?case
    using Cons.IH[of cl] Cons.IH[of "cl @ replicate (n * 2 + 1) backslash @ [quote]"]
      Cons.IH[of "replicate (n * 2 + 1) backslash @ [quote]"] Cons.IH[of "cl @ replicate n backslash @ [c]"]
      Cons.IH[of "replicate n backslash @ [c]"]
    by simp
qed simp

lemma crt_backslashes: "crt_argument q n acc (replicate k backslash @ cs) = crt_argument q (n + k) acc cs"
  by (induction k arbitrary: n) (simp_all add: backslash_def)

definition at_end :: "string \<Rightarrow> bool" where
  "at_end rest \<longleftrightarrow> rest = [] \<or> hd rest = CHR '' ''"

lemma crt_at_end: "at_end rest \<Longrightarrow> crt_argument False 0 acc rest = (acc, rest)"
  by (cases rest) (auto simp: at_end_def backslash_def quote_def crt_blank_def)

lemma at_end_not_quote: "at_end rest \<Longrightarrow> rest \<noteq> [] \<Longrightarrow> hd rest \<noteq> quote"
  by (auto simp: at_end_def quote_def)

lemma backslash_quote [simp]: "backslash \<noteq> quote" "quote \<noteq> backslash"
  by (simp_all add: backslash_def quote_def)

lemma quoted_read_back:
  assumes "at_end rest"
  shows "crt_argument True 0 acc (append_loop [] n arg @ rest) = (acc @ replicate n backslash @ arg, rest)"
proof (induction arg arbitrary: n acc)
  case Nil
  show ?case
    using crt_at_end[OF assms] at_end_not_quote[OF assms] crt_backslashes[of True 0 acc "n * 2" "quote # rest"]
    by (cases "rest = []") auto
next
  case (Cons c cs)
  consider "c = backslash" | "c = quote" | "c \<noteq> backslash" "c \<noteq> quote" by blast
  then show ?case
  proof cases
    case 1
    then show ?thesis using Cons.IH[of acc "Suc n"] by (simp add: replicate_append_same flip: replicate_append_same)
  next
    case 2
    let ?p = "replicate (n * 2 + 1) backslash"
    have "append_loop [] n (c # cs) @ rest = ?p @ quote # append_loop [] 0 cs @ rest"
      using 2 append_loop_prefix[of "?p @ [quote]" 0 cs] by simp
    then have "crt_argument True 0 acc (append_loop [] n (c # cs) @ rest)
        = crt_argument True (n * 2 + 1) acc (quote # append_loop [] 0 cs @ rest)"
      by (simp only: crt_backslashes add_0)
    also have "\<dots> = crt_argument True 0 (acc @ replicate n backslash @ [quote]) (append_loop [] 0 cs @ rest)" by simp
    finally show ?thesis using Cons.IH[of "acc @ replicate n backslash @ [quote]" 0] 2 by simp
  next
    case 3
    let ?p = "replicate n backslash"
    have "append_loop [] n (c # cs) @ rest = ?p @ c # append_loop [] 0 cs @ rest"
      using 3 append_loop_prefix[of "?p @ [c]" 0 cs] by simp
    then have "crt_argument True 0 acc (append_loop [] n (c # cs) @ rest)
        = crt_argument True n acc (c # append_loop [] 0 cs @ rest)"
      by (simp only: crt_backslashes add_0)
    also have "\<dots> = crt_argument True 0 (acc @ ?p @ [c]) (append_loop [] 0 cs @ rest)" using 3 by simp
    finally show ?thesis using Cons.IH[of "acc @ ?p @ [c]" 0] by simp
  qed
qed

lemma unquoted_read_back:
  assumes "at_end rest" and "\<forall>c\<in>set arg. c \<notin> set CharactersToQuote"
  shows "crt_argument False n acc (arg @ rest) = (acc @ replicate n backslash @ arg, rest)"
  using assms(2)
proof (induction arg arbitrary: n acc)
  case Nil
  show ?case
  proof (cases rest)
    case (Cons c cs)
    then show ?thesis using assms(1) by (auto simp: at_end_def crt_blank_def backslash_def quote_def)
  qed simp
next
  case (Cons c cs)
  have c: "c \<noteq> quote" "\<not> crt_blank c" using Cons.prems by (auto simp: CharactersToQuote_def crt_blank_def)
  show ?case
  proof (cases "c = backslash")
    case True
    then show ?thesis using Cons.IH[of "Suc n" acc] Cons.prems by (simp flip: replicate_append_same)
  next
    case False
    then show ?thesis using Cons.IH[of 0 "acc @ replicate n backslash @ [c]"] Cons.prems c by simp
  qed
qed

lemma AppendArgument_quoted:
  "\<not> (arg \<noteq> [] \<and> (\<forall>c\<in>set arg. c \<notin> set CharactersToQuote)) \<Longrightarrow> AppendArgument [] arg = quote # append_loop [] 0 arg"
  unfolding AppendArgument_def using append_loop_prefix[of "[quote]" 0 arg] by auto

lemma argument_read_back:
  assumes "at_end rest"
  shows "crt_argument False 0 [] (AppendArgument [] arg @ rest) = (arg, rest)"
proof (cases "arg \<noteq> [] \<and> (\<forall>c\<in>set arg. c \<notin> set CharactersToQuote)")
  case True
  then show ?thesis using unquoted_read_back[OF assms, of arg 0 "[]"] by (simp add: AppendArgument_def)
next
  case False
  then have "AppendArgument [] arg = quote # append_loop [] 0 arg" by (rule AppendArgument_quoted)
  then show ?thesis using quoted_read_back[OF assms, of "[]" 0 arg] by simp
qed

lemma AppendArgument_prefix: "AppendArgument cl arg = cl @ AppendArgument [] arg"
  using append_loop_prefix[of "cl @ [quote]" 0 arg] append_loop_prefix[of "[quote]" 0 arg]
  by (simp add: AppendArgument_def)

lemma append_arguments_concat:
  "append_arguments cl args = cl @ concat (map (\<lambda>a. CHR '' '' # AppendArgument [] a) args)"
proof (induction args arbitrary: cl)
  case (Cons a as)
  then show ?case using AppendArgument_prefix[of "cl @ '' ''" a] by simp
qed simp

lemma AppendArgument_start:
  obtains c cs where "AppendArgument [] arg = c # cs" and "\<not> crt_blank c"
proof (cases "arg \<noteq> [] \<and> (\<forall>c\<in>set arg. c \<notin> set CharactersToQuote)")
  case True
  then obtain c cs where "arg = c # cs" by (cases arg) auto
  with True that[of c cs] show ?thesis by (auto simp: AppendArgument_def CharactersToQuote_def crt_blank_def)
next
  case False
  then have "AppendArgument [] arg = quote # append_loop [] 0 arg" by (rule AppendArgument_quoted)
  with that show ?thesis by (auto simp: crt_blank_def quote_def)
qed

declare crt_arguments.simps [simp del]

lemma arguments_read_back: "crt_arguments (concat (map (\<lambda>a. CHR '' '' # AppendArgument [] a) args)) = args"
proof (induction args)
  case Nil
  show ?case by (simp add: crt_arguments.simps)
next
  case (Cons a as)
  let ?rest = "concat (map (\<lambda>a. CHR '' '' # AppendArgument [] a) as)"
  have e: "at_end ?rest" by (cases as) (auto simp: at_end_def)
  obtain c cs where c: "AppendArgument [] a = c # cs" "\<not> crt_blank c" by (rule AppendArgument_start)
  have "dropWhile crt_blank (CHR '' '' # AppendArgument [] a @ ?rest) = c # cs @ ?rest"
    using c by (simp add: crt_blank_def)
  then show ?case
    using argument_read_back[OF e, of a] Cons.IH c(1) by (subst crt_arguments.simps) simp
qed

subsection \<open>Properties\<close>

text \<open>
  C19. Quoting is exact: whatever the arguments contain (blanks, quotes, backslashes, nothing at all), the C runtime of
  the child reads the command line back as the program and exactly those arguments, provided the program's path
  holds no quote.
\<close>

theorem command_line_read_back:
  assumes "quote \<notin> set program"
  shows "crt_command_line (BuildCommandLine program arguments) = Some (program, arguments)"
proof -
  let ?tail = "concat (map (\<lambda>a. CHR '' '' # AppendArgument [] a) arguments)"
  have "BuildCommandLine program arguments = quote # program @ quote # ?tail"
    by (simp add: BuildCommandLine_def append_arguments_concat)
  moreover have "takeWhile (\<lambda>x. x \<noteq> quote) (program @ quote # ?tail) = program"
    "dropWhile (\<lambda>x. x \<noteq> quote) (program @ quote # ?tail) = quote # ?tail"
    using assms by (auto simp: takeWhile_append dropWhile_append)
  ultimately show ?thesis using arguments_read_back[of arguments] by (simp add: crt_command_line_def)
qed

theorem command_line_read_back_witness:
  "crt_command_line (BuildCommandLine ''C:/a b/game.exe'' [''+connect'', [], [quote, backslash] @ ''x y'' @ [backslash]])
     = Some (''C:/a b/game.exe'', [''+connect'', [], [quote, backslash] @ ''x y'' @ [backslash]])"
  by (rule command_line_read_back) (simp add: quote_def)

end
