(* ===== verification/Parse_Ipv4.thy ===== *)
theory Parse_Ipv4
  imports Prelude
begin

section \<open>Parsing IPv4 addresses\<close>

text \<open>
  Models \<^verbatim>\<open>private/net/parse_ipv4.cpp\<close>: the loop over the characters with its four 32-bit parts, and the
  packing of the result.  The reference is the canonical text of an address, four decimal numbers without leading
  zeros, joined by dots.
\<close>

record ipv4_state =
  ip_parts :: "u32 list"
  ip_numParts :: nat
  ip_hasDigit :: bool
  ip_isValid :: bool

definition NumParts :: nat where
  "NumParts = 4"

definition ipv4_init :: ipv4_state where
  "ipv4_init = \<lparr>ip_parts = replicate NumParts 0, ip_numParts = 0, ip_hasDigit = False, ip_isValid = True\<rparr>"

definition is_decimal :: "char \<Rightarrow> bool" where
  "is_decimal c \<longleftrightarrow> (48 :: nat) \<le> of_char c \<and> of_char c \<le> (57 :: nat)"

definition ipv4_step :: "char \<Rightarrow> ipv4_state \<Rightarrow> ipv4_state" where
  "ipv4_step c s =
     (if is_decimal c
      then (let startsPart = \<not> ip_hasDigit s;
                valid = (if startsPart then ip_numParts s < NumParts else ip_parts s ! (ip_numParts s - 1) \<noteq> 0)
            in if valid
               then (let numParts = ip_numParts s + (if startsPart then 1 else 0);
                         v = ip_parts s ! (numParts - 1) * 10 + of_nat (of_char c - 48)
                     in s\<lparr>ip_numParts := numParts, ip_isValid := v \<le> 255,
                          ip_parts := (ip_parts s)[numParts - 1 := v], ip_hasDigit := True\<rparr>)
               else s\<lparr>ip_isValid := False\<rparr>)
      else s\<lparr>ip_isValid := (c = CHR ''.'' \<and> ip_hasDigit s \<and> ip_numParts s < NumParts), ip_hasDigit := False\<rparr>)"

fun ipv4_loop :: "string \<Rightarrow> ipv4_state \<Rightarrow> ipv4_state" where
  "ipv4_loop [] s = s"
| "ipv4_loop (c # cs) s = (if ip_isValid s then ipv4_loop cs (ipv4_step c s) else s)"

definition ParseIpv4 :: "string \<Rightarrow> u32 option" where
  "ParseIpv4 text =
     (let s = ipv4_loop text ipv4_init; p = ip_parts s
      in if ip_isValid s \<and> ip_numParts s = NumParts \<and> ip_hasDigit s
         then Some (push_bit 24 (p ! 0) OR push_bit 16 (p ! 1) OR push_bit 8 (p ! 2) OR p ! 3)
         else None)"

subsection \<open>Canonical text\<close>

fun dotted :: "nat list \<Rightarrow> string" where
  "dotted [] = []"
| "dotted [n] = dec n"
| "dotted (n # m # ns) = dec n @ CHR ''.'' # dotted (m # ns)"

lemma digit_char_decimal: "d < 10 \<Longrightarrow> is_decimal (digit_char d)"
  by (simp add: is_decimal_def digit_char_value)

lemma decimal_digit: "is_decimal c \<Longrightarrow> digit_char (of_char c - 48) = c \<and> of_char c - 48 < (10 :: nat)"
  by (auto simp: digit_char_def is_decimal_def)

lemma dot_not_decimal: "\<not> is_decimal CHR ''.''"
  by (simp add: is_decimal_def)

lemma dotted_snoc: "ns \<noteq> [] \<Longrightarrow> dotted (ns @ [n]) = dotted ns @ CHR ''.'' # dec n"
  by (induction ns rule: dotted.induct) auto

subsection \<open>Every accepted text is canonical\<close>

definition read_so_far :: "string \<Rightarrow> ipv4_state \<Rightarrow> bool" where
  "read_so_far pre s \<longleftrightarrow>
     length (ip_parts s) = 4 \<and> ip_numParts s \<le> 4 \<and> (\<forall>v\<in>set (ip_parts s). unat v \<le> 255)
     \<and> (\<forall>i<4. ip_numParts s \<le> i \<longrightarrow> ip_parts s ! i = 0)
     \<and> (ip_hasDigit s \<longrightarrow> 0 < ip_numParts s)
     \<and> pre = dotted (map unat (take (ip_numParts s) (ip_parts s)))
         @ (if ip_hasDigit s \<or> ip_numParts s = 0 then [] else ''.'')"

lemma take_update_last: "0 < n \<Longrightarrow> n \<le> length xs \<Longrightarrow> take n (xs[n - 1 := w]) = take (n - 1) xs @ [w]"
  by (cases n) (simp_all add: take_Suc_conv_app_nth)

lemma read_init: "read_so_far [] ipv4_init"
  by (simp add: read_so_far_def ipv4_init_def NumParts_def)

lemma unat_push_digit: "unat (v :: u32) \<le> 255 \<Longrightarrow> d < 10 \<Longrightarrow> unat (v * 10 + of_nat d) = unat v * 10 + d"
  by (simp add: unat_word_ariths unat_of_nat)

lemma read_digit:
  assumes r: "read_so_far pre s" and c: "is_decimal c" and v: "ip_isValid (ipv4_step c s)"
  shows "read_so_far (pre @ [c]) (ipv4_step c s)"
proof -
  let ?d = "of_char c - 48 :: nat"
  let ?n = "if ip_hasDigit s then ip_numParts s else ip_numParts s + 1"
  let ?w = "ip_parts s ! (?n - 1) * 10 + of_nat ?d"
  have d: "?d < 10" "digit_char ?d = c" using decimal_digit[OF c] by auto
  have ok: "ip_hasDigit s \<Longrightarrow> ip_parts s ! (ip_numParts s - 1) \<noteq> 0" "\<not> ip_hasDigit s \<Longrightarrow> ip_numParts s < 4"
    and s': "ipv4_step c s = s\<lparr>ip_numParts := ?n, ip_isValid := ?w \<le> 255, ip_parts := (ip_parts s)[?n - 1 := ?w], ip_hasDigit := True\<rparr>"
    using c v by (auto simp: ipv4_step_def Let_def NumParts_def split: if_splits)
  have n: "0 < ?n" "?n \<le> 4" using r ok(2) by (auto simp: read_so_far_def)
  have old: "unat (ip_parts s ! (?n - 1)) \<le> 255" using r n by (auto simp: read_so_far_def)
  have w: "unat ?w = unat (ip_parts s ! (?n - 1)) * 10 + ?d" using unat_push_digit[OF old d(1)] .
  have le: "unat ?w \<le> 255" using v s' by (simp add: word_le_nat_alt)
  have take: "take ?n ((ip_parts s)[?n - 1 := ?w]) = take (?n - 1) (ip_parts s) @ [?w]"
    using n r by (intro take_update_last) (auto simp: read_so_far_def)
  have "pre @ [c] = dotted (map unat (take ?n ((ip_parts s)[?n - 1 := ?w])))"
  proof (cases "ip_hasDigit s")
    case True
    let ?ns = "map unat (take (ip_numParts s - 1) (ip_parts s))" and ?l = "unat (ip_parts s ! (ip_numParts s - 1))"
    have "take (ip_numParts s) (ip_parts s) = take (ip_numParts s - 1) (ip_parts s) @ [ip_parts s ! (ip_numParts s - 1)]"
      using r True take_Suc_conv_app_nth[of "ip_numParts s - 1" "ip_parts s"]
      by (cases "ip_numParts s") (auto simp: read_so_far_def)
    then have "pre = dotted (?ns @ [?l])" using r True by (simp add: read_so_far_def)
    moreover have "dec (unat ?w) = dec ?l @ [c]"
      using dec_extend[of ?l ?d] d w ok(1)[OF True] True by (simp add: unat_gt_0)
    ultimately show ?thesis
      using take True by (cases "?ns = []") (auto simp: dotted_snoc)
  next
    case False
    have "ip_parts s ! (?n - 1) = 0" using r ok(2)[OF False] False by (simp add: read_so_far_def)
    then have "dec (unat ?w) = [c]" using w d by (simp add: dec.simps)
    moreover have "ip_parts s \<noteq> []" using r by (auto simp: read_so_far_def)
    ultimately show ?thesis
      using take r False by (cases "ip_numParts s = 0") (auto simp: read_so_far_def dotted_snoc)
  qed
  moreover have "\<forall>v\<in>set ((ip_parts s)[?n - 1 := ?w]). unat v \<le> 255"
    using r le set_update_subset_insert[of "ip_parts s" "?n - 1" ?w] by (auto simp: read_so_far_def)
  moreover have "\<forall>i<4. ?n \<le> i \<longrightarrow> (ip_parts s)[?n - 1 := ?w] ! i = 0"
    using r n by (auto simp: read_so_far_def nth_list_update)
  ultimately show ?thesis using r n unfolding s' by (simp add: read_so_far_def)
qed

lemma read_step:
  assumes r: "read_so_far pre s" and v: "ip_isValid (ipv4_step c s)"
  shows "read_so_far (pre @ [c]) (ipv4_step c s)"
proof (cases "is_decimal c")
  case True
  then show ?thesis using read_digit[OF r _ v] by simp
next
  case False
  then have "c = CHR ''.''" "ip_hasDigit s" using v by (auto simp: ipv4_step_def)
  then show ?thesis using r False by (auto simp: read_so_far_def ipv4_step_def)
qed

lemma read_loop:
  "read_so_far pre s \<Longrightarrow> ip_isValid (ipv4_loop cs s) \<Longrightarrow> read_so_far (pre @ cs) (ipv4_loop cs s)"
proof (induction cs arbitrary: pre s)
  case (Cons c cs)
  show ?case
  proof (cases "ip_isValid s")
    case True
    then have v: "ip_isValid (ipv4_loop cs (ipv4_step c s))" using Cons.prems(2) by simp
    have "ip_isValid (ipv4_step c s)" using v by (cases cs) (auto split: if_splits)
    from Cons.IH[OF read_step[OF Cons.prems(1) this] v] show ?thesis using True by simp
  qed (use Cons.prems(2) in simp)
qed simp

subsection \<open>Every canonical text is accepted\<close>

lemma dec_loop:
  assumes "v \<le> 255" and "ip_isValid s" and "\<not> ip_hasDigit s" and "ip_numParts s < 4" and "length (ip_parts s) = 4"
    and "ip_parts s ! ip_numParts s = 0"
  shows "ipv4_loop (dec v @ rest) s = ipv4_loop rest
    (s\<lparr>ip_numParts := ip_numParts s + 1, ip_isValid := True, ip_parts := (ip_parts s)[ip_numParts s := of_nat v], ip_hasDigit := True\<rparr>)"
  using assms(1)
proof (induction v arbitrary: rest rule: dec.induct)
  case (1 v)
  show ?case
  proof (cases "v < 10")
    case True
    have "(of_nat v :: u32) \<le> 255" using True by (simp add: word_le_nat_alt unat_of_nat)
    then show ?thesis
      using True assms digit_char_decimal[of v] digit_char_value[of v]
      by (subst dec.simps) (simp add: ipv4_step_def Let_def NumParts_def)
  next
    case False
    let ?s1 = "s\<lparr>ip_numParts := ip_numParts s + 1, ip_isValid := True, ip_parts := (ip_parts s)[ip_numParts s := of_nat (v div 10)], ip_hasDigit := True\<rparr>"
    let ?d = "v mod 10"
    have d: "?d < 10" by simp
    have "ipv4_loop (dec v @ rest) s = ipv4_loop (dec (v div 10) @ digit_char ?d # rest) s"
      using False by (subst dec.simps) simp
    also have "\<dots> = ipv4_loop (digit_char ?d # rest) ?s1" using "1.IH"[OF False] "1.prems" by simp
    also have "\<dots> = ipv4_loop rest (ipv4_step (digit_char ?d) ?s1)" using assms by simp
    also have "ipv4_step (digit_char ?d) ?s1
        = s\<lparr>ip_numParts := ip_numParts s + 1, ip_isValid := True, ip_parts := (ip_parts s)[ip_numParts s := of_nat v], ip_hasDigit := True\<rparr>"
    proof -
      have nz: "(of_nat (v div 10) :: u32) \<noteq> 0"
        using False "1.prems" by (simp add: word_unat_eq_iff unat_of_nat)
      have eq: "(of_nat (v div 10) * 10 + of_nat ?d :: u32) = of_nat v"
        by (metis div_mult_mod_eq of_nat_add of_nat_mult of_nat_numeral)
      have le: "(of_nat v :: u32) \<le> 255" using "1.prems" by (simp add: word_le_nat_alt unat_of_nat)
      show ?thesis
        using assms digit_char_decimal[OF d] digit_char_value[OF d] nz eq le
        by (simp add: ipv4_step_def Let_def NumParts_def)
    qed
    finally show ?thesis .
  qed
qed

lemma dot_loop:
  assumes "ip_isValid s" and "ip_hasDigit s" and "ip_numParts s < 4"
  shows "ipv4_loop (CHR ''.'' # rest) s = ipv4_loop rest (s\<lparr>ip_isValid := True, ip_hasDigit := False\<rparr>)"
  using assms dot_not_decimal by (simp add: ipv4_step_def NumParts_def)

lemma ParseIpv4_dotted:
  assumes "a \<le> 255" "b \<le> 255" "c \<le> 255" "d \<le> 255"
  shows "ParseIpv4 (dotted [a, b, c, d]) =
    Some (push_bit 24 (of_nat a) OR push_bit 16 (of_nat b) OR push_bit 8 (of_nat c) OR of_nat d)"
proof -
  have "ipv4_loop (dotted [a, b, c, d]) ipv4_init
      = \<lparr>ip_parts = [of_nat a, of_nat b, of_nat c, of_nat d], ip_numParts = 4, ip_hasDigit = True, ip_isValid = True\<rparr>"
    using assms dec_loop[of d _ "[]"]
    by (simp add: dec_loop dot_loop ipv4_init_def NumParts_def numeral_nat del: ipv4_loop.simps(2))
  then show ?thesis by (simp add: ParseIpv4_def NumParts_def numeral_nat)
qed

subsection \<open>Packing\<close>

lemma pack_parts:
  fixes a b c d :: u32
  assumes "unat a \<le> 255" "unat b \<le> 255" "unat c \<le> 255" "unat d \<le> 255"
  shows "unat (push_bit 24 a OR push_bit 16 b OR push_bit 8 c OR d) = unat a * 2 ^ 24 + unat b * 2 ^ 16 + unat c * 2 ^ 8 + unat d"
proof -
  have byte: "bit x n \<Longrightarrow> n < 8" if "unat x \<le> 255" for x :: u32 and n
  proof -
    assume b: "bit x n"
    have "take_bit 8 x = x" using that by (simp add: word_unat_eq_iff unsigned_take_bit_eq take_bit_nat_eq_self)
    with b have "bit (take_bit 8 x) n" by simp
    then show "n < 8" by (simp add: bit_take_bit_iff)
  qed
  have 1: "push_bit 8 c OR d = push_bit 8 c + d"
    by (rule disjunctive_add_eq_or[symmetric], rule bit_word_eqI) (auto simp: bit_simps dest: byte[OF assms(4)])
  have 2: "push_bit 16 b OR (push_bit 8 c OR d) = push_bit 16 b + (push_bit 8 c OR d)"
    by (rule disjunctive_add_eq_or[symmetric], rule bit_word_eqI)
       (auto simp: bit_simps dest: byte[OF assms(4)] byte[OF assms(3)])
  have 3: "push_bit 24 a OR (push_bit 16 b OR (push_bit 8 c OR d)) = push_bit 24 a + (push_bit 16 b OR (push_bit 8 c OR d))"
    by (rule disjunctive_add_eq_or[symmetric], rule bit_word_eqI)
       (auto simp: bit_simps dest: byte[OF assms(4)] byte[OF assms(3)] byte[OF assms(2)])
  have sh: "unat (push_bit 24 a) = unat a * 2 ^ 24" "unat (push_bit 16 b) = unat b * 2 ^ 16" "unat (push_bit 8 c) = unat c * 2 ^ 8"
    using assms by (simp_all add: push_bit_eq_mult unat_word_ariths)
  have "unat (push_bit 24 a + (push_bit 16 b + (push_bit 8 c + d))) = unat a * 2 ^ 24 + (unat b * 2 ^ 16 + (unat c * 2 ^ 8 + unat d))"
    using assms by (subst unat_add_nowrap, (subst unat_add_nowrap)?, (subst unat_add_nowrap)?) (simp_all add: sh unat_add_nowrap)
  then show ?thesis using 1 2 3 by (simp add: or.assoc)
qed

subsection \<open>Properties\<close>

text \<open>
  C22. The parser accepts exactly the canonical texts: it returns an address if and only if the text is that address
  written as four decimal numbers of at most 255, most significant first, joined by dots and without leading
  zeros.  Anything else is refused.
\<close>

theorem ParseIpv4_iff_canonical:
  "ParseIpv4 text = Some address \<longleftrightarrow>
     (\<exists>a b c d. a \<le> 255 \<and> b \<le> 255 \<and> c \<le> 255 \<and> d \<le> 255 \<and> text = dotted [a, b, c, d]
        \<and> unat address = a * 2 ^ 24 + b * 2 ^ 16 + c * 2 ^ 8 + d)"
proof
  assume p: "ParseIpv4 text = Some address"
  let ?s = "ipv4_loop text ipv4_init"
  have s: "ip_isValid ?s" "ip_numParts ?s = 4" "ip_hasDigit ?s"
    and addr: "address = push_bit 24 (ip_parts ?s ! 0) OR push_bit 16 (ip_parts ?s ! 1) OR push_bit 8 (ip_parts ?s ! 2)
      OR ip_parts ?s ! 3"
    using p by (auto simp: ParseIpv4_def Let_def NumParts_def split: if_splits)
  have r: "read_so_far text ?s" using read_loop[OF read_init s(1)] by simp
  obtain w x y z where parts: "ip_parts ?s = [w, x, y, z]"
    using r by (auto simp: read_so_far_def length_Suc_conv numeral_nat)
  have le: "unat w \<le> 255" "unat x \<le> 255" "unat y \<le> 255" "unat z \<le> 255"
    using r parts by (auto simp: read_so_far_def)
  have "text = dotted [unat w, unat x, unat y, unat z]" using r s parts by (simp add: read_so_far_def)
  moreover have "unat address = unat w * 2 ^ 24 + unat x * 2 ^ 16 + unat y * 2 ^ 8 + unat z"
  proof -
    have "[w, x, y, z] ! 0 = w" "[w, x, y, z] ! 1 = x" "[w, x, y, z] ! 2 = y" "[w, x, y, z] ! 3 = z" by simp_all
    then show ?thesis using pack_parts[OF le] unfolding addr parts by (simp only:)
  qed
  ultimately show "\<exists>a b c d. a \<le> 255 \<and> b \<le> 255 \<and> c \<le> 255 \<and> d \<le> 255 \<and> text = dotted [a, b, c, d]
        \<and> unat address = a * 2 ^ 24 + b * 2 ^ 16 + c * 2 ^ 8 + d"
    using le by blast
next
  assume "\<exists>a b c d. a \<le> 255 \<and> b \<le> 255 \<and> c \<le> 255 \<and> d \<le> 255 \<and> text = dotted [a, b, c, d]
        \<and> unat address = a * 2 ^ 24 + b * 2 ^ 16 + c * 2 ^ 8 + d"
  then obtain a b c d where le: "a \<le> 255" "b \<le> 255" "c \<le> 255" "d \<le> 255" and t: "text = dotted [a, b, c, d]"
    and u: "unat address = a * 2 ^ 24 + b * 2 ^ 16 + c * 2 ^ 8 + d" by blast
  have n: "unat (of_nat k :: u32) = k" if "k \<le> 255" for k using that by (intro unat_of_nat_small) simp
  have "unat (push_bit 24 (of_nat a) OR push_bit 16 (of_nat b) OR push_bit 8 (of_nat c) OR of_nat d :: u32) = unat address"
    using pack_parts[of "of_nat a" "of_nat b" "of_nat c" "of_nat d"] le n u by simp
  then show "ParseIpv4 text = Some address" using ParseIpv4_dotted[OF le] t by (simp add: word_unat_eq_iff)
qed

end
