(* ===== verification/Thread_Pool.thy ===== *)
theory Thread_Pool
  imports Prelude "HOL-Library.Multiset"
begin

section \<open>The thread pool\<close>

text \<open>
  Models \<^verbatim>\<open>private/threading/thread_pool.hpp\<close> and \<^verbatim>\<open>thread_pool.cpp\<close>.  The work queue is a \<open>std::priority_queue\<close>, of which only the
  order of its elements matters: the locale \<open>priority_queue\<close> says what a client may rely on, and the
  list model of \<open>top\<close> and \<open>pop\<close> provides it for the pool's items.  What a thread does under \<open>m_queueMutex\<close> is one
  step of \<open>pool_step\<close>, but for the wait on the condition variable, which has three parts: \<open>W_Wait\<close>, about to take the mutex and evaluate the predicate;
  \<open>W_Falling\<close>, found it false and still holds the mutex; \<open>W_Asleep\<close>, asleep without it until a notification, or until it wakes up for no reason.  Nobody who needs the mutex can step
  while a worker is \<open>W_Falling\<close>.  The notifications of \<open>Execute\<close> and \<open>Terminate\<close> come after the mutex is left and are steps of their own.  The work itself is a parameter of the pool's state and only its start and its end are steps.
\<close>

datatype EJobPriority = High | Normal | Low

fun priority_value :: "EJobPriority \<Rightarrow> nat" where
  "priority_value High = 0" | "priority_value Normal = 1" | "priority_value Low = 2"

lemma priority_value_inject: "priority_value p = priority_value q \<Longrightarrow> p = q"
  by (cases p; cases q) auto

instantiation EJobPriority :: linorder
begin

definition less_eq_EJobPriority :: "EJobPriority \<Rightarrow> EJobPriority \<Rightarrow> bool" where
  "less_eq_EJobPriority p q \<longleftrightarrow> priority_value p \<le> priority_value q"

definition less_EJobPriority :: "EJobPriority \<Rightarrow> EJobPriority \<Rightarrow> bool" where
  "less_EJobPriority p q \<longleftrightarrow> priority_value p < priority_value q"

instance
  by standard (auto simp: less_eq_EJobPriority_def less_EJobPriority_def intro: priority_value_inject)

end

record 'w SWorkItem =
  work :: 'w
  priority :: EJobPriority
  seq_no :: u64

text \<open>\<open>operator<\<close> of the items; \<open>std::priority_queue\<close> hands out a greatest element.\<close>

definition item_less :: "'w SWorkItem \<Rightarrow> 'w SWorkItem \<Rightarrow> bool" where
  "item_less a b =
     (if priority a \<noteq> priority b then priority a > priority b else seq_no a > seq_no b)"

fun top :: "('a \<Rightarrow> 'a \<Rightarrow> bool) \<Rightarrow> 'a list \<Rightarrow> 'a option" where
  "top lt [] = None"
| "top lt (x # xs) = (case top lt xs of None \<Rightarrow> Some x | Some y \<Rightarrow> Some (if lt x y then y else x))"

definition pop :: "('a \<Rightarrow> 'a \<Rightarrow> bool) \<Rightarrow> 'a list \<Rightarrow> 'a list" where
  "pop lt xs = (case top lt xs of None \<Rightarrow> xs | Some x \<Rightarrow> remove1 x xs)"

locale priority_queue =
  fixes lt :: "'a \<Rightarrow> 'a \<Rightarrow> bool" and elems :: "'q \<Rightarrow> 'a multiset"
    and qpush :: "'a \<Rightarrow> 'q \<Rightarrow> 'q" and qtop :: "'q \<Rightarrow> 'a option" and qpop :: "'q \<Rightarrow> 'q"
  assumes lt_irrefl: "\<not> lt x x" and lt_trans: "lt x y \<Longrightarrow> lt y z \<Longrightarrow> lt x z"
    and lt_negtrans: "lt x z \<Longrightarrow> lt x y \<or> lt y z"
    and push_elems: "elems (qpush x q) = add_mset x (elems q)"
    and top_empty: "qtop q = None \<longleftrightarrow> elems q = {#}"
    and top_greatest: "qtop q = Some x \<Longrightarrow> x \<in># elems q \<and> (\<forall>y\<in>#elems q. \<not> lt x y)"
    and pop_elems: "qtop q = Some x \<Longrightarrow> elems (qpop q) = elems q - {#x#}"
begin

lemma top_some: "elems q \<noteq> {#} \<Longrightarrow> \<exists>x. qtop q = Some x"
  using top_empty[of q] by (cases "qtop q") auto

lemma pop_split: "qtop q = Some x \<Longrightarrow> elems q = add_mset x (elems (qpop q))"
  using top_greatest[of q x] pop_elems[of q x] by simp

lemma pop_smaller: "qtop q = Some x \<Longrightarrow> size (elems (qpop q)) < size (elems q)"
  using pop_split[of q x] by simp

text \<open>Two pops in a row never hand out something greater second.\<close>

lemma pops_descend: "qtop q = Some x \<Longrightarrow> qtop (qpop q) = Some y \<Longrightarrow> \<not> lt x y"
  using top_greatest[of q x] top_greatest[of "qpop q" y] pop_split[of q x] by auto

end

lemma item_less_irrefl: "\<not> item_less a a"
  by (simp add: item_less_def)

lemma item_less_trans: "item_less a b \<Longrightarrow> item_less b c \<Longrightarrow> item_less a c"
  by (auto simp: item_less_def split: if_splits dest: less_trans)

lemma item_less_negtrans: "item_less a c \<Longrightarrow> item_less a b \<or> item_less b c"
  by (auto simp: item_less_def split: if_splits)

lemma top_None [simp]: "top lt xs = None \<longleftrightarrow> xs = []"
  by (cases xs) (auto split: option.splits)

lemma top_item:
  assumes "top item_less xs = Some x"
  shows "x \<in> set xs \<and> (\<forall>y\<in>set xs. \<not> item_less x y)"
  using assms
proof (induction xs arbitrary: x)
  case (Cons a xs)
  show ?case
  proof (cases "top item_less xs")
    case None
    then show ?thesis using Cons.prems by (auto simp: item_less_irrefl)
  next
    case (Some y)
    note IH = Cons.IH[OF Some]
    show ?thesis
    proof (cases "item_less a y")
      case True
      then have "\<not> item_less y a" using item_less_trans item_less_irrefl by blast
      then show ?thesis using Cons.prems IH Some True by simp
    next
      case False
      then have "\<not> item_less a z" if "z \<in> set xs" for z using IH that item_less_negtrans[of a z y] by blast
      then show ?thesis using Cons.prems Some False by (simp add: item_less_irrefl)
    qed
  qed
qed simp

interpretation pq: priority_queue item_less mset "(#)" "top item_less" "pop item_less"
proof (unfold_locales, goal_cases)
  case 1 show ?case by (rule item_less_irrefl)
next
  case 2 then show ?case by (rule item_less_trans)
next
  case 3 then show ?case by (rule item_less_negtrans)
next
  case 6 then show ?case using top_item by auto
next
  case 7 then show ?case by (simp add: pop_def)
qed simp_all

subsection \<open>The pool and its threads\<close>

datatype 'w worker = W_Wait | W_Falling | W_Asleep | W_Run 'w | W_Exited

datatype terminator = T_None | T_Notify | T_Join

record 'w pool =
  m_numThreads :: nat
  m_workQueue :: "'w SWorkItem list"
  m_nextSequence :: u64
  m_shouldTerminate :: bool
  p_workers :: "nat \<Rightarrow> 'w worker"
  p_notify :: nat
  p_terminate :: terminator
  p_submitted :: "'w list"
  p_started :: "'w SWorkItem list"
  p_done :: "'w list"
  p_late :: bool

text \<open>
  \<open>p_notify\<close> counts the calls of \<open>Execute\<close> that have left the mutex and not notified yet, and \<open>p_terminate\<close> is where \<open>Terminate\<close> is: not begun, about to notify, or
  joining.  The last four fields are history: what was given to \<open>Execute\<close>, what workers took and what they finished, in
  order, and whether something was given to \<open>Execute\<close> after \<open>Terminate\<close> had begun.
\<close>

definition CThreadPool_ctor :: "nat \<Rightarrow> 'w pool" where
  "CThreadPool_ctor numThreads =
     \<lparr>m_numThreads = numThreads, m_workQueue = [], m_nextSequence = 0, m_shouldTerminate = False,
      p_workers = (\<lambda>i. if i < numThreads then W_Wait else W_Exited), p_notify = 0, p_terminate = T_None, p_submitted = [], p_started = [], p_done = [], p_late = False\<rparr>"

text \<open>Under the mutex; the notification follows.\<close>

definition Pool_Execute :: "'w option \<Rightarrow> EJobPriority \<Rightarrow> 'w pool \<Rightarrow> 'w pool" where
  "Pool_Execute w p s =
     (case w of
        None \<Rightarrow> s
      | Some f \<Rightarrow> s\<lparr>m_workQueue := \<lparr>work = f, priority = p, seq_no = m_nextSequence s\<rparr> # m_workQueue s,
                     m_nextSequence := m_nextSequence s + 1, p_notify := p_notify s + 1,
                     p_submitted := p_submitted s @ [f], p_late := p_late s \<or> m_shouldTerminate s\<rparr>)"

text \<open>\<open>notify_one\<close> wakes some worker that is asleep, if any is.\<close>

definition wake :: "nat \<Rightarrow> 'w pool \<Rightarrow> 'w pool" where
  "wake i s = (if p_workers s i = W_Asleep then s\<lparr>p_workers := (p_workers s)(i := W_Wait)\<rparr> else s)"

definition nobody_asleep :: "'w pool \<Rightarrow> bool" where
  "nobody_asleep s \<longleftrightarrow> list_all (\<lambda>i. p_workers s i \<noteq> W_Asleep) [0..<m_numThreads s]"

definition Execute_notify :: "nat \<Rightarrow> 'w pool \<Rightarrow> 'w pool" where
  "Execute_notify i s = (wake i s)\<lparr>p_notify := p_notify s - 1\<rparr>"

definition Terminate_flag :: "'w pool \<Rightarrow> 'w pool" where
  "Terminate_flag s = s\<lparr>m_shouldTerminate := True, p_terminate := T_Notify\<rparr>"

definition Terminate_notify :: "'w pool \<Rightarrow> 'w pool" where
  "Terminate_notify s = s\<lparr>p_workers := (\<lambda>i. if p_workers s i = W_Asleep then W_Wait else p_workers s i), p_terminate := T_Join\<rparr>"

text \<open>Every thread can be joined; \<open>Terminate\<close> returns when it has come to that.\<close>

definition Terminate_returns :: "'w pool \<Rightarrow> bool" where
  "Terminate_returns s \<longleftrightarrow> m_shouldTerminate s \<and> (\<forall>i<m_numThreads s. p_workers s i = W_Exited)"

text \<open>\<open>WorkerThread\<close> under the mutex: the predicate is evaluated, and the worker leaves, takes the greatest item, or begins to wait.\<close>

definition WorkerThread_turn :: "nat \<Rightarrow> 'w pool \<Rightarrow> 'w pool" where
  "WorkerThread_turn i s =
     (if m_shouldTerminate s \<or> m_workQueue s \<noteq> [] then
        if m_shouldTerminate s \<and> m_workQueue s = [] then s\<lparr>p_workers := (p_workers s)(i := W_Exited)\<rparr>
        else (case top item_less (m_workQueue s) of
                None \<Rightarrow> s
              | Some x \<Rightarrow> s\<lparr>m_workQueue := pop item_less (m_workQueue s), p_started := p_started s @ [x],
                             p_workers := (p_workers s)(i := W_Run (work x))\<rparr>)
      else s\<lparr>p_workers := (p_workers s)(i := W_Falling)\<rparr>)"

definition WorkerThread_sleep :: "nat \<Rightarrow> 'w pool \<Rightarrow> 'w pool" where
  "WorkerThread_sleep i s = s\<lparr>p_workers := (p_workers s)(i := W_Asleep)\<rparr>"

definition WorkerThread_finish :: "nat \<Rightarrow> 'w \<Rightarrow> 'w pool \<Rightarrow> 'w pool" where
  "WorkerThread_finish i f s = s\<lparr>p_done := p_done s @ [f], p_workers := (p_workers s)(i := W_Wait)\<rparr>"

definition mutex_free :: "'w pool \<Rightarrow> bool" where
  "mutex_free s \<longleftrightarrow> (\<forall>i<m_numThreads s. p_workers s i \<noteq> W_Falling)"

text \<open>The steps that somebody is bound to take: those of a worker that is not asleep, and the notifications that are due.\<close>

inductive worker_step :: "'w pool \<Rightarrow> 'w pool \<Rightarrow> bool" where
  turn: "mutex_free s \<Longrightarrow> i < m_numThreads s \<Longrightarrow> p_workers s i = W_Wait \<Longrightarrow> worker_step s (WorkerThread_turn i s)"
| sleep: "i < m_numThreads s \<Longrightarrow> p_workers s i = W_Falling \<Longrightarrow> worker_step s (WorkerThread_sleep i s)"
| finish: "i < m_numThreads s \<Longrightarrow> p_workers s i = W_Run f \<Longrightarrow> worker_step s (WorkerThread_finish i f s)"
| notify: "0 < p_notify s \<Longrightarrow> i < m_numThreads s \<and> p_workers s i = W_Asleep \<or> nobody_asleep s \<Longrightarrow> worker_step s (Execute_notify i s)"
| notify_all: "p_terminate s = T_Notify \<Longrightarrow> worker_step s (Terminate_notify s)"

inductive pool_move :: "'w pool \<Rightarrow> 'w pool \<Rightarrow> bool" where
  bound: "worker_step s s' \<Longrightarrow> pool_move s s'"
| spurious: "i < m_numThreads s \<Longrightarrow> p_workers s i = W_Asleep \<Longrightarrow> pool_move s (wake i s)"

inductive pool_step :: "'w pool \<Rightarrow> 'w pool \<Rightarrow> bool" where
  execute: "mutex_free s \<Longrightarrow> pool_step s (Pool_Execute w p s)"
| terminate: "mutex_free s \<Longrightarrow> pool_step s (Terminate_flag s)"
| move: "pool_move s s' \<Longrightarrow> pool_step s s'"

abbreviation pool_reachable :: "nat \<Rightarrow> 'w pool \<Rightarrow> bool" where
  "pool_reachable n s \<equiv> pool_step\<^sup>*\<^sup>* (CThreadPool_ctor n) s"

inductive_cases worker_stepE: "worker_step s s'"
inductive_cases pool_moveE: "pool_move s s'"

text \<open>A turn exits, takes the greatest item, or begins to wait.\<close>

lemma turn_cases:
  obtains (exit) "m_shouldTerminate s" "m_workQueue s = []" "WorkerThread_turn i s = s\<lparr>p_workers := (p_workers s)(i := W_Exited)\<rparr>"
  | (take) x where "top item_less (m_workQueue s) = Some x"
      "WorkerThread_turn i s = s\<lparr>m_workQueue := pop item_less (m_workQueue s), p_started := p_started s @ [x],
              p_workers := (p_workers s)(i := W_Run (work x))\<rparr>"
  | (wait) "\<not> m_shouldTerminate s" "m_workQueue s = []" "WorkerThread_turn i s = s\<lparr>p_workers := (p_workers s)(i := W_Falling)\<rparr>"
proof (cases "m_workQueue s")
  case Nil
  then show thesis using exit wait by (cases "m_shouldTerminate s") (simp_all add: WorkerThread_turn_def)
next
  case (Cons y ys)
  then obtain x where "top item_less (m_workQueue s) = Some x" using top_None [of item_less "m_workQueue s"] by auto
  then show thesis using take Cons by (simp add: WorkerThread_turn_def)
qed

text \<open>Waking a worker changes nothing else.\<close>

lemma wake_frame [simp]:
  "m_numThreads (wake i s) = m_numThreads s" "m_workQueue (wake i s) = m_workQueue s" "m_nextSequence (wake i s) = m_nextSequence s"
  "m_shouldTerminate (wake i s) = m_shouldTerminate s" "p_notify (wake i s) = p_notify s" "p_terminate (wake i s) = p_terminate s"
  "p_submitted (wake i s) = p_submitted s" "p_started (wake i s) = p_started s" "p_done (wake i s) = p_done s" "p_late (wake i s) = p_late s"
  by (simp_all add: wake_def)

lemma wake_workers: "p_workers (wake i s) j = (if j = i \<and> p_workers s i = W_Asleep then W_Wait else p_workers s j)"
  by (simp add: wake_def)

subsection \<open>Every piece of work is run once\<close>

fun running_work :: "'w worker \<Rightarrow> 'w multiset" where
  "running_work (W_Run f) = {#f#}"
| "running_work _ = {#}"

definition running :: "'w pool \<Rightarrow> 'w multiset" where
  "running s = (\<Sum>i<m_numThreads s. running_work (p_workers s i))"

definition pool_inv :: "'w pool \<Rightarrow> bool" where
  "pool_inv s \<longleftrightarrow>
     mset (p_submitted s) = image_mset work (mset (m_workQueue s)) + running s + mset (p_done s)
     \<and> (\<forall>i<m_numThreads s. p_workers s i = W_Exited \<longrightarrow> m_shouldTerminate s \<and> (m_workQueue s = [] \<or> p_late s))"

lemma running_update:
  assumes "i < m_numThreads s" and "m_numThreads s' = m_numThreads s" and "p_workers s' = (p_workers s)(i := w)"
  shows "running s' + running_work (p_workers s i) = running s + running_work w"
  unfolding running_def assms(2,3) using assms(1) by (rule sum_fun_upd)

lemma ctor_running [simp]: "running (CThreadPool_ctor n) = {#}"
  by (simp add: running_def CThreadPool_ctor_def)

lemma same_running:
  assumes "m_numThreads s' = m_numThreads s" and "\<And>i. running_work (p_workers s' i) = running_work (p_workers s i)"
  shows "running s' = running s"
  using assms by (simp add: running_def)

lemma wake_running: "running (wake i s) = running s"
  by (rule same_running) (simp_all add: wake_workers)

lemma worker_step_inv:
  assumes "worker_step s s'" and inv: "pool_inv s"
  shows "pool_inv s'"
  using assms(1)
proof cases
  case (turn i)
  show ?thesis
  proof (cases rule: turn_cases [of s i])
    case exit
    have "running s' = running s"
      using running_update[OF turn(3), of s' W_Exited] turn(1,4) exit(3) by simp
    then show ?thesis using inv exit turn(1) by (auto simp: pool_inv_def)
  next
    case (take x)
    have r: "running s' = running s + {#work x#}"
      using running_update[OF turn(3), of s' "W_Run (work x)"] turn(1,4) take(2) by simp
    have q: "mset (m_workQueue s) = add_mset x (mset (m_workQueue s'))"
      using pq.pop_split[OF take(1)] take(2) turn(1) by simp
    have "m_workQueue s \<noteq> []" using take(1) by auto
    then show ?thesis using inv r q take(2) turn(1) by (auto simp: pool_inv_def)
  next
    case wait
    have "running s' = running s"
      using running_update[OF turn(3), of s' W_Falling] turn(1,4) wait(3) by simp
    then show ?thesis using inv wait turn(1) by (auto simp: pool_inv_def)
  qed
next
  case (sleep i)
  have "running s' = running s"
    using running_update[OF sleep(2), of s' W_Asleep] sleep by (simp add: WorkerThread_sleep_def)
  then show ?thesis using inv sleep by (auto simp: pool_inv_def WorkerThread_sleep_def)
next
  case (finish i f)
  have "running s = running s' + {#f#}"
    using running_update[OF finish(2), of s' W_Wait] finish by (simp add: WorkerThread_finish_def)
  then show ?thesis using inv finish by (auto simp: pool_inv_def WorkerThread_finish_def)
next
  case (notify i)
  have "running s' = running s" by (rule same_running) (simp_all add: notify(1) Execute_notify_def wake_workers)
  then show ?thesis using inv notify(1) by (auto simp: pool_inv_def Execute_notify_def wake_workers)
next
  case notify_all
  have "running s' = running s" by (rule same_running) (simp_all add: notify_all(1) Terminate_notify_def)
  then show ?thesis using inv notify_all(1) by (auto simp: pool_inv_def Terminate_notify_def split: if_splits)
qed

lemma pool_move_inv: "pool_move s s' \<Longrightarrow> pool_inv s \<Longrightarrow> pool_inv s'"
proof (induction rule: pool_move.induct)
  case (spurious i s)
  then show ?case by (auto simp: pool_inv_def wake_running wake_workers split: if_splits)
qed (rule worker_step_inv)

lemma pool_step_inv:
  assumes "pool_step s s'" and "pool_inv s"
  shows "pool_inv s'"
  using assms
proof (induction rule: pool_step.induct)
  case (execute s w p)
  have "running (Pool_Execute w p s) = running s"
    by (cases w) (simp_all add: running_def Pool_Execute_def)
  then show ?case using execute by (cases w) (auto simp: pool_inv_def Pool_Execute_def)
next
  case (terminate s)
  then show ?case by (auto simp: pool_inv_def running_def Terminate_flag_def)
qed (rule pool_move_inv)

lemma pool_reachable_inv: "pool_reachable n s \<Longrightarrow> pool_inv s"
proof (induction rule: rtranclp_induct)
  case base
  show ?case by (simp add: pool_inv_def) (simp add: CThreadPool_ctor_def)
qed (rule pool_step_inv)

lemma turn_numThreads [simp]: "m_numThreads (WorkerThread_turn i s) = m_numThreads s"
  by (cases rule: turn_cases [of s i]) simp_all

lemma move_numThreads: "pool_move s s' \<Longrightarrow> m_numThreads s' = m_numThreads s"
  by (auto elim!: pool_moveE worker_stepE simp: WorkerThread_sleep_def WorkerThread_finish_def Execute_notify_def Terminate_notify_def)

lemma step_numThreads: "pool_step s s' \<Longrightarrow> m_numThreads s' = m_numThreads s"
proof (induction rule: pool_step.induct)
  case (execute s w p) then show ?case by (cases w) (simp_all add: Pool_Execute_def)
qed (simp_all add: Terminate_flag_def move_numThreads)

lemma reachable_numThreads: "pool_reachable n s \<Longrightarrow> m_numThreads s = n"
  by (induction rule: rtranclp_induct) (auto simp: CThreadPool_ctor_def dest: step_numThreads)

text \<open>C12.
  When \<open>Terminate\<close> returns, everything given to \<open>Execute\<close> before it was run exactly once, whichever workers ran it: the pool of
  at least one thread drains its queue before its threads exit.
\<close>

theorem pool_terminate_drains:
  assumes "pool_reachable n s" and "0 < n" and "Terminate_returns s" and "\<not> p_late s"
  shows "m_workQueue s = [] \<and> mset (p_done s) = mset (p_submitted s)"
proof -
  have inv: "pool_inv s" by (rule pool_reachable_inv[OF assms(1)])
  have n: "m_numThreads s = n" by (rule reachable_numThreads[OF assms(1)])
  have ex: "p_workers s i = W_Exited" if "i < n" for i using assms(3) that n by (simp add: Terminate_returns_def)
  have "running s = {#}" by (simp add: running_def n ex)
  then show ?thesis using inv assms(2,4) ex[of 0] n by (auto simp: pool_inv_def)
qed

text \<open>A concrete run: the worker of a pool of one falls asleep, two pieces of work come, and \<open>Terminate\<close>.\<close>

definition pool_asleep :: "nat pool" where
  "pool_asleep = WorkerThread_sleep 0 (WorkerThread_turn 0 (CThreadPool_ctor 1))"

definition pool_queued :: "nat pool" where
  "pool_queued = Terminate_flag (Pool_Execute (Some 8) High (Pool_Execute (Some 7) Normal pool_asleep))"

definition pool_woken :: "nat pool" where
  "pool_woken = Terminate_notify (Execute_notify 0 (Execute_notify 0 pool_queued))"

definition pool_finished :: "nat pool" where
  "pool_finished = WorkerThread_turn 0 (WorkerThread_finish 0 7 (WorkerThread_turn 0 (WorkerThread_finish 0 8 (WorkerThread_turn 0 pool_woken))))"

lemmas pool_run = pool_asleep_def pool_queued_def pool_woken_def pool_finished_def CThreadPool_ctor_def Pool_Execute_def Terminate_flag_def
  Terminate_notify_def Execute_notify_def wake_def nobody_asleep_def mutex_free_def WorkerThread_turn_def WorkerThread_sleep_def
  WorkerThread_finish_def item_less_def less_EJobPriority_def pop_def

lemma reachable_after: "pool_reachable n s \<Longrightarrow> pool_step s s' \<Longrightarrow> pool_reachable n s'"
  by (rule rtranclp.rtrancl_into_rtrancl)

lemma reachable_move: "pool_reachable n s \<Longrightarrow> worker_step s s' \<Longrightarrow> pool_reachable n s'"
  by (blast intro: reachable_after pool_step.move pool_move.bound)

lemma pool_asleep_reachable: "pool_reachable 1 pool_asleep"
proof -
  have "worker_step (CThreadPool_ctor 1 :: nat pool) (WorkerThread_turn 0 (CThreadPool_ctor 1))"
    by (rule worker_step.turn) (simp_all add: pool_run)
  moreover have "worker_step (WorkerThread_turn 0 (CThreadPool_ctor 1)) pool_asleep"
    unfolding pool_asleep_def by (rule worker_step.sleep) (simp_all add: pool_run)
  ultimately show ?thesis by (blast intro: reachable_move)
qed

lemma pool_queued_reachable: "pool_reachable 1 pool_queued"
  unfolding pool_queued_def
  by (intro reachable_after [OF _ pool_step.terminate] reachable_after [OF _ pool_step.execute] pool_asleep_reachable) (simp_all add: pool_run)

lemma pool_woken_reachable: "pool_reachable 1 pool_woken"
proof -
  have m1: "worker_step pool_queued (Execute_notify 0 pool_queued)" by (rule worker_step.notify) (simp_all add: pool_run)
  have m2: "worker_step (Execute_notify 0 pool_queued) (Execute_notify 0 (Execute_notify 0 pool_queued))"
    by (rule worker_step.notify) (simp_all add: pool_run)
  have m3: "worker_step (Execute_notify 0 (Execute_notify 0 pool_queued)) pool_woken"
    unfolding pool_woken_def by (rule worker_step.notify_all) (simp add: pool_run)
  show ?thesis by (rule reachable_move [OF reachable_move [OF reachable_move [OF pool_queued_reachable m1] m2] m3])
qed

lemma pool_finished_reachable: "pool_reachable 1 pool_finished"
proof -
  let ?s1 = "WorkerThread_turn 0 pool_woken"
  let ?s2 = "WorkerThread_finish 0 8 ?s1"
  let ?s3 = "WorkerThread_turn 0 ?s2"
  let ?s4 = "WorkerThread_finish 0 7 ?s3"
  have m1: "worker_step pool_woken ?s1" by (rule worker_step.turn) (simp_all add: pool_run)
  have m2: "worker_step ?s1 ?s2" by (rule worker_step.finish) (simp_all add: pool_run)
  have m3: "worker_step ?s2 ?s3" by (rule worker_step.turn) (simp_all add: pool_run)
  have m4: "worker_step ?s3 ?s4" by (rule worker_step.finish) (simp_all add: pool_run)
  have m5: "worker_step ?s4 pool_finished" unfolding pool_finished_def by (rule worker_step.turn) (simp_all add: pool_run)
  show ?thesis by (rule reachable_move [OF reachable_move [OF reachable_move [OF reachable_move [OF reachable_move [OF pool_woken_reachable m1] m2] m3] m4] m5])
qed

theorem pool_terminate_drains_witness:
  "Terminate_returns pool_finished \<and> p_done pool_finished = [8, 7] \<and> mset (p_done pool_finished) = mset (p_submitted pool_finished)"
proof -
  have r: "Terminate_returns pool_finished" "\<not> p_late pool_finished" "p_done pool_finished = [8, 7]"
    by (simp_all add: Terminate_returns_def pool_run)
  then show ?thesis using pool_terminate_drains[OF pool_finished_reachable _ r(1,2)] by simp
qed

subsection \<open>Which work is taken\<close>

text \<open>
  The sequence number of an item is the position of its work among all the work submitted, as long as fewer than \<open>2 ^ 64\<close>
  pieces were.
\<close>

definition seq_inv :: "'w pool \<Rightarrow> bool" where
  "seq_inv s \<longleftrightarrow> length (p_submitted s) < 2 ^ 64 \<longrightarrow>
     m_nextSequence s = of_nat (length (p_submitted s)) \<and> distinct (map seq_no (m_workQueue s))
     \<and> (\<forall>y\<in>set (m_workQueue s). unat (seq_no y) < length (p_submitted s) \<and> p_submitted s ! unat (seq_no y) = work y)"

lemma distinct_map_remove1: "distinct (map f xs) \<Longrightarrow> distinct (map f (remove1 x xs))"
  by (induction xs) (auto dest: in_set_remove1[THEN iffD1, rotated] notin_set_remove1 intro: imageI set_remove1_subset[THEN subsetD])

lemma execute_seq_inv:
  assumes "seq_inv s"
  shows "seq_inv (Pool_Execute w p s)"
proof (cases w)
  case (Some f)
  have "unat (of_nat (length (p_submitted s)) :: u64) = length (p_submitted s)" if "length (p_submitted s) < 2 ^ 64"
    using that by (simp add: unat_of_nat_small)
  moreover have "seq_no y \<noteq> of_nat (length (p_submitted s))"
    if "length (p_submitted s) < 2 ^ 64" "unat (seq_no y) < length (p_submitted s)" for y :: "'a SWorkItem"
    using that by (auto simp: unat_of_nat_small)
  ultimately show ?thesis
    using assms Some by (auto simp: seq_inv_def Pool_Execute_def nth_append less_Suc_eq)
qed (use assms in \<open>simp add: Pool_Execute_def\<close>)

lemma turn_seq_inv: "seq_inv s \<Longrightarrow> seq_inv (WorkerThread_turn i s)"
proof (cases rule: turn_cases [of s i])
  case (take x)
  assume "seq_inv s"
  moreover have "m_workQueue (WorkerThread_turn i s) = remove1 x (m_workQueue s)" using take by (simp add: pop_def)
  ultimately show ?thesis
    using take(2) by (auto simp: seq_inv_def distinct_map_remove1 dest: notin_set_remove1 set_remove1_subset[THEN subsetD])
qed (simp_all add: seq_inv_def)

lemma pool_move_seq_inv: "pool_move s s' \<Longrightarrow> seq_inv s \<Longrightarrow> seq_inv s'"
  by (auto elim!: pool_moveE worker_stepE intro: turn_seq_inv)
    (simp_all add: seq_inv_def WorkerThread_sleep_def WorkerThread_finish_def Execute_notify_def Terminate_notify_def)

lemma pool_step_seq_inv:
  assumes "pool_step s s'" and "seq_inv s"
  shows "seq_inv s'"
  using assms by (induction rule: pool_step.induct) (simp_all add: execute_seq_inv pool_move_seq_inv, simp add: seq_inv_def Terminate_flag_def)

lemma pool_reachable_seq_inv: "pool_reachable n s \<Longrightarrow> seq_inv s"
proof (induction rule: rtranclp_induct)
  case base
  show ?case by (simp add: seq_inv_def CThreadPool_ctor_def)
qed (rule pool_step_seq_inv)

text \<open>A worker takes the work that was submitted first among the work of the highest priority waiting: what stays in the queue has a
  lower priority, or the same and was submitted later.
\<close>

theorem pool_takes_first_of_highest:
  assumes "pool_reachable n s" and "length (p_submitted s) < 2 ^ 64"
    and "s' = WorkerThread_turn i s" and "p_workers s i = W_Wait" and "p_workers s' i = W_Run f"
  shows "\<exists>x. x \<in> set (m_workQueue s) \<and> m_workQueue s' = remove1 x (m_workQueue s) \<and> f = work x
    \<and> p_submitted s ! unat (seq_no x) = f
    \<and> (\<forall>y\<in>set (m_workQueue s'). priority x < priority y \<or> priority x = priority y \<and> unat (seq_no x) < unat (seq_no y))"
proof -
  have seq: "distinct (map seq_no (m_workQueue s))" "\<And>y. y \<in> set (m_workQueue s) \<Longrightarrow> p_submitted s ! unat (seq_no y) = work y"
    using pool_reachable_seq_inv[OF assms(1)] assms(2) by (auto simp: seq_inv_def)
  show ?thesis
  proof (cases rule: turn_cases [of s i])
    case (take x)
    have x: "x \<in> set (m_workQueue s)" "\<forall>y\<in>set (m_workQueue s). \<not> item_less x y" using top_item[OF take(1)] by auto
    have q: "m_workQueue s' = remove1 x (m_workQueue s)" using take assms(3) by (simp add: pop_def)
    have "priority x < priority y \<or> priority x = priority y \<and> unat (seq_no x) < unat (seq_no y)"
      if y: "y \<in> set (m_workQueue s')" for y
    proof -
      have "distinct (m_workQueue s)" using seq(1) by (simp add: distinct_map)
      then have y': "y \<in> set (m_workQueue s)" "y \<noteq> x" using y q by (auto simp: set_remove1_eq)
      then have "seq_no y \<noteq> seq_no x" using seq(1) x(1) by (auto simp: distinct_map dest: inj_onD)
      then have "unat (seq_no y) \<noteq> unat (seq_no x)" by (simp add: word_unat_eq_iff)
      then show ?thesis using bspec[OF x(2) y'(1)] by (auto simp: item_less_def word_less_nat_alt split: if_splits)
    qed
    then show ?thesis using x q take(2) assms(3,5) seq(2) by auto
  qed (use assms(3,5) in simp_all)
qed

theorem pool_takes_first_of_highest_witness:
  "p_workers (WorkerThread_turn 0 pool_woken) 0 = W_Run 8
   \<and> (\<exists>x. x \<in> set (m_workQueue pool_woken) \<and> 8 = work x \<and> p_submitted pool_woken ! unat (seq_no x) = 8)"
proof -
  have t: "p_workers pool_woken 0 = W_Wait" "p_workers (WorkerThread_turn 0 pool_woken) 0 = W_Run 8" "length (p_submitted pool_woken) < 2 ^ 64"
    by (simp_all add: pool_run)
  then show ?thesis using pool_takes_first_of_highest[OF pool_woken_reachable t(3) refl t(1,2)] by blast
qed

subsection \<open>The pool shuts down\<close>

text \<open>
  A worker that is asleep will be woken: once the flag is set nobody falls asleep, and while somebody is asleep \<open>Terminate\<close> has yet to notify.  Before that, while there is work, a
  notification is due or some worker is up.
\<close>

definition wake_inv :: "'w pool \<Rightarrow> bool" where
  "wake_inv s \<longleftrightarrow>
     (\<forall>i<m_numThreads s. p_workers s i = W_Falling \<longrightarrow> \<not> m_shouldTerminate s \<and> m_workQueue s = [])
     \<and> (\<forall>i<m_numThreads s. p_workers s i = W_Asleep \<longrightarrow> m_shouldTerminate s \<longrightarrow> p_terminate s = T_Notify)
     \<and> (m_shouldTerminate s \<longrightarrow> p_terminate s \<noteq> T_None)
     \<and> (\<forall>i<m_numThreads s. p_workers s i = W_Exited \<longrightarrow> m_shouldTerminate s)
     \<and> (m_workQueue s \<noteq> [] \<longrightarrow> m_shouldTerminate s \<or> 0 < p_notify s
          \<or> (\<exists>i<m_numThreads s. p_workers s i \<noteq> W_Asleep) \<or> m_numThreads s = 0)"


lemma bound_numThreads: "worker_step s s' \<Longrightarrow> m_numThreads s' = m_numThreads s"
  by (rule move_numThreads) (rule pool_move.bound)

lemma wake_wake_inv: "wake_inv s \<Longrightarrow> wake_inv (wake i s)"
  by (auto simp: wake_inv_def wake_workers)

lemma turn_wake_inv:
  assumes "wake_inv s" and "mutex_free s" and "i < m_numThreads s" and "p_workers s i = W_Wait"
  shows "wake_inv (WorkerThread_turn i s)"
proof (cases rule: turn_cases [of s i])
  case exit
  then show ?thesis using assms(1) by (auto simp: wake_inv_def)
next
  case (take x)
  then show ?thesis using assms by (auto simp: wake_inv_def mutex_free_def)
next
  case wait
  then show ?thesis using assms(1) by (auto simp: wake_inv_def)
qed

lemma worker_step_wake_inv:
  assumes "worker_step s s'" and inv: "wake_inv s"
  shows "wake_inv s'"
  using assms(1)
proof cases
  case (turn i)
  then show ?thesis using turn_wake_inv [OF inv] by simp
next
  case (sleep i)
  then show ?thesis using inv by (auto simp: wake_inv_def WorkerThread_sleep_def)
next
  case (finish i f)
  then show ?thesis using inv by (auto simp: wake_inv_def WorkerThread_finish_def)
next
  case (notify i)
  have "\<exists>j<m_numThreads s. p_workers (wake i s) j \<noteq> W_Asleep" if "0 < m_numThreads s"
    using notify(3) that by (auto simp: nobody_asleep_def list_all_iff wake_workers)
  then show ?thesis using wake_wake_inv [OF inv, of i] notify(1) by (auto simp: wake_inv_def Execute_notify_def)
next
  case notify_all
  then show ?thesis using inv by (auto simp: wake_inv_def Terminate_notify_def split: if_splits)
qed

lemma pool_step_wake_inv: "pool_step s s' \<Longrightarrow> wake_inv s \<Longrightarrow> wake_inv s'"
proof (induction rule: pool_step.induct)
  case (execute s w p)
  then show ?case by (cases w) (auto simp: wake_inv_def Pool_Execute_def mutex_free_def)
next
  case (terminate s)
  then show ?case by (auto simp: wake_inv_def Terminate_flag_def mutex_free_def)
next
  case (move s s')
  then show ?case by (auto elim!: pool_moveE intro: worker_step_wake_inv wake_wake_inv)
qed

lemma pool_reachable_wake_inv: "pool_reachable n s \<Longrightarrow> wake_inv s"
proof (induction rule: rtranclp_induct)
  case base
  show ?case by (auto simp: wake_inv_def CThreadPool_ctor_def)
qed (rule pool_step_wake_inv)

text \<open>So there is always somebody to take a step.\<close>

lemma up_steps:
  assumes "i < m_numThreads s" and "p_workers s i \<noteq> W_Asleep" and "p_workers s i \<noteq> W_Exited"
  shows "\<exists>s'. worker_step s s'"
proof (cases "mutex_free s")
  case False
  then show ?thesis using worker_step.sleep by (fastforce simp: mutex_free_def)
next
  case True
  then have "p_workers s i \<noteq> W_Falling" using assms(1) by (simp add: mutex_free_def)
  with assms True show ?thesis by (cases "p_workers s i") (auto intro: worker_step.turn worker_step.finish)
qed

lemma notify_steps: "0 < p_notify s \<Longrightarrow> \<exists>s'. worker_step s s'"
proof (cases "nobody_asleep s")
  case False
  then obtain i where "i < m_numThreads s" "p_workers s i = W_Asleep" by (auto simp: nobody_asleep_def list_all_iff)
  moreover assume "0 < p_notify s"
  ultimately show ?thesis using worker_step.notify by blast
qed (use worker_step.notify in blast)

lemma work_is_taken_up:
  assumes "wake_inv s" and "0 < m_numThreads s" and "m_workQueue s \<noteq> []" and "\<not> m_shouldTerminate s"
  shows "\<exists>s'. worker_step s s'"
proof (cases "0 < p_notify s")
  case False
  then obtain i where "i < m_numThreads s" "p_workers s i \<noteq> W_Asleep" "p_workers s i \<noteq> W_Exited"
    using assms unfolding wake_inv_def by (metis less_numeral_extra(3))
  then show ?thesis by (rule up_steps)
qed (rule notify_steps)

lemma workers_come_to_an_end:
  assumes "wake_inv s" and "m_shouldTerminate s" and "\<not> (Terminate_returns s \<and> p_terminate s = T_Join)"
  shows "\<exists>s'. worker_step s s'"
proof (cases "p_terminate s = T_Notify")
  case True
  then show ?thesis using worker_step.notify_all by blast
next
  case False
  then have "p_terminate s = T_Join" using assms(1,2) by (cases "p_terminate s") (simp_all add: wake_inv_def)
  then obtain i where "i < m_numThreads s" "p_workers s i \<noteq> W_Exited" using assms(2,3) by (auto simp: Terminate_returns_def)
  moreover have "p_workers s i \<noteq> W_Asleep" using False assms(1,2) calculation(1) by (auto simp: wake_inv_def)
  ultimately show ?thesis by (intro up_steps [of i])
qed

text \<open>And every step brings the end nearer.\<close>

fun worker_cost :: "'w worker \<Rightarrow> nat" where
  "worker_cost W_Wait = 1" | "worker_cost W_Falling = 3" | "worker_cost W_Asleep = 2" | "worker_cost (W_Run f) = 2" | "worker_cost W_Exited = 0"

definition pool_cost :: "'w pool \<Rightarrow> nat" where
  "pool_cost s = 2 * length (m_workQueue s) + (\<Sum>i<m_numThreads s. worker_cost (p_workers s i)) + p_notify s + of_bool (p_terminate s = T_Notify)"

lemma wake_cost: "(\<Sum>j<n. worker_cost (p_workers (wake i s) j)) \<le> (\<Sum>j<n. worker_cost (p_workers s j))"
  by (intro sum_mono) (simp add: wake_workers)

lemma turn_cost:
  assumes "i < m_numThreads s" and "p_workers s i = W_Wait" and "m_shouldTerminate s"
  shows "pool_cost (WorkerThread_turn i s) < pool_cost s"
proof -
  note cost = sum_fun_upd[OF assms(1), of worker_cost "p_workers s"]
  show ?thesis
  proof (cases rule: turn_cases [of s i])
    case exit
    then show ?thesis using cost[of W_Exited] assms(2) by (simp add: pool_cost_def)
  next
    case (take x)
    then have "length (m_workQueue s) = Suc (length (m_workQueue (WorkerThread_turn i s)))"
      using arg_cong[OF pq.pop_split[OF take(1)], of size] by simp
    then show ?thesis using cost[of "W_Run (work x)"] assms(2) take(2) by (simp add: pool_cost_def)
  qed (use assms(3) in simp)
qed

lemma move_cost:
  assumes "pool_move s s'" and "m_shouldTerminate s"
  shows "pool_cost s' < pool_cost s" and "m_shouldTerminate s'"
proof -
  have turn: "m_shouldTerminate (WorkerThread_turn i s) = m_shouldTerminate s" for i by (cases rule: turn_cases [of s i]) simp_all
  show "m_shouldTerminate s'" using assms
    by (auto elim!: pool_moveE worker_stepE simp: turn WorkerThread_sleep_def WorkerThread_finish_def Execute_notify_def Terminate_notify_def)
  from assms(1) show "pool_cost s' < pool_cost s"
  proof cases
    case bound
    then show ?thesis
    proof cases
      case (turn i)
      then show ?thesis using turn_cost assms(2) by simp
    next
      case (sleep i)
      then show ?thesis using sum_fun_upd[OF sleep(2), of worker_cost "p_workers s" W_Asleep] by (simp add: pool_cost_def WorkerThread_sleep_def)
    next
      case (finish i f)
      then show ?thesis using sum_fun_upd[OF finish(2), of worker_cost "p_workers s" W_Wait] by (simp add: pool_cost_def WorkerThread_finish_def)
    next
      case (notify i)
      then show ?thesis using wake_cost [of i s "m_numThreads s"] by (simp add: pool_cost_def Execute_notify_def)
    next
      case notify_all
      have "(\<Sum>j<m_numThreads s. worker_cost (if p_workers s j = W_Asleep then W_Wait else p_workers s j)) \<le> (\<Sum>j<m_numThreads s. worker_cost (p_workers s j))"
        by (intro sum_mono) simp
      then show ?thesis using notify_all by (simp add: pool_cost_def Terminate_notify_def)
    qed
  next
    case (spurious i)
    then have "wake i s = s\<lparr>p_workers := (p_workers s)(i := W_Wait)\<rparr>" by (simp add: wake_def)
    then show ?thesis using spurious sum_fun_upd[OF spurious(2), of worker_cost "p_workers s" W_Wait] by (simp add: pool_cost_def)
  qed
qed

text \<open>C31.
  The pool is never stuck: in every state it can come to, while work waits and \<open>Terminate\<close> has not begun, a worker that is up or a notification that is due can take a step; and
  once the flag is set, with nothing more submitted, only so many steps can follow as the work, the workers and the notifications left allow, spurious wake-ups included, and somebody can always
  take one, without any spurious wake-up, until all workers have exited and \<open>Terminate\<close> can join them.  No worker sleeps through its last notification.
\<close>

theorem pool_terminate_returns:
  assumes "pool_reachable n s"
  shows "(0 < n \<and> m_workQueue s \<noteq> [] \<and> \<not> m_shouldTerminate s \<longrightarrow> (\<exists>s'. worker_step s s'))
    \<and> (m_shouldTerminate s \<and> (pool_move ^^ k) s s' \<longrightarrow>
        k + pool_cost s' \<le> pool_cost s \<and> (Terminate_returns s' \<and> p_terminate s' = T_Join \<or> (\<exists>s''. worker_step s' s'')))"
proof -
  have inv: "wake_inv s" by (rule pool_reachable_wake_inv[OF assms])
  have n: "m_numThreads s = n" by (rule reachable_numThreads[OF assms])
  have "k + pool_cost s' \<le> pool_cost s \<and> m_shouldTerminate s' \<and> wake_inv s'" if "m_shouldTerminate s" "(pool_move ^^ k) s s'"
    using that
  proof (induction k arbitrary: s')
    case 0
    then show ?case using inv by simp
  next
    case (Suc k)
    then obtain t where t: "(pool_move ^^ k) s t" "pool_move t s'" by auto
    then have "k + pool_cost t \<le> pool_cost s" "m_shouldTerminate t" "wake_inv t" using Suc.IH[of t] Suc.prems(1) by simp_all
    then show ?case using move_cost[OF t(2)] pool_step_wake_inv[OF pool_step.move[OF t(2)]] by simp
  qed
  then have ends: "k + pool_cost s' \<le> pool_cost s \<and> (Terminate_returns s' \<and> p_terminate s' = T_Join \<or> (\<exists>s''. worker_step s' s''))"
    if "m_shouldTerminate s" "(pool_move ^^ k) s s'" using that workers_come_to_an_end[of s'] by blast
  have "\<exists>s'. worker_step s s'" if "0 < n" "m_workQueue s \<noteq> []" "\<not> m_shouldTerminate s" using work_is_taken_up[OF inv] that n by simp
  with ends show ?thesis by blast
qed

text \<open>The worker that fell asleep before anything was submitted is woken, and the pool comes to its end.\<close>

theorem pool_terminate_returns_witness:
  "p_workers pool_asleep 0 = W_Asleep \<and> p_workers pool_queued 0 = W_Asleep \<and> (\<exists>s. worker_step pool_queued s)
    \<and> Terminate_returns pool_finished"
proof -
  have "p_workers pool_asleep 0 = W_Asleep" "p_workers pool_queued 0 = W_Asleep" "m_shouldTerminate pool_queued" "\<not> Terminate_returns pool_queued"
    "Terminate_returns pool_finished" by (simp_all add: pool_run Terminate_returns_def)
  then show ?thesis using pool_terminate_returns[OF pool_queued_reachable, of 0 pool_queued] by simp
qed

end
