(* ===== verification/Job_Group.thy ===== *)
theory Job_Group
  imports Thread_Pool
begin

section \<open>Job groups\<close>

text \<open>
  Models \<^verbatim>\<open>private/threading/job_group.cpp\<close>.  The groups are numbered in the order of their construction, so a
  group's parent has a smaller number.  Each thread has a stack of what it is doing: the calls of a job's body
  run on top of the \<open>F_Run\<close> frame of that job, and the group of the topmost such frame is the thread's \<open>tCurrent\<close>.
  Every access to shared state (the counter, the flag, the queue under its mutex) is a step of its own, so that any
  interleaving of submitting, running, waiting and cancelling threads is covered.  The runners that
  \<open>SubmitJob\<close> gives to the scheduler call \<open>RunOnePending\<close>, as \<open>Wait\<close> does; the model lets any thread call it at any time.
\<close>

record 'j SState =
  activeJobs :: u64
  cancelled :: bool
  sparent :: "nat option"
  spending :: "'j list"

datatype 'j frame = F_Push nat 'j | F_Popped nat 'j | F_Run nat 'j | F_Ran nat | F_Cancel nat | F_Drop nat "'j list"

record 'j jobs =
  groups :: "'j SState list"
  n_threads :: nat
  stacks :: "nat \<Rightarrow> 'j frame list"
  h_submitted :: "nat \<Rightarrow> 'j multiset"
  h_run :: "nat \<Rightarrow> 'j multiset"
  h_skipped :: "nat \<Rightarrow> 'j multiset"
  h_dropped :: "nat \<Rightarrow> 'j multiset"

text \<open>The last four are history: per group, the jobs submitted, run, skipped and dropped.\<close>

definition jobs_init :: "nat \<Rightarrow> 'j jobs" where
  "jobs_init n = \<lparr>groups = [], n_threads = n, stacks = (\<lambda>_. []), h_submitted = (\<lambda>_. {#}), h_run = (\<lambda>_. {#}),
     h_skipped = (\<lambda>_. {#}), h_dropped = (\<lambda>_. {#})\<rparr>"

fun tCurrent :: "'j frame list \<Rightarrow> nat option" where
  "tCurrent [] = None"
| "tCurrent (F_Run g j # fs) = Some g"
| "tCurrent (f # fs) = tCurrent fs"

definition can_call :: "'j frame list \<Rightarrow> bool" where
  "can_call fs \<longleftrightarrow> (case fs of [] \<Rightarrow> True | F_Run g j # _ \<Rightarrow> True | _ \<Rightarrow> False)"

text \<open>The comparison only serves termination: a parent was constructed before its child.\<close>

function IsCancelled :: "'j SState list \<Rightarrow> nat \<Rightarrow> bool" where
  "IsCancelled gs g =
     (cancelled (gs ! g) \<or> (case sparent (gs ! g) of None \<Rightarrow> False | Some p \<Rightarrow> if p < g then IsCancelled gs p else False))"
  by pat_completeness auto
termination by (relation "measure snd") auto

declare IsCancelled.simps [simp del]

definition group_upd :: "nat \<Rightarrow> ('j SState \<Rightarrow> 'j SState) \<Rightarrow> 'j jobs \<Rightarrow> 'j jobs" where
  "group_upd g f s = s\<lparr>groups := (groups s)[g := f (groups s ! g)]\<rparr>"

definition stack_upd :: "nat \<Rightarrow> 'j frame list \<Rightarrow> 'j jobs \<Rightarrow> 'j jobs" where
  "stack_upd t fs s = s\<lparr>stacks := (stacks s)(t := fs)\<rparr>"

definition CJobGroup_ctor :: "nat \<Rightarrow> 'j jobs \<Rightarrow> 'j jobs" where
  "CJobGroup_ctor t s =
     s\<lparr>groups := groups s @ [\<lparr>activeJobs = 0, cancelled = False, sparent = tCurrent (stacks s t), spending = []\<rparr>]\<rparr>"

text \<open>\<open>ready\<close>: there is a job and a scheduler; otherwise \<open>SubmitJob\<close> drops the job.\<close>

definition SubmitJob_count :: "bool \<Rightarrow> nat \<Rightarrow> nat \<Rightarrow> 'j \<Rightarrow> 'j jobs \<Rightarrow> 'j jobs" where
  "SubmitJob_count ready t g j s =
     (if ready then
        stack_upd t (F_Push g j # stacks s t)
          (group_upd g (\<lambda>x. x\<lparr>activeJobs := activeJobs x + 1\<rparr>)
            (s\<lparr>h_submitted := (h_submitted s)(g := add_mset j (h_submitted s g))\<rparr>))
      else s)"

definition SubmitJob_push :: "nat \<Rightarrow> nat \<Rightarrow> 'j \<Rightarrow> 'j frame list \<Rightarrow> 'j jobs \<Rightarrow> 'j jobs" where
  "SubmitJob_push t g j fs s = stack_upd t fs (group_upd g (\<lambda>x. x\<lparr>spending := spending x @ [j]\<rparr>) s)"

definition RunOnePending_pop :: "nat \<Rightarrow> nat \<Rightarrow> 'j jobs \<Rightarrow> 'j jobs" where
  "RunOnePending_pop t g s =
     (case spending (groups s ! g) of
        [] \<Rightarrow> s
      | j # js \<Rightarrow> stack_upd t (F_Popped g j # stacks s t) (group_upd g (\<lambda>x. x\<lparr>spending := js\<rparr>) s))"

definition RunOnePending_check :: "nat \<Rightarrow> nat \<Rightarrow> 'j \<Rightarrow> 'j frame list \<Rightarrow> 'j jobs \<Rightarrow> 'j jobs" where
  "RunOnePending_check t g j fs s =
     (if \<not> IsCancelled (groups s) g
      then stack_upd t (F_Run g j # fs) (s\<lparr>h_run := (h_run s)(g := add_mset j (h_run s g))\<rparr>)
      else stack_upd t (F_Ran g # fs) (s\<lparr>h_skipped := (h_skipped s)(g := add_mset j (h_skipped s g))\<rparr>))"

definition RunOnePending_finish :: "nat \<Rightarrow> nat \<Rightarrow> 'j frame list \<Rightarrow> 'j jobs \<Rightarrow> 'j jobs" where
  "RunOnePending_finish t g fs s = stack_upd t fs (group_upd g (\<lambda>x. x\<lparr>activeJobs := activeJobs x - 1\<rparr>) s)"

definition Cancel_flag :: "nat \<Rightarrow> nat \<Rightarrow> 'j jobs \<Rightarrow> 'j jobs" where
  "Cancel_flag t g s = stack_upd t (F_Cancel g # stacks s t) (group_upd g (\<lambda>x. x\<lparr>cancelled := True\<rparr>) s)"

definition Cancel_swap :: "nat \<Rightarrow> nat \<Rightarrow> 'j frame list \<Rightarrow> 'j jobs \<Rightarrow> 'j jobs" where
  "Cancel_swap t g fs s =
     stack_upd t (F_Drop g (spending (groups s ! g)) # fs)
       (group_upd g (\<lambda>x. x\<lparr>spending := []\<rparr>)
         (s\<lparr>h_dropped := (h_dropped s)(g := h_dropped s g + mset (spending (groups s ! g)))\<rparr>))"

definition Cancel_sub :: "nat \<Rightarrow> nat \<Rightarrow> 'j list \<Rightarrow> 'j frame list \<Rightarrow> 'j jobs \<Rightarrow> 'j jobs" where
  "Cancel_sub t g js fs s =
     stack_upd t fs (if js \<noteq> [] then group_upd g (\<lambda>x. x\<lparr>activeJobs := activeJobs x - of_nat (length js)\<rparr>) s else s)"

definition IsComplete :: "nat \<Rightarrow> 'j jobs \<Rightarrow> bool" where
  "IsComplete g s \<longleftrightarrow> activeJobs (groups s ! g) = 0"

definition IsCurrentJobCancelled :: "nat \<Rightarrow> 'j jobs \<Rightarrow> bool" where
  "IsCurrentJobCancelled t s = (case tCurrent (stacks s t) of None \<Rightarrow> False | Some g \<Rightarrow> IsCancelled (groups s) g)"

inductive job_step :: "'j jobs \<Rightarrow> 'j jobs \<Rightarrow> bool" where
  ctor: "t < n_threads s \<Longrightarrow> can_call (stacks s t) \<Longrightarrow> job_step s (CJobGroup_ctor t s)"
| count: "t < n_threads s \<Longrightarrow> g < length (groups s) \<Longrightarrow> can_call (stacks s t) \<Longrightarrow> job_step s (SubmitJob_count ready t g j s)"
| push: "t < n_threads s \<Longrightarrow> stacks s t = F_Push g j # fs \<Longrightarrow> job_step s (SubmitJob_push t g j fs s)"
| pop: "t < n_threads s \<Longrightarrow> g < length (groups s) \<Longrightarrow> can_call (stacks s t) \<Longrightarrow> job_step s (RunOnePending_pop t g s)"
| check: "t < n_threads s \<Longrightarrow> stacks s t = F_Popped g j # fs \<Longrightarrow> job_step s (RunOnePending_check t g j fs s)"
| body: "t < n_threads s \<Longrightarrow> stacks s t = F_Run g j # fs \<Longrightarrow> job_step s (stack_upd t (F_Ran g # fs) s)"
| finish: "t < n_threads s \<Longrightarrow> stacks s t = F_Ran g # fs \<Longrightarrow> job_step s (RunOnePending_finish t g fs s)"
| cancel: "t < n_threads s \<Longrightarrow> g < length (groups s) \<Longrightarrow> can_call (stacks s t) \<Longrightarrow> job_step s (Cancel_flag t g s)"
| swap: "t < n_threads s \<Longrightarrow> stacks s t = F_Cancel g # fs \<Longrightarrow> job_step s (Cancel_swap t g fs s)"
| sub: "t < n_threads s \<Longrightarrow> stacks s t = F_Drop g js # fs \<Longrightarrow> job_step s (Cancel_sub t g js fs s)"

lemmas job_ops = CJobGroup_ctor_def SubmitJob_count_def SubmitJob_push_def RunOnePending_pop_def RunOnePending_check_def
  RunOnePending_finish_def Cancel_flag_def Cancel_swap_def Cancel_sub_def group_upd_def stack_upd_def

subsection \<open>What the counter counts\<close>

fun frame_group :: "'j frame \<Rightarrow> nat" where
  "frame_group (F_Push g j) = g" | "frame_group (F_Popped g j) = g" | "frame_group (F_Run g j) = g"
| "frame_group (F_Ran g) = g" | "frame_group (F_Cancel g) = g" | "frame_group (F_Drop g js) = g"

fun frame_count :: "'j frame \<Rightarrow> nat" where
  "frame_count (F_Cancel g) = 0" | "frame_count (F_Drop g js) = length js" | "frame_count _ = 1"

fun frame_jobs :: "'j frame \<Rightarrow> 'j multiset" where
  "frame_jobs (F_Push g j) = {#j#}" | "frame_jobs (F_Popped g j) = {#j#}" | "frame_jobs _ = {#}"

fun stack_count :: "nat \<Rightarrow> 'j frame list \<Rightarrow> nat" where
  "stack_count g [] = 0"
| "stack_count g (f # fs) = (if frame_group f = g then frame_count f else 0) + stack_count g fs"

fun stack_jobs :: "nat \<Rightarrow> 'j frame list \<Rightarrow> 'j multiset" where
  "stack_jobs g [] = {#}"
| "stack_jobs g (f # fs) = (if frame_group f = g then frame_jobs f else {#}) + stack_jobs g fs"

definition thread_count :: "nat \<Rightarrow> 'j jobs \<Rightarrow> nat" where
  "thread_count g s = (\<Sum>t<n_threads s. stack_count g (stacks s t))"

definition thread_jobs :: "nat \<Rightarrow> 'j jobs \<Rightarrow> 'j multiset" where
  "thread_jobs g s = (\<Sum>t<n_threads s. stack_jobs g (stacks s t))"

definition stack_wf :: "'j jobs \<Rightarrow> bool" where
  "stack_wf s \<longleftrightarrow> (\<forall>t<n_threads s. \<forall>f\<in>set (stacks s t). frame_group f < length (groups s))"

definition count_inv :: "'j jobs \<Rightarrow> nat \<Rightarrow> bool" where
  "count_inv s g \<longleftrightarrow>
     (let outstanding = length (spending (groups s ! g)) + thread_count g s
      in activeJobs (groups s ! g) = of_nat outstanding \<and> outstanding \<le> size (h_submitted s g))"

definition jobs_inv :: "'j jobs \<Rightarrow> nat \<Rightarrow> bool" where
  "jobs_inv s g \<longleftrightarrow>
     h_submitted s g = mset (spending (groups s ! g)) + thread_jobs g s + h_run s g + h_skipped s g + h_dropped s g"

definition group_inv :: "'j jobs \<Rightarrow> bool" where
  "group_inv s \<longleftrightarrow> stack_wf s \<and> (\<forall>g\<ge>length (groups s). h_submitted s g = {#} \<and> h_run s g = {#} \<and> h_skipped s g = {#} \<and> h_dropped s g = {#})
     \<and> (\<forall>g<length (groups s). count_inv s g \<and> jobs_inv s g)"

lemma thread_upd:
  assumes "t < n_threads s" and "n_threads s' = n_threads s" and "stacks s' = (stacks s)(t := fs)"
  shows "thread_count g s' + stack_count g (stacks s t) = thread_count g s + stack_count g fs"
    and "thread_jobs g s' + stack_jobs g (stacks s t) = thread_jobs g s + stack_jobs g fs"
  unfolding thread_count_def thread_jobs_def assms(2,3) by (rule sum_fun_upd[OF assms(1)])+

lemma stack_wf_none:
  assumes "stack_wf s" and "length (groups s) \<le> g"
  shows "thread_count g s = 0" and "thread_jobs g s = {#}"
proof -
  have c: "stack_count g fs = 0" "stack_jobs g fs = {#}" if "\<forall>f\<in>set fs. frame_group f \<noteq> g" for fs :: "'a frame list"
    using that by (induction fs) auto
  have "\<forall>f\<in>set (stacks s t). frame_group f \<noteq> g" if "t < n_threads s" for t
    using assms that by (fastforce simp: stack_wf_def)
  then show "thread_count g s = 0" "thread_jobs g s = {#}" using c by (simp_all add: thread_count_def thread_jobs_def)
qed

text \<open>
  A step of thread \<open>t\<close> that replaces its stack keeps the invariant if it balances the books of each group.
\<close>

lemma group_inv_step:
  assumes inv: "group_inv s" and t: "t < n_threads s" and n: "n_threads s' = n_threads s"
    and st: "stacks s' = (stacks s)(t := fs)" and len: "length (groups s') = length (groups s)"
    and wf: "\<And>f. f \<in> set fs \<Longrightarrow> frame_group f < length (groups s)"
    and hist: "\<And>g. length (groups s) \<le> g \<Longrightarrow> h_submitted s' g = h_submitted s g \<and> h_run s' g = h_run s g
        \<and> h_skipped s' g = h_skipped s g \<and> h_dropped s' g = h_dropped s g"
    and count: "\<And>g. g < length (groups s) \<Longrightarrow>
        activeJobs (groups s' ! g) + of_nat (length (spending (groups s ! g)) + stack_count g (stacks s t))
          = activeJobs (groups s ! g) + of_nat (length (spending (groups s' ! g)) + stack_count g fs)
        \<and> length (spending (groups s' ! g)) + stack_count g fs + size (h_submitted s g)
          \<le> length (spending (groups s ! g)) + stack_count g (stacks s t) + size (h_submitted s' g)"
    and jobs: "\<And>g. g < length (groups s) \<Longrightarrow>
        h_submitted s' g + mset (spending (groups s ! g)) + stack_jobs g (stacks s t) + h_run s g + h_skipped s g + h_dropped s g
          = h_submitted s g + mset (spending (groups s' ! g)) + stack_jobs g fs + h_run s' g + h_skipped s' g + h_dropped s' g"
  shows "group_inv s'"
proof -
  have "count_inv s' g \<and> jobs_inv s' g" if g: "g < length (groups s)" for g
  proof -
    have old: "count_inv s g" "jobs_inv s g" using inv g by (auto simp: group_inv_def)
    note u = thread_upd[OF t n st, of g]
    have "activeJobs (groups s' ! g) + of_nat (length (spending (groups s ! g)) + stack_count g (stacks s t))
        = of_nat (length (spending (groups s ! g)) + thread_count g s) + of_nat (length (spending (groups s' ! g)) + stack_count g fs)"
      using count[OF g] old(1) by (simp add: count_inv_def Let_def)
    also have "\<dots> = of_nat (length (spending (groups s' ! g)) + thread_count g s')
        + of_nat (length (spending (groups s ! g)) + stack_count g (stacks s t))"
      unfolding of_nat_add[symmetric] using u(1) by (intro arg_cong[of _ _ of_nat]) simp
    finally have "count_inv s' g"
      using u(1) count[OF g] old(1) by (simp add: count_inv_def Let_def)
    moreover have "jobs_inv s' g"
    proof -
      have "h_submitted s' g + stack_jobs g (stacks s t)
        = mset (spending (groups s' ! g)) + h_run s' g + h_skipped s' g + h_dropped s' g + (thread_jobs g s + stack_jobs g fs)"
        using jobs[OF g] old(2) unfolding jobs_inv_def by (simp add: ac_simps)
      also have "\<dots> = (mset (spending (groups s' ! g)) + thread_jobs g s' + h_run s' g + h_skipped s' g + h_dropped s' g)
        + stack_jobs g (stacks s t)"
        unfolding u(2)[symmetric] by (simp add: ac_simps)
      finally have "h_submitted s' g + stack_jobs g (stacks s t) = \<dots>" .
      then show ?thesis unfolding jobs_inv_def by simp
    qed
    ultimately show ?thesis by simp
  qed
  moreover have "stack_wf s'" using inv wf n st len by (auto simp: group_inv_def stack_wf_def)
  ultimately show ?thesis using inv len hist by (simp add: group_inv_def)
qed

lemma nth_group_upd [simp]:
  "g < length gs \<Longrightarrow> gs[h := x] ! g = (if g = h then x else gs ! g)"
  by (auto simp: nth_list_update)

lemma stack_wf_top: "stack_wf s \<Longrightarrow> t < n_threads s \<Longrightarrow> f \<in> set (stacks s t) \<Longrightarrow> frame_group f < length (groups s)"
  by (auto simp: stack_wf_def)

lemma stack_wf_replace:
  assumes "stack_wf s" and "t < n_threads s" and "stacks s t = f # fs" and "frame_group f' = frame_group f" and "h \<in> set (f' # fs)"
  shows "frame_group h < length (groups s)"
  using assms stack_wf_top[OF assms(1,2), of f] stack_wf_top[OF assms(1,2), of h] by auto

lemma group_ctor_inv:
  assumes inv: "group_inv s"
  shows "group_inv (CJobGroup_ctor t s)"
proof -
  let ?s = "CJobGroup_ctor t s"
  have same: "thread_count g ?s = thread_count g s" "thread_jobs g ?s = thread_jobs g s" for g
    by (simp_all add: thread_count_def thread_jobs_def CJobGroup_ctor_def)
  have wf: "stack_wf s" using inv by (simp add: group_inv_def)
  have "count_inv ?s g \<and> jobs_inv ?s g" if "g < length (groups ?s)" for g
  proof (cases "g < length (groups s)")
    case True
    then show ?thesis using inv same by (auto simp: group_inv_def count_inv_def jobs_inv_def CJobGroup_ctor_def nth_append)
  next
    case False
    then have g: "g = length (groups s)" using that by (simp add: CJobGroup_ctor_def)
    then show ?thesis using inv same stack_wf_none[OF wf, of g]
      by (auto simp: group_inv_def count_inv_def jobs_inv_def CJobGroup_ctor_def)
  qed
  moreover have "stack_wf ?s" using wf by (fastforce simp: stack_wf_def CJobGroup_ctor_def)
  ultimately show ?thesis using inv by (simp add: group_inv_def) (simp add: CJobGroup_ctor_def)
qed

lemma job_step_inv:
  assumes "job_step s s'" and inv: "group_inv s"
  shows "group_inv s'"
proof -
  have wf: "stack_wf s" using inv by (simp add: group_inv_def)
  from assms(1) show ?thesis
  proof cases
    case (ctor t)
    then show ?thesis using group_ctor_inv[OF inv] by simp
  next
    case (count t g ready j)
    have "frame_group f < length (groups s)" if "f \<in> set (F_Push g j # stacks s t)" for f
      using that stack_wf_top[OF wf count(2)] count(3) by auto
    note w = this
    show ?thesis
    proof (cases ready)
      case True
      then show ?thesis
        using w count(3) by (intro group_inv_step[OF inv count(2), of _ "F_Push g j # stacks s t"]) (auto simp: count(1) job_ops)
    next
      case False
      then show ?thesis using inv count(1) by (simp add: SubmitJob_count_def)
    qed
  next
    case (push t g j fs)
    have w: "frame_group f < length (groups s)" if "f \<in> set (F_Push g j # fs)" for f
      using that stack_wf_top[OF wf push(2)] push(3) by auto
    then show ?thesis
      using push(3) by (intro group_inv_step[OF inv push(2), of _ fs]) (auto simp: push(1) job_ops)
  next
    case (pop t g)
    show ?thesis
    proof (cases "spending (groups s ! g)")
      case Nil
      then show ?thesis using inv pop(1) by (simp add: RunOnePending_pop_def)
    next
      case (Cons j js)
      have "frame_group f < length (groups s)" if "f \<in> set (F_Popped g j # stacks s t)" for f
        using that stack_wf_top[OF wf pop(2)] pop(3) by auto
      then show ?thesis
        by (intro group_inv_step[OF inv pop(2), of _ "F_Popped g j # stacks s t"]) (auto simp: pop(1) job_ops Cons)
    qed
  next
    case (check t g j fs)
    let ?f = "if IsCancelled (groups s) g then F_Ran g else F_Run g j"
    have g: "g < length (groups s)" using stack_wf_top[OF wf check(2), of "F_Popped g j"] check(3) by simp
    have "frame_group f < length (groups s)" if "f \<in> set (?f # fs)" for f
      using that stack_wf_top[OF wf check(2)] check(3) g by (auto split: if_splits)
    with g show ?thesis
      using check(3) by (intro group_inv_step[OF inv check(2), of _ "?f # fs"]) (auto simp: check(1) job_ops)
  next
    case (body t g j fs)
    have "frame_group f < length (groups s)" if "f \<in> set (F_Ran g # fs)" for f
      using that by (rule stack_wf_replace[OF wf body(2,3), rotated]) simp
    then show ?thesis
      using body(3) by (intro group_inv_step[OF inv body(2), of _ "F_Ran g # fs"]) (auto simp: body(1) job_ops)
  next
    case (finish t g fs)
    have "frame_group f < length (groups s)" if "f \<in> set fs" for f
      using that stack_wf_top[OF wf finish(2)] finish(3) by auto
    then show ?thesis
      using finish(3) by (intro group_inv_step[OF inv finish(2), of _ fs]) (auto simp: finish(1) job_ops)
  next
    case (cancel t g)
    have "frame_group f < length (groups s)" if "f \<in> set (F_Cancel g # stacks s t)" for f
      using that stack_wf_top[OF wf cancel(2)] cancel(3) by auto
    then show ?thesis
      by (intro group_inv_step[OF inv cancel(2), of _ "F_Cancel g # stacks s t"]) (auto simp: cancel(1) job_ops)
  next
    case (swap t g fs)
    have "frame_group f < length (groups s)" if "f \<in> set (F_Drop g (spending (groups s ! g)) # fs)" for f
      using that by (rule stack_wf_replace[OF wf swap(2,3), rotated]) simp
    moreover have "g < length (groups s)" using stack_wf_top[OF wf swap(2), of "F_Cancel g"] swap(3) by simp
    ultimately show ?thesis
      using swap(3) by (intro group_inv_step[OF inv swap(2), of _ "F_Drop g (spending (groups s ! g)) # fs"]) (auto simp: swap(1) job_ops)
  next
    case (sub t g js fs)
    have "frame_group f < length (groups s)" if "f \<in> set fs" for f
      using that stack_wf_top[OF wf sub(2)] sub(3) by auto
    then show ?thesis
      using sub(3) by (intro group_inv_step[OF inv sub(2), of _ fs]) (auto simp: sub(1) job_ops)
  qed
qed

lemma init_inv: "group_inv (jobs_init n)"
  by (simp add: group_inv_def stack_wf_def jobs_init_def)

abbreviation job_reachable :: "nat \<Rightarrow> 'j jobs \<Rightarrow> bool" where
  "job_reachable n s \<equiv> job_step\<^sup>*\<^sup>* (jobs_init n) s"

lemma job_reachable_inv: "job_reachable n s \<Longrightarrow> group_inv s"
  by (induction rule: rtranclp_induct) (simp_all add: init_inv job_step_inv)

subsection \<open>Cancellation\<close>

text \<open>
  The flags are never cleared and parents never change, so that a cancelled group stays cancelled; jobs are skipped or dropped
  only in a group that is.
\<close>

definition later :: "'j SState list \<Rightarrow> 'j SState list \<Rightarrow> bool" where
  "later gs gs' \<longleftrightarrow> length gs \<le> length gs' \<and>
     (\<forall>g<length gs. sparent (gs' ! g) = sparent (gs ! g) \<and> (cancelled (gs ! g) \<longrightarrow> cancelled (gs' ! g)))"

lemma IsCancelled_later:
  assumes "later gs gs'" and "IsCancelled gs g" and "g < length gs"
  shows "IsCancelled gs' g"
  using assms
proof (induction g rule: less_induct)
  case (less g)
  have g: "sparent (gs' ! g) = sparent (gs ! g)" "cancelled (gs ! g) \<longrightarrow> cancelled (gs' ! g)"
    using less.prems(1,3) by (auto simp: later_def)
  show ?case
  proof (cases "cancelled (gs ! g)")
    case True
    then show ?thesis using g by (subst IsCancelled.simps) simp
  next
    case False
    then obtain p where p: "sparent (gs ! g) = Some p" "p < g" "IsCancelled gs p"
      using less.prems(2) by (subst (asm) IsCancelled.simps) (auto split: option.splits if_splits)
    then have "IsCancelled gs' p" using less.IH less.prems by simp
    then show ?thesis using g p by (subst IsCancelled.simps) simp
  qed
qed

lemma job_step_later: "job_step s s' \<Longrightarrow> later (groups s) (groups s')"
  by (induction rule: job_step.induct)
    (auto simp: later_def job_ops nth_append nth_list_update split: list.splits)

definition cancel_inv :: "'j jobs \<Rightarrow> bool" where
  "cancel_inv s \<longleftrightarrow>
     (\<forall>g<length (groups s). h_skipped s g \<noteq> {#} \<or> h_dropped s g \<noteq> {#} \<longrightarrow> IsCancelled (groups s) g)
     \<and> (\<forall>t g. t < n_threads s \<and> F_Cancel g \<in> set (stacks s t) \<longrightarrow> cancelled (groups s ! g))"

lemma IsCancelled_own: "cancelled (gs ! g) \<Longrightarrow> IsCancelled gs g"
  by (subst IsCancelled.simps) simp

lemma job_step_cancel_inv:
  assumes step: "job_step s s'" and inv: "group_inv s" and c: "cancel_inv s"
  shows "cancel_inv s'"
proof -
  have wf: "stack_wf s" using inv by (simp add: group_inv_def)
  have hist: "h_skipped s g = {#}" "h_dropped s g = {#}" if "\<not> g < length (groups s)" for g
    using inv that by (simp_all add: group_inv_def)
  have keep: "IsCancelled (groups s') g" if "g < length (groups s)" "h_skipped s g \<noteq> {#} \<or> h_dropped s g \<noteq> {#}" for g
    using c that IsCancelled_later[OF job_step_later[OF step]] by (simp add: cancel_inv_def)
  have flags: "cancelled (groups s' ! g)" if "t < n_threads s" "F_Cancel g \<in> set (stacks s t)" for t g
    using c that stack_wf_top[OF wf that] job_step_later[OF step] by (auto simp: cancel_inv_def later_def)
  have new: "IsCancelled (groups s') g"
    if "h_skipped s' g \<noteq> h_skipped s g \<or> h_dropped s' g \<noteq> h_dropped s g" for g
    using step
  proof cases
    case (check t h j fs)
    then have "g = h" "IsCancelled (groups s) h" "groups s' = groups s"
      using that by (auto simp: job_ops split: if_splits)
    then show ?thesis by simp
  next
    case (swap t h fs)
    then have "g = h" using that by (auto simp: job_ops split: if_splits)
    then show ?thesis using flags[of t h] swap IsCancelled_own by simp
  qed (use that in \<open>auto simp: job_ops split: list.splits if_splits\<close>)
  have frames: "F_Cancel g \<in> set (stacks s t) \<or> cancelled (groups s' ! g)"
    if "t < n_threads s'" "F_Cancel g \<in> set (stacks s' t)" for t g
    using step that stack_wf_top[OF wf]
    by cases (auto simp: job_ops split: if_splits list.splits)
  have n: "n_threads s' = n_threads s" using step by cases (auto simp: job_ops split: list.splits)
  show ?thesis
    unfolding cancel_inv_def using keep new hist flags frames n by metis
qed

lemma job_reachable_cancel: "job_reachable n s \<Longrightarrow> cancel_inv s"
proof (induction rule: rtranclp_induct)
  case base
  show ?case by (simp add: cancel_inv_def jobs_init_def)
next
  case (step y z)
  then show ?case using job_step_cancel_inv job_reachable_inv by blast
qed

subsection \<open>Waiting\<close>

lemma stack_count_0:
  "stack_count g fs = 0 \<Longrightarrow> stack_jobs g fs = {#}"
  "stack_count g fs = 0 \<Longrightarrow> f \<in> set fs \<Longrightarrow> frame_group f = g \<Longrightarrow> f = F_Cancel g \<or> f = F_Drop g []"
proof -
  have 1: "frame_count f = 0 \<Longrightarrow> frame_jobs f = {#} \<and> (f = F_Cancel (frame_group f) \<or> f = F_Drop (frame_group f) [])"
    for f :: "'a frame" by (cases f) auto
  show "stack_count g fs = 0 \<Longrightarrow> stack_jobs g fs = {#}" by (induction fs) (auto simp: 1 split: if_splits)
  show "stack_count g fs = 0 \<Longrightarrow> f \<in> set fs \<Longrightarrow> frame_group f = g \<Longrightarrow> f = F_Cancel g \<or> f = F_Drop g []"
    by (induction fs) (auto dest!: 1 split: if_splits)
qed

lemma complete_empty:
  assumes "group_inv s" and "g < length (groups s)" and "IsComplete g s" and "size (h_submitted s g) < 2 ^ 64"
  shows "spending (groups s ! g) = []" and "t < n_threads s \<Longrightarrow> stack_count g (stacks s t) = 0" and "thread_jobs g s = {#}"
proof -
  let ?n = "length (spending (groups s ! g)) + thread_count g s"
  have "of_nat ?n = (0 :: u64)" "?n < 2 ^ 64"
    using assms by (auto simp: group_inv_def count_inv_def IsComplete_def Let_def)
  then have n: "?n = 0" using unat_of_nat_small[of ?n, where 'w = 64] by simp
  then show "spending (groups s ! g) = []" by simp
  have z: "stack_count g (stacks s t) = 0" if "t < n_threads s" for t using n that by (simp add: thread_count_def)
  then show "t < n_threads s \<Longrightarrow> stack_count g (stacks s t) = 0" .
  show "thread_jobs g s = {#}" unfolding thread_jobs_def using stack_count_0(1)[OF z] by (intro sum.neutral) simp
qed

text \<open>C9.
  \<open>Wait\<close> and \<open>IsComplete\<close> can be trusted: when the counter of a group reads zero, no thread is still submitting, running or
  settling a job of it, and every job ever submitted to it was run once, or skipped or dropped because the group or one
  of its ancestors was cancelled; a group that was not cancelled has run every job exactly once.
\<close>

theorem job_group_complete:
  assumes "job_reachable n s" and "g < length (groups s)" and "IsComplete g s" and "size (h_submitted s g) < 2 ^ 64"
  shows "spending (groups s ! g) = []
    \<and> (\<forall>t<n_threads s. \<forall>f\<in>set (stacks s t). frame_group f = g \<longrightarrow> f = F_Cancel g \<or> f = F_Drop g [])
    \<and> h_submitted s g = h_run s g + h_skipped s g + h_dropped s g
    \<and> (\<not> IsCancelled (groups s) g \<longrightarrow> h_submitted s g = h_run s g)"
proof -
  have inv: "group_inv s" by (rule job_reachable_inv[OF assms(1)])
  note e = complete_empty[OF inv assms(2-4)]
  have j: "h_submitted s g = h_run s g + h_skipped s g + h_dropped s g"
    using inv assms(2) e(1,3) by (simp add: group_inv_def jobs_inv_def)
  moreover have "\<not> IsCancelled (groups s) g \<longrightarrow> h_skipped s g = {#} \<and> h_dropped s g = {#}"
    using job_reachable_cancel[OF assms(1)] assms(2) by (auto simp: cancel_inv_def)
  moreover have "\<forall>t<n_threads s. \<forall>f\<in>set (stacks s t). frame_group f = g \<longrightarrow> f = F_Cancel g \<or> f = F_Drop g []"
    using stack_count_0(2)[OF e(2)] by blast
  ultimately show ?thesis using e(1) by simp
qed

text \<open>\<open>RunOnePending\<close> and \<open>Wait\<close> on a thread that nothing interrupts, with jobs that do not use the group.\<close>

definition RunOnePending :: "nat \<Rightarrow> nat \<Rightarrow> 'j jobs \<Rightarrow> 'j jobs" where
  "RunOnePending t g s =
     (case spending (groups s ! g) of
        [] \<Rightarrow> s
      | j # js \<Rightarrow>
          (let fs = stacks s t;
               s1 = RunOnePending_check t g j fs (RunOnePending_pop t g s);
               s2 = (if tCurrent (stacks s1 t) = Some g \<and> hd (stacks s1 t) = F_Run g j then stack_upd t (F_Ran g # fs) s1 else s1)
           in RunOnePending_finish t g fs s2))"

fun Wait_alone :: "nat \<Rightarrow> nat \<Rightarrow> nat \<Rightarrow> 'j jobs \<Rightarrow> 'j jobs option" where
  "Wait_alone 0 t g s = (if IsComplete g s then Some s else None)"
| "Wait_alone (Suc fuel) t g s = (if IsComplete g s then Some s else Wait_alone fuel t g (RunOnePending t g s))"

definition wait_one :: "'j \<Rightarrow> 'j list \<Rightarrow> nat \<Rightarrow> 'j jobs \<Rightarrow> 'j jobs" where
  "wait_one j js g s =
     group_upd g (\<lambda>x. x\<lparr>spending := js, activeJobs := activeJobs x - 1\<rparr>)
       (if IsCancelled (groups s) g then s\<lparr>h_skipped := (h_skipped s)(g := add_mset j (h_skipped s g))\<rparr>
        else s\<lparr>h_run := (h_run s)(g := add_mset j (h_run s g))\<rparr>)"

lemma IsCancelled_cong:
  "length gs' = length gs \<Longrightarrow> (\<And>h. h \<le> g \<Longrightarrow> cancelled (gs' ! h) = cancelled (gs ! h) \<and> sparent (gs' ! h) = sparent (gs ! h))
   \<Longrightarrow> IsCancelled gs' g = IsCancelled gs g"
proof (induction g rule: less_induct)
  case (less g)
  have "IsCancelled gs' p = IsCancelled gs p" if "p < g" for p using less.IH[OF that less.prems(1)] less.prems(2) that by simp
  then show ?case using less.prems(2)[of g] by (subst (1 2) IsCancelled.simps) (auto split: option.splits)
qed

lemma IsCancelled_upd:
  assumes "g < length (groups s)" and "\<And>x. cancelled (f x) = cancelled x \<and> sparent (f x) = sparent x"
  shows "IsCancelled ((groups s)[g := f (groups s ! g)]) h = IsCancelled (groups s) h"
  using assms by (intro IsCancelled_cong) (auto simp: nth_list_update)

lemma RunOnePending_eq:
  assumes "spending (groups s ! g) = j # js" and "g < length (groups s)"
  shows "RunOnePending t g s = wait_one j js g s"
proof -
  have c: "IsCancelled ((groups s)[g := (groups s ! g)\<lparr>spending := js\<rparr>]) g = IsCancelled (groups s) g"
    using IsCancelled_upd[OF assms(2), of "\<lambda>x. x\<lparr>spending := js\<rparr>" g] by simp
  show ?thesis
    using assms(2) by (simp add: RunOnePending_def wait_one_def job_ops assms(1) Let_def c)
qed

text \<open>\<open>Wait\<close> cannot deadlock for want of workers: on a thread that is left alone with a group whose jobs are all still queued, the
  loop runs them itself, one per round and in the order of their submission, and then returns.
\<close>

theorem wait_drains_inline:
  assumes "g < length (groups s)" and "activeJobs (groups s ! g) = of_nat (length (spending (groups s ! g)))"
    and "length (spending (groups s ! g)) < 2 ^ 64" and "\<not> IsCancelled (groups s) g"
  shows "\<exists>s'. Wait_alone (length (spending (groups s ! g))) t g s = Some s' \<and> IsComplete g s'
    \<and> spending (groups s' ! g) = [] \<and> h_run s' g = h_run s g + mset (spending (groups s ! g))"
  using assms
proof (induction "spending (groups s ! g)" arbitrary: s)
  case Nil
  then show ?case by (simp add: IsComplete_def)
next
  case (Cons j js)
  note eq = Cons.hyps(2)[symmetric]
  let ?s = "wait_one j js g s"
  have c: "IsCancelled (groups ?s) g = IsCancelled (groups s) g"
    using IsCancelled_upd[OF Cons.prems(1), of "\<lambda>x. x\<lparr>spending := js, activeJobs := activeJobs x - 1\<rparr>" g]
    by (simp add: wait_one_def group_upd_def)
  have f: "groups ?s ! g = (groups s ! g)\<lparr>spending := js, activeJobs := of_nat (length js)\<rparr>" "length (groups ?s) = length (groups s)"
    "h_run ?s g = add_mset j (h_run s g)"
    using Cons.prems eq by (simp_all add: wait_one_def group_upd_def)
  have "\<not> IsComplete g s"
  proof -
    have "unat (activeJobs (groups s ! g)) = length (j # js)"
      unfolding Cons.prems(2) eq using Cons.prems(3) eq by (intro unat_of_nat_small) simp
    then show ?thesis by (auto simp: IsComplete_def)
  qed
  then have "Wait_alone (length (spending (groups s ! g))) t g s = Wait_alone (length js) t g ?s"
    using eq RunOnePending_eq[OF eq Cons.prems(1)] by simp
  moreover have "\<exists>s'. Wait_alone (length js) t g ?s = Some s' \<and> IsComplete g s'
      \<and> spending (groups s' ! g) = [] \<and> h_run s' g = h_run ?s g + mset js"
    using Cons.hyps(1)[of ?s] Cons.prems eq f c by simp
  ultimately show ?case using f(3) eq by auto
qed

text \<open>A group with one queued job, submitted by the only thread.\<close>

definition one_queued :: "string jobs" where
  "one_queued = SubmitJob_push 0 0 ''a'' [] (SubmitJob_count True 0 0 ''a'' (CJobGroup_ctor 0 (jobs_init 1)))"

lemmas one_queued_simps = one_queued_def job_ops jobs_init_def

lemma one_queued_reachable: "job_reachable 1 one_queued"
proof -
  let ?s1 = "CJobGroup_ctor 0 (jobs_init 1)"
  let ?s2 = "SubmitJob_count True 0 0 ''a'' ?s1"
  have "job_step (jobs_init 1) ?s1" by (rule job_step.ctor) (simp_all add: jobs_init_def can_call_def)
  moreover have "job_step ?s1 ?s2" by (rule job_step.count) (simp_all add: one_queued_simps can_call_def)
  moreover have "job_step ?s2 one_queued" unfolding one_queued_def by (rule job_step.push) (simp_all add: one_queued_simps)
  ultimately show ?thesis by (meson converse_rtranclp_into_rtranclp rtranclp.rtrancl_refl)
qed

theorem wait_drains_inline_witness:
  "\<exists>s'. Wait_alone 1 0 0 one_queued = Some s' \<and> h_run s' 0 = {#''a''#}"
proof -
  have q: "0 < length (groups one_queued)" "spending (groups one_queued ! 0) = [''a'']" "activeJobs (groups one_queued ! 0) = 1"
    "\<not> IsCancelled (groups one_queued) 0" "h_run one_queued 0 = {#}"
    by (simp_all add: one_queued_simps IsCancelled.simps)
  then show ?thesis using wait_drains_inline[OF q(1), of 0] by (auto simp del: Wait_alone.simps)
qed

definition one_run :: "string jobs" where
  "one_run = RunOnePending_finish 0 0 [] (stack_upd 0 [F_Ran 0] (RunOnePending_check 0 0 ''a'' [] (RunOnePending_pop 0 0 one_queued)))"

lemma one_run_reachable: "job_reachable 1 one_run"
proof -
  let ?s1 = "RunOnePending_pop 0 0 one_queued"
  let ?s2 = "RunOnePending_check 0 0 ''a'' [] ?s1"
  let ?s3 = "stack_upd 0 [F_Ran 0] ?s2"
  have "job_step one_queued ?s1" by (rule job_step.pop) (simp_all add: one_queued_simps can_call_def)
  moreover have "job_step ?s1 ?s2" by (rule job_step.check) (simp_all add: one_queued_simps)
  moreover have "job_step ?s2 ?s3" by (rule job_step.body) (simp_all add: one_queued_simps IsCancelled.simps)
  moreover have "job_step ?s3 one_run" unfolding one_run_def
    by (rule job_step.finish) (simp_all add: one_queued_simps IsCancelled.simps)
  ultimately show ?thesis by (meson one_queued_reachable rtranclp.rtrancl_into_rtrancl)
qed

theorem job_group_complete_witness:
  "IsComplete 0 one_run \<and> h_submitted one_run 0 = {#''a''#} \<and> h_run one_run 0 = h_submitted one_run 0"
proof -
  have c: "0 < length (groups one_run)" "IsComplete 0 one_run" "h_submitted one_run 0 = {#''a''#}" "\<not> IsCancelled (groups one_run) 0"
    by (simp_all add: IsComplete_def one_run_def one_queued_simps IsCancelled.simps)
  moreover have "size (h_submitted one_run 0) < 2 ^ 64" by (simp add: c(3))
  ultimately have "h_submitted one_run 0 = h_run one_run 0" using job_group_complete[OF one_run_reachable c(1,2)] by blast
  then show ?thesis using c(2,3) by simp
qed

end
