(* ===== verification/Job_System.thy ===== *)
theory Job_System
  imports Job_Group
begin

section \<open>The job system: start-up, the scheduler's counters and parallel loops\<close>

text \<open>
  Models \<^verbatim>\<open>private/threading/job_system.cpp\<close>, \<^verbatim>\<open>job_scheduler.cpp\<close>, \<^verbatim>\<open>parallel_for.cpp\<close> and
  \<^verbatim>\<open>public/tge/threading/parallel_for.hpp\<close>.  The per-thread set-up of the allocator is a call out of the sources and is left out.
\<close>

lemma unat_ucast_32_64 [simp]: "unat (ucast (x :: u32) :: u64) = unat x"
  using unat_lt_word[of x] by (simp add: unsigned_ucast_eq take_bit_eq_mod)

subsection \<open>Start-up and shut-down\<close>

record 'w job_system =
  gThreadPool :: "'w pool option"
  gJobScheduler :: bool
  js_log :: "string list"

definition AutoThreadCount :: size_t where
  "AutoThreadCount = - 1"

definition GetNumThreads :: "'w job_system \<Rightarrow> size_t" where
  "GetNumThreads s = (case gThreadPool s of None \<Rightarrow> 0 | Some p \<Rightarrow> of_nat (m_numThreads p))"

text \<open>The argument \<open>hardware\<close> is what \<open>hardware_concurrency\<close> returns, zero when it does not know.\<close>

definition Initialize :: "u32 \<Rightarrow> size_t \<Rightarrow> 'w job_system \<Rightarrow> bool \<times> 'w job_system" where
  "Initialize hardware numThreads s =
     (let n = (if numThreads = AutoThreadCount
               then (let h = ucast hardware :: size_t in if h = 0 then 4 else h)
               else numThreads)
      in (True, s\<lparr>gThreadPool := Some (CThreadPool_ctor (unat n)), gJobScheduler := True, js_log := js_log s @ [''Initialized'']\<rparr>))"

text \<open>\<open>Terminate\<close> deletes the pool, whose destructor joins the workers, and then the scheduler they use.\<close>

definition Terminate_pool :: "'w job_system \<Rightarrow> 'w job_system" where
  "Terminate_pool s =
     (case gThreadPool s of
        None \<Rightarrow> s
      | Some p \<Rightarrow> s\<lparr>gThreadPool := None, js_log := js_log s @ [''Terminated'']\<rparr>)"

definition Terminate :: "'w job_system \<Rightarrow> 'w job_system" where
  "Terminate s = (let s1 = Terminate_pool s in if gJobScheduler s1 then s1\<lparr>gJobScheduler := False\<rparr> else s1)"

lemma GetNumThreads_Initialize:
  "GetNumThreads (snd (Initialize hardware n s)) =
     (if n = AutoThreadCount then if hardware = 0 then 4 else ucast hardware else n)"
proof -
  have "ucast hardware = (0 :: size_t) \<longleftrightarrow> hardware = 0"
    by (simp add: word_unat_eq_iff)
  then show ?thesis
    by (simp add: GetNumThreads_def Initialize_def CThreadPool_ctor_def Let_def)
qed

subsection \<open>The scheduler's counters\<close>

text \<open>
  Each submitted job runs in a wrapper that moves it from the pending to the active count with two separate atomic
  operations.  A job is \<open>J_Queued\<close> until the first, \<open>J_Moving\<close> between the two, \<open>J_Active\<close> after the second and \<open>J_Done\<close> once
  the active count has been lowered again.
\<close>

datatype phase = J_Queued | J_Moving | J_Active | J_Done

record scheduler =
  m_pendingJobs :: size_t
  m_activeJobs :: size_t
  s_jobs :: "phase list"

definition CJobScheduler_ctor :: scheduler where
  "CJobScheduler_ctor = \<lparr>m_pendingJobs = 0, m_activeJobs = 0, s_jobs = []\<rparr>"

definition Scheduler_SubmitJob :: "bool \<Rightarrow> bool \<Rightarrow> scheduler \<Rightarrow> scheduler" where
  "Scheduler_SubmitJob has_job has_pool s =
     (if has_job \<and> has_pool then s\<lparr>m_pendingJobs := m_pendingJobs s + 1, s_jobs := s_jobs s @ [J_Queued]\<rparr> else s)"

definition wrapper_leave :: "nat \<Rightarrow> scheduler \<Rightarrow> scheduler" where
  "wrapper_leave i s = s\<lparr>m_pendingJobs := m_pendingJobs s - 1, s_jobs := (s_jobs s)[i := J_Moving]\<rparr>"

definition wrapper_enter :: "nat \<Rightarrow> scheduler \<Rightarrow> scheduler" where
  "wrapper_enter i s = s\<lparr>m_activeJobs := m_activeJobs s + 1, s_jobs := (s_jobs s)[i := J_Active]\<rparr>"

definition wrapper_finish :: "nat \<Rightarrow> scheduler \<Rightarrow> scheduler" where
  "wrapper_finish i s = s\<lparr>m_activeJobs := m_activeJobs s - 1, s_jobs := (s_jobs s)[i := J_Done]\<rparr>"

text \<open>The predicate on which \<open>WaitForAllJobs\<close> returns.\<close>

definition WaitForAllJobs_returns :: "scheduler \<Rightarrow> bool" where
  "WaitForAllJobs_returns s \<longleftrightarrow> m_pendingJobs s = 0 \<and> m_activeJobs s = 0"

inductive sched_step :: "scheduler \<Rightarrow> scheduler \<Rightarrow> bool" where
  submit: "sched_step s (Scheduler_SubmitJob hj hp s)"
| leave: "i < length (s_jobs s) \<Longrightarrow> s_jobs s ! i = J_Queued \<Longrightarrow> sched_step s (wrapper_leave i s)"
| enter: "i < length (s_jobs s) \<Longrightarrow> s_jobs s ! i = J_Moving \<Longrightarrow> sched_step s (wrapper_enter i s)"
| finish: "i < length (s_jobs s) \<Longrightarrow> s_jobs s ! i = J_Active \<Longrightarrow> sched_step s (wrapper_finish i s)"

definition sched_inv :: "scheduler \<Rightarrow> bool" where
  "sched_inv s \<longleftrightarrow> m_pendingJobs s = of_nat (count_list (s_jobs s) J_Queued)
     \<and> m_activeJobs s = of_nat (count_list (s_jobs s) J_Active)"

lemma count_list_update:
  assumes "i < length xs"
  shows "count_list (xs[i := y]) a + (if xs ! i = a then 1 else 0) = count_list xs a + (if y = a then 1 else 0)"
  using assms
proof (induction xs arbitrary: i)
  case (Cons x xs)
  show ?case
  proof (cases i)
    case (Suc n)
    then show ?thesis using Cons.IH[of n] Cons.prems by (cases "y = a"; cases "xs ! n = a") auto
  qed simp
qed simp

lemma of_nat_count_update:
  assumes "i < length xs"
  shows "of_nat (count_list (xs[i := y]) a) =
    (of_nat (count_list xs a) + (if y = a then 1 else 0) - (if xs ! i = a then 1 else 0) :: size_t)"
  using arg_cong[OF count_list_update[OF assms, of y a], of "of_nat :: nat \<Rightarrow> size_t"]
  by (auto simp: algebra_simps split: if_splits)

lemma sched_step_inv: "sched_step s s' \<Longrightarrow> sched_inv s \<Longrightarrow> sched_inv s'"
  by (induction rule: sched_step.induct)
    (auto simp: sched_inv_def Scheduler_SubmitJob_def wrapper_leave_def wrapper_enter_def wrapper_finish_def of_nat_count_update)

abbreviation sched_reachable :: "scheduler \<Rightarrow> bool" where
  "sched_reachable s \<equiv> sched_step\<^sup>*\<^sup>* CJobScheduler_ctor s"

lemma sched_reachable_inv: "sched_reachable s \<Longrightarrow> sched_inv s"
proof (induction rule: rtranclp_induct)
  case base
  show ?case by (simp add: sched_inv_def CJobScheduler_ctor_def)
qed (rule sched_step_inv)

lemma of_nat_0_small: "n < 2 ^ 64 \<Longrightarrow> (of_nat n :: size_t) = 0 \<longleftrightarrow> n = 0"
  using unat_of_nat_small[of n, where 'w = 64] by auto

text \<open>C39.
  \<open>WaitForAllJobs\<close> returns exactly when every job is done or stands between the two counters: a job that has left the pending count
  and not yet reached the active one is not waited for.  Such a state is reachable, so that the wait can return while a
  submitted job has not run.
\<close>

theorem wait_for_all_jobs_exact:
  assumes "sched_reachable s" and "length (s_jobs s) < 2 ^ 64"
  shows "(WaitForAllJobs_returns s \<longleftrightarrow> (\<forall>p\<in>set (s_jobs s). p = J_Done \<or> p = J_Moving))
    \<and> (\<exists>s'. sched_reachable s' \<and> WaitForAllJobs_returns s' \<and> s_jobs s' = [J_Moving])"
proof
  have inv: "sched_inv s" by (rule sched_reachable_inv[OF assms(1)])
  have small: "count_list (s_jobs s) a < 2 ^ 64" for a using count_le_length[of "s_jobs s" a] assms(2) by simp
  have "WaitForAllJobs_returns s \<longleftrightarrow> J_Queued \<notin> set (s_jobs s) \<and> J_Active \<notin> set (s_jobs s)"
    using inv small by (simp add: WaitForAllJobs_returns_def sched_inv_def of_nat_0_small count_list_0_iff)
  moreover have "p = J_Done \<or> p = J_Moving \<longleftrightarrow> p \<noteq> J_Queued \<and> p \<noteq> J_Active" for p by (cases p) auto
  ultimately show "WaitForAllJobs_returns s \<longleftrightarrow> (\<forall>p\<in>set (s_jobs s). p = J_Done \<or> p = J_Moving)" by metis
  let ?s = "Scheduler_SubmitJob True True CJobScheduler_ctor"
  have "sched_step CJobScheduler_ctor ?s" by (rule sched_step.submit)
  moreover have "sched_step ?s (wrapper_leave 0 ?s)"
    by (rule sched_step.leave) (simp_all add: Scheduler_SubmitJob_def CJobScheduler_ctor_def)
  ultimately have "sched_reachable (wrapper_leave 0 ?s)" by (meson converse_rtranclp_into_rtranclp rtranclp.rtrancl_refl)
  then show "\<exists>s'. sched_reachable s' \<and> WaitForAllJobs_returns s' \<and> s_jobs s' = [J_Moving]"
    by (intro exI[of _ "wrapper_leave 0 ?s"])
      (simp add: WaitForAllJobs_returns_def wrapper_leave_def Scheduler_SubmitJob_def CJobScheduler_ctor_def)
qed

theorem wait_for_all_jobs_exact_witness:
  "WaitForAllJobs_returns CJobScheduler_ctor \<and> (\<exists>s'. sched_reachable s' \<and> WaitForAllJobs_returns s' \<and> s_jobs s' = [J_Moving])"
  using wait_for_all_jobs_exact[of CJobScheduler_ctor] by (simp add: CJobScheduler_ctor_def)

subsection \<open>Parallel loops\<close>

definition ComputeParallelChunkCount :: "size_t \<Rightarrow> u32 \<Rightarrow> u32 \<Rightarrow> u32" where
  "ComputeParallelChunkCount numThreads numItems grainSize =
     (if 0 < numThreads then
        (let effectiveGrain = (if 0 < grainSize then grainSize else 1);
             chunkLimit = (numItems + effectiveGrain - 1) div effectiveGrain
         in std_min (<) (ucast numThreads) chunkLimit)
      else 0)"

definition chunk_bound :: "u32 \<Rightarrow> u32 \<Rightarrow> u32 \<Rightarrow> u32 \<Rightarrow> u32" where
  "chunk_bound first numItems numChunks chunk =
     (let span = ucast numItems :: u64
      in first + ucast ((span * ucast chunk) div ucast numChunks))"

text \<open>The loop \<open>for (index = b; index < e; ++index) func(index)\<close>: the indices it visits.\<close>

function loop_indices :: "u32 \<Rightarrow> u32 \<Rightarrow> u32 list" where
  "loop_indices b e = (if b < e then b # loop_indices (b + 1) e else [])"
  by pat_completeness auto
termination
proof (relation "measure (\<lambda>(b, e). unat e - unat b)")
  fix b e :: u32 assume "b < e"
  then have "unat (b + 1) = Suc (unat b)" "unat b < unat e"
    using unat_lt_word[of e] by (simp_all add: word_less_nat_alt no_wrap)
  then show "((b + 1, e), b, e) \<in> measure (\<lambda>(b, e). unat e - unat b)" by simp
qed simp

declare loop_indices.simps [simp del]

fun submit_chunks :: "nat \<Rightarrow> u32 \<Rightarrow> u32 \<Rightarrow> u32 \<Rightarrow> u32 \<Rightarrow> (u32 \<times> u32) list" where
  "submit_chunks 0 first numItems numChunks chunk = []"
| "submit_chunks (Suc fuel) first numItems numChunks chunk =
     (if chunk < numChunks
      then (chunk_bound first numItems numChunks chunk, chunk_bound first numItems numChunks (chunk + 1))
           # submit_chunks fuel first numItems numChunks (chunk + 1)
      else [])"

text \<open>The jobs \<open>ParallelFor\<close> submits, each a range of indices; \<open>Inr\<close> is the range it loops over itself.\<close>

definition ParallelFor :: "size_t \<Rightarrow> u32 \<Rightarrow> u32 \<Rightarrow> u32 \<Rightarrow> (u32 \<times> u32) list + (u32 \<times> u32)" where
  "ParallelFor numThreads first past grainSize =
     (let numItems = (if past > first then past - first else 0);
          numChunks = ComputeParallelChunkCount numThreads numItems grainSize
      in if 1 < numChunks then Inl (submit_chunks (unat numChunks) first numItems numChunks 0) else Inr (first, past))"

lemma loop_indices_upt: "loop_indices b e = map of_nat [unat b..<unat e]"
proof (induction b e rule: loop_indices.induct)
  case (1 b e)
  show ?case
  proof (cases "b < e")
    case True
    then have b: "unat (b + 1) = Suc (unat b)" "unat b < unat e"
      using unat_lt_word[of e] by (simp_all add: word_less_nat_alt no_wrap)
    have "loop_indices b e = b # map of_nat [Suc (unat b)..<unat e]"
      using 1[OF True] True b(1) by (subst loop_indices.simps) simp
    also have "\<dots> = map of_nat [unat b..<unat e]" using b(2) by (simp add: upt_conv_Cons)
    finally show ?thesis .
  qed (subst loop_indices.simps, simp add: word_less_nat_alt)
qed

lemma chunk_bound_nat:
  assumes "unat first + unat numItems < 2 ^ 32" and "0 < numChunks" and "chunk \<le> numChunks"
  shows "unat (chunk_bound first numItems numChunks chunk) = unat first + unat numItems * unat chunk div unat numChunks"
proof -
  have c: "0 < unat numChunks" "unat chunk \<le> unat numChunks"
    using assms(2,3) by (simp_all add: word_less_nat_alt word_le_nat_alt)
  have "unat numItems * unat chunk \<le> (2 ^ 32 - 1) * (2 ^ 32 - 1)"
    using unat_lt_word[of numItems] unat_lt_word[of chunk] by (intro mult_le_mono) auto
  then have p: "unat (ucast numItems * ucast chunk :: u64) = unat numItems * unat chunk"
    by (simp add: unat_word_ariths)
  have "unat numItems * unat chunk div unat numChunks \<le> unat numItems * unat numChunks div unat numChunks"
    using c(2) by (intro div_le_mono mult_le_mono) simp_all
  then have le: "unat numItems * unat chunk div unat numChunks \<le> unat numItems" using c(1) by simp
  let ?q = "(ucast numItems * ucast chunk :: u64) div ucast numChunks"
  have q: "unat ?q = unat numItems * unat chunk div unat numChunks" by (simp add: unat_div p)
  have "unat (ucast ?q :: u32) = unat ?q"
    using le q assms(1) by (simp add: unsigned_ucast_eq take_bit_eq_mod)
  then show ?thesis
    using le q assms(1) by (simp add: chunk_bound_def Let_def no_wrap)
qed

text \<open>The chunks from \<open>chunk\<close> on cover, in order and without a gap, the rest of the range, and none is empty.\<close>

lemma submit_chunks_cover:
  assumes "unat first + unat numItems < 2 ^ 32" and "0 < numChunks" and "numChunks \<le> numItems"
    and "chunk \<le> numChunks" and "unat numChunks - unat chunk \<le> fuel"
  shows "concat (map (\<lambda>(b, e). loop_indices b e) (submit_chunks fuel first numItems numChunks chunk))
      = map of_nat [unat first + unat numItems * unat chunk div unat numChunks..<unat first + unat numItems]
    \<and> (\<forall>(b, e)\<in>set (submit_chunks fuel first numItems numChunks chunk). b < e)
    \<and> length (submit_chunks fuel first numItems numChunks chunk) = unat numChunks - unat chunk"
  using assms(4,5)
proof (induction fuel arbitrary: chunk)
  case 0
  then have "unat chunk = unat numChunks" by (simp add: word_le_nat_alt)
  then show ?case using assms(2) by (simp add: word_less_nat_alt)
next
  case (Suc fuel)
  let ?N = "unat numItems" and ?C = "unat numChunks" and ?k = "unat chunk" and ?f = "unat first"
  have C: "0 < ?C" "?C \<le> ?N" using assms(2,3) by (simp_all add: word_less_nat_alt word_le_nat_alt)
  show ?case
  proof (cases "chunk < numChunks")
    case False
    then have "?k = ?C" using Suc.prems by (simp add: word_less_nat_alt word_le_nat_alt)
    then show ?thesis using False C(1) by simp
  next
    case True
    then have k1: "unat (chunk + 1) = Suc ?k" "Suc ?k \<le> ?C"
      using unat_lt_word[of numChunks] by (simp_all add: word_less_nat_alt no_wrap)
    then have le: "chunk + 1 \<le> numChunks" by (simp add: word_le_nat_alt)
    note IH = Suc.IH[OF le] 
    have fuel: "?C - unat (chunk + 1) \<le> fuel" using Suc.prems(2) k1 by simp
    have b: "unat (chunk_bound first numItems numChunks chunk) = ?f + ?N * ?k div ?C"
      using True by (intro chunk_bound_nat assms) simp
    have e: "unat (chunk_bound first numItems numChunks (chunk + 1)) = ?f + ?N * Suc ?k div ?C"
      using chunk_bound_nat[OF assms(1,2) le] k1 by simp
    have "?N * ?k div ?C + 1 = (?N * ?k + ?C) div ?C" using C(1) by (simp add: div_add_self2)
    also have "\<dots> \<le> ?N * Suc ?k div ?C" using C(2) by (intro div_le_mono) simp
    finally have less: "?N * ?k div ?C < ?N * Suc ?k div ?C" by simp
    have "?N * Suc ?k div ?C \<le> ?N * ?C div ?C" using k1(2) by (intro div_le_mono mult_le_mono) simp_all
    then have top: "?N * Suc ?k div ?C \<le> ?N" using C(1) by simp
    have upt: "[?f + ?N * ?k div ?C..<?f + ?N] = [?f + ?N * ?k div ?C..<?f + ?N * Suc ?k div ?C] @ [?f + ?N * Suc ?k div ?C..<?f + ?N]"
      using less top upt_add_eq_append[of "?f + ?N * ?k div ?C" "?f + ?N * Suc ?k div ?C" "?N - ?N * Suc ?k div ?C"] by simp
    have lt: "chunk_bound first numItems numChunks chunk < chunk_bound first numItems numChunks (chunk + 1)"
      using less b e by (simp add: word_less_nat_alt)
    have s: "submit_chunks (Suc fuel) first numItems numChunks chunk
        = (chunk_bound first numItems numChunks chunk, chunk_bound first numItems numChunks (chunk + 1))
          # submit_chunks fuel first numItems numChunks (chunk + 1)" using True by simp
    have "loop_indices (chunk_bound first numItems numChunks chunk) (chunk_bound first numItems numChunks (chunk + 1))
        = map of_nat [?f + ?N * ?k div ?C..<?f + ?N * Suc ?k div ?C]"
      unfolding loop_indices_upt b e ..
    then show ?thesis unfolding s upt using IH[OF fuel] lt k1 by simp
  qed
qed

lemma div_limit_le:
  fixes n g :: u32
  assumes "0 < g"
  shows "(n + g - 1) div g \<le> n"
proof -
  have g: "0 < unat g" using assms by (simp add: word_less_nat_alt)
  have "unat (n + g - 1) \<le> unat n + (unat g - 1)"
  proof -
    have "unat (n + (g - 1)) \<le> unat n + unat (g - 1)" by (simp add: unat_word_ariths)
    moreover have "unat (g - 1) = unat g - 1" using g by (simp add: no_wrap)
    ultimately show ?thesis by (simp add: add_diff_eq)
  qed
  then have "unat (n + g - 1) div unat g \<le> (unat n + (unat g - 1)) div unat g" by (rule div_le_mono)
  also have "\<dots> \<le> unat n"
  proof (cases "unat n = 0")
    case False
    have "unat n + (unat g - 1) \<le> unat n * unat g"
      using False g by (cases "unat n"; cases "unat g") (auto simp: algebra_simps)
    then have "(unat n + (unat g - 1)) div unat g \<le> unat n * unat g div unat g" by (rule div_le_mono)
    then show ?thesis using g by simp
  qed (use g in simp)
  finally show ?thesis by (simp add: word_le_nat_alt unat_div)
qed

lemma chunk_count_le: "ComputeParallelChunkCount n numItems grain \<le> numItems"
proof -
  let ?g = "if 0 < grain then grain else 1"
  have "0 < ?g" by simp
  from div_limit_le[OF this, of numItems] show ?thesis
    by (auto simp: ComputeParallelChunkCount_def Let_def min_def)
qed

text \<open>C13.
  \<open>ParallelFor\<close> is an exact partition for every range, grain and number of threads: the chunks, taken in order, visit the indices of the
  serial loop once each, no chunk is empty, there are no more chunks than workers, and no bound wraps around, also where
  the rounding of \<open>numItems\<close> up to the grain does.
\<close>

theorem parallel_for_partition:
  "case ParallelFor numThreads first past grain of
     Inl chunks \<Rightarrow> concat (map (\<lambda>(b, e). loop_indices b e) chunks) = loop_indices first past
       \<and> list_all (\<lambda>(b, e). b < e) chunks \<and> 1 < length chunks \<and> length chunks \<le> unat numThreads
   | Inr (b, e) \<Rightarrow> b = first \<and> e = past"
proof -
  let ?N = "if past > first then past - first else 0"
  let ?C = "ComputeParallelChunkCount numThreads ?N grain"
  show ?thesis
  proof (cases "1 < ?C")
    case False
    then show ?thesis by (simp add: ParallelFor_def Let_def)
  next
    case True
    have N: "past > first" using True chunk_count_le[of numThreads ?N grain] by (auto split: if_splits)
    have n: "unat (past - first) = unat past - unat first" "unat first \<le> unat past"
      using N by (simp_all add: no_wrap word_less_nat_alt)
    have fit: "unat first + unat ?N < 2 ^ 32" using N n unat_lt_word[of past] by simp
    have C0: "0 < ?C" using True by (simp add: word_less_nat_alt)
    have two: "1 < unat ?C" using True by (simp add: word_less_nat_alt)
    have p: "ParallelFor numThreads first past grain = Inl (submit_chunks (unat ?C) first ?N ?C 0)"
      using True unfolding ParallelFor_def Let_def by (simp only: if_True)
    note cover = submit_chunks_cover[OF fit C0 chunk_count_le, of 0 "unat ?C"]
    have "unat ?C \<le> unat numThreads"
    proof -
      have "?C \<le> ucast numThreads" using C0 by (auto simp: ComputeParallelChunkCount_def Let_def min_def split: if_splits)
      then have "unat ?C \<le> unat (ucast numThreads :: u32)" by (simp add: word_le_nat_alt)
      also have "\<dots> \<le> unat numThreads" by (simp add: unsigned_ucast_eq take_bit_eq_mod)
      finally show ?thesis .
    qed
    moreover have "loop_indices first past = map of_nat [unat first..<unat first + unat ?N]"
      using N n by (simp add: loop_indices_upt)
    ultimately show ?thesis
      unfolding p sum.case using cover two unfolding list_all_iff by (simp only: unsigned_0 mult_0_right div_0 add_0_right diff_zero) simp
  qed
qed

end
