(* ===== verification/Serial_Job_Queue.thy ===== *)
theory Serial_Job_Queue
  imports Prelude "HOL-Library.Sublist"
begin

section \<open>The serial job queue\<close>

text \<open>
  Models \<^verbatim>\<open>public/tge/threading/serial_job_queue.hpp\<close>: one worker thread that runs the submitted jobs one after the other, and results
  that are polled.  What a job computes is the parameter \<open>eval\<close> of its work.  The worker's wait on the condition
  variable is kept in three parts, because \<open>Stop\<close> stores its flag without the mutex: \<open>W_Eval\<close>, about to evaluate the predicate;
  \<open>W_Falling\<close>, found it false and still holds the mutex; \<open>W_Blocked\<close>, asleep without it.  Whoever needs the
  mutex cannot step while the worker is \<open>W_Falling\<close>.  A blocked worker may also wake up spuriously.
\<close>

record 'w SEntry =
  jobId :: string
  ework :: 'w

datatype 'w serial_worker = W_None | W_Eval | W_Falling | W_Blocked | W_Work 'w | W_Exited

datatype owner = O_Free | O_Notify | O_Join

record ('w, 'r) serial =
  m_isRunning :: bool
  m_shouldStop :: bool
  m_pending :: "'w SEntry list"
  m_completed :: "'r list"
  m_cancelled :: "string set"
  sq_worker :: "'w serial_worker"
  sq_owner :: owner
  sq_submitted :: "'w list"
  sq_polled :: "'r list"
  sq_plain :: bool

text \<open>The last three are history: the work submitted, the results polled, and that nothing was cancelled or flushed.\<close>

definition serial_ctor :: "('w, 'r) serial" where
  "serial_ctor = \<lparr>m_isRunning = False, m_shouldStop = False, m_pending = [], m_completed = [], m_cancelled = {},
     sq_worker = W_None, sq_owner = O_Free, sq_submitted = [], sq_polled = [], sq_plain = True\<rparr>"

definition Start :: "('w, 'r) serial \<Rightarrow> ('w, 'r) serial" where
  "Start s = (if \<not> m_isRunning s then s\<lparr>m_shouldStop := False, m_isRunning := True, sq_worker := W_Eval\<rparr> else s)"

text \<open>What \<open>notify_one\<close> does: a worker that is asleep evaluates its predicate again.\<close>

definition notify_one :: "('w, 'r) serial \<Rightarrow> ('w, 'r) serial" where
  "notify_one s = (if sq_worker s = W_Blocked then s\<lparr>sq_worker := W_Eval\<rparr> else s)"

definition Stop_store :: "('w, 'r) serial \<Rightarrow> ('w, 'r) serial" where
  "Stop_store s = (if m_isRunning s then s\<lparr>m_shouldStop := True, sq_owner := O_Notify\<rparr> else s)"

definition Stop_notify :: "('w, 'r) serial \<Rightarrow> ('w, 'r) serial" where
  "Stop_notify s = (notify_one s)\<lparr>sq_owner := O_Join\<rparr>"

definition Stop_joined :: "('w, 'r) serial \<Rightarrow> ('w, 'r) serial" where
  "Stop_joined s = s\<lparr>sq_worker := W_None, m_isRunning := False, sq_owner := O_Free\<rparr>"

text \<open>\<open>Flush\<close> is \<open>Stop\<close>, this, and \<open>Start\<close>.\<close>

definition Flush_clear :: "('w, 'r) serial \<Rightarrow> ('w, 'r) serial" where
  "Flush_clear s = s\<lparr>m_pending := [], m_cancelled := {}, m_completed := [], sq_plain := False\<rparr>"

definition Submit :: "string \<Rightarrow> 'w \<Rightarrow> ('w, 'r) serial \<Rightarrow> ('w, 'r) serial" where
  "Submit j w s = notify_one (s\<lparr>m_pending := m_pending s @ [\<lparr>jobId = j, ework = w\<rparr>], sq_submitted := sq_submitted s @ [w]\<rparr>)"

definition Poll :: "('w, 'r) serial \<Rightarrow> 'r option \<times> ('w, 'r) serial" where
  "Poll s = (case m_completed s of
     [] \<Rightarrow> (None, s)
   | r # rs \<Rightarrow> (Some r, s\<lparr>m_completed := rs, sq_polled := sq_polled s @ [r]\<rparr>))"

definition Cancel :: "string \<Rightarrow> ('w, 'r) serial \<Rightarrow> ('w, 'r) serial" where
  "Cancel j s =
     (let kept = filter (\<lambda>e. jobId e \<noteq> j) (m_pending s);
          wasPending = (kept \<noteq> m_pending s)
      in s\<lparr>m_pending := kept, m_cancelled := (if wasPending then m_cancelled s else insert j (m_cancelled s)), sq_plain := False\<rparr>)"

definition GetPendingCount :: "('w, 'r) serial \<Rightarrow> nat" where
  "GetPendingCount s = length (m_pending s)"

definition HasPendingWork :: "('w, 'r) serial \<Rightarrow> bool" where
  "HasPendingWork s \<longleftrightarrow> m_pending s \<noteq> []"

text \<open>\<open>WorkerThreadMain\<close>: the wait, the turn under the mutex, the work.\<close>

definition Worker_eval :: "('w, 'r) serial \<Rightarrow> ('w, 'r) serial" where
  "Worker_eval s =
     (if m_shouldStop s \<or> m_pending s \<noteq> [] then
        if m_shouldStop s then s\<lparr>sq_worker := W_Exited\<rparr>
        else (case m_pending s of
                [] \<Rightarrow> s
              | e # es \<Rightarrow>
                  if jobId e \<in> m_cancelled s then s\<lparr>m_pending := es, m_cancelled := m_cancelled s - {jobId e}\<rparr>
                  else s\<lparr>m_pending := es, sq_worker := W_Work (ework e)\<rparr>)
      else s\<lparr>sq_worker := W_Falling\<rparr>)"

definition Worker_done :: "('w \<Rightarrow> 'r) \<Rightarrow> 'w \<Rightarrow> ('w, 'r) serial \<Rightarrow> ('w, 'r) serial" where
  "Worker_done eval w s = s\<lparr>m_completed := m_completed s @ [eval w], sq_worker := W_Eval\<rparr>"

inductive serial_move :: "('w \<Rightarrow> 'r) \<Rightarrow> ('w, 'r) serial \<Rightarrow> ('w, 'r) serial \<Rightarrow> bool" for eval where
  evaluate: "sq_worker s = W_Eval \<Longrightarrow> serial_move eval s (Worker_eval s)"
| fall: "sq_worker s = W_Falling \<Longrightarrow> serial_move eval s (s\<lparr>sq_worker := W_Blocked\<rparr>)"
| finished: "sq_worker s = W_Work w \<Longrightarrow> serial_move eval s (Worker_done eval w s)"
| notify: "sq_owner s = O_Notify \<Longrightarrow> serial_move eval s (Stop_notify s)"
| joined: "sq_owner s = O_Join \<Longrightarrow> sq_worker s = W_Exited \<Longrightarrow> serial_move eval s (Stop_joined s)"

inductive serial_step :: "('w \<Rightarrow> 'r) \<Rightarrow> ('w, 'r) serial \<Rightarrow> ('w, 'r) serial \<Rightarrow> bool" for eval where
  move: "serial_move eval s s' \<Longrightarrow> serial_step eval s s'"
| start: "sq_owner s = O_Free \<Longrightarrow> serial_step eval s (Start s)"
| stop: "sq_owner s = O_Free \<Longrightarrow> serial_step eval s (Stop_store s)"
| flush: "sq_owner s = O_Free \<Longrightarrow> \<not> m_isRunning s \<Longrightarrow> serial_step eval s (Flush_clear s)"
| submit: "sq_worker s \<noteq> W_Falling \<Longrightarrow> serial_step eval s (Submit j w s)"
| poll: "sq_worker s \<noteq> W_Falling \<Longrightarrow> serial_step eval s (snd (Poll s))"
| cancel: "sq_worker s \<noteq> W_Falling \<Longrightarrow> serial_step eval s (Cancel j s)"
| spurious: "sq_worker s = W_Blocked \<Longrightarrow> serial_step eval s (s\<lparr>sq_worker := W_Eval\<rparr>)"

abbreviation serial_reachable :: "('w \<Rightarrow> 'r) \<Rightarrow> ('w, 'r) serial \<Rightarrow> bool" where
  "serial_reachable eval s \<equiv> (serial_step eval)\<^sup>*\<^sup>* serial_ctor s"

lemmas serial_ops = Start_def notify_one_def Stop_store_def Stop_notify_def Stop_joined_def Flush_clear_def Submit_def Poll_def
  Cancel_def Worker_eval_def Worker_done_def

subsection \<open>Results come in the order of submission\<close>

fun in_flight :: "('w \<Rightarrow> 'r) \<Rightarrow> 'w serial_worker \<Rightarrow> 'r list" where
  "in_flight eval (W_Work w) = [eval w]"
| "in_flight eval _ = []"

definition flow :: "('w \<Rightarrow> 'r) \<Rightarrow> ('w, 'r) serial \<Rightarrow> 'r list" where
  "flow eval s = sq_polled s @ m_completed s @ in_flight eval (sq_worker s) @ map (eval \<circ> ework) (m_pending s)"

definition flow_inv :: "('w \<Rightarrow> 'r) \<Rightarrow> ('w, 'r) serial \<Rightarrow> bool" where
  "flow_inv eval s \<longleftrightarrow> subseq (flow eval s) (map eval (sq_submitted s))
     \<and> (sq_plain s \<longrightarrow> flow eval s = map eval (sq_submitted s) \<and> m_cancelled s = {})
     \<and> (sq_worker s \<noteq> W_None \<longrightarrow> m_isRunning s) \<and> (sq_owner s \<noteq> O_Free \<longrightarrow> m_isRunning s)"

lemma subseq_drop_mid:
  assumes "subseq (xs @ y @ zs) ys"
  shows "subseq (xs @ zs) ys"
proof -
  have "subseq (xs @ zs) (xs @ y @ zs)" unfolding subseq_append' by (rule list_emb_append2) simp
  then show ?thesis using assms by (rule subseq_order.order_trans)
qed

lemma filter_neq_subseq: "subseq (xs @ map f (filter P ys)) (xs @ map f ys)"
  unfolding subseq_append' by (intro subseq_map subseq_filter_left)

lemma flow_same:
  assumes "flow_inv eval s" and "flow eval s' = flow eval s" and "sq_submitted s' = sq_submitted s" and "sq_plain s' = sq_plain s"
    and "m_cancelled s' = m_cancelled s" and "sq_worker s' \<noteq> W_None \<Longrightarrow> m_isRunning s'" and "sq_owner s' \<noteq> O_Free \<Longrightarrow> m_isRunning s'"
  shows "flow_inv eval s'"
  using assms by (simp add: flow_inv_def)

lemma move_flow:
  assumes "serial_move eval s s'" and inv: "flow_inv eval s"
  shows "flow_inv eval s'"
  using assms(1)
proof cases
  case evaluate
  show ?thesis
  proof (cases "\<not> m_shouldStop s \<and> (\<exists>e es. m_pending s = e # es \<and> jobId e \<in> m_cancelled s)")
    case True
    then obtain e es where e: "\<not> m_shouldStop s" "m_pending s = e # es" "jobId e \<in> m_cancelled s" by blast
    have "subseq ((sq_polled s @ m_completed s) @ [eval (ework e)] @ map (eval \<circ> ework) es) (map eval (sq_submitted s))"
      using inv e evaluate by (simp add: flow_inv_def flow_def)
    from subseq_drop_mid[OF this] show ?thesis using inv e evaluate by (auto simp: flow_inv_def flow_def Worker_eval_def)
  next
    case False
    then show ?thesis
      using inv evaluate by (intro flow_same[OF inv]) (auto simp: flow_inv_def flow_def Worker_eval_def split: list.splits if_splits)
  qed
next
  case joined
  then show ?thesis using inv by (intro flow_same[OF inv]) (auto simp: flow_inv_def flow_def Stop_joined_def)
qed (use inv in \<open>auto simp: flow_inv_def flow_def serial_ops\<close>)

lemma step_flow:
  assumes "serial_step eval s s'" and inv: "flow_inv eval s"
  shows "flow_inv eval s'"
  using assms(1)
proof cases
  case move
  then show ?thesis using move_flow inv by blast
next
  case start
  have "in_flight eval (sq_worker s) = []" if "\<not> m_isRunning s"
    using inv that by (cases "sq_worker s") (auto simp: flow_inv_def)
  then show ?thesis using start inv by (intro flow_same[OF inv]) (auto simp: flow_def flow_inv_def Start_def)
next
  case stop
  then show ?thesis using inv by (intro flow_same[OF inv]) (auto simp: flow_def flow_inv_def Stop_store_def)
next
  case flush
  have "in_flight eval (sq_worker s) = []" using inv flush by (cases "sq_worker s") (auto simp: flow_inv_def)
  then have "subseq (sq_polled s) (map eval (sq_submitted s))"
    using inv subseq_drop_mid[of "sq_polled s" "m_completed s @ map (eval \<circ> ework) (m_pending s)" "[]"]
    by (simp add: flow_inv_def flow_def)
  then show ?thesis using inv flush \<open>in_flight eval (sq_worker s) = []\<close> by (auto simp: flow_def flow_inv_def Flush_clear_def)
next
  case (submit j w)
  have "in_flight eval (sq_worker s') = in_flight eval (sq_worker s)"
    using submit by (auto simp: Submit_def notify_one_def)
  then have f: "flow eval s' = flow eval s @ [eval w]" using submit by (simp add: flow_def Submit_def notify_one_def)
  have "sq_submitted s' = sq_submitted s @ [w]" using submit by (simp add: Submit_def notify_one_def)
  then show ?thesis using inv submit f by (auto simp: flow_inv_def Submit_def notify_one_def)
next
  case poll
  then show ?thesis using inv by (intro flow_same[OF inv]) (auto simp: flow_def flow_inv_def Poll_def split: list.splits)
next
  case (cancel j)
  have "subseq (flow eval s') (flow eval s)"
    using cancel filter_neq_subseq[of "sq_polled s @ m_completed s @ in_flight eval (sq_worker s)"]
    by (simp add: flow_def Cancel_def Let_def)
  then show ?thesis using inv cancel
    by (auto simp: flow_inv_def Cancel_def Let_def intro: subseq_order.order_trans)
next
  case spurious
  then show ?thesis using inv by (auto simp: flow_def flow_inv_def)
qed

lemma reachable_flow: "serial_reachable eval s \<Longrightarrow> flow_inv eval s"
proof (induction rule: rtranclp_induct)
  case base
  show ?case by (simp add: flow_inv_def flow_def serial_ctor_def)
qed (rule step_flow)

text \<open>C26.
  Results are polled in the order of submission: what was polled, what waits to be polled, what runs and what is pending is always, in
  that order, part of what was submitted; and as long as nothing was cancelled or flushed it is all of it, so that
  no result is lost, repeated or overtaken, across any number of stops and restarts.
\<close>

theorem serial_queue_in_order:
  assumes "serial_reachable eval s"
  shows "subseq (sq_polled s @ m_completed s) (map eval (sq_submitted s))
    \<and> (sq_plain s \<longrightarrow> sq_polled s @ m_completed s @ in_flight eval (sq_worker s) @ map (eval \<circ> ework) (m_pending s)
         = map eval (sq_submitted s))"
proof -
  have inv: "flow_inv eval s" by (rule reachable_flow[OF assms])
  have "subseq ((sq_polled s @ m_completed s) @ []) (map eval (sq_submitted s))"
    using inv subseq_drop_mid[of "sq_polled s @ m_completed s" "in_flight eval (sq_worker s) @ map (eval \<circ> ework) (m_pending s)" "[]"]
    by (simp add: flow_inv_def flow_def)
  then show ?thesis using inv by (simp add: flow_inv_def flow_def)
qed

definition one_polled :: "(nat, nat) serial" where
  "one_polled = snd (Poll (Worker_done Suc 4 (Worker_eval (Start (Submit ''b'' 7 (Submit ''a'' 4 serial_ctor))))))"

lemmas serial_eval = one_polled_def serial_ctor_def serial_ops Let_def

lemma one_polled_reachable: "serial_reachable Suc one_polled"
proof -
  let ?s1 = "Submit ''a'' 4 serial_ctor"
  let ?s2 = "Submit ''b'' 7 ?s1"
  let ?s3 = "Start ?s2"
  let ?s4 = "Worker_eval ?s3"
  let ?s5 = "Worker_done Suc 4 ?s4"
  have "serial_step Suc serial_ctor ?s1" by (rule serial_step.submit) (simp add: serial_eval)
  moreover have "serial_step Suc ?s1 ?s2" by (rule serial_step.submit) (simp add: serial_eval)
  moreover have "serial_step Suc ?s2 ?s3" by (rule serial_step.start) (simp add: serial_eval)
  moreover have "serial_step Suc ?s3 ?s4" by (rule serial_step.move, rule serial_move.evaluate) (simp add: serial_eval)
  moreover have "serial_step Suc ?s4 ?s5" by (rule serial_step.move, rule serial_move.finished) (simp add: serial_eval)
  moreover have "serial_step Suc ?s5 one_polled" unfolding one_polled_def by (rule serial_step.poll) (simp add: serial_eval)
  ultimately show ?thesis by (meson converse_rtranclp_into_rtranclp rtranclp.rtrancl_refl)
qed

theorem serial_queue_in_order_witness:
  "sq_polled one_polled = [5] \<and> subseq (sq_polled one_polled @ m_completed one_polled) [5, 8]"
  using serial_queue_in_order[OF one_polled_reachable] by (simp add: serial_eval)

subsection \<open>Cancelling and stopping\<close>

text \<open>Cancelling the job that is in flight does not discard its result: the result is delivered, and it is the next job submitted under the
  same name that is dropped without being run.
\<close>

theorem cancel_in_flight_hits_next_job:
  assumes "sq_worker s = W_Work w" and "m_pending s = []" and "\<not> m_shouldStop s"
  shows "m_completed (Worker_done eval w (Cancel j s)) = m_completed s @ [eval w]
    \<and> sq_worker (Worker_eval (Submit j w' (Worker_done eval w (Cancel j s)))) = W_Eval
    \<and> m_pending (Worker_eval (Submit j w' (Worker_done eval w (Cancel j s)))) = []
    \<and> m_completed (Worker_eval (Submit j w' (Worker_done eval w (Cancel j s)))) = m_completed s @ [eval w]"
  using assms by (simp add: serial_ops Let_def)

theorem cancel_in_flight_hits_next_job_witness:
  "m_completed (Worker_eval (Submit ''a'' 9 (Worker_done Suc 4 (Cancel ''a'' (Worker_eval (Start (Submit ''a'' 4 serial_ctor))))))) = [5]"
  using cancel_in_flight_hits_next_job[of "Worker_eval (Start (Submit ''a'' (4 :: nat) serial_ctor))" 4 Suc "''a''" 9]
  by (simp add: serial_eval)

definition hung :: "(nat, nat) serial" where
  "hung = (let s = Stop_notify (Stop_store (Worker_eval (Start serial_ctor))) in s\<lparr>sq_worker := W_Blocked\<rparr>)"

text \<open>C40.
  \<open>Stop\<close> can miss its worker: the flag is stored and the notification sent without the mutex, so that a worker that has just found its
  predicate false goes to sleep after both.  In the state this leads to, \<open>Stop\<close> waits in \<open>join\<close> for a worker that sleeps with the
  flag set, and neither of them has a step; only a spurious wake-up or another thread's \<open>Submit\<close> ends it.
\<close>

theorem stop_can_miss_wakeup:
  "serial_reachable eval hung \<and> sq_owner hung = O_Join \<and> m_shouldStop hung \<and> (\<forall>s'. \<not> serial_move eval hung s')"
proof -
  let ?s1 = "Start serial_ctor :: (nat, nat) serial"
  let ?s2 = "Worker_eval ?s1"
  let ?s3 = "Stop_store ?s2"
  let ?s4 = "Stop_notify ?s3"
  have "serial_step eval serial_ctor ?s1" by (rule serial_step.start) (simp add: serial_eval)
  moreover have "serial_step eval ?s1 ?s2" by (rule serial_step.move, rule serial_move.evaluate) (simp add: serial_eval)
  moreover have "serial_step eval ?s2 ?s3" by (rule serial_step.stop) (simp add: serial_eval)
  moreover have "serial_step eval ?s3 ?s4" by (rule serial_step.move, rule serial_move.notify) (simp add: serial_eval)
  moreover have "serial_step eval ?s4 hung" unfolding hung_def Let_def
    by (rule serial_step.move, rule serial_move.fall) (simp add: serial_eval)
  ultimately have "serial_reachable eval hung" by (meson converse_rtranclp_into_rtranclp rtranclp.rtrancl_refl)
  moreover have f: "sq_worker hung = W_Blocked" "sq_owner hung = O_Join" "m_shouldStop hung"
    by (simp_all add: hung_def serial_eval)
  moreover have "\<not> serial_move eval hung s'" for s' using f by (auto elim!: serial_move.cases)
  ultimately show ?thesis by blast
qed

end
