(* ===== verification/Poller.thy ===== *)
theory Poller
  imports Prelude
begin

section \<open>The poller\<close>

text \<open>
  Models \<^verbatim>\<open>private/threading/poller.cpp\<close> for both platforms.  What the operating system answers is an argument of each operation:
  the results of \<open>epoll_create1\<close>, \<open>eventfd\<close>, \<open>epoll_ctl\<close>, \<open>epoll_wait\<close> and \<open>read\<close> on Linux, and which sockets and events are
  signalled on Windows.  Messages to the log are kept as short tags, except those of the Windows wait.  The locale \<open>poller\<close> is what the
  event loop relies on: a list of registered descriptors with their keys.
\<close>

datatype EWaitableKind = Socket | Event

record SWaitable =
  native :: u64
  wkind :: EWaitableKind

record SPollerEntry =
  waitable :: SWaitable
  pkey :: u64

locale poller =
  fixes entries :: "'p \<Rightarrow> SPollerEntry list"
    and add :: "SWaitable \<Rightarrow> u64 \<Rightarrow> 'p \<Rightarrow> bool \<times> 'p" and remove :: "SWaitable \<Rightarrow> 'p \<Rightarrow> 'p"
  assumes add_ok: "add w k p = (True, p') \<Longrightarrow>
      entries p' = entries p @ [\<lparr>waitable = w, pkey = k\<rparr>] \<and> (\<forall>e\<in>set (entries p). native (waitable e) \<noteq> native w)"
    and add_fail: "add w k p = (False, p') \<Longrightarrow> entries p' = entries p"
    and remove_one: "distinct (map (native \<circ> waitable) (entries p)) \<Longrightarrow>
      entries (remove w p) = filter (\<lambda>e. native (waitable e) \<noteq> native w) (entries p)"
begin

lemma add_distinct:
  assumes "distinct (map (native \<circ> waitable) (entries p))"
  shows "distinct (map (native \<circ> waitable) (entries (snd (add w k p))))"
proof (cases "add w k p")
  case (Pair b p')
  then show ?thesis using assms add_ok[of w k p p'] add_fail[of w k p p'] by (cases b) auto
qed

lemma remove_distinct:
  "distinct (map (native \<circ> waitable) (entries p)) \<Longrightarrow> distinct (map (native \<circ> waitable) (entries (remove w p)))"
  by (simp add: remove_one distinct_map_filter)

lemma remove_add:
  assumes "distinct (map (native \<circ> waitable) (entries p))" and "add w k p = (True, p')"
  shows "entries (remove w p') = entries p"
proof -
  have "distinct (map (native \<circ> waitable) (entries p'))" using add_distinct[OF assms(1), of w k] assms(2) by simp
  then show ?thesis using add_ok[OF assms(2)] by (simp add: remove_one filter_id_conv)
qed

end

subsection \<open>Linux\<close>

record linux_poller =
  m_pollDescriptor :: int
  m_wakeDescriptor :: int
  closed :: "int list"
  plog :: "string list"

definition WakeKey :: u64 where
  "WakeKey = - 1"

definition MaxEventsPerWait :: nat where
  "MaxEventsPerWait = 32"

definition CPoller_linux :: linux_poller where
  "CPoller_linux = \<lparr>m_pollDescriptor = -1, m_wakeDescriptor = -1, closed = [], plog = []\<rparr>"

text \<open>\<open>close_ok\<close> says which descriptors the system closes without an error; a failed \<open>close\<close> releases the descriptor all the same.\<close>

definition close_descriptor :: "(int \<Rightarrow> bool) \<Rightarrow> int \<Rightarrow> string \<Rightarrow> linux_poller \<Rightarrow> linux_poller" where
  "close_descriptor close_ok d msg p =
     (if 0 \<le> d then (let p1 = p\<lparr>closed := closed p @ [d]\<rparr> in if \<not> close_ok d then p1\<lparr>plog := plog p1 @ [msg]\<rparr> else p1) else p)"

definition Linux_Terminate :: "(int \<Rightarrow> bool) \<Rightarrow> linux_poller \<Rightarrow> linux_poller" where
  "Linux_Terminate close_ok p =
     (let p1 = close_descriptor close_ok (m_wakeDescriptor p) ''cannot close the wake signal'' p;
          p2 = close_descriptor close_ok (m_pollDescriptor p) ''cannot close epoll'' p1
      in p2\<lparr>m_wakeDescriptor := -1, m_pollDescriptor := -1\<rparr>)"

definition Linux_Add :: "bool \<Rightarrow> linux_poller \<Rightarrow> bool \<times> linux_poller" where
  "Linux_Add ctl_ok p = (ctl_ok, if \<not> ctl_ok then p\<lparr>plog := plog p @ [''cannot watch descriptor'']\<rparr> else p)"

definition Linux_Initialize :: "int \<Rightarrow> int \<Rightarrow> bool \<Rightarrow> (int \<Rightarrow> bool) \<Rightarrow> linux_poller \<Rightarrow> bool \<times> linux_poller" where
  "Linux_Initialize epoll_create1 eventfd ctl_ok close_ok p =
     (let p1 = p\<lparr>m_pollDescriptor := epoll_create1\<rparr>;
          r = (if 0 \<le> m_pollDescriptor p1 then
                 (let p2 = p1\<lparr>m_wakeDescriptor := eventfd\<rparr>
                  in if 0 \<le> m_wakeDescriptor p2 then Linux_Add ctl_ok p2
                     else (False, p2\<lparr>plog := plog p2 @ [''eventfd failed'']\<rparr>))
               else (False, p1\<lparr>plog := plog p1 @ [''epoll_create1 failed'']\<rparr>))
      in (fst r, if \<not> fst r then Linux_Terminate close_ok (snd r) else snd r))"

definition Linux_Remove :: "bool \<Rightarrow> linux_poller \<Rightarrow> linux_poller" where
  "Linux_Remove ctl_ok p = (if \<not> ctl_ok then p\<lparr>plog := plog p @ [''cannot unwatch descriptor'']\<rparr> else p)"

definition Linux_Wake :: "int \<Rightarrow> linux_poller \<Rightarrow> linux_poller" where
  "Linux_Wake written p = (if written < 0 then p\<lparr>plog := plog p @ [''cannot wake the loop'']\<rparr> else p)"

definition INT_MAX :: int where
  "INT_MAX = 2 ^ 31 - 1"

definition Linux_timeout :: "int option \<Rightarrow> int" where
  "Linux_timeout timeout = (case timeout of None \<Rightarrow> -1 | Some ms \<Rightarrow> min ms INT_MAX)"

text \<open>
  \<open>epoll_wait\<close> answers a number of events and the keys in its array, or a negative number and an error; \<open>eintr\<close> says that
  the error is \<open>EINTR\<close>.  Each wake key is answered by a \<open>read\<close>, of which \<open>read_bad\<close> says that it failed with something other
  than \<open>EAGAIN\<close>.
\<close>

fun collect_keys :: "bool \<Rightarrow> u64 list \<Rightarrow> u64 list \<Rightarrow> string list \<Rightarrow> u64 list \<times> string list" where
  "collect_keys read_bad [] ready lg = (ready, lg)"
| "collect_keys read_bad (key # keys) ready lg =
     (if key = WakeKey
      then collect_keys read_bad keys ready (if read_bad then lg @ [''cannot reset the wake signal''] else lg)
      else collect_keys read_bad keys (ready @ [key]) lg)"

definition Linux_Wait :: "int \<Rightarrow> bool \<Rightarrow> u64 list \<Rightarrow> bool \<Rightarrow> linux_poller \<Rightarrow> bool \<times> u64 list \<times> linux_poller" where
  "Linux_Wait numEvents eintr events read_bad p =
     (let waitError = numEvents < 0;
          isWaiting = (0 \<le> numEvents \<or> waitError \<and> eintr);
          numReady = nat (max numEvents 0);
          r = collect_keys read_bad (take numReady events) [] (plog p);
          p1 = p\<lparr>plog := snd r\<rparr>
      in (isWaiting, fst r, if \<not> isWaiting then p1\<lparr>plog := plog p1 @ [''epoll_wait failed'']\<rparr> else p1))"

lemma collect_keys_filter: "fst (collect_keys b keys ready lg) = ready @ filter (\<lambda>k. k \<noteq> WakeKey) keys"
  by (induction keys arbitrary: ready lg) auto

lemma Linux_timeout_range: "(\<And>ms. timeout = Some ms \<Longrightarrow> 0 \<le> ms) \<Longrightarrow> - 1 \<le> Linux_timeout timeout \<and> Linux_timeout timeout \<le> INT_MAX"
  by (force simp: Linux_timeout_def INT_MAX_def split: option.splits)

text \<open>An initialization that fails leaves nothing open, whichever of its three calls failed.\<close>

lemma Linux_Initialize_no_leak:
  assumes "Linux_Initialize ep ev ctl_ok close_ok CPoller_linux = (ok, p)"
  shows "ok \<longleftrightarrow> 0 \<le> ep \<and> 0 \<le> ev \<and> ctl_ok"
    and "ok \<Longrightarrow> m_pollDescriptor p = ep \<and> m_wakeDescriptor p = ev \<and> closed p = []"
    and "\<not> ok \<Longrightarrow> m_pollDescriptor p = -1 \<and> m_wakeDescriptor p = -1"
    and "\<not> ok \<Longrightarrow> set (closed p) = {d. 0 \<le> d \<and> (d = ep \<or> 0 \<le> ep \<and> d = ev)}"
  using assms
  by (auto simp: Linux_Initialize_def Linux_Add_def Linux_Terminate_def close_descriptor_def CPoller_linux_def Let_def split: if_splits)

lemma Linux_Wait_keys:
  assumes "Linux_Wait n eintr events read_bad p = (w, keys, p')"
  shows "keys = filter (\<lambda>k. k \<noteq> WakeKey) (take (nat n) events)" and "w \<longleftrightarrow> 0 \<le> n \<or> eintr"
    and "length events \<le> MaxEventsPerWait \<Longrightarrow> length keys \<le> MaxEventsPerWait"
proof -
  show "keys = filter (\<lambda>k. k \<noteq> WakeKey) (take (nat n) events)"
    using assms by (auto simp: Linux_Wait_def Let_def collect_keys_filter)
  then show "length events \<le> MaxEventsPerWait \<Longrightarrow> length keys \<le> MaxEventsPerWait"
    by (metis (no_types, lifting) length_filter_le length_take min.bounded_iff order_trans)
  show "w \<longleftrightarrow> 0 \<le> n \<or> eintr" using assms by (auto simp: Linux_Wait_def Let_def)
qed

subsection \<open>Windows\<close>

record windows_poller =
  m_wakeEvent :: bool
  m_socketEvent :: bool
  m_entries :: "SPollerEntry list"
  wlog :: "string list"

definition MaxSocketsPerPoll :: nat where "MaxSocketsPerPoll = 64"

definition MAXIMUM_WAIT_OBJECTS :: nat where "MAXIMUM_WAIT_OBJECTS = 64"

definition NumOwnHandles :: nat where "NumOwnHandles = 2"

definition MaxEvents :: nat where "MaxEvents = MAXIMUM_WAIT_OBJECTS - NumOwnHandles"

definition INFINITE :: int where "INFINITE = 2 ^ 32 - 1"

definition ToTimeoutMs :: "int option \<Rightarrow> int" where
  "ToTimeoutMs timeout = (case timeout of None \<Rightarrow> INFINITE | Some ms \<Rightarrow> min ms (INFINITE - 1))"

definition CPoller_windows :: windows_poller where
  "CPoller_windows = \<lparr>m_wakeEvent = False, m_socketEvent = False, m_entries = [], wlog = []\<rparr>"

definition Windows_Terminate :: "bool \<Rightarrow> bool \<Rightarrow> windows_poller \<Rightarrow> windows_poller" where
  "Windows_Terminate close_socket_ok close_wake_ok p =
     p\<lparr>wlog := wlog p @ (if m_socketEvent p \<and> \<not> close_socket_ok then [''cannot close the socket event''] else [])
                      @ (if m_wakeEvent p \<and> \<not> close_wake_ok then [''cannot close the wake signal''] else []),
       m_entries := [], m_socketEvent := False, m_wakeEvent := False\<rparr>"

definition Windows_Initialize :: "bool \<Rightarrow> bool \<Rightarrow> windows_poller \<Rightarrow> bool \<times> windows_poller" where
  "Windows_Initialize wake_made socket_made p =
     (let p1 = p\<lparr>m_wakeEvent := wake_made, m_socketEvent := socket_made\<rparr>;
          isReady = (m_wakeEvent p1 \<and> m_socketEvent p1)
      in (isReady, if \<not> isReady then Windows_Terminate True True (p1\<lparr>wlog := wlog p1 @ [''CreateEventW failed'']\<rparr>) else p1))"

definition count_events :: "SPollerEntry list \<Rightarrow> nat" where
  "count_events es = length (filter (\<lambda>e. wkind (waitable e) = Event) es)"

text \<open>\<open>select_ok\<close>: whether \<open>WSAEventSelect\<close> succeeds on a socket.\<close>

definition Windows_Add :: "(u64 \<Rightarrow> bool) \<Rightarrow> SWaitable \<Rightarrow> u64 \<Rightarrow> windows_poller \<Rightarrow> bool \<times> windows_poller" where
  "Windows_Add select_ok w key p =
     (let isWatched = (\<exists>e\<in>set (m_entries p). native (waitable e) = native w);
          numEvents = count_events (m_entries p);
          r = (if isWatched then (False, [''cannot watch twice''])
               else if wkind w = Socket then
                 (if select_ok (native w) then (True, []) else (False, [''cannot watch socket'']))
               else if numEvents < MaxEvents then (True, [])
               else (False, [''cannot watch more events'']));
          p1 = p\<lparr>wlog := wlog p @ snd r\<rparr>
      in (fst r, if fst r then p1\<lparr>m_entries := m_entries p1 @ [\<lparr>waitable = w, pkey = key\<rparr>]\<rparr> else p1))"

definition Windows_Remove :: "(u64 \<Rightarrow> bool) \<Rightarrow> SWaitable \<Rightarrow> windows_poller \<Rightarrow> windows_poller" where
  "Windows_Remove unselect_ok w p =
     (case List.find (\<lambda>e. native (waitable e) = native w) (m_entries p) of
        Some found \<Rightarrow>
          p\<lparr>wlog := wlog p @ (if wkind (waitable found) = Socket \<and> \<not> unselect_ok (native w) then [''cannot unwatch socket''] else []),
            m_entries := remove1 found (m_entries p)\<rparr>
      | None \<Rightarrow> p\<lparr>wlog := wlog p @ [''it is not watched'']\<rparr>)"

definition Windows_Wake :: "bool \<Rightarrow> windows_poller \<Rightarrow> windows_poller" where
  "Windows_Wake set_ok p = (if \<not> set_ok then p\<lparr>wlog := wlog p @ [''cannot wake the loop'']\<rparr> else p)"

text \<open>
  \<open>PollChunk\<close> polls the sockets of one array of at most 64; \<open>poll_ok\<close> says whether the poll of these sockets succeeds and
  \<open>readable\<close> which of them it reports as readable, hung up or in error.
\<close>

definition PollChunk :: "(u64 list \<Rightarrow> bool) \<Rightarrow> (u64 \<Rightarrow> bool) \<Rightarrow> (u64 \<times> u64) list \<Rightarrow> u64 list \<Rightarrow> bool \<times> u64 list" where
  "PollChunk poll_ok readable polls ready =
     (let isPolled = poll_ok (map fst polls)
      in (isPolled, if isPolled then ready @ map snd (filter (\<lambda>(s, k). readable s) polls) else ready))"

fun poll_loop :: "(u64 list \<Rightarrow> bool) \<Rightarrow> (u64 \<Rightarrow> bool) \<Rightarrow> SPollerEntry list \<Rightarrow> bool \<Rightarrow> (u64 \<times> u64) list \<Rightarrow> u64 list
    \<Rightarrow> bool \<times> (u64 \<times> u64) list \<times> u64 list" where
  "poll_loop poll_ok readable [] isPolled polls ready = (isPolled, polls, ready)"
| "poll_loop poll_ok readable (e # es) isPolled polls ready =
     (if isPolled \<and> wkind (waitable e) = Socket then
        (let polls' = polls @ [(native (waitable e), pkey e)]
         in if length polls' = MaxSocketsPerPoll then
              (case PollChunk poll_ok readable polls' ready of (ok, ready') \<Rightarrow> poll_loop poll_ok readable es ok [] ready')
            else poll_loop poll_ok readable es isPolled polls' ready)
      else poll_loop poll_ok readable es isPolled polls ready)"

definition PollSockets :: "(u64 list \<Rightarrow> bool) \<Rightarrow> (u64 \<Rightarrow> bool) \<Rightarrow> SPollerEntry list \<Rightarrow> u64 list \<Rightarrow> bool \<times> u64 list" where
  "PollSockets poll_ok readable es ready =
     (case poll_loop poll_ok readable es True [] ready of
        (isPolled, polls, ready') \<Rightarrow> if isPolled \<and> 0 < length polls then PollChunk poll_ok readable polls ready' else (isPolled, ready'))"

definition CollectSignalledEvents :: "(u64 \<Rightarrow> bool) \<Rightarrow> SPollerEntry list \<Rightarrow> u64 list \<Rightarrow> u64 list" where
  "CollectSignalledEvents signalled es ready =
     ready @ map pkey (filter (\<lambda>e. wkind (waitable e) = Event \<and> signalled (native (waitable e))) es)"

text \<open>The handles of the blocking wait: the two of the poller and those of the events, with the keys at the same index.\<close>

fun fill_handles :: "SPollerEntry list \<Rightarrow> u64 list \<Rightarrow> u64 list" where
  "fill_handles [] keys = keys"
| "fill_handles (e # es) keys = (if wkind (waitable e) = Event then fill_handles es (keys @ [pkey e]) else fill_handles es keys)"

datatype wait_result = Signalled nat | Timed_Out | Wait_Failed

text \<open>
  \<open>Wait\<close>.  The first poll and the one after the blocking wait may see different sockets readable (\<open>readable1\<close>, \<open>readable2\<close>);
  \<open>signalled\<close> are the events found signalled before it, and \<open>result\<close> is what \<open>WaitForMultipleObjects\<close> answers.
\<close>

definition Windows_Wait :: "bool \<Rightarrow> (u64 list \<Rightarrow> bool) \<Rightarrow> (u64 \<Rightarrow> bool) \<Rightarrow> (u64 \<Rightarrow> bool) \<Rightarrow> (u64 \<Rightarrow> bool) \<Rightarrow> wait_result
    \<Rightarrow> windows_poller \<Rightarrow> bool \<times> u64 list" where
  "Windows_Wait reset_ok poll_ok readable1 readable2 signalled result p =
     (let r1 = (if reset_ok then
                  (case PollSockets poll_ok readable1 (m_entries p) [] of
                     (ok, ready) \<Rightarrow> (ok, CollectSignalledEvents signalled (m_entries p) ready))
                else (False, []))
      in if fst r1 \<and> snd r1 = [] then
           (let keys = fill_handles (m_entries p) (replicate NumOwnHandles 0)
            in case result of
                 Signalled i \<Rightarrow>
                   if i = 1 then PollSockets poll_ok readable2 (m_entries p) (snd r1)
                   else if NumOwnHandles \<le> i \<and> i < length keys then (True, snd r1 @ [keys ! i])
                   else (True, snd r1)
               | Timed_Out \<Rightarrow> (True, snd r1)
               | Wait_Failed \<Rightarrow> (False, snd r1))
         else r1)"

subsection \<open>The Windows poller keeps the contract\<close>

lemma find_remove1_filter:
  assumes "distinct (map f xs)" and "List.find (\<lambda>x. f x = a) xs = Some y"
  shows "remove1 y xs = filter (\<lambda>x. f x \<noteq> a) xs"
  using assms
proof (induction xs)
  case (Cons x xs)
  show ?case
  proof (cases "f x = a")
    case True
    then have "y = x" "\<forall>z\<in>set xs. f z \<noteq> a" using Cons.prems True by (auto simp: image_iff)
    then show ?thesis using True by (simp add: filter_id_conv)
  next
    case False
    then have "List.find (\<lambda>x. f x = a) xs = Some y" using Cons.prems(2) by simp
    moreover from this have "f y = a" by (auto dest: find_Some_set)
    ultimately show ?thesis using False Cons by auto
  qed
qed simp

interpretation wp: poller m_entries "Windows_Add select_ok" "Windows_Remove unselect_ok" for select_ok unselect_ok
proof (unfold_locales, goal_cases)
  case (1 w k p p')
  then show ?case by (auto simp: Windows_Add_def Let_def split: if_splits)
next
  case (2 w k p p')
  then show ?case by (auto simp: Windows_Add_def Let_def split: if_splits)
next
  case (3 p w)
  show ?case
  proof (cases "List.find (\<lambda>e. native (waitable e) = native w) (m_entries p)")
    case None
    then have "\<forall>e\<in>set (m_entries p). native (waitable e) \<noteq> native w" by (simp add: find_None_set)
    then show ?thesis using None by (simp add: Windows_Remove_def filter_id_conv)
  next
    case (Some e)
    then show ?thesis
      using find_remove1_filter[of "native \<circ> waitable" "m_entries p" "native w" e] 3 by (simp add: Windows_Remove_def)
  qed
qed

text \<open>A Windows poller as its operations make it.\<close>

inductive windows_reachable :: "windows_poller \<Rightarrow> bool" where
  ctor: "windows_reachable CPoller_windows"
| init: "windows_reachable p \<Longrightarrow> windows_reachable (snd (Windows_Initialize a b p))"
| stop: "windows_reachable p \<Longrightarrow> windows_reachable (Windows_Terminate a b p)"
| add: "windows_reachable p \<Longrightarrow> windows_reachable (snd (Windows_Add f w k p))"
| remove: "windows_reachable p \<Longrightarrow> windows_reachable (Windows_Remove f w p)"

definition windows_inv :: "windows_poller \<Rightarrow> bool" where
  "windows_inv p \<longleftrightarrow> distinct (map (native \<circ> waitable) (m_entries p)) \<and> count_events (m_entries p) \<le> MaxEvents"

lemma count_events_simps [simp]:
  "count_events [] = 0" "count_events (xs @ ys) = count_events xs + count_events ys"
  "count_events [e] = (if wkind (waitable e) = Event then 1 else 0)"
  by (simp_all add: count_events_def)

lemma count_events_filter: "count_events (filter P xs) \<le> count_events xs"
  by (induction xs) (auto simp: count_events_def)

lemma windows_reachable_inv: "windows_reachable p \<Longrightarrow> windows_inv p"
proof (induction rule: windows_reachable.induct)
  case (init p a b)
  then show ?case by (auto simp: windows_inv_def Windows_Initialize_def Windows_Terminate_def Let_def)
next
  case (add p f w k)
  have "count_events (m_entries (snd (Windows_Add f w k p))) \<le> MaxEvents"
    using add by (auto simp: windows_inv_def Windows_Add_def Let_def)
  then show ?case using wp.add_distinct add by (simp add: windows_inv_def)
next
  case (remove p f w)
  then show ?case using count_events_filter[of _ "m_entries p"]
    by (auto simp: windows_inv_def wp.remove_one distinct_map_filter intro: order_trans)
qed (auto simp: windows_inv_def CPoller_windows_def Windows_Terminate_def)

lemma length_fill_handles: "length (fill_handles es keys) = length keys + count_events es"
  by (induction es arbitrary: keys) (auto simp: count_events_def)

lemma fill_handles_append: "fill_handles es keys = keys @ map pkey (filter (\<lambda>e. wkind (waitable e) = Event) es)"
  by (induction es arbitrary: keys) auto

subsection \<open>Polling in chunks\<close>

definition socket_pairs :: "SPollerEntry list \<Rightarrow> (u64 \<times> u64) list" where
  "socket_pairs es = map (\<lambda>e. (native (waitable e), pkey e)) (filter (\<lambda>e. wkind (waitable e) = Socket) es)"

text \<open>The reference: cut the list into pieces of 64 and poll them in turn until one poll fails.\<close>

function poll_in_pieces :: "(u64 list \<Rightarrow> bool) \<Rightarrow> (u64 \<Rightarrow> bool) \<Rightarrow> (u64 \<times> u64) list \<Rightarrow> u64 list \<Rightarrow> bool \<times> u64 list" where
  "poll_in_pieces poll_ok readable xs ready =
     (if xs = [] then (True, ready)
      else if poll_ok (map fst (take 64 xs))
      then poll_in_pieces poll_ok readable (drop 64 xs) (ready @ map snd (filter (\<lambda>(s, k). readable s) (take 64 xs)))
      else (False, ready))"
  by pat_completeness auto
termination by (relation "measure (\<lambda>(_, _, xs, _). length xs)") auto

declare poll_in_pieces.simps [simp del]

lemma poll_loop_failed: "poll_loop poll_ok readable es False polls ready = (False, polls, ready)"
  by (induction es) auto

lemma poll_loop_pieces:
  assumes "length polls < 64"
  shows "(case poll_loop poll_ok readable es True polls ready of
      (isPolled, polls', ready') \<Rightarrow> if isPolled \<and> 0 < length polls' then PollChunk poll_ok readable polls' ready' else (isPolled, ready'))
    = poll_in_pieces poll_ok readable (polls @ socket_pairs es) ready"
  using assms
proof (induction es arbitrary: polls ready)
  case Nil
  then show ?case by (subst poll_in_pieces.simps) (simp add: socket_pairs_def PollChunk_def Let_def poll_in_pieces.simps)
next
  case (Cons e es)
  let ?x = "(native (waitable e), pkey e)"
  show ?case
  proof (cases "wkind (waitable e) = Socket")
    case False
    then show ?thesis using Cons by (simp add: socket_pairs_def)
  next
    case True
    then have sp: "socket_pairs (e # es) = ?x # socket_pairs es" by (simp add: socket_pairs_def)
    show ?thesis
    proof (cases "length (polls @ [?x]) = 64")
      case False
      then show ?thesis using Cons.IH[of "polls @ [?x]" ready] Cons.prems True
        by (simp add: sp MaxSocketsPerPoll_def Let_def)
    next
      case full: True
      let ?p = "polls @ [?x]"
      have cut: "take 64 (?p @ ys) = ?p" "drop 64 (?p @ ys) = ys" for ys using full by simp_all
      have ref: "poll_in_pieces poll_ok readable (?p @ socket_pairs es) ready =
          (if poll_ok (map fst ?p)
           then poll_in_pieces poll_ok readable (socket_pairs es) (ready @ map snd (filter (\<lambda>(s, k). readable s) ?p))
           else (False, ready))"
        by (subst poll_in_pieces.simps) (simp only: cut, simp)
      show ?thesis
      proof (cases "poll_ok (map fst ?p)")
        case False
        then show ?thesis using ref True full
          by (simp add: sp MaxSocketsPerPoll_def Let_def PollChunk_def poll_loop_failed)
      next
        case ok: True
        then show ?thesis
          using ref True full Cons.IH[of "[]" "ready @ map snd (filter (\<lambda>(s, k). readable s) ?p)"]
          by (simp add: sp MaxSocketsPerPoll_def Let_def PollChunk_def)
      qed
    qed
  qed
qed

lemma poll_in_pieces_ok:
  assumes "\<And>xs. poll_ok xs"
  shows "poll_in_pieces poll_ok readable xs ready = (True, ready @ map snd (filter (\<lambda>(s, k). readable s) xs))"
proof (induction xs arbitrary: ready rule: length_induct)
  case (1 xs)
  show ?case
  proof (cases "xs = []")
    case False
    have "filter (\<lambda>(s, k). readable s) (take 64 xs) @ filter (\<lambda>(s, k). readable s) (drop 64 xs) = filter (\<lambda>(s, k). readable s) xs"
      by (metis append_take_drop_id filter_append)
    moreover have "poll_in_pieces poll_ok readable (drop 64 xs) ys = (True, ys @ map snd (filter (\<lambda>(s, k). readable s) (drop 64 xs)))"
      for ys using 1[rule_format, of "drop 64 xs"] False by simp
    ultimately show ?thesis
      using False assms by (subst poll_in_pieces.simps) (simp flip: map_append)
  qed (simp add: poll_in_pieces.simps)
qed

text \<open>Polling sockets in arrays of 64 misses none and adds none: whatever mixture of sockets and events is registered, \<open>PollSockets\<close> is the
  poll of the list of sockets cut into pieces of 64, in order, up to the first poll that fails; when none fails, it reports exactly the
  keys of the readable sockets, in the order of their registration.
\<close>

theorem PollSockets_exact:
  "PollSockets poll_ok readable es ready = poll_in_pieces poll_ok readable (socket_pairs es) ready
   \<and> PollSockets (\<lambda>_. True) readable es ready
     = (True, ready @ map pkey (filter (\<lambda>e. wkind (waitable e) = Socket \<and> readable (native (waitable e))) es))"
proof -
  have ref: "PollSockets ok readable es ready = poll_in_pieces ok readable (socket_pairs es) ready" for ok
    unfolding PollSockets_def using poll_loop_pieces[of "[]" ok readable es ready] by simp
  have "map snd (filter (\<lambda>(s, k). readable s) (socket_pairs es))
      = map pkey (filter (\<lambda>e. wkind (waitable e) = Socket \<and> readable (native (waitable e))) es)"
    by (induction es) (auto simp: socket_pairs_def)
  then show ?thesis using ref poll_in_pieces_ok[of "\<lambda>_. True"] by simp
qed

lemma poll_in_pieces_subset: "set (snd (poll_in_pieces poll_ok readable xs ready)) \<subseteq> set ready \<union> snd ` set xs"
proof (induction poll_ok readable xs ready rule: poll_in_pieces.induct)
  case (1 poll_ok readable xs ready)
  show ?case
  proof (cases "xs \<noteq> [] \<and> poll_ok (map fst (take 64 xs))")
    case True
    have "set (take 64 xs) \<subseteq> set xs" "set (drop 64 xs) \<subseteq> set xs" by (rule set_take_subset, rule set_drop_subset)
    moreover have "poll_in_pieces poll_ok readable xs ready = poll_in_pieces poll_ok readable (drop 64 xs)
        (ready @ map snd (filter (\<lambda>(s, k). readable s) (take 64 xs)))"
      using True by (subst poll_in_pieces.simps) simp
    ultimately show ?thesis using 1 True by fastforce
  next
    case False
    then show ?thesis by (subst poll_in_pieces.simps) auto
  qed
qed

lemma PollSockets_subset: "set (snd (PollSockets poll_ok readable es ready)) \<subseteq> set ready \<union> pkey ` set es"
proof -
  have "PollSockets poll_ok readable es ready = poll_in_pieces poll_ok readable (socket_pairs es) ready"
    unfolding PollSockets_def using poll_loop_pieces[of "[]" poll_ok readable es ready] by simp
  moreover have "snd ` set (socket_pairs es) \<subseteq> pkey ` set es" by (auto simp: socket_pairs_def)
  ultimately show ?thesis using poll_in_pieces_subset[of poll_ok readable "socket_pairs es" ready] by (simp only:) blast
qed

text \<open>Whatever is added and removed, the handles of the blocking wait fit the array of 64 that the wait allows, and a wait reports only keys
  that are registered, whatever the system answers.
\<close>

theorem windows_wait_bounds:
  assumes "windows_reachable p"
  shows "length (fill_handles (m_entries p) (replicate NumOwnHandles 0)) \<le> MAXIMUM_WAIT_OBJECTS
    \<and> set (snd (Windows_Wait reset_ok poll_ok readable1 readable2 signalled result p)) \<subseteq> pkey ` set (m_entries p)"
proof
  have "count_events (m_entries p) \<le> MaxEvents" using windows_reachable_inv[OF assms] by (simp add: windows_inv_def)
  then show "length (fill_handles (m_entries p) (replicate NumOwnHandles 0)) \<le> MAXIMUM_WAIT_OBJECTS"
    by (simp add: length_fill_handles NumOwnHandles_def MaxEvents_def MAXIMUM_WAIT_OBJECTS_def)
  let ?es = "m_entries p" and ?keys = "fill_handles (m_entries p) (replicate NumOwnHandles 0)"
  have keys: "?keys ! i \<in> pkey ` set ?es" if "NumOwnHandles \<le> i" "i < length ?keys" for i
  proof -
    have "?keys ! i = map pkey (filter (\<lambda>e. wkind (waitable e) = Event) ?es) ! (i - NumOwnHandles)"
      using that(1) by (simp add: fill_handles_append nth_append)
    moreover have "i - NumOwnHandles < length (map pkey (filter (\<lambda>e. wkind (waitable e) = Event) ?es))"
      using that by (simp add: length_fill_handles count_events_def)
    ultimately have "?keys ! i \<in> set (map pkey (filter (\<lambda>e. wkind (waitable e) = Event) ?es))" by (metis nth_mem)
    then show ?thesis by auto
  qed
  have s: "set (snd (PollSockets poll_ok f ?es [])) \<subseteq> pkey ` set ?es" for f
    using PollSockets_subset[of poll_ok f ?es "[]"] by simp
  have c: "set (CollectSignalledEvents signalled ?es ready) \<subseteq> set ready \<union> pkey ` set ?es" for ready
    by (auto simp: CollectSignalledEvents_def)
  define r1 where "r1 = (if reset_ok then
      (case PollSockets poll_ok readable1 ?es [] of (ok, ready) \<Rightarrow> (ok, CollectSignalledEvents signalled ?es ready)) else (False, []))"
  have r1: "set (snd r1) \<subseteq> pkey ` set ?es"
    using s[of readable1] c[of "snd (PollSockets poll_ok readable1 ?es [])"] by (auto simp: r1_def split: prod.splits)
  show "set (snd (Windows_Wait reset_ok poll_ok readable1 readable2 signalled result p)) \<subseteq> pkey ` set ?es"
  proof (cases "fst r1 \<and> snd r1 = []")
    case True
    then show ?thesis
      using s[of readable2] keys unfolding Windows_Wait_def r1_def[symmetric] by (cases result) (simp_all add: Let_def)
  next
    case False
    then show ?thesis using r1 unfolding Windows_Wait_def r1_def[symmetric] Let_def by (simp only: if_False)
  qed
qed

definition two_watched :: windows_poller where
  "two_watched = snd (Windows_Add (\<lambda>_. True) \<lparr>native = 5, wkind = Event\<rparr> 1 (snd (Windows_Add (\<lambda>_. True) \<lparr>native = 9, wkind = Socket\<rparr> 0 CPoller_windows)))"

theorem windows_wait_bounds_witness:
  "Windows_Wait True (\<lambda>_. True) (\<lambda>_. False) (\<lambda>_. False) (\<lambda>_. False) (Signalled 2) two_watched = (True, [1])
   \<and> length (fill_handles (m_entries two_watched) (replicate NumOwnHandles 0)) \<le> MAXIMUM_WAIT_OBJECTS"
proof -
  have "windows_reachable two_watched" unfolding two_watched_def by (intro windows_reachable.intros)
  moreover have "Windows_Wait True (\<lambda>_. True) (\<lambda>_. False) (\<lambda>_. False) (\<lambda>_. False) (Signalled 2) two_watched = (True, [1])"
    by (simp add: two_watched_def Windows_Add_def CPoller_windows_def Windows_Wait_def PollSockets_def PollChunk_def Let_def
        CollectSignalledEvents_def NumOwnHandles_def MaxSocketsPerPoll_def count_events_def MaxEvents_def MAXIMUM_WAIT_OBJECTS_def nth_append)
  ultimately show ?thesis using windows_wait_bounds[of two_watched] by simp
qed

end
