(* ===== verification/Mpsc_Queue.thy ===== *)
theory Mpsc_Queue
  imports Prelude "HOL-Library.Sublist"
begin

section \<open>The lock-free queue\<close>

text \<open>
  Models \<^verbatim>\<open>public/tge/threading/mpsc_queue.hpp\<close>, an unbounded queue for many producers and one consumer.  Nodes are
  numbered in the order of their allocation; \<open>q_live\<close> are those allocated and not deleted, so that a use after
  \<open>delete\<close> shows.  \<open>Push\<close> publishes a node in two atomic steps, the exchange of \<open>m_head\<close> and the store of
  the previous node's \<open>next\<close>, between which any other thread may run; the consumer's \<open>Dequeue\<close> is split at its shared
  accesses too.  Everything before the exchange is private to the producer and one step.  The relation
  \<open>mpsc_step\<close> interleaves all of these; memory is sequentially consistent, which the acquire and
  release orders of the source give on the locations it shares.
\<close>

datatype producer = P_Idle | P_Ready nat | P_Link nat nat

datatype consumer = C_Idle | C_Next nat nat | C_Delete nat

record 'a mpsc =
  q_data :: "nat \<Rightarrow> 'a"
  q_next :: "nat \<Rightarrow> nat option"
  q_live :: "nat set"
  q_fresh :: nat
  q_head :: nat
  q_tail :: nat
  q_prod :: "nat \<Rightarrow> producer"
  q_cons :: consumer
  q_order :: "nat list"
  q_out :: "'a list"

text \<open>
  The last two fields are history: the nodes in the order of their exchange, starting with the stub, and the values handed
  to the consumer.
\<close>

definition CMpscQueue_ctor :: "'a \<Rightarrow> 'a mpsc" where
  "CMpscQueue_ctor junk =
     \<lparr>q_data = (\<lambda>_. junk), q_next = (\<lambda>_. None), q_live = {0}, q_fresh = 1, q_head = 0, q_tail = 0,
      q_prod = (\<lambda>_. P_Idle), q_cons = C_Idle, q_order = [0], q_out = []\<rparr>"

text \<open>\<open>Enqueue\<close>: the new node, its data and its null \<open>next\<close>.\<close>

definition Enqueue_node :: "nat \<Rightarrow> 'a \<Rightarrow> 'a mpsc \<Rightarrow> 'a mpsc" where
  "Enqueue_node t v s =
     (let n = q_fresh s
      in s\<lparr>q_fresh := n + 1, q_live := insert n (q_live s), q_data := (q_data s)(n := v),
           q_next := (q_next s)(n := None), q_prod := (q_prod s)(t := P_Ready n)\<rparr>)"

text \<open>\<open>Push\<close>: the exchange of the head, and the link from the node that was the head before.\<close>

definition Push_exchange :: "nat \<Rightarrow> nat \<Rightarrow> 'a mpsc \<Rightarrow> 'a mpsc" where
  "Push_exchange t n s =
     s\<lparr>q_head := n, q_prod := (q_prod s)(t := P_Link (q_head s) n), q_order := q_order s @ [n]\<rparr>"

definition Push_link :: "nat \<Rightarrow> nat \<Rightarrow> nat \<Rightarrow> 'a mpsc \<Rightarrow> 'a mpsc" where
  "Push_link t prevHead n s = s\<lparr>q_next := (q_next s)(prevHead := Some n), q_prod := (q_prod s)(t := P_Idle)\<rparr>"

text \<open>\<open>Dequeue\<close>: the loads, the move out with the store of the tail, and the deletion of the old tail.\<close>

definition Dequeue_load :: "'a mpsc \<Rightarrow> 'a mpsc" where
  "Dequeue_load s = (case q_next s (q_tail s) of None \<Rightarrow> s | Some n \<Rightarrow> s\<lparr>q_cons := C_Next (q_tail s) n\<rparr>)"

definition Dequeue_take :: "nat \<Rightarrow> nat \<Rightarrow> 'a mpsc \<Rightarrow> 'a mpsc" where
  "Dequeue_take tail n s = s\<lparr>q_out := q_out s @ [q_data s n], q_tail := n, q_cons := C_Delete tail\<rparr>"

definition Dequeue_delete :: "nat \<Rightarrow> 'a mpsc \<Rightarrow> 'a mpsc" where
  "Dequeue_delete tail s = s\<lparr>q_live := q_live s - {tail}, q_cons := C_Idle\<rparr>"

inductive mpsc_step :: "'a mpsc \<Rightarrow> 'a mpsc \<Rightarrow> bool" where
  new: "q_prod s t = P_Idle \<Longrightarrow> mpsc_step s (Enqueue_node t v s)"
| exchange: "q_prod s t = P_Ready n \<Longrightarrow> mpsc_step s (Push_exchange t n s)"
| link: "q_prod s t = P_Link p n \<Longrightarrow> mpsc_step s (Push_link t p n s)"
| load: "q_cons s = C_Idle \<Longrightarrow> mpsc_step s (Dequeue_load s)"
| take: "q_cons s = C_Next tail n \<Longrightarrow> mpsc_step s (Dequeue_take tail n s)"
| delete: "q_cons s = C_Delete tail \<Longrightarrow> mpsc_step s (Dequeue_delete tail s)"

abbreviation mpsc_reachable :: "'a \<Rightarrow> 'a mpsc \<Rightarrow> bool" where
  "mpsc_reachable junk s \<equiv> mpsc_step\<^sup>*\<^sup>* (CMpscQueue_ctor junk) s"

text \<open>The destructor walks from the tail and deletes every node; it runs when no other thread does.\<close>

fun destroy_nodes :: "nat \<Rightarrow> nat option \<Rightarrow> 'a mpsc \<Rightarrow> 'a mpsc option" where
  "destroy_nodes 0 node s = (if node = None then Some s else None)"
| "destroy_nodes (Suc fuel) node s =
     (case node of
        None \<Rightarrow> Some s
      | Some n \<Rightarrow> destroy_nodes fuel (q_next s n) (s\<lparr>q_live := q_live s - {n}\<rparr>))"

subsection \<open>The invariant\<close>

text \<open>
  \<open>k\<close> values have been taken.  The nodes from the tail on are linked in exchange order, but for links a producer is about
  to store; every node a thread may still touch is alive.
\<close>

definition links_ok :: "nat \<Rightarrow> 'a mpsc \<Rightarrow> bool" where
  "links_ok k s \<longleftrightarrow> (\<forall>i. k \<le> i \<and> i + 1 < length (q_order s) \<longrightarrow>
     q_next s (q_order s ! i) = Some (q_order s ! (i + 1))
     \<or> q_next s (q_order s ! i) = None \<and> (\<exists>t. q_prod s t = P_Link (q_order s ! i) (q_order s ! (i + 1))))"

definition only_ready :: "'a mpsc \<Rightarrow> nat \<Rightarrow> nat \<Rightarrow> bool" where
  "only_ready s n t \<longleftrightarrow> (\<forall>u. q_prod s u = P_Ready n \<longrightarrow> u = t)"

definition only_link :: "'a mpsc \<Rightarrow> nat \<Rightarrow> nat \<Rightarrow> bool" where
  "only_link s p t \<longleftrightarrow> (\<forall>u m. q_prod s u = P_Link p m \<longrightarrow> u = t)"

definition prod_ok :: "nat \<Rightarrow> 'a mpsc \<Rightarrow> nat \<Rightarrow> bool" where
  "prod_ok k s t \<longleftrightarrow>
     (case q_prod s t of
        P_Idle \<Rightarrow> True
      | P_Ready n \<Rightarrow> n < q_fresh s \<and> n \<in> q_live s \<and> n \<notin> set (q_order s) \<and> q_next s n = None
          \<and> only_ready s n t
      | P_Link p n \<Rightarrow> (\<exists>i. k \<le> i \<and> i + 1 < length (q_order s) \<and> p = q_order s ! i \<and> n = q_order s ! (i + 1)
          \<and> q_next s p = None) \<and> only_link s p t)"

definition cons_ok :: "nat \<Rightarrow> 'a mpsc \<Rightarrow> bool" where
  "cons_ok k s \<longleftrightarrow>
     (case q_cons s of
        C_Idle \<Rightarrow> True
      | C_Next t n \<Rightarrow> t = q_tail s \<and> k + 1 < length (q_order s) \<and> n = q_order s ! (k + 1) \<and> q_next s t = Some n
      | C_Delete t \<Rightarrow> 0 < k \<and> t = q_order s ! (k - 1) \<and> t \<in> q_live s)"

definition mpsc_inv :: "nat \<Rightarrow> 'a mpsc \<Rightarrow> bool" where
  "mpsc_inv k s \<longleftrightarrow>
     k < length (q_order s) \<and> distinct (q_order s) \<and> (\<forall>n\<in>set (q_order s). n < q_fresh s)
     \<and> q_tail s = q_order s ! k \<and> q_head s = last (q_order s) \<and> q_next s (q_head s) = None
     \<and> (\<forall>i. k \<le> i \<and> i < length (q_order s) \<longrightarrow> q_order s ! i \<in> q_live s)
     \<and> links_ok k s \<and> (\<forall>t. prod_ok k s t) \<and> cons_ok k s
     \<and> q_out s = map (q_data s) (take k (tl (q_order s)))"

lemmas mpsc_defs = mpsc_inv_def links_ok_def prod_ok_def cons_ok_def

lemma ctor_inv: "mpsc_inv 0 (CMpscQueue_ctor junk)"
  by (simp add: mpsc_defs CMpscQueue_ctor_def)

lemma prod_okD:
  assumes "prod_ok k s t"
  shows "q_prod s t = P_Ready n \<Longrightarrow>
      n < q_fresh s \<and> n \<in> q_live s \<and> n \<notin> set (q_order s) \<and> q_next s n = None \<and> only_ready s n t"
    and "q_prod s t = P_Link p n \<Longrightarrow>
      (\<exists>i. k \<le> i \<and> i + 1 < length (q_order s) \<and> p = q_order s ! i \<and> n = q_order s ! (i + 1) \<and> q_next s p = None)
      \<and> only_link s p t"
  using assms unfolding prod_ok_def by simp_all

lemma prod_okI:
  assumes "\<And>n. q_prod s t = P_Ready n \<Longrightarrow>
      n < q_fresh s \<and> n \<in> q_live s \<and> n \<notin> set (q_order s) \<and> q_next s n = None \<and> only_ready s n t"
    and "\<And>p n. q_prod s t = P_Link p n \<Longrightarrow>
      (\<exists>i. k \<le> i \<and> i + 1 < length (q_order s) \<and> p = q_order s ! i \<and> n = q_order s ! (i + 1) \<and> q_next s p = None)
      \<and> only_link s p t"
  shows "prod_ok k s t"
  using assms by (cases "q_prod s t") (simp_all only: prod_ok_def producer.case, blast)

text \<open>A step of another thread that leaves what the producer relies on keeps its part of the invariant.\<close>

lemma prod_ok_frame:
  assumes ok: "prod_ok k s t" and p: "q_prod s' t = q_prod s t" and fresh: "q_fresh s \<le> q_fresh s'"
    and ready: "\<And>n. q_prod s t = P_Ready n \<Longrightarrow> n \<notin> set (q_order s) \<Longrightarrow> n \<in> q_live s \<Longrightarrow> n < q_fresh s \<Longrightarrow>
      n \<in> q_live s' \<and> n \<notin> set (q_order s') \<and> q_next s' n = q_next s n"
    and others: "\<And>u n. q_prod s' u = P_Ready n \<Longrightarrow> u \<noteq> t \<Longrightarrow> q_prod s t = P_Ready n \<Longrightarrow> q_prod s u = P_Ready n"
    and links: "\<And>i n. k \<le> i \<Longrightarrow> i + 1 < length (q_order s) \<Longrightarrow> q_prod s t = P_Link (q_order s ! i) n \<Longrightarrow>
      q_next s (q_order s ! i) = None \<Longrightarrow> only_link s (q_order s ! i) t \<Longrightarrow>
      k' \<le> i \<and> q_next s' (q_order s ! i) = None \<and> (\<forall>u m. q_prod s' u = P_Link (q_order s ! i) m \<longrightarrow> u = t)"
    and order: "\<exists>ys. q_order s' = q_order s @ ys"
  shows "prod_ok k' s' t"
proof (rule prod_okI)
  fix n assume "q_prod s' t = P_Ready n"
  then have r: "q_prod s t = P_Ready n" using p by simp
  note d = prod_okD(1)[OF ok r]
  have "only_ready s' n t" unfolding only_ready_def
  proof (intro allI impI)
    fix u assume "q_prod s' u = P_Ready n"
    then show "u = t" using others[of u n] r d unfolding only_ready_def by blast
  qed
  then show "n < q_fresh s' \<and> n \<in> q_live s' \<and> n \<notin> set (q_order s') \<and> q_next s' n = None \<and> only_ready s' n t"
    using ready[OF r] d fresh by simp
next
  fix a n assume "q_prod s' t = P_Link a n"
  then have r: "q_prod s t = P_Link a n" using p by simp
  obtain i where i: "k \<le> i" "i + 1 < length (q_order s)" "a = q_order s ! i" "n = q_order s ! (i + 1)"
      "q_next s a = None" and only: "only_link s a t"
    using prod_okD(2)[OF ok r] by blast
  obtain ys where ys: "q_order s' = q_order s @ ys" using order by blast
  from links[OF i(1,2)] r i(3,5) only
  have "k' \<le> i" "q_next s' a = None" "only_link s' a t" by (simp_all add: only_link_def)
  moreover have "i + 1 < length (q_order s')" "a = q_order s' ! i" "n = q_order s' ! (i + 1)"
    using i ys by (simp_all add: nth_append)
  ultimately show "(\<exists>i. k' \<le> i \<and> i + 1 < length (q_order s') \<and> a = q_order s' ! i \<and> n = q_order s' ! (i + 1)
      \<and> q_next s' a = None) \<and> only_link s' a t" by blast
qed

lemma order_nth_eq:
  "distinct xs \<Longrightarrow> i < length xs \<Longrightarrow> j < length xs \<Longrightarrow> xs ! i = xs ! j \<longleftrightarrow> i = j"
  by (rule nth_eq_iff_index_eq)

lemma mpsc_facts:
  assumes "mpsc_inv k s"
  shows "q_order s \<noteq> []" and "q_head s = q_order s ! (length (q_order s) - 1)"
    and "q_next s (q_order s ! (length (q_order s) - 1)) = None" and "distinct (q_order s)" and "k < length (q_order s)"
    and "prod_ok k s t" and "q_tail s = q_order s ! k" and "q_tail s \<in> set (q_order s)"
proof -
  show ne: "q_order s \<noteq> []" using assms by (auto simp: mpsc_inv_def)
  then show head: "q_head s = q_order s ! (length (q_order s) - 1)"
    using assms by (simp add: mpsc_inv_def last_conv_nth)
  have "q_next s (q_head s) = None" using assms unfolding mpsc_inv_def by blast
  then show "q_next s (q_order s ! (length (q_order s) - 1)) = None" by (simp only: head)
  show "distinct (q_order s)" "k < length (q_order s)" "prod_ok k s t" "q_tail s = q_order s ! k"
    using assms by (simp_all add: mpsc_inv_def)
  then show "q_tail s \<in> set (q_order s)" by simp
qed

lemma mpsc_invI:
  assumes "k < length (q_order s)" and "distinct (q_order s)" and "\<And>n. n \<in> set (q_order s) \<Longrightarrow> n < q_fresh s"
    and "q_tail s = q_order s ! k" and "q_head s = last (q_order s)" and "q_next s (q_head s) = None"
    and "\<And>i. k \<le> i \<Longrightarrow> i < length (q_order s) \<Longrightarrow> q_order s ! i \<in> q_live s"
    and "links_ok k s" and "\<And>t. prod_ok k s t" and "cons_ok k s" and "q_out s = map (q_data s) (take k (tl (q_order s)))"
  shows "mpsc_inv k s"
  unfolding mpsc_inv_def using assms by blast

lemma mpsc_invD:
  assumes "mpsc_inv k s"
  shows "n \<in> set (q_order s) \<Longrightarrow> n < q_fresh s" and "q_head s = last (q_order s)" and "q_next s (q_head s) = None"
    and "k \<le> i \<Longrightarrow> i < length (q_order s) \<Longrightarrow> q_order s ! i \<in> q_live s"
    and "links_ok k s" and "cons_ok k s" and "q_out s = map (q_data s) (take k (tl (q_order s)))"
  using assms unfolding mpsc_inv_def by blast+

lemma head_not_earlier:
  assumes "mpsc_inv k s" and "i + 1 < length (q_order s)"
  shows "q_order s ! i \<noteq> q_head s"
  using assms(2) mpsc_facts(1,2,4)[OF assms(1)] by (simp add: order_nth_eq)

lemma new_inv:
  assumes inv: "mpsc_inv k s" and p: "q_prod s t = P_Idle"
  shows "mpsc_inv k (Enqueue_node t v s)"
proof -
  let ?s = "Enqueue_node t v s"
  have f: "q_order ?s = q_order s" "q_head ?s = q_head s" "q_tail ?s = q_tail s" "q_cons ?s = q_cons s" "q_out ?s = q_out s"
    "q_fresh ?s = Suc (q_fresh s)" "q_live ?s = insert (q_fresh s) (q_live s)"
    "q_next ?s = (q_next s)(q_fresh s := None)" "q_data ?s = (q_data s)(q_fresh s := v)"
    "q_prod ?s = (q_prod s)(t := P_Ready (q_fresh s))"
    by (simp_all add: Enqueue_node_def Let_def)
  have fresh: "q_fresh s \<notin> set (q_order s)" and lt: "\<forall>n\<in>set (q_order s). n < q_fresh s"
    using inv by (auto simp: mpsc_inv_def)
  have nth: "q_order s ! i \<noteq> q_fresh s" if "i < length (q_order s)" for i
    using fresh that by (metis nth_mem)
  have hd: "q_head s \<in> set (q_order s)" using mpsc_facts(1,2)[OF inv] by simp
  have noready: "q_prod s u \<noteq> P_Ready (q_fresh s)" for u
    using prod_okD(1)[OF mpsc_facts(6)[OF inv, of u]] by blast
  have "links_ok k ?s"
    unfolding links_ok_def
  proof (intro allI impI)
    fix i assume i: "k \<le> i \<and> i + 1 < length (q_order ?s)"
    then have "q_next s (q_order s ! i) = Some (q_order s ! (i + 1))
        \<or> q_next s (q_order s ! i) = None \<and> (\<exists>u. q_prod s u = P_Link (q_order s ! i) (q_order s ! (i + 1)))"
      using mpsc_invD(5)[OF inv] by (simp add: links_ok_def f)
    moreover have "q_order s ! i \<noteq> q_fresh s" using nth i by (simp add: f)
    moreover have "\<exists>u. ((q_prod s)(t := P_Ready (q_fresh s))) u = P_Link a b" if "q_prod s u = P_Link a b" for u a b
      using that p by (intro exI[of _ u]) auto
    ultimately show "q_next ?s (q_order ?s ! i) = Some (q_order ?s ! (i + 1))
        \<or> q_next ?s (q_order ?s ! i) = None \<and> (\<exists>u. q_prod ?s u = P_Link (q_order ?s ! i) (q_order ?s ! (i + 1)))"
      unfolding f by (metis fun_upd_other)
  qed
  moreover have "prod_ok k ?s u" for u
  proof (cases "u = t")
    case True
    then show ?thesis using fresh noready by (simp add: prod_ok_def only_ready_def f)
  next
    case False
    show ?thesis
    proof (rule prod_ok_frame[OF mpsc_facts(6)[OF inv]])
      fix i n assume "q_next s (q_order s ! i) = None" "only_link s (q_order s ! i) u" and k: "k \<le> i"
      then show "k \<le> i \<and> q_next ?s (q_order s ! i) = None \<and> (\<forall>v m. q_prod ?s v = P_Link (q_order s ! i) m \<longrightarrow> v = u)"
        by (simp add: f only_link_def)
    qed (use False noready in \<open>auto simp: f split: if_splits\<close>)
  qed
  moreover have "map (q_data ?s) (take k (tl (q_order s))) = map (q_data s) (take k (tl (q_order s)))"
  proof (rule map_cong[OF refl])
    fix x assume "x \<in> set (take k (tl (q_order s)))"
    then have "x \<in> set (q_order s)" using in_set_takeD list.set_sel(2)[OF mpsc_facts(1)[OF inv]] by fast
    then show "q_data ?s x = q_data s x" using fresh by (auto simp: f)
  qed
  moreover have "cons_ok k ?s"
    using mpsc_invD(6)[OF inv] fresh mpsc_facts(8)[OF inv] by (cases "q_cons s") (auto simp: cons_ok_def f)
  ultimately show ?thesis
    using mpsc_facts[OF inv] mpsc_invD[OF inv] hd fresh
    by (intro mpsc_invI) (auto simp: f less_SucI)
qed

lemma exchange_inv:
  assumes inv: "mpsc_inv k s" and p: "q_prod s t = P_Ready n"
  shows "mpsc_inv k (Push_exchange t n s)"
proof -
  let ?s = "Push_exchange t n s" and ?L = "length (q_order s)"
  have f: "q_order ?s = q_order s @ [n]" "q_head ?s = n" "q_tail ?s = q_tail s" "q_cons ?s = q_cons s" "q_out ?s = q_out s"
    "q_fresh ?s = q_fresh s" "q_live ?s = q_live s" "q_next ?s = q_next s" "q_data ?s = q_data s"
    "q_prod ?s = (q_prod s)(t := P_Link (q_head s) n)"
    by (simp_all add: Push_exchange_def)
  note ne = mpsc_facts(1)[OF inv] and head = mpsc_facts(2)[OF inv] and len = mpsc_facts(5)[OF inv]
  have pt: "n < q_fresh s" "n \<in> q_live s" "n \<notin> set (q_order s)" "q_next s n = None" "only_ready s n t"
    using prod_okD(1)[OF mpsc_facts(6)[OF inv] p] by auto
  have hn: "q_next s (q_head s) = None" and dist: "distinct (q_order s)" using inv unfolding mpsc_inv_def by blast+
  have links: "links_ok k ?s"
    unfolding links_ok_def
  proof (intro allI impI)
    fix i assume i: "k \<le> i \<and> i + 1 < length (q_order ?s)"
    show "q_next ?s (q_order ?s ! i) = Some (q_order ?s ! (i + 1))
      \<or> q_next ?s (q_order ?s ! i) = None \<and> (\<exists>u. q_prod ?s u = P_Link (q_order ?s ! i) (q_order ?s ! (i + 1)))"
    proof (cases "i + 1 < ?L")
      case True
      then have "q_next s (q_order s ! i) = Some (q_order s ! (i + 1))
          \<or> q_next s (q_order s ! i) = None \<and> (\<exists>u. q_prod s u = P_Link (q_order s ! i) (q_order s ! (i + 1)))"
        using inv i by (auto simp: mpsc_inv_def links_ok_def)
      then show ?thesis using True p by (auto simp: f nth_append) (metis fun_upd_other producer.distinct(5))
    next
      case False
      then have "i = ?L - 1" using i by (auto simp: f)
      then show ?thesis using head hn ne by (auto simp: f nth_append)
    qed
  qed
  have prods: "prod_ok k ?s u" for u
  proof (cases "u = t")
    case True
    have "w = t" if w: "q_prod s w = P_Link (q_head s) m" for w m
      using prod_okD(2)[OF mpsc_facts(6)[OF inv] w] head_not_earlier[OF inv] by metis
    moreover have "\<exists>i. k \<le> i \<and> i + 1 < Suc ?L \<and> q_head s = (q_order s @ [n]) ! i \<and> n = (q_order s @ [n]) ! (i + 1)"
      using len head by (intro exI[of _ "?L - 1"]) (auto simp: nth_append)
    ultimately show ?thesis using True hn by (intro prod_okI) (auto simp: only_link_def f)
  next
    case False
    show ?thesis
    proof (rule prod_ok_frame[OF mpsc_facts(6)[OF inv]])
      fix i m assume i: "k \<le> i" "i + 1 < ?L" "q_next s (q_order s ! i) = None" "only_link s (q_order s ! i) u"
      then show "k \<le> i \<and> q_next ?s (q_order s ! i) = None \<and> (\<forall>v m. q_prod ?s v = P_Link (q_order s ! i) m \<longrightarrow> v = u)"
        using head_not_earlier[OF inv i(2)] by (simp add: f only_link_def)
    next
      fix m assume "q_prod s u = P_Ready m" "m \<notin> set (q_order s)" "m \<in> q_live s"
      then show "m \<in> q_live ?s \<and> m \<notin> set (q_order ?s) \<and> q_next ?s m = q_next s m"
        using pt(5) False by (auto simp: f only_ready_def)
    qed (use False in \<open>auto simp: f split: if_splits\<close>)
  qed
  have "cons_ok k ?s" using inv by (cases "q_cons s") (auto simp: mpsc_inv_def cons_ok_def f nth_append)
  with links prods show ?thesis
    using mpsc_facts[OF inv] mpsc_invD[OF inv] pt
    by (intro mpsc_invI) (auto simp: f nth_append less_Suc_eq)
qed

lemma link_inv:
  assumes inv: "mpsc_inv k s" and p: "q_prod s t = P_Link a n"
  shows "mpsc_inv k (Push_link t a n s)"
proof -
  let ?s = "Push_link t a n s" and ?L = "length (q_order s)"
  have f: "q_order ?s = q_order s" "q_head ?s = q_head s" "q_tail ?s = q_tail s" "q_cons ?s = q_cons s" "q_out ?s = q_out s"
    "q_fresh ?s = q_fresh s" "q_live ?s = q_live s" "q_next ?s = (q_next s)(a := Some n)" "q_data ?s = q_data s"
    "q_prod ?s = (q_prod s)(t := P_Idle)"
    by (simp_all add: Push_link_def)
  note dist = mpsc_facts(4)[OF inv] and ne = mpsc_facts(1)[OF inv] and head = mpsc_facts(2)[OF inv]
  obtain i where i: "k \<le> i" "i + 1 < ?L" "a = q_order s ! i" "n = q_order s ! (i + 1)" "q_next s a = None"
      "only_link s a t"
    using prod_okD(2)[OF mpsc_facts(6)[OF inv] p] by blast
  have ain: "a \<in> set (q_order s)" using i(2,3) by simp
  have ha: "q_head s \<noteq> a" using i(3) head_not_earlier[OF inv i(2)] by simp
  have links: "links_ok k ?s"
    unfolding links_ok_def
  proof (intro allI impI)
    fix j assume j: "k \<le> j \<and> j + 1 < length (q_order ?s)"
    show "q_next ?s (q_order ?s ! j) = Some (q_order ?s ! (j + 1))
      \<or> q_next ?s (q_order ?s ! j) = None \<and> (\<exists>u. q_prod ?s u = P_Link (q_order ?s ! j) (q_order ?s ! (j + 1)))"
    proof (cases "j = i")
      case False
      then have "q_order s ! j \<noteq> a" using i(2,3) j[unfolded f] order_nth_eq[OF dist, of j i] by simp
      moreover have "q_next s (q_order s ! j) = Some (q_order s ! (j + 1))
          \<or> q_next s (q_order s ! j) = None \<and> (\<exists>u. q_prod s u = P_Link (q_order s ! j) (q_order s ! (j + 1)))"
        using inv j by (auto simp: mpsc_inv_def links_ok_def f)
      ultimately show ?thesis using p by (auto simp: f) (metis fun_upd_other producer.inject(2))
    next
      case True
      have "((q_next s)(a := Some n)) (q_order s ! i) = Some (q_order s ! (i + 1))" using i(3,4) by simp
      then show ?thesis unfolding f True by blast
    qed
  qed
  have prods: "prod_ok k ?s u" for u
  proof (cases "u = t")
    case False
    show ?thesis
    proof (rule prod_ok_frame[OF mpsc_facts(6)[OF inv]])
      fix j m assume j: "k \<le> j" "j + 1 < ?L" "q_prod s u = P_Link (q_order s ! j) m"
        "q_next s (q_order s ! j) = None" "only_link s (q_order s ! j) u"
      have "q_order s ! j \<noteq> a" using i(6) j(3) False by (auto simp: only_link_def)
      then show "k \<le> j \<and> q_next ?s (q_order s ! j) = None \<and> (\<forall>v m. q_prod ?s v = P_Link (q_order s ! j) m \<longrightarrow> v = u)"
        using j by (simp add: f only_link_def)
    next
      fix m assume "q_prod s u = P_Ready m" "m \<notin> set (q_order s)" "m \<in> q_live s"
      then show "m \<in> q_live ?s \<and> m \<notin> set (q_order ?s) \<and> q_next ?s m = q_next s m"
        using ain by (auto simp: f)
    qed (use False in \<open>auto simp: f split: if_splits\<close>)
  qed (simp add: prod_ok_def f)
  have "cons_ok k ?s" using inv i(5) by (cases "q_cons s") (auto simp: mpsc_inv_def cons_ok_def f)
  with links prods show ?thesis
    using mpsc_facts[OF inv] mpsc_invD[OF inv] ha by (intro mpsc_invI) (simp_all add: f)
qed

lemma load_inv:
  assumes inv: "mpsc_inv k s" and c: "q_cons s = C_Idle"
  shows "mpsc_inv k (Dequeue_load s)"
proof (cases "q_next s (q_tail s)")
  case None
  then show ?thesis using inv by (simp add: Dequeue_load_def)
next
  case (Some n)
  let ?L = "length (q_order s)"
  have "q_tail s = q_order s ! k" "k < ?L" "q_next s (q_order s ! (?L - 1)) = None"
    using mpsc_facts[OF inv] by auto
  then have k1: "k + 1 < ?L" using Some by (cases "k = ?L - 1") auto
  have lk: "links_ok k s" using inv by (simp add: mpsc_inv_def)
  then have "n = q_order s ! (k + 1)"
    using k1 Some \<open>q_tail s = q_order s ! k\<close> by (auto simp: links_ok_def)
  then have f: "Dequeue_load s = s\<lparr>q_cons := C_Next (q_tail s) (q_order s ! (k + 1))\<rparr>"
    using Some by (simp add: Dequeue_load_def)
  have "prod_ok k (Dequeue_load s) u" for u
    by (rule prod_ok_frame[OF mpsc_facts(6)[OF inv]]) (auto simp: f only_link_def)
  moreover have "links_ok k (Dequeue_load s)" using lk by (simp add: links_ok_def f)
  moreover have "cons_ok k (Dequeue_load s)" using k1 Some \<open>n = q_order s ! (k + 1)\<close> by (simp add: cons_ok_def f)
  ultimately show ?thesis
    using mpsc_facts[OF inv] mpsc_invD[OF inv] by (intro mpsc_invI) (simp_all add: f)
qed

lemma take_inv:
  assumes inv: "mpsc_inv k s" and c: "q_cons s = C_Next tail n"
  shows "mpsc_inv (k + 1) (Dequeue_take tail n s)"
proof -
  let ?s = "Dequeue_take tail n s" and ?L = "length (q_order s)"
  have f: "q_order ?s = q_order s" "q_head ?s = q_head s" "q_tail ?s = n" "q_cons ?s = C_Delete tail"
    "q_out ?s = q_out s @ [q_data s n]" "q_fresh ?s = q_fresh s" "q_live ?s = q_live s" "q_next ?s = q_next s" "q_data ?s = q_data s"
    "q_prod ?s = q_prod s"
    by (simp_all add: Dequeue_take_def)
  have c': "tail = q_order s ! k" "k + 1 < ?L" "n = q_order s ! (k + 1)" "q_next s tail = Some n"
    using inv c by (auto simp: mpsc_inv_def cons_ok_def)
  have "prod_ok (k + 1) ?s u" for u
  proof (rule prod_ok_frame[OF mpsc_facts(6)[OF inv]])
    fix i m assume i: "k \<le> i" "i + 1 < ?L" "q_next s (q_order s ! i) = None" "only_link s (q_order s ! i) u"
    have "i \<noteq> k" using i(3) c' by auto
    then show "k + 1 \<le> i \<and> q_next ?s (q_order s ! i) = None \<and> (\<forall>v m. q_prod ?s v = P_Link (q_order s ! i) m \<longrightarrow> v = u)"
      using i by (simp add: f only_link_def)
  qed (auto simp: f)
  moreover have "links_ok (k + 1) ?s" using inv by (auto simp: mpsc_inv_def links_ok_def f)
  moreover have "q_out ?s = map (q_data s) (take (k + 1) (tl (q_order s)))"
    unfolding f mpsc_invD(7)[OF inv] using c'(2,3) by (simp add: take_Suc_conv_app_nth nth_tl)
  moreover have "cons_ok (k + 1) ?s" unfolding cons_ok_def f using c'(1,2) mpsc_invD(4)[OF inv, of k] by simp
  ultimately show ?thesis
    using mpsc_facts[OF inv] mpsc_invD[OF inv] c'(2,3) by (intro mpsc_invI; unfold f) simp_all
qed

lemma delete_inv:
  assumes inv: "mpsc_inv k s" and c: "q_cons s = C_Delete tail"
  shows "mpsc_inv k (Dequeue_delete tail s)"
proof -
  let ?s = "Dequeue_delete tail s"
  have f: "q_order ?s = q_order s" "q_head ?s = q_head s" "q_tail ?s = q_tail s" "q_cons ?s = C_Idle" "q_out ?s = q_out s"
    "q_fresh ?s = q_fresh s" "q_live ?s = q_live s - {tail}" "q_next ?s = q_next s" "q_data ?s = q_data s" "q_prod ?s = q_prod s"
    by (simp_all add: Dequeue_delete_def)
  have t: "0 < k" "tail = q_order s ! (k - 1)" "k < length (q_order s)" and dist: "distinct (q_order s)"
    using inv c by (auto simp: mpsc_inv_def cons_ok_def)
  have "q_order s ! i \<noteq> tail" if "k \<le> i" "i < length (q_order s)" for i
    using that t order_nth_eq[OF dist, of i "k - 1"] by auto
  moreover have "tail \<in> set (q_order s)" using t by auto
  moreover have "prod_ok k ?s u" for u
    by (rule prod_ok_frame[OF mpsc_facts(6)[OF inv]])
      (use \<open>tail \<in> set (q_order s)\<close> in \<open>auto simp: f only_link_def\<close>)
  moreover have "links_ok k ?s" using mpsc_invD(5)[OF inv] by (simp add: links_ok_def f)
  moreover have "cons_ok k ?s" by (simp add: cons_ok_def f)
  ultimately show ?thesis
    using mpsc_facts[OF inv] mpsc_invD[OF inv] by (intro mpsc_invI) (simp_all add: f)
qed

subsection \<open>Every reachable state\<close>

text \<open>
  The nodes not yet deleted are those from the tail on, those a producer has made and not published, and the one the
  consumer is about to delete.
\<close>

definition accounted :: "nat \<Rightarrow> 'a mpsc \<Rightarrow> bool" where
  "accounted k s \<longleftrightarrow>
     (\<forall>n\<in>q_live s. n \<in> set (drop k (q_order s)) \<or> (\<exists>t. q_prod s t = P_Ready n) \<or> q_cons s = C_Delete n)"

lemma accounted_new: "accounted k s \<Longrightarrow> q_prod s t = P_Idle \<Longrightarrow> accounted k (Enqueue_node t v s)"
  by (auto simp: accounted_def Enqueue_node_def Let_def) (metis producer.distinct(1))

lemma accounted_exchange:
  assumes "mpsc_inv k s" and "accounted k s" and p: "q_prod s t = P_Ready n"
  shows "accounted k (Push_exchange t n s)"
  unfolding accounted_def
proof
  fix m assume "m \<in> q_live (Push_exchange t n s)"
  then have "m \<in> q_live s" by (simp add: Push_exchange_def)
  then consider "m \<in> set (drop k (q_order s))" | u where "q_prod s u = P_Ready m" | "q_cons s = C_Delete m"
    using assms(2) by (auto simp: accounted_def)
  then show "m \<in> set (drop k (q_order (Push_exchange t n s))) \<or> (\<exists>u. q_prod (Push_exchange t n s) u = P_Ready m)
      \<or> q_cons (Push_exchange t n s) = C_Delete m"
  proof cases
    case 2
    then show ?thesis using p mpsc_facts(5)[OF assms(1)] by (cases "u = t") (auto simp: Push_exchange_def)
  qed (use mpsc_facts(5)[OF assms(1)] in \<open>auto simp: Push_exchange_def\<close>)
qed

lemma accounted_link: "accounted k s \<Longrightarrow> q_prod s t = P_Link p n \<Longrightarrow> accounted k (Push_link t p n s)"
  by (auto simp: accounted_def Push_link_def) (metis producer.distinct(5))

lemma accounted_take:
  assumes "mpsc_inv k s" and "accounted k s" and c: "q_cons s = C_Next tail n"
  shows "accounted (k + 1) (Dequeue_take tail n s)"
proof -
  have "tail = q_order s ! k" "k < length (q_order s)"
    using mpsc_invD(6)[OF assms(1)] mpsc_facts(5,7)[OF assms(1)] c by (auto simp: cons_ok_def)
  then have "drop k (q_order s) = tail # drop (k + 1) (q_order s)" by (simp add: Cons_nth_drop_Suc)
  then show ?thesis using assms(2) c by (auto simp: accounted_def Dequeue_take_def)
qed

definition mpsc_good :: "'a mpsc \<Rightarrow> bool" where
  "mpsc_good s \<longleftrightarrow> (\<exists>k. mpsc_inv k s \<and> accounted k s)"

lemma mpsc_step_good:
  assumes "mpsc_step s s'" and "mpsc_good s"
  shows "mpsc_good s'"
proof -
  obtain k where k: "mpsc_inv k s" "accounted k s" using assms(2) by (auto simp: mpsc_good_def)
  from assms(1) have "(mpsc_inv k s' \<and> accounted k s') \<or> (mpsc_inv (k + 1) s' \<and> accounted (k + 1) s')"
  proof cases
    case (new t v) then show ?thesis using new_inv[OF k(1)] accounted_new[OF k(2)] by simp
  next
    case (exchange t n) then show ?thesis using exchange_inv[OF k(1)] accounted_exchange[OF k] by simp
  next
    case (link t p n) then show ?thesis using link_inv[OF k(1)] accounted_link[OF k(2)] by simp
  next
    case load
    then have "accounted k s'"
      using k(2) by (auto simp: accounted_def Dequeue_load_def split: option.splits)
    then show ?thesis using load load_inv[OF k(1)] by simp
  next
    case (take tail n) then show ?thesis using take_inv[OF k(1)] accounted_take[OF k] by simp
  next
    case (delete tail)
    then have "accounted k s'" using k(2) by (auto simp: accounted_def Dequeue_delete_def)
    then show ?thesis using delete delete_inv[OF k(1)] by simp
  qed
  then show ?thesis by (auto simp: mpsc_good_def)
qed

lemma three_steps_good:
  "mpsc_good s \<Longrightarrow> mpsc_step s s1 \<Longrightarrow> mpsc_step s1 s2 \<Longrightarrow> mpsc_step s2 s3 \<Longrightarrow> mpsc_good s3"
  by (iprover intro: mpsc_step_good)

lemma mpsc_reachable_good: "mpsc_reachable junk s \<Longrightarrow> mpsc_good s"
proof (induction rule: rtranclp_induct)
  case base
  have "accounted 0 (CMpscQueue_ctor junk)" by (simp add: accounted_def CMpscQueue_ctor_def)
  with ctor_inv[of junk] show ?case unfolding mpsc_good_def by (intro exI[of _ 0] conjI)
qed (rule mpsc_step_good)

text \<open>What a good state promises, whoever runs next.\<close>

lemma good_fifo:
  assumes "mpsc_good s"
  shows "prefix (q_out s) (map (q_data s) (tl (q_order s)))"
proof -
  obtain k where "mpsc_inv k s" using assms by (auto simp: mpsc_good_def)
  then show ?thesis using mpsc_invD(7) by (metis map_mono_prefix take_is_prefix)
qed

lemma inv_live:
  assumes inv: "mpsc_inv k s"
  shows "q_tail s \<in> q_live s" and "q_head s \<in> q_live s"
    and "q_prod s t = P_Ready n \<Longrightarrow> n \<in> q_live s" and "q_prod s t = P_Link p m \<Longrightarrow> p \<in> q_live s"
    and "q_cons s = C_Next a b \<Longrightarrow> a \<in> q_live s \<and> b \<in> q_live s" and "q_cons s = C_Delete a \<Longrightarrow> a \<in> q_live s"
proof -
  note live = mpsc_invD(4)[OF inv] and facts = mpsc_facts[OF inv]
  show tail: "q_tail s \<in> q_live s" using live[of k] facts(5,7) by simp
  show "q_head s \<in> q_live s" using live[of "length (q_order s) - 1"] facts(1,2,5) by simp
  show "q_prod s t = P_Ready n \<Longrightarrow> n \<in> q_live s" using prod_okD(1)[OF facts(6)] by blast
  show "q_prod s t = P_Link p m \<Longrightarrow> p \<in> q_live s" using prod_okD(2)[OF facts(6)] live by fastforce
  show "q_cons s = C_Next a b \<Longrightarrow> a \<in> q_live s \<and> b \<in> q_live s"
    using mpsc_invD(6)[OF inv] live[of "k + 1"] tail by (auto simp: cons_ok_def)
  show "q_cons s = C_Delete a \<Longrightarrow> a \<in> q_live s" using mpsc_invD(6)[OF inv] by (auto simp: cons_ok_def)
qed

lemma inv_out_length: "mpsc_inv k s \<Longrightarrow> length (q_out s) = k"
  using mpsc_facts(5)[of k s] by (simp add: mpsc_invD(7))

lemma inv_next:
  assumes inv: "mpsc_inv k s"
  shows "q_next s (q_tail s) = None \<longleftrightarrow>
      k + 1 = length (q_order s) \<or> (\<exists>t n. q_prod s t = P_Link (q_tail s) n)"
proof (cases "k + 1 = length (q_order s)")
  case True
  then show ?thesis using mpsc_facts(2,7)[OF inv] mpsc_invD(3)[OF inv] by (metis add_diff_cancel_right')
next
  case False
  then have k: "k + 1 < length (q_order s)" using mpsc_facts(5)[OF inv] by simp
  have tail: "q_tail s = q_order s ! k" by (rule mpsc_facts(7)[OF inv])
  have "\<exists>t n. q_prod s t = P_Link (q_tail s) n" if "q_next s (q_tail s) = None"
    using mpsc_invD(5)[OF inv, unfolded links_ok_def, rule_format, of k] k that tail by auto
  moreover have "q_next s (q_tail s) = None" if "q_prod s t = P_Link (q_tail s) n" for t n
    using prod_okD(2)[OF mpsc_facts(6)[OF inv] that] by blast
  ultimately show ?thesis using False by blast
qed

text \<open>C10.
  First in, first out, under every interleaving of producers and the consumer: the values handed to the consumer are a
  prefix of the values in the order of their exchanges, and no thread ever holds a pointer to a deleted node that it is
  about to use: not the head or tail of the queue, not the node a producer links from, not the nodes a dequeue reads or deletes.
\<close>

theorem mpsc_fifo_and_safe:
  assumes "mpsc_reachable junk s"
  shows "prefix (q_out s) (map (q_data s) (tl (q_order s)))
    \<and> q_tail s \<in> q_live s \<and> q_head s \<in> q_live s
    \<and> (\<forall>t n. q_prod s t = P_Ready n \<longrightarrow> n \<in> q_live s) \<and> (\<forall>t p n. q_prod s t = P_Link p n \<longrightarrow> p \<in> q_live s)
    \<and> (\<forall>a b. q_cons s = C_Next a b \<longrightarrow> a \<in> q_live s \<and> b \<in> q_live s) \<and> (\<forall>a. q_cons s = C_Delete a \<longrightarrow> a \<in> q_live s)"
proof -
  have good: "mpsc_good s" by (rule mpsc_reachable_good[OF assms])
  then obtain k where "mpsc_inv k s" by (auto simp: mpsc_good_def)
  from inv_live[OF this] good_fifo[OF good] show ?thesis by blast
qed

definition two_pushed :: "string mpsc" where
  "two_pushed = Push_exchange 1 2 (Push_exchange 2 1 (Enqueue_node 1 ''b'' (Enqueue_node 2 ''a'' (CMpscQueue_ctor []))))"

lemma two_pushed_reachable: "mpsc_reachable [] two_pushed"
proof -
  let ?s0 = "CMpscQueue_ctor []"
  let ?s1 = "Enqueue_node 2 ''a'' ?s0"
  let ?s2 = "Enqueue_node 1 ''b'' ?s1"
  let ?s3 = "Push_exchange 2 1 ?s2"
  have "mpsc_step ?s0 ?s1" by (rule mpsc_step.new) (simp add: CMpscQueue_ctor_def)
  moreover have "mpsc_step ?s1 ?s2" by (rule mpsc_step.new) (simp add: CMpscQueue_ctor_def Enqueue_node_def Let_def)
  moreover have "mpsc_step ?s2 ?s3" by (rule mpsc_step.exchange) (simp add: CMpscQueue_ctor_def Enqueue_node_def Let_def)
  moreover have "mpsc_step ?s3 two_pushed" unfolding two_pushed_def
    by (rule mpsc_step.exchange) (simp add: CMpscQueue_ctor_def Enqueue_node_def Push_exchange_def Let_def)
  ultimately show ?thesis by (meson converse_rtranclp_into_rtranclp rtranclp.rtrancl_refl)
qed

theorem mpsc_fifo_and_safe_witness:
  "prefix (q_out two_pushed) [''a'', ''b''] \<and> 0 \<in> q_live two_pushed"
  using mpsc_fifo_and_safe[OF two_pushed_reachable]
  by (simp add: two_pushed_def CMpscQueue_ctor_def Enqueue_node_def Push_exchange_def Let_def)

text \<open>A dequeue comes back empty exactly when every value exchanged so far has been taken or a producer stands between its exchange
  and its link of the node at the tail; it never misses a value that is linked.
\<close>

theorem mpsc_dequeue_empty_iff:
  assumes "mpsc_reachable junk s" and "q_cons s = C_Idle"
  shows "Dequeue_load s = s \<longleftrightarrow>
    length (q_out s) = length (tl (q_order s)) \<or> (\<exists>t n. q_prod s t = P_Link (q_tail s) n)"
proof -
  obtain k where inv: "mpsc_inv k s" using mpsc_reachable_good[OF assms(1)] by (auto simp: mpsc_good_def)
  have "Dequeue_load s = s \<longleftrightarrow> q_next s (q_tail s) = None"
  proof (cases "q_next s (q_tail s)")
    case (Some n)
    then have "q_cons (Dequeue_load s) \<noteq> q_cons s" using assms(2) by (simp add: Dequeue_load_def)
    then have "Dequeue_load s \<noteq> s" by metis
    then show ?thesis using Some by simp
  qed (simp add: Dequeue_load_def)
  moreover have "k + 1 = length (q_order s) \<longleftrightarrow> length (q_out s) = length (tl (q_order s))"
    using inv_out_length[OF inv] mpsc_facts(1)[OF inv] by (cases "q_order s") auto
  ultimately show ?thesis using inv_next[OF inv] by simp
qed

theorem mpsc_dequeue_empty_iff_witness:
  "Dequeue_load two_pushed = two_pushed \<longleftrightarrow> (\<exists>t n. q_prod two_pushed t = P_Link 0 n)"
  using mpsc_dequeue_empty_iff[OF two_pushed_reachable]
  by (simp add: two_pushed_def CMpscQueue_ctor_def Enqueue_node_def Push_exchange_def Let_def)

subsection \<open>One thread at a time: a queue\<close>

text \<open>
  What the clients of a queue rely on when no other thread is inside it, with the loop every client runs,
  \<open>while (queue.Dequeue(x)) ...\<close>, as \<open>drain_with\<close>.
\<close>

fun drain_with :: "('s \<Rightarrow> 'a option \<times> 's) \<Rightarrow> nat \<Rightarrow> 's \<Rightarrow> ('a list \<times> 's) option" where
  "drain_with deq 0 s = None"
| "drain_with deq (Suc fuel) s =
     (case deq s of
        (None, s') \<Rightarrow> Some ([], s')
      | (Some x, s') \<Rightarrow> map_option (\<lambda>(xs, t). (x # xs, t)) (drain_with deq fuel s'))"

locale fifo_queue =
  fixes ok :: "'s \<Rightarrow> bool" and queue :: "'s \<Rightarrow> 'a list"
    and enq :: "'a \<Rightarrow> 's \<Rightarrow> 's" and deq :: "'s \<Rightarrow> 'a option \<times> 's"
  assumes enq_ok: "ok s \<Longrightarrow> ok (enq x s)"
    and enq_queue: "ok s \<Longrightarrow> queue (enq x s) = queue s @ [x]"
    and deq_empty: "ok s \<Longrightarrow> queue s = [] \<Longrightarrow> deq s = (None, s)"
    and deq_value: "ok s \<Longrightarrow> queue s = x # xs \<Longrightarrow> \<exists>s'. deq s = (Some x, s') \<and> ok s' \<and> queue s' = xs"
begin

lemma drain_all:
  assumes "ok s" and "length (queue s) < fuel"
  shows "\<exists>s'. drain_with deq fuel s = Some (queue s, s') \<and> ok s' \<and> queue s' = []"
  using assms
proof (induction fuel arbitrary: s)
  case (Suc fuel)
  show ?case
  proof (cases "queue s")
    case Nil
    then show ?thesis using deq_empty[OF Suc.prems(1)] Suc.prems(1) by simp
  next
    case (Cons x xs)
    then obtain s' where s': "deq s = (Some x, s')" "ok s'" "queue s' = xs" using deq_value[OF Suc.prems(1)] by blast
    then show ?thesis using Suc.IH[of s'] Suc.prems(2) Cons by auto
  qed
qed simp

lemma fold_enq:
  assumes "ok s"
  shows "ok (fold enq xs s) \<and> queue (fold enq xs s) = queue s @ xs"
  using assms by (induction xs arbitrary: s) (simp_all add: enq_ok enq_queue)

lemma enqueue_drain:
  assumes "ok s" and "length (queue s) + length xs < fuel"
  shows "\<exists>s'. drain_with deq fuel (fold enq xs s) = Some (queue s @ xs, s') \<and> ok s' \<and> queue s' = []"
  using drain_all[of "fold enq xs s" fuel] fold_enq[OF assms(1), of xs] assms(2) by simp

end

definition Enqueue :: "nat \<Rightarrow> 'a \<Rightarrow> 'a mpsc \<Rightarrow> 'a mpsc" where
  "Enqueue t v s =
     (let node = q_fresh s;
          s1 = Enqueue_node t v s;
          prevHead = q_head s1
      in Push_link t prevHead node (Push_exchange t node s1))"

definition Dequeue :: "'a mpsc \<Rightarrow> 'a option \<times> 'a mpsc" where
  "Dequeue s =
     (let s1 = Dequeue_load s
      in case q_cons s1 of
           C_Next tail n \<Rightarrow> (Some (q_data s1 n), Dequeue_delete tail (Dequeue_take tail n s1))
         | _ \<Rightarrow> (None, s1))"

definition quiet :: "'a mpsc \<Rightarrow> bool" where
  "quiet s \<longleftrightarrow> mpsc_good s \<and> (\<forall>t. q_prod s t = P_Idle) \<and> q_cons s = C_Idle"

definition pending :: "'a mpsc \<Rightarrow> 'a list" where
  "pending s = drop (length (q_out s)) (map (q_data s) (tl (q_order s)))"

lemma Enqueue_quiet:
  assumes "quiet s"
  shows "quiet (Enqueue t v s)" and "pending (Enqueue t v s) = pending s @ [v]"
proof -
  obtain k where inv: "mpsc_inv k s" using assms by (auto simp: quiet_def mpsc_good_def)
  let ?s1 = "Enqueue_node t v s" and ?n = "q_fresh s"
  let ?s2 = "Push_exchange t ?n ?s1"
  have 1: "mpsc_step s ?s1" using assms by (intro mpsc_step.new) (simp add: quiet_def)
  have 2: "mpsc_step ?s1 ?s2" by (rule mpsc_step.exchange) (simp add: Enqueue_node_def Let_def)
  have 3: "mpsc_step ?s2 (Push_link t (q_head ?s1) ?n ?s2)"
    by (rule mpsc_step.link) (simp add: Push_exchange_def)
  have "mpsc_good (Enqueue t v s)"
    unfolding Enqueue_def Let_def using three_steps_good[OF _ 1 2 3] assms by (simp add: quiet_def)
  moreover have "q_cons (Enqueue t v s) = C_Idle" "\<forall>u. q_prod (Enqueue t v s) u = P_Idle"
    using assms by (simp_all add: quiet_def Enqueue_def Push_link_def Push_exchange_def Enqueue_node_def Let_def)
  ultimately show "quiet (Enqueue t v s)" by (simp add: quiet_def)
  have f: "q_order (Enqueue t v s) = q_order s @ [?n]" "q_out (Enqueue t v s) = q_out s"
    "q_data (Enqueue t v s) = (q_data s)(?n := v)"
    by (simp_all add: Enqueue_def Push_link_def Push_exchange_def Enqueue_node_def Let_def)
  have "?n \<notin> set (tl (q_order s))"
    using mpsc_invD(1)[OF inv] list.set_sel(2)[OF mpsc_facts(1)[OF inv]] by blast
  then have same: "map ((q_data s)(?n := v)) (tl (q_order s)) = map (q_data s) (tl (q_order s))" by simp
  show "pending (Enqueue t v s) = pending s @ [v]"
    using mpsc_facts(1,5)[OF inv] inv_out_length[OF inv] by (simp add: pending_def f same)
qed

lemma Dequeue_quiet:
  assumes "quiet s"
  shows "pending s = [] \<Longrightarrow> Dequeue s = (None, s)"
    and "pending s = x # xs \<Longrightarrow> \<exists>s'. Dequeue s = (Some x, s') \<and> quiet s' \<and> pending s' = xs"
proof -
  obtain k where inv: "mpsc_inv k s" using assms by (auto simp: quiet_def mpsc_good_def)
  have idle: "q_cons s = C_Idle" "\<And>t. q_prod s t = P_Idle" using assms by (auto simp: quiet_def)
  have next_iff: "q_next s (q_tail s) = None \<longleftrightarrow> k + 1 = length (q_order s)" using inv_next[OF inv] idle(2) by simp
  have len: "length (q_out s) = k" by (rule inv_out_length[OF inv])
  have klt: "k < length (q_order s)" by (rule mpsc_facts(5)[OF inv])
  show "Dequeue s = (None, s)" if "pending s = []"
    using that next_iff len klt idle(1) by (auto simp: Dequeue_def Dequeue_load_def pending_def Let_def)
  assume p: "pending s = x # xs"
  then have k1: "k + 1 < length (q_order s)" using len klt by (auto simp: pending_def dest: arg_cong[of _ _ length])
  have n: "q_next s (q_tail s) = Some (q_order s ! (k + 1))"
    using mpsc_invD(5)[OF inv, unfolded links_ok_def, rule_format, of k] k1 idle(2) mpsc_facts(7)[OF inv] by auto
  let ?n = "q_order s ! (k + 1)"
  let ?s1 = "Dequeue_load s"
  let ?s2 = "Dequeue_take (q_tail s) ?n ?s1"
  let ?s3 = "Dequeue_delete (q_tail s) ?s2"
  have c1: "q_cons ?s1 = C_Next (q_tail s) ?n" "q_data ?s1 = q_data s" by (simp_all add: Dequeue_load_def n)
  have d: "Dequeue s = (Some (q_data s ?n), ?s3)" by (simp add: Dequeue_def Let_def c1)
  have "mpsc_step s ?s1" using idle(1) by (rule mpsc_step.load)
  moreover have "mpsc_step ?s1 ?s2" using c1(1) by (rule mpsc_step.take)
  moreover have "mpsc_step ?s2 ?s3" by (rule mpsc_step.delete) (simp add: Dequeue_take_def)
  ultimately have "mpsc_good ?s3" using assms three_steps_good[of s ?s1 ?s2 ?s3] by (simp add: quiet_def)
  then have "quiet ?s3" using idle(2) by (simp add: quiet_def Dequeue_delete_def Dequeue_take_def Dequeue_load_def n)
  moreover have "x = q_data s ?n \<and> xs = drop (k + 1) (map (q_data s) (tl (q_order s)))"
    using p k1 by (simp add: pending_def len Cons_nth_drop_Suc[symmetric] nth_tl)
  moreover have "pending ?s3 = drop (k + 1) (map (q_data s) (tl (q_order s)))"
    by (simp add: pending_def Dequeue_delete_def Dequeue_take_def Dequeue_load_def n len)
  ultimately show "\<exists>s'. Dequeue s = (Some x, s') \<and> quiet s' \<and> pending s' = xs" using d by blast
qed

lemma quiet_ctor: "quiet (CMpscQueue_ctor junk)"
  using mpsc_reachable_good[of junk "CMpscQueue_ctor junk"] by (simp add: quiet_def, simp add: CMpscQueue_ctor_def)

lemma pending_ctor: "pending (CMpscQueue_ctor junk) = []"
  by (simp add: pending_def CMpscQueue_ctor_def)

interpretation mq: fifo_queue quiet pending "Enqueue t" Dequeue for t
  by unfold_locales (simp_all add: Enqueue_quiet Dequeue_quiet)

subsection \<open>The destructor\<close>

lemma destroy_nodes_chain:
  assumes "\<And>i. i + 1 < length ns \<Longrightarrow> q_next s (ns ! i) = Some (ns ! (i + 1))"
    and "ns \<noteq> [] \<Longrightarrow> q_next s (last ns) = None" and "length ns \<le> fuel"
  shows "destroy_nodes fuel (case ns of [] \<Rightarrow> None | n # _ \<Rightarrow> Some n) s = Some (s\<lparr>q_live := q_live s - set ns\<rparr>)"
  using assms
proof (induction ns arbitrary: fuel s)
  case Nil
  then show ?case by (cases fuel) simp_all
next
  case (Cons n ns)
  obtain f where f: "fuel = Suc f" "length ns \<le> f" using Cons.prems(3) by (cases fuel) auto
  let ?s = "s\<lparr>q_live := q_live s - {n}\<rparr>"
  have "q_next ?s (ns ! i) = Some (ns ! (i + 1))" if "i + 1 < length ns" for i
    using Cons.prems(1)[of "Suc i"] that by simp
  moreover have "q_next ?s (last ns) = None" if "ns \<noteq> []" using Cons.prems(2) that by simp
  ultimately have "destroy_nodes f (case ns of [] \<Rightarrow> None | n # _ \<Rightarrow> Some n) ?s = Some (?s\<lparr>q_live := q_live ?s - set ns\<rparr>)"
    using f(2) by (rule Cons.IH)
  moreover have "q_next s n = (case ns of [] \<Rightarrow> None | n # _ \<Rightarrow> Some n)"
    using Cons.prems(1)[of 0] Cons.prems(2) by (cases ns) auto
  moreover have "q_live s - {n} - set ns = q_live s - set (n # ns)" by auto
  ultimately show ?case by (simp add: f(1))
qed

text \<open>The destructor ends and leaves no node behind: run on a queue that no thread is inside, whatever was left in it, the walk from
  the tail deletes every node that is still allocated, in at most as many rounds as nodes were ever exchanged.
\<close>

theorem destructor_frees_all:
  assumes "mpsc_reachable junk s" and "\<forall>t. q_prod s t = P_Idle" and "q_cons s = C_Idle"
  shows "destroy_nodes (length (q_order s)) (Some (q_tail s)) s = Some (s\<lparr>q_live := {}\<rparr>)"
proof -
  obtain k where inv: "mpsc_inv k s" and acc: "accounted k s"
    using mpsc_reachable_good[OF assms(1)] by (auto simp: mpsc_good_def)
  let ?ns = "drop k (q_order s)"
  have ns: "?ns = q_tail s # drop (k + 1) (q_order s)"
    using mpsc_facts(5,7)[OF inv] by (simp add: Cons_nth_drop_Suc)
  have "q_next s (?ns ! i) = Some (?ns ! (i + 1))" if "i + 1 < length ?ns" for i
    using mpsc_invD(5)[OF inv, unfolded links_ok_def, rule_format, of "k + i"] that assms(2) by (auto simp: add.commute)
  moreover have "q_next s (last ?ns) = None" using mpsc_invD(2,3)[OF inv] mpsc_facts(5)[OF inv] by simp
  ultimately have "destroy_nodes (length (q_order s)) (case ?ns of [] \<Rightarrow> None | n # _ \<Rightarrow> Some n) s
      = Some (s\<lparr>q_live := q_live s - set ?ns\<rparr>)"
    by (intro destroy_nodes_chain) auto
  moreover have "q_live s - set ?ns = {}" using acc assms(2,3) by (auto simp: accounted_def)
  ultimately show ?thesis using ns by simp
qed

theorem destructor_frees_all_witness:
  "destroy_nodes 1 (Some 0) (CMpscQueue_ctor CHR ''x'') = Some ((CMpscQueue_ctor CHR ''x'')\<lparr>q_live := {}\<rparr>)"
  using destructor_frees_all[of "CHR ''x''" "CMpscQueue_ctor CHR ''x''"] by (simp add: CMpscQueue_ctor_def)

end
