(* ===== verification/Event_Loop.thy ===== *)
theory Event_Loop
  imports Poller Mpsc_Queue
begin

section \<open>The event loop\<close>

text \<open>
  Models \<^verbatim>\<open>private/threading/event_loop.cpp\<close>.  A callback is a name; the parameter \<open>body\<close> says which calls of the loop it makes, in
  order.  The poller is a parameter too, with its operations, and satisfies the contract of the locale \<open>poller\<close>; the queue of
  posts is the lock-free queue.  Time is a parameter of the functions that read the clock, an integer number of ticks.  The
  callbacks that have run are kept in \<open>l_ran\<close>.
\<close>

record 'c SEventLoopWatch =
  w_id :: u64
  w_waitable :: SWaitable
  onReadable :: 'c

record 'c SEventLoopTimer =
  t_id :: u64
  t_when :: int
  t_callback :: 'c

record ('c, 'p) SEventLoopState =
  l_poller :: 'p
  isStopping :: bool
  posts :: "'c mpsc"
  runningPosts :: "'c list"
  watches :: "'c SEventLoopWatch list"
  timers :: "'c SEventLoopTimer list"
  readyKeys :: "u64 list"
  nextId :: u64
  l_ran :: "'c list"

datatype 'c action = A_Post 'c | A_Watch SWaitable 'c | A_Unwatch u64 | A_ScheduleAt int 'c | A_CancelTimer u64

definition loop_init :: "'c \<Rightarrow> 'p \<Rightarrow> ('c, 'p) SEventLoopState" where
  "loop_init junk p = \<lparr>l_poller = p, isStopping = False, posts = CMpscQueue_ctor junk, runningPosts = [], watches = [], timers = [],
     readyKeys = [], nextId = 0, l_ran = []\<rparr>"

text \<open>
  \<open>Initialize\<close> keeps a state only if its poller could be set up; \<open>Terminate\<close> lets the pass in progress end, then terminates the
  poller and destroys the state, and with it whatever has not run.
\<close>

definition Loop_Initialize :: "'c \<Rightarrow> bool \<times> 'p \<Rightarrow> bool \<times> ('c, 'p) SEventLoopState option" where
  "Loop_Initialize junk r = (case r of (isReady, p) \<Rightarrow> (isReady, if isReady then Some (loop_init junk p) else None))"

definition Loop_Terminate :: "('p \<Rightarrow> 'p) \<Rightarrow> ('c, 'p) SEventLoopState option \<Rightarrow> 'p option \<times> ('c, 'p) SEventLoopState option" where
  "Loop_Terminate terminate_poller st = (case st of None \<Rightarrow> (None, None) | Some s \<Rightarrow> (Some (terminate_poller (l_poller s)), None))"

definition FindWatch :: "'c SEventLoopWatch list \<Rightarrow> u64 \<Rightarrow> 'c SEventLoopWatch option" where
  "FindWatch ws k = List.find (\<lambda>w. w_id w = k) ws"

definition IsSooner :: "'c SEventLoopTimer \<Rightarrow> 'c SEventLoopTimer \<Rightarrow> bool" where
  "IsSooner a b \<longleftrightarrow> t_when a < t_when b \<or> (t_when a = t_when b \<and> t_id a < t_id b)"

text \<open>\<open>Post\<close>, from the thread numbered \<open>t\<close>.\<close>

definition Post :: "nat \<Rightarrow> 'c \<Rightarrow> ('c, 'p) SEventLoopState \<Rightarrow> ('c, 'p) SEventLoopState" where
  "Post t c s = s\<lparr>posts := Enqueue t c (posts s)\<rparr>"

definition Watch :: "(SWaitable \<Rightarrow> u64 \<Rightarrow> 'p \<Rightarrow> bool \<times> 'p) \<Rightarrow> SWaitable \<Rightarrow> 'c \<Rightarrow> ('c, 'p) SEventLoopState
    \<Rightarrow> u64 option \<times> ('c, 'p) SEventLoopState" where
  "Watch add w c s =
     (let i = nextId s
      in case add w i (l_poller s) of
           (True, p) \<Rightarrow> (Some i, s\<lparr>l_poller := p, nextId := nextId s + 1,
                                     watches := watches s @ [\<lparr>w_id = i, w_waitable = w, onReadable = c\<rparr>]\<rparr>)
         | (False, p) \<Rightarrow> (None, s\<lparr>l_poller := p\<rparr>))"

definition Unwatch :: "(SWaitable \<Rightarrow> 'p \<Rightarrow> 'p) \<Rightarrow> u64 \<Rightarrow> ('c, 'p) SEventLoopState \<Rightarrow> ('c, 'p) SEventLoopState" where
  "Unwatch remove k s =
     (case FindWatch (watches s) k of
        None \<Rightarrow> s
      | Some found \<Rightarrow> s\<lparr>l_poller := remove (w_waitable found) (l_poller s), watches := remove1 found (watches s)\<rparr>)"

definition ScheduleAt :: "int \<Rightarrow> 'c \<Rightarrow> ('c, 'p) SEventLoopState \<Rightarrow> u64 \<times> ('c, 'p) SEventLoopState" where
  "ScheduleAt when c s =
     (let i = nextId s
      in (i, s\<lparr>nextId := nextId s + 1, timers := timers s @ [\<lparr>t_id = i, t_when = when, t_callback = c\<rparr>]\<rparr>))"

definition CancelTimer :: "u64 \<Rightarrow> ('c, 'p) SEventLoopState \<Rightarrow> ('c, 'p) SEventLoopState" where
  "CancelTimer i s = s\<lparr>timers := filter (\<lambda>t. t_id t \<noteq> i) (timers s)\<rparr>"

text \<open>What one call of a callback does, and a whole callback.\<close>

fun do_action :: "(SWaitable \<Rightarrow> u64 \<Rightarrow> 'p \<Rightarrow> bool \<times> 'p) \<Rightarrow> (SWaitable \<Rightarrow> 'p \<Rightarrow> 'p) \<Rightarrow> 'c action
    \<Rightarrow> ('c, 'p) SEventLoopState \<Rightarrow> ('c, 'p) SEventLoopState" where
  "do_action add remove (A_Post c) s = Post 0 c s"
| "do_action add remove (A_Watch w c) s = snd (Watch add w c s)"
| "do_action add remove (A_Unwatch k) s = Unwatch remove k s"
| "do_action add remove (A_ScheduleAt when c) s = snd (ScheduleAt when c s)"
| "do_action add remove (A_CancelTimer i) s = CancelTimer i s"

definition run_callback :: "(SWaitable \<Rightarrow> u64 \<Rightarrow> 'p \<Rightarrow> bool \<times> 'p) \<Rightarrow> (SWaitable \<Rightarrow> 'p \<Rightarrow> 'p) \<Rightarrow> ('c \<Rightarrow> 'c action list) \<Rightarrow> 'c
    \<Rightarrow> ('c, 'p) SEventLoopState \<Rightarrow> ('c, 'p) SEventLoopState" where
  "run_callback add remove body c s = fold (do_action add remove) (body c) (s\<lparr>l_ran := l_ran s @ [c]\<rparr>)"

fun ready_loop :: "(SWaitable \<Rightarrow> u64 \<Rightarrow> 'p \<Rightarrow> bool \<times> 'p) \<Rightarrow> (SWaitable \<Rightarrow> 'p \<Rightarrow> 'p) \<Rightarrow> ('c \<Rightarrow> 'c action list) \<Rightarrow> u64 list
    \<Rightarrow> ('c, 'p) SEventLoopState \<Rightarrow> ('c, 'p) SEventLoopState" where
  "ready_loop add remove body [] s = s"
| "ready_loop add remove body (key # keys) s =
     (case FindWatch (watches s) key of
        None \<Rightarrow> ready_loop add remove body keys s
      | Some found \<Rightarrow> ready_loop add remove body keys (run_callback add remove body (onReadable found) s))"

definition RunReadyWatches :: "(SWaitable \<Rightarrow> u64 \<Rightarrow> 'p \<Rightarrow> bool \<times> 'p) \<Rightarrow> (SWaitable \<Rightarrow> 'p \<Rightarrow> 'p) \<Rightarrow> ('c \<Rightarrow> 'c action list)
    \<Rightarrow> ('c, 'p) SEventLoopState \<Rightarrow> ('c, 'p) SEventLoopState" where
  "RunReadyWatches add remove body s = ready_loop add remove body (readyKeys s) s"

text \<open>The queue is drained first, with a bound on the number of rounds; \<open>None\<close> when it was too small.\<close>

definition RunPosts :: "(SWaitable \<Rightarrow> u64 \<Rightarrow> 'p \<Rightarrow> bool \<times> 'p) \<Rightarrow> (SWaitable \<Rightarrow> 'p \<Rightarrow> 'p) \<Rightarrow> ('c \<Rightarrow> 'c action list) \<Rightarrow> nat
    \<Rightarrow> ('c, 'p) SEventLoopState \<Rightarrow> ('c, 'p) SEventLoopState option" where
  "RunPosts add remove body fuel s =
     (case drain_with Dequeue fuel (posts s) of
        None \<Rightarrow> None
      | Some (cs, q) \<Rightarrow>
          (let s1 = s\<lparr>posts := q, runningPosts := runningPosts s @ cs\<rparr>;
               s2 = fold (run_callback add remove body) (runningPosts s1) s1
           in Some (s2\<lparr>runningPosts := []\<rparr>)))"

text \<open>\<open>std::ranges::min_element\<close>: the first of the smallest.\<close>

fun min_element :: "('a \<Rightarrow> 'a \<Rightarrow> bool) \<Rightarrow> 'a list \<Rightarrow> 'a option" where
  "min_element lt [] = None"
| "min_element lt (x # xs) = Some (fold (\<lambda>y m. if lt y m then y else m) xs x)"

fun due_loop :: "(SWaitable \<Rightarrow> u64 \<Rightarrow> 'p \<Rightarrow> bool \<times> 'p) \<Rightarrow> (SWaitable \<Rightarrow> 'p \<Rightarrow> 'p) \<Rightarrow> ('c \<Rightarrow> 'c action list) \<Rightarrow> int \<Rightarrow> u64 \<Rightarrow> nat
    \<Rightarrow> ('c, 'p) SEventLoopState \<Rightarrow> ('c, 'p) SEventLoopState option" where
  "due_loop add remove body now passEnd 0 s = None"
| "due_loop add remove body now passEnd (Suc fuel) s =
     (case min_element IsSooner (timers s) of
        None \<Rightarrow> Some s
      | Some t \<Rightarrow>
          if t_when t \<le> now \<and> t_id t < passEnd
          then due_loop add remove body now passEnd fuel
                 (run_callback add remove body (t_callback t) (s\<lparr>timers := remove1 t (timers s)\<rparr>))
          else Some s)"

definition RunDueTimers :: "(SWaitable \<Rightarrow> u64 \<Rightarrow> 'p \<Rightarrow> bool \<times> 'p) \<Rightarrow> (SWaitable \<Rightarrow> 'p \<Rightarrow> 'p) \<Rightarrow> ('c \<Rightarrow> 'c action list) \<Rightarrow> int \<Rightarrow> nat
    \<Rightarrow> ('c, 'p) SEventLoopState \<Rightarrow> ('c, 'p) SEventLoopState option" where
  "RunDueTimers add remove body now fuel s = due_loop add remove body now (nextId s) fuel s"

text \<open>Ticks are \<open>per_ms\<close> to a millisecond; \<open>ceil\<close> rounds up.\<close>

definition GetTimeUntilNextTimer :: "int \<Rightarrow> int \<Rightarrow> ('c, 'p) SEventLoopState \<Rightarrow> int option" where
  "GetTimeUntilNextTimer per_ms now s =
     (case min_element IsSooner (timers s) of
        None \<Rightarrow> None
      | Some t \<Rightarrow> Some (max (- ((now - t_when t) div per_ms)) 0))"

text \<open>One pass of \<open>Run\<close> after a wait that answered \<open>keys\<close>.\<close>

definition Run_pass :: "(SWaitable \<Rightarrow> u64 \<Rightarrow> 'p \<Rightarrow> bool \<times> 'p) \<Rightarrow> (SWaitable \<Rightarrow> 'p \<Rightarrow> 'p) \<Rightarrow> ('c \<Rightarrow> 'c action list) \<Rightarrow> nat \<Rightarrow> int
    \<Rightarrow> u64 list \<Rightarrow> ('c, 'p) SEventLoopState \<Rightarrow> ('c, 'p) SEventLoopState option" where
  "Run_pass add remove body fuel now keys s =
     (case RunPosts add remove body fuel (RunReadyWatches add remove body (s\<lparr>readyKeys := keys\<rparr>)) of
        None \<Rightarrow> None
      | Some s1 \<Rightarrow> RunDueTimers add remove body now fuel s1)"

text \<open>
  \<open>Run\<close> against a list of what happens at each wait: whether \<open>Terminate\<close> had set its flag before it, whether the wait worked, the
  keys it answers, the time after it, and what the threads of the given numbers posted meanwhile.  It stops when the flag is
  set, when a wait fails, or when the list ends.
\<close>

fun Run :: "(SWaitable \<Rightarrow> u64 \<Rightarrow> 'p \<Rightarrow> bool \<times> 'p) \<Rightarrow> (SWaitable \<Rightarrow> 'p \<Rightarrow> 'p) \<Rightarrow> ('c \<Rightarrow> 'c action list) \<Rightarrow> nat
    \<Rightarrow> (bool \<times> bool \<times> u64 list \<times> int \<times> (nat \<times> 'c) list) list \<Rightarrow> ('c, 'p) SEventLoopState \<Rightarrow> ('c, 'p) SEventLoopState option" where
  "Run add remove body fuel [] s = Some s"
| "Run add remove body fuel ((stop, isWaiting, keys, now, posted) # waits) s =
     (if stop then Some (s\<lparr>isStopping := True\<rparr>)
      else if isWaiting then
        (case Run_pass add remove body fuel now keys (fold (\<lambda>(t, c). Post t c) posted s) of
           None \<Rightarrow> None
         | Some s' \<Rightarrow> Run add remove body fuel waits s')
      else Some (s\<lparr>readyKeys := keys\<rparr>))"

subsection \<open>Watches and the poller\<close>

definition watch_entry :: "'c SEventLoopWatch \<Rightarrow> SPollerEntry" where
  "watch_entry w = \<lparr>waitable = w_waitable w, pkey = w_id w\<rparr>"

definition agree :: "('p \<Rightarrow> SPollerEntry list) \<Rightarrow> ('c, 'p) SEventLoopState \<Rightarrow> bool" where
  "agree entries s \<longleftrightarrow> entries (l_poller s) = map watch_entry (watches s)
     \<and> distinct (map (native \<circ> w_waitable) (watches s))"

lemma watch_entry_natives: "map (native \<circ> waitable) (map watch_entry ws) = map (native \<circ> w_waitable) ws"
  by (induction ws) (simp_all add: watch_entry_def)

lemma agree_distinct: "agree entries s \<Longrightarrow> distinct (map (native \<circ> waitable) (entries (l_poller s)))"
  unfolding agree_def using watch_entry_natives[of "watches s"] by metis

context poller
begin

lemma agree_frame: "l_poller s' = l_poller s \<Longrightarrow> watches s' = watches s \<Longrightarrow> agree entries s' = agree entries s"
  by (simp add: agree_def)

lemma agreeI:
  assumes "entries (l_poller s) = map watch_entry (watches s)" and "distinct (map (native \<circ> waitable) (entries (l_poller s)))"
  shows "agree entries s"
  unfolding agree_def using assms watch_entry_natives[of "watches s"] by metis

lemma Watch_agree:
  assumes "agree entries s"
  shows "agree entries (snd (Watch add w c s))"
proof (cases "add w (nextId s) (l_poller s)")
  case (Pair b p)
  have e: "entries (l_poller s) = map watch_entry (watches s)" using assms by (simp add: agree_def)
  have "distinct (map (native \<circ> waitable) (entries p))"
    using add_distinct[OF agree_distinct[OF assms], of w "nextId s"] Pair by simp
  then show ?thesis
    using e Pair add_ok[of w "nextId s" "l_poller s" p] add_fail[of w "nextId s" "l_poller s" p]
    by (intro agreeI; cases b) (simp_all add: Watch_def Let_def watch_entry_def)
qed

lemma Unwatch_agree:
  assumes "agree entries s"
  shows "agree entries (Unwatch remove k s)"
proof (cases "FindWatch (watches s) k")
  case None
  then show ?thesis using assms by (simp add: Unwatch_def)
next
  case (Some found)
  let ?n = "native (w_waitable found)" and ?ws = "watches s"
  have d: "distinct (map (native \<circ> w_waitable) ?ws)" and e: "entries (l_poller s) = map watch_entry ?ws"
    using assms by (simp_all add: agree_def)
  have found: "found \<in> set ?ws" using Some by (auto simp: FindWatch_def dest: find_Some_set)
  have "List.find (\<lambda>w. native (w_waitable w) = ?n) ?ws = Some found"
    using find_inj_unique[of "native \<circ> w_waitable" ?ws found] d found by (simp add: distinct_map)
  then have r: "remove1 found ?ws = filter (\<lambda>w. native (w_waitable w) \<noteq> ?n) ?ws"
    using find_remove1_filter[of "native \<circ> w_waitable" ?ws ?n found] d by simp
  have "entries (remove (w_waitable found) (l_poller s)) = map watch_entry (remove1 found ?ws)"
    unfolding remove_one[OF agree_distinct[OF assms]] e r by (simp add: filter_map comp_def watch_entry_def)
  moreover have "distinct (map (native \<circ> waitable) (entries (remove (w_waitable found) (l_poller s))))"
    by (rule remove_distinct[OF agree_distinct[OF assms]])
  ultimately show ?thesis using Some by (intro agreeI) (simp_all add: Unwatch_def)
qed

lemma action_agree: "agree entries s \<Longrightarrow> agree entries (do_action add remove a s)"
  by (cases a) (simp_all add: Watch_agree Unwatch_agree, simp_all add: Post_def ScheduleAt_def CancelTimer_def Let_def agree_def)

lemma callback_agree: "agree entries s \<Longrightarrow> agree entries (run_callback add remove body c s)"
proof -
  have "agree entries s \<Longrightarrow> agree entries (fold (do_action add remove) as s)" for as s
    by (induction as arbitrary: s) (simp_all add: action_agree)
  moreover assume "agree entries s"
  then have "agree entries (s\<lparr>l_ran := l_ran s @ [c]\<rparr>)" by (simp add: agree_def)
  ultimately show ?thesis unfolding run_callback_def by blast
qed

lemma ready_agree: "agree entries s \<Longrightarrow> agree entries (ready_loop add remove body keys s)"
  by (induction keys arbitrary: s) (auto simp: callback_agree split: option.splits)

lemma posts_agree:
  assumes "agree entries s" and "RunPosts add remove body fuel s = Some s'"
  shows "agree entries s'"
proof -
  have f: "agree entries u \<Longrightarrow> agree entries (fold (run_callback add remove body) cs u)" for cs u
    by (induction cs arbitrary: u) (simp_all add: callback_agree)
  obtain cs q where d: "drain_with Dequeue fuel (posts s) = Some (cs, q)"
    using assms(2) by (auto simp: RunPosts_def split: option.splits)
  let ?s1 = "s\<lparr>posts := q, runningPosts := runningPosts s @ cs\<rparr>"
  have "agree entries ?s1" using assms(1) by (simp add: agree_def)
  from f[OF this, of "runningPosts ?s1"] show ?thesis
    using assms(2) d by (auto simp: RunPosts_def Let_def agree_def)
qed

lemma due_agree: "agree entries s \<Longrightarrow> due_loop add remove body now passEnd fuel s = Some s' \<Longrightarrow> agree entries s'"
proof (induction fuel arbitrary: s)
  case (Suc fuel)
  show ?case
  proof (cases "min_element IsSooner (timers s)")
    case (Some t)
    let ?s = "run_callback add remove body (t_callback t) (s\<lparr>timers := remove1 t (timers s)\<rparr>)"
    have "agree entries ?s" using Suc.prems(1) by (intro callback_agree) (simp add: agree_def)
    then show ?thesis using Suc Some by (auto split: if_splits)
  qed (use Suc.prems in simp)
qed simp

lemma pass_agree:
  assumes "agree entries s" and "Run_pass add remove body fuel now keys s = Some s'"
  shows "agree entries s'"
proof -
  have "agree entries (RunReadyWatches add remove body (s\<lparr>readyKeys := keys\<rparr>))"
    unfolding RunReadyWatches_def using assms(1) by (intro ready_agree) (simp add: agree_def)
  moreover obtain s1 where "RunPosts add remove body fuel (RunReadyWatches add remove body (s\<lparr>readyKeys := keys\<rparr>)) = Some s1"
    "due_loop add remove body now (nextId s1) fuel s1 = Some s'"
    using assms(2) by (auto simp: Run_pass_def RunDueTimers_def split: option.splits)
  ultimately show ?thesis using due_agree posts_agree by metis
qed

lemma Run_agree:
  "agree entries s \<Longrightarrow> Run add remove body fuel waits s = Some s' \<Longrightarrow> agree entries s'"
proof (induction waits arbitrary: s)
  case (Cons w waits)
  obtain stop isWaiting keys now posted where w: "w = (stop, isWaiting, keys, now, posted)" by (cases w)
  let ?s = "fold (\<lambda>(t, c). Post t c) posted s"
  have f: "agree entries u \<Longrightarrow> agree entries (fold (\<lambda>(t, c). Post t c) posted u)" for u
    by (induction posted arbitrary: u) (auto simp: Post_def agree_def)
  show ?case
  proof (cases "stop \<or> \<not> isWaiting")
    case True
    then show ?thesis using Cons.prems w by (auto simp: agree_def split: if_splits)
  next
    case False
    then obtain s1 where "Run_pass add remove body fuel now keys ?s = Some s1" "Run add remove body fuel waits s1 = Some s'"
      using Cons.prems(2) w by (auto split: option.splits)
    then show ?thesis using Cons.IH pass_agree[OF f[OF Cons.prems(1)]] by metis
  qed
qed simp

end

text \<open>The loop's watches and the poller's registrations stay the same list: whatever the callbacks watch and unwatch, in whichever pass and
  from whichever kind of callback, every watch is registered with its own descriptor and its identifier as key, in the same
  order, no descriptor is registered twice, and nothing else is registered.
\<close>

theorem loop_watches_are_registrations:
  assumes "Run (Windows_Add select_ok) (Windows_Remove unselect_ok) body fuel waits (loop_init junk CPoller_windows) = Some s"
  shows "m_entries (l_poller s) = map watch_entry (watches s) \<and> distinct (map (native \<circ> w_waitable) (watches s))"
proof -
  have "agree m_entries (loop_init junk CPoller_windows)"
    by (simp add: agree_def loop_init_def CPoller_windows_def)
  from wp.Run_agree[OF this assms] show ?thesis by (simp add: agree_def)
qed

text \<open>Callbacks of which number 7 watches a socket.\<close>

definition demo_body :: "nat \<Rightarrow> nat action list" where
  "demo_body c = (if c = 7 then [A_Watch \<lparr>native = 9, wkind = Socket\<rparr> 5] else [])"

subsection \<open>Timers\<close>

lemma IsSooner_irrefl: "\<not> IsSooner a a"
  by (simp add: IsSooner_def)

lemma IsSooner_trans: "IsSooner a b \<Longrightarrow> IsSooner b c \<Longrightarrow> IsSooner a c"
  by (auto simp: IsSooner_def)

lemma IsSooner_negtrans: "\<not> IsSooner a b \<Longrightarrow> \<not> IsSooner b c \<Longrightarrow> \<not> IsSooner a c"
  by (auto simp: IsSooner_def)

lemma IsSooner_total: "t_id a \<noteq> t_id b \<Longrightarrow> \<not> IsSooner b a \<Longrightarrow> IsSooner a b"
  by (auto simp: IsSooner_def)

lemma fold_min:
  "fold (\<lambda>y m. if IsSooner y m then y else m) xs x \<in> set (x # xs)
   \<and> (\<forall>y\<in>set (x # xs). \<not> IsSooner y (fold (\<lambda>y m. if IsSooner y m then y else m) xs x))"
proof (induction xs arbitrary: x)
  case (Cons a xs)
  let ?x = "if IsSooner a x then a else x"
  let ?m = "fold (\<lambda>y m. if IsSooner y m then y else m) xs ?x"
  have IH: "?m \<in> set (?x # xs)" "\<forall>y\<in>set (?x # xs). \<not> IsSooner y ?m" using Cons.IH[of ?x] by blast+
  have x: "\<not> IsSooner ?x ?m" using IH(2) by simp
  have "\<not> IsSooner a ?x" "\<not> IsSooner x ?x" using IsSooner_irrefl IsSooner_trans by auto
  then have "\<not> IsSooner a ?m" "\<not> IsSooner x ?m" using x IsSooner_negtrans by blast+
  then show ?case using IH by (auto split: if_splits)
qed (simp add: IsSooner_irrefl)

lemma min_element_sooner:
  assumes "min_element IsSooner ts = Some t"
  shows "t \<in> set ts" and "u \<in> set ts \<Longrightarrow> \<not> IsSooner u t"
  using assms fold_min by (cases ts; fastforce)+

definition ids_ok :: "('c, 'p) SEventLoopState \<Rightarrow> bool" where
  "ids_ok s \<longleftrightarrow> distinct (map t_id (timers s)) \<and> (\<forall>t\<in>set (timers s). t_id t < nextId s)"

definition old_timers :: "u64 \<Rightarrow> ('c, 'p) SEventLoopState \<Rightarrow> 'c SEventLoopTimer list" where
  "old_timers passEnd s = filter (\<lambda>t. t_id t < passEnd) (timers s)"

definition timer_calls :: "('c \<Rightarrow> 'c action list) \<Rightarrow> 'c SEventLoopTimer list \<Rightarrow> nat" where
  "timer_calls body ts = sum_list (map (\<lambda>t. length (body (t_callback t))) ts)"

fun timer_action :: "'c action \<Rightarrow> bool" where
  "timer_action (A_ScheduleAt w c) = True" | "timer_action (A_CancelTimer i) = True" | "timer_action _ = False"

text \<open>
  What a call of a callback may change for the timers of this pass: it gives out at most one identifier, runs nothing, and
  leaves a part of the old timers.
\<close>

definition timer_frame :: "u64 \<Rightarrow> nat \<Rightarrow> bool \<Rightarrow> ('c, 'p) SEventLoopState \<Rightarrow> ('c, 'p) SEventLoopState \<Rightarrow> bool" where
  "timer_frame passEnd n quiet_calls s s' \<longleftrightarrow>
     ids_ok s' \<and> unat (nextId s) \<le> unat (nextId s') \<and> unat (nextId s') \<le> unat (nextId s) + n
     \<and> l_ran s' = l_ran s \<and> (\<exists>Q. old_timers passEnd s' = filter Q (old_timers passEnd s))
     \<and> (quiet_calls \<longrightarrow> timers s' = timers s)"

lemma next_id_up: "unat (i :: u64) + 1 < 2 ^ 64 \<Longrightarrow> unat (i + 1) = unat i + 1"
  by (simp add: no_wrap)

lemma action_frame:
  assumes "ids_ok s" and "passEnd \<le> nextId s" and "unat (nextId s) + 1 < 2 ^ 64"
  shows "timer_frame passEnd 1 (\<not> timer_action a) s (do_action add remove a s)"
proof (cases a)
  case (A_ScheduleAt w c)
  have up: "unat (nextId s + 1) = unat (nextId s) + 1" by (rule next_id_up[OF assms(3)])
  then have "nextId s < nextId s + 1" by (simp add: word_less_nat_alt)
  moreover have "t_id t < nextId s + 1" if "t \<in> set (timers s)" for t
    using assms(1) that calculation by (auto simp: ids_ok_def dest: less_trans)
  moreover have "nextId s \<notin> t_id ` set (timers s)" using assms(1) by (auto simp: ids_ok_def)
  ultimately show ?thesis
    using A_ScheduleAt assms up
    by (auto simp: timer_frame_def ids_ok_def old_timers_def ScheduleAt_def Let_def intro: exI[of _ "\<lambda>_. True"])
next
  case (A_CancelTimer i)
  have "old_timers passEnd (CancelTimer i s) = filter (\<lambda>t. t_id t \<noteq> i) (old_timers passEnd s)"
    by (simp add: old_timers_def CancelTimer_def conj_commute)
  then show ?thesis
    using A_CancelTimer assms by (auto simp: timer_frame_def) (auto simp: ids_ok_def CancelTimer_def distinct_map_filter)
next
  case (A_Watch w c)
  obtain b p where r: "add w (nextId s) (l_poller s) = (b, p)" by (cases "add w (nextId s) (l_poller s)")
  have up: "unat (nextId s + 1) = unat (nextId s) + 1" by (rule next_id_up[OF assms(3)])
  then have "nextId s < nextId s + 1" by (simp add: word_less_nat_alt)
  then have "t_id t < nextId s + 1" if "t \<in> set (timers s)" for t
    using assms(1) that by (auto simp: ids_ok_def dest: less_trans)
  then show ?thesis
    using A_Watch assms r up
    by (cases b) (auto simp: timer_frame_def ids_ok_def old_timers_def Watch_def Let_def intro: exI[of _ "\<lambda>_. True"])
qed (use assms in \<open>auto simp: timer_frame_def ids_ok_def old_timers_def Post_def Unwatch_def intro!: exI[of _ "\<lambda>_. True"] split: option.splits\<close>)

lemma actions_frame:
  assumes "ids_ok s" and "passEnd \<le> nextId s" and "unat (nextId s) + length as < 2 ^ 64"
  shows "timer_frame passEnd (length as) (\<forall>a\<in>set as. \<not> timer_action a) s (fold (do_action add remove) as s)"
  using assms
proof (induction as arbitrary: s)
  case Nil
  then show ?case by (auto simp: timer_frame_def intro: exI[of _ "\<lambda>_. True"])
next
  case (Cons a as)
  let ?s = "do_action add remove a s"
  have 1: "timer_frame passEnd 1 (\<not> timer_action a) s ?s" using Cons.prems by (intro action_frame) auto
  then have n: "ids_ok ?s" "unat (nextId s) \<le> unat (nextId ?s)" "unat (nextId ?s) \<le> unat (nextId s) + 1"
    by (simp_all add: timer_frame_def)
  have "passEnd \<le> nextId ?s" using Cons.prems(2) n(2) by (simp add: word_le_nat_alt)
  then have 2: "timer_frame passEnd (length as) (\<forall>a\<in>set as. \<not> timer_action a) ?s (fold (do_action add remove) as ?s)"
    using n(1,3) Cons.prems(3) by (intro Cons.IH) auto
  obtain Q R where "old_timers passEnd ?s = filter Q (old_timers passEnd s)"
    "old_timers passEnd (fold (do_action add remove) as ?s) = filter R (old_timers passEnd ?s)"
    using 1 2 unfolding timer_frame_def by blast
  then have "old_timers passEnd (fold (do_action add remove) as ?s) = filter (\<lambda>t. Q t \<and> R t) (old_timers passEnd s)"
    by simp
  then show ?case using 1 2 by (auto simp: timer_frame_def)
qed

lemma callback_frame:
  assumes "ids_ok s" and "passEnd \<le> nextId s" and "unat (nextId s) + length (body c) < 2 ^ 64"
  shows "timer_frame passEnd (length (body c)) (\<forall>a\<in>set (body c). \<not> timer_action a) (s\<lparr>l_ran := l_ran s @ [c]\<rparr>)
    (run_callback add remove body c s)"
  unfolding run_callback_def using assms by (intro actions_frame) (simp_all add: ids_ok_def)

lemma timer_calls_filter: "timer_calls body (filter Q ts) \<le> timer_calls body ts"
  by (induction ts) (auto simp: timer_calls_def)

lemma timer_calls_remove1:
  "t \<in> set ts \<Longrightarrow> timer_calls body (remove1 t ts) + length (body (t_callback t)) = timer_calls body ts"
  by (induction ts) (auto simp: timer_calls_def)

lemma filter_remove1_swap: "filter P (remove1 x xs) = remove1 x (filter P xs)"
  by (rule filter_remove1)

lemma due_loop_runs:
  assumes "ids_ok s" and "passEnd \<le> nextId s" and "unat (nextId s) + timer_calls body (old_timers passEnd s) < 2 ^ 64"
    and "length (old_timers passEnd s) < fuel"
  shows "\<exists>s' ts. due_loop add remove body now passEnd fuel s = Some s' \<and> l_ran s' = l_ran s @ map t_callback ts
    \<and> sorted_wrt IsSooner ts \<and> set ts \<subseteq> {t \<in> set (old_timers passEnd s). t_when t \<le> now}
    \<and> (\<forall>t. min_element IsSooner (timers s') = Some t \<longrightarrow> \<not> (t_when t \<le> now \<and> t_id t < passEnd))
    \<and> ((\<forall>c. \<forall>a\<in>set (body c). \<not> timer_action a) \<and> old_timers passEnd s = timers s
        \<longrightarrow> set ts = {t \<in> set (timers s). t_when t \<le> now})"
  using assms
proof (induction fuel arbitrary: s)
  case (Suc fuel)
  show ?case
  proof (cases "min_element IsSooner (timers s)")
    case None
    then have "timers s = []" by (cases "timers s") auto
    then show ?thesis using None by (intro exI[of _ s] exI[of _ "[]"]) simp
  next
    case (Some t)
    note t = min_element_sooner[OF Some]
    show ?thesis
    proof (cases "t_when t \<le> now \<and> t_id t < passEnd")
      case False
      have "t_when u > now" if "old_timers passEnd s = timers s" "u \<in> set (timers s)" for u
      proof -
        have "t \<in> set (old_timers passEnd s)" using t(1) that(1) by simp
        then have "t_id t < passEnd" by (simp add: old_timers_def)
        then have "t_when t > now" using False by simp
        then show ?thesis using t(2)[OF that(2)] by (auto simp: IsSooner_def)
      qed
      then show ?thesis using Some False by (intro exI[of _ s] exI[of _ "[]"]) fastforce
    next
      case True
      let ?s0 = "s\<lparr>timers := remove1 t (timers s)\<rparr>"
      let ?s1 = "run_callback add remove body (t_callback t) ?s0"
      let ?old = "old_timers passEnd s"
      have told: "t \<in> set ?old" using t(1) True by (simp add: old_timers_def)
      have calls: "timer_calls body (remove1 t ?old) + length (body (t_callback t)) = timer_calls body ?old"
        by (rule timer_calls_remove1[OF told])
      have d: "distinct (map t_id (timers s))" using Suc.prems(1) by (simp add: ids_ok_def)
      have ids0: "ids_ok ?s0"
        using Suc.prems(1) d by (auto simp: ids_ok_def distinct_map distinct_remove1 dest: notin_set_remove1 intro: inj_on_subset set_remove1_subset)
      have fr: "timer_frame passEnd (length (body (t_callback t))) (\<forall>a\<in>set (body (t_callback t)). \<not> timer_action a)
          (?s0\<lparr>l_ran := l_ran ?s0 @ [t_callback t]\<rparr>) ?s1"
        using Suc.prems(2,3) calls by (intro callback_frame ids0) auto
      then obtain Q where "old_timers passEnd ?s1 = filter Q (old_timers passEnd (?s0\<lparr>l_ran := l_ran ?s0 @ [t_callback t]\<rparr>))"
        unfolding timer_frame_def by blast
      moreover have "old_timers passEnd (?s0\<lparr>l_ran := l_ran ?s0 @ [t_callback t]\<rparr>) = remove1 t ?old"
        by (simp add: old_timers_def filter_remove1)
      ultimately have Q: "old_timers passEnd ?s1 = filter Q (remove1 t ?old)" by simp
      have n: "unat (nextId s) \<le> unat (nextId ?s1)" "unat (nextId ?s1) \<le> unat (nextId s) + length (body (t_callback t))"
        "ids_ok ?s1" "l_ran ?s1 = l_ran s @ [t_callback t]"
        using fr by (simp_all add: timer_frame_def)
      have pre: "passEnd \<le> nextId ?s1" using Suc.prems(2) n(1) by (simp add: word_le_nat_alt)
      have fit: "unat (nextId ?s1) + timer_calls body (old_timers passEnd ?s1) < 2 ^ 64"
        using n(2) calls Suc.prems(3) timer_calls_filter[of body Q "remove1 t ?old"] Q by simp
      have "0 < length ?old" "length (remove1 t ?old) = length ?old - 1"
        using told by (auto simp: length_remove1 intro: length_pos_if_in_set)
      then have len: "length (old_timers passEnd ?s1) < fuel"
        unfolding Q using Suc.prems(4) length_filter_le[of Q "remove1 t ?old"] by linarith
      obtain s' ts where IH: "due_loop add remove body now passEnd fuel ?s1 = Some s'" "l_ran s' = l_ran ?s1 @ map t_callback ts"
        "sorted_wrt IsSooner ts" "set ts \<subseteq> {u \<in> set (old_timers passEnd ?s1). t_when u \<le> now}"
        "\<forall>u. min_element IsSooner (timers s') = Some u \<longrightarrow> \<not> (t_when u \<le> now \<and> t_id u < passEnd)"
        "(\<forall>c. \<forall>a\<in>set (body c). \<not> timer_action a) \<and> old_timers passEnd ?s1 = timers ?s1
          \<longrightarrow> set ts = {u \<in> set (timers ?s1). t_when u \<le> now}"
        using Suc.IH[OF n(3) pre fit len] by blast
      have dd: "distinct (timers s)" using d by (simp add: distinct_map)
      have sub: "set (old_timers passEnd ?s1) \<subseteq> set ?old - {t}"
        using Q dd by (auto simp: old_timers_def dest: notin_set_remove1)
      have "IsSooner t u" if "u \<in> set ts" for u
      proof -
        have u: "u \<in> set (timers s)" "u \<noteq> t" using that IH(4) sub by (auto simp: old_timers_def)
        then have "t_id t \<noteq> t_id u" using d t(1) by (auto simp: distinct_map dest: inj_onD)
        then show ?thesis using t(2)[OF u(1)] by (rule IsSooner_total)
      qed
      then have sorted: "sorted_wrt IsSooner (t # ts)" using IH(3) by simp
      have all: "set (t # ts) = {u \<in> set (timers s). t_when u \<le> now}"
        if q: "\<forall>c. \<forall>a\<in>set (body c). \<not> timer_action a" "old_timers passEnd s = timers s"
      proof -
        have ts1: "timers ?s1 = remove1 t (timers s)" using fr q(1) by (simp add: timer_frame_def)
        then have "old_timers passEnd ?s1 = timers ?s1"
          using q(2) by (simp add: old_timers_def filter_remove1)
        then have "set ts = {u \<in> set (remove1 t (timers s)). t_when u \<le> now}" using IH(6) q(1) ts1 by simp
        then show ?thesis using t(1) True dd by auto
      qed
      have "due_loop add remove body now passEnd (Suc fuel) s = Some s'" using Some True IH(1) by simp
      moreover have "l_ran s' = l_ran s @ map t_callback (t # ts)" using IH(2) n(4) by simp
      moreover have "set (t # ts) \<subseteq> {u \<in> set ?old. t_when u \<le> now}" using IH(4) sub told True by auto
      ultimately show ?thesis using sorted IH(5) all by blast
    qed
  qed
qed simp

text \<open>C16.
  \<open>RunDueTimers\<close> ends, and in as many rounds as there are timers, even if every callback schedules new ones that are already due; it runs only
  timers that were there when the pass began and were due, each at most once and in the order of their times, ties in the
  order of their scheduling; and it runs all of them when the callbacks schedule and cancel nothing.
\<close>

theorem due_timers_run_in_order:
  assumes "ids_ok s" and "unat (nextId s) + timer_calls body (timers s) < 2 ^ 64"
  shows "\<exists>s' ts. RunDueTimers add remove body now (Suc (length (timers s))) s = Some s' \<and> l_ran s' = l_ran s @ map t_callback ts
    \<and> sorted_wrt IsSooner ts \<and> set ts \<subseteq> {t \<in> set (timers s). t_when t \<le> now}
    \<and> ((\<forall>c. \<forall>a\<in>set (body c). \<not> timer_action a) \<longrightarrow> set ts = {t \<in> set (timers s). t_when t \<le> now})"
proof -
  have old: "old_timers (nextId s) s = timers s" using assms(1) by (simp add: old_timers_def ids_ok_def filter_id_conv)
  show ?thesis
    unfolding RunDueTimers_def
    using due_loop_runs[of s "nextId s" body "Suc (length (timers s))" add remove now] assms old by simp blast
qed

definition demo_loop :: "(nat, windows_poller) SEventLoopState" where
  "demo_loop = snd (ScheduleAt 10 2 (snd (ScheduleAt 40 3 (loop_init 0 CPoller_windows))))"

theorem due_timers_run_in_order_witness:
  "\<exists>s' ts. RunDueTimers (Windows_Add (\<lambda>_. True)) (Windows_Remove (\<lambda>_. True)) demo_body 20 3 demo_loop = Some s'
     \<and> l_ran s' = map t_callback ts \<and> set ts \<subseteq> {t \<in> set (timers demo_loop). t_when t \<le> 20}"
proof -
  have "ids_ok demo_loop" "length (timers demo_loop) = 2" "l_ran demo_loop = []" "nextId demo_loop = 2"
    "timer_calls demo_body (timers demo_loop) = 0"
    by (simp_all add: ids_ok_def demo_loop_def ScheduleAt_def loop_init_def timer_calls_def demo_body_def Let_def)
  then show ?thesis
    using due_timers_run_in_order[of demo_loop demo_body "Windows_Add (\<lambda>_. True)" "Windows_Remove (\<lambda>_. True)" 20]
    by (simp add: numeral_3_eq_3) blast
qed

subsection \<open>Posts\<close>

text \<open>
  Posts run in the order they were made, and those a callback makes wait for the next pass.
\<close>

lemma run_posts_drains:
  assumes "quiet (posts s)" and "runningPosts s = []" and "length (pending (posts s)) < fuel"
  shows "\<exists>q. RunPosts add remove body fuel s =
      Some ((fold (run_callback add remove body) (pending (posts s)) (s\<lparr>posts := q, runningPosts := pending (posts s)\<rparr>))\<lparr>runningPosts := []\<rparr>)
    \<and> quiet q \<and> pending q = []"
proof -
  obtain q where "drain_with Dequeue fuel (posts s) = Some (pending (posts s), q)" "quiet q" "pending q = []"
    using mq.drain_all[OF assms(1,3)] by blast
  then show ?thesis using assms(2) by (intro exI[of _ q]) (simp add: RunPosts_def Let_def)
qed

theorem loop_watches_are_registrations_witness:
  "\<exists>s. Run (Windows_Add (\<lambda>_. True)) (Windows_Remove (\<lambda>_. True)) demo_body 3 [(False, True, [], 20, [(4, 7)])] (loop_init 0 CPoller_windows) = Some s
     \<and> map w_id (watches s) = [0] \<and> m_entries (l_poller s) = map watch_entry (watches s)"
proof -
  let ?s0 = "(Post 4 (7 :: nat) (loop_init 0 CPoller_windows))\<lparr>readyKeys := []\<rparr>"
  have q0: "quiet (posts ?s0)" "pending (posts ?s0) = [7]"
    by (simp_all add: Post_def loop_init_def pending_ctor Enqueue_quiet[OF quiet_ctor])
  have f: "l_poller ?s0 = CPoller_windows" "watches ?s0 = []" "timers ?s0 = []" "nextId ?s0 = 0" "runningPosts ?s0 = []"
    by (simp_all add: Post_def loop_init_def)
  obtain q where q: "RunPosts (Windows_Add (\<lambda>_. True)) (Windows_Remove (\<lambda>_. True)) demo_body 3 ?s0 =
      Some ((run_callback (Windows_Add (\<lambda>_. True)) (Windows_Remove (\<lambda>_. True)) demo_body 7 (?s0\<lparr>posts := q, runningPosts := [7]\<rparr>))\<lparr>runningPosts := []\<rparr>)"
    using run_posts_drains[OF q0(1) f(5), of 3 "Windows_Add (\<lambda>_. True)" "Windows_Remove (\<lambda>_. True)" demo_body] q0(2) by auto
  let ?s1 = "run_callback (Windows_Add (\<lambda>_. True)) (Windows_Remove (\<lambda>_. True)) demo_body 7 (?s0\<lparr>posts := q, runningPosts := [7]\<rparr>)"
  have "timers ?s1 = []" "map w_id (watches ?s1) = [0]"
    using f by (simp_all add: run_callback_def demo_body_def Watch_def Windows_Add_def CPoller_windows_def Let_def)
  then have "RunDueTimers (Windows_Add (\<lambda>_. True)) (Windows_Remove (\<lambda>_. True)) demo_body 20 3 (?s1\<lparr>runningPosts := []\<rparr>)
      = Some (?s1\<lparr>runningPosts := []\<rparr>)" by (simp add: RunDueTimers_def numeral_3_eq_3)
  then have "Run (Windows_Add (\<lambda>_. True)) (Windows_Remove (\<lambda>_. True)) demo_body 3 [(False, True, [], 20, [(4, 7)])]
      (loop_init 0 CPoller_windows) = Some (?s1\<lparr>runningPosts := []\<rparr>)"
    using q by (simp add: Run_pass_def RunReadyWatches_def)
  note r = this
  have "map w_id (watches (?s1\<lparr>runningPosts := []\<rparr>)) = [0]" using \<open>map w_id (watches ?s1) = [0]\<close> by simp
  with r loop_watches_are_registrations[OF r] show ?thesis
    by (intro exI[of _ "?s1\<lparr>runningPosts := []\<rparr>"]) (simp only: simp_thms)
qed

end
