(* ===== verification/Log_Format.thy ===== *)
theory Log_Format
  imports Prelude
begin

section \<open>Levels, time stamps and the configuration file of the log\<close>

text \<open>
  Models the text functions of \<^verbatim>\<open>private/logging/log_system.cpp\<close>: \<open>ParseLogLevel\<close>, \<open>Trim\<close>, the reading of \<open>logging.cfg\<close>,
  \<open>FormatTimestamp\<close> and the formats of a line.  Levels and targets are sets of bits in a byte, as in the source.
\<close>

subsection \<open>Levels\<close>

type_synonym ELogLevel = u8
type_synonym ETarget = u8

definition Level_None :: ELogLevel where "Level_None = 0"
definition Level_Error :: ELogLevel where "Level_Error = 1"
definition Level_Warning :: ELogLevel where "Level_Warning = 2"
definition Level_Info :: ELogLevel where "Level_Info = 4"
definition Level_All :: ELogLevel where "Level_All = Level_Error OR Level_Warning OR Level_Info"

definition Target_Terminal :: ETarget where "Target_Terminal = 1"
definition Target_File :: ETarget where "Target_File = 2"
definition Target_Listeners :: ETarget where "Target_Listeners = 4"
definition Target_All :: ETarget where "Target_All = Target_Terminal OR Target_File OR Target_Listeners"

lemmas level_defs = Level_None_def Level_Error_def Level_Warning_def Level_Info_def Level_All_def

definition level_char :: "char \<Rightarrow> ELogLevel \<Rightarrow> ELogLevel option" where
  "level_char c l =
     (if c = CHR ''n'' \<or> c = CHR ''N'' then Some Level_None
      else if c = CHR ''e'' \<or> c = CHR ''E'' then Some (l OR Level_Error)
      else if c = CHR ''w'' \<or> c = CHR ''W'' then Some (l OR Level_Warning)
      else if c = CHR ''i'' \<or> c = CHR ''I'' then Some (l OR Level_Info)
      else if c = CHR ''a'' \<or> c = CHR ''A'' then Some Level_All
      else None)"

fun level_loop :: "string \<Rightarrow> bool \<Rightarrow> ELogLevel \<Rightarrow> bool \<times> ELogLevel" where
  "level_loop [] valid l = (valid, l)"
| "level_loop (c # cs) valid l =
     (if valid then (case level_char c l of None \<Rightarrow> level_loop cs False l | Some l' \<Rightarrow> level_loop cs valid l')
      else level_loop cs valid l)"

definition ParseLogLevel :: "string \<Rightarrow> bool \<times> ELogLevel" where
  "ParseLogLevel str = level_loop str (str \<noteq> []) Level_None"

subsection \<open>Trimming\<close>

definition is_trimmed :: "char \<Rightarrow> bool" where
  "is_trimmed c \<longleftrightarrow> c = CHR '' '' \<or> c = CHR 0x09"

fun trim_start :: "nat \<Rightarrow> string \<Rightarrow> nat \<Rightarrow> nat \<Rightarrow> nat" where
  "trim_start 0 str start stop = start"
| "trim_start (Suc fuel) str start stop =
     (if start < stop \<and> is_trimmed (str ! start) then trim_start fuel str (start + 1) stop else start)"

fun trim_end :: "nat \<Rightarrow> string \<Rightarrow> nat \<Rightarrow> nat \<Rightarrow> nat" where
  "trim_end 0 str start stop = stop"
| "trim_end (Suc fuel) str start stop =
     (if start < stop \<and> is_trimmed (str ! (stop - 1)) then trim_end fuel str start (stop - 1) else stop)"

definition Trim :: "string \<Rightarrow> string" where
  "Trim str =
     (let n = length str; start = trim_start n str 0 n; stop = trim_end n str start n
      in take (stop - start) (drop start str))"

subsection \<open>The configuration file\<close>

record log_config =
  defaultLevel :: ELogLevel
  hasDefault :: bool
  channelOverrides :: "(string \<times> ELogLevel) list"

fun find_char :: "char \<Rightarrow> string \<Rightarrow> nat option" where
  "find_char c [] = None"
| "find_char c (d # ds) = (if d = c then Some 0 else map_option Suc (find_char c ds))"

definition config_line :: "string \<Rightarrow> log_config \<Rightarrow> log_config" where
  "config_line line cfg =
     (let lineView = Trim line;
          isContent = (lineView \<noteq> [] \<and> hd lineView \<noteq> CHR ''#'')
      in if isContent then
           (case find_char CHR ''='' lineView of
              None \<Rightarrow> cfg
            | Some eqPos \<Rightarrow>
                (let key = Trim (take eqPos lineView); val = Trim (drop (eqPos + 1) lineView)
                 in case ParseLogLevel val of
                      (False, _) \<Rightarrow> cfg
                    | (True, level) \<Rightarrow>
                        if key = ''default'' then cfg\<lparr>defaultLevel := level, hasDefault := True\<rparr>
                        else cfg\<lparr>channelOverrides := channelOverrides cfg @ [(key, level)]\<rparr>))
         else cfg)"

definition read_config :: "string list \<Rightarrow> log_config" where
  "read_config fileLines = fold config_line fileLines \<lparr>defaultLevel = Level_All, hasDefault = False, channelOverrides = []\<rparr>"

subsection \<open>Time stamps\<close>

text \<open>\<open>%0wllu\<close> pads with zeros on the left; \<open>snprintf\<close> writes at most \<open>bufferSize - 1\<close> characters and a zero.\<close>

definition padded :: "nat \<Rightarrow> nat \<Rightarrow> string" where
  "padded w n = replicate (w - length (dec n)) CHR ''0'' @ dec n"

definition snprintf :: "nat \<Rightarrow> string \<Rightarrow> string" where
  "snprintf bufferSize text = take (bufferSize - 1) text"

definition FormatTimestamp :: "u64 \<Rightarrow> nat \<Rightarrow> string" where
  "FormatTimestamp elapsedMs bufferSize =
     (let ms = elapsedMs mod 1000; totalSec = elapsedMs div 1000;
          sec = totalSec mod 60; totalMin = totalSec div 60;
          minutes = totalMin mod 60; totalHours = totalMin div 60;
          hours = totalHours mod 24; days = totalHours div 24
      in snprintf bufferSize
           (if 0 < days then
              dec (unat days) @ '':'' @ padded 2 (unat hours) @ '':'' @ padded 2 (unat minutes) @ '':'' @ padded 2 (unat sec)
                @ ''.'' @ padded 3 (unat ms)
            else if 0 < hours then
              padded 2 (unat hours) @ '':'' @ padded 2 (unat minutes) @ '':'' @ padded 2 (unat sec) @ ''.'' @ padded 3 (unat ms)
            else if 0 < minutes then padded 2 (unat minutes) @ '':'' @ padded 2 (unat sec) @ ''.'' @ padded 3 (unat ms)
            else padded 2 (unat sec) @ ''.'' @ padded 3 (unat ms)))"

definition LevelToString :: "ELogLevel \<Rightarrow> string" where
  "LevelToString l =
     (if l = Level_Error then ''ERROR'' else if l = Level_Warning then ''WARNING'' else if l = Level_Info then ''INFO''
      else ''UNKNOWN'')"

definition bracketed :: "string \<Rightarrow> string" where
  "bracketed s = ''['' @ s @ ''] ''"

definition format_line :: "string \<Rightarrow> ELogLevel \<Rightarrow> string \<Rightarrow> string \<Rightarrow> string" where
  "format_line stamp l channel text = bracketed stamp @ bracketed (LevelToString l) @ bracketed channel @ text"

definition format_terminal :: "string \<Rightarrow> ELogLevel \<Rightarrow> string \<Rightarrow> string \<Rightarrow> string" where
  "format_terminal stamp l channel text =
     (if l = Level_Info then bracketed stamp @ bracketed channel @ text else format_line stamp l channel text)"

subsection \<open>What trimming and level parsing compute\<close>

lemma trim_start_spec:
  assumes "start \<le> stop" and "stop \<le> length str" and "stop - start \<le> fuel"
  shows "trim_start fuel str start stop = start + length (takeWhile is_trimmed (take (stop - start) (drop start str)))"
  using assms
proof (induction fuel arbitrary: start)
  case (Suc fuel)
  show ?case
  proof (cases "start < stop")
    case True
    then have "take (stop - start) (drop start str) = str ! start # take (stop - (start + 1)) (drop (start + 1) str)"
      using Suc.prems by (simp add: Cons_nth_drop_Suc[symmetric] take_Cons')
    then show ?thesis using Suc.IH[of "start + 1"] Suc.prems True by simp
  qed (use Suc.prems in simp)
qed simp

lemma level_loop_invalid: "level_loop cs False l = (False, l)"
  by (induction cs) auto

definition level_letters :: "char set" where
  "level_letters = set ''nNeEwWiIaA''"

lemma level_char_None: "level_char c l = None \<longleftrightarrow> c \<notin> level_letters"
  by (auto simp: level_char_def level_letters_def)

lemma ParseLogLevel_valid: "fst (ParseLogLevel str) \<longleftrightarrow> str \<noteq> [] \<and> set str \<subseteq> level_letters"
proof -
  have "fst (level_loop cs True l) \<longleftrightarrow> set cs \<subseteq> level_letters" for cs l
  proof (induction cs arbitrary: l)
    case (Cons c cs)
    show ?case
    proof (cases "level_char c l")
      case None
      then have "c \<notin> level_letters" using level_char_None[of c l] by simp
      then show ?thesis by (simp add: None level_loop_invalid)
    next
      case (Some l')
      then have "c \<in> level_letters" using level_char_None[of c l] by auto
      then show ?thesis using Some Cons.IH by simp
    qed
  qed simp
  then show ?thesis by (cases "str = []") (auto simp: ParseLogLevel_def)
qed

subsection \<open>Reading a time stamp back\<close>

definition is_separator :: "char \<Rightarrow> bool" where
  "is_separator c \<longleftrightarrow> c = CHR '':'' \<or> c = CHR ''.''"

text \<open>Days, hours, minutes and seconds in front of the milliseconds, as many as there are.\<close>

definition stamp_value :: "string \<Rightarrow> nat" where
  "stamp_value s =
     (case rev (map dec_value (split_at is_separator s)) of
        [ms, sec] \<Rightarrow> ms + 1000 * sec
      | [ms, sec, mins] \<Rightarrow> ms + 1000 * (sec + 60 * mins)
      | [ms, sec, mins, hours] \<Rightarrow> ms + 1000 * (sec + 60 * (mins + 60 * hours))
      | [ms, sec, mins, hours, days] \<Rightarrow> ms + 1000 * (sec + 60 * (mins + 60 * (hours + 24 * days)))
      | _ \<Rightarrow> 0)"

lemma dec_no_separator: "c \<in> set (dec n) \<Longrightarrow> \<not> is_separator c"
  using dec_digits[of c n] by (auto simp: is_separator_def)

lemma padded_no_separator: "c \<in> set (padded w n) \<Longrightarrow> \<not> is_separator c"
  using dec_no_separator by (auto simp: padded_def is_separator_def)

lemma padded_value [simp]: "dec_value (padded w n) = n"
  by (simp add: padded_def)

lemma padded_length: "n < 10 ^ w \<Longrightarrow> 0 < w \<Longrightarrow> length (padded w n) = w"
  using length_dec[of n w] by (simp add: padded_def)

lemmas stamp_split = split_at_sep[of _ is_separator, OF padded_no_separator] split_at_sep[of _ is_separator, OF dec_no_separator]
  split_at_plain[of _ is_separator, OF padded_no_separator]

text \<open>
  The text a time stamp is printed as, for the numbers its fields come from.
\<close>

definition stamp_fields :: "nat \<Rightarrow> nat \<Rightarrow> nat \<Rightarrow> nat \<Rightarrow> nat \<Rightarrow> string" where
  "stamp_fields days hours mins sec ms =
     (if 0 < days then
        dec days @ '':'' @ padded 2 hours @ '':'' @ padded 2 mins @ '':'' @ padded 2 sec @ ''.'' @ padded 3 ms
      else if 0 < hours then padded 2 hours @ '':'' @ padded 2 mins @ '':'' @ padded 2 sec @ ''.'' @ padded 3 ms
      else if 0 < mins then padded 2 mins @ '':'' @ padded 2 sec @ ''.'' @ padded 3 ms
      else padded 2 sec @ ''.'' @ padded 3 ms)"

definition stamp_text :: "nat \<Rightarrow> string" where
  "stamp_text t = stamp_fields (t div 86400000) (t div 3600000 mod 24) (t div 60000 mod 60) (t div 1000 mod 60) (t mod 1000)"

lemma stamp_fields_value:
  "stamp_value (stamp_fields d h m s ms) = ms + 1000 * (s + 60 * (m + 60 * (h + 24 * d)))"
proof -
  have sep: "is_separator CHR '':''" "is_separator CHR ''.''" by (simp_all add: is_separator_def)
  show ?thesis by (simp add: stamp_fields_def stamp_value_def stamp_split sep)
qed

lemma stamp_fields_length:
  assumes "d < 10 ^ 12" and "h < 24" and "m < 60" and "s < 60" and "ms < 1000"
  shows "length (stamp_fields d h m s ms) \<le> 25"
  using length_dec[OF assms(1)] padded_length[of h 2] padded_length[of m 2] padded_length[of s 2] padded_length[of ms 3] assms
  by (simp add: stamp_fields_def)

lemma FormatTimestamp_text: "FormatTimestamp e n = snprintf n (stamp_text (unat e))"
proof -
  have u: "unat (a div b) = unat a div unat b" "unat (a mod b) = unat a mod unat b" for a b :: u64
    by (rule unat_div, rule unat_mod)
  have z: "0 < w \<longleftrightarrow> 0 < unat w" for w :: u64 by (simp add: word_less_nat_alt)
  show ?thesis
    unfolding FormatTimestamp_def stamp_text_def stamp_fields_def Let_def z u by (simp add: div_mult2_eq[symmetric])
qed

lemma stamp_text_value: "stamp_value (stamp_text t) = t"
proof -
  let ?ms = "t mod 1000" and ?s = "t div 1000 mod 60" and ?m = "t div 60000 mod 60" and ?h = "t div 3600000 mod 24" and ?d = "t div 86400000"
  have s: "t div 1000 = ?s + 60 * (t div 60000)" using mod_mult_div_eq[of "t div 1000" 60] by (simp add: div_mult2_eq[symmetric])
  have m: "t div 60000 = ?m + 60 * (t div 3600000)" using mod_mult_div_eq[of "t div 60000" 60] by (simp add: div_mult2_eq[symmetric])
  have h: "t div 3600000 = ?h + 24 * ?d" using mod_mult_div_eq[of "t div 3600000" 24] by (simp add: div_mult2_eq[symmetric])
  show ?thesis unfolding stamp_text_def stamp_fields_value h[symmetric] m[symmetric] s[symmetric] by simp
qed

lemma stamp_text_length: "t < 2 ^ 64 \<Longrightarrow> length (stamp_text t) \<le> 25"
proof -
  assume "t < 2 ^ 64"
  then have "t div 86400000 < 10 ^ 12" by (simp add: div_less_iff_less_mult)
  then show ?thesis unfolding stamp_text_def by (intro stamp_fields_length) simp_all
qed

text \<open>Every time stamp fits the buffer of 32 characters it is printed into, for every 64-bit number of milliseconds, and can be read back: the
  fields it shows, however many it left out, give the number again, so that two different times never print alike.
\<close>

theorem timestamp_reads_back:
  "stamp_value (FormatTimestamp elapsedMs 32) = unat elapsedMs \<and> length (FormatTimestamp elapsedMs 32) < 32"
proof -
  have "unat elapsedMs < 2 ^ 64" using unat_lt_word[of elapsedMs] by simp
  from stamp_text_length[OF this]
  have "FormatTimestamp elapsedMs 32 = stamp_text (unat elapsedMs)" "length (stamp_text (unat elapsedMs)) < 32"
    by (simp_all add: FormatTimestamp_text snprintf_def)
  then show ?thesis by (simp add: stamp_text_value)
qed

end
