(* ===== verification/Log_System.thy ===== *)
theory Log_System
  imports Log_Format "HOL-Library.Multiset"
begin

section \<open>The log system\<close>

text \<open>
  Models the channels, listeners and outputs of \<^verbatim>\<open>private/logging/log_system.cpp\<close>.  A channel (\<open>CLog\<close>) is named by the number of its
  object; the registry of channels maps identifiers to objects and is kept as a list in some iteration order.  A listener is
  known by its key, and what its callback is given is recorded in \<open>delivered\<close> beside the message it stands for.  The hash of
  a channel name, the time and the text of the wall clock are arguments.
\<close>

datatype EMessageFormat = Formatted | Raw
datatype EHistory = Skip | Flush
datatype ETimestampMode = Elapsed | WallClock
datatype stream = Out | Err

record SLogMessage =
  timestamp :: int
  elapsedMs :: u64
  mlevel :: ELogLevel
  mtarget :: ETarget
  channelName :: string
  message :: string
  formattedTimestamp :: string
  mcolor :: "u8 \<times> u8 \<times> u8"

record SListener =
  l_key :: nat
  l_format :: EMessageFormat

record CLog =
  m_id :: u64
  m_name :: string
  m_color :: "u8 \<times> u8 \<times> u8"
  m_levelMask :: ELogLevel
  m_listeners :: "SListener list"
  m_pendingDispatch :: "SLogMessage list"
  m_history :: "SLogMessage list"

record log_state =
  loggers :: "(u64 \<times> nat) list"
  logs :: "nat \<Rightarrow> CLog"
  listeners :: "SListener list"
  fileOpen :: bool
  fileFail :: bool
  fileText :: "string list"
  terminalText :: "(stream \<times> string) list"
  m_initialized :: bool
  m_timestampMode :: ETimestampMode
  m_enabledTargets :: ETarget
  delivered :: "(nat \<times> SLogMessage \<times> SLogMessage) list"

definition MaxMessages :: nat where
  "MaxMessages = 1024"

subsection \<open>Channels and levels\<close>

definition find_logger :: "u64 \<Rightarrow> log_state \<Rightarrow> nat option" where
  "find_logger i s = map_of (loggers s) i"

definition log_upd :: "nat \<Rightarrow> (CLog \<Rightarrow> CLog) \<Rightarrow> log_state \<Rightarrow> log_state" where
  "log_upd p f s = s\<lparr>logs := (logs s)(p := f (logs s p))\<rparr>"

definition SetLevelMask :: "ELogLevel \<Rightarrow> CLog \<Rightarrow> CLog" where
  "SetLevelMask level l = l\<lparr>m_levelMask := level\<rparr>"

definition IsReservedChannelName :: "string \<Rightarrow> bool" where
  "IsReservedChannelName name \<longleftrightarrow> name = ''all'' \<or> name = ''All'' \<or> name = ''none'' \<or> name = ''None'' \<or> name = ''*''"

definition Register :: "(string \<Rightarrow> u64) \<Rightarrow> string \<Rightarrow> u64" where
  "Register hash name = (if \<not> IsReservedChannelName name then hash name else 0)"

text \<open>The constructor makes the object \<open>p\<close>; \<open>emplace\<close> keeps an entry that is already there.\<close>

definition CLog_ctor :: "(string \<Rightarrow> u64) \<Rightarrow> nat \<Rightarrow> string \<Rightarrow> u8 \<times> u8 \<times> u8 \<Rightarrow> log_state \<Rightarrow> log_state" where
  "CLog_ctor hash p name color s =
     (let i = Register hash name;
          s1 = s\<lparr>logs := (logs s)(p := \<lparr>m_id = i, m_name = name, m_color = color, m_levelMask = Level_All, m_listeners = [],
                                       m_pendingDispatch = [], m_history = []\<rparr>)\<rparr>
      in if find_logger i s1 = None then s1\<lparr>loggers := loggers s1 @ [(i, p)]\<rparr> else s1)"

definition CLog_dtor :: "nat \<Rightarrow> log_state \<Rightarrow> log_state" where
  "CLog_dtor p s = s\<lparr>loggers := filter (\<lambda>(i, _). i \<noteq> m_id (logs s p)) (loggers s)\<rparr>"

definition SetLogLevel :: "(string \<Rightarrow> u64) \<Rightarrow> string \<Rightarrow> ELogLevel \<Rightarrow> log_state \<Rightarrow> bool \<times> log_state" where
  "SetLogLevel hash name level s =
     (case find_logger (hash name) s of
        None \<Rightarrow> (False, s)
      | Some p \<Rightarrow> (True, log_upd p (SetLevelMask level) s))"

definition SetAllLogLevels :: "ELogLevel \<Rightarrow> log_state \<Rightarrow> log_state" where
  "SetAllLogLevels level s = fold (\<lambda>(_, p). log_upd p (SetLevelMask level)) (loggers s) s"

definition GetLogLevel :: "(string \<Rightarrow> u64) \<Rightarrow> string \<Rightarrow> log_state \<Rightarrow> ELogLevel" where
  "GetLogLevel hash name s = (case find_logger (hash name) s of Some p \<Rightarrow> m_levelMask (logs s p) | None \<Rightarrow> Level_All)"

definition GetChannelNames :: "log_state \<Rightarrow> string list" where
  "GetChannelNames s = map (\<lambda>(_, p). m_name (logs s p)) (loggers s)"

definition GetChannelNameById :: "u64 \<Rightarrow> log_state \<Rightarrow> string" where
  "GetChannelNameById i s = (case find_logger i s of Some p \<Rightarrow> m_name (logs s p) | None \<Rightarrow> [])"

text \<open>\<open>LoadConfig\<close>, given the lines of the file if it could be opened.\<close>

definition apply_override :: "(string \<Rightarrow> u64) \<Rightarrow> string \<times> ELogLevel \<Rightarrow> log_state \<Rightarrow> log_state" where
  "apply_override hash ov s =
     (case find_logger (hash (fst ov)) s of None \<Rightarrow> s | Some p \<Rightarrow> log_upd p (SetLevelMask (snd ov)) s)"

definition LoadConfig :: "(string \<Rightarrow> u64) \<Rightarrow> string list option \<Rightarrow> log_state \<Rightarrow> log_state" where
  "LoadConfig hash file s =
     (case file of
        None \<Rightarrow> s
      | Some fileLines \<Rightarrow>
          (let cfg = read_config fileLines;
               s1 = (if hasDefault cfg then SetAllLogLevels (defaultLevel cfg) s else s)
           in fold (apply_override hash) (channelOverrides cfg) s1))"

text \<open>
  \<open>Initialize\<close> with \<open>config\<close>, the lines of the configuration file if a directory was given and it could be opened, and
  \<open>opened\<close>, if a directory for logs was given, whether the file in it could be opened.  A stream whose file is open already
  refuses to open another and is left failed, and a failed stream drops what is written to it.
\<close>

definition open_file :: "bool \<Rightarrow> log_state \<Rightarrow> log_state" where
  "open_file opened s =
     (if fileOpen s then s\<lparr>fileFail := True\<rparr>
      else if opened then s\<lparr>fileOpen := True, fileFail := False\<rparr>
      else s\<lparr>fileFail := True\<rparr>)"

definition Log_Initialize :: "(string \<Rightarrow> u64) \<Rightarrow> string list option \<Rightarrow> bool option \<Rightarrow> ETimestampMode \<Rightarrow> log_state \<Rightarrow> log_state" where
  "Log_Initialize hash config opened mode s =
     (let s1 = LoadConfig hash config (s\<lparr>m_timestampMode := mode\<rparr>);
          s2 = (case opened of None \<Rightarrow> s1 | Some b \<Rightarrow> open_file b s1)
      in s2\<lparr>m_initialized := True\<rparr>)"

definition Log_Terminate :: "log_state \<Rightarrow> log_state" where
  "Log_Terminate s = s\<lparr>m_initialized := False, fileOpen := False, loggers := []\<rparr>"

subsection \<open>Writing\<close>

definition esc :: string where
  "esc = [CHR 0x1B]"

definition FormatMessage :: "SLogMessage \<Rightarrow> string" where
  "FormatMessage msg = format_line (formattedTimestamp msg) (mlevel msg) (channelName msg) (message msg)"

definition FormatMessageForTerminal :: "SLogMessage \<Rightarrow> string" where
  "FormatMessageForTerminal msg = format_terminal (formattedTimestamp msg) (mlevel msg) (channelName msg) (message msg)"

definition color_code :: "u8 \<times> u8 \<times> u8 \<Rightarrow> string" where
  "color_code c =
     (case c of (r, g, b) \<Rightarrow> esc @ ''[38;2;'' @ dec (unat r) @ '';'' @ dec (unat g) @ '';'' @ dec (unat b) @ ''m'')"

definition WriteToTerminal :: "SLogMessage \<Rightarrow> log_state \<Rightarrow> log_state" where
  "WriteToTerminal msg s =
     (let formatted = FormatMessageForTerminal msg;
          put = (\<lambda>st t. s\<lparr>terminalText := terminalText s @ [(st, t)]\<rparr>)
      in if mlevel msg = Level_Info then
           (if mcolor msg \<noteq> (255, 255, 255) then put Out (color_code (mcolor msg) @ formatted @ esc @ ''[0m'') else put Out formatted)
         else if mlevel msg = Level_Warning then put Out (esc @ ''[33m'' @ formatted @ esc @ ''[0m'')
         else if mlevel msg = Level_Error then put Err (esc @ ''[31m'' @ formatted @ esc @ ''[0m'')
         else s)"

definition WriteToFile :: "SLogMessage \<Rightarrow> log_state \<Rightarrow> log_state" where
  "WriteToFile msg s =
     (if fileOpen s then (if fileFail s then s else s\<lparr>fileText := fileText s @ [FormatMessage msg]\<rparr>) else s)"

definition write_pre_init :: "ELogLevel \<Rightarrow> string \<Rightarrow> log_state \<Rightarrow> log_state" where
  "write_pre_init level text s =
     (let put = (\<lambda>st t. s\<lparr>terminalText := terminalText s @ [(st, t)]\<rparr>)
      in if level = Level_Info then put Out (''[Pre-init] '' @ text)
         else if level = Level_Warning then put Out (esc @ ''[33m[Pre-init] [WARNING] '' @ text @ esc @ ''[0m'')
         else if level = Level_Error then put Err (esc @ ''[31m[Pre-init] [ERROR] '' @ text @ esc @ ''[0m'')
         else s)"

text \<open>\<open>now\<close> and \<open>elapsed\<close> are the times the call reads, \<open>wall\<close> the wall-clock text of \<open>now\<close>.\<close>

definition Write :: "int \<Rightarrow> u64 \<Rightarrow> string \<Rightarrow> nat \<Rightarrow> ELogLevel \<Rightarrow> ETarget \<Rightarrow> string \<Rightarrow> log_state \<Rightarrow> log_state" where
  "Write now elapsed wall p level target text s =
     (let l = logs s p
      in if \<not> m_initialized s then
           (if level AND m_levelMask l \<noteq> Level_None then write_pre_init level text s else s)
         else
           (let effective = target AND m_enabledTargets s
            in if level AND m_levelMask l \<noteq> Level_None then
                 (let stamp = (if m_timestampMode s = WallClock then wall else FormatTimestamp elapsed 32);
                      msg = \<lparr>timestamp = now, elapsedMs = elapsed, mlevel = level, mtarget = effective, channelName = m_name l,
                             message = text, formattedTimestamp = stamp, mcolor = m_color l\<rparr>;
                      s1 = (if effective AND Target_Terminal \<noteq> 0 then WriteToTerminal msg s else s);
                      s2 = (if effective AND Target_File \<noteq> 0 then WriteToFile msg s1 else s1)
                  in if effective AND Target_Listeners \<noteq> 0
                     then log_upd p (\<lambda>x. x\<lparr>m_pendingDispatch := m_pendingDispatch x @ [msg]\<rparr>) s2
                     else s2)
               else s))"

text \<open>The methods of \<open>CLog\<close> for each level, with an explicit target and with all of them; the text is formatted already.\<close>

definition CLog_Error :: "int \<Rightarrow> u64 \<Rightarrow> string \<Rightarrow> nat \<Rightarrow> ETarget \<Rightarrow> string \<Rightarrow> log_state \<Rightarrow> log_state" where
  "CLog_Error now elapsed wall p target text = Write now elapsed wall p Level_Error target text"

definition CLog_Warning :: "int \<Rightarrow> u64 \<Rightarrow> string \<Rightarrow> nat \<Rightarrow> ETarget \<Rightarrow> string \<Rightarrow> log_state \<Rightarrow> log_state" where
  "CLog_Warning now elapsed wall p target text = Write now elapsed wall p Level_Warning target text"

definition CLog_Info :: "int \<Rightarrow> u64 \<Rightarrow> string \<Rightarrow> nat \<Rightarrow> ETarget \<Rightarrow> string \<Rightarrow> log_state \<Rightarrow> log_state" where
  "CLog_Info now elapsed wall p target text = Write now elapsed wall p Level_Info target text"

definition CLog_Error_all :: "int \<Rightarrow> u64 \<Rightarrow> string \<Rightarrow> nat \<Rightarrow> string \<Rightarrow> log_state \<Rightarrow> log_state" where
  "CLog_Error_all now elapsed wall p text = CLog_Error now elapsed wall p Target_All text"

definition CLog_Warning_all :: "int \<Rightarrow> u64 \<Rightarrow> string \<Rightarrow> nat \<Rightarrow> string \<Rightarrow> log_state \<Rightarrow> log_state" where
  "CLog_Warning_all now elapsed wall p text = CLog_Warning now elapsed wall p Target_All text"

definition CLog_Info_all :: "int \<Rightarrow> u64 \<Rightarrow> string \<Rightarrow> nat \<Rightarrow> string \<Rightarrow> log_state \<Rightarrow> log_state" where
  "CLog_Info_all now elapsed wall p text = CLog_Info now elapsed wall p Target_All text"

subsection \<open>Listeners\<close>

definition given :: "SListener \<Rightarrow> SLogMessage \<Rightarrow> SLogMessage" where
  "given l msg = (case l_format l of Formatted \<Rightarrow> msg\<lparr>message := FormatMessage msg\<rparr> | Raw \<Rightarrow> msg)"

definition hand_over :: "SListener \<Rightarrow> SLogMessage \<Rightarrow> nat \<times> SLogMessage \<times> SLogMessage" where
  "hand_over l msg = (l_key l, msg, given l msg)"

definition remove_key :: "nat \<Rightarrow> SListener list \<Rightarrow> SListener list" where
  "remove_key key ls = filter (\<lambda>l. l_key l \<noteq> key) ls"

fun trim_history :: "nat \<Rightarrow> SLogMessage list \<Rightarrow> SLogMessage list" where
  "trim_history 0 h = h"
| "trim_history (Suc fuel) h = (if length h > MaxMessages then trim_history fuel (tl h) else h)"

definition DispatchPending :: "nat \<Rightarrow> log_state \<Rightarrow> log_state" where
  "DispatchPending p s =
     (let l = logs s p;
          toDispatch = m_pendingDispatch l;
          h = m_history l @ toDispatch;
          s1 = log_upd p (\<lambda>x. x\<lparr>m_pendingDispatch := [], m_history := trim_history (length h) h\<rparr>) s
      in s1\<lparr>delivered := delivered s1 @
              concat (map (\<lambda>msg. map (\<lambda>k. hand_over k msg) (m_listeners l) @ map (\<lambda>k. hand_over k msg) (listeners s)) toDispatch)\<rparr>)"

definition DispatchListeners :: "log_state \<Rightarrow> log_state" where
  "DispatchListeners s = fold (\<lambda>(_, p). DispatchPending p) (loggers s) s"

text \<open>\<open>RegisterListener\<close> of the system: the dispatch, then what happens under the lock and the flush it leads to.\<close>

definition register_under_lock :: "nat \<Rightarrow> EMessageFormat \<Rightarrow> EHistory \<Rightarrow> log_state \<Rightarrow> log_state" where
  "register_under_lock key format hist s =
     (let l = \<lparr>l_key = key, l_format = format\<rparr>;
          historyToFlush = (if hist = Flush
            then sort_key timestamp (concat (map (\<lambda>(_, p). m_history (logs s p)) (loggers s))) else [])
      in s\<lparr>listeners := listeners s @ [l], delivered := delivered s @ map (hand_over l) historyToFlush\<rparr>)"

definition RegisterListener :: "nat \<Rightarrow> EMessageFormat \<Rightarrow> EHistory \<Rightarrow> log_state \<Rightarrow> log_state" where
  "RegisterListener key format hist s = register_under_lock key format hist (DispatchListeners s)"

definition UnregisterListener :: "nat \<Rightarrow> log_state \<Rightarrow> log_state" where
  "UnregisterListener key s = s\<lparr>listeners := remove_key key (listeners s)\<rparr>"

definition CLog_RegisterListener :: "nat \<Rightarrow> nat \<Rightarrow> EMessageFormat \<Rightarrow> log_state \<Rightarrow> log_state" where
  "CLog_RegisterListener p key format s =
     log_upd p (\<lambda>x. x\<lparr>m_listeners := m_listeners x @ [\<lparr>l_key = key, l_format = format\<rparr>]\<rparr>) s"

definition CLog_UnregisterListener :: "nat \<Rightarrow> nat \<Rightarrow> log_state \<Rightarrow> log_state" where
  "CLog_UnregisterListener p key s = log_upd p (\<lambda>x. x\<lparr>m_listeners := remove_key key (m_listeners x)\<rparr>) s"

definition FlushTo :: "nat \<Rightarrow> nat \<Rightarrow> log_state \<Rightarrow> log_state" where
  "FlushTo p key s =
     (case List.find (\<lambda>l. l_key l = key) (m_listeners (logs s p)) of
        None \<Rightarrow> s
      | Some l \<Rightarrow> s\<lparr>delivered := delivered s @ map (hand_over l) (m_history (logs s p))\<rparr>)"

definition SetEnabledTargets :: "ETarget \<Rightarrow> log_state \<Rightarrow> log_state" where
  "SetEnabledTargets t s = s\<lparr>m_enabledTargets := t\<rparr>"

subsection \<open>History\<close>

lemma trim_history_drop: "length h \<le> fuel + MaxMessages \<Longrightarrow> trim_history fuel h = drop (length h - MaxMessages) h"
proof (induction fuel arbitrary: h)
  case (Suc fuel)
  show ?case
  proof (cases "length h > MaxMessages")
    case True
    then have "trim_history fuel (tl h) = drop (length h - 1 - MaxMessages) (tl h)" using Suc by simp
    also have "\<dots> = drop (length h - MaxMessages) h" using True by (simp add: drop_Suc[symmetric] Suc_diff_Suc)
    finally show ?thesis using True by simp
  qed simp
qed simp

lemma DispatchPending_history:
  "m_history (logs (DispatchPending p s) p)
     = (let h = m_history (logs s p) @ m_pendingDispatch (logs s p) in drop (length h - MaxMessages) h)"
  by (simp add: DispatchPending_def Let_def log_upd_def trim_history_drop)

lemma history_bounded: "length (m_history (logs (DispatchPending p s) p)) \<le> MaxMessages"
  by (simp add: DispatchPending_history Let_def)

subsection \<open>A listener gets every message once\<close>

definition got :: "nat \<Rightarrow> log_state \<Rightarrow> SLogMessage multiset" where
  "got key s = image_mset (\<lambda>d. fst (snd d)) (filter_mset (\<lambda>d. fst d = key) (mset (delivered s)))"

definition all_history :: "log_state \<Rightarrow> SLogMessage multiset" where
  "all_history s = mset (concat (map (\<lambda>(_, p). m_history (logs s p)) (loggers s)))"

definition unused :: "nat \<Rightarrow> log_state \<Rightarrow> bool" where
  "unused key s \<longleftrightarrow> (\<forall>l\<in>set (listeners s). l_key l \<noteq> key) \<and> (\<forall>p. \<forall>l\<in>set (m_listeners (logs s p)). l_key l \<noteq> key)"

definition listening :: "nat \<Rightarrow> log_state \<Rightarrow> bool" where
  "listening key s \<longleftrightarrow> length (filter (\<lambda>l. l_key l = key) (listeners s)) = 1
     \<and> (\<forall>p. \<forall>l\<in>set (m_listeners (logs s p)). l_key l \<noteq> key)"

text \<open>What is written and not dispatched yet, in the channels that have any.\<close>

definition pending :: "log_state \<Rightarrow> nat \<Rightarrow> SLogMessage list" where
  "pending s p = m_pendingDispatch (logs s p)"

definition waiting :: "log_state \<Rightarrow> SLogMessage multiset" where
  "waiting s = (\<Sum>p | pending s p \<noteq> []. mset (pending s p))"

text \<open>What a call of \<open>Write\<close> owes the listeners: the message, if the system is up, the channel lets its level through and both the call and the system
  name the listeners as a target.\<close>

definition due :: "int \<Rightarrow> u64 \<Rightarrow> string \<Rightarrow> nat \<Rightarrow> ELogLevel \<Rightarrow> ETarget \<Rightarrow> string \<Rightarrow> log_state \<Rightarrow> SLogMessage list" where
  "due now elapsed wall p level target text s =
     (if m_initialized s \<and> level AND m_levelMask (logs s p) \<noteq> Level_None \<and> target AND m_enabledTargets s AND Target_Listeners \<noteq> 0
      then [\<lparr>timestamp = now, elapsedMs = elapsed, mlevel = level, mtarget = target AND m_enabledTargets s, channelName = m_name (logs s p),
              message = text, formattedTimestamp = (if m_timestampMode s = WallClock then wall else FormatTimestamp elapsed 32),
              mcolor = m_color (logs s p)\<rparr>]
      else [])"

text \<open>
  Everything the program may do while the listener \<open>key\<close> stays registered, with the messages that are owed to it by the step.  Each step is what one thread does under the lock; the
  dispatch of all channels is a step per channel.  The callbacks run after the lock is left, on the messages and listeners copied
  under it; they are recorded in the step that settles them.  A new channel is an object of its own, with nothing pending.
\<close>

inductive log_step :: "nat \<Rightarrow> log_state \<Rightarrow> SLogMessage list \<Rightarrow> log_state \<Rightarrow> bool" for key where
  wrote: "log_step key s (due now elapsed wall p level target text s) (Write now elapsed wall p level target text s)"
| dispatch: "log_step key s [] (DispatchPending p s)"
| register: "k \<noteq> key \<Longrightarrow> log_step key s [] (register_under_lock k format hist s)"
| unregister: "k \<noteq> key \<Longrightarrow> log_step key s [] (UnregisterListener k s)"
| log_register: "k \<noteq> key \<Longrightarrow> log_step key s [] (CLog_RegisterListener p k format s)"
| log_unregister: "log_step key s [] (CLog_UnregisterListener p k s)"
| flush: "k \<noteq> key \<Longrightarrow> log_step key s [] (FlushTo p k s)"
| new_log: "pending s p = [] \<Longrightarrow> log_step key s [] (CLog_ctor hash p name color s)"
| drop_log: "log_step key s [] (CLog_dtor p s)"
| level: "log_step key s [] (snd (SetLogLevel hash name lv s))"
| all_levels: "log_step key s [] (SetAllLogLevels lv s)"
| start: "log_step key s [] (Log_Initialize hash config opened mode s)"
| stop: "log_step key s [] (Log_Terminate s)"
| targets: "log_step key s [] (SetEnabledTargets tg s)"

inductive log_run :: "nat \<Rightarrow> log_state \<Rightarrow> SLogMessage list \<Rightarrow> log_state \<Rightarrow> bool" for key s where
  nothing: "log_run key s [] s"
| again: "log_run key s owed s1 \<Longrightarrow> log_step key s1 new s2 \<Longrightarrow> log_run key s (owed @ new) s2"

lemma waiting_over: "finite A \<Longrightarrow> {p. pending s p \<noteq> []} \<subseteq> A \<Longrightarrow> waiting s = (\<Sum>p\<in>A. mset (pending s p))"
  unfolding waiting_def by (rule sum.mono_neutral_left) auto

lemma waiting_changes:
  assumes "finite {p. pending s p \<noteq> []}" and "\<And>q. q \<noteq> p \<Longrightarrow> pending s' q = pending s q"
  shows "finite {p. pending s' p \<noteq> []} \<and> waiting s' + mset (pending s p) = waiting s + mset (pending s' p)"
proof -
  let ?A = "insert p {p. pending s p \<noteq> []}"
  have fin: "finite ?A" and sub: "{p. pending s' p \<noteq> []} \<subseteq> ?A" using assms by auto
  have "waiting s = mset (pending s p) + (\<Sum>q\<in>?A - {p}. mset (pending s q))"
    using waiting_over [OF fin, of s] fin by (simp add: sum.remove [of ?A p] subset_insertI)
  moreover have "waiting s' = mset (pending s' p) + (\<Sum>q\<in>?A - {p}. mset (pending s' q))"
    using waiting_over [OF fin sub] fin by (simp add: sum.remove [of ?A p])
  moreover have "(\<Sum>q\<in>?A - {p}. mset (pending s' q)) = (\<Sum>q\<in>?A - {p}. mset (pending s q))"
    using assms(2) by (intro sum.cong) auto
  ultimately show ?thesis using finite_subset [OF sub fin] by simp
qed

lemma DispatchPending_pending: "pending (DispatchPending p s) q = (if q = p then [] else pending s q)"
  by (simp add: DispatchPending_def Let_def log_upd_def pending_def)

lemma waiting_same: "(\<And>q. pending s' q = pending s q) \<Longrightarrow> waiting s' = waiting s"
  by (simp add: waiting_def)

lemma hand_over_fst [simp]: "fst (hand_over l msg) = l_key l" "fst (snd (hand_over l msg)) = msg"
  by (simp_all add: hand_over_def)

lemma got_append:
  "delivered s' = delivered s @ ds \<Longrightarrow>
     got key s' = got key s + mset (map (\<lambda>d. fst (snd d)) (filter (\<lambda>d. fst d = key) ds))"
  by (simp add: got_def mset_filter)

lemma handed_to_none: "(\<And>l. l \<in> set ls \<Longrightarrow> l_key l \<noteq> key) \<Longrightarrow> filter (\<lambda>d. fst d = key) (map (\<lambda>k. hand_over k msg) ls) = []"
  by (auto simp: filter_empty_conv)

lemma handed_to_one:
  "length (filter (\<lambda>l. l_key l = key) ls) = 1 \<Longrightarrow>
     map (\<lambda>d. fst (snd d)) (filter (\<lambda>d. fst d = key) (map (\<lambda>k. hand_over k msg) ls)) = [msg]"
proof -
  assume "length (filter (\<lambda>l. l_key l = key) ls) = 1"
  then obtain l where "filter (\<lambda>l. l_key l = key) ls = [l]" by (metis One_nat_def length_0_conv length_Suc_conv)
  then show ?thesis by (simp add: filter_map comp_def)
qed

lemma dispatch_got:
  assumes "listening key s"
  shows "got key (DispatchPending p s) = got key s + mset (m_pendingDispatch (logs s p))"
proof -
  have one: "length (filter (\<lambda>l. l_key l = key) (listeners s)) = 1" and none: "\<And>l. l \<in> set (m_listeners (logs s p)) \<Longrightarrow> l_key l \<noteq> key"
    using assms by (auto simp: listening_def)
  have to_k: "map (\<lambda>d. fst (snd d)) (filter (\<lambda>d. fst d = key) (concat (map (\<lambda>msg. map (\<lambda>k. hand_over k msg) (m_listeners (logs s p))
      @ map (\<lambda>k. hand_over k msg) (listeners s)) ms))) = ms" for ms
  proof (induction ms)
    case (Cons m ms)
    then show ?case using handed_to_none[OF none, where msg = m] handed_to_one[OF one, where msg = m] by simp
  qed simp
  have "delivered (DispatchPending p s) = delivered s @ concat (map (\<lambda>msg. map (\<lambda>k. hand_over k msg) (m_listeners (logs s p))
      @ map (\<lambda>k. hand_over k msg) (listeners s)) (m_pendingDispatch (logs s p)))"
    by (simp add: DispatchPending_def Let_def log_upd_def)
  from got_append[OF this, of key] show ?thesis unfolding to_k .
qed

lemma got_other:
  assumes "delivered s' = delivered s @ map (hand_over l) ms" and "l_key l \<noteq> key"
  shows "got key s' = got key s"
proof -
  have none: "filter (\<lambda>d. fst d = key) (map (hand_over l) ms) = []" using assms(2) by (simp add: filter_map comp_def)
  show ?thesis using got_append[OF assms(1), of key] unfolding none by simp
qed

lemma got_same: "delivered s' = delivered s \<Longrightarrow> got key s' = got key s"
  by (simp add: got_def)

lemma Write_frame:
  "listeners (Write now el wall p lv tg text s) = listeners s" "delivered (Write now el wall p lv tg text s) = delivered s"
  "m_listeners (logs (Write now el wall p lv tg text s) q) = m_listeners (logs s q)"
  by (simp_all add: Write_def write_pre_init_def WriteToTerminal_def WriteToFile_def log_upd_def Let_def)

lemma Write_owes:
  "pending (Write now el wall p lv tg text s) q = (if q = p then pending s p @ due now el wall p lv tg text s else pending s q)"
  by (simp add: pending_def due_def Write_def write_pre_init_def WriteToTerminal_def WriteToFile_def log_upd_def Let_def and.assoc)

lemma set_all_frame:
  "listeners (SetAllLogLevels lv s) = listeners s" "delivered (SetAllLogLevels lv s) = delivered s"
  "pending (SetAllLogLevels lv s) q = pending s q" "m_listeners (logs (SetAllLogLevels lv s) q) = m_listeners (logs s q)"
proof -
  have "let s' = fold (\<lambda>(_, p). log_upd p (SetLevelMask lv)) ls s
    in listeners s' = listeners s \<and> delivered s' = delivered s \<and> pending s' q = pending s q \<and> m_listeners (logs s' q) = m_listeners (logs s q)" for ls
    by (induction ls arbitrary: s) (auto simp: log_upd_def SetLevelMask_def pending_def Let_def)
  from this[of "loggers s"] show "listeners (SetAllLogLevels lv s) = listeners s" "delivered (SetAllLogLevels lv s) = delivered s"
    "pending (SetAllLogLevels lv s) q = pending s q" "m_listeners (logs (SetAllLogLevels lv s) q) = m_listeners (logs s q)"
    by (simp_all add: SetAllLogLevels_def Let_def)
qed

lemma overrides_frame:
  "let s' = fold (apply_override hash) os s
   in listeners s' = listeners s \<and> delivered s' = delivered s \<and> pending s' q = pending s q \<and> m_listeners (logs s' q) = m_listeners (logs s q)"
  by (induction os arbitrary: s) (auto simp: apply_override_def log_upd_def SetLevelMask_def pending_def Let_def split: option.splits)

lemma LoadConfig_frame:
  "listeners (LoadConfig hash c s) = listeners s" "delivered (LoadConfig hash c s) = delivered s"
  "pending (LoadConfig hash c s) q = pending s q" "m_listeners (logs (LoadConfig hash c s) q) = m_listeners (logs s q)"
  using overrides_frame[where hash = hash] by (simp_all add: LoadConfig_def Let_def set_all_frame split: option.splits)

lemma Initialize_frame:
  "listeners (Log_Initialize hash c b m s) = listeners s" "delivered (Log_Initialize hash c b m s) = delivered s"
  "pending (Log_Initialize hash c b m s) q = pending s q" "m_listeners (logs (Log_Initialize hash c b m s) q) = m_listeners (logs s q)"
  using LoadConfig_frame [of hash c "s\<lparr>m_timestampMode := m\<rparr>"]
  by (simp_all add: Log_Initialize_def Let_def open_file_def pending_def split: option.splits)

text \<open>Between the messages handed over and those that wait none is lost and none appears.\<close>

definition settles :: "nat \<Rightarrow> log_state \<Rightarrow> SLogMessage list \<Rightarrow> log_state \<Rightarrow> bool" where
  "settles key s owed s' \<longleftrightarrow>
     listening key s' \<and> finite {p. pending s' p \<noteq> []} \<and> got key s' + waiting s' = got key s + waiting s + mset owed"

lemma settlesI:
  assumes "listening key s'" and "got key s' = got key s" and "\<And>q. pending s' q = pending s q" and "finite {p. pending s p \<noteq> []}"
  shows "settles key s [] s'"
  using assms waiting_same [of s' s] by (simp add: settles_def)

lemma settles_same:
  assumes "listeners s' = listeners s" and "\<And>q. m_listeners (logs s' q) = m_listeners (logs s q)"
    and "delivered s' = delivered s" and "\<And>q. pending s' q = pending s q" and "listening key s" and "finite {p. pending s p \<noteq> []}"
  shows "settles key s [] s'"
  using assms by (intro settlesI) (simp_all add: listening_def got_same[OF assms(3)])

lemma log_step_settles:
  assumes "log_step key s owed s'" and on: "listening key s" and fin: "finite {p. pending s p \<noteq> []}"
  shows "settles key s owed s'"
  using assms(1)
proof cases
  case (dispatch p)
  have "listening key s'" using on dispatch by (auto simp: listening_def DispatchPending_def log_upd_def Let_def)
  moreover have "pending s' q = (if q = p then [] else pending s q)" for q
    using dispatch by (simp add: DispatchPending_pending)
  ultimately show ?thesis
    using dispatch_got[OF on, of p] waiting_changes [OF fin, of p s'] dispatch by (simp add: settles_def pending_def ac_simps)
next
  case (wrote now elapsed wall p lv tg body)
  have "listening key s'" "got key s' = got key s" using on wrote by (simp_all add: listening_def Write_frame got_def)
  then show ?thesis using waiting_changes [OF fin, of p s'] wrote by (auto simp: settles_def Write_owes)
next
  case (register k format hist)
  let ?l = "\<lparr>l_key = k, l_format = format\<rparr>"
  obtain ms where "delivered s' = delivered s @ map (hand_over ?l) ms"
    using register(2) by (simp add: register_under_lock_def Let_def)
  then have "got key s' = got key s" by (rule got_other) (simp add: register(3))
  then show ?thesis using on fin register
    by (simp, intro settlesI) (simp_all add: listening_def register_under_lock_def pending_def Let_def)
next
  case (unregister k)
  have "filter (\<lambda>l. l_key l \<noteq> k \<and> l_key l = key) (listeners s) = filter (\<lambda>l. l_key l = key) (listeners s)"
    using unregister by (intro filter_cong) auto
  then show ?thesis using on fin unregister
    by (simp, intro settlesI) (simp_all add: listening_def UnregisterListener_def remove_key_def got_def pending_def)
next
  case (flush k p)
  show ?thesis
  proof (cases "List.find (\<lambda>l. l_key l = k) (m_listeners (logs s p))")
    case (Some l)
    then have "l_key l \<noteq> key" using flush by (auto dest: find_Some_set)
    then have "got key s' = got key s"
      using flush Some by (intro got_other[of s' s l "m_history (logs s p)"]) (simp_all add: FlushTo_def)
    then show ?thesis using on fin flush Some by (simp, intro settlesI) (simp_all add: listening_def FlushTo_def pending_def)
  next
    case None
    then show ?thesis using on fin flush by (simp, intro settlesI) (simp_all add: FlushTo_def)
  qed
next
  case (level hash name lv)
  then show ?thesis using on fin
    by (simp, intro settles_same) (auto simp: SetLogLevel_def log_upd_def SetLevelMask_def pending_def split: option.splits)
next
  case (all_levels lv)
  then show ?thesis using on fin by (simp, intro settles_same) (simp_all add: set_all_frame)
next
  case (start hash config opened mode)
  then show ?thesis using on fin by (simp, intro settles_same) (simp_all add: Initialize_frame)
next
  case stop
  then show ?thesis using on fin by (simp, intro settles_same) (simp_all add: Log_Terminate_def pending_def)
next
  case (drop_log p)
  then show ?thesis using on fin by (simp, intro settles_same) (simp_all add: CLog_dtor_def pending_def)
next
  case (targets tg)
  then show ?thesis using on fin by (simp, intro settles_same) (simp_all add: SetEnabledTargets_def pending_def)
next
  case (new_log p hash name color)
  then show ?thesis using on fin by (simp, intro settlesI) (auto simp: listening_def CLog_ctor_def Let_def got_def pending_def)
next
  case (log_register k p format)
  then show ?thesis using on fin
    by (simp, intro settlesI) (auto simp: listening_def CLog_RegisterListener_def log_upd_def got_def pending_def)
next
  case (log_unregister p k)
  then show ?thesis using on fin
    by (simp, intro settlesI) (auto simp: listening_def CLog_UnregisterListener_def log_upd_def remove_key_def got_def pending_def)
qed

lemma log_run_settles: "log_run key s owed s' \<Longrightarrow> listening key s \<Longrightarrow> finite {p. pending s p \<noteq> []} \<Longrightarrow> settles key s owed s'"
proof (induction rule: log_run.induct)
  case (again owed s1 new s2)
  then have "settles key s owed s1" by blast
  then show ?case using log_step_settles [OF again(2)] by (auto simp: settles_def ac_simps)
qed (simp add: settles_def)


definition log_start :: log_state where
  "log_start = \<lparr>loggers = [], logs = (\<lambda>_. \<lparr>m_id = 0, m_name = [], m_color = (255, 255, 255), m_levelMask = Level_All, m_listeners = [],
       m_pendingDispatch = [], m_history = []\<rparr>), listeners = [], fileOpen = False, fileFail = False, fileText = [], terminalText = [],
     m_initialized = False, m_timestampMode = Elapsed, m_enabledTargets = Target_All, delivered = []\<rparr>"

text \<open>One channel, one message written and dispatched before the listener registers.\<close>

definition log_demo :: log_state where
  "log_demo = DispatchPending 1 (Write 5 5 [] 1 Level_Info Target_Listeners ''hello''
     (Log_Initialize (\<lambda>_. 7) None None Elapsed (CLog_ctor (\<lambda>_. 7) 1 ''net'' (255, 255, 255) log_start)))"

lemma log_demo_facts: "unused 3 log_demo" "got 3 log_demo = {#}" "map (\<lambda>m. message m) (m_history (logs log_demo 1)) = [''hello'']"
  "loggers log_demo = [(7, 1)]"
  by (simp_all add: log_demo_def unused_def got_def log_start_def CLog_ctor_def Register_def IsReservedChannelName_def Log_Initialize_def
      LoadConfig_def Write_def DispatchPending_def log_upd_def find_logger_def Level_Info_def Level_All_def Level_Error_def Level_Warning_def
      Level_None_def Target_Listeners_def Target_All_def Target_Terminal_def Target_File_def MaxMessages_def Let_def)

lemma log_demo_more: "pending log_demo q = []" "m_initialized log_demo" "m_levelMask (logs log_demo 1) = Level_All" "m_enabledTargets log_demo = Target_All"
  by (simp_all add: log_demo_def log_start_def CLog_ctor_def Register_def IsReservedChannelName_def Log_Initialize_def pending_def WriteToTerminal_def WriteToFile_def
      LoadConfig_def Write_def DispatchPending_def log_upd_def find_logger_def Let_def)

text \<open>Then it registers, a second message is written, and the channel is dispatched twice.\<close>

definition log_demo_end :: log_state where
  "log_demo_end = DispatchPending 1 (DispatchPending 1 (Write 6 6 [] 1 Level_Error Target_All ''again'' (register_under_lock 3 Raw Flush log_demo)))"


subsection \<open>Levels from the configuration file\<close>

definition channels_ok :: "log_state \<Rightarrow> bool" where
  "channels_ok s \<longleftrightarrow> distinct (map fst (loggers s)) \<and> distinct (map snd (loggers s))"

definition mask :: "log_state \<Rightarrow> nat \<Rightarrow> ELogLevel" where
  "mask s p = m_levelMask (logs s p)"

lemma set_masks:
  "mask (fold (\<lambda>(_, p). log_upd p (SetLevelMask level)) ls s) p = (if p \<in> snd ` set ls then level else mask s p)
   \<and> loggers (fold (\<lambda>(_, p). log_upd p (SetLevelMask level)) ls s) = loggers s"
  by (induction ls arbitrary: s) (auto simp: mask_def log_upd_def SetLevelMask_def)

lemma overrides_masks:
  assumes "channels_ok s" and "(i, p) \<in> set (loggers s)"
  shows "mask (fold (apply_override hash) os s) p =
      (case filter (\<lambda>(name, _). hash name = i) os of [] \<Rightarrow> mask s p | xs \<Rightarrow> snd (last xs))
    \<and> loggers (fold (apply_override hash) os s) = loggers s"
  using assms
proof (induction os arbitrary: s rule: rev_induct)
  case (snoc ov os)
  let ?s = "fold (apply_override hash) os s"
  have l: "loggers ?s = loggers s" using snoc by blast
  obtain name level where o: "ov = (name, level)" by (cases ov)
  have keep: "loggers (apply_override hash ov ?s) = loggers s"
    using l by (auto simp: apply_override_def log_upd_def split: option.splits)
  have "mask (apply_override hash ov ?s) p = (if hash name = i then level else mask ?s p)"
  proof (cases "hash name = i")
    case True
    then have "find_logger (hash name) ?s = Some p"
      using snoc.prems l by (simp add: find_logger_def channels_ok_def)
    then show ?thesis using True o by (simp add: apply_override_def log_upd_def mask_def SetLevelMask_def)
  next
    case False
    have "q \<noteq> p" if "find_logger (hash name) ?s = Some q" for q
    proof -
      have "(hash name, q) \<in> set (loggers s)" using that l by (auto simp: find_logger_def dest: map_of_SomeD)
      moreover have "inj_on snd (set (loggers s))" using snoc.prems(1) by (simp add: channels_ok_def distinct_map)
      ultimately show ?thesis using False inj_onD[of snd "set (loggers s)" "(hash name, q)" "(i, p)"] snoc.prems(2) by auto
    qed
    then show ?thesis using False o by (auto simp: apply_override_def log_upd_def mask_def split: option.splits)
  qed
  then have m: "mask (fold (apply_override hash) (os @ [ov]) s) p = (if hash name = i then level else mask ?s p)" by simp
  show ?case
  proof (cases "hash name = i")
    case True
    then show ?thesis using m keep o by (cases "filter (\<lambda>(n, _). hash n = i) os") simp_all
  next
    case False
    then show ?thesis using m keep o snoc.IH[OF snoc.prems] by simp
  qed
qed simp

text \<open>Loading the configuration gives every registered channel the level of the last valid line that names it, or else the last valid
  default, or else the level it had; a file that cannot be opened changes nothing, and the order of a default and the lines of
  channels does not matter.
\<close>

theorem LoadConfig_levels:
  assumes "channels_ok s" and "(i, p) \<in> set (loggers s)"
  shows "mask (LoadConfig hash (Some fileLines) s) p =
      (let cfg = read_config fileLines
       in case filter (\<lambda>(name, _). hash name = i) (channelOverrides cfg) of
            [] \<Rightarrow> if hasDefault cfg then defaultLevel cfg else mask s p
          | xs \<Rightarrow> snd (last xs))
    \<and> LoadConfig hash None s = s"
proof -
  let ?cfg = "read_config fileLines"
  let ?s = "if hasDefault ?cfg then SetAllLogLevels (defaultLevel ?cfg) s else s"
  have p: "p \<in> snd ` set (loggers s)" using assms(2) by force
  have m: "mask ?s p = (if hasDefault ?cfg then defaultLevel ?cfg else mask s p)" and l: "loggers ?s = loggers s"
    using set_masks[of "defaultLevel ?cfg" "loggers s" s p] p by (auto simp: SetAllLogLevels_def)
  have "channels_ok ?s" "(i, p) \<in> set (loggers ?s)" using assms l by (simp_all add: channels_ok_def)
  from overrides_masks[OF this, of hash "channelOverrides ?cfg"] m show ?thesis
    by (auto simp: LoadConfig_def Let_def split: list.splits)
qed

theorem LoadConfig_levels_witness:
  "mask (LoadConfig (\<lambda>_. 7) (Some [''# levels'', ''default = e'', ''net = wi'']) log_demo) 1 = Level_Warning OR Level_Info"
proof -
  have c: "channels_ok log_demo" "(7, 1) \<in> set (loggers log_demo)" using log_demo_facts(4) by (simp_all add: channels_ok_def)
  have "read_config [''# levels'', ''default = e'', ''net = wi''] =
      \<lparr>defaultLevel = Level_Error, hasDefault = True, channelOverrides = [(''net'', Level_Warning OR Level_Info)]\<rparr>"
    by (simp add: read_config_def config_line_def Trim_def Let_def is_trimmed_def ParseLogLevel_def level_char_def level_defs numeral_nat)
  then show ?thesis using LoadConfig_levels[OF c, of "\<lambda>_. 7" "[''# levels'', ''default = e'', ''net = wi'']"] by simp
qed

subsection \<open>A second start\<close>

text \<open>\<open>Terminate\<close> forgets every channel and nothing registers them again: after a second \<open>Initialize\<close>, whatever it is given, no channel can be
  found by name, none is listed, and a dispatch reaches none, so that what the channels write waits in their queues.
\<close>

theorem second_start_has_no_channels:
  "SetLogLevel hash name level (Log_Initialize hash config opened mode (Log_Terminate s))
     = (False, Log_Initialize hash config opened mode (Log_Terminate s))
   \<and> GetChannelNames (Log_Initialize hash config opened mode (Log_Terminate s)) = []
   \<and> DispatchListeners (Write now elapsed wall p lv tg body (Log_Initialize hash config opened mode (Log_Terminate s)))
     = Write now elapsed wall p lv tg body (Log_Initialize hash config opened mode (Log_Terminate s))"
proof -
  have "loggers (fold (apply_override hash) os s) = []" if "loggers s = []" for os s
    using that by (induction os arbitrary: s) (auto simp: apply_override_def find_logger_def)
  then have none: "loggers (Log_Initialize hash config opened mode (Log_Terminate s)) = []"
    by (auto simp: Log_Initialize_def Log_Terminate_def LoadConfig_def SetAllLogLevels_def open_file_def Let_def split: option.splits)
  moreover have "loggers (Write now elapsed wall p lv tg body s) = loggers s" for s
    by (simp add: Write_def write_pre_init_def WriteToTerminal_def WriteToFile_def log_upd_def Let_def)
  ultimately show ?thesis by (simp add: SetLogLevel_def find_logger_def GetChannelNames_def DispatchListeners_def)
qed

end
