(* ===== verification/Log_Console.thy ===== *)
theory Log_Console
  imports Prelude
begin

section \<open>The console that the log borrows\<close>

text \<open>
  Models \<open>PrepareConsole\<close> and \<open>RestoreConsole\<close> of \<^verbatim>\<open>private/logging/log_system.cpp\<close>.  A console has an output code page and each of
  the two standard handles either belongs to a console with a mode or does not.  Both handles are usually the same
  console, so the modes belong to consoles and \<open>console_of\<close> says which one a handle is, if any.  The calls that set
  something are taken to succeed.
\<close>

record console =
  codePage :: u32
  modes :: "nat \<Rightarrow> u32"
  gSavedCodePage :: u32
  gSavedModes :: "u32 option list"

definition NumConsoleOutputs :: nat where
  "NumConsoleOutputs = 2"

definition CP_UTF8 :: u32 where
  "CP_UTF8 = 65001"

definition ENABLE_VIRTUAL_TERMINAL_PROCESSING :: u32 where
  "ENABLE_VIRTUAL_TERMINAL_PROCESSING = 4"

definition save_mode :: "(nat \<Rightarrow> nat option) \<Rightarrow> nat \<Rightarrow> console \<Rightarrow> console" where
  "save_mode console_of i s =
     (case (gSavedModes s ! i, console_of i) of
        (None, Some c) \<Rightarrow> s\<lparr>gSavedModes := (gSavedModes s)[i := Some (modes s c)]\<rparr>
      | _ \<Rightarrow> s)"

definition set_mode :: "(nat \<Rightarrow> nat option) \<Rightarrow> (u32 \<Rightarrow> u32) \<Rightarrow> nat \<Rightarrow> console \<Rightarrow> console" where
  "set_mode console_of f i s =
     (case gSavedModes s ! i of
        None \<Rightarrow> s
      | Some m \<Rightarrow> (case console_of i of None \<Rightarrow> s | Some c \<Rightarrow> s\<lparr>modes := (modes s)(c := f m)\<rparr>))"

definition forget_mode :: "nat \<Rightarrow> console \<Rightarrow> console" where
  "forget_mode i s = s\<lparr>gSavedModes := (gSavedModes s)[i := None]\<rparr>"

definition PrepareConsole :: "(nat \<Rightarrow> nat option) \<Rightarrow> console \<Rightarrow> console" where
  "PrepareConsole console_of s =
     (let s1 = (if gSavedCodePage s = 0 then s\<lparr>gSavedCodePage := codePage s\<rparr> else s);
          s2 = fold (save_mode console_of) [0..<NumConsoleOutputs] s1;
          s3 = (if gSavedCodePage s2 \<noteq> 0 then s2\<lparr>codePage := CP_UTF8\<rparr> else s2)
      in fold (set_mode console_of (\<lambda>m. m OR ENABLE_VIRTUAL_TERMINAL_PROCESSING)) [0..<NumConsoleOutputs] s3)"

definition RestoreConsole :: "(nat \<Rightarrow> nat option) \<Rightarrow> console \<Rightarrow> console" where
  "RestoreConsole console_of s =
     (let s1 = (if gSavedCodePage s \<noteq> 0 then s\<lparr>codePage := gSavedCodePage s, gSavedCodePage := 0\<rparr> else s)
      in fold (\<lambda>i s. forget_mode i (set_mode console_of (\<lambda>m. m) i s)) [0..<NumConsoleOutputs] s1)"

text \<open>Nothing is saved before the first \<open>Initialize\<close> and after every \<open>Terminate\<close>.\<close>

definition nothing_saved :: "console \<Rightarrow> bool" where
  "nothing_saved s \<longleftrightarrow> gSavedCodePage s = 0 \<and> gSavedModes s = [None, None]"

definition borrowed :: "(nat \<Rightarrow> nat option) \<Rightarrow> console \<Rightarrow> console \<Rightarrow> bool" where
  "borrowed console_of s0 s \<longleftrightarrow>
     gSavedCodePage s = codePage s0 \<and> (codePage s0 = 0 \<longrightarrow> codePage s = 0)
     \<and> gSavedModes s = [map_option (modes s0) (console_of 0), map_option (modes s0) (console_of 1)]
     \<and> (\<forall>c. console_of 0 \<noteq> Some c \<and> console_of 1 \<noteq> Some c \<longrightarrow> modes s c = modes s0 c)"

lemma two_outputs [simp]: "[0..<NumConsoleOutputs] = [0, 1]"
  by (simp add: NumConsoleOutputs_def upt_rec)

lemma prepare_borrowed:
  assumes "nothing_saved s0"
  shows "borrowed console_of s0 (PrepareConsole console_of s0)"
  using assms
  by (cases "console_of 0"; cases "console_of 1")
    (auto simp: borrowed_def nothing_saved_def PrepareConsole_def save_mode_def set_mode_def Let_def)

lemma prepare_again:
  assumes "borrowed console_of s0 s"
  shows "borrowed console_of s0 (PrepareConsole console_of s)"
  using assms
  by (cases "console_of 0"; cases "console_of 1")
    (auto simp: borrowed_def PrepareConsole_def save_mode_def set_mode_def Let_def)

lemma prepare_many: "borrowed console_of s0 s \<Longrightarrow> borrowed console_of s0 ((PrepareConsole console_of ^^ n) s)"
  by (induction n) (simp_all add: prepare_again)

lemma restore_borrowed:
  assumes "borrowed console_of s0 s" and "nothing_saved s0"
  shows "RestoreConsole console_of s = s0"
proof -
  let ?r = "RestoreConsole console_of s"
  have "codePage ?r = codePage s0" "gSavedCodePage ?r = gSavedCodePage s0" "gSavedModes ?r = gSavedModes s0"
    using assms by (cases "console_of 0"; cases "console_of 1";
        auto simp: borrowed_def nothing_saved_def RestoreConsole_def set_mode_def forget_mode_def Let_def)+
  moreover have "modes ?r = modes s0"
  proof
    fix c
    show "modes ?r c = modes s0 c"
      using assms by (cases "console_of 0"; cases "console_of 1")
        (auto simp: borrowed_def RestoreConsole_def set_mode_def forget_mode_def Let_def)
  qed
  ultimately show ?thesis by simp
qed

text \<open>The console is given back as it was found: however often \<open>Initialize\<close> prepares it, and whether the two standard handles are
  one console, two or none, \<open>RestoreConsole\<close> leaves the code page and the modes that were there before the first.
\<close>

theorem console_given_back:
  assumes "nothing_saved s"
  shows "RestoreConsole console_of ((PrepareConsole console_of ^^ Suc n) s) = s"
proof -
  have "borrowed console_of s ((PrepareConsole console_of ^^ n) (PrepareConsole console_of s))"
    by (rule prepare_many[OF prepare_borrowed[OF assms]])
  then have "borrowed console_of s ((PrepareConsole console_of ^^ Suc n) s)" by (simp add: funpow_swap1)
  then show ?thesis using assms by (rule restore_borrowed)
qed

theorem console_given_back_witness:
  "RestoreConsole (\<lambda>_. Some 0) ((PrepareConsole (\<lambda>_. Some 0) ^^ Suc 1)
     \<lparr>codePage = 437, modes = (\<lambda>_. 3), gSavedCodePage = 0, gSavedModes = [None, None]\<rparr>)
   = \<lparr>codePage = 437, modes = (\<lambda>_. 3), gSavedCodePage = 0, gSavedModes = [None, None]\<rparr>"
  by (rule console_given_back) (simp add: nothing_saved_def)

end
