(* ===== verification/Os_Errors.thy ===== *)
theory Os_Errors
  imports Prelude
begin

section \<open>Error codes of the operating system\<close>

text \<open>
  What the components that call the operating system share: \<open>std::error_code\<close> as a category and a value, the codes the
  sources make themselves, and \<open>std::expected\<close> as a sum with the error on the left.  What a call of the system answers is an
  argument of the definitions, so that they follow every branch of the sources for every answer.
\<close>

datatype category = system_category | generic_category | lookup_category | user_folder_category

datatype error_code = Error_Code category int

definition no_error :: error_code where
  "no_error = Error_Code system_category 0"

definition GetLastSystemError :: "int \<Rightarrow> error_code" where
  "GetLastSystemError e = Error_Code system_category e"

definition make_error_code :: "int \<Rightarrow> error_code" where
  "make_error_code e = Error_Code generic_category e"

text \<open>The values of \<open>std::errc\<close> that the sources use.\<close>

definition no_such_file_or_directory :: int where "no_such_file_or_directory = 2"
definition io_error :: int where "io_error = 5"
definition executable_format_error :: int where "executable_format_error = 8"
definition operation_would_block :: int where "operation_would_block = 11"
definition file_exists :: int where "file_exists = 17"
definition not_a_directory :: int where "not_a_directory = 20"
definition is_a_directory :: int where "is_a_directory = 21"
definition invalid_argument :: int where "invalid_argument = 22"
definition file_too_large :: int where "file_too_large = 27"
definition message_size :: int where "message_size = 90"
definition not_supported :: int where "not_supported = 95"
definition connection_reset :: int where "connection_reset = 104"
definition not_connected :: int where "not_connected = 107"
definition connection_refused :: int where "connection_refused = 111"
definition operation_canceled :: int where "operation_canceled = 125"
definition EINTR :: int where "EINTR = 4"

lemmas errc_defs = no_such_file_or_directory_def io_error_def executable_format_error_def operation_would_block_def file_exists_def
  not_a_directory_def is_a_directory_def invalid_argument_def file_too_large_def message_size_def not_supported_def
  connection_reset_def not_connected_def connection_refused_def operation_canceled_def EINTR_def

text \<open>
  \<open>error == std::errc::c\<close>: the category says which portable condition a value stands for.  A generic value stands for itself; what the
  values of the system stand for is \<open>cond\<close>, which the C++ library of each platform provides.
\<close>

definition has_condition :: "(int \<Rightarrow> int) \<Rightarrow> error_code \<Rightarrow> int \<Rightarrow> bool" where
  "has_condition cond e c =
     (case e of
        Error_Code generic_category v \<Rightarrow> v = c
      | Error_Code system_category v \<Rightarrow> cond v = c
      | _ \<Rightarrow> False)"

text \<open>\<open>(error == std::error_code{}) ? std::expected<void>{} : std::unexpected{ error }\<close>.\<close>

definition expected_of :: "error_code \<Rightarrow> error_code + unit" where
  "expected_of e = (if e = no_error then Inr () else Inl e)"

lemma generic_is_error [simp]: "make_error_code c \<noteq> no_error"
  by (simp add: make_error_code_def no_error_def)

lemma system_is_error [simp]: "GetLastSystemError e = no_error \<longleftrightarrow> e = 0"
  by (simp add: GetLastSystemError_def no_error_def)

lemma expected_ok [simp]: "expected_of e = Inr () \<longleftrightarrow> e = no_error"
  by (simp add: expected_of_def)

end
