(* ===== verification/File_Write.thy ===== *)
theory File_Write
  imports Os_Errors
begin

section \<open>Replacing a file atomically\<close>

text \<open>
  Models \<^verbatim>\<open>private/io/write_file_atomically.cpp\<close> for both platforms.  A disk maps paths to files, and \<open>seen\<close> records what it
  was after each call that changed it.  Whoever reads meanwhile sees one of those states.  What is written goes to a cache first: a file is
  \<open>flushed\<close> when all of its content has been forced to the disk since the last write to it.  Whoever finds the disk after a crash sees one of
  the states, the last or an earlier one, with the content of a file that was not flushed in it replaced by anything (\<open>survives\<close>).  What the calls of the system answer comes in a record of answers per platform; the answers to the loop that writes
  are a list, and a run that uses them all up has not returned (\<open>None\<close>).
\<close>

type_synonym path = string

record stored_file =
  content :: string
  perms :: u32
  flushed :: bool

type_synonym files = "path \<Rightarrow> stored_file option"

record disk =
  files :: files
  seen :: "files list"

definition change :: "files \<Rightarrow> disk \<Rightarrow> disk" where
  "change f d = d\<lparr>files := f, seen := seen d @ [f]\<rparr>"

definition append_to :: "path \<Rightarrow> string \<Rightarrow> disk \<Rightarrow> disk" where
  "append_to p bytes d =
     (case files d p of
        None \<Rightarrow> d
      | Some f \<Rightarrow> change ((files d)(p \<mapsto> f\<lparr>content := content f @ bytes, flushed := False\<rparr>)) d)"

text \<open>\<open>fsync\<close> and \<open>FlushFileBuffers\<close>, when they succeed.\<close>

definition flush_file :: "path \<Rightarrow> disk \<Rightarrow> disk" where
  "flush_file p d =
     (case files d p of
        None \<Rightarrow> d
      | Some f \<Rightarrow> change ((files d)(p \<mapsto> f\<lparr>flushed := True\<rparr>)) d)"

definition rename_over :: "path \<Rightarrow> path \<Rightarrow> disk \<Rightarrow> disk" where
  "rename_over tmp target d = change ((files d)(target := files d tmp, tmp := None)) d"

definition remove_file :: "path \<Rightarrow> disk \<Rightarrow> disk" where
  "remove_file p d = change ((files d)(p := None)) d"

text \<open>What a crash can make of a state.\<close>

definition survives :: "files \<Rightarrow> files \<Rightarrow> bool" where
  "survives f g \<longleftrightarrow>
     (\<forall>q. case f q of None \<Rightarrow> g q = None | Some x \<Rightarrow> (\<exists>c. g q = Some (x\<lparr>content := c\<rparr>) \<and> (flushed x \<longrightarrow> c = content x)))"

definition ResolveLink :: "(path \<Rightarrow> path option) \<Rightarrow> path \<Rightarrow> path" where
  "ResolveLink canonical p = (case canonical p of Some target \<Rightarrow> target | None \<Rightarrow> p)"

subsection \<open>Linux\<close>

text \<open>An answer of \<open>write\<close>: a count, or the error it fails with.\<close>

datatype count = Count nat | Errno int

record linux_answers =
  a_mkostemp :: "int + string"
  a_fchmod :: "int option"
  a_writes :: "count list"
  a_fsync :: "int option"
  a_close :: "int option"
  a_rename :: "int option"
  a_removed :: bool

definition NewFileMode :: u32 where "NewFileMode = 0x1A4"
definition PermissionBits :: u32 where "PermissionBits = 0xFFF"

definition failure :: "int option \<Rightarrow> error_code" where
  "failure a = (case a of None \<Rightarrow> no_error | Some e \<Rightarrow> GetLastSystemError e)"

fun linux_WriteAll :: "count list \<Rightarrow> path \<Rightarrow> string \<Rightarrow> nat \<Rightarrow> disk \<Rightarrow> (error_code \<times> disk) option" where
  "linux_WriteAll answers tmp text numWritten d =
     (if numWritten < length text
      then (case answers of
              [] \<Rightarrow> None
            | Count n # rest \<Rightarrow>
                if 0 < n then linux_WriteAll rest tmp text (numWritten + n) (append_to tmp (take n (drop numWritten text)) d)
                else Some (make_error_code io_error, d)
            | Errno e # rest \<Rightarrow>
                if e \<noteq> EINTR then Some (GetLastSystemError e, d) else linux_WriteAll rest tmp text numWritten d)
      else Some (no_error, d))"

declare linux_WriteAll.simps [simp del]

definition GetFileMode :: "path \<Rightarrow> disk \<Rightarrow> u32" where
  "GetFileMode p d = (case files d p of Some f \<Rightarrow> perms f AND PermissionBits | None \<Rightarrow> NewFileMode)"

text \<open>\<open>mkostemp\<close> makes the file with mode 0600; the suffix it fills in is the answer.\<close>

definition linux_fill :: "linux_answers \<Rightarrow> path \<Rightarrow> path \<Rightarrow> string \<Rightarrow> disk \<Rightarrow> (error_code \<times> disk) option" where
  "linux_fill a tmp target text d =
     (case a_fchmod a of
        Some e \<Rightarrow> Some (GetLastSystemError e, d)
      | None \<Rightarrow>
          (let mode = GetFileMode target d;
               d1 = change ((files d)(tmp := map_option (\<lambda>f. f\<lparr>perms := mode\<rparr>) (files d tmp))) d
           in case linux_WriteAll (a_writes a) tmp text 0 d1 of
                None \<Rightarrow> None
              | Some (error, d2) \<Rightarrow> 
                  Some (if error = no_error
                        then (failure (a_fsync a), if a_fsync a = None then flush_file tmp d2 else d2)
                        else (error, d2))))"

definition linux_settle :: "linux_answers \<Rightarrow> path \<Rightarrow> path \<Rightarrow> error_code \<Rightarrow> disk \<Rightarrow> error_code \<times> disk" where
  "linux_settle a tmp target error d =
     (let error1 = (if error = no_error then failure (a_close a) else error);
          (error2, d1) = (if error1 = no_error
                          then (case a_rename a of None \<Rightarrow> (no_error, rename_over tmp target d)
                                | Some e \<Rightarrow> (GetLastSystemError e, d))
                          else (error1, d));
          d2 = (if error2 \<noteq> no_error \<and> a_removed a then remove_file tmp d1 else d1)
      in (error2, d2))"

definition linux_WriteFileAtomically ::
    "(path \<Rightarrow> path option) \<Rightarrow> linux_answers \<Rightarrow> path \<Rightarrow> string \<Rightarrow> disk \<Rightarrow> (error_code \<times> disk) option" where
  "linux_WriteFileAtomically canonical a p text d =
     (let target = ResolveLink canonical p
      in case a_mkostemp a of
           Inl e \<Rightarrow> Some (GetLastSystemError e, d)
         | Inr suffix \<Rightarrow>
             (let tmp = target @ ''.'' @ suffix;
                  d1 = change ((files d)(tmp \<mapsto> \<lparr>content = [], perms = 0x180, flushed = False\<rparr>)) d
              in case linux_fill a tmp target text d1 of
                   None \<Rightarrow> None
                 | Some (error, d2) \<Rightarrow> Some (linux_settle a tmp target error d2)))"

subsection \<open>Windows\<close>

record windows_answers =
  w_creates :: "(string \<times> int option) list"
  w_writes :: "count list"
  w_flush :: "int option"
  w_renameEx :: "int option"
  w_rename :: "int option"
  w_deleteEx :: bool
  w_delete :: bool

definition NumTemporaryNameTries :: nat where
  "NumTemporaryNameTries = 100"

text \<open>
  Each try has the six characters it draws and what \<open>CreateFileW\<close> answers; \<open>cond\<close> says which codes stand for \<open>file_exists\<close>.  The result is
  the name of the file that was made, if any, and the error.
\<close>

fun CreateTemporaryFile ::
    "(int \<Rightarrow> int) \<Rightarrow> (string \<times> int option) list \<Rightarrow> path \<Rightarrow> nat \<Rightarrow> error_code \<Rightarrow> (path option \<times> error_code) option" where
  "CreateTemporaryFile cond tries target numTries error =
     (if has_condition cond error file_exists \<and> numTries < NumTemporaryNameTries
      then (case tries of
              [] \<Rightarrow> None
            | (drawn, a) # rest \<Rightarrow>
                (case a of
                   None \<Rightarrow> Some (Some (target @ ''.'' @ drawn), no_error)
                 | Some e \<Rightarrow> CreateTemporaryFile cond rest target (numTries + 1) (GetLastSystemError e)))
      else Some (None, error))"

declare CreateTemporaryFile.simps [simp del]

fun windows_WriteAll :: "count list \<Rightarrow> path \<Rightarrow> string \<Rightarrow> nat \<Rightarrow> disk \<Rightarrow> (error_code \<times> disk) option" where
  "windows_WriteAll answers tmp text numWritten d =
     (if numWritten < length text
      then (case answers of
              [] \<Rightarrow> None
            | Errno e # rest \<Rightarrow> Some (GetLastSystemError e, d)
            | Count n # rest \<Rightarrow>
                if n = 0 then Some (make_error_code io_error, d)
                else windows_WriteAll rest tmp text (numWritten + n) (append_to tmp (take n (drop numWritten text)) d))
      else Some (no_error, d))"

declare windows_WriteAll.simps [simp del]

definition ERROR_INVALID_FUNCTION :: int where "ERROR_INVALID_FUNCTION = 1"
definition ERROR_NOT_SUPPORTED :: int where "ERROR_NOT_SUPPORTED = 50"
definition ERROR_INVALID_PARAMETER :: int where "ERROR_INVALID_PARAMETER = 87"

definition RenameOver :: "windows_answers \<Rightarrow> path \<Rightarrow> path \<Rightarrow> disk \<Rightarrow> error_code \<times> disk" where
  "RenameOver a tmp target d =
     (case w_renameEx a of
        None \<Rightarrow> (no_error, rename_over tmp target d)
      | Some exError \<Rightarrow>
          if exError = ERROR_INVALID_PARAMETER \<or> exError = ERROR_NOT_SUPPORTED \<or> exError = ERROR_INVALID_FUNCTION
          then (case w_rename a of None \<Rightarrow> (no_error, rename_over tmp target d) | Some e \<Rightarrow> (GetLastSystemError e, d))
          else (GetLastSystemError exError, d))"

definition DeleteOpenFile :: "windows_answers \<Rightarrow> path \<Rightarrow> disk \<Rightarrow> disk" where
  "DeleteOpenFile a tmp d = (if w_deleteEx a then remove_file tmp d else if w_delete a then remove_file tmp d else d)"

definition windows_settle :: "windows_answers \<Rightarrow> path \<Rightarrow> path \<Rightarrow> error_code \<Rightarrow> disk \<Rightarrow> error_code \<times> disk" where
  "windows_settle a tmp target error d =
     (let (error1, d0) = (if error = no_error
                          then (failure (w_flush a), if w_flush a = None then flush_file tmp d else d)
                          else (error, d));
          (error2, d1) = (if error1 = no_error then RenameOver a tmp target d0 else (error1, d0));
          d2 = (if error2 \<noteq> no_error then DeleteOpenFile a tmp d1 else d1)
      in (error2, d2))"

definition windows_WriteFileAtomically ::
    "(path \<Rightarrow> path option) \<Rightarrow> (path \<Rightarrow> int + path) \<Rightarrow> (int \<Rightarrow> int) \<Rightarrow> windows_answers \<Rightarrow> path \<Rightarrow> string \<Rightarrow> disk \<Rightarrow> (error_code \<times> disk) option" where
  "windows_WriteFileAtomically canonical absolute cond a p text d =
     (case absolute (ResolveLink canonical p) of
        Inl e \<Rightarrow> Some (GetLastSystemError e, d)
      | Inr target \<Rightarrow>
          (case CreateTemporaryFile cond (w_creates a) target 0 (make_error_code file_exists) of
             None \<Rightarrow> None
           | Some (None, error) \<Rightarrow> Some (error, d)
           | Some (Some tmp, error) \<Rightarrow>
               (let d1 = change ((files d)(tmp \<mapsto> \<lparr>content = [], perms = 0, flushed = False\<rparr>)) d
                in case windows_WriteAll (w_writes a) tmp text 0 d1 of
                     None \<Rightarrow> None
                   | Some (error, d2) \<Rightarrow> Some (windows_settle a tmp target error d2))))"

subsection \<open>What both promise\<close>

text \<open>Only the temporary file changes: in the disk that is left and in every state on the way.\<close>

definition only_at :: "path \<Rightarrow> disk \<Rightarrow> disk \<Rightarrow> bool" where
  "only_at tmp d d' \<longleftrightarrow>
     (\<forall>q. q \<noteq> tmp \<longrightarrow> files d' q = files d q)
     \<and> (\<exists>new. seen d' = seen d @ new \<and> list_all (\<lambda>f. \<forall>q. q \<noteq> tmp \<longrightarrow> f q = files d q) new)"

lemma only_at_refl: "only_at tmp d d"
  by (simp add: only_at_def)

lemma only_at_trans: "only_at tmp d d' \<Longrightarrow> only_at tmp d' d'' \<Longrightarrow> only_at tmp d d''"
proof -
  assume a: "only_at tmp d d'" and b: "only_at tmp d' d''"
  obtain n1 where n1: "seen d' = seen d @ n1" "list_all (\<lambda>f. \<forall>q. q \<noteq> tmp \<longrightarrow> f q = files d q) n1" using a by (auto simp: only_at_def)
  obtain n2 where n2: "seen d'' = seen d' @ n2" "list_all (\<lambda>f. \<forall>q. q \<noteq> tmp \<longrightarrow> f q = files d' q) n2" using b by (auto simp: only_at_def)
  have "list_all (\<lambda>f. \<forall>q. q \<noteq> tmp \<longrightarrow> f q = files d q) n2" using n2(2) a by (simp add: only_at_def list_all_iff)
  then have "seen d'' = seen d @ (n1 @ n2) \<and> list_all (\<lambda>f. \<forall>q. q \<noteq> tmp \<longrightarrow> f q = files d q) (n1 @ n2)" using n1 n2 by simp
  moreover have "\<forall>q. q \<noteq> tmp \<longrightarrow> files d'' q = files d q" using a b by (simp add: only_at_def)
  ultimately show ?thesis unfolding only_at_def by blast
qed

lemma only_at_change: "(\<And>q. q \<noteq> tmp \<Longrightarrow> f q = files d q) \<Longrightarrow> only_at tmp d (change f d)"
  by (simp add: only_at_def change_def)

lemma only_at_append: "only_at tmp d (append_to tmp bytes d)"
  by (auto simp: append_to_def intro: only_at_refl only_at_change split: option.split)

lemma only_at_flush: "only_at tmp d (flush_file tmp d)"
  by (auto simp: flush_file_def intro: only_at_refl only_at_change split: option.split)

lemma append_to_content:
  "files d tmp = Some f \<Longrightarrow> files (append_to tmp bytes d) tmp = Some (f\<lparr>content := content f @ bytes, flushed := False\<rparr>)"
  by (simp add: append_to_def change_def)

lemma flush_file_content: "files d tmp = Some f \<Longrightarrow> files (flush_file tmp d) tmp = Some (f\<lparr>flushed := True\<rparr>)"
  by (simp add: flush_file_def change_def)

lemma take_more: "take (n + k) xs = take n xs @ take k (drop n xs)"
  by (simp add: take_add)

lemma linux_WriteAll_cases:
  "\<not> n < length body \<Longrightarrow> linux_WriteAll answers tmp body n d = Some (no_error, d)"
  "n < length body \<Longrightarrow> linux_WriteAll [] tmp body n d = None"
  "n < length body \<Longrightarrow> linux_WriteAll (Count k # rest) tmp body n d =
     (if 0 < k then linux_WriteAll rest tmp body (n + k) (append_to tmp (take k (drop n body)) d)
      else Some (make_error_code io_error, d))"
  "n < length body \<Longrightarrow> linux_WriteAll (Errno c # rest) tmp body n d =
     (if c \<noteq> EINTR then Some (GetLastSystemError c, d) else linux_WriteAll rest tmp body n d)"
  by (subst linux_WriteAll.simps, simp)+

lemma linux_WriteAll_spec:
  assumes "linux_WriteAll answers tmp body n d = Some (e, d')" and "files d tmp = Some (f\<lparr>content := take n body, flushed := False\<rparr>)"
    and "Errno 0 \<notin> set answers"
  shows "only_at tmp d d' \<and> (e = no_error \<longrightarrow> files d' tmp = Some (f\<lparr>content := body, flushed := False\<rparr>))"
  using assms
proof (induction answers arbitrary: n d)
  case Nil
  then show ?case by (cases "n < length body") (auto simp: linux_WriteAll_cases only_at_refl)
next
  case (Cons a rest)
  show ?case
  proof (cases "n < length body")
    case False
    then show ?thesis using Cons.prems by (simp add: linux_WriteAll_cases only_at_refl)
  next
    case more: True
    show ?thesis
    proof (cases a)
      case (Count k)
      let ?d = "append_to tmp (take k (drop n body)) d"
      have "files ?d tmp = Some (f\<lparr>content := take (n + k) body, flushed := False\<rparr>)"
        using append_to_content[OF Cons.prems(2), of "take k (drop n body)"] by (simp add: take_more)
      then show ?thesis
        using Cons.IH[of "n + k" ?d] Cons.prems(1,3) more Count only_at_trans[OF only_at_append[of tmp d]]
        by (cases "0 < k") (auto simp: linux_WriteAll_cases only_at_refl)
    next
      case (Errno c)
      then show ?thesis using Cons more by (cases "c = EINTR") (auto simp: linux_WriteAll_cases only_at_refl)
    qed
  qed
qed

text \<open>The loop ends once the system has answered often enough with something other than an interruption.\<close>

lemma linux_WriteAll_returns:
  "length body - n \<le> length (filter (\<lambda>a. a \<noteq> Errno EINTR) answers) \<Longrightarrow> \<exists>r. linux_WriteAll answers tmp body n d = Some r"
proof (induction answers arbitrary: n d)
  case (Cons a rest)
  show ?case
  proof (cases "n < length body")
    case more: True
    show ?thesis
    proof (cases a)
      case (Count k)
      then show ?thesis using Cons.IH[of "n + k"] Cons.prems more by (cases "0 < k") (simp_all add: linux_WriteAll_cases)
    next
      case (Errno c)
      then show ?thesis using Cons more by (cases "c = EINTR") (simp_all add: linux_WriteAll_cases)
    qed
  qed (simp add: linux_WriteAll_cases)
qed (simp add: linux_WriteAll_cases)

lemma windows_WriteAll_cases:
  "\<not> n < length body \<Longrightarrow> windows_WriteAll answers tmp body n d = Some (no_error, d)"
  "n < length body \<Longrightarrow> windows_WriteAll [] tmp body n d = None"
  "n < length body \<Longrightarrow> windows_WriteAll (Count k # rest) tmp body n d =
     (if k = 0 then Some (make_error_code io_error, d)
      else windows_WriteAll rest tmp body (n + k) (append_to tmp (take k (drop n body)) d))"
  "n < length body \<Longrightarrow> windows_WriteAll (Errno c # rest) tmp body n d = Some (GetLastSystemError c, d)"
  by (subst windows_WriteAll.simps, simp)+

lemma windows_WriteAll_spec:
  assumes "windows_WriteAll answers tmp body n d = Some (e, d')" and "files d tmp = Some (f\<lparr>content := take n body, flushed := False\<rparr>)"
    and "Errno 0 \<notin> set answers"
  shows "only_at tmp d d' \<and> (e = no_error \<longrightarrow> files d' tmp = Some (f\<lparr>content := body, flushed := False\<rparr>))"
  using assms
proof (induction answers arbitrary: n d)
  case Nil
  then show ?case by (cases "n < length body") (auto simp: windows_WriteAll_cases only_at_refl)
next
  case (Cons a rest)
  show ?case
  proof (cases "n < length body \<and> (\<exists>k. a = Count k)")
    case True
    then obtain k where k: "a = Count k" "n < length body" by blast
    let ?d = "append_to tmp (take k (drop n body)) d"
    have "files ?d tmp = Some (f\<lparr>content := take (n + k) body, flushed := False\<rparr>)"
      using append_to_content[OF Cons.prems(2), of "take k (drop n body)"] by (simp add: take_more)
    then show ?thesis
      using Cons.IH[of "n + k" ?d] Cons.prems(1,3) k only_at_trans[OF only_at_append[of tmp d]]
      by (cases "k = 0") (auto simp: windows_WriteAll_cases only_at_refl)
  next
    case False
    then show ?thesis using Cons.prems by (cases "n < length body"; cases a) (auto simp: windows_WriteAll_cases only_at_refl)
  qed
qed

lemma windows_WriteAll_returns: "length body - n \<le> length answers \<Longrightarrow> \<exists>r. windows_WriteAll answers tmp body n d = Some r"
proof (induction answers arbitrary: n d)
  case (Cons a rest)
  then show ?case
    using Cons.IH[of "n + k" for k] by (cases "n < length body"; cases a) (auto simp: windows_WriteAll_cases)
qed (simp add: windows_WriteAll_cases)

text \<open>
  What a call that ends with the error \<open>e\<close> has done to the file at \<open>target\<close>, given \<open>new\<close>, what it is to become: in every
  state but the last it is untouched, and no other file is touched but a temporary one that was not there before.  Without an
  error the last state has the new file and no temporary one; with one, the target is as before, and so is the whole disk if the
  temporary file could be removed.
\<close>

definition replaced_atomically :: "path \<Rightarrow> stored_file \<Rightarrow> bool \<Rightarrow> disk \<Rightarrow> error_code \<Rightarrow> disk \<Rightarrow> bool" where
  "replaced_atomically target new cleaned d e d' \<longleftrightarrow>
     e \<noteq> no_error \<and> d' = d
     \<or> (\<exists>tmp news. tmp \<noteq> target \<and> files d tmp = None \<and> seen d' = seen d @ news \<and> news \<noteq> []
          \<and> list_all (\<lambda>f. \<forall>q. q \<noteq> tmp \<and> q \<noteq> target \<longrightarrow> f q = files d q) news
          \<and> list_all (\<lambda>f. f target = files d target) (butlast news)
          \<and> last news target = (if e = no_error then Some new else files d target)
          \<and> (e = no_error \<longrightarrow> files d' = (files d)(target \<mapsto> new))
          \<and> (e \<noteq> no_error \<longrightarrow> files d' target = files d target \<and> (cleaned \<longrightarrow> files d' = files d)))"

lemma rename_atomic:
  assumes "only_at tmp d d2" and "files d tmp = None" and "tmp \<noteq> target" and "files d2 tmp = Some new"
  shows "replaced_atomically target new cleaned d no_error (rename_over tmp target d2)"
proof -
  obtain news where news: "seen d2 = seen d @ news" "list_all (\<lambda>f. \<forall>q. q \<noteq> tmp \<longrightarrow> f q = files d q) news"
    and same: "\<And>q. q \<noteq> tmp \<Longrightarrow> files d2 q = files d q"
    using assms(1) by (auto simp: only_at_def)
  let ?f = "(files d2)(target := files d2 tmp, tmp := None)"
  have f: "?f = (files d)(target \<mapsto> new)" using same assms(2,3,4) by (auto simp: fun_eq_iff)
  have "list_all (\<lambda>f. f target = files d target) news" "list_all (\<lambda>f. \<forall>q. q \<noteq> tmp \<and> q \<noteq> target \<longrightarrow> f q = files d q) news"
    using news(2) assms(3) by (auto simp: list_all_iff)
  moreover have "seen (rename_over tmp target d2) = seen d @ (news @ [?f])" "files (rename_over tmp target d2) = ?f"
    by (simp_all add: rename_over_def change_def news(1))
  ultimately show ?thesis
    unfolding replaced_atomically_def using assms(2,3) f
    by (intro disjI2 exI[of _ tmp] exI[of _ "news @ [?f]"]) simp
qed

lemma failed_atomic:
  assumes "only_at tmp d d2" and "files d tmp = None" and "tmp \<noteq> target" and "e \<noteq> no_error" and "seen d2 \<noteq> seen d"
  shows "replaced_atomically target new cleaned d e (if cleaned then remove_file tmp d2 else d2)"
proof -
  let ?d = "if cleaned then remove_file tmp d2 else d2"
  have o2: "only_at tmp d2 ?d" by (simp add: remove_file_def only_at_change only_at_refl)
  then have o: "only_at tmp d ?d" using assms(1) only_at_trans by blast
  obtain news where news: "seen ?d = seen d @ news" "list_all (\<lambda>f. \<forall>q. q \<noteq> tmp \<longrightarrow> f q = files d q) news"
    and same: "\<And>q. q \<noteq> tmp \<Longrightarrow> files ?d q = files d q"
    using o by (auto simp: only_at_def simp del: if_split)
  have ne: "news \<noteq> []"
  proof
    assume "news = []"
    then have "seen ?d = seen d" using news(1) by simp
    moreover obtain m where "seen ?d = seen d2 @ m" using o2 unfolding only_at_def by blast
    moreover obtain k where "seen d2 = seen d @ k" using assms(1) by (auto simp: only_at_def)
    ultimately show False using assms(5) by simp
  qed
  have t: "list_all (\<lambda>f. f target = files d target) news" "list_all (\<lambda>f. \<forall>q. q \<noteq> tmp \<and> q \<noteq> target \<longrightarrow> f q = files d q) news"
    using news(2) assms(3) by (auto simp: list_all_iff)
  then have "list_all (\<lambda>f. f target = files d target) (butlast news)" "last news target = files d target"
    using ne by (auto simp: list_all_iff dest: in_set_butlastD)
  moreover have "cleaned \<Longrightarrow> files ?d = files d"
    using same assms(2) by (auto simp: fun_eq_iff remove_file_def change_def)
  ultimately show ?thesis
    unfolding replaced_atomically_def using assms(2,3,4) news(1) ne t(2) same
    by (intro disjI2 exI[of _ tmp] exI[of _ news]) (simp del: if_split)
qed

subsection \<open>The contract and its two implementations\<close>

text \<open>Any number of calls on one path, some of which fail; \<open>bodies\<close> is what the others wrote, in order.\<close>

inductive write_run ::
    "('a \<Rightarrow> path \<Rightarrow> string \<Rightarrow> disk \<Rightarrow> (error_code \<times> disk) option) \<Rightarrow> ('a \<Rightarrow> path \<Rightarrow> disk \<Rightarrow> bool) \<Rightarrow> path \<Rightarrow> disk \<Rightarrow> string list \<Rightarrow> disk \<Rightarrow> bool"
  for writer honest p d where
  nothing: "write_run writer honest p d [] d"
| again: "write_run writer honest p d bodies d1 \<Longrightarrow> honest a p d1 \<Longrightarrow> writer a p body d1 = Some (e, d2) \<Longrightarrow>
     write_run writer honest p d (if e = no_error then bodies @ [body] else bodies) d2"

text \<open>What may be at the target at any moment: the file of the start, or one complete body.\<close>

definition whole :: "path \<Rightarrow> files \<Rightarrow> string list \<Rightarrow> files \<Rightarrow> bool" where
  "whole target f0 bodies f \<longleftrightarrow> f target = f0 target \<or> (case f target of Some s \<Rightarrow> content s \<in> set bodies | None \<Rightarrow> False)"

text \<open>It is whole in a state, and, if the file of the start had reached the disk, in whatever a crash makes of that state.\<close>

definition whole_always :: "path \<Rightarrow> files \<Rightarrow> string list \<Rightarrow> files \<Rightarrow> bool" where
  "whole_always target f0 bodies f \<longleftrightarrow>
     whole target f0 bodies f \<and> (pred_option flushed (f0 target) \<longrightarrow> (\<forall>g. survives f g \<longrightarrow> whole target f0 bodies g))"

lemma survives_flushed: "survives f g \<Longrightarrow> pred_option flushed (f q) \<Longrightarrow> g q = f q"
  by (cases "f q") (auto simp: survives_def dest!: spec [of _ q])

lemma survives_reader: "survives f f"
  unfolding survives_def
proof
  fix q
  show "case f q of None \<Rightarrow> f q = None | Some x \<Rightarrow> \<exists>c. f q = Some (x\<lparr>content := c\<rparr>) \<and> (flushed x \<longrightarrow> c = content x)"
    by (cases "f q") (auto intro: exI [of _ "content (the (f q))"])
qed

lemma whole_alwaysI:
  "whole target f0 bodies f \<Longrightarrow> pred_option flushed (f0 target) \<longrightarrow> pred_option flushed (f target) \<Longrightarrow> whole_always target f0 bodies f"
  using survives_flushed [of f _ target] by (auto simp: whole_always_def whole_def)

lemma whole_always_more: "whole_always target f0 bodies f \<Longrightarrow> set bodies \<subseteq> set bodies' \<Longrightarrow> whole_always target f0 bodies' f"
  by (fastforce simp: whole_always_def whole_def split: option.splits)

text \<open>
  A writer promises \<^const>\<open>replaced_atomically\<close> whenever the answers it is given are those the system documents (\<open>honest\<close>).
\<close>

locale atomic_writer =
  fixes writer :: "'a \<Rightarrow> path \<Rightarrow> string \<Rightarrow> disk \<Rightarrow> (error_code \<times> disk) option"
    and honest :: "'a \<Rightarrow> path \<Rightarrow> disk \<Rightarrow> bool"
    and target_of :: "path \<Rightarrow> path"
    and new_file :: "path \<Rightarrow> string \<Rightarrow> disk \<Rightarrow> stored_file"
    and cleaned :: "'a \<Rightarrow> bool"
  assumes replaces: "honest a p d \<Longrightarrow> writer a p body d = Some (e, d') \<Longrightarrow>
      replaced_atomically (target_of p) (new_file p body d) (cleaned a) d e d'"
    and new_content: "content (new_file p body d) = body"
    and new_flushed: "flushed (new_file p body d)"
begin

lemma one_write:
  assumes "honest a p d" and "writer a p body d = Some (e, d')"
  shows "\<exists>news. seen d' = seen d @ news
    \<and> list_all (\<lambda>f. f (target_of p) = files d (target_of p) \<or> (e = no_error \<and> f (target_of p) = Some (new_file p body d))) news
    \<and> files d' (target_of p) = (if e = no_error then Some (new_file p body d) else files d (target_of p))"
  using replaces[OF assms] unfolding replaced_atomically_def
proof (elim disjE exE conjE)
  fix tmp news
  assume n: "news \<noteq> []" "seen d' = seen d @ news" "list_all (\<lambda>f. f (target_of p) = files d (target_of p)) (butlast news)"
    "last news (target_of p) = (if e = no_error then Some (new_file p body d) else files d (target_of p))"
    and d': "e = no_error \<longrightarrow> files d' = (files d)(target_of p \<mapsto> new_file p body d)"
    "e \<noteq> no_error \<longrightarrow> files d' (target_of p) = files d (target_of p) \<and> (cleaned a \<longrightarrow> files d' = files d)"
  have "list_all (\<lambda>f. f (target_of p) = files d (target_of p) \<or> (e = no_error \<and> f (target_of p) = Some (new_file p body d))) (butlast news @ [last news])"
    using n(3,4) by (auto simp: list_all_iff)
  then show ?thesis using n(1,2) d' by (intro exI[of _ news]) (simp add: append_butlast_last_id)
qed simp

lemma whole_run:
  assumes "write_run writer honest p d bodies d'"
  shows "\<exists>news. seen d' = seen d @ news \<and> list_all (whole_always (target_of p) (files d) bodies) news
    \<and> (pred_option flushed (files d (target_of p)) \<longrightarrow> pred_option flushed (files d' (target_of p)))
    \<and> (if bodies = [] then files d' (target_of p) = files d (target_of p)
       else map_option content (files d' (target_of p)) = Some (last bodies))"
  using assms
proof induction
  case (again bodies d1 a body e d2)
  let ?t = "target_of p" and ?bodies = "if e = no_error then bodies @ [body] else bodies"
  obtain n1 where n1: "seen d1 = seen d @ n1" "list_all (whole_always ?t (files d) bodies) n1"
    and fl: "pred_option flushed (files d ?t) \<longrightarrow> pred_option flushed (files d1 ?t)"
    and t1: "if bodies = [] then files d1 ?t = files d ?t else map_option content (files d1 ?t) = Some (last bodies)"
    using again.IH by blast
  obtain n2 where n2: "seen d2 = seen d1 @ n2"
    "list_all (\<lambda>f. f ?t = files d1 ?t \<or> (e = no_error \<and> f ?t = Some (new_file p body d1))) n2"
    and t2: "files d2 ?t = (if e = no_error then Some (new_file p body d1) else files d1 ?t)"
    using one_write[OF again(2,3)] by blast
  have "list_all (whole_always ?t (files d) ?bodies) n1"
    using n1(2) whole_always_more [of ?t "files d" bodies _ ?bodies] by (auto simp: list_all_iff subset_insertI)
  moreover have "whole_always ?t (files d) ?bodies f" if "f \<in> set n2" for f
  proof (rule whole_alwaysI)
    have f: "f ?t = files d1 ?t \<or> (e = no_error \<and> f ?t = Some (new_file p body d1))" using n2(2) that by (auto simp: list_all_iff)
    then show "pred_option flushed (files d ?t) \<longrightarrow> pred_option flushed (f ?t)" using fl new_flushed by auto
    show "whole ?t (files d) ?bodies f"
      using f t1 last_in_set[of bodies] new_content by (cases "bodies = []") (auto simp: whole_def split: option.splits)
  qed
  ultimately have "list_all (whole_always ?t (files d) ?bodies) (n1 @ n2)" unfolding list_all_iff by auto
  then show ?case using n1(1) n2(1) fl t1 t2 new_content new_flushed by (intro exI[of _ "n1 @ n2"]) auto
qed simp

lemma whole_after:
  assumes "write_run writer honest p d bodies d'"
  shows "\<exists>news. seen d' = seen d @ news \<and> list_all (whole_always (target_of p) (files d) bodies) (files d' # news)
    \<and> (if bodies = [] then files d' (target_of p) = files d (target_of p)
       else map_option content (files d' (target_of p)) = Some (last bodies))"
proof -
  obtain news where n: "seen d' = seen d @ news" "list_all (whole_always (target_of p) (files d) bodies) news"
    and fl: "pred_option flushed (files d (target_of p)) \<longrightarrow> pred_option flushed (files d' (target_of p))"
    and final: "if bodies = [] then files d' (target_of p) = files d (target_of p)
       else map_option content (files d' (target_of p)) = Some (last bodies)"
    using whole_run [OF assms] by blast
  have "whole (target_of p) (files d) bodies (files d')"
    using final last_in_set [of bodies] by (cases "bodies = []") (auto simp: whole_def split: option.splits)
  then have "whole_always (target_of p) (files d) bodies (files d')" using fl by (rule whole_alwaysI)
  then show ?thesis using n final by auto
qed

end

definition linux_honest :: "(path \<Rightarrow> path option) \<Rightarrow> linux_answers \<Rightarrow> path \<Rightarrow> disk \<Rightarrow> bool" where
  "linux_honest canonical a p d \<longleftrightarrow>
     (case a_mkostemp a of Inl e \<Rightarrow> e \<noteq> 0 | Inr suffix \<Rightarrow> files d (ResolveLink canonical p @ ''.'' @ suffix) = None)
     \<and> a_fchmod a \<noteq> Some 0 \<and> Errno 0 \<notin> set (a_writes a) \<and> a_fsync a \<noteq> Some 0 \<and> a_close a \<noteq> Some 0 \<and> a_rename a \<noteq> Some 0"

definition linux_new :: "(path \<Rightarrow> path option) \<Rightarrow> path \<Rightarrow> string \<Rightarrow> disk \<Rightarrow> stored_file" where
  "linux_new canonical p body d = \<lparr>content = body, perms = GetFileMode (ResolveLink canonical p) d, flushed = True\<rparr>"

lemma failure_none [simp]: "a \<noteq> Some 0 \<Longrightarrow> failure a = no_error \<longleftrightarrow> a = None"
  by (cases a) (auto simp: failure_def)

lemma linux_fill_spec:
  assumes "linux_fill a tmp target body d1 = Some (e, d2)" and "files d1 tmp = Some \<lparr>content = [], perms = 0x180, flushed = False\<rparr>"
    and "a_fchmod a \<noteq> Some 0" and "Errno 0 \<notin> set (a_writes a)" and "a_fsync a \<noteq> Some 0"
  shows "only_at tmp d1 d2 \<and> (e = no_error \<longrightarrow> files d2 tmp = Some \<lparr>content = body, perms = GetFileMode target d1, flushed = True\<rparr>)"
proof (cases "a_fchmod a")
  case (Some c)
  then show ?thesis using assms(1,3) by (auto simp: linux_fill_def only_at_refl)
next
  case None
  let ?f = "\<lparr>content = [], perms = GetFileMode target d1, flushed = False\<rparr>"
  let ?m = "change ((files d1)(tmp := map_option (\<lambda>f. f\<lparr>perms := GetFileMode target d1\<rparr>) (files d1 tmp))) d1"
  obtain e1 d3 where w: "linux_WriteAll (a_writes a) tmp body 0 ?m = Some (e1, d3)"
    and e: "(e, d2) = (if e1 = no_error then (failure (a_fsync a), if a_fsync a = None then flush_file tmp d3 else d3) else (e1, d3))"
    using assms(1) None by (auto simp: linux_fill_def Let_def split: option.splits prod.splits)
  have "files ?m tmp = Some (?f\<lparr>content := take 0 body, flushed := False\<rparr>)" using assms(2) by (simp add: change_def)
  from linux_WriteAll_spec[OF w this assms(4)] have o: "only_at tmp ?m d3"
    and new: "e1 = no_error \<Longrightarrow> files d3 tmp = Some (?f\<lparr>content := body, flushed := False\<rparr>)" by simp_all
  have "only_at tmp d1 ?m" by (rule only_at_change) simp
  then have "only_at tmp d1 d3" using o by (rule only_at_trans)
  then show ?thesis using e only_at_trans [OF _ only_at_flush [of tmp d3]] flush_file_content [OF new] assms(5)
    by (auto split: if_splits)
qed

lemma temporary_differs [simp]: "target @ s # suffix \<noteq> target"
  by simp

lemma seen_after: "only_at tmp (change f d) d2 \<Longrightarrow> seen d2 \<noteq> seen d"
  by (auto simp: only_at_def change_def)

lemma linux_replaces:
  assumes "linux_honest canonical a p d" and "linux_WriteFileAtomically canonical a p body d = Some (e, d')"
  shows "replaced_atomically (ResolveLink canonical p) (linux_new canonical p body d) (a_removed a) d e d'"
proof (cases "a_mkostemp a")
  case (Inl c)
  then show ?thesis using assms by (auto simp: linux_WriteFileAtomically_def linux_honest_def replaced_atomically_def)
next
  case (Inr suffix)
  let ?target = "ResolveLink canonical p" and ?tmp = "ResolveLink canonical p @ ''.'' @ suffix"
  let ?d1 = "change ((files d)(?tmp \<mapsto> \<lparr>content = [], perms = 0x180, flushed = False\<rparr>)) d"
  have fresh: "files d ?tmp = None" and nz: "a_fchmod a \<noteq> Some 0" "Errno 0 \<notin> set (a_writes a)" "a_fsync a \<noteq> Some 0"
    "a_close a \<noteq> Some 0" "a_rename a \<noteq> Some 0"
    using assms(1) Inr by (simp_all add: linux_honest_def)
  obtain e1 d2 where filled: "linux_fill a ?tmp ?target body ?d1 = Some (e1, d2)" and r: "(e, d') = linux_settle a ?tmp ?target e1 d2"
    using assms(2) Inr by (auto simp: linux_WriteFileAtomically_def Let_def split: option.splits)
  have tmp1: "files ?d1 ?tmp = Some \<lparr>content = [], perms = 0x180, flushed = False\<rparr>" by (simp add: change_def)
  have fl: "only_at ?tmp ?d1 d2" "e1 = no_error \<longrightarrow> files d2 ?tmp = Some \<lparr>content = body, perms = GetFileMode ?target ?d1, flushed = True\<rparr>"
    using linux_fill_spec[OF filled tmp1 nz(1,2,3)] by simp_all
  have mode: "GetFileMode ?target ?d1 = GetFileMode ?target d" by (simp add: GetFileMode_def change_def)
  have o: "only_at ?tmp d d2" using fl(1) only_at_trans[OF only_at_change] by (metis (no_types, lifting) fun_upd_other)
  have ne: "seen d2 \<noteq> seen d" using fl(1) by (rule seen_after)
  let ?e1 = "if e1 = no_error then failure (a_close a) else e1"
  show ?thesis
  proof (cases "?e1 = no_error \<and> a_rename a = None")
    case True
    then have "e1 = no_error" by (auto split: if_splits)
    then have "files d2 ?tmp = Some (linux_new canonical p body d)" using fl(2) mode by (simp add: linux_new_def)
    from rename_atomic[OF o fresh _ this, of ?target "a_removed a"] show ?thesis
      using True r by (simp add: linux_settle_def Let_def)
  next
    case False
    let ?e = "if ?e1 = no_error then failure (a_rename a) else ?e1"
    have e: "?e \<noteq> no_error" using False nz(5) by (auto simp: failure_def split: option.splits if_splits)
    have "(e, d') = (?e, if a_removed a then remove_file ?tmp d2 else d2)"
      using r False e by (auto simp: linux_settle_def Let_def failure_def split: option.splits if_splits)
    then show ?thesis using failed_atomic[OF o fresh _ e ne, of ?target "linux_new canonical p body d" "a_removed a"] by simp
  qed
qed

interpretation lw: atomic_writer "linux_WriteFileAtomically canonical" "linux_honest canonical" "ResolveLink canonical"
    "linux_new canonical" a_removed for canonical
  by unfold_locales (erule (1) linux_replaces, simp_all add: linux_new_def)

definition windows_honest ::
    "(path \<Rightarrow> path option) \<Rightarrow> (path \<Rightarrow> int + path) \<Rightarrow> (int \<Rightarrow> int) \<Rightarrow> windows_answers \<Rightarrow> path \<Rightarrow> disk \<Rightarrow> bool" where
  "windows_honest canonical absolute cond a p d \<longleftrightarrow>
     (case absolute (ResolveLink canonical p) of
        Inl e \<Rightarrow> e \<noteq> 0
      | Inr target \<Rightarrow> list_all (\<lambda>(drawn, c). case c of Some e \<Rightarrow> e \<noteq> 0 | None \<Rightarrow> files d (target @ ''.'' @ drawn) = None) (w_creates a))
     \<and> Errno 0 \<notin> set (w_writes a) \<and> w_flush a \<noteq> Some 0 \<and> w_renameEx a \<noteq> Some 0 \<and> w_rename a \<noteq> Some 0"

definition windows_target :: "(path \<Rightarrow> path option) \<Rightarrow> (path \<Rightarrow> int + path) \<Rightarrow> path \<Rightarrow> path" where
  "windows_target canonical absolute p = (case absolute (ResolveLink canonical p) of Inl _ \<Rightarrow> p | Inr target \<Rightarrow> target)"

definition windows_new :: "path \<Rightarrow> string \<Rightarrow> disk \<Rightarrow> stored_file" where
  "windows_new p body d = \<lparr>content = body, perms = 0, flushed = True\<rparr>"

lemma CreateTemporaryFile_result:
  assumes "CreateTemporaryFile cond tries target n e0 = Some (r, e)" and "e0 \<noteq> no_error"
    and "list_all (\<lambda>(drawn, c). case c of Some e \<Rightarrow> e \<noteq> 0 | None \<Rightarrow> f (target @ ''.'' @ drawn) = None) tries"
  shows "case r of None \<Rightarrow> e \<noteq> no_error | Some tmp \<Rightarrow> f tmp = None \<and> tmp \<noteq> target"
  using assms
proof (induction tries arbitrary: n e0)
  case Nil
  then show ?case by (auto simp: CreateTemporaryFile.simps split: if_splits)
next
  case (Cons t tries)
  obtain drawn c where t: "t = (drawn, c)" by (cases t)
  have step: "CreateTemporaryFile cond (t # tries) target n e0 =
     (if has_condition cond e0 file_exists \<and> n < NumTemporaryNameTries
      then (case c of None \<Rightarrow> Some (Some (target @ ''.'' @ drawn), no_error)
            | Some e \<Rightarrow> CreateTemporaryFile cond tries target (n + 1) (GetLastSystemError e))
      else Some (None, e0))"
    by (subst CreateTemporaryFile.simps) (simp add: t split: option.split)
  show ?case
  proof (cases "has_condition cond e0 file_exists \<and> n < NumTemporaryNameTries")
    case True
    show ?thesis
    proof (cases c)
      case None
      then show ?thesis using step True Cons.prems(1,3) t by auto
    next
      case (Some e1)
      then show ?thesis using step True Cons t by auto
    qed
  next
    case False
    then show ?thesis using step Cons.prems(1,2) by auto
  qed
qed

lemma RenameOver_result:
  assumes "w_renameEx a \<noteq> Some 0" and "w_rename a \<noteq> Some 0"
  shows "RenameOver a tmp target d = (no_error, rename_over tmp target d) \<or> (\<exists>e. e \<noteq> no_error \<and> RenameOver a tmp target d = (e, d))"
  using assms by (auto simp: RenameOver_def split: option.splits)

lemma windows_replaces:
  assumes "windows_honest canonical absolute cond a p d"
    and "windows_WriteFileAtomically canonical absolute cond a p body d = Some (e, d')"
  shows "replaced_atomically (windows_target canonical absolute p) (windows_new p body d) (w_deleteEx a \<or> w_delete a) d e d'"
proof (cases "absolute (ResolveLink canonical p)")
  case (Inl c)
  then show ?thesis using assms by (auto simp: windows_WriteFileAtomically_def windows_honest_def replaced_atomically_def)
next
  case (Inr target)
  obtain r e0 where made: "CreateTemporaryFile cond (w_creates a) target 0 (make_error_code file_exists) = Some (r, e0)"
    using assms(2) Inr by (auto simp: windows_WriteFileAtomically_def split: option.splits prod.splits)
  have nz: "Errno 0 \<notin> set (w_writes a)" "w_flush a \<noteq> Some 0" "w_renameEx a \<noteq> Some 0" "w_rename a \<noteq> Some 0"
    using assms(1) by (simp_all add: windows_honest_def)
  have res: "case r of None \<Rightarrow> e0 \<noteq> no_error | Some tmp \<Rightarrow> files d tmp = None \<and> tmp \<noteq> target"
    using CreateTemporaryFile_result[OF made, where f = "files d"] assms(1) Inr by (simp add: windows_honest_def)
  show ?thesis
  proof (cases r)
    case None
    then show ?thesis using assms(2) Inr made res by (auto simp: windows_WriteFileAtomically_def replaced_atomically_def)
  next
    case (Some tmp)
    let ?d1 = "change ((files d)(tmp \<mapsto> \<lparr>content = [], perms = 0, flushed = False\<rparr>)) d"
    obtain e1 d2 where wr: "windows_WriteAll (w_writes a) tmp body 0 ?d1 = Some (e1, d2)" and r: "(e, d') = windows_settle a tmp target e1 d2"
      using assms(2) Inr made Some by (auto simp: windows_WriteFileAtomically_def Let_def split: option.splits)
    have fresh: "files d tmp = None" "tmp \<noteq> target" using res Some by simp_all
    have "files ?d1 tmp = Some (\<lparr>content = [], perms = 0, flushed = False\<rparr>\<lparr>content := take 0 body, flushed := False\<rparr>)" by (simp add: change_def)
    from windows_WriteAll_spec[OF wr this nz(1)] have fl: "only_at tmp ?d1 d2"
      "e1 = no_error \<longrightarrow> files d2 tmp = Some \<lparr>content = body, perms = 0, flushed = False\<rparr>" by simp_all
    let ?d3 = "if e1 = no_error \<and> w_flush a = None then flush_file tmp d2 else d2"
    have o3: "only_at tmp ?d1 ?d3" using fl(1) only_at_trans [OF fl(1) only_at_flush] by simp
    have new: "e1 = no_error \<and> w_flush a = None \<Longrightarrow> files ?d3 tmp = Some (windows_new p body d)"
      using fl(2) flush_file_content [of d2 tmp] by (simp add: windows_new_def)
    have o: "only_at tmp d ?d3" by (rule only_at_trans [OF only_at_change o3]) simp
    have ne: "seen ?d3 \<noteq> seen d" using o3 by (rule seen_after)
    have target: "windows_target canonical absolute p = target" by (simp add: windows_target_def Inr)
    let ?e1 = "if e1 = no_error then failure (w_flush a) else e1" and ?clean = "w_deleteEx a \<or> w_delete a"
    have del: "DeleteOpenFile a tmp ?d3 = (if ?clean then remove_file tmp ?d3 else ?d3)" by (simp add: DeleteOpenFile_def)
    have settled: "(e, d') = (let (error2, d1) = (if ?e1 = no_error then RenameOver a tmp target ?d3 else (?e1, ?d3))
        in (error2, if error2 \<noteq> no_error then DeleteOpenFile a tmp d1 else d1))"
      using r by (auto simp: windows_settle_def Let_def split: prod.splits if_splits)
    show ?thesis
    proof (cases "?e1 = no_error \<and> RenameOver a tmp target ?d3 = (no_error, rename_over tmp target ?d3)")
      case True
      then have "files ?d3 tmp = Some (windows_new p body d)" using new nz(2) by (auto split: if_splits)
      from rename_atomic[OF o fresh this, of ?clean] show ?thesis using True settled target by (simp add: Let_def)
    next
      case False
      have "\<exists>e2. e2 \<noteq> no_error \<and> (e, d') = (e2, DeleteOpenFile a tmp ?d3)"
        using False settled RenameOver_result[OF nz(3,4), of tmp target ?d3] by (cases "?e1 = no_error") (auto simp: Let_def simp del: if_split)
      then obtain e2 where e2: "e2 \<noteq> no_error" "(e, d') = (e2, DeleteOpenFile a tmp ?d3)" by blast
      then show ?thesis using failed_atomic[OF o fresh e2(1) ne, of "windows_new p body d" ?clean] target del by simp
    qed
  qed
qed

interpretation ww: atomic_writer "windows_WriteFileAtomically canonical absolute cond" "windows_honest canonical absolute cond"
    "windows_target canonical absolute" windows_new "\<lambda>a. w_deleteEx a \<or> w_delete a" for canonical absolute cond
  by unfold_locales (erule (1) windows_replaces, simp_all add: windows_new_def)

text \<open>C14.
  However often a file is written, on either platform, and however many of the writes fail at any of their calls, a reader at
  any moment finds either the file of the start or one complete body; and so does whoever comes after a crash at any moment, though a crash
  makes anything of content that was not flushed, provided the file of the start had been.  After the last call the file is that of the last write
  that reported success, and of the start if none did.
\<close>

theorem file_never_torn:
  assumes "write_run (linux_WriteFileAtomically canonical) (linux_honest canonical) p d bodies d'"
    and "write_run (windows_WriteFileAtomically canonical absolute cond) (windows_honest canonical absolute cond) q e texts e'"
  shows "(\<exists>news. seen d' = seen d @ news \<and> list_all (whole_always (ResolveLink canonical p) (files d) bodies) (files d' # news)
      \<and> (if bodies = [] then files d' (ResolveLink canonical p) = files d (ResolveLink canonical p)
         else map_option content (files d' (ResolveLink canonical p)) = Some (last bodies)))
    \<and> (\<exists>news. seen e' = seen e @ news \<and> list_all (whole_always (windows_target canonical absolute q) (files e) texts) (files e' # news)
      \<and> (if texts = [] then files e' (windows_target canonical absolute q) = files e (windows_target canonical absolute q)
         else map_option content (files e' (windows_target canonical absolute q)) = Some (last texts)))"
  using lw.whole_after[OF assms(1)] ww.whole_after[OF assms(2)] by blast

definition disk_demo :: disk where
  "disk_demo = \<lparr>files = [''cfg'' \<mapsto> \<lparr>content = ''old'', perms = 0x180, flushed = True\<rparr>], seen = []\<rparr>"

definition linux_demo :: linux_answers where
  "linux_demo = \<lparr>a_mkostemp = Inr ''aB3xyz'', a_fchmod = None, a_writes = [Count 1, Errno EINTR, Count 3], a_fsync = None, a_close = None,
     a_rename = None, a_removed = True\<rparr>"

definition windows_demo :: windows_answers where
  "windows_demo = \<lparr>w_creates = [(''aaaaaa'', Some 80), (''bbbbbb'', None)], w_writes = [Count 4], w_flush = None, w_renameEx = Some 50,
     w_rename = None, w_deleteEx = True, w_delete = True\<rparr>"

lemma linux_demo_run:
  "write_run (linux_WriteFileAtomically (\<lambda>_. None)) (linux_honest (\<lambda>_. None)) ''cfg'' disk_demo [''text'']
     (snd (the (linux_WriteFileAtomically (\<lambda>_. None) linux_demo ''cfg'' ''text'' disk_demo)))"
proof -
  have "\<exists>d. linux_WriteFileAtomically (\<lambda>_. None) linux_demo ''cfg'' ''text'' disk_demo = Some (no_error, d)"
    by (simp add: linux_WriteFileAtomically_def linux_fill_def linux_settle_def linux_demo_def disk_demo_def ResolveLink_def failure_def
        linux_WriteAll_cases EINTR_def Let_def)
  then obtain d where w: "linux_WriteFileAtomically (\<lambda>_. None) linux_demo ''cfg'' ''text'' disk_demo = Some (no_error, d)" ..
  have "linux_honest (\<lambda>_. None) linux_demo ''cfg'' disk_demo"
    by (simp add: linux_honest_def linux_demo_def disk_demo_def ResolveLink_def EINTR_def)
  from write_run.again[of "linux_WriteFileAtomically (\<lambda>_. None)" "linux_honest (\<lambda>_. None)", OF write_run.nothing this w] w
  show ?thesis by simp
qed

lemma windows_demo_run:
  "write_run (windows_WriteFileAtomically (\<lambda>_. None) Inr (\<lambda>e. if e = 80 then 17 else 0)) (windows_honest (\<lambda>_. None) Inr (\<lambda>e. if e = 80 then 17 else 0))
     ''cfg'' disk_demo [''text'']
     (snd (the (windows_WriteFileAtomically (\<lambda>_. None) Inr (\<lambda>e. if e = 80 then 17 else 0) windows_demo ''cfg'' ''text'' disk_demo)))"
proof -
  let ?cond = "\<lambda>e :: int. if e = 80 then 17 else 0 :: int"
  have "\<exists>d. windows_WriteFileAtomically (\<lambda>_. None) Inr ?cond windows_demo ''cfg'' ''text'' disk_demo = Some (no_error, d)"
    by (simp add: windows_WriteFileAtomically_def windows_settle_def windows_demo_def disk_demo_def ResolveLink_def failure_def
        windows_WriteAll_cases CreateTemporaryFile.simps has_condition_def make_error_code_def file_exists_def NumTemporaryNameTries_def
        GetLastSystemError_def RenameOver_def ERROR_INVALID_PARAMETER_def ERROR_NOT_SUPPORTED_def Let_def)
  then obtain d where w: "windows_WriteFileAtomically (\<lambda>_. None) Inr ?cond windows_demo ''cfg'' ''text'' disk_demo = Some (no_error, d)" ..
  have "windows_honest (\<lambda>_. None) Inr ?cond windows_demo ''cfg'' disk_demo"
    by (simp add: windows_honest_def windows_demo_def disk_demo_def ResolveLink_def)
  from write_run.again[of "windows_WriteFileAtomically (\<lambda>_. None) Inr ?cond" "windows_honest (\<lambda>_. None) Inr ?cond", OF write_run.nothing this w] w
  show ?thesis by simp
qed

theorem file_never_torn_witness:
  "let d = snd (the (linux_WriteFileAtomically (\<lambda>_. None) linux_demo ''cfg'' ''text'' disk_demo))
   in map_option content (files d ''cfg'') = Some ''text''
    \<and> list_all (\<lambda>f. \<forall>g. survives f g \<longrightarrow> whole ''cfg'' (files disk_demo) [''text''] g) (files d # seen d)"
  using file_never_torn[OF linux_demo_run windows_demo_run]
  by (auto simp: ResolveLink_def whole_always_def list_all_iff disk_demo_def Let_def)

end
