(* ===== verification/File_Read.thy ===== *)
theory File_Read
  imports File_Write
begin

section \<open>Reading a whole file\<close>

text \<open>
  Models \<^verbatim>\<open>private/io/read_whole_file.cpp\<close> for both platforms: the checks of what was opened, the limit on its size, and the loop
  that fills a buffer of that size whatever the system hands over at a time.  An answer of \<open>read\<close> is the bytes it hands over, none at
  the end of the file, or an error.
\<close>

datatype chunk = Data string | Failed int

datatype kind = Regular | Directory | Other

text \<open>Bytes written into a buffer from a position on.\<close>

definition overwrite :: "string \<Rightarrow> nat \<Rightarrow> string \<Rightarrow> string" where
  "overwrite text n s = take n text @ s @ drop (n + length s) text"

definition blank :: "nat \<Rightarrow> string" where
  "blank n = replicate n (CHR 0x00)"

subsection \<open>Linux\<close>

fun linux_read_loop :: "chunk list \<Rightarrow> string \<Rightarrow> nat \<Rightarrow> (error_code \<times> string) option" where
  "linux_read_loop [] text numRead = None"
| "linux_read_loop (Data s # rest) text numRead =
     (if s \<noteq> []
      then (let text1 = overwrite text numRead s; numRead1 = numRead + length s
            in if numRead1 = length text1 then Some (no_error, text1) else linux_read_loop rest text1 numRead1)
      else Some (no_error, take numRead text))"
| "linux_read_loop (Failed e # rest) text numRead =
     (if e \<noteq> EINTR then Some (GetLastSystemError e, text) else linux_read_loop rest text numRead)"

definition read_result :: "error_code \<times> string \<Rightarrow> error_code + string" where
  "read_result r = (if fst r = no_error then Inr (snd r) else Inl (fst r))"

definition linux_ReadOpenFile :: "int + kind \<times> nat \<Rightarrow> chunk list \<Rightarrow> nat \<Rightarrow> (error_code + string) option" where
  "linux_ReadOpenFile fstat answers maxSize =
     (case fstat of
        Inl e \<Rightarrow> Some (Inl (GetLastSystemError e))
      | Inr (k, bytes) \<Rightarrow>
          if k = Directory then Some (Inl (make_error_code is_a_directory))
          else if k \<noteq> Regular then Some (Inl (make_error_code invalid_argument))
          else if maxSize < bytes then Some (Inl (make_error_code file_too_large))
          else if bytes = 0 then Some (Inr [])
          else map_option read_result (linux_read_loop answers (blank bytes) 0))"

definition linux_ReadWholeFile :: "int option \<Rightarrow> int + kind \<times> nat \<Rightarrow> chunk list \<Rightarrow> nat \<Rightarrow> (error_code + string) option" where
  "linux_ReadWholeFile opened fstat answers maxSize =
     (case opened of
        None \<Rightarrow> linux_ReadOpenFile fstat answers maxSize
      | Some e \<Rightarrow> Some (Inl (GetLastSystemError e)))"

subsection \<open>Windows\<close>

text \<open>
  \<open>isDisk\<close> is \<open>GetFileType(file) == FILE_TYPE_DISK\<close>, \<open>information\<close> what the two calls after it tell of the attributes and the size.  A read is
  asked for at most \<open>DWORD\<close>'s maximum.
\<close>

fun windows_read_loop :: "chunk list \<Rightarrow> string \<Rightarrow> nat \<Rightarrow> (error_code \<times> string) option" where
  "windows_read_loop [] text numRead = None"
| "windows_read_loop (Failed e # rest) text numRead = Some (GetLastSystemError e, text)"
| "windows_read_loop (Data s # rest) text numRead =
     (if s = [] then Some (no_error, take numRead text)
      else (let text1 = overwrite text numRead s; numRead1 = numRead + length s
            in if numRead1 = length text1 then Some (no_error, text1) else windows_read_loop rest text1 numRead1))"

definition windows_ReadOpenFile :: "bool \<Rightarrow> int + bool \<times> nat \<Rightarrow> chunk list \<Rightarrow> nat \<Rightarrow> (error_code + string) option" where
  "windows_ReadOpenFile isDisk information answers maxSize =
     (if \<not> isDisk then Some (Inl (make_error_code invalid_argument))
      else (case information of
              Inl e \<Rightarrow> Some (Inl (GetLastSystemError e))
            | Inr (isDirectory, bytes) \<Rightarrow>
                if isDirectory then Some (Inl (make_error_code is_a_directory))
                else if maxSize < bytes then Some (Inl (make_error_code file_too_large))
                else if bytes = 0 then Some (Inr [])
                else map_option read_result (windows_read_loop answers (blank bytes) 0)))"

definition windows_ReadWholeFile :: "int option \<Rightarrow> bool \<Rightarrow> int + bool \<times> nat \<Rightarrow> chunk list \<Rightarrow> nat \<Rightarrow> (error_code + string) option" where
  "windows_ReadWholeFile opened isDisk information answers maxSize =
     (case opened of
        None \<Rightarrow> windows_ReadOpenFile isDisk information answers maxSize
      | Some e \<Rightarrow> Some (Inl (GetLastSystemError e)))"

definition ERROR_ACCESS_DENIED :: int where "ERROR_ACCESS_DENIED = 5"
definition ERROR_SHARING_VIOLATION :: int where "ERROR_SHARING_VIOLATION = 32"
definition ERROR_LOCK_VIOLATION :: int where "ERROR_LOCK_VIOLATION = 33"

definition windows_IsBusy :: "error_code \<Rightarrow> bool" where
  "windows_IsBusy error = (case error of
     Error_Code c v \<Rightarrow> c = system_category \<and> (v = ERROR_ACCESS_DENIED \<or> v = ERROR_SHARING_VIOLATION \<or> v = ERROR_LOCK_VIOLATION))"

subsection \<open>Reading what is there\<close>

text \<open>
  Answers that hand over a file, from a position on: pieces of any length, interruptions between them, and an empty piece only at the
  end.  \<open>retry\<close> says which errors are interruptions.
\<close>

fun serves :: "string \<Rightarrow> (int \<Rightarrow> bool) \<Rightarrow> nat \<Rightarrow> chunk list \<Rightarrow> bool" where
  "serves body retry n [] \<longleftrightarrow> n = length body"
| "serves body retry n (Data s # rest) \<longleftrightarrow>
     (n = length body \<and> s = [] \<or> s \<noteq> [] \<and> length s \<le> length body - n \<and> s = take (length s) (drop n body)
        \<and> serves body retry (n + length s) rest)"
| "serves body retry n (Failed e # rest) \<longleftrightarrow> retry e \<and> serves body retry n rest"

lemma blank_simps [simp]: "length (blank n) = n" "blank 0 = []"
  by (simp_all add: blank_def)

lemma overwrite_blank:
  assumes "n + length s \<le> length body" and "s = take (length s) (drop n body)"
  shows "overwrite (take n body @ blank (length body - n)) n s = take (n + length s) body @ blank (length body - (n + length s))"
proof -
  have "take (n + length s) body = take n body @ s" using assms by (simp add: take_add)
  moreover have "drop (n + length s) (take n body @ blank (length body - n)) = blank (length body - (n + length s))"
    using assms(1) by (simp add: blank_def)
  ultimately show ?thesis using assms(1) by (simp add: overwrite_def)
qed

lemma linux_read_loop_serves:
  assumes "serves body (\<lambda>e. e = EINTR) n answers" and "n < length body"
  shows "linux_read_loop answers (take n body @ blank (length body - n)) n = Some (no_error, body)"
  using assms
proof (induction answers arbitrary: n)
  case (Cons a rest)
  show ?case
  proof (cases a)
    case (Data s)
    then have s: "s \<noteq> []" "n + length s \<le> length body" "s = take (length s) (drop n body)" "serves body (\<lambda>e. e = EINTR) (n + length s) rest"
      using Cons.prems by auto
    note o = overwrite_blank[OF s(2,3)]
    have l: "length (take (n + length s) body @ blank (length body - (n + length s))) = length body" using s(2) by simp
    show ?thesis
    proof (cases "n + length s = length body")
      case True
      then show ?thesis using s(1) l by (simp add: Data o Let_def)
    next
      case False
      then show ?thesis using s(1,2) l Cons.IH[OF s(4)] by (simp add: Data o Let_def del: take_append)
    qed
  next
    case (Failed e)
    then show ?thesis using Cons by simp
  qed
qed simp

lemma windows_read_loop_serves:
  assumes "serves body (\<lambda>_. False) n answers"
  shows "windows_read_loop answers b n = linux_read_loop answers b n \<and> serves body (\<lambda>e. e = EINTR) n answers"
  using assms
proof (induction answers arbitrary: n b)
  case (Cons a rest)
  then show ?case by (cases a) (auto simp: Let_def)
qed simp

text \<open>A file that is there comes back as it is, whatever pieces the system hands over, unless it is larger than the limit.\<close>

definition whole_or_too_large :: "nat \<Rightarrow> string \<Rightarrow> error_code + string" where
  "whole_or_too_large maxSize body = (if maxSize < length body then Inl (make_error_code file_too_large) else Inr body)"

lemma linux_reads_file:
  assumes "serves body (\<lambda>e. e = EINTR) 0 answers"
  shows "linux_ReadWholeFile None (Inr (Regular, length body)) answers maxSize = Some (whole_or_too_large maxSize body)"
  using linux_read_loop_serves[OF assms]
  by (auto simp: linux_ReadWholeFile_def linux_ReadOpenFile_def whole_or_too_large_def read_result_def)

lemma windows_reads_file:
  assumes "serves body (\<lambda>_. False) 0 answers"
  shows "windows_ReadWholeFile None True (Inr (False, length body)) answers maxSize = Some (whole_or_too_large maxSize body)"
  using linux_read_loop_serves[of body 0 answers] windows_read_loop_serves[OF assms]
  by (auto simp: windows_ReadWholeFile_def windows_ReadOpenFile_def whole_or_too_large_def read_result_def)

text \<open>C24.
  What \<open>ReadWholeFile\<close> returns after \<open>WriteFileAtomically\<close> is the text that was written if that reported success, and the file as it was before
  if it did not, for every size of the pieces in which the system takes and gives the bytes and every interruption; a file larger than
  the limit is refused and never cut.
\<close>

theorem write_then_read:
  assumes "linux_honest canonical a p d" and "linux_WriteFileAtomically canonical a p body d = Some (e, d')"
    and "files d' (ResolveLink canonical p) = Some f" and "serves (content f) (\<lambda>c. c = EINTR) 0 answers"
  shows "linux_ReadWholeFile None (Inr (Regular, length (content f))) answers maxSize
       = Some (whole_or_too_large maxSize (if e = no_error then body else content f))
    \<and> (e \<noteq> no_error \<longrightarrow> files d (ResolveLink canonical p) = Some f)"
proof -
  have "files d' (ResolveLink canonical p) = (if e = no_error then Some (linux_new canonical p body d) else files d (ResolveLink canonical p))"
    using lw.one_write[OF assms(1,2)] by blast
  then have "e = no_error \<Longrightarrow> content f = body" "e \<noteq> no_error \<Longrightarrow> files d (ResolveLink canonical p) = Some f"
    using assms(3) by (auto simp: linux_new_def)
  then show ?thesis using linux_reads_file[OF assms(4), of maxSize] by auto
qed

theorem write_then_read_witness:
  "linux_ReadWholeFile None (Inr (Regular, 4)) [Data ''te'', Failed EINTR, Data ''xt''] 100 = Some (Inr ''text'')"
proof -
  let ?r = "linux_WriteFileAtomically (\<lambda>_. None) linux_demo ''cfg'' ''text'' disk_demo"
  have h: "linux_honest (\<lambda>_. None) linux_demo ''cfg'' disk_demo"
    by (simp add: linux_honest_def linux_demo_def disk_demo_def ResolveLink_def EINTR_def)
  have "\<exists>d'. ?r = Some (no_error, d')"
    by (simp add: linux_WriteFileAtomically_def linux_fill_def linux_settle_def linux_demo_def disk_demo_def ResolveLink_def failure_def
        linux_WriteAll_cases EINTR_def Let_def)
  then obtain d' where w: "?r = Some (no_error, d')" ..
  then obtain f where f: "files d' (ResolveLink (\<lambda>_. None) ''cfg'') = Some f" "content f = ''text''"
    using lw.one_write[OF h w] by (auto simp: linux_new_def)
  have "serves (content f) (\<lambda>c. c = EINTR) 0 [Data ''te'', Failed EINTR, Data ''xt'']" using f(2) by simp
  from write_then_read[OF h w f(1) this, of 100] show ?thesis using f(2) by (simp add: whole_or_too_large_def numeral_eq_Suc)
qed

end
