(* ===== verification/Directory_Watch.thy ===== *)
theory Directory_Watch
  imports Os_Errors
begin

section \<open>Watching a directory\<close>

text \<open>
  Models \<^verbatim>\<open>private/io/directory_watch.cpp\<close>.  A path below the root is the list of its names.  What the system answers while a tree is
  walked comes in a \<open>world\<close>: what a folder holds, with whether \<open>is_directory\<close> says that it is a folder, and in the order in which it is listed; after how many entries
  the listing ends with an error, if it does (at once if the folder cannot be opened); and what \<open>inotify_add_watch\<close> answers
  for a path, which is the same watch descriptor for every path that leads to the same folder.  The loop that walks runs over a
  queue; \<open>fuel\<close> bounds its rounds, and a run that needs more has not returned.
\<close>

type_synonym rel = "string list"

datatype EWatchScope = Folder | Tree

record world =
  listing :: "rel \<Rightarrow> (string \<times> bool) list"
  listing_fails :: "rel \<Rightarrow> nat option"
  add_watch :: "rel \<Rightarrow> int + int"
  is_symlink :: "rel \<Rightarrow> bool"

record SDirectoryChanges =
  c_paths :: "rel list"
  hasOverflowed :: bool

subsection \<open>Linux\<close>

record linux_watch =
  l_scope :: EWatchScope
  rootWatch :: int
  folders :: "int \<rightharpoonup> rel"

definition IN_CLOSE_WRITE :: u32 where "IN_CLOSE_WRITE = 0x8"
definition IN_MOVED_FROM :: u32 where "IN_MOVED_FROM = 0x40"
definition IN_MOVED_TO :: u32 where "IN_MOVED_TO = 0x80"
definition IN_CREATE :: u32 where "IN_CREATE = 0x100"
definition IN_DELETE :: u32 where "IN_DELETE = 0x200"
definition IN_DELETE_SELF :: u32 where "IN_DELETE_SELF = 0x400"
definition IN_MOVE_SELF :: u32 where "IN_MOVE_SELF = 0x800"
definition IN_UNMOUNT :: u32 where "IN_UNMOUNT = 0x2000"
definition IN_Q_OVERFLOW :: u32 where "IN_Q_OVERFLOW = 0x4000"
definition IN_IGNORED :: u32 where "IN_IGNORED = 0x8000"
definition IN_ISDIR :: u32 where "IN_ISDIR = 0x40000000"
definition ENOMEM :: int where "ENOMEM = 12"
definition EAGAIN :: int where "EAGAIN = 11"
definition ENOSPC :: int where "ENOSPC = 28"

definition RootGoneEvents :: u32 where
  "RootGoneEvents = IN_DELETE_SELF OR IN_MOVE_SELF OR IN_IGNORED OR IN_UNMOUNT"

fun IsWithin :: "rel \<Rightarrow> rel \<Rightarrow> bool" where
  "IsWithin path [] = True"
| "IsWithin [] (b # bs) = False"
| "IsWithin (p # ps) (b # bs) = (p = b \<and> IsWithin ps bs)"

definition AddWatch :: "world \<Rightarrow> rel \<Rightarrow> linux_watch \<Rightarrow> (error_code + bool) \<times> linux_watch" where
  "AddWatch w relative s =
     (case add_watch w relative of
        Inr descriptor \<Rightarrow>
          (if folders s descriptor = None then (Inr True, s\<lparr>folders := (folders s)(descriptor \<mapsto> relative)\<rparr>) else (Inr False, s))
      | Inl e \<Rightarrow> (if e = ENOSPC \<or> e = ENOMEM then Inl (GetLastSystemError e) else Inr False, s))"

text \<open>What the iterator hands over: an error, of the iterator or of its increment, ends the loop and is forgotten.\<close>

definition listed :: "world \<Rightarrow> rel \<Rightarrow> (string \<times> bool) list" where
  "listed w relative = (case listing_fails w relative of None \<Rightarrow> listing w relative | Some n \<Rightarrow> take n (listing w relative))"

text \<open>One round: the entries of one folder, in the order they are listed.\<close>

fun watch_entries :: "world \<Rightarrow> rel \<Rightarrow> (string \<times> bool) list \<Rightarrow> linux_watch \<Rightarrow> rel list \<Rightarrow> error_code \<times> linux_watch \<times> rel list" where
  "watch_entries w relative [] s pending = (no_error, s, pending)"
| "watch_entries w relative ((name, isDir) # es) s pending =
     (if isDir
      then (let child = relative @ [name]
            in case AddWatch w child s of
                 (Inl e, s1) \<Rightarrow> (if e = no_error then watch_entries w relative es s1 pending else (e, s1, pending))
               | (Inr added, s1) \<Rightarrow> watch_entries w relative es s1 (if added then pending @ [child] else pending))
      else watch_entries w relative es s pending)"

fun walk :: "nat \<Rightarrow> world \<Rightarrow> rel list \<Rightarrow> linux_watch \<Rightarrow> (error_code \<times> linux_watch) option" where
  "walk fuel w [] s = Some (no_error, s)"
| "walk 0 w (p # ps) s = None"
| "walk (Suc fuel) w (p # ps) s =
     (case watch_entries w p (listed w p) s ps of
        (e, s1, pending) \<Rightarrow> if e = no_error then walk fuel w pending s1 else Some (e, s1))"

definition WatchBelow :: "nat \<Rightarrow> world \<Rightarrow> rel \<Rightarrow> linux_watch \<Rightarrow> (error_code \<times> linux_watch) option" where
  "WatchBelow fuel w start s = walk fuel w [start] s"

definition ForgetBelow :: "rel \<Rightarrow> linux_watch \<Rightarrow> linux_watch" where
  "ForgetBelow relative s =
     s\<lparr>folders := (\<lambda>k. case folders s k of
        None \<Rightarrow> None
      | Some p \<Rightarrow> if k \<noteq> rootWatch s \<and> IsWithin p relative then None else Some p)\<rparr>"

record inotify_event =
  e_wd :: int
  e_mask :: u32
  e_name :: string

record pass =
  p_watch :: linux_watch
  p_changes :: SDirectoryChanges
  newFolders :: "rel list"
  isRootGone :: bool
  shouldWalkAgain :: bool

definition has :: "u32 \<Rightarrow> u32 \<Rightarrow> bool" where
  "has m bits \<longleftrightarrow> m AND bits \<noteq> 0"

definition ReadEvent :: "world \<Rightarrow> inotify_event \<Rightarrow> pass \<Rightarrow> pass" where
  "ReadEvent w event r =
     (let s = p_watch r; known = folders s (e_wd event);
          isTreeFolder = (l_scope s = Tree \<and> has (e_mask event) IN_ISDIR)
      in if has (e_mask event) IN_Q_OVERFLOW then r\<lparr>p_changes := (p_changes r)\<lparr>hasOverflowed := True\<rparr>, shouldWalkAgain := True\<rparr>
         else if e_wd event = rootWatch s \<and> has (e_mask event) RootGoneEvents then r\<lparr>isRootGone := True\<rparr>
         else (case known of
                 None \<Rightarrow> r
               | Some base \<Rightarrow>
                   if has (e_mask event) IN_IGNORED then r\<lparr>p_watch := s\<lparr>folders := (folders s)(e_wd event := None)\<rparr>\<rparr>
                   else (let path = (if e_name event = [] then base else base @ [e_name event]);
                             isArrival = has (e_mask event) (IN_CREATE OR IN_MOVED_TO);
                             isNewLink = (l_scope s = Tree \<and> isArrival \<and> \<not> has (e_mask event) IN_ISDIR \<and> is_symlink w path);
                             r1 = (if (isTreeFolder \<or> isNewLink) \<and> isArrival then r\<lparr>newFolders := newFolders r @ [path]\<rparr>
                                   else if isTreeFolder \<and> has (e_mask event) IN_MOVED_FROM then r\<lparr>p_watch := ForgetBelow path s\<rparr>
                                   else r)
                         in if path \<noteq> [] then r1\<lparr>p_changes := (p_changes r1)\<lparr>c_paths := c_paths (p_changes r1) @ [path]\<rparr>\<rparr> else r1)))"

text \<open>\<open>Initialize\<close>, given what \<open>inotify_init1\<close> and the watch of the root answer.\<close>

definition linux_Initialize :: "nat \<Rightarrow> int option \<Rightarrow> int + int \<Rightarrow> world \<Rightarrow> EWatchScope \<Rightarrow> (error_code \<times> linux_watch) option" where
  "linux_Initialize fuel init root w scope =
     (let s = \<lparr>l_scope = scope, rootWatch = - 1, folders = Map.empty\<rparr>
      in case init of
           Some e \<Rightarrow> Some (GetLastSystemError e, s)
         | None \<Rightarrow>
             (case root of
                Inl e \<Rightarrow> Some (GetLastSystemError e, s)
              | Inr wd \<Rightarrow>
                  (let s1 = s\<lparr>rootWatch := wd, folders := [wd \<mapsto> []]\<rparr>
                   in if scope = Tree then WatchBelow fuel w [] s1 else Some (no_error, s1))))"

text \<open>The folders that arrived, then the walk after an overflow; \<open>again\<close> is what asking for the root afresh answers.\<close>

fun watch_new :: "nat \<Rightarrow> world \<Rightarrow> rel list \<Rightarrow> error_code \<Rightarrow> linux_watch \<Rightarrow> (error_code \<times> linux_watch) option" where
  "watch_new fuel w [] e s = Some (e, s)"
| "watch_new fuel w (f # fs) e s =
     (if e = no_error
      then (case AddWatch w f s of
              (Inl e1, s1) \<Rightarrow> watch_new fuel w fs e1 s1
            | (Inr added, s1) \<Rightarrow>
                if added
                then (case WatchBelow fuel w f s1 of None \<Rightarrow> None | Some (e1, s2) \<Rightarrow> watch_new fuel w fs e1 s2)
                else watch_new fuel w fs e s1)
      else watch_new fuel w fs e s)"

definition walk_again :: "nat \<Rightarrow> world \<Rightarrow> int + int \<Rightarrow> bool \<Rightarrow> error_code \<Rightarrow> linux_watch \<Rightarrow> (error_code \<times> linux_watch) option" where
  "walk_again fuel w again should e s =
     (if e = no_error \<and> should
      then (if again \<noteq> Inr (rootWatch s) then Some (make_error_code no_such_file_or_directory, s)
            else if l_scope s = Tree then WatchBelow fuel w [] (ForgetBelow [] s)
            else Some (e, s))
      else Some (e, s))"

text \<open>\<open>ReadChanges\<close>: all events that wait, \<open>failure\<close> the error with which reading them ended (0 at the end of a file).\<close>

definition linux_ReadChanges ::
    "nat \<Rightarrow> world \<Rightarrow> inotify_event list list \<Rightarrow> int \<Rightarrow> int + int \<Rightarrow> linux_watch \<Rightarrow> ((error_code + SDirectoryChanges) \<times> linux_watch) option" where
  "linux_ReadChanges fuel w buffers failure again s =
     (let r = fold (fold (ReadEvent w)) buffers
            \<lparr>p_watch = s, p_changes = \<lparr>c_paths = [], hasOverflowed = False\<rparr>, newFolders = [], isRootGone = False, shouldWalkAgain = False\<rparr>;
          e0 = (if failure \<noteq> 0 \<and> failure \<noteq> EAGAIN \<and> failure \<noteq> EINTR then GetLastSystemError failure else no_error);
          e1 = (if isRootGone r then make_error_code no_such_file_or_directory else e0)
      in case watch_new fuel w (newFolders r) e1 (p_watch r) of
           None \<Rightarrow> None
         | Some (e2, s2) \<Rightarrow>
             (case walk_again fuel w again (shouldWalkAgain r) e2 s2 of
                None \<Rightarrow> None
              | Some (e3, s3) \<Rightarrow> Some (if e3 = no_error then Inr (p_changes r) else Inl e3, s3)))"

subsection \<open>A walk watches the whole tree\<close>

text \<open>The system refuses a watch for another reason than that it has none left: the folder is gone, or cannot be read.\<close>

definition gone :: "world \<Rightarrow> rel \<Rightarrow> bool" where
  "gone w r \<longleftrightarrow> (case add_watch w r of Inl e \<Rightarrow> e \<notin> {ENOSPC, ENOMEM} | Inr _ \<Rightarrow> False)"

definition has_watch :: "world \<Rightarrow> linux_watch \<Rightarrow> rel \<Rightarrow> bool" where
  "has_watch w s r \<longleftrightarrow> (case add_watch w r of Inl _ \<Rightarrow> False | Inr d \<Rightarrow> folders s d \<noteq> None)"

text \<open>Every folder that was listed below \<open>r\<close> has a watch, or is gone.\<close>

definition covered :: "world \<Rightarrow> linux_watch \<Rightarrow> rel \<Rightarrow> bool" where
  "covered w s r \<longleftrightarrow> (\<forall>name. (name, True) \<in> set (listed w r) \<longrightarrow> has_watch w s (r @ [name]) \<or> gone w (r @ [name]))"

definition kept :: "linux_watch \<Rightarrow> linux_watch \<Rightarrow> bool" where
  "kept s s' \<longleftrightarrow> (\<forall>d r. folders s d = Some r \<longrightarrow> folders s' d = Some r) \<and> rootWatch s' = rootWatch s \<and> l_scope s' = l_scope s"

lemma kept_refl: "kept s s"
  by (simp add: kept_def)

lemma kept_trans: "kept s s' \<Longrightarrow> kept s' s'' \<Longrightarrow> kept s s''"
  by (simp add: kept_def)

lemma has_watch_kept: "has_watch w s r \<Longrightarrow> kept s s' \<Longrightarrow> has_watch w s' r"
  by (auto simp: has_watch_def kept_def split: sum.splits)

lemma covered_kept: "covered w s r \<Longrightarrow> kept s s' \<Longrightarrow> covered w s' r"
  using has_watch_kept by (auto simp: covered_def)

text \<open>The descriptors the system may hand out, and those not yet in use.\<close>

definition descriptors :: "world \<Rightarrow> int set" where
  "descriptors w = {d. \<exists>r. add_watch w r = Inr d}"

definition unwatched :: "world \<Rightarrow> linux_watch \<Rightarrow> int set" where
  "unwatched w s = descriptors w - dom (folders s)"

lemma AddWatch_cases:
  obtains (new) d where "add_watch w r = Inr d" "folders s d = None" "AddWatch w r s = (Inr True, s\<lparr>folders := (folders s)(d \<mapsto> r)\<rparr>)"
  | (old) "AddWatch w r s = (Inr False, s)" "has_watch w s r \<or> gone w r"
  | (full) e where "e \<in> {ENOSPC, ENOMEM}" "AddWatch w r s = (Inl (GetLastSystemError e), s)"
proof (cases "add_watch w r")
  case (Inl e)
  then show ?thesis using old full[of e] by (cases "e = ENOSPC \<or> e = ENOMEM") (auto simp: AddWatch_def gone_def)
next
  case (Inr d)
  then show ?thesis using old new[of d] by (cases "folders s d = None") (auto simp: AddWatch_def has_watch_def)
qed

definition out_of_watches :: "error_code set" where
  "out_of_watches = {GetLastSystemError ENOSPC, GetLastSystemError ENOMEM}"

lemma out_of_watches_error: "e \<in> out_of_watches \<Longrightarrow> e \<noteq> no_error"
  by (auto simp: out_of_watches_def ENOSPC_def ENOMEM_def GetLastSystemError_def no_error_def)

lemma unwatched_new:
  assumes "add_watch w r = Inr d" and "folders s d = None" and "finite (descriptors w)"
  shows "card (unwatched w (s\<lparr>folders := (folders s)(d \<mapsto> r)\<rparr>)) + 1 = card (unwatched w s)"
proof -
  have "unwatched w (s\<lparr>folders := (folders s)(d \<mapsto> r)\<rparr>) = unwatched w s - {d}" by (auto simp: unwatched_def)
  moreover have "d \<in> unwatched w s" using assms by (auto simp: unwatched_def descriptors_def)
  moreover have "finite (unwatched w s)" using assms(3) by (simp add: unwatched_def)
  ultimately show ?thesis by (metis Suc_eq_plus1 card_Suc_Diff1)
qed

lemma watch_entries_spec:
  assumes "watch_entries w p es s pending = (e, s', pending')" and "finite (descriptors w)"
  shows "kept s s' \<and> (e = no_error \<or> e \<in> out_of_watches) \<and> set pending \<subseteq> set pending'
    \<and> length pending' + card (unwatched w s') = length pending + card (unwatched w s)
    \<and> (\<forall>d r. folders s' d = Some r \<longrightarrow> folders s d = None \<longrightarrow> r \<in> set pending' \<and> add_watch w r = Inr d)
    \<and> (e = no_error \<longrightarrow> (\<forall>name. (name, True) \<in> set es \<longrightarrow> has_watch w s' (p @ [name]) \<or> gone w (p @ [name])))"
  using assms(1)
proof (induction es arbitrary: s pending)
  case Nil
  then show ?case by (auto simp: kept_refl)
next
  case (Cons a es)
  obtain name isDir where a: "a = (name, isDir)" by (cases a)
  show ?case
  proof (cases isDir)
    case False
    then show ?thesis using Cons.IH[of s pending] Cons.prems a by simp
  next
    case True
    let ?c = "p @ [name]"
    show ?thesis
    proof (cases rule: AddWatch_cases[of w ?c s])
      case (new d)
      let ?s = "s\<lparr>folders := (folders s)(d \<mapsto> ?c)\<rparr>"
      have k: "kept s ?s" using new(2) by (auto simp: kept_def)
      have "watch_entries w p es ?s (pending @ [?c]) = (e, s', pending')" using Cons.prems True new(3) a by (simp add: Let_def)
      note ih = Cons.IH[OF this]
      have d: "folders s' d = Some ?c" using ih by (auto simp: kept_def)
      have "r \<in> set pending' \<and> add_watch w r = Inr q" if "folders s' q = Some r" "folders s q = None" for q r
      proof (cases "q = d")
        case True
        then show ?thesis using that(1) d new(1) ih by auto
      next
        case False
        then show ?thesis using that ih by simp
      qed
      moreover have "length pending' + card (unwatched w s') = length pending + card (unwatched w s)"
        using ih unwatched_new[OF new(1,2) assms(2)] by simp
      moreover have "kept s s'" using ih kept_trans[OF k] by blast
      moreover have "e = no_error \<longrightarrow> (\<forall>n. (n, True) \<in> set (a # es) \<longrightarrow> has_watch w s' (p @ [n]) \<or> gone w (p @ [n]))"
        using ih d new(1) a by (auto simp: has_watch_def)
      ultimately show ?thesis using ih by simp
    next
      case old
      have "watch_entries w p es s pending = (e, s', pending')" using Cons.prems True old(1) a by (simp add: Let_def)
      note ih = Cons.IH[OF this]
      have "has_watch w s' ?c \<or> gone w ?c" using ih old(2) has_watch_kept by blast
      then show ?thesis using ih a by auto
    next
      case (full c)
      have e: "GetLastSystemError c \<in> out_of_watches" using full(1) by (auto simp: out_of_watches_def)
      then show ?thesis using Cons.prems True full(2) out_of_watches_error[OF e] a by (auto simp: Let_def kept_refl)
    qed
  qed
qed

text \<open>What a walk from the folders \<open>ps\<close> achieves.\<close>

definition walked :: "world \<Rightarrow> rel list \<Rightarrow> linux_watch \<Rightarrow> error_code \<Rightarrow> linux_watch \<Rightarrow> bool" where
  "walked w ps s e s' \<longleftrightarrow> kept s s' \<and> (e = no_error \<or> e \<in> out_of_watches)
    \<and> (\<forall>d r. folders s' d = Some r \<longrightarrow> folders s d = None \<longrightarrow> add_watch w r = Inr d)
    \<and> (e = no_error \<longrightarrow> (\<forall>p\<in>set ps. covered w s' p)
        \<and> (\<forall>d r. folders s' d = Some r \<longrightarrow> folders s d = None \<longrightarrow> covered w s' r))"

lemma walk_spec:
  assumes "length pending + card (unwatched w s) \<le> fuel" and "finite (descriptors w)"
  shows "\<exists>e s'. walk fuel w pending s = Some (e, s') \<and> walked w pending s e s'"
  using assms(1)
proof (induction fuel arbitrary: pending s)
  case 0
  then show ?case by (simp add: walked_def kept_refl)
next
  case (Suc fuel)
  show ?case
  proof (cases pending)
    case Nil
    then show ?thesis by (simp add: walked_def kept_refl)
  next
    case (Cons p ps)
    obtain e1 s1 more where r: "watch_entries w p (listed w p) s ps = (e1, s1, more)" by (metis prod_cases3)
    note we = watch_entries_spec[OF r assms(2)]
    show ?thesis
    proof (cases "e1 = no_error")
      case False
      then show ?thesis using we r Cons by (intro exI[of _ e1] exI[of _ s1]) (auto simp: walked_def)
    next
      case True
      have "length more + card (unwatched w s1) \<le> fuel" using we Suc.prems Cons by simp
      from Suc.IH[OF this] obtain e s' where ih: "walk fuel w more s1 = Some (e, s')" "kept s1 s'" "e = no_error \<or> e \<in> out_of_watches"
        "\<forall>d r. folders s' d = Some r \<longrightarrow> folders s1 d = None \<longrightarrow> add_watch w r = Inr d"
        "e = no_error \<longrightarrow> (\<forall>p\<in>set more. covered w s' p) \<and> (\<forall>d r. folders s' d = Some r \<longrightarrow> folders s1 d = None \<longrightarrow> covered w s' r)"
        unfolding walked_def by blast
      have p1: "covered w s1 p" using we True by (simp add: covered_def)
      have new: "add_watch w r = Inr d \<and> (e = no_error \<longrightarrow> covered w s' r)" if "folders s' d = Some r" "folders s d = None" for d r
      proof (cases "folders s1 d")
        case None
        then show ?thesis using ih(4,5) that(1) by blast
      next
        case (Some r1)
        then have "r1 = r" using ih(2) that(1) by (simp add: kept_def)
        then show ?thesis using we ih(5) Some that(2) by blast
      qed
      have "walk (Suc fuel) w pending s = Some (e, s')" using r True ih(1) Cons by simp
      moreover have "kept s s'" using we ih(2) kept_trans by blast
      moreover have "\<forall>q\<in>set pending. covered w s' q" if "e = no_error"
        using ih(5) that we covered_kept[OF p1 ih(2)] Cons by auto
      ultimately show ?thesis using ih(3) new unfolding walked_def by blast
    qed
  qed
qed

subsection \<open>Everything that can be reached is watched\<close>

text \<open>
  Paths to the same folder list the same entries, all of them or as many before an error, and what is below them is the same; the root is watched under \<open>root\<close>.
\<close>

definition consistent :: "world \<Rightarrow> int \<Rightarrow> bool" where
  "consistent w root \<longleftrightarrow> add_watch w [] = Inr root
     \<and> (\<forall>r r' d. add_watch w r = Inr d \<longrightarrow> add_watch w r' = Inr d \<longrightarrow>
          set (listing w r) = set (listing w r') \<and> set (listed w r) = set (listed w r') \<and> (\<forall>name. add_watch w (r @ [name]) = add_watch w (r' @ [name])))"

text \<open>Every folder in the tree, links to folders included, whatever the system answers when it is to be watched.\<close>

inductive reached :: "world \<Rightarrow> rel \<Rightarrow> bool" for w where
  root: "reached w []"
| below: "reached w r \<Longrightarrow> (name, True) \<in> set (listing w r) \<Longrightarrow> reached w (r @ [name])"

text \<open>Out of reach are folders that are gone, those that their parent does not hand over before its listing fails, and what is below.\<close>

inductive out_of_reach :: "world \<Rightarrow> rel \<Rightarrow> bool" for w where
  refused: "gone w r \<Longrightarrow> out_of_reach w r"
| unlisted: "(name, True) \<in> set (listing w r) - set (listed w r) \<Longrightarrow> out_of_reach w (r @ [name])"
| deeper: "out_of_reach w r \<Longrightarrow> out_of_reach w (r @ [name])"

definition watches_tree :: "world \<Rightarrow> linux_watch \<Rightarrow> bool" where
  "watches_tree w s \<longleftrightarrow> (\<forall>r. reached w r \<longrightarrow> has_watch w s r \<or> out_of_reach w r)"

lemma walked_from_root:
  assumes "consistent w root" and "finite (descriptors w)" and "card (descriptors w) < fuel"
    and "folders s = [root \<mapsto> []]"
  shows "\<exists>e s'. WatchBelow fuel w [] s = Some (e, s') \<and> kept s s' \<and> (e = no_error \<or> e \<in> out_of_watches)
    \<and> (e = no_error \<longrightarrow> watches_tree w s')"
proof -
  have "unwatched w s = descriptors w - {root}" using assms(4) by (simp add: unwatched_def)
  then have "card (unwatched w s) \<le> card (descriptors w)" using card_Diff1_le[of "descriptors w" root] by simp
  then have "length [[] :: rel] + card (unwatched w s) \<le> fuel" using assms(3) by simp
  from walk_spec[OF this assms(2)] obtain e s' where found: "walk fuel w [[]] s = Some (e, s')" "walked w [[]] s e s'" by blast
  then have W: "kept s s'" "e = no_error \<or> e \<in> out_of_watches"
    "\<And>d r. folders s' d = Some r \<Longrightarrow> folders s d = None \<Longrightarrow> add_watch w r = Inr d" "e = no_error \<Longrightarrow> covered w s' []"
    "\<And>d r. e = no_error \<Longrightarrow> folders s' d = Some r \<Longrightarrow> folders s d = None \<Longrightarrow> covered w s' r"
    by (simp_all add: walked_def)
  have root: "folders s' root = Some []" using W(1) assms(4) by (simp add: kept_def)
  have all: "(\<exists>d r'. add_watch w r = Inr d \<and> folders s' d = Some r' \<and> add_watch w r' = Inr d \<and> covered w s' r') \<or> out_of_reach w r"
    if "reached w r" "e = no_error" for r
    using that
  proof induction
    case root
    then show ?case using W(4) \<open>folders s' root = Some []\<close> assms(1) by (auto simp: consistent_def)
  next
    case (below r name)
    show ?case
    proof (cases "out_of_reach w r \<or> (name, True) \<notin> set (listed w r) \<or> gone w (r @ [name])")
      case True
      then show ?thesis using below(2) out_of_reach.intros by blast
    next
      case False
      then obtain d r' where r': "add_watch w r = Inr d" "add_watch w r' = Inr d" "covered w s' r'" using below by blast
      have same: "set (listed w r) = set (listed w r')" "add_watch w (r @ [name]) = add_watch w (r' @ [name])"
        using assms(1) r'(1,2) unfolding consistent_def by blast+
      then have "has_watch w s' (r' @ [name])" using False r'(3) by (auto simp: covered_def gone_def)
      then obtain d' q where q: "add_watch w (r @ [name]) = Inr d'" "folders s' d' = Some q"
        using same(2) by (auto simp: has_watch_def split: sum.splits)
      show ?thesis
      proof (cases "d' = root")
        case True
        then show ?thesis using q root W(4) below.prems assms(1) by (auto simp: consistent_def)
      next
        case False
        then show ?thesis using q W(3,5) below.prems assms(4) by auto
      qed
    qed
  qed
  have "has_watch w s' r" if "add_watch w r = Inr d" "folders s' d = Some r'" for r d r' using that by (simp add: has_watch_def)
  then have "e = no_error \<longrightarrow> watches_tree w s'" using all unfolding watches_tree_def by blast
  then show ?thesis using found(1) W(1,2) by (auto simp: WatchBelow_def)
qed

definition rooted :: "linux_watch \<Rightarrow> bool" where
  "rooted s \<longleftrightarrow> folders s (rootWatch s) = Some []"

lemma rooted_kept: "rooted s \<Longrightarrow> kept s s' \<Longrightarrow> rooted s'"
  by (simp add: rooted_def kept_def)

lemma IsWithin_prefix: "IsWithin p r \<longleftrightarrow> take (length r) p = r"
  by (induction p r rule: IsWithin.induct) auto

lemma forget_all: "rooted s \<Longrightarrow> folders (ForgetBelow [] s) = [rootWatch s \<mapsto> []]"
  by (auto simp: ForgetBelow_def rooted_def fun_eq_iff split: option.splits)

text \<open>
  While events are read the root keeps its entry, and so do the scope and the descriptor of the root: only what the system says is
  gone and what was moved away is forgotten.
\<close>

definition same_watch :: "linux_watch \<Rightarrow> linux_watch \<Rightarrow> bool" where
  "same_watch s s' \<longleftrightarrow> rootWatch s' = rootWatch s \<and> l_scope s' = l_scope s \<and> (rooted s \<longrightarrow> rooted s')"

lemma same_watch_refl: "same_watch s s"
  by (simp add: same_watch_def)

lemma same_watch_trans: "same_watch s s' \<Longrightarrow> same_watch s' s'' \<Longrightarrow> same_watch s s''"
  by (simp add: same_watch_def)

lemma kept_same_watch: "kept s s' \<Longrightarrow> same_watch s s'"
  using rooted_kept by (auto simp: same_watch_def kept_def)

lemma has_or: "has m (a OR b) \<longleftrightarrow> has m a \<or> has m b"
  by (simp add: has_def bit.conj_disj_distrib or_eq_0_iff)

lemma ReadEvent_watch: "same_watch (p_watch r) (p_watch (ReadEvent w event r))"
proof -
  have "same_watch s (ForgetBelow path s)" for path s by (simp add: same_watch_def rooted_def ForgetBelow_def)
  moreover have "same_watch s (s\<lparr>folders := (folders s)(d := None)\<rparr>)" if "d \<noteq> rootWatch s" for s d
    using that by (simp add: same_watch_def rooted_def)
  ultimately show ?thesis
    unfolding ReadEvent_def RootGoneEvents_def has_or Let_def by (auto simp: same_watch_refl split: option.split)
qed

lemma ReadEvent_overflow:
  "(hasOverflowed (p_changes r) \<longrightarrow> shouldWalkAgain r) \<Longrightarrow> (hasOverflowed (p_changes (ReadEvent w event r)) \<longrightarrow> shouldWalkAgain (ReadEvent w event r))"
  unfolding ReadEvent_def Let_def by (auto split: option.split)

lemma events_watch:
  "same_watch (p_watch r) (p_watch (fold (fold (ReadEvent w)) buffers r))
   \<and> ((hasOverflowed (p_changes r) \<longrightarrow> shouldWalkAgain r) \<longrightarrow>
      (let r' = fold (fold (ReadEvent w)) buffers r in hasOverflowed (p_changes r') \<longrightarrow> shouldWalkAgain r'))"
proof -
  have one: "same_watch (p_watch r) (p_watch (fold (ReadEvent w) es r))
   \<and> ((hasOverflowed (p_changes r) \<longrightarrow> shouldWalkAgain r) \<longrightarrow>
      (let r' = fold (ReadEvent w) es r in hasOverflowed (p_changes r') \<longrightarrow> shouldWalkAgain r'))" for es r
  proof (induction es arbitrary: r)
    case (Cons ev es)
    show ?case
      using Cons.IH[of "ReadEvent w ev r"] same_watch_trans[OF ReadEvent_watch[of r w ev]] ReadEvent_overflow[of r w ev] by (auto simp: Let_def)
  qed (simp add: same_watch_refl)
  show ?thesis
  proof (induction buffers arbitrary: r)
    case (Cons es buffers)
    show ?case
      using Cons.IH[of "fold (ReadEvent w) es r"] same_watch_trans[of "p_watch r" "p_watch (fold (ReadEvent w) es r)"] one[of r es] by (auto simp: Let_def)
  qed (simp add: same_watch_refl)
qed

lemma walk_kept: "walk fuel w pending s = Some (e, s') \<Longrightarrow> finite (descriptors w) \<Longrightarrow> kept s s'"
proof (induction fuel arbitrary: pending s)
  case 0
  then show ?case by (cases pending) (simp_all add: kept_refl)
next
  case (Suc fuel)
  show ?case
  proof (cases pending)
    case (Cons p ps)
    obtain e1 s1 more where r: "watch_entries w p (listed w p) s ps = (e1, s1, more)" by (metis prod_cases3)
    have "kept s s1" using watch_entries_spec[OF r Suc.prems(2)] by blast
    moreover have "kept s1 s'" if "e1 = no_error" using Suc.IH[of more s1] Suc.prems r Cons that by simp
    ultimately show ?thesis using Suc.prems(1) r Cons kept_trans by (cases "e1 = no_error") auto
  qed (use Suc.prems in \<open>simp add: kept_refl\<close>)
qed

lemma watch_new_same: "watch_new fuel w fs e s = Some (e', s') \<Longrightarrow> finite (descriptors w) \<Longrightarrow> same_watch s s'"
proof (induction fs arbitrary: e s)
  case (Cons f fs)
  show ?case
  proof (cases "e = no_error")
    case True
    show ?thesis
    proof (cases rule: AddWatch_cases[of w f s])
      case (new d)
      let ?s = "s\<lparr>folders := (folders s)(d \<mapsto> f)\<rparr>"
      obtain e1 s2 where wb: "WatchBelow fuel w f ?s = Some (e1, s2)" "watch_new fuel w fs e1 s2 = Some (e', s')"
        using Cons.prems(1) True new(3) by (auto split: option.splits)
      have "kept s ?s" using new(2) by (auto simp: kept_def)
      then have "kept s s2" using walk_kept[of fuel w "[f]" ?s e1 s2] wb(1) Cons.prems(2) kept_trans by (auto simp: WatchBelow_def)
      then show ?thesis using Cons.IH[OF wb(2) Cons.prems(2)] kept_same_watch same_watch_trans by blast
    qed (use Cons True in auto)
  qed (use Cons in auto)
qed (simp add: same_watch_refl)

text \<open>C21.
  Watching a tree ends, with every folder below the root watched, or with the error that the system has no watches left.  When it
  reports success, a folder without a watch is one that is gone or cannot be read, one that its parent did not hand over because listing it failed, or below such a
  folder; want of watches is no reason.  Symbolic links that lead up or in circles do not keep it from ending, since a
  folder that is watched already is not entered again.
\<close>

theorem initialize_watches_tree:
  assumes "consistent w root" and "finite (descriptors w)" and "card (descriptors w) < fuel"
  shows "\<exists>e s. linux_Initialize fuel None (Inr root) w Tree = Some (e, s) \<and> (e = no_error \<or> e \<in> out_of_watches)
    \<and> (e = no_error \<longrightarrow> watches_tree w s \<and> rooted s)"
proof -
  let ?s = "\<lparr>l_scope = Tree, rootWatch = root, folders = [root \<mapsto> []]\<rparr>"
  have "folders ?s = [root \<mapsto> []]" "rooted ?s" by (simp_all add: rooted_def)
  then show ?thesis using walked_from_root[OF assms, of ?s] rooted_kept[of ?s] by (auto simp: linux_Initialize_def Let_def)
qed

text \<open>When the system has lost events, the changes that are reported say so and the whole tree is watched again: after a reading with an
  overflow that returns changes, every folder has a watch unless it is out of reach.
\<close>

theorem overflow_watches_tree:
  assumes "consistent w (rootWatch s)" and "finite (descriptors w)" and "rooted s" and "l_scope s = Tree"
    and "linux_ReadChanges fuel w buffers failure again s = Some (Inr changes, s')" and "hasOverflowed changes"
    and "card (descriptors w) < fuel"
  shows "watches_tree w s' \<and> rooted s' \<and> again = Inr (rootWatch s)"
proof -
  let ?r0 = "\<lparr>p_watch = s, p_changes = \<lparr>c_paths = [], hasOverflowed = False\<rparr>, newFolders = [], isRootGone = False, shouldWalkAgain = False\<rparr>"
  define r where "r = fold (fold (ReadEvent w)) buffers ?r0"
  obtain e1 e2 s2 e3 where steps: "watch_new fuel w (newFolders r) e1 (p_watch r) = Some (e2, s2)"
    "walk_again fuel w again (shouldWalkAgain r) e2 s2 = Some (e3, s')" "e3 = no_error" "changes = p_changes r"
    using assms(5) by (auto simp: linux_ReadChanges_def r_def[symmetric] Let_def split: option.splits if_splits)
  have ev: "same_watch s (p_watch r)" "hasOverflowed (p_changes r) \<longrightarrow> shouldWalkAgain r"
    using events_watch[of ?r0 w buffers] by (simp_all add: r_def Let_def)
  have s2: "rootWatch s2 = rootWatch s" "l_scope s2 = Tree" "rooted s2"
    using same_watch_trans[OF ev(1) watch_new_same[OF steps(1) assms(2)]] assms(3,4) by (simp_all add: same_watch_def)
  have walked: "again = Inr (rootWatch s2)" "WatchBelow fuel w [] (ForgetBelow [] s2) = Some (no_error, s')"
    using steps(2,3,4) ev(2) assms(6) s2(2) by (auto simp: walk_again_def split: if_splits)
  have f: "folders (ForgetBelow [] s2) = [rootWatch s \<mapsto> []]" using forget_all[OF s2(3)] s2(1) by simp
  have "rooted (ForgetBelow [] s2)" using f s2(1) by (simp add: rooted_def ForgetBelow_def)
  then show ?thesis
    using walked_from_root[OF assms(1,2,7) f] walked s2(1) rooted_kept by auto
qed

text \<open>A root with a folder \<open>a\<close> in it, and in that a link \<open>up\<close> that leads back to the root.\<close>

definition demo_step :: "int option \<Rightarrow> string \<Rightarrow> int option" where
  "demo_step n name = (if n = Some 1 \<and> name = ''a'' then Some 2 else if n = Some 2 \<and> name = ''up'' then Some 1 else None)"

definition demo_node :: "rel \<Rightarrow> int option" where
  "demo_node r = foldl demo_step (Some 1) r"

definition demo_world :: world where
  "demo_world = \<lparr>listing = (\<lambda>r. if demo_node r = Some 1 then [(''a'', True), (''f'', False)] else if demo_node r = Some 2 then [(''up'', True)] else []),
     listing_fails = (\<lambda>_. None), add_watch = (\<lambda>r. case demo_node r of Some d \<Rightarrow> Inr d | None \<Rightarrow> Inl 2), is_symlink = (\<lambda>r. demo_node r = Some 1)\<rparr>"

lemma demo_world_ok: "consistent demo_world 1" "finite (descriptors demo_world)" "card (descriptors demo_world) < 3"
proof -
  have node: "demo_node r \<in> {None, Some 1, Some 2}" for r
    by (induction r rule: rev_induct) (simp_all add: demo_node_def demo_step_def)
  have "d \<in> {1, 2}" if "add_watch demo_world r = Inr d" for d r
    using that node[of r] by (auto simp: demo_world_def split: option.splits)
  then have sub: "descriptors demo_world \<subseteq> {1, 2}" by (auto simp: descriptors_def)
  then show "finite (descriptors demo_world)" by (rule finite_subset) simp
  have "card (descriptors demo_world) \<le> card {1, 2 :: int}" using sub by (intro card_mono) simp_all
  then show "card (descriptors demo_world) < 3" by simp
  show "consistent demo_world 1"
    by (auto simp: consistent_def demo_world_def demo_node_def listed_def split: option.splits)
qed

theorem initialize_watches_tree_witness:
  "\<exists>s. linux_Initialize 3 None (Inr 1) demo_world Tree = Some (no_error, s) \<and> watches_tree demo_world s \<and> rooted s"
proof -
  have "\<exists>s. linux_Initialize 3 None (Inr 1) demo_world Tree = Some (no_error, s)"
    by (simp add: linux_Initialize_def WatchBelow_def numeral_3_eq_3 demo_world_def demo_node_def demo_step_def listed_def AddWatch_def Let_def)
  then show ?thesis using initialize_watches_tree[OF demo_world_ok] by auto
qed

text \<open>The same tree when listing the root fails at once: the start succeeds, and the folder \<open>a\<close> has no watch.\<close>

definition broken_world :: world where
  "broken_world = demo_world\<lparr>listing_fails := (\<lambda>r. if r = [] then Some 0 else None)\<rparr>"

lemma listing_error_unnoticed:
  "\<exists>s. linux_Initialize 3 None (Inr 1) broken_world Tree = Some (no_error, s)
     \<and> reached broken_world [''a''] \<and> \<not> gone broken_world [''a''] \<and> \<not> has_watch broken_world s [''a'']"
proof -
  have "reached broken_world ([] @ [''a''])"
    by (intro reached.intros) (simp add: broken_world_def demo_world_def demo_node_def)
  then show ?thesis
    by (simp add: linux_Initialize_def WatchBelow_def numeral_3_eq_3 broken_world_def demo_world_def demo_node_def demo_step_def listed_def
        gone_def has_watch_def Let_def)
qed

text \<open>And when the system has no watch left for it: the start fails.\<close>

lemma no_watch_left:
  "map_option fst (linux_Initialize 3 None (Inr 1) (demo_world\<lparr>add_watch := (\<lambda>r. if r = [] then Inr 1 else Inl ENOSPC)\<rparr>) Tree)
     = Some (GetLastSystemError ENOSPC)"
  by (simp add: linux_Initialize_def WatchBelow_def numeral_3_eq_3 demo_world_def demo_node_def demo_step_def listed_def AddWatch_def Let_def
      GetLastSystemError_def no_error_def ENOSPC_def)

definition demo_watch :: linux_watch where
  "demo_watch = \<lparr>l_scope = Tree, rootWatch = 1, folders = [1 \<mapsto> [], 9 \<mapsto> [''gone'']]\<rparr>"

theorem overflow_watches_tree_witness:
  "\<exists>changes s. linux_ReadChanges 3 demo_world [[\<lparr>e_wd = - 1, e_mask = IN_Q_OVERFLOW, e_name = []\<rparr>]] EAGAIN (Inr 1) demo_watch = Some (Inr changes, s)
     \<and> watches_tree demo_world s \<and> rooted s"
proof -
  let ?r = "linux_ReadChanges 3 demo_world [[\<lparr>e_wd = - 1, e_mask = IN_Q_OVERFLOW, e_name = []\<rparr>]] EAGAIN (Inr 1) demo_watch"
  have "\<exists>s. ?r = Some (Inr \<lparr>c_paths = [], hasOverflowed = True\<rparr>, s)"
    by (simp add: linux_ReadChanges_def ReadEvent_def has_def IN_Q_OVERFLOW_def walk_again_def WatchBelow_def numeral_3_eq_3 demo_watch_def
        demo_world_def demo_node_def demo_step_def listed_def AddWatch_def ForgetBelow_def EAGAIN_def Let_def)
  then obtain s where r: "?r = Some (Inr \<lparr>c_paths = [], hasOverflowed = True\<rparr>, s)" ..
  have "consistent demo_world (rootWatch demo_watch)" "rooted demo_watch" "l_scope demo_watch = Tree"
    using demo_world_ok(1) by (simp_all add: demo_watch_def rooted_def)
  from overflow_watches_tree[OF this(1) demo_world_ok(2) this(2,3) r _ demo_world_ok(3)] r show ?thesis by auto
qed

subsection \<open>Windows\<close>

text \<open>
  One read of changes is always under way; the system writes into the buffer until it ends.  \<open>folder\<close> and \<open>event\<close> say whether the handles
  are open, and \<open>busy\<close> whether the system may still write into the buffer.
\<close>

record windows_watch =
  w_scope :: EWatchScope
  w_folder :: bool
  w_event :: bool
  isReadPending :: bool
  busy :: bool

datatype notify_action = Added | Removed | Modified | Renamed

text \<open>\<open>ReadDirectoryChangesW\<close> answers with an error or starts a read.\<close>

definition IssueRead :: "int option \<Rightarrow> windows_watch \<Rightarrow> error_code \<times> windows_watch" where
  "IssueRead a s =
     (case a of
        None \<Rightarrow> (no_error, s\<lparr>isReadPending := True, busy := True\<rparr>)
      | Some e \<Rightarrow> (GetLastSystemError e, s\<lparr>isReadPending := False\<rparr>))"

fun CollectPaths :: "(rel \<Rightarrow> bool) \<Rightarrow> (notify_action \<times> rel) list \<Rightarrow> SDirectoryChanges \<Rightarrow> SDirectoryChanges" where
  "CollectPaths is_dir [] changes = changes"
| "CollectPaths is_dir ((act, path) # es) changes =
     CollectPaths is_dir es
       (if act \<noteq> Modified \<or> \<not> is_dir path then changes\<lparr>c_paths := c_paths changes @ [path]\<rparr> else changes)"

definition Release :: "windows_watch \<Rightarrow> windows_watch" where
  "Release s =
     (let s1 = (if isReadPending s then s\<lparr>busy := False, isReadPending := False\<rparr> else s);
          s2 = (if w_folder s1 then s1\<lparr>w_folder := False\<rparr> else s1)
      in if w_event s2 then s2\<lparr>w_event := False\<rparr> else s2)"

text \<open>\<open>Initialize\<close>: \<open>opened\<close> answers both \<open>CreateFileW\<close> and the question for attributes, with whether the path is a folder.\<close>

definition windows_Initialize :: "int option \<Rightarrow> int + bool \<Rightarrow> int option \<Rightarrow> int option \<Rightarrow> EWatchScope \<Rightarrow> error_code \<times> windows_watch" where
  "windows_Initialize opened information made issued scope =
     (let s = \<lparr>w_scope = scope, w_folder = (opened = None), w_event = False, isReadPending = False, busy = False\<rparr>;
          (error, s1) = (case opened of
             Some e \<Rightarrow> (GetLastSystemError e, s)
           | None \<Rightarrow>
               (case information of
                  Inl e \<Rightarrow> (GetLastSystemError e, s)
                | Inr isDir \<Rightarrow>
                    if \<not> isDir then (make_error_code not_a_directory, s)
                    else (case made of
                            Some e \<Rightarrow> (GetLastSystemError e, s)
                          | None \<Rightarrow> IssueRead issued (s\<lparr>w_event := True\<rparr>))))
      in (error, if error \<noteq> no_error then Release s1 else s1))"

definition ERROR_IO_INCOMPLETE :: int where "ERROR_IO_INCOMPLETE = 996"
definition ERROR_NOTIFY_ENUM_DIR :: int where "ERROR_NOTIFY_ENUM_DIR = 1022"

text \<open>\<open>ReadChanges\<close>: the read under way has ended with entries, or with none of them kept, or fails with a code.\<close>

definition reissue :: "int option \<Rightarrow> SDirectoryChanges \<Rightarrow> windows_watch \<Rightarrow> (error_code + SDirectoryChanges) \<times> windows_watch" where
  "reissue issued changes s =
     (case IssueRead issued (s\<lparr>isReadPending := False, busy := False\<rparr>) of
        (error, s1) \<Rightarrow> (if error \<noteq> no_error then Inl error else Inr changes, s1))"

definition windows_ReadChanges ::
    "(rel \<Rightarrow> bool) \<Rightarrow> int + (notify_action \<times> rel) list \<Rightarrow> int option \<Rightarrow> windows_watch \<Rightarrow> (error_code + SDirectoryChanges) \<times> windows_watch" where
  "windows_ReadChanges is_dir overlapped issued s =
     (if \<not> isReadPending s then (Inl (make_error_code operation_canceled), s)
      else (case overlapped of
              Inr es \<Rightarrow> reissue issued (CollectPaths is_dir es \<lparr>c_paths = [], hasOverflowed = (es = [])\<rparr>) s
            | Inl e \<Rightarrow>
                if e = ERROR_NOTIFY_ENUM_DIR then reissue issued \<lparr>c_paths = [], hasOverflowed = True\<rparr> s
                else if e \<noteq> ERROR_IO_INCOMPLETE then (Inl (GetLastSystemError e), s\<lparr>isReadPending := False, busy := False\<rparr>)
                else (Inr \<lparr>c_paths = [], hasOverflowed = False\<rparr>, s)))"

lemma CollectPaths_filter:
  "c_paths (CollectPaths is_dir es changes) = c_paths changes @ map snd (filter (\<lambda>(act, path). act \<noteq> Modified \<or> \<not> is_dir path) es)"
  by (induction is_dir es changes rule: CollectPaths.induct) auto

inductive windows_used :: "windows_watch \<Rightarrow> bool" where
  started: "windows_Initialize opened information made issued scope = (no_error, s) \<Longrightarrow>
     opened \<noteq> Some 0 \<Longrightarrow> information \<noteq> Inl 0 \<Longrightarrow> made \<noteq> Some 0 \<Longrightarrow> issued \<noteq> Some 0 \<Longrightarrow> windows_used s"
| read: "windows_used s \<Longrightarrow> windows_used (snd (windows_ReadChanges is_dir overlapped issued s))"

text \<open>The buffer and the handles are given up only when the system no longer writes, and nothing stays open.\<close>

lemma windows_used_pending: "windows_used s \<Longrightarrow> (busy s \<longrightarrow> isReadPending s) \<and> w_folder s \<and> w_event s"
  by (induction rule: windows_used.induct)
    (auto simp: windows_Initialize_def windows_ReadChanges_def reissue_def IssueRead_def Release_def Let_def split: option.splits sum.splits if_splits)

lemma released: "windows_used s \<Longrightarrow> Release s = \<lparr>w_scope = w_scope s, w_folder = False, w_event = False, isReadPending = False, busy = False\<rparr>"
  using windows_used_pending[of s] by (auto simp: Release_def Let_def)

subsection \<open>The owner\<close>

text \<open>\<open>CDirectoryWatch\<close>: the watch it keeps once it is started, and how many descriptors or handles the process has open for it.\<close>

record 'w watch_owner =
  m_pWatch :: "'w option"
  opened :: nat

definition linux_CDirectoryWatch_Initialize ::
    "nat \<Rightarrow> int option \<Rightarrow> int + int \<Rightarrow> world \<Rightarrow> EWatchScope \<Rightarrow> linux_watch watch_owner \<Rightarrow> ((error_code + unit) \<times> linux_watch watch_owner) option" where
  "linux_CDirectoryWatch_Initialize fuel init root w scope s =
     (case linux_Initialize fuel init root w scope of
        None \<Rightarrow> None
      | Some (error, watch) \<Rightarrow>
          (let o1 = (if init = None then opened s + 1 else opened s);
               o2 = (if error \<noteq> no_error \<and> init = None then o1 - 1 else o1)
           in Some (expected_of error, s\<lparr>m_pWatch := (if error = no_error then Some watch else m_pWatch s), opened := o2\<rparr>)))"

definition linux_CDirectoryWatch_Terminate :: "linux_watch watch_owner \<Rightarrow> linux_watch watch_owner" where
  "linux_CDirectoryWatch_Terminate s = (if m_pWatch s \<noteq> None then s\<lparr>opened := opened s - 1, m_pWatch := None\<rparr> else s)"

definition open_handles :: "windows_watch \<Rightarrow> nat" where
  "open_handles w = of_bool (w_folder w) + of_bool (w_event w)"

definition windows_CDirectoryWatch_Initialize ::
    "int option \<Rightarrow> int + bool \<Rightarrow> int option \<Rightarrow> int option \<Rightarrow> EWatchScope \<Rightarrow> windows_watch watch_owner \<Rightarrow>
     (error_code + unit) \<times> windows_watch watch_owner" where
  "windows_CDirectoryWatch_Initialize created information made issued scope s =
     (case windows_Initialize created information made issued scope of
        (error, watch) \<Rightarrow>
          (expected_of error,
           s\<lparr>m_pWatch := (if error = no_error then Some watch else m_pWatch s), opened := opened s + open_handles watch\<rparr>))"

definition windows_CDirectoryWatch_Terminate :: "windows_watch watch_owner \<Rightarrow> windows_watch watch_owner" where
  "windows_CDirectoryWatch_Terminate s =
     (case m_pWatch s of
        None \<Rightarrow> s
      | Some watch \<Rightarrow> s\<lparr>opened := opened s - open_handles watch + open_handles (Release watch), m_pWatch := None\<rparr>)"

text \<open>A start that fails leaves nothing open, and the end of a watch that was started closes all of it.\<close>

lemma linux_watch_balanced:
  assumes "linux_CDirectoryWatch_Initialize fuel init root w scope \<lparr>m_pWatch = None, opened = n\<rparr> = Some (r, s)" and "init \<noteq> Some 0"
  shows "opened (linux_CDirectoryWatch_Terminate s) = n \<and> (r \<noteq> Inr () \<longrightarrow> opened s = n \<and> m_pWatch s = None)"
  using assms
  by (auto simp: linux_CDirectoryWatch_Initialize_def linux_CDirectoryWatch_Terminate_def linux_Initialize_def Let_def expected_of_def
      split: option.splits if_splits)

lemma windows_watch_balanced:
  assumes "windows_CDirectoryWatch_Initialize created information made issued scope \<lparr>m_pWatch = None, opened = n\<rparr> = (r, s)"
  shows "opened (windows_CDirectoryWatch_Terminate s) = n \<and> (r \<noteq> Inr () \<longrightarrow> opened s = n \<and> m_pWatch s = None)"
  using assms
  by (auto simp: windows_CDirectoryWatch_Initialize_def windows_CDirectoryWatch_Terminate_def windows_Initialize_def Release_def IssueRead_def
      open_handles_def Let_def expected_of_def split: option.splits sum.splits if_splits)

end
