(* ===== verification/Program_Search.thy ===== *)
theory Program_Search
  imports Command_Line Os_Errors
begin

section \<open>Finding the program of a child process on Windows\<close>

text \<open>
  Models the search for a program in \<^verbatim>\<open>private/process/child_process.cpp\<close> and \<^verbatim>\<open>private/process/is_runnable.cpp\<close>: \<open>PATH\<close> and \<open>PATHEXT\<close>
  split at semicolons, the extensions that Windows starts by itself, and the errors that tell a missing program from one that cannot be
  started.  Strings stand for the wide ones of the source.  Of \<open>std::filesystem::path\<close> the parts that are used are modelled after the
  Windows library: the root of a path, its extension and joining a name to a folder; the joining and normalising of a relative path
  with folders in it is an argument, and so are the environment and what the disk holds.
\<close>

subsection \<open>Paths on Windows\<close>

definition is_sep :: "char \<Rightarrow> bool" where
  "is_sep c \<longleftrightarrow> c = CHR ''/'' \<or> c = backslash"

definition is_drive_letter :: "char \<Rightarrow> bool" where
  "is_drive_letter c \<longleftrightarrow> (65 :: nat) \<le> of_char c \<and> of_char c \<le> (90 :: nat) \<or> (97 :: nat) \<le> of_char c \<and> of_char c \<le> (122 :: nat)"

definition has_drive :: "string \<Rightarrow> bool" where
  "has_drive p \<longleftrightarrow> 2 \<le> length p \<and> is_drive_letter (p ! 0) \<and> p ! 1 = CHR '':''"

text \<open>The length of the root name: a drive, a device prefix, or the name of a server.\<close>

definition root_name_length :: "string \<Rightarrow> nat" where
  "root_name_length p =
     (if has_drive p then 2
      else if p = [] \<or> \<not> is_sep (hd p) then 0
      else if 4 \<le> length p \<and> is_sep (p ! 3) \<and> (length p = 4 \<or> \<not> is_sep (p ! 4))
          \<and> (is_sep (p ! 1) \<and> (p ! 2 = CHR ''?'' \<or> p ! 2 = CHR ''.'') \<or> p ! 1 = CHR ''?'' \<and> p ! 2 = CHR ''?'') then 3
      else if 3 \<le> length p \<and> is_sep (p ! 1) \<and> \<not> is_sep (p ! 2) then 2 + length (takeWhile (\<lambda>c. \<not> is_sep c) (drop 2 p))
      else 0)"

definition is_absolute :: "string \<Rightarrow> bool" where
  "is_absolute p \<longleftrightarrow> (if has_drive p then 3 \<le> length p \<and> is_sep (p ! 2) else 0 < root_name_length p)"

definition is_bare :: "string \<Rightarrow> bool" where
  "is_bare p \<longleftrightarrow> root_name_length p = 0 \<and> list_all (\<lambda>c. \<not> is_sep c) p"

definition filename :: "string \<Rightarrow> string" where
  "filename p = rev (takeWhile (\<lambda>c. \<not> is_sep c) (rev (drop (root_name_length p) p)))"

definition extension :: "string \<Rightarrow> string" where
  "extension p =
     (let name = takeWhile (\<lambda>c. c \<noteq> CHR '':'') (filename p);
          ext = rev (takeWhile (\<lambda>c. c \<noteq> CHR ''.'') (rev name))
      in if name = ''..'' \<or> length name \<le> length ext + 1 then [] else CHR ''.'' # ext)"

definition join :: "string \<Rightarrow> string \<Rightarrow> string" where
  "join folder name = (if folder = [] \<or> is_sep (last folder) then folder @ name else folder @ [backslash] @ name)"

subsection \<open>The search\<close>

definition DefaultCompletions :: string where
  "DefaultCompletions = ''.COM;.EXE''"

text \<open>The loop over a list with \<open>start\<close> moving behind each semicolon; the entry after the last one is part of it.\<close>

function split_list :: "string \<Rightarrow> nat \<Rightarrow> string list \<Rightarrow> string list" where
  "split_list s start entries =
     (if start \<le> length s
      then (let stop = start + length (takeWhile (\<lambda>c. c \<noteq> CHR '';'') (drop start s))
            in split_list s (stop + 1) (entries @ [take (stop - start) (drop start s)]))
      else entries)"
  by pat_completeness auto
termination
  by (relation "measure (\<lambda>(s, start, _). Suc (length s) - start)") auto

declare split_list.simps [simp del]

definition SplitList :: "string \<Rightarrow> string list" where
  "SplitList s = split_list s 0 []"

definition GetCompletions :: "(string \<Rightarrow> string) \<Rightarrow> string list" where
  "GetCompletions env =
     (let pathExt = env ''PATHEXT''
      in filter IsStartableExtension (SplitList (if pathExt = [] then DefaultCompletions else pathExt)))"

record found =
  f_result :: "error_code + string"
  f_isFound :: bool
  f_isUnstartable :: bool

definition unquoted :: "string \<Rightarrow> string" where
  "unquoted entry =
     (if 2 \<le> length entry \<and> hd entry = quote \<and> last entry = quote then take (length entry - 2) (drop 1 entry) else entry)"

definition try_completion :: "(string \<Rightarrow> bool) \<Rightarrow> string \<Rightarrow> string \<Rightarrow> string \<Rightarrow> found \<Rightarrow> found" where
  "try_completion regular folder name completion r =
     (let candidate = join folder (name @ completion)
      in if \<not> f_isFound r \<and> regular candidate then r\<lparr>f_result := Inr candidate, f_isFound := True\<rparr> else r)"

definition try_entry :: "(string \<Rightarrow> bool) \<Rightarrow> bool \<Rightarrow> string list \<Rightarrow> string \<Rightarrow> string \<Rightarrow> found \<Rightarrow> found" where
  "try_entry regular isComplete completions name entry r =
     (let folder = unquoted entry
      in if \<not> f_isFound r \<and> is_absolute folder
         then (let r1 = fold (try_completion regular folder name) completions r
               in r1\<lparr>f_isUnstartable := f_isUnstartable r1 \<or> (\<not> isComplete \<and> regular (join folder name))\<rparr>)
         else r)"

definition FindInPath :: "(string \<Rightarrow> string) \<Rightarrow> (string \<Rightarrow> bool) \<Rightarrow> string \<Rightarrow> error_code + string" where
  "FindInPath env regular name =
     (let isComplete = IsStartableExtension (extension name);
          completions = (if isComplete then [[]] else GetCompletions env);
          r = fold (try_entry regular isComplete completions name) (SplitList (env ''PATH''))
                \<lparr>f_result = Inl (make_error_code no_such_file_or_directory), f_isFound = False, f_isUnstartable = False\<rparr>
      in if \<not> f_isFound r \<and> f_isUnstartable r then Inl (make_error_code executable_format_error) else f_result r)"

datatype file_status = Not_Found | Is_Directory | Is_File

definition CheckProgram :: "(string \<Rightarrow> file_status) \<Rightarrow> string \<Rightarrow> error_code + string" where
  "CheckProgram status program =
     (if status program = Not_Found then Inl (make_error_code no_such_file_or_directory)
      else if status program = Is_Directory then Inl (make_error_code is_a_directory)
      else if \<not> IsStartableExtension (extension program) then Inl (make_error_code executable_format_error)
      else Inr program)"

definition ResolveProgram ::
    "(string \<Rightarrow> string) \<Rightarrow> (string \<Rightarrow> file_status) \<Rightarrow> (string \<Rightarrow> string \<Rightarrow> string) \<Rightarrow> string \<Rightarrow> string \<Rightarrow> string \<Rightarrow> error_code + string" where
  "ResolveProgram env status place current program workingDir =
     (let base = (if workingDir = [] then current else workingDir)
      in if is_bare program then FindInPath env (\<lambda>p. status p = Is_File) program
         else CheckProgram status (if is_absolute program then program else place base program))"

definition windows_IsRunnable :: "(string \<Rightarrow> file_status) \<Rightarrow> string \<Rightarrow> bool" where
  "windows_IsRunnable status p \<longleftrightarrow> status p = Is_File \<and> IsStartableExtension (extension p)"

subsection \<open>Splitting is the usual one\<close>

lemma split_list_at: "start \<le> length s \<Longrightarrow> split_list s start es = es @ split_at (\<lambda>c. c = CHR '';'') (drop start s)"
proof (induction s start es rule: split_list.induct)
  case (1 s start es)
  let ?P = "\<lambda>c. c = CHR '';''" and ?r = "drop start s"
  let ?x = "takeWhile (\<lambda>c. c \<noteq> CHR '';'') ?r"
  let ?stop = "start + length ?x"
  have plain: "\<And>c. c \<in> set ?x \<Longrightarrow> \<not> ?P c" by (auto dest: set_takeWhileD)
  have x: "take (?stop - start) ?r = ?x" by (simp add: takeWhile_eq_take[symmetric])
  have parts: "?x @ dropWhile (\<lambda>c. c \<noteq> CHR '';'') ?r = ?r" by simp
  have step: "split_list s start es = split_list s (?stop + 1) (es @ [?x])"
    using 1(2) x by (subst split_list.simps) (simp add: Let_def)
  show ?case
  proof (cases "dropWhile (\<lambda>c. c \<noteq> CHR '';'') ?r")
    case Nil
    then have r: "?x = ?r" using parts by simp
    have "length ?x = length s - start" by (simp only: r length_drop)
    then have "\<not> ?stop + 1 \<le> length s" using 1(2) by linarith
    then have "split_list s (?stop + 1) (es @ [?x]) = es @ [?x]" by (subst split_list.simps) (simp only: if_False)
    moreover have "split_at ?P ?r = [?r]" using plain unfolding r by (rule split_at_plain)
    ultimately show ?thesis using step r by simp
  next
    case (Cons c ys)
    have c: "c = CHR '';''" using Cons hd_dropWhile[of "\<lambda>c. c \<noteq> CHR '';''" ?r] by simp
    have r: "?r = ?x @ CHR '';'' # ys" using parts Cons c by simp
    have "length ?r = length ?x + 1 + length ys" by (subst r) simp
    then have len: "?stop + 1 \<le> length s" using 1(2) by simp
    have "drop (?stop + 1) s = drop (length ?x + 1) ?r" by (simp add: add.commute add.left_commute)
    also have "\<dots> = ys" by (subst r) simp
    finally have ys: "drop (?stop + 1) s = ys" .
    have "split_list s (?stop + 1) (es @ [?x]) = (es @ [?x]) @ split_at ?P ys"
      using 1(1)[OF 1(2) refl] len x ys by simp
    moreover have "split_at ?P ?r = ?x # split_at ?P ys" using split_at_sep[of ?x ?P "CHR '';''" ys] plain r by simp
    ultimately show ?thesis using step by simp
  qed
qed

lemma SplitList_split: "SplitList s = split_at (\<lambda>c. c = CHR '';'') s"
  using split_list_at[of 0 s "[]"] by (simp add: SplitList_def)

subsection \<open>The first program in the order of the search\<close>

definition candidates :: "string list \<Rightarrow> string list \<Rightarrow> string \<Rightarrow> string list" where
  "candidates entries completions name =
     concat (map (\<lambda>folder. map (\<lambda>c. join folder (name @ c)) completions) (filter is_absolute (map unquoted entries)))"

lemma completions_first:
  "fold (try_completion regular folder name) cs r =
     (if f_isFound r then r
      else (case List.find regular (map (\<lambda>c. join folder (name @ c)) cs) of
              None \<Rightarrow> r
            | Some p \<Rightarrow> r\<lparr>f_result := Inr p, f_isFound := True\<rparr>))"
  by (induction cs arbitrary: r) (auto simp: try_completion_def Let_def)

lemma find_append: "List.find P (xs @ ys) = (case List.find P xs of None \<Rightarrow> List.find P ys | Some x \<Rightarrow> Some x)"
  by (induction xs) auto

lemma entries_first:
  assumes "f_isFound r \<or> f_result r = Inl e"
  shows "let r' = fold (try_entry regular isComplete cs name) es r
    in f_isFound r' = (f_isFound r \<or> List.find regular (candidates es cs name) \<noteq> None)
     \<and> f_result r' = (if f_isFound r then f_result r
         else (case List.find regular (candidates es cs name) of Some p \<Rightarrow> Inr p | None \<Rightarrow> Inl e))
     \<and> (\<not> f_isFound r' \<longrightarrow> f_isUnstartable r' = (f_isUnstartable r
         \<or> \<not> isComplete \<and> list_ex (\<lambda>folder. regular (join folder name)) (filter is_absolute (map unquoted es))))"
  using assms
proof (induction es arbitrary: r)
  case Nil
  then show ?case by (auto simp: candidates_def)
next
  case (Cons entry es)
  let ?f = "unquoted entry" and ?r = "try_entry regular isComplete cs name entry r"
  have c: "candidates (entry # es) cs name = (if is_absolute ?f then map (\<lambda>c. join ?f (name @ c)) cs else []) @ candidates es cs name"
    by (simp add: candidates_def)
  have f: "filter is_absolute (map unquoted (entry # es)) = (if is_absolute ?f then [?f] else []) @ filter is_absolute (map unquoted es)"
    by simp
  show ?case
  proof (cases "f_isFound r \<or> \<not> is_absolute ?f")
    case True
    then have "?r = r" by (auto simp: try_entry_def Let_def)
    then show ?thesis using Cons.IH[of r] Cons.prems True c f by (auto simp: Let_def)
  next
    case False
    note r = completions_first[of regular ?f name cs r]
    show ?thesis
    proof (cases "List.find regular (map (\<lambda>c. join ?f (name @ c)) cs)")
      case None
      then have "?r = r\<lparr>f_isUnstartable := f_isUnstartable r \<or> (\<not> isComplete \<and> regular (join ?f name))\<rparr>"
        using False r by (simp add: try_entry_def Let_def)
      then show ?thesis using Cons.IH[of ?r] Cons.prems False None c f by (auto simp: Let_def find_append)
    next
      case (Some p)
      then have "f_isFound ?r" "f_result ?r = Inr p" using False r by (simp_all add: try_entry_def Let_def)
      then show ?thesis using Cons.IH[of ?r] False Some c by (auto simp: Let_def find_append)
    qed
  qed
qed

text \<open>A bare name is found as the first regular file in the order of \<open>PATH\<close>, and in each folder in the order of \<open>PATHEXT\<close>, among the
  folders that are absolute and the extensions that Windows starts itself; the current folder is never searched.  Without one, a file that
  has just that name in such a folder is reported as one that cannot be started, and everything else as missing.
\<close>

theorem FindInPath_first:
  "FindInPath env regular name =
     (let isComplete = IsStartableExtension (extension name);
          entries = split_at (\<lambda>c. c = CHR '';'') (env ''PATH'');
          completions = (if isComplete then [[]] else GetCompletions env)
      in case List.find regular (candidates entries completions name) of
           Some p \<Rightarrow> Inr p
         | None \<Rightarrow>
             if \<not> isComplete \<and> list_ex (\<lambda>folder. regular (join folder name)) (filter is_absolute (map unquoted entries))
             then Inl (make_error_code executable_format_error)
             else Inl (make_error_code no_such_file_or_directory))"
proof -
  let ?r = "\<lparr>f_result = Inl (make_error_code no_such_file_or_directory), f_isFound = False, f_isUnstartable = False\<rparr>"
  show ?thesis
    using entries_first[of ?r "make_error_code no_such_file_or_directory" regular "IsStartableExtension (extension name)"
        "if IsStartableExtension (extension name) then [[]] else GetCompletions env" name "split_at (\<lambda>c. c = CHR '';'') (env ''PATH'')"]
    by (auto simp: FindInPath_def SplitList_split Let_def split: option.splits)
qed

subsection \<open>The path of this program\<close>

text \<open>
  Models \<^verbatim>\<open>private/process/get_program_path.cpp\<close>.  On Windows the system answers a length, the characters it has written into the buffer and the last error; on Linux what the
  symbolic link to the program holds.
\<close>

definition MaxPathLength :: nat where
  "MaxPathLength = 32768"

definition path_or_error :: "error_code \<Rightarrow> string \<Rightarrow> error_code + string" where
  "path_or_error error path = (case error of Error_Code _ value \<Rightarrow> if value = 0 then Inr path else Inl error)"

definition windows_GetProgramPath :: "nat \<Rightarrow> string \<Rightarrow> int \<Rightarrow> error_code + string" where
  "windows_GetProgramPath length_answered buffer last_error =
     (let isWhole = (length_answered \<noteq> 0 \<and> length_answered < MaxPathLength)
      in path_or_error (GetLastSystemError (if isWhole then 0 else last_error)) (take (if isWhole then length_answered else 0) buffer))"

definition linux_GetProgramPath :: "int + string \<Rightarrow> error_code + string" where
  "linux_GetProgramPath link = (case link of Inl e \<Rightarrow> path_or_error (GetLastSystemError e) [] | Inr path \<Rightarrow> path_or_error no_error path)"

text \<open>
  As \<open>GetModuleFileNameW\<close> is documented: a name that fits is written whole, one that does not is cut off with the length of the buffer as the answer, and an error is set.  So a path that is returned is
  never cut off.
\<close>

definition module_file_name :: "string \<Rightarrow> nat \<times> string" where
  "module_file_name name = (if length name < MaxPathLength then (length name, name @ replicate (MaxPathLength - length name) (CHR 0x00)) else (MaxPathLength, take MaxPathLength name))"

lemma program_path_whole:
  assumes "module_file_name name = (n, buffer)" "name \<noteq> []" "error \<noteq> 0"
  shows "windows_GetProgramPath n buffer error = (if length name < MaxPathLength then Inr name else Inl (GetLastSystemError error))"
  using assms by (auto simp: module_file_name_def windows_GetProgramPath_def path_or_error_def GetLastSystemError_def Let_def split: if_splits)

end
