(* ===== verification/Child_Process.thy ===== *)
theory Child_Process
  imports Program_Search
begin

section \<open>Starting and awaiting a child process\<close>

text \<open>
  Models the rest of \<^verbatim>\<open>private/process/child_process.cpp\<close> and \<^verbatim>\<open>private/process/output_file.cpp\<close>: what is handed to the system to start a
  child on each platform, what is closed again, and the states of a child until its end is known.  What the calls answer is an
  argument.
\<close>

record SProcessSpec =
  program :: string
  arguments :: "string list"
  workingDir :: string

record SExitStatus =
  exit_code :: u32
  signal :: string

subsection \<open>Linux: what is asked of the system\<close>

datatype file_action = Dup2 int int | OpenAt int string | Chdir string | CloseFrom int

definition DevNull :: string where "DevNull = ''/dev/null''"
definition STDIN_FILENO :: int where "STDIN_FILENO = 0"
definition STDOUT_FILENO :: int where "STDOUT_FILENO = 1"
definition STDERR_FILENO :: int where "STDERR_FILENO = 2"
definition FirstUnusedDescriptor :: int where "FirstUnusedDescriptor = STDERR_FILENO + 1"

lemmas fileno_defs = STDIN_FILENO_def STDOUT_FILENO_def STDERR_FILENO_def FirstUnusedDescriptor_def

definition spawn_actions :: "string \<Rightarrow> int \<Rightarrow> file_action list" where
  "spawn_actions dir output =
     [if 0 \<le> output then Dup2 output STDOUT_FILENO else OpenAt STDOUT_FILENO DevNull, Dup2 STDOUT_FILENO STDERR_FILENO,
      OpenAt STDIN_FILENO DevNull]
     @ (if dir \<noteq> [] then [Chdir dir] else []) @ [CloseFrom FirstUnusedDescriptor]"

record spawn_answers =
  s_initActions :: int
  s_initAttributes :: int
  s_applies :: "int list"
  s_spawn :: "int + int"

record spawn_request =
  r_search :: bool
  r_argv :: "string list"
  r_actions :: "file_action list"

text \<open>\<open>apply\<close> keeps the first code that is not zero; three calls on the attributes follow those for the actions.\<close>

definition apply_code :: "int \<Rightarrow> int \<Rightarrow> int" where
  "apply_code code error = (if error = 0 then code else error)"

record spawned =
  sp_error :: int
  sp_pid :: int
  sp_request :: "spawn_request option"
  sp_destroyed :: "bool \<times> bool"

definition Spawn :: "spawn_answers \<Rightarrow> SProcessSpec \<Rightarrow> int \<Rightarrow> spawned" where
  "Spawn a spec output =
     (let argv = program spec # arguments spec;
          hasActions = (s_initActions a = 0);
          error1 = (if hasActions then s_initAttributes a else s_initActions a);
          hasAttributes = (hasActions \<and> error1 = 0);
          actions = spawn_actions (workingDir spec) output;
          error2 = (if hasAttributes then fold apply_code (take (length actions + 3) (s_applies a)) error1 else error1);
          request = (if hasAttributes \<and> error2 = 0
                     then Some \<lparr>r_search = (CHR ''/'' \<notin> set (program spec)), r_argv = argv, r_actions = actions\<rparr> else None);
          (error3, pid) = (if request \<noteq> None then (case s_spawn a of Inl e \<Rightarrow> (e, 0) | Inr p \<Rightarrow> (0, p)) else (error2, 0))
      in \<lparr>sp_error = error3, sp_pid = pid, sp_request = request, sp_destroyed = (hasAttributes, hasActions)\<rparr>)"

subsection \<open>Linux: what the child gets\<close>

text \<open>
  The descriptors of a process: what each one is open on, and whether it is closed when a program is started.  The actions run in the child,
  in order; duplicating a descriptor onto itself only makes it stay open.
\<close>

type_synonym descriptor_table = "int \<rightharpoonup> string \<times> bool"

fun run_action :: "file_action \<Rightarrow> descriptor_table \<Rightarrow> descriptor_table option" where
  "run_action (Dup2 a b) t = (case t a of None \<Rightarrow> None | Some (what, _) \<Rightarrow> Some (t(b \<mapsto> (what, False))))"
| "run_action (OpenAt n what) t = Some (t(n \<mapsto> (what, False)))"
| "run_action (Chdir dir) t = Some t"
| "run_action (CloseFrom n) t = Some (\<lambda>k. if n \<le> k then None else t k)"

fun run_actions :: "file_action list \<Rightarrow> descriptor_table \<Rightarrow> descriptor_table option" where
  "run_actions [] t = Some t"
| "run_actions (a # as) t = (case run_action a t of None \<Rightarrow> None | Some t1 \<Rightarrow> run_actions as t1)"

definition started_with :: "descriptor_table \<Rightarrow> int \<rightharpoonup> string" where
  "started_with t k = (case t k of Some (what, False) \<Rightarrow> Some what | _ \<Rightarrow> None)"

lemma three_descriptors:
  assumes "t output = Some (what, c)" and "0 \<le> output" and "\<And>k. t k \<noteq> None \<Longrightarrow> 0 \<le> k"
  shows "map_option started_with (run_actions (spawn_actions dir output) t)
    = Some [STDIN_FILENO \<mapsto> DevNull, STDOUT_FILENO \<mapsto> what, STDERR_FILENO \<mapsto> what]"
proof -
  let ?t = "t(1 \<mapsto> (what, False), 2 \<mapsto> (what, False), 0 \<mapsto> (DevNull, False))"
  have "run_actions (spawn_actions dir output) t = Some (\<lambda>k. if 3 \<le> k then None else ?t k)"
    using assms(1,2) by (simp add: spawn_actions_def fileno_defs)
  moreover have "started_with (\<lambda>k. if 3 \<le> k then None else ?t k) k = [0 \<mapsto> DevNull, 1 \<mapsto> what, 2 \<mapsto> what] k" for k
  proof -
    have "k < 0 \<or> k = 0 \<or> k = 1 \<or> k = 2 \<or> 3 \<le> k" by linarith
    then show ?thesis using assms(3)[of k] by (cases "t k") (auto simp: started_with_def)
  qed
  ultimately show ?thesis by (simp add: fileno_defs fun_eq_iff)
qed

text \<open>C17.
  The child has exactly three descriptors: nothing to read on its standard input, and the output file on both its standard output and
  its standard error, whichever descriptor that file has in the caller, even when it is itself one of the three because the
  caller had closed its own; nothing else the caller has open reaches it.
\<close>

theorem spawn_descriptors:
  assumes "t output = Some (what, c)" and "0 \<le> output" and "\<And>k. t k \<noteq> None \<Longrightarrow> 0 \<le> k"
  shows "map_option started_with (run_actions (spawn_actions dir output) t)
    = Some [STDIN_FILENO \<mapsto> DevNull, STDOUT_FILENO \<mapsto> what, STDERR_FILENO \<mapsto> what]"
  using assms by (rule three_descriptors)

theorem spawn_descriptors_witness:
  "map_option started_with (run_actions (spawn_actions ''/tmp'' 0) [0 \<mapsto> (''out.txt'', True), 5 \<mapsto> (''socket'', False)])
     = Some [STDIN_FILENO \<mapsto> DevNull, STDOUT_FILENO \<mapsto> ''out.txt'', STDERR_FILENO \<mapsto> ''out.txt'']"
  by (rule spawn_descriptors) (auto split: if_splits)

lemma spawn_no_output:
  assumes "output < 0" and "\<And>k. t k \<noteq> None \<Longrightarrow> 0 \<le> k"
  shows "map_option started_with (run_actions (spawn_actions dir output) t)
    = Some [STDIN_FILENO \<mapsto> DevNull, STDOUT_FILENO \<mapsto> DevNull, STDERR_FILENO \<mapsto> DevNull]"
proof -
  have "spawn_actions dir output = OpenAt STDOUT_FILENO DevNull # tl (spawn_actions dir STDOUT_FILENO)"
    using assms(1) by (simp add: spawn_actions_def)
  moreover have "run_action (Dup2 STDOUT_FILENO STDOUT_FILENO) (t(STDOUT_FILENO \<mapsto> (DevNull, False))) = Some (t(STDOUT_FILENO \<mapsto> (DevNull, False)))"
    by simp
  ultimately have "run_actions (spawn_actions dir output) t
      = run_actions (spawn_actions dir STDOUT_FILENO) (t(STDOUT_FILENO \<mapsto> (DevNull, False)))"
    by (simp add: spawn_actions_def fileno_defs)
  moreover have "0 \<le> k" if "(t(STDOUT_FILENO \<mapsto> (DevNull, False))) k \<noteq> None" for k
    using that assms(2)[of k] by (auto simp: fileno_defs split: if_splits)
  ultimately show ?thesis
    using three_descriptors[of "t(STDOUT_FILENO \<mapsto> (DevNull, False))" STDOUT_FILENO DevNull False] by (simp add: fileno_defs)
qed

subsection \<open>Linux: the end of a child\<close>

text \<open>\<open>waitpid\<close> answers with the child and its status, with nothing yet, or with an error.\<close>

datatype waited = Ended u32 | Running | Wait_Failed int

definition WIFEXITED :: "u32 \<Rightarrow> bool" where
  "WIFEXITED status \<longleftrightarrow> status AND 0x7F = 0"

definition WEXITSTATUS :: "u32 \<Rightarrow> u32" where
  "WEXITSTATUS status = drop_bit 8 (status AND 0xFF00)"

definition WTERMSIG :: "u32 \<Rightarrow> u32" where
  "WTERMSIG status = status AND 0x7F"

text \<open>The low seven bits are the signal, and all ones say that the child was only stopped.\<close>

definition WIFSIGNALED :: "u32 \<Rightarrow> bool" where
  "WIFSIGNALED status \<longleftrightarrow> status AND 0x7F \<noteq> 0 \<and> status AND 0x7F \<noteq> 0x7F"

definition GetSignalName :: "(u32 \<Rightarrow> string option) \<Rightarrow> u32 \<Rightarrow> string" where
  "GetSignalName abbrev s = (case abbrev s of Some name \<Rightarrow> ''SIG'' @ name | None \<Rightarrow> ''signal '' @ dec (unat s))"

fun wait_loop :: "waited list \<Rightarrow> waited option" where
  "wait_loop [] = None"
| "wait_loop (Wait_Failed e # rest) = (if e = EINTR then wait_loop rest else Some (Wait_Failed e))"
| "wait_loop (a # rest) = Some a"

definition exit_status :: "(u32 \<Rightarrow> string option) \<Rightarrow> u32 \<Rightarrow> SExitStatus" where
  "exit_status abbrev status =
     (if WIFEXITED status then \<lparr>exit_code = WEXITSTATUS status, signal = []\<rparr>
      else if WIFSIGNALED status then \<lparr>exit_code = 0, signal = GetSignalName abbrev (WTERMSIG status)\<rparr>
      else \<lparr>exit_code = 0, signal = []\<rparr>)"

record SNativeChildProcess =
  c_pid :: int
  hasEnded :: bool

type_synonym linux_child = "SNativeChildProcess option"

definition linux_Start :: "spawn_answers \<Rightarrow> SProcessSpec \<Rightarrow> int \<Rightarrow> (error_code + unit) \<times> linux_child" where
  "linux_Start a spec output =
     (let r = Spawn a spec output; error = GetLastSystemError (sp_error r)
      in (expected_of error, if error = no_error then Some \<lparr>c_pid = sp_pid r, hasEnded = False\<rparr> else None))"

definition linux_TryGetExit ::
    "(u32 \<Rightarrow> string option) \<Rightarrow> waited list \<Rightarrow> SNativeChildProcess \<Rightarrow> ((error_code + SExitStatus) option \<times> SNativeChildProcess) option" where
  "linux_TryGetExit abbrev answers s =
     (case wait_loop answers of
        None \<Rightarrow> None
      | Some a \<Rightarrow>
          (let result = (case a of
                 Ended status \<Rightarrow> Some (Inr (exit_status abbrev status))
               | Running \<Rightarrow> None
               | Wait_Failed e \<Rightarrow> Some (Inl (GetLastSystemError e)))
           in Some (result, s\<lparr>hasEnded := (result \<noteq> None)\<rparr>)))"

definition linux_Terminate :: "linux_child \<Rightarrow> linux_child" where
  "linux_Terminate s = None"

definition GetId :: "linux_child \<Rightarrow> u32" where
  "GetId s = (case s of None \<Rightarrow> 0 | Some c \<Rightarrow> of_int (c_pid c))"

text \<open>How the kernel encodes the end of a process: its exit code, or the signal with a bit for a core dump.\<close>

definition exited :: "u8 \<Rightarrow> u32" where
  "exited code = push_bit 8 (ucast code)"

definition killed :: "u32 \<Rightarrow> bool \<Rightarrow> u32" where
  "killed s dumped = s OR (if dumped then 0x80 else 0)"

lemma low_seven: "w AND 0x7F = take_bit 7 (w :: u32)"
  by (simp add: take_bit_eq_mask mask_eq_exp_minus_1)

lemma unat_exited: "unat (exited code) = 256 * unat code"
  using unat_lt_word[of code]
  by (simp add: exited_def push_bit_eq_mult unat_word_ariths unsigned_ucast_eq take_bit_eq_mod)

lemma exited_read: "exit_status abbrev (exited code) = \<lparr>exit_code = ucast code, signal = []\<rparr>"
proof -
  have "unat (take_bit 7 (exited code)) = 256 * unat code mod 128"
    unfolding unsigned_take_bit_eq unat_exited by (simp add: take_bit_eq_mod)
  moreover have "256 * unat code mod 128 = 0" by (simp add: mod_mult_left_eq)
  ultimately have low: "exited code AND 0x7F = 0" unfolding low_seven by (metis unat_eq_zero)
  have "drop_bit 8 (exited code AND 0xFF00) = drop_bit 8 (exited code) AND 0xFF" by (simp add: drop_bit_and)
  also have "\<dots> = take_bit 8 (drop_bit 8 (exited code))" by (simp add: take_bit_eq_mask mask_eq_exp_minus_1)
  finally have h: "drop_bit 8 (exited code AND 0xFF00) = take_bit 8 (drop_bit 8 (exited code))" .
  have "unat (take_bit 8 (drop_bit 8 (exited code))) = 256 * unat code div 256 mod 256"
    unfolding unsigned_take_bit_eq unsigned_drop_bit_eq unat_exited using unat_lt_word[of code] by (simp add: take_bit_eq_mod drop_bit_eq_div)
  then have "unat (drop_bit 8 (exited code AND 0xFF00)) = unat (ucast code :: u32)"
    unfolding h using unat_lt_word[of code] by (simp add: unsigned_ucast_eq take_bit_eq_mod)
  then show ?thesis using low by (simp add: exit_status_def WIFEXITED_def WEXITSTATUS_def word_unat_eq_iff)
qed

lemma killed_read:
  assumes "0 < s" and "s < 0x7F"
  shows "exit_status abbrev (killed s dumped) = \<lparr>exit_code = 0, signal = GetSignalName abbrev s\<rparr>"
proof -
  have "take_bit 7 s = s" using assms(2) by (simp add: take_bit_eq_mod word_unat_eq_iff unat_mod word_less_nat_alt)
  then have "s AND 0x7F = s" by (simp add: low_seven)
  then have "killed s dumped AND 0x7F = s" by (simp add: killed_def bit.conj_disj_distrib2)
  then show ?thesis using assms by (auto simp: exit_status_def WIFEXITED_def WIFSIGNALED_def WTERMSIG_def)
qed

text \<open>A child is asked for its end until it is known, and then not again: while it runs the answer is nothing and it may be asked again; its
  exit code, or the name of the signal that ended it, is what the system encoded, for every code and every signal, with or without
  a core dump, and interruptions of the question are not seen.
\<close>

theorem try_get_exit:
  assumes "0 < s" and "s < 0x7F" and "filter (\<lambda>a. a \<noteq> Wait_Failed EINTR) answers = [a]"
  shows "linux_TryGetExit abbrev answers c = Some (case a of
      Running \<Rightarrow> (None, c\<lparr>hasEnded := False\<rparr>)
    | Wait_Failed e \<Rightarrow> (Some (Inl (GetLastSystemError e)), c\<lparr>hasEnded := True\<rparr>)
    | Ended status \<Rightarrow> (Some (Inr (exit_status abbrev status)), c\<lparr>hasEnded := True\<rparr>))
    \<and> exit_status abbrev (exited code) = \<lparr>exit_code = ucast code, signal = []\<rparr>
    \<and> exit_status abbrev (killed s dumped) = \<lparr>exit_code = 0, signal = GetSignalName abbrev s\<rparr>"
proof -
  have "wait_loop answers = Some a"
    using assms(3)
  proof (induction answers rule: wait_loop.induct)
    case (2 e rest)
    then show ?case by (cases "e = EINTR") auto
  qed auto
  then show ?thesis
    using exited_read[of abbrev code] killed_read[OF assms(1,2), of abbrev dumped]
    by (simp add: linux_TryGetExit_def split: waited.split)
qed

theorem try_get_exit_witness:
  "linux_TryGetExit (\<lambda>_. Some ''KILL'') [Wait_Failed EINTR, Ended (killed 9 True)] \<lparr>c_pid = 5, hasEnded = False\<rparr>
     = Some (Some (Inr \<lparr>exit_code = 0, signal = ''SIGKILL''\<rparr>), \<lparr>c_pid = 5, hasEnded = True\<rparr>)"
  using try_get_exit[of 9 "[Wait_Failed EINTR, Ended (killed 9 True)]" "Ended (killed 9 True)" "\<lambda>_. Some ''KILL''" "\<lparr>c_pid = 5, hasEnded = False\<rparr>" 0 True]
  by (simp add: GetSignalName_def)

subsection \<open>Windows\<close>

text \<open>
  The handles a start opens and closes, in order; what is left at the end is what the caller holds.  An answer is the error of a call that fails.
\<close>

datatype handle = Nul | Child_Output | Attribute_List | Thread | Process

definition close_handle :: "handle \<Rightarrow> handle list \<Rightarrow> handle list" where
  "close_handle h hs = remove1 h hs"

record create_answers =
  c_nul :: "int option"
  c_duplicate :: "int option"
  c_list :: "int option"
  c_update :: "int option"
  c_create :: "int + int"

record create_request =
  q_program :: string
  q_commandLine :: string
  q_workingDir :: "string option"
  q_inherited :: "handle list"
  q_stdin :: handle
  q_stdout :: handle
  q_stderr :: handle

definition last_error :: "int option \<Rightarrow> error_code" where
  "last_error a = (case a of None \<Rightarrow> no_error | Some e \<Rightarrow> GetLastSystemError e)"

text \<open>\<open>hasOutput\<close> is whether the caller gave an output file; the result has the error, the request, the identity and the handles left open.\<close>

definition CreateChild ::
    "create_answers \<Rightarrow> string \<Rightarrow> string list \<Rightarrow> string \<Rightarrow> bool \<Rightarrow> error_code \<times> create_request option \<times> int \<times> handle list" where
  "CreateChild a prog args dir hasOutput =
     (let e0 = last_error (c_nul a);
          h0 = (if e0 = no_error then [Nul] else []);
          duplicates = (e0 = no_error \<and> hasOutput);
          e1 = (if duplicates then last_error (c_duplicate a) else e0);
          childOutput = (duplicates \<and> e1 = no_error);
          h1 = (if childOutput then Child_Output # h0 else h0);
          e2 = (if e1 = no_error then last_error (c_list a) else e1);
          hasList = (e1 = no_error \<and> e2 = no_error);
          h2 = (if hasList then Attribute_List # h1 else h1);
          inherited = Nul # (if childOutput then [Child_Output] else []);
          e3 = (if e2 = no_error then last_error (c_update a) else e2);
          output = (if childOutput then Child_Output else Nul);
          request = (if e3 = no_error
                     then Some \<lparr>q_program = prog, q_commandLine = BuildCommandLine prog args,
                                q_workingDir = (if dir = [] then None else Some dir), q_inherited = inherited,
                                q_stdin = Nul, q_stdout = output, q_stderr = output\<rparr>
                     else None);
          (e4, pid, h3) = (if e3 = no_error
                           then (case c_create a of
                                   Inr p \<Rightarrow> (no_error, p, Process # close_handle Thread (Thread # h2))
                                 | Inl e \<Rightarrow> (GetLastSystemError e, 0, h2))
                           else (e3, 0, h2));
          h4 = (if hasList then close_handle Attribute_List h3 else h3);
          h5 = (if childOutput then close_handle Child_Output h4 else h4);
          h6 = (if e0 = no_error then close_handle Nul h5 else h5)
      in (e4, request, pid, h6))"

definition create_honest :: "create_answers \<Rightarrow> bool" where
  "create_honest a \<longleftrightarrow> c_nul a \<noteq> Some 0 \<and> c_duplicate a \<noteq> Some 0 \<and> c_list a \<noteq> Some 0 \<and> c_update a \<noteq> Some 0 \<and> c_create a \<noteq> Inl 0"

lemma last_error_none: "a \<noteq> Some 0 \<Longrightarrow> last_error a = no_error \<longleftrightarrow> a = None"
  by (cases a) (auto simp: last_error_def)

text \<open>A start on Windows leaves open the handle of the process and nothing else if it succeeds, and nothing if it fails, at whichever call
  that is; the child inherits its own standard handles alone, each named once, and its standard error is its standard output.
\<close>

theorem create_child_balanced:
  assumes "create_honest a" and "CreateChild a prog args dir hasOutput = (e, request, pid, left)"
  shows "left = (if e = no_error then [Process] else [])
    \<and> (case request of
         None \<Rightarrow> e \<noteq> no_error
       | Some q \<Rightarrow> distinct (q_inherited q) \<and> set (q_inherited q) = {q_stdin q, q_stdout q, q_stderr q} \<and> q_stderr q = q_stdout q
           \<and> (q_stdout q = Child_Output \<longleftrightarrow> hasOutput))"
proof -
  have n: "last_error (c_nul a) = no_error \<longleftrightarrow> c_nul a = None" "last_error (c_duplicate a) = no_error \<longleftrightarrow> c_duplicate a = None"
    "last_error (c_list a) = no_error \<longleftrightarrow> c_list a = None" "last_error (c_update a) = no_error \<longleftrightarrow> c_update a = None" "c_create a \<noteq> Inl 0"
    using assms(1) by (simp_all add: create_honest_def last_error_none)
  show ?thesis
    using assms(2) n
    by (cases "c_nul a"; cases "c_duplicate a"; cases "c_list a"; cases "c_update a"; cases "c_create a"; cases hasOutput)
      (auto simp: CreateChild_def close_handle_def Let_def)
qed

theorem create_child_balanced_witness:
  "\<exists>request. CreateChild \<lparr>c_nul = None, c_duplicate = None, c_list = None, c_update = None, c_create = Inr 7\<rparr> ''a.exe'' [] [] True
     = (no_error, Some request, 7, [Process]) \<and> q_stdout request = Child_Output"
proof -
  let ?a = "\<lparr>c_nul = None, c_duplicate = None, c_list = None, c_update = None, c_create = Inr 7\<rparr>"
  have h: "create_honest ?a" by (simp add: create_honest_def)
  obtain e request pid left where r: "CreateChild ?a ''a.exe'' [] [] True = (e, request, pid, left)" by (metis prod_cases4)
  then have "e = no_error" "pid = 7" "\<exists>q. request = Some q" by (auto simp: CreateChild_def last_error_def Let_def)
  then show ?thesis using create_child_balanced[OF h r] r by auto
qed

record windows_child =
  w_process :: bool
  w_id :: int
  w_hasEnded :: bool

text \<open>\<open>Start\<close>, given what making the working folder absolute answers.\<close>

definition windows_Start ::
    "(string \<Rightarrow> string) \<Rightarrow> (string \<Rightarrow> file_status) \<Rightarrow> (string \<Rightarrow> string \<Rightarrow> string) \<Rightarrow> string \<Rightarrow> int + string \<Rightarrow> create_answers \<Rightarrow> SProcessSpec
      \<Rightarrow> bool \<Rightarrow> (error_code + unit) \<times> windows_child option" where
  "windows_Start env status place current absolute a spec hasOutput =
     (let dir = (if workingDir spec = [] then Inr [] else absolute);
          resolved = (case dir of
                        Inl e \<Rightarrow> Inl (GetLastSystemError e)
                      | Inr d \<Rightarrow> ResolveProgram env status place current (program spec) d)
      in case resolved of
           Inl e \<Rightarrow> (expected_of e, if e = no_error then Some \<lparr>w_process = False, w_id = 0, w_hasEnded = False\<rparr> else None)
         | Inr prog \<Rightarrow>
             (case CreateChild a prog (arguments spec) (case dir of Inr d \<Rightarrow> d | Inl _ \<Rightarrow> []) hasOutput of
                (e, _, pid, _) \<Rightarrow>
                  (expected_of e, if e = no_error then Some \<lparr>w_process = True, w_id = pid, w_hasEnded = False\<rparr> else None)))"

text \<open>\<open>waited\<close> is what \<open>WaitForSingleObject\<close> answers without waiting, \<open>code\<close> what \<open>GetExitCodeProcess\<close> answers then.\<close>

datatype process_wait = WAIT_OBJECT_0 | WAIT_TIMEOUT | WAIT_FAILED int

definition windows_TryGetExit :: "process_wait \<Rightarrow> int + u32 \<Rightarrow> windows_child \<Rightarrow> (error_code + SExitStatus) option \<times> windows_child" where
  "windows_TryGetExit waited code s =
     (let result = (case waited of
            WAIT_OBJECT_0 \<Rightarrow> Some (case code of Inr c \<Rightarrow> Inr \<lparr>exit_code = c, signal = []\<rparr> | Inl e \<Rightarrow> Inl (GetLastSystemError e))
          | WAIT_FAILED e \<Rightarrow> Some (Inl (GetLastSystemError e))
          | WAIT_TIMEOUT \<Rightarrow> None);
          s1 = (if result \<noteq> None then s\<lparr>w_process := False\<rparr> else s)
      in (result, s1\<lparr>w_hasEnded := (result \<noteq> None)\<rparr>))"

definition windows_Terminate :: "windows_child option \<Rightarrow> windows_child option \<times> bool" where
  "windows_Terminate s = (None, case s of Some c \<Rightarrow> w_process c | None \<Rightarrow> False)"

text \<open>The handle of the process is closed once: by the answer that ends the child, or by \<open>Terminate\<close> before.\<close>

lemma handle_closed_once:
  "let (result, s1) = windows_TryGetExit wt code s in (snd (windows_Terminate (Some s1)) \<longleftrightarrow> w_process s \<and> result = None)"
  by (auto simp: windows_TryGetExit_def windows_Terminate_def Let_def split: process_wait.split)

subsection \<open>Output files\<close>

text \<open>\<open>m_pFile\<close> is the open descriptor or handle; \<open>Open\<close> is given what the system answers.\<close>

definition FileMode :: u32 where "FileMode = 0x180"

definition COutputFile_Open :: "int + int \<Rightarrow> int option \<Rightarrow> (error_code + unit) \<times> int option" where
  "COutputFile_Open opened m_pFile =
     (let error = (case opened of Inl e \<Rightarrow> GetLastSystemError e | Inr _ \<Rightarrow> no_error)
      in (expected_of error, if error = no_error then (case opened of Inr d \<Rightarrow> Some d | Inl _ \<Rightarrow> m_pFile) else m_pFile))"

definition COutputFile_Close :: "int option \<Rightarrow> int option \<times> int list" where
  "COutputFile_Close m_pFile = (None, case m_pFile of None \<Rightarrow> [] | Some d \<Rightarrow> [d])"

end
