(* ===== verification/Sockets.thy ===== *)
theory Sockets
  imports Poller Os_Errors "HOL-Library.Multiset"
begin

section \<open>Sockets\<close>

text \<open>
  Models \<^verbatim>\<open>private/net/native_socket.cpp\<close>, \<^verbatim>\<open>stream_socket.cpp\<close>, \<^verbatim>\<open>stream_listener.cpp\<close> and \<^verbatim>\<open>udp_socket.cpp\<close>.  The ledger is the list of
  sockets the process has open; a call of the system that makes one answers with it or with an error.  Every operation has the answers it
  asks for as arguments, so that each failure is followed to the end.
\<close>

type_synonym socket = u64
type_synonym ledger = "socket list"

definition NoSocket :: socket where
  "NoSocket = - 1"

definition GetLastSocketError :: "int \<Rightarrow> error_code" where
  "GetLastSocketError e = Error_Code system_category e"

definition WSAEWOULDBLOCK :: int where "WSAEWOULDBLOCK = 10035"
definition EINPROGRESS :: int where "EINPROGRESS = 115"

definition IsConnectInProgress :: "int \<Rightarrow> error_code \<Rightarrow> bool" where
  "IsConnectInProgress code error = (error = Error_Code system_category code)"

text \<open>The system takes sizes and timeouts as \<open>int\<close>, 32 bits wide and signed.\<close>

definition Socket_ToTimeoutMs :: "64 word \<Rightarrow> 32 word" where
  "Socket_ToTimeoutMs timeout = word_of_int (max 0 (min (sint timeout) (2 ^ 31 - 1)))"

definition ToSize :: "u64 \<Rightarrow> 32 word" where
  "ToSize n = ucast (min n (2 ^ 31 - 1))"

subsection \<open>Opening and closing\<close>

definition void_of :: "int option \<Rightarrow> error_code + unit" where
  "void_of a = (case a of None \<Rightarrow> Inr () | Some e \<Rightarrow> Inl (GetLastSocketError e))"

definition close_native :: "socket \<Rightarrow> ledger \<Rightarrow> ledger" where
  "close_native s l = remove1 s l"

definition CloseSocket :: "socket \<Rightarrow> ledger \<Rightarrow> ledger" where
  "CloseSocket s l = (if s \<noteq> NoSocket then close_native s l else l)"

definition windows_SetNonBlocking :: "int option \<Rightarrow> error_code + unit" where
  "windows_SetNonBlocking ioctl = void_of ioctl"

text \<open>On Linux the flags are read and written back with the bit set or cleared.\<close>

definition O_NONBLOCK :: u32 where "O_NONBLOCK = 0x800"

definition linux_SetNonBlocking :: "int + u32 \<Rightarrow> (u32 \<Rightarrow> int option) \<Rightarrow> bool \<Rightarrow> error_code + unit" where
  "linux_SetNonBlocking getfl setfl isNonBlocking =
     (case getfl of
        Inl e \<Rightarrow> Inl (GetLastSocketError e)
      | Inr flags \<Rightarrow> void_of (setfl (if isNonBlocking then flags OR O_NONBLOCK else flags AND NOT O_NONBLOCK)))"

definition windows_OpenSocket :: "int + socket \<Rightarrow> int option \<Rightarrow> ledger \<Rightarrow> (error_code + socket) \<times> ledger" where
  "windows_OpenSocket opened nonBlocking l =
     (case opened of
        Inl e \<Rightarrow> (Inl (GetLastSocketError e), l)
      | Inr s \<Rightarrow>
          (let l1 = s # l
           in case windows_SetNonBlocking nonBlocking of
                Inr _ \<Rightarrow> (Inr s, l1)
              | Inl e \<Rightarrow> (Inl e, close_native s l1)))"

definition linux_OpenSocket :: "int + socket \<Rightarrow> ledger \<Rightarrow> (error_code + socket) \<times> ledger" where
  "linux_OpenSocket opened l = (case opened of Inl e \<Rightarrow> (Inl (GetLastSocketError e), l) | Inr s \<Rightarrow> (Inr s, s # l))"

definition windows_AcceptSocket :: "int + socket \<Rightarrow> int option \<Rightarrow> int option \<Rightarrow> ledger \<Rightarrow> (error_code + socket) \<times> ledger" where
  "windows_AcceptSocket accepted inherit nonBlocking l =
     (case accepted of
        Inl e \<Rightarrow> (Inl (GetLastSocketError e), l)
      | Inr s \<Rightarrow>
          (let l1 = s # l;
               prepared = (case inherit of None \<Rightarrow> windows_SetNonBlocking nonBlocking | Some e \<Rightarrow> Inl (GetLastSystemError e))
           in case prepared of
                Inr _ \<Rightarrow> (Inr s, l1)
              | Inl e \<Rightarrow> (Inl e, close_native s l1)))"

definition linux_AcceptSocket :: "int + socket \<Rightarrow> ledger \<Rightarrow> (error_code + socket) \<times> ledger" where
  "linux_AcceptSocket accepted l = (case accepted of Inl e \<Rightarrow> (Inl (GetLastSocketError e), l) | Inr s \<Rightarrow> (Inr s, s # l))"

text \<open>\<open>CStreamListener::Initialize\<close> and \<open>CUdpSocket::Initialize\<close> after \<open>OpenSocket\<close>: what is done to the open socket, in order, until a step fails.\<close>

fun first_failure :: "(error_code + unit) list \<Rightarrow> error_code + unit" where
  "first_failure [] = Inr ()"
| "first_failure (Inl e # rest) = Inl e"
| "first_failure (Inr _ # rest) = first_failure rest"

definition prepare_or_close :: "(error_code + unit) list \<Rightarrow> (error_code + socket) \<times> ledger \<Rightarrow> (error_code + socket) \<times> ledger" where
  "prepare_or_close steps opened =
     (case opened of
        (Inl e, l) \<Rightarrow> (Inl e, l)
      | (Inr s, l) \<Rightarrow> (case first_failure steps of Inr _ \<Rightarrow> (Inr s, l) | Inl e \<Rightarrow> (Inl e, CloseSocket s l)))"

definition CStreamListener_open :: "(error_code + socket) \<times> ledger \<Rightarrow> int option \<Rightarrow> int option \<Rightarrow> (error_code + socket) \<times> ledger" where
  "CStreamListener_open opened bound listening = prepare_or_close [void_of bound, void_of listening] opened"

definition CUdpSocket_open :: "(error_code + socket) \<times> ledger \<Rightarrow> int option \<Rightarrow> int option option \<Rightarrow> (error_code + socket) \<times> ledger" where
  "CUdpSocket_open opened bound reports =
     prepare_or_close (void_of bound # (case reports of None \<Rightarrow> [] | Some r \<Rightarrow> [void_of r])) opened"

text \<open>The owners: a socket or none, kept in \<open>m_socket\<close>.\<close>

definition owner_Initialize :: "(error_code + socket) \<times> ledger \<Rightarrow> socket \<Rightarrow> (error_code + unit) \<times> socket \<times> ledger" where
  "owner_Initialize opened m_socket =
     (case opened of
        (Inr s, l) \<Rightarrow> (Inr (), s, l)
      | (Inl e, l) \<Rightarrow> (Inl e, m_socket, l))"

definition owner_Terminate :: "socket \<times> ledger \<Rightarrow> socket \<times> ledger" where
  "owner_Terminate s = (NoSocket, CloseSocket (fst s) (snd s))"

definition Accept :: "(int \<Rightarrow> int) \<Rightarrow> (error_code + socket) \<times> ledger \<Rightarrow> socket \<Rightarrow> (error_code + bool) \<times> socket \<times> ledger" where
  "Accept cond accepted connection =
     (case accepted of
        (Inr s, l) \<Rightarrow> (Inr True, s, l)
      | (Inl e, l) \<Rightarrow> (if \<not> has_condition cond e operation_would_block then Inl e else Inr False, connection, l))"

text \<open>The three kinds of owners on the two platforms, with all answers one start may ask for.\<close>

datatype socket_owner = Stream | Listener | Udp

record open_answers =
  o_opened :: "int + socket"
  o_nonBlocking :: "int option"
  o_bound :: "int option"
  o_listening :: "int option"
  o_reports :: "int option"

definition open_owner :: "bool \<Rightarrow> socket_owner \<Rightarrow> open_answers \<Rightarrow> ledger \<Rightarrow> (error_code + socket) \<times> ledger" where
  "open_owner windows kind a l =
     (let opened = (if windows then windows_OpenSocket (o_opened a) (o_nonBlocking a) l else linux_OpenSocket (o_opened a) l)
      in case kind of
           Stream \<Rightarrow> opened
         | Listener \<Rightarrow> CStreamListener_open opened (o_bound a) (o_listening a)
         | Udp \<Rightarrow> CUdpSocket_open opened (o_bound a) (if windows then Some (o_reports a) else None))"

subsection \<open>No socket is leaked\<close>

text \<open>What an owner relies on: what is opened is new, and a failure leaves nothing open.\<close>

locale socket_opener =
  fixes opener :: "'a \<Rightarrow> ledger \<Rightarrow> (error_code + socket) \<times> ledger"
    and honest :: "'a \<Rightarrow> ledger \<Rightarrow> bool"
  assumes opens: "honest a l \<Longrightarrow> opener a l = (Inr s, l') \<Longrightarrow> s \<noteq> NoSocket \<and> s \<notin> set l \<and> l' = s # l"
    and fails: "honest a l \<Longrightarrow> opener a l = (Inl e, l') \<Longrightarrow> l' = l"

text \<open>The life of an owner beside whatever else the process has open; others open and close sockets of their own meanwhile.\<close>

inductive owner_run ::
    "('a \<Rightarrow> ledger \<Rightarrow> (error_code + socket) \<times> ledger) \<Rightarrow> ('a \<Rightarrow> ledger \<Rightarrow> bool) \<Rightarrow> ledger \<Rightarrow> socket \<Rightarrow> ledger \<Rightarrow> bool"
  for opener honest where
  fresh: "distinct others \<Longrightarrow> NoSocket \<notin> set others \<Longrightarrow> owner_run opener honest others NoSocket others"
| initialize: "owner_run opener honest others NoSocket l \<Longrightarrow> honest a l \<Longrightarrow> owner_Initialize (opener a l) NoSocket = (r, m, l') \<Longrightarrow>
     owner_run opener honest others m l'"
| terminate: "owner_run opener honest others m l \<Longrightarrow> owner_run opener honest others (fst (owner_Terminate (m, l))) (snd (owner_Terminate (m, l)))"
| other_opens: "owner_run opener honest others m l \<Longrightarrow> s \<notin> set l \<Longrightarrow> s \<noteq> NoSocket \<Longrightarrow> owner_run opener honest (s # others) m (s # l)"
| other_closes: "owner_run opener honest others m l \<Longrightarrow> s \<in> set others \<Longrightarrow> owner_run opener honest (remove1 s others) m (remove1 s l)"

definition owned :: "socket \<Rightarrow> socket multiset" where
  "owned m = (if m = NoSocket then {#} else {#m#})"

lemma owned_simps [simp]: "owned NoSocket = {#}" "m \<noteq> NoSocket \<Longrightarrow> owned m = {#m#}"
  by (simp_all add: owned_def)

context socket_opener
begin

lemma owns_one:
  assumes "owner_run opener honest others m l"
  shows "mset l = mset others + owned m \<and> distinct l \<and> NoSocket \<notin> set l"
  using assms
proof (induction rule: owner_run.induct)
  case (initialize others l a r m l')
  show ?case
  proof (cases "fst (opener a l)")
    case (Inl e)
    then have "opener a l = (Inl e, snd (opener a l))" by (metis prod.collapse)
    with initialize fails [of a l] show ?thesis by (auto simp: owner_Initialize_def split: prod.splits sum.splits)
  next
    case (Inr s)
    then have "opener a l = (Inr s, snd (opener a l))" by (metis prod.collapse)
    with initialize opens [of a l] show ?thesis by (fastforce simp: owner_Initialize_def split: prod.splits sum.splits)
  qed
next
  case (terminate others m l)
  then show ?case by (auto simp: owner_Terminate_def CloseSocket_def close_native_def owned_def)
next
  case (other_closes others m l s)
  from other_closes.hyps(2) have "mset (remove1 s others) + owned m = mset others + owned m - {#s#}" by simp
  with other_closes show ?case by (auto dest: notin_set_remove1)
qed auto

end

text \<open>What the system promises of a socket it makes: it is none that is open, and not the value that stands for none.\<close>

definition new_socket :: "int + socket \<Rightarrow> ledger \<Rightarrow> bool" where
  "new_socket answer l = (case answer of Inl e \<Rightarrow> True | Inr s \<Rightarrow> s \<noteq> NoSocket \<and> s \<notin> set l)"

definition honest_open :: "open_answers \<Rightarrow> ledger \<Rightarrow> bool" where
  "honest_open a l = new_socket (o_opened a) l"

lemmas opening_defs = open_owner_def windows_OpenSocket_def linux_OpenSocket_def CStreamListener_open_def CUdpSocket_open_def
  prepare_or_close_def CloseSocket_def close_native_def honest_open_def new_socket_def

lemma open_owner_opens:
  "honest_open a l \<Longrightarrow> open_owner windows kind a l = (Inr s, l') \<Longrightarrow> s \<noteq> NoSocket \<and> s \<notin> set l \<and> l' = s # l"
  by (cases "o_opened a"; cases kind; cases windows) (auto simp: opening_defs Let_def split: sum.splits prod.splits if_splits)

lemma open_owner_fails:
  "honest_open a l \<Longrightarrow> open_owner windows kind a l = (Inl e, l') \<Longrightarrow> l' = l"
  by (cases "o_opened a"; cases kind; cases windows) (auto simp: opening_defs Let_def split: sum.splits prod.splits if_splits)

interpretation so: socket_opener "open_owner windows kind" honest_open for windows kind
  by unfold_locales (use open_owner_opens open_owner_fails in blast)+

text \<open>A connection is taken over the same way: its socket comes from \<open>AcceptSocket\<close>.\<close>

record accept_answers =
  a_accepted :: "int + socket"
  a_inherit :: "int option"
  a_nonBlocking :: "int option"

definition accept_socket :: "bool \<Rightarrow> accept_answers \<Rightarrow> ledger \<Rightarrow> (error_code + socket) \<times> ledger" where
  "accept_socket windows a l =
     (if windows then windows_AcceptSocket (a_accepted a) (a_inherit a) (a_nonBlocking a) l else linux_AcceptSocket (a_accepted a) l)"

definition honest_accept :: "accept_answers \<Rightarrow> ledger \<Rightarrow> bool" where
  "honest_accept a l = new_socket (a_accepted a) l"

lemmas accepting_defs = accept_socket_def windows_AcceptSocket_def linux_AcceptSocket_def close_native_def honest_accept_def new_socket_def

interpretation sa: socket_opener "accept_socket windows" honest_accept for windows
  by unfold_locales (auto simp: accepting_defs Let_def split: sum.splits if_splits)

text \<open>
  C27. An owner of a socket (a stream socket, a listener or a UDP socket, on either platform) that is started, started again after a failure
  or after its end, and ended, in any order beside others that open and close sockets of their own, holds exactly the one socket its
  \<open>m_socket\<close> names and no other: a start that fails at any step has closed what it opened, and after \<open>Terminate\<close> only the sockets of the
  others are open.
\<close>

theorem socket_owner_leaks_nothing:
  assumes "owner_run (open_owner windows kind) honest_open others m l"
  shows "mset l = mset others + owned m \<and> mset (snd (owner_Terminate (m, l))) = mset others"
proof -
  from so.owns_one [OF assms] have "mset l = mset others + owned m" by simp
  then show ?thesis by (auto simp: owner_Terminate_def CloseSocket_def close_native_def owned_def)
qed

definition busy_port :: open_answers where
  "busy_port = \<lparr> o_opened = Inr 7, o_nonBlocking = None, o_bound = Some 10048, o_listening = None, o_reports = None \<rparr>"

definition free_port :: open_answers where
  "free_port = busy_port\<lparr> o_bound := None \<rparr>"

lemma retried_run: "owner_run (open_owner True Listener) honest_open [3] 7 [7, 3]"
proof -
  let ?run = "owner_run (open_owner True Listener) honest_open [3]"
  have start: "?run NoSocket [3]" by (rule owner_run.fresh) (simp_all add: NoSocket_def)
  have failed: "?run NoSocket [3]"
    by (rule owner_run.initialize [OF start, of busy_port "Inl (GetLastSocketError 10048)"])
      (simp_all add: opening_defs busy_port_def owner_Initialize_def windows_SetNonBlocking_def void_of_def NoSocket_def)
  show ?thesis
    by (rule owner_run.initialize [OF failed, of free_port "Inr ()"])
      (simp_all add: opening_defs busy_port_def free_port_def owner_Initialize_def windows_SetNonBlocking_def void_of_def NoSocket_def)
qed

theorem socket_owner_leaks_nothing_witness:
  "mset [7, 3 :: socket] = mset [3] + owned 7 \<and> mset (snd (owner_Terminate (7, [7, 3]))) = mset [3]"
  by (rule socket_owner_leaks_nothing [OF retried_run])

subsection \<open>Addresses\<close>

record SIpv4Endpoint =
  ep_address :: u32
  ep_port :: u16

record sockaddr_in =
  sin_family :: nat
  sin_port :: u16
  s_addr :: u32

definition AF_INET :: nat where "AF_INET = 2"

text \<open>The two platforms run on little-endian machines: the network's order is the other one.\<close>

definition htons :: "u16 \<Rightarrow> u16" where
  "htons x = push_bit 8 x OR drop_bit 8 x"

definition htonl :: "u32 \<Rightarrow> u32" where
  "htonl x = push_bit 24 (take_bit 8 x) OR push_bit 16 (take_bit 8 (drop_bit 8 x)) OR push_bit 8 (take_bit 8 (drop_bit 16 x)) OR drop_bit 24 x"

definition ToAddress :: "SIpv4Endpoint \<Rightarrow> sockaddr_in" where
  "ToAddress endpoint = \<lparr> sin_family = AF_INET, sin_port = htons (ep_port endpoint), s_addr = htonl (ep_address endpoint) \<rparr>"

definition ToEndpoint :: "sockaddr_in \<Rightarrow> SIpv4Endpoint" where
  "ToEndpoint address = \<lparr> ep_address = htonl (s_addr address), ep_port = htons (sin_port address) \<rparr>"

definition BindSocket :: "(sockaddr_in \<Rightarrow> int option) \<Rightarrow> SIpv4Endpoint \<Rightarrow> error_code + unit" where
  "BindSocket bind local = void_of (bind (ToAddress local))"

definition GetBoundEndpoint :: "int + sockaddr_in \<Rightarrow> error_code + SIpv4Endpoint" where
  "GetBoundEndpoint getsockname = (case getsockname of Inr address \<Rightarrow> Inr (ToEndpoint address) | Inl e \<Rightarrow> Inl (GetLastSocketError e))"

lemma htons_htons [simp]: "htons (htons x) = x"
  by (rule bit_word_eqI) (auto simp: htons_def bit_simps)

lemma bit_htonl:
  "bit (htonl x) n \<longleftrightarrow>
     (if n < 8 then bit x (n + 24) else if n < 16 then bit x (n + 8) else if n < 24 then bit x (n - 8) else n < 32 \<and> bit x (n - 24))"
  by (auto simp: htonl_def bit_simps ac_simps dest: bit_imp_le_length)

lemma htonl_htonl [simp]: "htonl (htonl x) = x"
  by (rule bit_word_eqI) (auto simp: bit_htonl)

lemma ToEndpoint_ToAddress [simp]: "ToEndpoint (ToAddress e) = e"
  by (simp add: ToEndpoint_def ToAddress_def)

subsection \<open>Sending and receiving\<close>

definition size_of :: "int + u64 \<Rightarrow> error_code + u64" where
  "size_of answer = (case answer of Inr n \<Rightarrow> Inr n | Inl e \<Rightarrow> Inl (GetLastSocketError e))"

definition windows_SendBytes :: "(u8 list \<Rightarrow> sockaddr_in option \<Rightarrow> int + u64) \<Rightarrow> u8 list \<Rightarrow> sockaddr_in option \<Rightarrow> error_code + u64" where
  "windows_SendBytes send bytes destination = size_of (send (take (nat (sint (ToSize (of_nat (length bytes))))) bytes) destination)"

definition linux_SendBytes :: "(u8 list \<Rightarrow> sockaddr_in option \<Rightarrow> int + u64) \<Rightarrow> u8 list \<Rightarrow> sockaddr_in option \<Rightarrow> error_code + u64" where
  "linux_SendBytes send bytes destination = size_of (send bytes destination)"

text \<open>A receive gets the room there is, and answers with what it wrote there, how it ended and who sent it.\<close>

record received =
  r_bytes :: "u8 list"
  r_answer :: "int + u64"
  r_sender :: sockaddr_in

definition ReceiveBytes :: "bool \<Rightarrow> (int \<Rightarrow> received) \<Rightarrow> u64 \<Rightarrow> error_code + u64" where
  "ReceiveBytes windows recv room = size_of (r_answer (recv (if windows then sint (ToSize room) else uint room)))"

definition PollSocket :: "(32 word \<Rightarrow> int + nat) \<Rightarrow> 64 word \<Rightarrow> error_code + bool" where
  "PollSocket poll timeout = (case poll (Socket_ToTimeoutMs timeout) of Inr n \<Rightarrow> Inr (n > 0) | Inl e \<Rightarrow> Inl (GetLastSocketError e))"

definition TakePendingError :: "int + int \<Rightarrow> error_code" where
  "TakePendingError getsockopt =
     (case getsockopt of
        Inr pending \<Rightarrow> if pending \<noteq> 0 then Error_Code system_category pending else no_error
      | Inl e \<Rightarrow> GetLastSocketError e)"

definition value_or_False :: "error_code + bool \<Rightarrow> bool" where
  "value_or_False r = (case r of Inr b \<Rightarrow> b | Inl _ \<Rightarrow> False)"

definition CStreamSocket_Connect :: "int \<Rightarrow> (sockaddr_in \<Rightarrow> int option) \<Rightarrow> SIpv4Endpoint \<Rightarrow> error_code + unit" where
  "CStreamSocket_Connect inProgress connect peer =
     (case connect (ToAddress peer) of
        None \<Rightarrow> Inr ()
      | Some e \<Rightarrow> if IsConnectInProgress inProgress (GetLastSocketError e) then Inr () else Inl (GetLastSocketError e))"

definition PollConnected :: "(32 word \<Rightarrow> int + nat) \<Rightarrow> int + int \<Rightarrow> error_code + bool" where
  "PollConnected poll getsockopt =
     (if value_or_False (PollSocket poll 0)
      then let pending = TakePendingError getsockopt in if pending = no_error then Inr True else Inl pending
      else Inr False)"

definition CStreamSocket_Receive ::
    "bool \<Rightarrow> (int \<Rightarrow> int) \<Rightarrow> (int \<Rightarrow> received) \<Rightarrow> (32 word \<Rightarrow> int + nat) \<Rightarrow> int + int \<Rightarrow> u64 \<Rightarrow> error_code + u64" where
  "CStreamSocket_Receive windows cond recv poll getsockopt room =
     (case ReceiveBytes windows recv room of
        Inr n \<Rightarrow> Inr n
      | Inl e \<Rightarrow>
          if has_condition cond e not_connected
          then let isSettled = value_or_False (PollSocket poll 0);
                   pending = (if isSettled then TakePendingError getsockopt else no_error)
               in if \<not> isSettled then Inl (make_error_code operation_would_block)
                  else if pending \<noteq> no_error then Inl pending
                  else Inl e
          else Inl e)"

definition ToUdpError :: "(int \<Rightarrow> int) \<Rightarrow> error_code \<Rightarrow> error_code" where
  "ToUdpError cond error = (if has_condition cond error connection_reset then make_error_code connection_refused else error)"

definition CUdpSocket_Connect :: "(sockaddr_in \<Rightarrow> int option) \<Rightarrow> SIpv4Endpoint \<Rightarrow> error_code + unit" where
  "CUdpSocket_Connect connect peer = void_of (connect (ToAddress peer))"

definition CUdpSocket_Send ::
    "(int \<Rightarrow> int) \<Rightarrow> (u8 list \<Rightarrow> sockaddr_in option \<Rightarrow> error_code + u64) \<Rightarrow> SIpv4Endpoint \<Rightarrow> u8 list \<Rightarrow> error_code + unit" where
  "CUdpSocket_Send cond sendBytes destination datagram =
     (case sendBytes datagram (Some (ToAddress destination)) of Inr _ \<Rightarrow> Inr () | Inl e \<Rightarrow> Inl (ToUdpError cond e))"

text \<open>The result and the endpoint of the sender, which is written only when something was received.\<close>

definition CUdpSocket_Receive ::
    "bool \<Rightarrow> (int \<Rightarrow> int) \<Rightarrow> (int \<Rightarrow> received) \<Rightarrow> u64 \<Rightarrow> SIpv4Endpoint \<Rightarrow> (error_code + u64) \<times> SIpv4Endpoint" where
  "CUdpSocket_Receive windows cond recvfrom room source =
     (let sender = r_sender (recvfrom (if windows then sint (ToSize room) else uint room));
          received = (case ReceiveBytes windows recvfrom room of
                        Inl e \<Rightarrow> if has_condition cond e message_size then Inr room else Inl e
                      | Inr n \<Rightarrow> Inr n)
      in case received of
           Inr n \<Rightarrow> (Inr n, ToEndpoint sender)
         | Inl e \<Rightarrow> (Inl (ToUdpError cond e), source))"

text \<open>The options of a socket: each setter is given what the system answers, the size as the \<open>int\<close> it is cast to.\<close>

definition SetBlocking :: "bool \<Rightarrow> int option \<Rightarrow> int + u32 \<Rightarrow> (u32 \<Rightarrow> int option) \<Rightarrow> error_code + unit" where
  "SetBlocking windows ioctl getfl setfl = (if windows then windows_SetNonBlocking ioctl else linux_SetNonBlocking getfl setfl False)"

definition SetNoDelay :: "int option \<Rightarrow> error_code + unit" where
  "SetNoDelay setsockopt = void_of setsockopt"

definition SetReceiveBufferSize :: "(int \<Rightarrow> int option) \<Rightarrow> u32 \<Rightarrow> error_code + unit" where
  "SetReceiveBufferSize setsockopt numBytes = void_of (setsockopt (sint numBytes))"

definition DisableConnectionResetReports :: "bool \<Rightarrow> int option \<Rightarrow> error_code + unit" where
  "DisableConnectionResetReports windows wsaioctl = (if windows then void_of wsaioctl else Inr ())"

text \<open>\<open>CSocketLibrary\<close>: whether it is started, and how many starts of the system's library are not ended yet.\<close>

definition SocketLibrary_Initialize :: "bool \<Rightarrow> int \<Rightarrow> bool \<times> nat \<Rightarrow> (error_code + unit) \<times> bool \<times> nat" where
  "SocketLibrary_Initialize windows started s =
     (let result = (if windows \<and> started \<noteq> 0 then Inl (Error_Code system_category started) else Inr ())
      in (result, result = Inr (), if windows \<and> started = 0 then Suc (snd s) else snd s))"

definition SocketLibrary_Terminate :: "bool \<Rightarrow> bool \<times> nat \<Rightarrow> bool \<times> nat" where
  "SocketLibrary_Terminate windows s = (False, if windows \<and> fst s then snd s - 1 else snd s)"

lemma socket_library_balanced:
  "SocketLibrary_Terminate windows (SocketLibrary_Terminate windows (snd (SocketLibrary_Initialize windows started (b, n)))) = (False, n)"
  by (simp add: SocketLibrary_Initialize_def SocketLibrary_Terminate_def Let_def)

lemma bit_O_NONBLOCK: "bit O_NONBLOCK n \<longleftrightarrow> n = 11"
proof -
  have O: "O_NONBLOCK = 2 ^ 11" by (simp add: O_NONBLOCK_def)
  show ?thesis unfolding O bit_exp_iff by auto
qed

lemma linux_flags_kept:
  "bit (if isNonBlocking then flags OR O_NONBLOCK else flags AND NOT O_NONBLOCK) n \<longleftrightarrow> (if n = 11 then isNonBlocking else bit flags n)"
  for flags :: u32
  by (auto simp: bit_or_iff bit_and_iff bit_not_iff bit_O_NONBLOCK dest: bit_imp_le_length)

subsection \<open>What the system is handed\<close>

lemma sint_ToTimeoutMs: "sint (Socket_ToTimeoutMs t) = max 0 (min (sint t) (2 ^ 31 - 1))"
  by (auto simp: Socket_ToTimeoutMs_def signed_of_int signed_take_bit_int_eq_self_iff)

lemma sint_small_ucast: "uint (n :: u64) < 2 ^ 31 \<Longrightarrow> sint (ucast n :: 32 word) = uint n"
proof -
  assume small: "uint n < 2 ^ 31"
  have "signed_take_bit 31 (uint n) = uint n"
    by (rule signed_take_bit_int_eq_self) (use small in \<open>auto intro: order_trans [OF _ unsigned_greater_eq]\<close>)
  with small show ?thesis by (simp add: sint_uint unsigned_ucast_eq take_bit_int_eq_self)
qed

lemma sint_ToSize: "sint (ToSize n) = min (uint n) (2 ^ 31 - 1)"
proof -
  have "uint (min n (2 ^ 31 - 1)) = min (uint n) (2 ^ 31 - 1)" by (simp add: min_def word_le_def)
  then show ?thesis by (simp add: ToSize_def sint_small_ucast)
qed

text \<open>
  Whatever timeout and whatever size a caller gives, the \<open>int\<close> that reaches the system is the nearest one it can hold: never negative (a
  negative timeout would wait for ever, a negative size is an error), never wrapped, and the exact value wherever it fits.
\<close>

theorem socket_int_arguments:
  "sint (Socket_ToTimeoutMs timeout) = max 0 (min (sint timeout) (2 ^ 31 - 1)) \<and> sint (ToSize numBytes) = min (uint numBytes) (2 ^ 31 - 1)"
  by (simp add: sint_ToTimeoutMs sint_ToSize)

subsection \<open>One behaviour on both platforms\<close>

definition WSAEMSGSIZE :: int where "WSAEMSGSIZE = 10040"
definition WSAENOTCONN :: int where "WSAENOTCONN = 10057"

text \<open>
  What the two systems answer to \<open>recvfrom\<close> when a datagram is waiting: both write what fits; Windows fails when not all of it did.
\<close>

definition windows_recvfrom :: "u8 list \<Rightarrow> sockaddr_in \<Rightarrow> int \<Rightarrow> received" where
  "windows_recvfrom datagram sender room =
     \<lparr> r_bytes = take (nat room) datagram,
       r_answer = (if room < int (length datagram) then Inl WSAEMSGSIZE else Inr (of_nat (length datagram))),
       r_sender = sender \<rparr>"

definition linux_recvfrom :: "u8 list \<Rightarrow> sockaddr_in \<Rightarrow> int \<Rightarrow> received" where
  "linux_recvfrom datagram sender room =
     \<lparr> r_bytes = take (nat room) datagram, r_answer = Inr (of_nat (min (length datagram) (nat room))), r_sender = sender \<rparr>"

lemma linux_udp_receive:
  "CUdpSocket_Receive False cond (linux_recvfrom datagram (ToAddress peer)) room source =
     (Inr (of_nat (min (length datagram) (unat room))), peer)"
  by (simp add: CUdpSocket_Receive_def ReceiveBytes_def linux_recvfrom_def size_of_def)

lemma udp_receive_cases:
  "CUdpSocket_Receive windows cond recvfrom room source =
     (case r_answer (recvfrom (if windows then sint (ToSize room) else uint room)) of
        Inr n \<Rightarrow> (Inr n, ToEndpoint (r_sender (recvfrom (if windows then sint (ToSize room) else uint room))))
      | Inl e \<Rightarrow>
          if cond e = message_size then (Inr room, ToEndpoint (r_sender (recvfrom (if windows then sint (ToSize room) else uint room))))
          else (Inl (ToUdpError cond (GetLastSocketError e)), source))"
  by (simp add: CUdpSocket_Receive_def ReceiveBytes_def size_of_def GetLastSocketError_def has_condition_def Let_def split: sum.split)

lemma windows_udp_receive:
  assumes "cond WSAEMSGSIZE = message_size" and "length datagram \<le> 65535"
  shows "CUdpSocket_Receive True cond (windows_recvfrom datagram (ToAddress peer)) room source =
           (Inr (of_nat (min (length datagram) (unat room))), peer)"
proof (cases "length datagram \<le> unat room")
  case True
  then have "int (length datagram) \<le> uint room" by (simp only: uint_nat of_nat_le_iff)
  moreover have "int (length datagram) \<le> 2 ^ 31 - 1" using assms(2) by simp
  ultimately have "\<not> sint (ToSize room) < int (length datagram)" by (simp only: sint_ToSize min_less_iff_disj not_less) simp
  then have "r_answer (windows_recvfrom datagram (ToAddress peer) (sint (ToSize room))) = Inr (of_nat (length datagram))"
    by (simp only: windows_recvfrom_def received.simps if_False)
  moreover have "min (length datagram) (unat room) = length datagram" using True by (rule min_absorb1)
  ultimately show ?thesis by (simp only: udp_receive_cases if_True sum.case) (simp add: windows_recvfrom_def)
next
  case False
  then have "uint room < int (length datagram)" by (simp only: uint_nat of_nat_less_iff not_le)
  then have "sint (ToSize room) < int (length datagram)" by (simp only: sint_ToSize min_less_iff_disj simp_thms)
  then have "r_answer (windows_recvfrom datagram (ToAddress peer) (sint (ToSize room))) = Inl WSAEMSGSIZE"
    by (simp only: windows_recvfrom_def received.simps if_True)
  moreover have "min (length datagram) (unat room) = unat room" using False by simp
  ultimately show ?thesis by (simp only: udp_receive_cases if_True sum.case assms(1)) (simp add: windows_recvfrom_def)
qed

text \<open>
  A UDP receive behaves the same on both platforms: for a datagram of any size a datagram can have, whatever its size is beside the
  buffer's, both give as many bytes as fit and the sender's endpoint as the sender wrote it, although Windows reports a datagram too large for
  the buffer as an error and Linux cuts it without a word; an empty buffer and an empty datagram are no exceptions.
\<close>

theorem udp_receive_agrees:
  assumes "cond WSAEMSGSIZE = message_size" and "length datagram \<le> 65535"
  shows "CUdpSocket_Receive True cond (windows_recvfrom datagram (ToAddress peer)) room source =
           CUdpSocket_Receive False cond' (linux_recvfrom datagram (ToAddress peer)) room source'
       \<and> CUdpSocket_Receive True cond (windows_recvfrom datagram (ToAddress peer)) room source =
           (Inr (of_nat (min (length datagram) (unat room))), peer)"
  by (simp_all add: linux_udp_receive windows_udp_receive [of cond, OF assms])

subsection \<open>A receive beside a connect\<close>

text \<open>
  How a connect goes on while the socket is asked: the states between the calls, and what Windows answers in each.
\<close>

datatype conn = Connecting | Connected | Failed int

definition goes_on :: "conn \<Rightarrow> conn \<Rightarrow> bool" where
  "goes_on a b = (a = b \<or> a = Connecting)"

definition recv_while :: "conn \<Rightarrow> int + u64 \<Rightarrow> int \<Rightarrow> received" where
  "recv_while c data room =
     \<lparr> r_bytes = [], r_answer = (if c = Connected then data else Inl WSAENOTCONN), r_sender = ToAddress \<lparr> ep_address = 0, ep_port = 0 \<rparr> \<rparr>"

definition poll_while :: "conn \<Rightarrow> 32 word \<Rightarrow> int + nat" where
  "poll_while c timeout = Inr (if c = Connecting then 0 else 1)"

definition getsockopt_while :: "conn \<Rightarrow> int + int" where
  "getsockopt_while c = Inr (case c of Failed e \<Rightarrow> e | _ \<Rightarrow> 0)"

lemmas receive_defs = CStreamSocket_Receive_def ReceiveBytes_def recv_while_def size_of_def PollSocket_def poll_while_def
  value_or_False_def TakePendingError_def getsockopt_while_def GetLastSocketError_def has_condition_def

text \<open>
  A receive on Windows asked while a connect is under way, which may end between any two of the three calls of \<open>CStreamSocket::Receive\<close>:
  a connect still under way is reported as one that would block, one that failed by the time of the poll with its own error, never as a socket
  that is not connected; but a connect that succeeded after the receive was tried and before the poll is reported as not connected.
\<close>

theorem receive_while_connecting:
  assumes "cond WSAENOTCONN = not_connected" and "goes_on Connecting polled" and "goes_on polled asked" and "\<forall>e. polled = Failed e \<longrightarrow> e \<noteq> 0"
  shows "CStreamSocket_Receive True cond (recv_while Connecting data) (poll_while polled) (getsockopt_while asked) room =
           Inl (case polled of
                  Connecting \<Rightarrow> make_error_code operation_would_block
                | Failed e \<Rightarrow> Error_Code system_category e
                | Connected \<Rightarrow> Error_Code system_category WSAENOTCONN)"
  using assms by (cases polled) (auto simp: receive_defs goes_on_def no_error_def)

theorem udp_receive_agrees_witness:
  "let cond = (\<lambda>e. if e = WSAEMSGSIZE then message_size else 0); peer = \<lparr> ep_address = 0x7F000001, ep_port = 53 \<rparr>;
       datagram = [1, 2, 3]
   in CUdpSocket_Receive True cond (windows_recvfrom datagram (ToAddress peer)) 2 peer =
        CUdpSocket_Receive False cond (linux_recvfrom datagram (ToAddress peer)) 2 peer
      \<and> CUdpSocket_Receive True cond (windows_recvfrom datagram (ToAddress peer)) 2 peer = (Inr (of_nat (min (length datagram) (unat (2 :: u64)))), peer)"
  unfolding Let_def by (rule udp_receive_agrees) simp_all

theorem receive_while_connecting_witness:
  "CStreamSocket_Receive True (\<lambda>e. if e = WSAENOTCONN then not_connected else 0) (recv_while Connecting (Inr 5)) (poll_while Connected)
     (getsockopt_while Connected) 9 = Inl (Error_Code system_category WSAENOTCONN)"
  by (subst receive_while_connecting) (simp_all add: goes_on_def)

end
