(* ===== verification/Address_Lookup.thy ===== *)
theory Address_Lookup
  imports Sockets
begin

section \<open>Address lookups\<close>

text \<open>
  Models \<^verbatim>\<open>private/net/address_lookup.cpp\<close>.  A lookup is an object the system writes into while it runs.  The state holds the objects in
  memory, which of them the system still writes into, and the lists and handles that are not given back yet, each under the number of its
  lookup; \<open>corrupted\<close> records that something was written, read or given back after it was gone.
\<close>

record addrinfo =
  ai_family :: nat
  ai_addr :: sockaddr_in

text \<open>\<open>l_status\<close> is what the system keeps of the lookup: none while it runs, else how it ended.\<close>

record SNativeLookup =
  isComplete :: bool
  pResult :: "addrinfo list option"
  hEvent :: bool
  l_status :: "int option"

record lookup_state =
  objects :: "nat \<rightharpoonup> SNativeLookup"
  m_pLookup :: "nat option"
  made :: nat
  writing :: "nat set"
  lists :: "nat set"
  handles :: "nat set"
  left :: "nat set"
  corrupted :: bool

definition no_lookup :: lookup_state where
  "no_lookup = \<lparr> objects = Map.empty, m_pLookup = None, made = 0, writing = {}, lists = {}, handles = {}, left = {}, corrupted = False \<rparr>"

definition NO_ERROR :: int where "NO_ERROR = 0"
definition WSA_IO_PENDING :: int where "WSA_IO_PENDING = 997"
definition WSAEINPROGRESS :: int where "WSAEINPROGRESS = 10036"
definition WSAHOST_NOT_FOUND :: int where "WSAHOST_NOT_FOUND = 11001"
definition EAI_NONAME :: int where "EAI_NONAME = - 2"
definition EAI_INPROGRESS :: int where "EAI_INPROGRESS = - 100"

lemmas lookup_codes = NO_ERROR_def WSA_IO_PENDING_def WSAEINPROGRESS_def WSAHOST_NOT_FOUND_def EAI_NONAME_def EAI_INPROGRESS_def

subsection \<open>Reading the answer\<close>

fun first_address :: "addrinfo list \<Rightarrow> error_code + u32 \<Rightarrow> error_code + u32" where
  "first_address [] result = result"
| "first_address (entry # entries) result =
     (if \<not> isl result then result
      else first_address entries (if ai_family entry = AF_INET then Inr (htonl (s_addr (ai_addr entry))) else result))"

definition ToLookupError :: "int \<Rightarrow> error_code" where
  "ToLookupError status = Error_Code lookup_category status"

definition entries_of :: "addrinfo list option \<Rightarrow> addrinfo list" where
  "entries_of p = (case p of None \<Rightarrow> [] | Some es \<Rightarrow> es)"

definition windows_TakeFirstAddress :: "SNativeLookup \<Rightarrow> int \<Rightarrow> error_code + u32" where
  "windows_TakeFirstAddress l status =
     (if status = NO_ERROR
      then first_address (entries_of (pResult l)) (Inl (Error_Code system_category WSAHOST_NOT_FOUND))
      else Inl (Error_Code system_category status))"

text \<open>\<open>freeaddrinfo\<close>, \<open>FreeAddrInfoExW\<close>, \<open>CloseHandle\<close> and the end of the object.\<close>

definition free_list :: "nat \<Rightarrow> lookup_state \<Rightarrow> lookup_state" where
  "free_list i s = s\<lparr>lists := lists s - {i}, corrupted := corrupted s \<or> i \<notin> lists s\<rparr>"

definition close_event :: "nat \<Rightarrow> lookup_state \<Rightarrow> lookup_state" where
  "close_event i s = s\<lparr>handles := handles s - {i}, corrupted := corrupted s \<or> i \<notin> handles s\<rparr>"

definition destroy :: "nat \<Rightarrow> lookup_state \<Rightarrow> lookup_state" where
  "destroy i s = s\<lparr>objects := (objects s)(i := None), corrupted := corrupted s \<or> objects s i = None\<rparr>"

definition windows_Release :: "nat \<Rightarrow> SNativeLookup \<Rightarrow> lookup_state \<Rightarrow> lookup_state" where
  "windows_Release i l s =
     (let s1 = (if pResult l \<noteq> None then free_list i s else s)
      in if hEvent l then close_event i s1 else s1)"

text \<open>On Linux the list is given back where it is read.\<close>

definition linux_TakeFirstAddress :: "nat \<Rightarrow> SNativeLookup \<Rightarrow> int \<Rightarrow> lookup_state \<Rightarrow> (error_code + u32) \<times> lookup_state" where
  "linux_TakeFirstAddress i l status s =
     (if status = 0
      then (first_address (entries_of (pResult l)) (Inl (ToLookupError EAI_NONAME)),
            (free_list i s)\<lparr>objects := (objects s)(i \<mapsto> l\<lparr>pResult := None\<rparr>)\<rparr>)
      else (Inl (ToLookupError status), s))"

subsection \<open>The operations\<close>

definition windows_Lookup_Start :: "int option \<Rightarrow> int \<Rightarrow> addrinfo list \<Rightarrow> lookup_state \<Rightarrow> (error_code + unit) \<times> lookup_state" where
  "windows_Lookup_Start created asked entries s =
     (let i = made s;
          status = (case created of None \<Rightarrow> asked | Some e \<Rightarrow> e);
          isStarted = (created = None);
          l = \<lparr> isComplete = (status = NO_ERROR), pResult = (if isStarted \<and> asked = NO_ERROR then Some entries else None),
                hEvent = isStarted, l_status = (if status = WSA_IO_PENDING then None else Some status) \<rparr>;
          s1 = s\<lparr>made := Suc i, objects := (objects s)(i \<mapsto> l),
                 handles := handles s \<union> (if isStarted then {i} else {}),
                 lists := lists s \<union> (if isStarted \<and> asked = NO_ERROR then {i} else {}),
                 writing := writing s \<union> (if isStarted \<and> asked = WSA_IO_PENDING then {i} else {})\<rparr>
      in if status = NO_ERROR \<or> status = WSA_IO_PENDING then (Inr (), s1\<lparr>m_pLookup := Some i\<rparr>)
         else (Inl (Error_Code system_category status), destroy i (windows_Release i l s1)))"

definition linux_Lookup_Start :: "int \<Rightarrow> lookup_state \<Rightarrow> (error_code + unit) \<times> lookup_state" where
  "linux_Lookup_Start asked s =
     (let i = made s;
          l = \<lparr> isComplete = False, pResult = None, hEvent = False, l_status = (if asked = 0 then None else Some asked) \<rparr>;
          s1 = s\<lparr>made := Suc i, objects := (objects s)(i \<mapsto> l), writing := writing s \<union> (if asked = 0 then {i} else {})\<rparr>
      in if asked = 0 then (Inr (), s1\<lparr>m_pLookup := Some i\<rparr>) else (Inl (ToLookupError asked), destroy i s1))"

text \<open>\<open>GetAddrInfoExOverlappedResult\<close> and \<open>gai_error\<close>.\<close>

definition status_now :: "int \<Rightarrow> SNativeLookup \<Rightarrow> int" where
  "status_now inProgress l = (case l_status l of None \<Rightarrow> inProgress | Some status \<Rightarrow> status)"

definition windows_Lookup_Poll :: "lookup_state \<Rightarrow> (error_code + u32) option \<times> lookup_state" where
  "windows_Lookup_Poll s =
     (case m_pLookup s of
        None \<Rightarrow> (None, s\<lparr>corrupted := True\<rparr>)
      | Some i \<Rightarrow>
          (case objects s i of
             None \<Rightarrow> (None, s\<lparr>corrupted := True\<rparr>)
           | Some l \<Rightarrow>
               let status = (if isComplete l then NO_ERROR else status_now WSAEINPROGRESS l)
               in if status \<noteq> WSAEINPROGRESS
                  then (Some (windows_TakeFirstAddress l status), (destroy i (windows_Release i l s))\<lparr>m_pLookup := None\<rparr>)
                  else (None, s)))"

definition linux_Lookup_Poll :: "lookup_state \<Rightarrow> (error_code + u32) option \<times> lookup_state" where
  "linux_Lookup_Poll s =
     (case m_pLookup s of
        None \<Rightarrow> (None, s\<lparr>corrupted := True\<rparr>)
      | Some i \<Rightarrow>
          (case objects s i of
             None \<Rightarrow> (None, s\<lparr>corrupted := True\<rparr>)
           | Some l \<Rightarrow>
               let status = status_now EAI_INPROGRESS l
               in if status \<noteq> EAI_INPROGRESS
                  then (case linux_TakeFirstAddress i l status s of
                          (result, s1) \<Rightarrow> (Some result, (destroy i s1)\<lparr>m_pLookup := None\<rparr>))
                  else (None, s)))"

text \<open>\<open>m_pLookup.release()\<close> leaves the object to the system.\<close>

definition leave :: "nat \<Rightarrow> lookup_state \<Rightarrow> lookup_state" where
  "leave i s = s\<lparr>m_pLookup := None, left := insert i (left s)\<rparr>"

definition windows_Lookup_Terminate :: "lookup_state \<Rightarrow> lookup_state" where
  "windows_Lookup_Terminate s =
     (case m_pLookup s of
        None \<Rightarrow> s
      | Some i \<Rightarrow>
          (case objects s i of
             None \<Rightarrow> s\<lparr>corrupted := True\<rparr>
           | Some l \<Rightarrow>
               if \<not> isComplete l \<and> status_now WSAEINPROGRESS l = WSAEINPROGRESS then leave i s
               else (destroy i (windows_Release i l s))\<lparr>m_pLookup := None\<rparr>))"

text \<open>\<open>gai_cancel\<close> belongs to the C library and is an argument.  What is documented of it: it answers that the request is done, is cancelled and will not be written into any more, or
  cannot be cancelled and goes on.\<close>

datatype cancelled = EAI_CANCELED | EAI_NOTCANCELED | EAI_ALLDONE

definition cancels :: "(nat \<Rightarrow> lookup_state \<Rightarrow> cancelled \<times> lookup_state) \<Rightarrow> bool" where
  "cancels gai_cancel \<longleftrightarrow>
     (\<forall>i s. gai_cancel i s \<in> (if i \<in> writing s then {(EAI_CANCELED, s\<lparr>writing := writing s - {i}\<rparr>), (EAI_NOTCANCELED, s)} else {(EAI_ALLDONE, s)}))"

definition linux_Lookup_Terminate :: "(nat \<Rightarrow> lookup_state \<Rightarrow> cancelled \<times> lookup_state) \<Rightarrow> lookup_state \<Rightarrow> lookup_state" where
  "linux_Lookup_Terminate gai_cancel s =
     (case m_pLookup s of
        None \<Rightarrow> s
      | Some i \<Rightarrow>
          (case gai_cancel i s of
             (c, s1) \<Rightarrow>
               if c = EAI_NOTCANCELED then leave i s1
               else (case objects s1 i of
                       None \<Rightarrow> s1\<lparr>corrupted := True\<rparr>
                     | Some l \<Rightarrow> (destroy i (if pResult l \<noteq> None then free_list i s1 else s1))\<lparr>m_pLookup := None\<rparr>)))"

text \<open>The system ends a lookup: it writes how, and the list when there is one.\<close>

definition complete :: "nat \<Rightarrow> int \<Rightarrow> addrinfo list \<Rightarrow> lookup_state \<Rightarrow> lookup_state" where
  "complete i status entries s =
     (case objects s i of
        None \<Rightarrow> s\<lparr>corrupted := True\<rparr>
      | Some l \<Rightarrow> s\<lparr>writing := writing s - {i}, lists := lists s \<union> (if status = 0 then {i} else {}),
                    objects := (objects s)(i \<mapsto> l\<lparr>l_status := Some status, pResult := (if status = 0 then Some entries else None)\<rparr>)\<rparr>)"

inductive lookup_run :: "bool \<Rightarrow> lookup_state \<Rightarrow> bool" for windows where
  none: "lookup_run windows no_lookup"
| windows_start: "lookup_run windows s \<Longrightarrow> windows \<Longrightarrow> m_pLookup s = None \<Longrightarrow> created \<notin> {Some NO_ERROR, Some WSA_IO_PENDING} \<Longrightarrow>
     lookup_run windows (snd (windows_Lookup_Start created asked entries s))"
| linux_start: "lookup_run windows s \<Longrightarrow> \<not> windows \<Longrightarrow> m_pLookup s = None \<Longrightarrow> lookup_run windows (snd (linux_Lookup_Start asked s))"
| windows_poll: "lookup_run windows s \<Longrightarrow> windows \<Longrightarrow> m_pLookup s \<noteq> None \<Longrightarrow> lookup_run windows (snd (windows_Lookup_Poll s))"
| linux_poll: "lookup_run windows s \<Longrightarrow> \<not> windows \<Longrightarrow> m_pLookup s \<noteq> None \<Longrightarrow> lookup_run windows (snd (linux_Lookup_Poll s))"
| windows_terminate: "lookup_run windows s \<Longrightarrow> windows \<Longrightarrow> lookup_run windows (windows_Lookup_Terminate s)"
| linux_terminate: "lookup_run windows s \<Longrightarrow> \<not> windows \<Longrightarrow> cancels gai_cancel \<Longrightarrow> lookup_run windows (linux_Lookup_Terminate gai_cancel s)"
| completes: "lookup_run windows s \<Longrightarrow> i \<in> writing s \<Longrightarrow> status \<notin> {WSAEINPROGRESS, EAI_INPROGRESS} \<Longrightarrow>
     lookup_run windows (complete i status entries s)"

subsection \<open>The objects and who holds them\<close>

definition object_ok :: "lookup_state \<Rightarrow> nat \<Rightarrow> SNativeLookup \<Rightarrow> bool" where
  "object_ok s i l \<longleftrightarrow>
     i < made s \<and> (i \<in> lists s \<longleftrightarrow> pResult l \<noteq> None) \<and> (i \<in> handles s \<longleftrightarrow> hEvent l) \<and> (i \<in> writing s \<longleftrightarrow> l_status l = None) \<and>
     (l_status l = None \<longrightarrow> pResult l = None) \<and>
     (\<forall>status. l_status l = Some status \<longrightarrow> status \<noteq> WSAEINPROGRESS \<and> status \<noteq> EAI_INPROGRESS \<and> (pResult l \<noteq> None \<longleftrightarrow> status = 0)) \<and>
     (isComplete l \<longrightarrow> l_status l = Some 0)"

definition lookup_ok :: "lookup_state \<Rightarrow> bool" where
  "lookup_ok s \<longleftrightarrow>
     \<not> corrupted s \<and> (\<forall>i l. objects s i = Some l \<longrightarrow> object_ok s i l) \<and>
     lists s \<subseteq> dom (objects s) \<and> handles s \<subseteq> dom (objects s) \<and> writing s \<subseteq> dom (objects s) \<and>
     dom (objects s) = left s \<union> set_option (m_pLookup s) \<and> (\<forall>i. m_pLookup s = Some i \<longrightarrow> i \<notin> left s)"

lemmas lookup_defs = lookup_ok_def object_ok_def Let_def destroy_def windows_Release_def free_list_def close_event_def leave_def

lemma ok_object: "lookup_ok s \<Longrightarrow> objects s i = Some l \<Longrightarrow> object_ok s i l"
  by (simp add: lookup_ok_def)

lemma lookup_ok_fresh:
  assumes "lookup_ok s"
  shows "objects s (made s) = None \<and> made s \<notin> lists s \<and> made s \<notin> handles s \<and> made s \<notin> writing s \<and> made s \<notin> left s"
proof -
  have "objects s (made s) = None"
    by (rule ccontr) (use assms in \<open>auto dest: ok_object simp: object_ok_def\<close>)
  then have "made s \<notin> dom (objects s)" by auto
  with assms \<open>objects s (made s) = None\<close> show ?thesis unfolding lookup_ok_def by blast
qed

lemma none_ok: "lookup_ok no_lookup"
  by (simp add: lookup_ok_def no_lookup_def)

lemma current_object:
  assumes "lookup_ok s" and "m_pLookup s = Some i"
  obtains l where "objects s i = Some l" and "object_ok s i l" and "i \<notin> left s"
proof -
  have "i \<in> dom (objects s)" using assms by (simp add: lookup_ok_def)
  then obtain l where l: "objects s i = Some l" by blast
  have "i \<notin> left s" using assms by (simp add: lookup_ok_def)
  then show thesis by (rule that [OF l ok_object [OF assms(1) l]])
qed

text \<open>The end of the current object, when what it held was given back.\<close>

lemma forget_ok:
  assumes ok: "lookup_ok s" and i: "m_pLookup s = Some i"
    and s': "objects s' = (objects s)(i := None)" "lists s' = lists s - {i}" "handles s' = handles s - {i}" "writing s' = writing s - {i}"
      "left s' = left s" "made s' = made s" "m_pLookup s' = None" "\<not> corrupted s'"
  shows "lookup_ok s'"
proof -
  have "object_ok s' j l" if "objects s' j = Some l" for j l
  proof -
    have "objects s j = Some l" "j \<noteq> i" using that s'(1) by (auto split: if_splits)
    from ok_object [OF ok this(1)] this(2) show ?thesis by (simp add: object_ok_def s')
  qed
  with ok i s' show ?thesis unfolding lookup_ok_def by auto
qed

lemma windows_forget_ok:
  assumes ok: "lookup_ok s" and i: "m_pLookup s = Some i" and obj: "objects s i = Some l" and idle: "l_status l \<noteq> None"
  shows "lookup_ok ((destroy i (windows_Release i l s))\<lparr>m_pLookup := None\<rparr>)"
proof -
  have o: "object_ok s i l" and c: "\<not> corrupted s" using ok obj by (simp_all add: lookup_ok_def)
  show ?thesis by (rule forget_ok [OF ok i]) (use o c obj idle in \<open>auto simp: lookup_defs\<close>)
qed

lemma leave_ok: "lookup_ok s \<Longrightarrow> m_pLookup s = Some i \<Longrightarrow> lookup_ok (leave i s)"
  by (auto simp: lookup_ok_def object_ok_def leave_def)

lemma windows_poll_ok:
  assumes "lookup_ok s" and "m_pLookup s = Some i"
  shows "lookup_ok (snd (windows_Lookup_Poll s))"
proof -
  obtain l where l: "objects s i = Some l" "object_ok s i l" using assms by (rule current_object)
  show ?thesis
  proof (cases "l_status l")
    case None
    with l assms show ?thesis by (auto simp: windows_Lookup_Poll_def status_now_def object_ok_def)
  next
    case (Some status)
    with l have "(if isComplete l then NO_ERROR else status_now WSAEINPROGRESS l) \<noteq> WSAEINPROGRESS"
      by (simp add: object_ok_def status_now_def lookup_codes)
    with l assms Some show ?thesis by (simp add: windows_Lookup_Poll_def windows_forget_ok)
  qed
qed

lemma windows_terminate_ok:
  assumes "lookup_ok s" and "m_pLookup s = Some i"
  shows "lookup_ok (windows_Lookup_Terminate s)"
proof -
  obtain l where l: "objects s i = Some l" "object_ok s i l" using assms by (rule current_object)
  show ?thesis
  proof (cases "l_status l")
    case None
    with l assms show ?thesis by (auto simp: windows_Lookup_Terminate_def status_now_def object_ok_def leave_ok)
  next
    case (Some status)
    with l have "\<not> (\<not> isComplete l \<and> status_now WSAEINPROGRESS l = WSAEINPROGRESS)" by (simp add: object_ok_def status_now_def)
    with l assms Some show ?thesis by (simp add: windows_Lookup_Terminate_def windows_forget_ok leave_ok)
  qed
qed

lemma linux_poll_ok:
  assumes "lookup_ok s" and "m_pLookup s = Some i" and "handles s = {}"
  shows "lookup_ok (snd (linux_Lookup_Poll s))"
proof -
  obtain l where l: "objects s i = Some l" "object_ok s i l" using assms(1,2) by (rule current_object)
  have c: "\<not> corrupted s" using assms by (simp add: lookup_ok_def)
  show ?thesis
  proof (cases "l_status l")
    case None
    with l assms show ?thesis by (auto simp: linux_Lookup_Poll_def status_now_def)
  next
    case (Some status)
    have idle: "writing s - {i} = writing s" using l Some by (simp add: object_ok_def)
    show ?thesis
      by (rule forget_ok [OF assms(1,2)])
        (use l assms Some c idle in \<open>auto simp: linux_Lookup_Poll_def status_now_def linux_TakeFirstAddress_def object_ok_def destroy_def free_list_def\<close>)
  qed
qed

lemma linux_poll_handles: "handles (snd (linux_Lookup_Poll s)) = handles s"
  by (auto simp: linux_Lookup_Poll_def linux_TakeFirstAddress_def destroy_def free_list_def Let_def split: option.split)

lemma cancel_ok:
  assumes o: "object_ok s i l" and c: "\<not> corrupted s" and ok: "lookup_ok s" and i: "m_pLookup s = Some i" and none: "handles s = {}"
    and obj: "objects s i = Some l"
  shows "lookup_ok ((destroy i (if pResult l \<noteq> None then free_list i (s\<lparr>writing := writing s - {i}\<rparr>) else s\<lparr>writing := writing s - {i}\<rparr>))
                \<lparr>m_pLookup := None\<rparr>)"
  by (rule forget_ok [OF ok i]) (use o c none obj in \<open>auto simp: destroy_def free_list_def object_ok_def\<close>)

lemma linux_terminate_ok:
  assumes "lookup_ok s" and "m_pLookup s = Some i" and "handles s = {}" and "cancels gai_cancel"
  shows "lookup_ok (linux_Lookup_Terminate gai_cancel s)"
proof -
  obtain l where l: "objects s i = Some l" "object_ok s i l" using assms(1,2) by (rule current_object)
  have c: "\<not> corrupted s" using assms by (simp add: lookup_ok_def)
  note ended = cancel_ok [OF l(2) c assms(1-3) l(1)]
  have answer: "gai_cancel i s \<in> (if i \<in> writing s then {(EAI_CANCELED, s\<lparr>writing := writing s - {i}\<rparr>), (EAI_NOTCANCELED, s)} else {(EAI_ALLDONE, s)})"
    using assms(4) unfolding cancels_def by blast
  show ?thesis
  proof (cases "gai_cancel i s = (EAI_NOTCANCELED, s)")
    case True
    then show ?thesis by (simp add: linux_Lookup_Terminate_def assms(2) leave_ok [OF assms(1,2)])
  next
    case False
    then have "gai_cancel i s \<in> {(EAI_ALLDONE, s\<lparr>writing := writing s - {i}\<rparr>), (EAI_CANCELED, s\<lparr>writing := writing s - {i}\<rparr>)}"
      using answer by (auto split: if_splits)
    then show ?thesis using ended l(1) by (auto simp: linux_Lookup_Terminate_def assms(2))
  qed
qed

lemma linux_terminate_handles:
  assumes "cancels gai_cancel"
  shows "handles (linux_Lookup_Terminate gai_cancel s) = handles s"
proof (cases "m_pLookup s")
  case (Some i)
  have "gai_cancel i s \<in> (if i \<in> writing s then {(EAI_CANCELED, s\<lparr>writing := writing s - {i}\<rparr>), (EAI_NOTCANCELED, s)} else {(EAI_ALLDONE, s)})"
    using assms unfolding cancels_def by blast
  then show ?thesis
    by (cases "objects s i") (auto simp: linux_Lookup_Terminate_def Some leave_def destroy_def free_list_def split: if_splits)
qed (simp add: linux_Lookup_Terminate_def)

lemma complete_ok: 
  assumes ok: "lookup_ok s" and i: "i \<in> writing s" and status: "status \<notin> {WSAEINPROGRESS, EAI_INPROGRESS}"
  shows "lookup_ok (complete i status entries s) \<and> handles (complete i status entries s) = handles s"
proof -
  obtain l where l: "objects s i = Some l" using ok i by (auto simp: lookup_ok_def)
  note o = ok_object [OF ok l]
  have "object_ok (complete i status entries s) j k" if "objects (complete i status entries s) j = Some k" for j k
  proof (cases "j = i")
    case True
    with that l o i status show ?thesis by (auto simp: complete_def object_ok_def)
  next
    case False
    with that l have "objects s j = Some k" by (simp add: complete_def)
    from ok_object [OF ok this] False l show ?thesis by (simp add: complete_def object_ok_def)
  qed
  with ok l show ?thesis unfolding lookup_ok_def by (auto simp: complete_def)
qed

lemma start_ok:
  assumes ok: "lookup_ok s" and none: "m_pLookup s = None" and i: "i = made s"
    and s': "objects s' = (objects s)(i \<mapsto> l)" "made s' = Suc i" "left s' = left s" "m_pLookup s' = Some i" "corrupted s' = corrupted s"
      "lists s - {i} = lists s' - {i}" "handles s - {i} = handles s' - {i}" "writing s - {i} = writing s' - {i}"
    and new: "object_ok s' i l"
  shows "lookup_ok s'"
proof -
  have fresh: "i \<notin> left s" using lookup_ok_fresh [OF ok] i by simp
  have same: "j \<in> lists s' \<longleftrightarrow> j \<in> lists s" "j \<in> handles s' \<longleftrightarrow> j \<in> handles s" "j \<in> writing s' \<longleftrightarrow> j \<in> writing s" if "j \<noteq> i" for j
    using that s'(6-8) by blast+
  have "object_ok s' j k" if "objects s' j = Some k" for j k
  proof (cases "j = i")
    case True
    with that new s' show ?thesis by simp
  next
    case False
    with that s' have "objects s j = Some k" by simp
    from ok_object [OF ok this] False i s'(2) same [OF False] show ?thesis by (simp add: object_ok_def)
  qed
  moreover have "lists s' \<subseteq> dom (objects s')" "handles s' \<subseteq> dom (objects s')" "writing s' \<subseteq> dom (objects s')"
    using ok s'(1) same unfolding lookup_ok_def by auto
  ultimately show ?thesis using ok none fresh s' by (simp add: lookup_ok_def)
qed

lemma same_ok:
  assumes "lookup_ok s" and "objects s' = objects s" "made s \<le> made s'" "left s' = left s" "m_pLookup s' = m_pLookup s" "corrupted s' = corrupted s"
    "lists s' = lists s" "handles s' = handles s" "writing s' = writing s"
  shows "lookup_ok s'"
proof -
  have "object_ok s' i l" if "objects s i = Some l" for i l
    using ok_object [OF assms(1) that] assms(3,7-9) by (simp add: object_ok_def)
  then show ?thesis using assms(1) unfolding lookup_ok_def assms(2-9) [simplified] by (simp only: assms) blast
qed

lemma windows_start_ok:
  assumes ok: "lookup_ok s" and none: "m_pLookup s = None" and honest: "created \<notin> {Some NO_ERROR, Some WSA_IO_PENDING}"
  shows "lookup_ok (snd (windows_Lookup_Start created asked entries s))"
proof -
  note fresh = lookup_ok_fresh [OF ok]
  consider (began) "created = None" "asked = NO_ERROR \<or> asked = WSA_IO_PENDING"
    | (refused) "created = None" "asked \<noteq> NO_ERROR" "asked \<noteq> WSA_IO_PENDING"
    | (no_event) e where "created = Some e" "e \<noteq> NO_ERROR" "e \<noteq> WSA_IO_PENDING"
    using honest by (cases created) auto
  then show ?thesis
  proof cases
    case began
    show ?thesis
      by (rule start_ok [OF ok none refl])
        (use began fresh in \<open>auto simp: windows_Lookup_Start_def Let_def object_ok_def lookup_codes\<close>)
  next
    case refused
    show ?thesis
      by (rule same_ok [OF ok])
        (use refused fresh none in \<open>auto simp: windows_Lookup_Start_def Let_def destroy_def windows_Release_def close_event_def fun_upd_idem\<close>)
  next
    case no_event
    show ?thesis
      by (rule same_ok [OF ok])
        (use no_event fresh none in \<open>auto simp: windows_Lookup_Start_def Let_def destroy_def windows_Release_def fun_upd_idem\<close>)
  qed
qed

lemma linux_start_ok:
  assumes ok: "lookup_ok s" and none: "m_pLookup s = None"
  shows "lookup_ok (snd (linux_Lookup_Start asked s))"
proof -
  note fresh = lookup_ok_fresh [OF ok]
  show ?thesis
  proof (cases "asked = 0")
    case True
    show ?thesis
      by (rule start_ok [OF ok none refl]) (use True fresh in \<open>auto simp: linux_Lookup_Start_def Let_def object_ok_def\<close>)
  next
    case False
    show ?thesis
      by (rule same_ok [OF ok]) (use False fresh none in \<open>auto simp: linux_Lookup_Start_def Let_def destroy_def fun_upd_idem\<close>)
  qed
qed

lemma linux_start_handles: "handles (snd (linux_Lookup_Start asked s)) = handles s"
  by (simp add: linux_Lookup_Start_def destroy_def Let_def)

lemma run_ok: "lookup_run windows s \<Longrightarrow> lookup_ok s \<and> (\<not> windows \<longrightarrow> handles s = {})"
proof (induction rule: lookup_run.induct)
  case (windows_terminate s)
  then show ?case by (cases "m_pLookup s") (auto simp: windows_terminate_ok, simp add: windows_Lookup_Terminate_def)
next
  case (linux_terminate s gai_cancel)
  then show ?case
    by (cases "m_pLookup s") (auto simp: linux_terminate_ok linux_terminate_handles, simp add: linux_Lookup_Terminate_def)
next
  case (completes s i status entries)
  then show ?case by (auto simp: complete_ok)
qed (auto simp: none_ok windows_start_ok linux_start_ok linux_start_handles windows_poll_ok linux_poll_ok linux_poll_handles, simp add: no_lookup_def)

text \<open>
  C18. Whatever order lookups are started, polled, ended by the owner and completed by the system in, on either platform, the system never
  writes into memory that was given up, and nothing is given back twice or while the system still uses it: the objects in memory are the current
  lookup's and those left to the system, every object the system writes into is among them, and without a current lookup every list and every
  event that is still held belongs to a lookup that was left to the system.
\<close>

theorem lookup_memory_safe:
  assumes "lookup_run windows s"
  shows "\<not> corrupted s \<and> dom (objects s) = left s \<union> set_option (m_pLookup s) \<and> writing s \<subseteq> dom (objects s) \<and>
         (m_pLookup s = None \<longrightarrow> lists s \<subseteq> left s \<and> handles s \<subseteq> left s)"
  using run_ok [OF assms] unfolding lookup_ok_def by auto

lemma left_run: "lookup_run True (complete 0 0 [] (windows_Lookup_Terminate (snd (windows_Lookup_Start None WSA_IO_PENDING [] no_lookup))))"
  (is "lookup_run True (complete 0 0 [] (windows_Lookup_Terminate ?started))")
proof -
  have "lookup_run True ?started"
    by (rule lookup_run.windows_start [OF lookup_run.none]) (simp_all add: no_lookup_def)
  then have "lookup_run True (windows_Lookup_Terminate ?started)" by (rule lookup_run.windows_terminate) simp
  then show ?thesis
    by (rule lookup_run.completes)
      (simp_all add: windows_Lookup_Start_def windows_Lookup_Terminate_def leave_def no_lookup_def status_now_def Let_def lookup_codes)
qed

text \<open>A library that can cancel every request, and one that can cancel none.\<close>

definition cancel_answer :: "bool \<Rightarrow> nat \<Rightarrow> lookup_state \<Rightarrow> cancelled \<times> lookup_state" where
  "cancel_answer able i s =
     (if i \<notin> writing s then (EAI_ALLDONE, s) else if able then (EAI_CANCELED, s\<lparr>writing := writing s - {i}\<rparr>) else (EAI_NOTCANCELED, s))"

lemma linux_end_run: "lookup_run False (linux_Lookup_Terminate (cancel_answer able) (snd (linux_Lookup_Start 0 no_lookup)))"
proof (rule lookup_run.linux_terminate)
  show "lookup_run False (snd (linux_Lookup_Start 0 no_lookup))"
    by (rule lookup_run.linux_start [OF lookup_run.none]) (simp_all add: no_lookup_def)
  show "cancels (cancel_answer able)" by (simp add: cancels_def cancel_answer_def)
qed simp

theorem lookup_memory_safe_witness:
  "(let s = complete 0 0 [] (windows_Lookup_Terminate (snd (windows_Lookup_Start None WSA_IO_PENDING [] no_lookup)))
    in \<not> corrupted s \<and> dom (objects s) = left s \<union> set_option (m_pLookup s) \<and> writing s \<subseteq> dom (objects s) \<and>
       (m_pLookup s = None \<longrightarrow> lists s \<subseteq> left s \<and> handles s \<subseteq> left s))
   \<and> (\<forall>able. let s = linux_Lookup_Terminate (cancel_answer able) (snd (linux_Lookup_Start 0 no_lookup))
      in \<not> corrupted s \<and> dom (objects s) = left s \<union> set_option (m_pLookup s) \<and> writing s \<subseteq> dom (objects s))"
  unfolding Let_def using lookup_memory_safe [OF left_run] lookup_memory_safe [OF linux_end_run] by blast

subsection \<open>What a poll answers\<close>

text \<open>The address of the first entry of the right family, if there is one.\<close>

definition addresses :: "addrinfo list \<Rightarrow> u32 list" where
  "addresses entries = map (\<lambda>entry. ep_address (ToEndpoint (ai_addr entry))) (filter (\<lambda>entry. ai_family entry = AF_INET) entries)"

lemma first_address_found: "first_address entries (Inr x) = Inr x"
  by (cases entries) simp_all

lemma first_address_first:
  "first_address entries (Inl e) = (case addresses entries of [] \<Rightarrow> Inl e | address # _ \<Rightarrow> Inr address)"
  by (induction entries) (simp_all add: addresses_def ToEndpoint_def first_address_found)

definition answer_of :: "bool \<Rightarrow> int \<Rightarrow> addrinfo list \<Rightarrow> error_code + u32" where
  "answer_of windows status entries =
     (let error = (\<lambda>e. if windows then Error_Code system_category e else ToLookupError e)
      in if status \<noteq> 0 then Inl (error status)
         else case addresses entries of
                [] \<Rightarrow> Inl (error (if windows then WSAHOST_NOT_FOUND else EAI_NONAME))
              | address # _ \<Rightarrow> Inr address)"

lemma windows_poll_exact:
  assumes o: "object_ok s i l" and i: "m_pLookup s = Some i" and obj: "objects s i = Some l" and c: "\<not> corrupted s"
  shows "windows_Lookup_Poll s =
           (if i \<in> writing s then (None, s)
            else (Some (answer_of True (the (l_status l)) (entries_of (pResult l))),
                  s\<lparr>objects := (objects s)(i := None), m_pLookup := None, lists := lists s - {i}, handles := handles s - {i}\<rparr>))"
proof (cases "l_status l")
  case None
  with o i obj show ?thesis by (auto simp: windows_Lookup_Poll_def status_now_def object_ok_def)
next
  case (Some status)
  have taken: "windows_TakeFirstAddress l status = answer_of True status (entries_of (pResult l))"
    by (simp add: windows_TakeFirstAddress_def answer_of_def NO_ERROR_def first_address_first split: list.split)
  have now: "(if isComplete l then NO_ERROR else status_now WSAEINPROGRESS l) = status"
    using o Some by (simp add: object_ok_def status_now_def NO_ERROR_def)
  have freed: "(destroy i (windows_Release i l s))\<lparr>m_pLookup := None\<rparr> =
                 s\<lparr>objects := (objects s)(i := None), m_pLookup := None, lists := lists s - {i}, handles := handles s - {i}\<rparr>"
    using o obj c by (auto simp: destroy_def windows_Release_def free_list_def close_event_def object_ok_def)
  from o Some have "status \<noteq> WSAEINPROGRESS" "i \<notin> writing s" by (simp_all add: object_ok_def)
  then show ?thesis
    by (simp only: windows_Lookup_Poll_def i obj option.case Let_def now taken freed if_True if_False not_False_eq_True Some option.sel)
qed

lemma linux_poll_exact:
  assumes o: "object_ok s i l" and i: "m_pLookup s = Some i" and obj: "objects s i = Some l" and c: "\<not> corrupted s" and none: "handles s = {}"
  shows "linux_Lookup_Poll s =
           (if i \<in> writing s then (None, s)
            else (Some (answer_of False (the (l_status l)) (entries_of (pResult l))),
                  s\<lparr>objects := (objects s)(i := None), m_pLookup := None, lists := lists s - {i}, handles := handles s - {i}\<rparr>))"
proof (cases "l_status l")
  case None
  with o i obj show ?thesis by (auto simp: linux_Lookup_Poll_def status_now_def object_ok_def)
next
  case (Some status)
  have taken: "fst (linux_TakeFirstAddress i l status s) = answer_of False status (entries_of (pResult l))"
    by (simp add: linux_TakeFirstAddress_def answer_of_def first_address_first split: list.split)
  have freed: "(destroy i (snd (linux_TakeFirstAddress i l status s)))\<lparr>m_pLookup := None\<rparr> =
                 s\<lparr>objects := (objects s)(i := None), m_pLookup := None, lists := lists s - {i}, handles := handles s - {i}\<rparr>"
    using o obj c none Some by (auto simp: destroy_def linux_TakeFirstAddress_def free_list_def object_ok_def)
  from o Some have "status \<noteq> EAI_INPROGRESS" "i \<notin> writing s" by (simp_all add: object_ok_def)
  then show ?thesis
    by (simp only: linux_Lookup_Poll_def i obj option.case Let_def status_now_def taken freed if_True if_False not_False_eq_True Some option.sel
        split_beta)
qed

text \<open>
  A poll of a running lookup says nothing, and changes nothing, for exactly as long as the system writes into it.  Once it has ended with a
  status and a list, the poll gives the status as an error or the address of the list's first IPv4 entry (its own error when there is none),
  and afterwards nothing of the lookup is left: not its object, its list or its event.
\<close>

theorem poll_answers_when_complete:
  assumes "lookup_run windows s" and "m_pLookup s = Some i" and "objects s i = Some l"
  shows "(if windows then windows_Lookup_Poll s else linux_Lookup_Poll s) =
           (if i \<in> writing s then (None, s)
            else (Some (answer_of windows (the (l_status l)) (entries_of (pResult l))),
                  s\<lparr>objects := (objects s)(i := None), m_pLookup := None, lists := lists s - {i}, handles := handles s - {i}\<rparr>))"
proof -
  have ok: "lookup_ok s" using run_ok [OF assms(1)] by simp
  from ok_object [OF ok assms(3)] run_ok [OF assms(1)] show ?thesis
    using windows_poll_exact [OF _ assms(2,3)] linux_poll_exact [OF _ assms(2,3)] ok by (auto simp: lookup_ok_def)
qed

definition answered :: lookup_state where
  "answered = complete 0 0 [\<lparr> ai_family = 10, ai_addr = ToAddress \<lparr> ep_address = 1, ep_port = 0 \<rparr> \<rparr>,
                             \<lparr> ai_family = AF_INET, ai_addr = ToAddress \<lparr> ep_address = 0x7F000001, ep_port = 0 \<rparr> \<rparr>]
                (snd (linux_Lookup_Start 0 no_lookup))"

lemma answered_run: "lookup_run False answered"
proof -
  have "lookup_run False (snd (linux_Lookup_Start 0 no_lookup))"
    by (rule lookup_run.linux_start [OF lookup_run.none]) (simp_all add: no_lookup_def)
  then show ?thesis unfolding answered_def
    by (rule lookup_run.completes) (simp_all add: linux_Lookup_Start_def no_lookup_def Let_def lookup_codes)
qed

theorem poll_answers_when_complete_witness: "fst (linux_Lookup_Poll answered) = Some (Inr 0x7F000001)"
proof -
  let ?l = "the (objects answered 0)"
  have "m_pLookup answered = Some 0" "objects answered 0 = Some ?l"
    by (simp_all add: answered_def complete_def linux_Lookup_Start_def no_lookup_def Let_def)
  from poll_answers_when_complete [OF answered_run this] show ?thesis
    by (simp add: answered_def complete_def linux_Lookup_Start_def no_lookup_def Let_def answer_of_def addresses_def entries_of_def AF_INET_def)
qed

end
