(* ===== verification/Pem.thy ===== *)
theory Pem
  imports Prelude
begin

section \<open>Certificates in PEM files\<close>

text \<open>
  Models \<^verbatim>\<open>private/net/pem.cpp\<close>: the reading of base64 with its 32-bit accumulator and the search for the blocks of a
  certificate file.  The reference is the encoding of RFC 4648, three bytes in four characters with padding at the end.
\<close>

subsection \<open>Searching\<close>

text \<open>\<open>std::string_view::find(pattern, pos)\<close>, with \<open>None\<close> for \<open>npos\<close>.\<close>

fun find_at :: "string \<Rightarrow> nat \<Rightarrow> string \<Rightarrow> nat option" where
  "find_at pat i [] = (if pat = [] then Some i else None)"
| "find_at pat i (c # cs) = (if take (length pat) (c # cs) = pat then Some i else find_at pat (Suc i) cs)"

definition find_from :: "string \<Rightarrow> string \<Rightarrow> nat \<Rightarrow> nat option" where
  "find_from pat text pos = (if pos \<le> length text then find_at pat pos (drop pos text) else None)"

lemma find_at_bounds: "find_at pat i text = Some j \<Longrightarrow> i \<le> j \<and> j + length pat \<le> i + length text"
proof (induction pat i "text" rule: find_at.induct)
  case (2 pat i c cs)
  show ?case
  proof (cases "take (length pat) (c # cs) = pat")
    case True
    then have "length pat \<le> length (c # cs)" by (metis length_take min.absorb_iff1 nat_le_linear min.absorb2)
    then show ?thesis using 2(2) True by simp
  next
    case False
    then show ?thesis using 2 by fastforce
  qed
qed (auto split: if_splits)

lemma find_from_bounds: "find_from pat text pos = Some j \<Longrightarrow> pos \<le> j \<and> j + length pat \<le> length text"
  by (auto simp: find_from_def dest!: find_at_bounds split: if_splits)

subsection \<open>The sources\<close>

definition BeginMarker :: string where
  "BeginMarker = ''-----BEGIN CERTIFICATE-----''"

definition EndMarker :: string where
  "EndMarker = ''-----END CERTIFICATE-----''"

definition DerSequenceTag :: nat where
  "DerSequenceTag = 0x30"

definition NotBase64 :: u32 where
  "NotBase64 = 0xFFFFFFFF"

definition ToSextet :: "char \<Rightarrow> u32" where
  "ToSextet c =
     (let n = of_char c :: nat
      in if 65 \<le> n \<and> n \<le> 90 then of_nat (n - 65)
         else if 97 \<le> n \<and> n \<le> 122 then of_nat (n - 97) + 26
         else if 48 \<le> n \<and> n \<le> 57 then of_nat (n - 48) + 52
         else if c = CHR ''+'' then 62
         else if c = CHR ''/'' then 63
         else NotBase64)"

record b64_state =
  b_bytes :: "u8 list"
  accumulated :: u32
  numBits :: u32
  hasPadding :: bool
  b_isValid :: bool

definition b64_init :: b64_state where
  "b64_init = \<lparr>b_bytes = [], accumulated = 0, numBits = 0, hasPadding = False, b_isValid = True\<rparr>"

definition is_space :: "char \<Rightarrow> bool" where
  "is_space c \<longleftrightarrow> c = CHR '' '' \<or> c = CHR 0x09 \<or> c = CHR 0x0D \<or> c = CHR 0x0A"

definition add_sextet :: "u32 \<Rightarrow> b64_state \<Rightarrow> b64_state" where
  "add_sextet sextet s =
     (let acc = (push_bit 6 (accumulated s) OR sextet) AND 0xFFFF; bits = numBits s + 6
      in if 8 \<le> bits
         then s\<lparr>accumulated := acc, numBits := bits - 8,
                b_bytes := b_bytes s @ [ucast (drop_bit (unat (bits - 8)) acc AND 0xFF)]\<rparr>
         else s\<lparr>accumulated := acc, numBits := bits\<rparr>)"

definition b64_step :: "char \<Rightarrow> b64_state \<Rightarrow> b64_state" where
  "b64_step c s =
     (if c = CHR ''='' then s\<lparr>hasPadding := True\<rparr>
      else if \<not> is_space c
      then (let sextet = ToSextet c; valid = (\<not> hasPadding s \<and> sextet \<noteq> NotBase64)
            in if valid then add_sextet sextet (s\<lparr>b_isValid := True\<rparr>) else s\<lparr>b_isValid := False\<rparr>)
      else s)"

fun b64_loop :: "string \<Rightarrow> b64_state \<Rightarrow> b64_state" where
  "b64_loop [] s = s"
| "b64_loop (c # cs) s = (if b_isValid s then b64_loop cs (b64_step c s) else s)"

definition DecodeBase64 :: "string \<Rightarrow> u8 list option" where
  "DecodeBase64 text = (let s = b64_loop text b64_init in if b_isValid s then Some (b_bytes s) else None)"

text \<open>The loop over the blocks: \<open>start\<close> is the position of the next \<open>BeginMarker\<close>, if there is one.\<close>

function cert_loop :: "string \<Rightarrow> nat option \<Rightarrow> u8 list list \<Rightarrow> u8 list list" where
  "cert_loop content None certificates = certificates"
| "cert_loop content (Some start) certificates =
     (let bodyStart = start + length BeginMarker
      in case find_from EndMarker content bodyStart of
           None \<Rightarrow> certificates
         | Some stop \<Rightarrow>
             (let decoded = DecodeBase64 (take (stop - bodyStart) (drop bodyStart content))
              in cert_loop content (find_from BeginMarker content (stop + length EndMarker))
                   (case decoded of
                      Some bs \<Rightarrow> if bs \<noteq> [] then certificates @ [bs] else certificates
                    | None \<Rightarrow> certificates)))"
  by pat_completeness auto
termination
  by (relation "measure (\<lambda>(content, p, _). case p of None \<Rightarrow> 0 | Some i \<Rightarrow> Suc (length content) - i)")
    (auto dest!: find_from_bounds simp: BeginMarker_def EndMarker_def split: option.splits)

definition DecodeCertificates :: "string \<Rightarrow> u8 list list" where
  "DecodeCertificates content =
     (let start = find_from BeginMarker content 0;
          certificates = (if start = None \<and> content \<noteq> [] \<and> of_char (hd content) = DerSequenceTag
                          then [map (\<lambda>c. of_nat (of_char c)) content] else [])
      in cert_loop content start certificates)"

subsection \<open>The encoding that is read\<close>

definition b64_char :: "nat \<Rightarrow> char" where
  "b64_char n =
     (if n < 26 then char_of (65 + n) else if n < 52 then char_of (97 + (n - 26)) else if n < 62 then char_of (48 + (n - 52))
      else if n = 62 then CHR ''+'' else CHR ''/'')"

fun base64 :: "u8 list \<Rightarrow> string" where
  "base64 [] = []"
| "base64 [x] = [b64_char (unat x div 4), b64_char (unat x mod 4 * 16), CHR ''='', CHR ''='']"
| "base64 [x, y] =
     [b64_char (unat x div 4), b64_char (unat x mod 4 * 16 + unat y div 16), b64_char (unat y mod 16 * 4), CHR ''='']"
| "base64 (x # y # z # r) =
     [b64_char (unat x div 4), b64_char (unat x mod 4 * 16 + unat y div 16), b64_char (unat y mod 16 * 4 + unat z div 64),
      b64_char (unat z mod 64)] @ base64 r"

definition plain :: "char \<Rightarrow> bool" where
  "plain c \<longleftrightarrow> \<not> is_space c \<and> c \<noteq> CHR ''='' \<and> c \<noteq> CHR ''-''"

lemma char_eq_code: "c = d \<longleftrightarrow> of_char c = (of_char d :: nat)"
  by simp

lemma plain_code: "plain c \<longleftrightarrow> of_char c \<notin> {32, 9, 13, 10, 61, 45 :: nat}"
  unfolding plain_def is_space_def char_eq_code by simp

lemma of_b64_char:
  assumes "n < 64"
  shows "of_char (b64_char n)
    = (if n < 26 then 65 + n else if n < 52 then 97 + (n - 26) else if n < 62 then 48 + (n - 52) else if n = 62 then 43 else 47)"
  using assms by (simp add: b64_char_def)

lemma b64_char_read:
  assumes "n < 64"
  shows "ToSextet (b64_char n) = of_nat n" "plain (b64_char n)"
proof -
  have "n = 62 \<or> n = 63 \<or> n < 62" using assms by linarith
  then show "ToSextet (b64_char n) = of_nat n"
  proof (elim disjE)
    assume small: "n < 62"
    show ?thesis
    proof (cases "n < 52")
      case True
      then show ?thesis unfolding ToSextet_def Let_def of_b64_char[OF assms] by (cases "n < 26") (simp_all add: of_nat_diff)
    next
      case False
      define k where "k = n - 52"
      then have k: "n = 52 + k" "k < 10" using small False by simp_all
      then have "of_char (b64_char n) = 48 + k" using of_b64_char[OF assms] by simp
      then show ?thesis using k by (simp add: ToSextet_def)
    qed
  qed (simp_all add: ToSextet_def b64_char_def)
  show "plain (b64_char n)" unfolding plain_code of_b64_char[OF assms] using assms by auto
qed

subsection \<open>The accumulator in unbounded numbers\<close>

lemma shifted_or:
  fixes a s :: u32
  assumes "unat s < 64"
  shows "push_bit 6 a OR s = a * 64 + s"
proof -
  have s: "take_bit 6 s = s" using assms by (simp add: take_bit_eq_mod word_unat_eq_iff unat_mod)
  have "push_bit 6 a AND s = 0"
    by (subst s[symmetric], rule bit_word_eqI) (auto simp: bit_simps)
  then have "push_bit 6 a + s = push_bit 6 a OR s" by (rule disjunctive_add_eq_or)
  then show ?thesis by (simp add: push_bit_eq_mult)
qed

lemma next_acc:
  fixes a s :: u32
  assumes "unat s < 64"
  shows "unat ((push_bit 6 a OR s) AND 0xFFFF) = (unat a * 64 + unat s) mod 65536"
proof -
  have "w AND 0xFFFF = take_bit 16 w" for w :: u32 by (simp add: take_bit_eq_mask mask_eq_exp_minus_1)
  moreover have "unat (take_bit 16 w) = unat w mod 65536" for w :: u32 unfolding unsigned_take_bit_eq by (simp add: take_bit_eq_mod)
  ultimately have "unat ((push_bit 6 a OR s) AND 0xFFFF) = unat (a * 64 + s) mod 65536" unfolding shifted_or[OF assms] by metis
  also have "unat (a * 64 + s) = (unat a * 64 + unat s) mod 2 ^ 32" by (simp add: unat_word_ariths mod_simps)
  finally show ?thesis by (simp add: mod_mod_cancel)
qed

lemma low_byte: "unat (ucast (drop_bit k (a :: u32) AND 0xFF) :: u8) = unat a div 2 ^ k mod 256"
proof -
  have "drop_bit k a AND 0xFF = take_bit 8 (drop_bit k a)" by (simp add: take_bit_eq_mask mask_eq_exp_minus_1)
  moreover have "unat (take_bit 8 (drop_bit k a)) = unat a div 2 ^ k mod 256"
    unfolding unsigned_take_bit_eq unsigned_drop_bit_eq using unat_lt_word[of a] by (simp add: take_bit_eq_mod drop_bit_eq_div)
  ultimately show ?thesis by (simp add: unsigned_ucast_eq take_bit_eq_mod)
qed

subsection \<open>Reading an encoding\<close>

text \<open>The state after the sextets of \<open>a\<close>, read as one number, with \<open>k\<close> bits not yet written.\<close>

definition reading :: "u8 list \<Rightarrow> nat \<Rightarrow> nat \<Rightarrow> b64_state" where
  "reading bs a k = \<lparr>b_bytes = bs, accumulated = of_nat (a mod 65536), numBits = of_nat k, hasPadding = False, b_isValid = True\<rparr>"

lemma acc_div: "j \<le> 8 \<Longrightarrow> (a mod 65536) div 2 ^ j mod 256 = a div 2 ^ j mod (256 :: nat)"
proof -
  assume "j \<le> 8"
  then have "take_bit 8 (drop_bit j (take_bit 16 a)) = take_bit 8 (drop_bit j a)"
    by (auto simp: bit_eq_iff bit_simps)
  then show ?thesis by (simp add: take_bit_eq_mod drop_bit_eq_div)
qed

lemma add_sextet_reading:
  assumes "n < 64" and "k < 8"
  shows "add_sextet (of_nat n) (reading bs a k) =
    (if k < 2 then reading bs (a * 64 + n) (k + 6)
     else reading (bs @ [of_nat ((a * 64 + n) div 2 ^ (k - 2))]) (a * 64 + n) (k - 2))"
proof -
  let ?acc = "(push_bit 6 (of_nat (a mod 65536) :: u32) OR of_nat n) AND 0xFFFF"
  have n: "unat (of_nat n :: u32) = n" using assms by (simp add: no_wrap)
  have "unat (of_nat (a mod 65536) :: u32) = a mod 65536" by (simp add: no_wrap)
  then have "unat ?acc = (a mod 65536 * 64 + n) mod 65536" using next_acc[of "of_nat n" "of_nat (a mod 65536)"] n assms(1) by simp
  also have "\<dots> = (a * 64 + n) mod 65536" by (metis mod_add_left_eq mod_mult_left_eq)
  finally have acc: "unat ?acc = (a * 64 + n) mod 65536" .
  then have acc': "?acc = of_nat ((a * 64 + n) mod 65536)" by (simp add: word_unat_eq_iff no_wrap)
  have k6: "unat (of_nat k + 6 :: u32) = k + 6" using assms(2) by (simp add: unat_word_ariths no_wrap)
  show ?thesis
  proof (cases "k < 2")
    case True
    then have "\<not> (8 :: u32) \<le> of_nat k + 6" using k6 by (simp add: word_le_nat_alt)
    then show ?thesis using True acc' by (simp add: add_sextet_def reading_def Let_def)
  next
    case False
    then have ge: "(8 :: u32) \<le> of_nat k + 6" using k6 by (simp add: word_le_nat_alt)
    have diff: "of_nat k + 6 - 8 = (of_nat (k - 2) :: u32)" using False by (simp add: of_nat_diff)
    then have "unat (of_nat k + 6 - 8 :: u32) = k - 2" using assms(2) by (simp add: no_wrap)
    then have "unat (ucast (drop_bit (unat (of_nat k + 6 - 8 :: u32)) ?acc AND 0xFF) :: u8) = (a * 64 + n) div 2 ^ (k - 2) mod 256"
      using acc_div[of "k - 2" "a * 64 + n"] assms(2) by (simp only: low_byte acc)
    then have "ucast (drop_bit (unat (of_nat k + 6 - 8 :: u32)) ?acc AND 0xFF) = (of_nat ((a * 64 + n) div 2 ^ (k - 2)) :: u8)"
      by (simp add: word_unat_eq_iff unat_of_nat take_bit_eq_mod)
    then show ?thesis using False ge acc' diff by (simp add: add_sextet_def reading_def Let_def)
  qed
qed

lemma reading_valid [simp]: "(reading bs a k)\<lparr>b_isValid := True\<rparr> = reading bs a k" "b_isValid (reading bs a k)"
  "\<not> hasPadding (reading bs a k)" "b_bytes (reading bs a k) = bs"
  by (simp_all add: reading_def)

lemma b64_step_reading:
  assumes "n < 64" and "k < 8"
  shows "b64_loop (b64_char n # cs) (reading bs a k) =
    b64_loop cs (if k < 2 then reading bs (a * 64 + n) (k + 6)
     else reading (bs @ [of_nat ((a * 64 + n) div 2 ^ (k - 2))]) (a * 64 + n) (k - 2))"
proof -
  have "of_nat n \<noteq> NotBase64"
  proof
    assume "of_nat n = NotBase64"
    then have "unat (of_nat n :: u32) = unat NotBase64" by simp
    then show False using assms(1) by (simp add: NotBase64_def no_wrap)
  qed
  then show ?thesis
    using b64_char_read[OF assms(1)] add_sextet_reading[OF assms] by (simp add: b64_step_def plain_def Let_def)
qed

lemma last_byte: "of_nat (a * 256 + unat x) = (x :: u8)"
  using unat_lt_word[of x] by (simp add: word_unat_eq_iff unat_word_ariths)

lemma byte_bounds: "unat (x :: u8) div 4 < 64" "unat x mod 4 * 16 + unat y div 16 < 64"
  "unat y mod 16 * 4 + unat z div 64 < 64" "unat x mod 4 * 16 < 64" "unat y mod 16 * 4 < 64" "unat z mod 64 < 64"
  for x y z :: u8
proof -
  have "unat x < 256" "unat y < 256" "unat z < 256" using unat_lt_word[of x] unat_lt_word[of y] unat_lt_word[of z] by simp_all
  then have "unat x div 4 < 64" "unat y div 16 < 16" "unat z div 64 < 4" by (simp_all add: div_less_iff_less_mult)
  moreover have "unat x mod 4 < 4" "unat y mod 16 < 16" "unat z mod 64 < 64" by simp_all
  ultimately show "unat x div 4 < 64" "unat x mod 4 * 16 + unat y div 16 < 64" "unat y mod 16 * 4 + unat z div 64 < 64"
    "unat x mod 4 * 16 < 64" "unat y mod 16 * 4 < 64" "unat z mod 64 < 64" by - linarith+
qed

lemma group_numbers:
  fixes a q r u v w t :: nat
  shows "(a * 64 + q) * 64 + (r * 16 + u) = 16 * (a * 256 + (4 * q + r)) + u"
    "((a * 64 + q) * 64 + (r * 16 + u)) * 64 + (v * 4 + w) = 4 * ((a * 256 + (4 * q + r)) * 256 + (16 * u + v)) + w"
    "(((a * 64 + q) * 64 + (r * 16 + u)) * 64 + (v * 4 + w)) * 64 + t
       = ((a * 256 + (4 * q + r)) * 256 + (16 * u + v)) * 256 + (64 * w + t)"
  by (simp_all add: algebra_simps)

lemma group_bytes:
  fixes x y z a :: nat
  assumes "y div 16 < 16" and "z div 64 < 4"
  shows "((a * 64 + x div 4) * 64 + (x mod 4 * 16 + y div 16)) div 16 = a * 256 + x"
    "(((a * 64 + x div 4) * 64 + (x mod 4 * 16 + y div 16)) * 64 + (y mod 16 * 4 + z div 64)) div 4 = (a * 256 + x) * 256 + y"
    "(((a * 64 + x div 4) * 64 + (x mod 4 * 16 + y div 16)) * 64 + (y mod 16 * 4 + z div 64)) * 64 + z mod 64
       = ((a * 256 + x) * 256 + y) * 256 + z"
proof -
  have d: "4 * (x div 4) + x mod 4 = x" "16 * (y div 16) + y mod 16 = y" "64 * (z div 64) + z mod 64 = z" by simp_all
  have q: "(16 * m + u) div 16 = m" if "u < 16" for m u :: nat using that by simp
  have q4: "(4 * m + u) div 4 = m" if "u < 4" for m u :: nat using that by simp
  show "((a * 64 + x div 4) * 64 + (x mod 4 * 16 + y div 16)) div 16 = a * 256 + x"
    unfolding group_numbers(1) d by (rule q[OF assms(1)])
  show "(((a * 64 + x div 4) * 64 + (x mod 4 * 16 + y div 16)) * 64 + (y mod 16 * 4 + z div 64)) div 4 = (a * 256 + x) * 256 + y"
    unfolding group_numbers(2) d by (rule q4[OF assms(2)])
  show "(((a * 64 + x div 4) * 64 + (x mod 4 * 16 + y div 16)) * 64 + (y mod 16 * 4 + z div 64)) * 64 + z mod 64
       = ((a * 256 + x) * 256 + y) * 256 + z"
    unfolding group_numbers(3) d by (rule refl)
qed

lemma b64_steps:
  assumes "n < 64"
  shows "b64_loop (b64_char n # cs) (reading bs a 0) = b64_loop cs (reading bs (a * 64 + n) 6)"
    "b64_loop (b64_char n # cs) (reading bs a 6) = b64_loop cs (reading (bs @ [of_nat ((a * 64 + n) div 16)]) (a * 64 + n) 4)"
    "b64_loop (b64_char n # cs) (reading bs a 4) = b64_loop cs (reading (bs @ [of_nat ((a * 64 + n) div 4)]) (a * 64 + n) 2)"
    "b64_loop (b64_char n # cs) (reading bs a 2) = b64_loop cs (reading (bs @ [of_nat (a * 64 + n)]) (a * 64 + n) 0)"
  using b64_step_reading[OF assms, of 0 cs bs a] b64_step_reading[OF assms, of 6 cs bs a] b64_step_reading[OF assms, of 4 cs bs a]
    b64_step_reading[OF assms, of 2 cs bs a]
  by (simp_all del: of_nat_add of_nat_mult)

text \<open>A group of three bytes leaves the reader at a boundary of bytes again.\<close>

lemma group_read:
  "b64_loop (b64_char (unat x div 4) # b64_char (unat x mod 4 * 16 + unat y div 16) # b64_char (unat y mod 16 * 4 + unat z div 64) #
      b64_char (unat z mod 64) # cs) (reading bs a 0)
     = b64_loop cs (reading (((bs @ [x]) @ [y]) @ [z]) (((a * 256 + unat x) * 256 + unat y) * 256 + unat z) 0)"
proof -
  have h: "unat y div 16 < 16" "unat z div 64 < 4" using unat_lt_word[of y] unat_lt_word[of z] by (simp_all add: div_less_iff_less_mult)
  show ?thesis
    unfolding b64_steps(1)[OF byte_bounds(1)] b64_steps(2)[OF byte_bounds(2)] b64_steps(3)[OF byte_bounds(3)] b64_steps(4)[OF byte_bounds(6)]
      group_bytes[OF h] last_byte ..
qed

lemma padding_read: "b_isValid s \<Longrightarrow> b64_loop [CHR ''=''] s = s\<lparr>hasPadding := True\<rparr>"
  "b_isValid s \<Longrightarrow> b64_loop [CHR ''='', CHR ''=''] s = s\<lparr>hasPadding := True\<rparr>"
  by (simp_all add: b64_step_def)

lemma base64_read: "\<exists>s. b64_loop (base64 bs) (reading cs a 0) = s \<and> b_isValid s \<and> b_bytes s = cs @ bs"
proof (induction bs arbitrary: cs a rule: base64.induct)
  case (2 x)
  have "((a * 64 + unat x div 4) * 64 + unat x mod 4 * 16) div 16 = a * 256 + unat x"
    using group_bytes(1)[of 0 0 a "unat x"] by simp
  then show ?case
    by (simp only: base64.simps b64_steps(1)[OF byte_bounds(1)] b64_steps(2)[OF byte_bounds(4)] last_byte padding_read reading_valid)
      simp
next
  case (3 x y)
  have "unat y div 16 < 16" using unat_lt_word[of y] by (simp add: div_less_iff_less_mult)
  from group_bytes[OF this, of 0 a "unat x"] last_byte[of a x] last_byte[of "a * 256 + unat x" y] show ?case
    by (simp only: base64.simps b64_steps(1)[OF byte_bounds(1)] b64_steps(2)[OF byte_bounds(2)] b64_steps(3)[OF byte_bounds(5)]
        padding_read reading_valid) simp
next
  case (4 x y z r)
  show ?case
    using 4[of "((cs @ [x]) @ [y]) @ [z]" "((a * 256 + unat x) * 256 + unat y) * 256 + unat z"]
    by (simp only: base64.simps append.simps group_read) simp
qed simp

lemma spaces_skipped: "b64_loop s st = b64_loop (filter (\<lambda>c. \<not> is_space c) s) st"
proof (induction s arbitrary: st)
  case (Cons c s)
  have "is_space c \<Longrightarrow> b64_step c st = st" by (auto simp: b64_step_def is_space_def)
  then show ?case using Cons.IH[of st] Cons.IH[of "b64_step c st"] by (cases "s"; cases "b_isValid st") (auto simp: b64_loop.simps)
qed simp

lemma DecodeBase64_encoding:
  assumes "filter (\<lambda>c. \<not> is_space c) body = base64 bs"
  shows "DecodeBase64 body = Some bs"
proof -
  have "b64_init = reading [] 0 0" by (simp add: b64_init_def reading_def)
  then show ?thesis using base64_read[of bs "[]" 0] spaces_skipped[of body b64_init] assms by (auto simp: DecodeBase64_def Let_def)
qed

lemma base64_no_dash: "CHR ''-'' \<notin> set (base64 bs)"
proof -
  have "b64_char n \<noteq> CHR ''-''" if "n < 64" for n using b64_char_read(2)[OF that] by (simp add: plain_def)
  then show ?thesis using byte_bounds by (induction bs rule: base64.induct) (auto simp: eq_commute[of "CHR ''-''"])
qed

subsection \<open>Finding the blocks\<close>

definition at :: "string \<Rightarrow> string \<Rightarrow> nat \<Rightarrow> bool" where
  "at pat s p \<longleftrightarrow> take (length pat) (drop p s) = pat"

lemma find_at_first:
  assumes "at pat s p" and "\<And>q. q < p \<Longrightarrow> \<not> at pat s q" and "p \<le> length s" and "pat \<noteq> []"
  shows "find_at pat i s = Some (i + p)"
  using assms
proof (induction s arbitrary: i p)
  case (Cons c s)
  show ?case
  proof (cases p)
    case 0
    then show ?thesis using Cons.prems(1) by (simp add: at_def)
  next
    case (Suc r)
    have "\<not> at pat (c # s) 0" using Cons.prems(2)[of 0] Suc by simp
    moreover have "\<not> at pat s q" if "q < r" for q using Cons.prems(2)[of "Suc q"] Suc that by (simp add: at_def)
    ultimately show ?thesis using Cons.IH[of r "Suc i"] Cons.prems Suc by (simp add: at_def)
  qed
qed (simp add: at_def)

lemma find_at_found: "find_at pat i s = Some j \<Longrightarrow> pat \<noteq> [] \<Longrightarrow> i \<le> j \<and> at pat s (j - i) \<and> (\<forall>q<j - i. \<not> at pat s q)"
proof (induction pat i s rule: find_at.induct)
  case (2 pat i c cs)
  show ?case
  proof (cases "take (length pat) (c # cs) = pat")
    case False
    then have ij: "Suc i \<le> j" "at pat cs (j - Suc i)" "\<forall>q<j - Suc i. \<not> at pat cs q" using 2 by auto
    then have "j - i = Suc (j - Suc i)" by simp
    moreover have "\<not> at pat (c # cs) q" if "q < j - i" for q using that False ij(3) by (cases q) (auto simp: at_def)
    ultimately show ?thesis using ij by (simp add: at_def)
  qed (use 2 in \<open>auto simp: at_def\<close>)
qed simp

lemma find_from_shift: "find_from pat (pre @ s) (length pre) = map_option ((+) (length pre)) (find_from pat s 0)"
proof -
  have "find_at pat (n + i) s = map_option ((+) n) (find_at pat i s)" for n i
    by (induction pat i s rule: find_at.induct) auto
  from this[of "length pre" 0] show ?thesis by (simp add: find_from_def)
qed

lemma find_after_junk:
  assumes "find_from pat (junk @ pat) 0 = Some (length junk)" and "pat \<noteq> []"
  shows "find_from pat (junk @ pat @ tail) 0 = Some (length junk)"
proof -
  have "\<forall>q<length junk. \<not> at pat (junk @ pat) q" using assms find_at_found by (auto simp: find_from_def)
  moreover have "at pat (junk @ pat @ tail) q \<longleftrightarrow> at pat (junk @ pat) q" if "q < length junk" for q
    using that by (simp add: at_def)
  ultimately show ?thesis using find_at_first[of pat "junk @ pat @ tail" "length junk" 0] assms(2) by (simp add: find_from_def at_def)
qed

lemma find_end_marker:
  assumes "CHR ''-'' \<notin> set body"
  shows "find_from EndMarker (body @ EndMarker @ tail) 0 = Some (length body)"
proof -
  have "\<not> at EndMarker (body @ EndMarker @ tail) q" if "q < length body" for q
  proof
    assume "at EndMarker (body @ EndMarker @ tail) q"
    then have "hd (take (length EndMarker) (drop q (body @ EndMarker @ tail))) = CHR ''-''" by (simp add: at_def EndMarker_def)
    then have "body ! q = CHR ''-''" using that by (simp add: hd_drop_conv_nth nth_append EndMarker_def)
    then show False using assms that nth_mem by metis
  qed
  then show ?thesis
    using find_at_first[of EndMarker "body @ EndMarker @ tail" "length body" 0] by (simp add: find_from_def at_def EndMarker_def)
qed

text \<open>A certificate file: blocks with their bytes, each after some other text, and what follows the last.\<close>

definition cert_file :: "(string \<times> string \<times> u8 list) list \<Rightarrow> string \<Rightarrow> string" where
  "cert_file blocks rest = concat (map (\<lambda>(junk, body, _). junk @ BeginMarker @ body @ EndMarker) blocks) @ rest"

definition block_ok :: "string \<times> string \<times> u8 list \<Rightarrow> bool" where
  "block_ok b = (case b of (junk, body, bs) \<Rightarrow>
     find_from BeginMarker (junk @ BeginMarker) 0 = Some (length junk) \<and> filter (\<lambda>c. \<not> is_space c) body = base64 bs \<and> bs \<noteq> [])"

lemma cert_loop_blocks:
  assumes "list_all block_ok blocks" and "find_from BeginMarker rest 0 = None"
  shows "cert_loop (pre @ cert_file blocks rest) (find_from BeginMarker (pre @ cert_file blocks rest) (length pre)) cs
     = cs @ map (\<lambda>(_, _, bs). bs) blocks"
  using assms(1)
proof (induction blocks arbitrary: pre cs)
  case Nil
  then show ?case using find_from_shift[of BeginMarker pre rest] assms(2) by (simp add: cert_file_def)
next
  case (Cons b blocks)
  obtain junk body bs where b: "b = (junk, body, bs)" by (cases b)
  let ?more = "cert_file blocks rest" and ?file = "pre @ cert_file (b # blocks) rest"
  have ok: "find_from BeginMarker (junk @ BeginMarker) 0 = Some (length junk)" "filter (\<lambda>c. \<not> is_space c) body = base64 bs" "bs \<noteq> []"
    using Cons.prems b by (simp_all add: block_ok_def)
  have "CHR ''-'' \<notin> set (filter (\<lambda>c. \<not> is_space c) body)" using ok(2) base64_no_dash by simp
  then have dash: "CHR ''-'' \<notin> set body" by (auto simp: is_space_def)
  have layout: "?file = pre @ (junk @ BeginMarker @ body @ EndMarker @ ?more)" by (simp add: cert_file_def b)
  have start: "find_from BeginMarker ?file (length pre) = Some (length pre + length junk)"
    unfolding layout find_from_shift using find_after_junk[OF ok(1)] by (simp add: BeginMarker_def)
  let ?pre = "pre @ junk @ BeginMarker"
  have "?file = ?pre @ (body @ EndMarker @ ?more)" unfolding layout by simp
  then have stop: "find_from EndMarker ?file (length ?pre) = Some (length ?pre + length body)"
    using find_from_shift[of EndMarker ?pre "body @ EndMarker @ ?more"] find_end_marker[OF dash] by simp
  have taken: "take (length body) (drop (length ?pre) ?file) = body" unfolding layout by simp
  let ?pre' = "?pre @ body @ EndMarker"
  have layout2: "?file = ?pre' @ ?more" unfolding layout by simp
  have step: "cert_loop ?file (Some (length pre + length junk)) cs
      = cert_loop ?file (find_from BeginMarker ?file (length ?pre')) (cs @ [bs])"
    using stop taken DecodeBase64_encoding[OF ok(2)] ok(3) by (simp add: Let_def add.assoc)
  have "list_all block_ok blocks" using Cons.prems by simp
  then have "cert_loop ?file (find_from BeginMarker ?file (length ?pre')) (cs @ [bs]) = (cs @ [bs]) @ map (\<lambda>(_, _, bs). bs) blocks"
    unfolding layout2 by (rule Cons.IH)
  then show ?case unfolding start step by (simp add: b)
qed

lemma DecodeCertificates_file:
  assumes "list_all block_ok blocks" and "blocks \<noteq> []" and "find_from BeginMarker rest 0 = None"
  shows "DecodeCertificates (cert_file blocks rest) = map (\<lambda>(_, _, bs). bs) blocks"
proof -
  obtain junk body bs tail where b: "blocks = (junk, body, bs) # tail" using assms(2) by (cases blocks) auto
  have "find_from BeginMarker (cert_file blocks rest) 0 \<noteq> None"
    using find_after_junk[of BeginMarker junk "body @ EndMarker @ cert_file tail rest"] assms(1)
    by (simp add: b cert_file_def block_ok_def BeginMarker_def)
  then show ?thesis using cert_loop_blocks[OF assms(1,3), of "[]" "[]"] by (auto simp: DecodeCertificates_def Let_def)
qed

text \<open>C28.
  Reading a file of certificates gives the bytes of its blocks, in order and complete, for every number of blocks, every text between
  them and every white space inside them: what was encoded and laid out as PEM comes back.
\<close>

theorem certificates_read_back:
  assumes "list_all block_ok blocks" and "blocks \<noteq> []" and "find_from BeginMarker rest 0 = None"
  shows "DecodeCertificates (cert_file blocks rest) = map (\<lambda>(_, _, bs). bs) blocks"
  by (rule DecodeCertificates_file [OF assms])

theorem certificates_read_back_witness:
  "DecodeCertificates (''root - one'' @ BeginMarker @ ''MAI D'' @ EndMarker @ ''end'') = [[48, 2, 3]]"
proof -
  let ?b = "[(''root - one'', ''MAI D'', [48, 2, 3])]"
  have "b64_char 12 = CHR ''M''" "b64_char 0 = CHR ''A''" "b64_char 8 = CHR ''I''" "b64_char 3 = CHR ''D''"
    unfolding char_eq_code by (simp_all add: of_b64_char del: of_char_eq_iff)
  then have "list_all block_ok ?b"
    by (simp add: block_ok_def find_from_def BeginMarker_def is_space_def)
  moreover have "find_from BeginMarker ''end'' 0 = None" by (simp add: find_from_def BeginMarker_def)
  ultimately show ?thesis using certificates_read_back[of ?b "''end''"] by (simp add: cert_file_def)
qed

end
