(* ===== verification/Certificates.thy ===== *)
theory Certificates
  imports Pem Os_Errors
begin

section \<open>Root certificates and server chains\<close>

text \<open>
  Models \<^verbatim>\<open>private/net/root_certificates.cpp\<close> and \<^verbatim>\<open>private/net/verify_server_chain.cpp\<close>.  The disk of Linux and the certificate
  functions of Windows answer through arguments.
\<close>

type_synonym certificates = "u8 list list"

subsection \<open>The certificates of Linux\<close>

text \<open>
  \<open>d_reads p n\<close> is what a read of at most \<open>n\<close> bytes of the file gets, \<open>d_entries\<close> the paths a folder lists until its end or an error.
\<close>

record certificate_disk =
  d_regular :: "string \<Rightarrow> bool"
  d_size :: "string \<Rightarrow> int + nat"
  d_reads :: "string \<Rightarrow> nat \<Rightarrow> string"
  d_entries :: "string \<Rightarrow> string list"

definition BundleFiles :: "string list" where
  "BundleFiles =
     [''/etc/ssl/certs/ca-certificates.crt'', ''/etc/pki/tls/certs/ca-bundle.crt'', ''/etc/ssl/ca-bundle.pem'', ''/etc/pki/tls/cacert.pem'',
      ''/etc/pki/ca-trust/extracted/pem/tls-ca-bundle.pem'', ''/etc/ssl/cert.pem'']"

definition BundleFolders :: "string list" where
  "BundleFolders = [''/etc/ssl/certs'', ''/etc/pki/tls/certs'']"

definition ReadFile :: "certificate_disk \<Rightarrow> string \<Rightarrow> certificates" where
  "ReadFile d path =
     DecodeCertificates
       (if d_regular d path then case d_size d path of Inl _ \<Rightarrow> [] | Inr n \<Rightarrow> take n (d_reads d path n) else [])"

fun ReadFolder_loop :: "certificate_disk \<Rightarrow> string list \<Rightarrow> certificates \<Rightarrow> certificates" where
  "ReadFolder_loop d [] certificates = certificates"
| "ReadFolder_loop d (entry # entries) certificates = ReadFolder_loop d entries (certificates @ ReadFile d entry)"

definition ReadFolder :: "certificate_disk \<Rightarrow> string \<Rightarrow> certificates" where
  "ReadFolder d folder = ReadFolder_loop d (d_entries d folder) []"

fun try_paths :: "(string \<Rightarrow> certificates) \<Rightarrow> string list \<Rightarrow> certificates \<Rightarrow> certificates" where
  "try_paths read [] certificates = certificates"
| "try_paths read (path # paths) certificates = try_paths read paths (if certificates = [] then read path else certificates)"

definition found_or :: "int \<Rightarrow> certificates \<Rightarrow> error_code + certificates" where
  "found_or e certificates = (if certificates = [] then Inl (make_error_code e) else Inr certificates)"

definition linux_ReadSystemRootCertificates ::
    "certificate_disk \<Rightarrow> string option \<Rightarrow> string option \<Rightarrow> error_code + certificates" where
  "linux_ReadSystemRootCertificates d environmentFile environmentFolder =
     (if environmentFile \<noteq> None \<or> environmentFolder \<noteq> None
      then let c1 = (case environmentFile of None \<Rightarrow> [] | Some f \<Rightarrow> ReadFile d f);
               c2 = (case environmentFolder of None \<Rightarrow> c1 | Some f \<Rightarrow> if c1 = [] then ReadFolder d f else c1)
           in found_or invalid_argument c2
      else found_or no_such_file_or_directory (try_paths (ReadFolder d) BundleFolders (try_paths (ReadFile d) BundleFiles [])))"

subsection \<open>The certificates of Windows\<close>

text \<open>What the two calls of \<open>CertGetEnhancedKeyUsage\<close> answer: whether each succeeds, the usages and the last error after the second.\<close>

record windows_certificate =
  isSized :: bool
  isUsageRead :: bool
  usages :: "string list"
  w_lastError :: int
  encoded :: "u8 list"

definition CRYPT_E_NOT_FOUND :: int where "CRYPT_E_NOT_FOUND = 0x80092004"
definition szOID_PKIX_KP_SERVER_AUTH :: string where "szOID_PKIX_KP_SERVER_AUTH = ''1.3.6.1.5.5.7.3.1''"

definition IsForServers :: "windows_certificate \<Rightarrow> bool" where
  "IsForServers c =
     (if isSized c \<and> isUsageRead c
      then if usages c = [] then w_lastError c = CRYPT_E_NOT_FOUND else list_ex (\<lambda>u. u = szOID_PKIX_KP_SERVER_AUTH) (usages c)
      else False)"

fun enumerate_store :: "windows_certificate list \<Rightarrow> certificates \<Rightarrow> certificates" where
  "enumerate_store [] certificates = certificates"
| "enumerate_store (c # cs) certificates = enumerate_store cs (if IsForServers c then certificates @ [encoded c] else certificates)"

definition windows_ReadSystemRootCertificates :: "int + windows_certificate list \<Rightarrow> error_code + certificates" where
  "windows_ReadSystemRootCertificates store =
     (case store of
        Inl e \<Rightarrow> Inl (GetLastSystemError e)
      | Inr cs \<Rightarrow> found_or no_such_file_or_directory (enumerate_store cs []))"

subsection \<open>Which certificates are given\<close>

lemma ReadFolder_all: "ReadFolder d folder = concat (map (ReadFile d) (d_entries d folder))"
proof -
  have "ReadFolder_loop d entries certificates = certificates @ concat (map (ReadFile d) entries)" for entries certificates
    by (induction d entries certificates rule: ReadFolder_loop.induct) simp_all
  then show ?thesis by (simp add: ReadFolder_def)
qed

lemma try_paths_found [simp]: "certificates \<noteq> [] \<Longrightarrow> try_paths read paths certificates = certificates"
  by (induction read paths certificates rule: try_paths.induct) simp_all

lemma try_paths_append: "try_paths read (ps @ qs) c = try_paths read qs (try_paths read ps c)"
  by (induction read ps c rule: try_paths.induct) simp_all

lemma try_paths_none: "list_all (\<lambda>p. read p = []) paths \<Longrightarrow> try_paths read paths [] = []"
  by (induction paths) simp_all

lemma enumerate_store_filter: "enumerate_store cs certificates = certificates @ map encoded (filter IsForServers cs)"
  by (induction cs arbitrary: certificates) simp_all

lemma bundle_found:
  assumes "BundleFiles = earlier @ path # later" and "list_all (\<lambda>p. ReadFile d p = []) earlier" and "ReadFile d path \<noteq> []"
  shows "linux_ReadSystemRootCertificates d None None = Inr (ReadFile d path)"
proof -
  have "try_paths (ReadFile d) BundleFiles [] = ReadFile d path"
    unfolding assms(1) using assms(2,3) by (simp add: try_paths_append try_paths_none)
  then show ?thesis using assms(3) by (simp add: linux_ReadSystemRootCertificates_def found_or_def)
qed

text \<open>The disk holds a certificate file at a path, and is read honestly there.\<close>

definition holds_file :: "certificate_disk \<Rightarrow> string \<Rightarrow> string \<Rightarrow> bool" where
  "holds_file d path content \<longleftrightarrow> d_regular d path \<and> d_size d path = Inr (length content) \<and> d_reads d path (length content) = content"

text \<open>
  On a Linux machine without the environment variables whose bundles before the one at \<open>path\<close> are missing, the trusted roots are exactly the
  certificates of the file at \<open>path\<close>, in order, decoded from their PEM blocks, and no other file or folder adds or takes away any.
\<close>

theorem bundle_roots_exact:
  assumes "BundleFiles = earlier @ path # later" and "list_all (\<lambda>p. \<not> d_regular d p) earlier"
    and "holds_file d path (cert_file blocks rest)" and "list_all block_ok blocks" and "blocks \<noteq> []" and "find_from BeginMarker rest 0 = None"
  shows "linux_ReadSystemRootCertificates d None None = Inr (map (\<lambda>(_, _, bs). bs) blocks)"
proof -
  have read: "ReadFile d path = map (\<lambda>(_, _, bs). bs) blocks"
    using assms(3) DecodeCertificates_file [OF assms(4-6)] by (simp add: ReadFile_def holds_file_def)
  have "ReadFile d p = []" if "\<not> d_regular d p" for p
    using that by (simp add: ReadFile_def DecodeCertificates_def find_from_def BeginMarker_def)
  then have "list_all (\<lambda>p. ReadFile d p = []) earlier" using assms(2) by (simp add: list_all_iff)
  then show ?thesis using bundle_found [OF assms(1), of d] read assms(5) by simp
qed

definition suse_disk :: "string \<Rightarrow> certificate_disk" where
  "suse_disk content =
     \<lparr> d_regular = (\<lambda>p. p = ''/etc/ssl/ca-bundle.pem''), d_size = (\<lambda>p. Inr (length content)), d_reads = (\<lambda>p n. content), d_entries = (\<lambda>p. []) \<rparr>"

theorem bundle_roots_exact_witness:
  "linux_ReadSystemRootCertificates (suse_disk (cert_file [(''root - one'', ''MAI D'', [48, 2, 3])] ''end'')) None None = Inr [[48, 2, 3]]"
proof -
  let ?b = "[(''root - one'', ''MAI D'', [48, 2, 3])]"
  have "b64_char 12 = CHR ''M''" "b64_char 0 = CHR ''A''" "b64_char 8 = CHR ''I''" "b64_char 3 = CHR ''D''"
    unfolding char_eq_code by (simp_all add: of_b64_char del: of_char_eq_iff)
  then have "list_all block_ok ?b"
    by (simp add: block_ok_def find_from_def BeginMarker_def is_space_def)
  moreover have "find_from BeginMarker ''end'' 0 = None" by (simp add: find_from_def BeginMarker_def)
  moreover have "BundleFiles = take 2 BundleFiles @ ''/etc/ssl/ca-bundle.pem'' # drop 3 BundleFiles" by (simp add: BundleFiles_def)
  moreover have "list_all (\<lambda>p. \<not> d_regular (suse_disk (cert_file ?b ''end'')) p) (take 2 BundleFiles)"
    by (simp add: BundleFiles_def suse_disk_def)
  moreover have "holds_file (suse_disk (cert_file ?b ''end'')) ''/etc/ssl/ca-bundle.pem'' (cert_file ?b ''end'')"
    by (simp add: holds_file_def suse_disk_def)
  ultimately have "linux_ReadSystemRootCertificates (suse_disk (cert_file ?b ''end'')) None None = Inr (map (\<lambda>(_, _, bs). bs) ?b)"
    by (intro bundle_roots_exact) simp_all
  then show ?thesis by simp
qed

subsection \<open>Checking a server's chain\<close>

text \<open>
  What is open is a list of handles.  An answer is an error or success; the policy's verdict is a code of its own, 0 when it accepts.
\<close>

datatype chain_handle = Sent | Server | Chain

record chain_answers =
  c_store :: "int option"
  c_server :: "int option"
  c_chain :: "int option"
  c_policy :: "int + int"

definition chain_close :: "chain_handle \<Rightarrow> chain_handle list \<Rightarrow> chain_handle list" where
  "chain_close h l = remove1 h l"

definition CheckServerPolicy :: "int + int \<Rightarrow> error_code + unit" where
  "CheckServerPolicy policy =
     (case policy of
        Inl e \<Rightarrow> Inl (GetLastSystemError e)
      | Inr verdict \<Rightarrow> if verdict \<noteq> 0 then Inl (Error_Code system_category verdict) else Inr ())"

definition BuildAndCheck :: "chain_answers \<Rightarrow> chain_handle list \<Rightarrow> (error_code + unit) \<times> chain_handle list" where
  "BuildAndCheck a l =
     (case c_chain a of
        None \<Rightarrow> (CheckServerPolicy (c_policy a), chain_close Chain (Chain # l))
      | Some e \<Rightarrow> (Inl (GetLastSystemError e), l))"

text \<open>The certificates the server sent, and which of them beyond the first are put into the store: those that can be read.\<close>

definition windows_VerifyServerChain ::
    "u8 list list \<Rightarrow> chain_answers \<Rightarrow> chain_handle list \<Rightarrow> (error_code + unit) \<times> chain_handle list" where
  "windows_VerifyServerChain chain a l =
     (if chain = [] then (Inl (make_error_code invalid_argument), l)
      else
        let l1 = (if c_store a = None then Sent # l else l);
            storeError = (case c_store a of None \<Rightarrow> no_error | Some e \<Rightarrow> GetLastSystemError e);
            l2 = (if c_server a = None then Server # l1 else l1);
            serverError = (case c_server a of None \<Rightarrow> no_error | Some e \<Rightarrow> GetLastSystemError e);
            (result, l3) = (if c_store a = None \<and> c_server a = None then BuildAndCheck a l2
                            else (Inl (if c_store a \<noteq> None then storeError else serverError), l2));
            l4 = (if c_server a = None then chain_close Server l3 else l3);
            l5 = (if c_store a = None then chain_close Sent l4 else l4)
        in (result, l5))"

definition linux_VerifyServerChain :: "error_code + unit" where
  "linux_VerifyServerChain = Inl (make_error_code not_supported)"

text \<open>
  A server's chain is accepted exactly when every step succeeded: there is a certificate, the store and the certificate could be made, a chain
  was built and the policy accepted it; whatever fails, and wherever, every store, certificate and chain that was opened is closed again.
\<close>

theorem chain_accepted_iff:
  "(fst (windows_VerifyServerChain chain a l) = Inr () \<longleftrightarrow>
      chain \<noteq> [] \<and> c_store a = None \<and> c_server a = None \<and> c_chain a = None \<and> c_policy a = Inr 0)
   \<and> snd (windows_VerifyServerChain chain a l) = l"
  by (auto simp: windows_VerifyServerChain_def BuildAndCheck_def CheckServerPolicy_def chain_close_def Let_def split: option.splits sum.splits if_splits)

end
