(* ===== verification/Binary_Stream.thy ===== *)
theory Binary_Stream
  imports Prelude
begin

section \<open>Binary readers and writers\<close>

text \<open>
  Models \<^verbatim>\<open>private/io/stream.cpp\<close>: a writer that appends to a vector and a reader with a position in one, whose sums wrap as
  \<open>size_t\<close> does.  A read tells what reached the destination: nothing, the bytes, or whatever lies beyond the vector.
\<close>

record CBinaryReader =
  m_data :: "u8 list"
  m_position :: u64

record CBinaryWriter =
  w_data :: "u8 list"

datatype copied = Untouched | Bytes "u8 list" | Out_Of_Bounds

definition CBinaryReader_ctor :: "u8 list \<Rightarrow> CBinaryReader" where
  "CBinaryReader_ctor data = \<lparr> m_data = data, m_position = 0 \<rparr>"

definition data_size :: "CBinaryReader \<Rightarrow> u64" where
  "data_size r = of_nat (length (m_data r))"

definition copy_out :: "u8 list \<Rightarrow> u64 \<Rightarrow> u64 \<Rightarrow> copied" where
  "copy_out data pos n =
     (if unat pos + unat n \<le> length data then Bytes (take (unat n) (drop (unat pos) data)) else Out_Of_Bounds)"

definition ReadBytes :: "u64 \<Rightarrow> CBinaryReader \<Rightarrow> copied \<times> CBinaryReader" where
  "ReadBytes n r =
     (if m_position r + n \<le> data_size r
      then (copy_out (m_data r) (m_position r) n, r\<lparr>m_position := m_position r + n\<rparr>)
      else (Untouched, r))"

definition IsEOF :: "CBinaryReader \<Rightarrow> bool" where
  "IsEOF r \<longleftrightarrow> data_size r \<le> m_position r"

definition GetPosition :: "CBinaryReader \<Rightarrow> u64" where
  "GetPosition r = m_position r"

definition Seek :: "u64 \<Rightarrow> CBinaryReader \<Rightarrow> CBinaryReader" where
  "Seek offset r = r\<lparr>m_position := min offset (data_size r)\<rparr>"

text \<open>The vector grows by the size of what is written, which lies in memory beside it, so the sum of the two does not wrap.\<close>

definition WriteBytes :: "u8 list \<Rightarrow> CBinaryWriter \<Rightarrow> CBinaryWriter" where
  "WriteBytes src w = w\<lparr>w_data := w_data w @ src\<rparr>"

definition GetData :: "CBinaryWriter \<Rightarrow> u8 list" where
  "GetData w = w_data w"

fun read_all :: "u64 list \<Rightarrow> CBinaryReader \<Rightarrow> copied list \<times> CBinaryReader" where
  "read_all [] r = ([], r)"
| "read_all (n # ns) r = (case ReadBytes n r of (c, r1) \<Rightarrow> case read_all ns r1 of (cs, r2) \<Rightarrow> (c # cs, r2))"

subsection \<open>Staying inside\<close>

text \<open>The position is inside the vector, which is no larger than a vector of bytes can be.\<close>

definition inside :: "CBinaryReader \<Rightarrow> bool" where
  "inside r \<longleftrightarrow> length (m_data r) < 2 ^ 63 \<and> unat (m_position r) \<le> length (m_data r)"

lemma unat_data_size: "inside r \<Longrightarrow> unat (data_size r) = length (m_data r)"
  by (simp add: inside_def data_size_def unat_of_nat_small)

lemma reads_when_fits:
  assumes "inside r" and "unat (m_position r) + unat n < 2 ^ 64"
  shows "ReadBytes n r =
     (if unat (m_position r) + unat n \<le> length (m_data r)
      then (Bytes (take (unat n) (drop (unat (m_position r)) (m_data r))), r\<lparr>m_position := m_position r + n\<rparr>)
      else (Untouched, r))"
proof -
  have "unat (m_position r + n) = unat (m_position r) + unat n" using assms(2) by (simp add: unat_word_ariths)
  then have "m_position r + n \<le> data_size r \<longleftrightarrow> unat (m_position r) + unat n \<le> length (m_data r)"
    using unat_data_size [OF assms(1)] by (simp add: word_le_nat_alt)
  then show ?thesis by (simp add: ReadBytes_def copy_out_def)
qed

text \<open>
  C37. A reader whose position is inside its vector reads beyond the vector exactly when the position plus the size asked for wraps around; for
  every other size it copies exactly the next bytes of that size and moves behind them when they are all there, up to the last one, and otherwise copies nothing and
  stays.  Either way the position stays inside; \<open>Seek\<close> goes where it is asked to, but never beyond the end, and the end is reached exactly when
  no byte is left.
\<close>

theorem reader_bounds:
  assumes "inside r"
  shows "ReadBytes n r =
       (if 2 ^ 64 \<le> unat (m_position r) + unat n then (Out_Of_Bounds, r\<lparr>m_position := m_position r + n\<rparr>)
        else if unat (m_position r) + unat n \<le> length (m_data r)
        then (Bytes (take (unat n) (drop (unat (m_position r)) (m_data r))), r\<lparr>m_position := of_nat (unat (m_position r) + unat n)\<rparr>)
        else (Untouched, r))
     \<and> (unat (m_position r) + unat n < 2 ^ 64 \<longrightarrow> inside (snd (ReadBytes n r)))
     \<and> inside (Seek offset r) \<and> unat (m_position (Seek offset r)) = min (unat offset) (length (m_data r)) \<and> m_data (Seek offset r) = m_data r
     \<and> (IsEOF r \<longleftrightarrow> unat (m_position r) = length (m_data r))"
proof -
  have seek: "inside (Seek offset r) \<and> unat (m_position (Seek offset r)) = min (unat offset) (length (m_data r)) \<and> m_data (Seek offset r) = m_data r"
    using assms unat_data_size [OF assms] by (auto simp: Seek_def inside_def min_def word_le_nat_alt)
  have eof: "IsEOF r \<longleftrightarrow> unat (m_position r) = length (m_data r)"
    using assms unat_data_size [OF assms] by (auto simp: IsEOF_def inside_def word_le_nat_alt)
  show ?thesis
  proof (cases "unat (m_position r) + unat n < 2 ^ 64")
    case True
    then have sum: "unat (m_position r + n) = unat (m_position r) + unat n" by (simp add: unat_word_ariths)
    then have "inside (snd (ReadBytes n r))" using reads_when_fits [OF assms True] assms by (auto simp: inside_def)
    with reads_when_fits [OF assms True] seek eof True show ?thesis by simp
  next
    case False
    have "unat (m_position r + n) = (unat (m_position r) + unat n) mod 2 ^ 64" by (simp add: unat_word_ariths)
    also have "\<dots> = unat (m_position r) + unat n - 2 ^ 64" using False unat_lt_word [of n] unat_lt_word [of "m_position r"] by (simp add: mod_if)
    finally have "unat (m_position r + n) \<le> unat (m_position r)" using unat_lt_word [of n] by simp
    then have "m_position r + n \<le> data_size r" using assms unat_data_size [OF assms] by (simp add: inside_def word_le_nat_alt)
    moreover have "\<not> unat (m_position r) + unat n \<le> length (m_data r)" using False assms by (simp add: inside_def)
    ultimately show ?thesis using False seek eof by (simp add: ReadBytes_def copy_out_def)
  qed
qed

text \<open>The last bytes there are, one byte too many, and a size that wraps around.\<close>

theorem reader_bounds_witness:
  "fst (ReadBytes (- 2) \<lparr> m_data = [1, 2, 3, 4], m_position = 3 \<rparr>) = Out_Of_Bounds
   \<and> ReadBytes 1 \<lparr> m_data = [1, 2, 3, 4], m_position = 3 \<rparr> = (Bytes [4], \<lparr> m_data = [1, 2, 3, 4], m_position = 4 \<rparr>)
   \<and> ReadBytes 2 \<lparr> m_data = [1, 2, 3, 4], m_position = 3 \<rparr> = (Untouched, \<lparr> m_data = [1, 2, 3, 4], m_position = 3 \<rparr>)"
proof -
  have "inside \<lparr> m_data = [1, 2, 3, 4], m_position = 3 \<rparr>" by (simp add: inside_def)
  note bounds = reader_bounds [OF this]
  show ?thesis using bounds [of "- 2"] bounds [of 1] bounds [of 2] by simp
qed

subsection \<open>Reading back what was written\<close>

lemma writes_concat: "w_data (fold WriteBytes chunks w) = w_data w @ concat chunks"
  by (induction chunks arbitrary: w) (simp_all add: WriteBytes_def)

lemma read_all_chunks:
  assumes "length (before @ concat chunks) < 2 ^ 63"
  shows "read_all (map (\<lambda>c. of_nat (length c)) chunks) \<lparr> m_data = before @ concat chunks, m_position = of_nat (length before) \<rparr> =
           (map Bytes chunks, \<lparr> m_data = before @ concat chunks, m_position = of_nat (length (before @ concat chunks)) \<rparr>)"
  using assms
proof (induction chunks arbitrary: before)
  case (Cons c chunks)
  let ?r = "\<lparr> m_data = before @ concat (c # chunks), m_position = of_nat (length before) \<rparr>"
  have sizes: "unat (of_nat (length before) :: u64) = length before" "unat (of_nat (length c) :: u64) = length c"
    using Cons.prems by (simp_all add: unat_of_nat_small)
  have "inside ?r" using Cons.prems sizes by (simp add: inside_def)
  then have "ReadBytes (of_nat (length c)) ?r = (Bytes c, ?r\<lparr>m_position := of_nat (length before) + of_nat (length c)\<rparr>)"
    using reads_when_fits [of ?r "of_nat (length c)"] Cons.prems sizes by simp
  moreover have "read_all (map (\<lambda>c. of_nat (length c)) chunks) (?r\<lparr>m_position := of_nat (length before) + of_nat (length c)\<rparr>) =
      (map Bytes chunks, \<lparr> m_data = before @ concat (c # chunks), m_position = of_nat (length (before @ concat (c # chunks))) \<rparr>)"
    using Cons.IH [of "before @ c"] Cons.prems by simp
  ultimately show ?case by simp
qed simp

text \<open>
  Whatever values are written one after the other, a reader over the writer's data that asks for the same sizes in the same order gets
  exactly them back, is then at the end of the data, and gets nothing more from there.
\<close>

theorem stream_reads_back:
  assumes "length (concat chunks) < 2 ^ 63"
  shows "case read_all (map (\<lambda>c. of_nat (length c)) chunks) (CBinaryReader_ctor (GetData (fold WriteBytes chunks \<lparr> w_data = [] \<rparr>))) of
           (values, r) \<Rightarrow> values = map Bytes chunks \<and> IsEOF r \<and> (0 < n \<longrightarrow> n < 2 ^ 63 \<longrightarrow> ReadBytes n r = (Untouched, r))"
proof -
  let ?r = "\<lparr> m_data = concat chunks, m_position = of_nat (length (concat chunks)) \<rparr>"
  have pos: "unat (of_nat (length (concat chunks)) :: u64) = length (concat chunks)" using assms by (simp add: unat_of_nat_small)
  have "inside ?r" using assms pos by (simp add: inside_def)
  then have "ReadBytes n ?r = (Untouched, ?r)" if "0 < n" "n < 2 ^ 63"
  proof -
    have "0 < unat n" "unat n < 2 ^ 63" using that by (simp_all add: word_less_nat_alt)
    with reads_when_fits [OF \<open>inside ?r\<close>, of n] assms pos show ?thesis by simp
  qed
  moreover have "read_all (map (\<lambda>c. of_nat (length c)) chunks) (CBinaryReader_ctor (GetData (fold WriteBytes chunks \<lparr> w_data = [] \<rparr>))) =
      (map Bytes chunks, ?r)"
    using read_all_chunks [of "[]" chunks] assms by (simp add: CBinaryReader_ctor_def GetData_def writes_concat)
  ultimately show ?thesis by (simp add: IsEOF_def data_size_def)
qed

theorem stream_reads_back_witness:
  "fst (read_all [2, 0, 1] (CBinaryReader_ctor (GetData (fold WriteBytes [[1, 2], [], [3]] \<lparr> w_data = [] \<rparr>)))) = [Bytes [1, 2], Bytes [], Bytes [3]]"
  using stream_reads_back [of "[[1, 2], [], [3]]" 1] by (simp split: prod.splits)

end
