(* ===== verification/Files.thy ===== *)
theory Files
  imports Program_Search
begin

section \<open>Plain files and the user's folders\<close>

text \<open>
  Models \<^verbatim>\<open>private/io/file.cpp\<close> and \<^verbatim>\<open>private/io/get_user_folder.cpp\<close>.  A disk maps paths to bytes; whether a path opens is an
  argument.  A stream in text mode translates line ends on Windows and nothing on Linux.
\<close>

record plain_disk =
  f_bytes :: "string \<rightharpoonup> string"
  f_readable :: "string \<Rightarrow> bool"
  f_writable :: "string \<Rightarrow> bool"

subsection \<open>Text mode\<close>

abbreviation newline :: char where "newline \<equiv> CHR 0x0A"
abbreviation carriage_return :: char where "carriage_return \<equiv> CHR 0x0D"
abbreviation control_z :: char where "control_z \<equiv> CHR 0x1A"

definition text_out :: "bool \<Rightarrow> string \<Rightarrow> string" where
  "text_out windows s = (if windows then concat (map (\<lambda>c. if c = newline then [carriage_return, newline] else [c]) s) else s)"

fun windows_text_in :: "string \<Rightarrow> string" where
  "windows_text_in [] = []"
| "windows_text_in (c # cs) =
     (if c = control_z then []
      else if c = carriage_return \<and> cs \<noteq> [] \<and> hd cs = newline then newline # windows_text_in (tl cs)
      else c # windows_text_in cs)"

declare windows_text_in.simps(2) [simp del]

definition text_in :: "bool \<Rightarrow> string \<Rightarrow> string" where
  "text_in windows s = (if windows then windows_text_in s else s)"

subsection \<open>The operations\<close>

definition open_input :: "string \<Rightarrow> plain_disk \<Rightarrow> string option" where
  "open_input path d = (if f_readable d path then f_bytes d path else None)"

definition resize_to :: "nat \<Rightarrow> string \<Rightarrow> string" where
  "resize_to n s = take n s @ replicate (n - length s) (CHR 0x00)"

text \<open>\<open>istream::read\<close> into a buffer: what there is replaces its start, and the stream fails when that is less than asked for.\<close>

definition stream_read :: "string \<Rightarrow> string \<Rightarrow> bool \<times> string" where
  "stream_read chars buffer = (length buffer \<le> length chars, take (length buffer) chars @ drop (length chars) buffer)"

definition ReadAllBytes :: "string \<Rightarrow> plain_disk \<Rightarrow> string \<Rightarrow> bool \<times> string" where
  "ReadAllBytes path d outData =
     (case open_input path d of
        None \<Rightarrow> (False, outData)
      | Some bytes \<Rightarrow> stream_read bytes (resize_to (length bytes) outData))"

definition ReadAllText :: "bool \<Rightarrow> string \<Rightarrow> plain_disk \<Rightarrow> string \<Rightarrow> bool \<times> string" where
  "ReadAllText windows path d outText =
     (case open_input path d of
        None \<Rightarrow> (False, outText)
      | Some bytes \<Rightarrow> stream_read (text_in windows bytes) (resize_to (length bytes) outText))"

definition WriteAllBytes :: "string \<Rightarrow> string \<Rightarrow> plain_disk \<Rightarrow> bool \<times> plain_disk" where
  "WriteAllBytes path data d = (if f_writable d path then (True, d\<lparr>f_bytes := (f_bytes d)(path \<mapsto> data)\<rparr>) else (False, d))"

definition WriteAllText :: "bool \<Rightarrow> string \<Rightarrow> string \<Rightarrow> plain_disk \<Rightarrow> bool \<times> plain_disk" where
  "WriteAllText windows path t d =
     (if f_writable d path then (True, d\<lparr>f_bytes := (f_bytes d)(path \<mapsto> text_out windows t)\<rparr>) else (False, d))"

text \<open>\<open>removed\<close> is the error of \<open>std::filesystem::remove\<close>, which a path that is absent is not.\<close>

definition File_Delete :: "string \<Rightarrow> int option \<Rightarrow> plain_disk \<Rightarrow> bool \<times> plain_disk" where
  "File_Delete path removed d = (case removed of None \<Rightarrow> (True, d\<lparr>f_bytes := (f_bytes d)(path := None)\<rparr>) | Some e \<Rightarrow> (False, d))"

definition GetFileSize :: "int + nat \<Rightarrow> u64" where
  "GetFileSize file_size = (case file_size of Inl e \<Rightarrow> 0 | Inr n \<Rightarrow> of_nat n)"

subsection \<open>Reading back\<close>

lemma stream_read_all [simp]: "stream_read s (resize_to (length s) out) = (True, s)"
  by (simp add: stream_read_def resize_to_def)

lemma length_resize_to [simp]: "length (resize_to n s) = n"
  by (simp add: resize_to_def)

lemma windows_text_in_plain: "newline \<notin> set s \<Longrightarrow> control_z \<notin> set s \<Longrightarrow> windows_text_in s = s"
proof (induction s)
  case (Cons c s)
  then have "\<not> (s \<noteq> [] \<and> hd s = newline)" by (cases s) auto
  with Cons show ?case by (auto simp: windows_text_in.simps)
qed simp

lemma text_out_plain: "newline \<notin> set s \<Longrightarrow> text_out True s = s"
  by (induction s) (auto simp: text_out_def)

lemma text_out_Cons: "text_out True (c # s) = (if c = newline then [carriage_return, newline] else [c]) @ text_out True s"
  by (simp add: text_out_def)

lemma text_out_hd: "text_out True s \<noteq> [] \<longrightarrow> hd (text_out True s) \<noteq> newline"
  by (cases s) (auto simp: text_out_def)

lemma windows_text_shorter: "length (windows_text_in (text_out True s)) \<le> length s"
proof (induction s)
  case (Cons c s)
  show ?case
  proof (cases "c = newline")
    case True
    then show ?thesis using Cons by (simp add: text_out_Cons windows_text_in.simps)
  next
    case False
    then show ?thesis using Cons text_out_hd [of s] by (auto simp: text_out_Cons windows_text_in.simps)
  qed
qed (simp add: text_out_def)

lemma text_out_longer: "length (text_out True s) = length s + count_list s newline"
  by (induction s) (auto simp: text_out_Cons, simp add: text_out_def)

lemma windows_text_cut: "control_z \<in> set s \<Longrightarrow> newline \<notin> set s \<Longrightarrow> length (windows_text_in s) < length s"
proof (induction s)
  case (Cons c s)
  then have "\<not> (s \<noteq> [] \<and> hd s = newline)" by (cases s) auto
  with Cons show ?case by (auto simp: windows_text_in.simps)
qed simp

lemma windows_text_survives:
  "length (text_out True t) \<le> length (windows_text_in (text_out True t)) \<longleftrightarrow> newline \<notin> set t \<and> control_z \<notin> set t"
proof (cases "newline \<in> set t")
  case True
  then have "0 < count_list t newline" by (metis count_list_0_iff gr0I)
  then show ?thesis using True windows_text_shorter [of t] text_out_longer [of t] by simp
next
  case False
  then show ?thesis using windows_text_cut [of t] windows_text_in_plain [of t] text_out_plain [of t] by (cases "control_z \<in> set t") auto
qed

text \<open>
  What \<open>WriteAllBytes\<close> writes to a file that can be read \<open>ReadAllBytes\<close> reads back on both platforms, and so does \<open>ReadAllText\<close> with what
  \<open>WriteAllText\<close> wrote on Linux; on Windows it does exactly for texts of one line: \<open>ReadAllText\<close> asks a stream that translates line ends for as
  many characters as the file has bytes, and reports failure for every text with a line end in it.
\<close>

theorem text_read_back:
  assumes "f_writable d path" and "f_readable d path"
  shows "ReadAllBytes path (snd (WriteAllBytes path data d)) out = (True, data)
     \<and> ReadAllText False path (snd (WriteAllText False path t d)) out = (True, t)
     \<and> (fst (ReadAllText True path (snd (WriteAllText True path t d)) out) \<longleftrightarrow> newline \<notin> set t \<and> control_z \<notin> set t)"
  using assms windows_text_survives [of t]
  by (simp add: ReadAllBytes_def WriteAllBytes_def ReadAllText_def WriteAllText_def open_input_def text_in_def)
    (simp add: text_out_def stream_read_def)

definition plain_demo :: plain_disk where
  "plain_demo = \<lparr> f_bytes = Map.empty, f_readable = (\<lambda>p. True), f_writable = (\<lambda>p. True) \<rparr>"

theorem text_read_back_witness:
  "\<not> fst (ReadAllText True ''a'' (snd (WriteAllText True ''a'' [CHR ''x'', newline] plain_demo)) [])"
  using text_read_back [of plain_demo "''a''" "[]" "[]" "[CHR ''x'', newline]"] by (simp add: plain_demo_def)

subsection \<open>The user's folders\<close>

datatype EUserFolder = Config | UserData | State | Cache

definition OverrideVariables :: "EUserFolder \<Rightarrow> string" where
  "OverrideVariables f =
     (case f of Config \<Rightarrow> ''XDG_CONFIG_HOME'' | UserData \<Rightarrow> ''XDG_DATA_HOME'' | State \<Rightarrow> ''XDG_STATE_HOME'' | Cache \<Rightarrow> ''XDG_CACHE_HOME'')"

definition HomeFolders :: "EUserFolder \<Rightarrow> string" where
  "HomeFolders f = (case f of Config \<Rightarrow> ''.config'' | UserData \<Rightarrow> ''.local/share'' | State \<Rightarrow> ''.local/state'' | Cache \<Rightarrow> ''.cache'')"

definition GetEnvironmentPath :: "(string \<Rightarrow> string option) \<Rightarrow> string \<Rightarrow> string" where
  "GetEnvironmentPath env name = (case env name of Some v \<Rightarrow> v | None \<Rightarrow> [])"

definition linux_absolute :: "string \<Rightarrow> bool" where
  "linux_absolute p \<longleftrightarrow> p \<noteq> [] \<and> hd p = CHR ''/''"

definition linux_join :: "string \<Rightarrow> string \<Rightarrow> string" where
  "linux_join folder name = (if folder = [] \<or> last folder = CHR ''/'' then folder @ name else folder @ ''/'' @ name)"

definition NoHomeError :: int where "NoHomeError = 1"

definition linux_GetUserFolder :: "(string \<Rightarrow> string option) \<Rightarrow> EUserFolder \<Rightarrow> error_code + string" where
  "linux_GetUserFolder env folder =
     (let overridden = GetEnvironmentPath env (OverrideVariables folder)
      in if \<not> linux_absolute overridden
         then let home = GetEnvironmentPath env ''HOME''
              in if linux_absolute home then Inr (linux_join home (HomeFolders folder)) else Inl (Error_Code user_folder_category NoHomeError)
         else Inr overridden)"

text \<open>A failure of the shell says in its facility whether it carries an error of the system.\<close>

definition FACILITY_WIN32 :: u32 where "FACILITY_WIN32 = 7"

definition ToErrorCode :: "u32 \<Rightarrow> error_code" where
  "ToErrorCode result =
     (if drop_bit 16 result AND 0x1FFF = FACILITY_WIN32 then Error_Code system_category (uint (result AND 0xFFFF))
      else Error_Code system_category (sint result))"

datatype known_folder = RoamingAppData | LocalAppData

definition GetKnownFolder :: "(known_folder \<Rightarrow> u32 \<times> string) \<Rightarrow> EUserFolder \<Rightarrow> error_code + string" where
  "GetKnownFolder shell folder =
     (case shell (if folder = Config \<or> folder = UserData then RoamingAppData else LocalAppData) of
        (result, path) \<Rightarrow> if 0 \<le> sint result then Inr path else Inl (ToErrorCode result))"

definition windows_GetUserFolder ::
    "(string \<Rightarrow> string option) \<Rightarrow> (known_folder \<Rightarrow> u32 \<times> string) \<Rightarrow> EUserFolder \<Rightarrow> error_code + string" where
  "windows_GetUserFolder env shell folder =
     (let overridden = GetEnvironmentPath env (OverrideVariables folder)
      in if \<not> is_absolute overridden then GetKnownFolder shell folder else Inr overridden)"

text \<open>A folder that is given is absolute, as the system's own are, and a relative override is as good as none.\<close>

lemma user_folder_absolute:
  "linux_GetUserFolder env folder = Inr p \<Longrightarrow> linux_absolute p"
  "windows_GetUserFolder env shell folder = Inr p \<Longrightarrow> is_absolute p \<or> GetKnownFolder shell folder = Inr p"
  by (auto simp: linux_GetUserFolder_def windows_GetUserFolder_def linux_join_def linux_absolute_def Let_def split: if_splits)

lemma relative_override_ignored:
  "\<not> linux_absolute v \<Longrightarrow>
   linux_GetUserFolder (env(OverrideVariables folder \<mapsto> v)) folder = linux_GetUserFolder (env(OverrideVariables folder := None)) folder"
  by (cases folder) (auto simp: linux_GetUserFolder_def GetEnvironmentPath_def OverrideVariables_def linux_absolute_def Let_def)

end
