(* ===== verification/Float32.thy ===== *)
theory Float32
  imports Prelude
begin

section \<open>Single precision numbers\<close>

text \<open>
  The \<open>float\<close> of the sources, IEEE 754 binary32 with rounding to nearest, ties to even.  Every finite number is a multiple of \<open>2^-149\<close>, so it is
  kept as that multiple; the sign of zero is not kept, as no comparison sees it.  A compiler that fuses a product and a sum into one rounding
  is not covered.
\<close>

datatype float32 = Fin int | Inf bool | NaN

subsection \<open>Rounding\<close>

fun bits :: "nat \<Rightarrow> nat" where
  "bits n = (if n = 0 then 0 else Suc (bits (n div 2)))"

declare bits.simps [simp del]

definition half_even :: "int \<Rightarrow> int \<Rightarrow> int" where
  "half_even p q =
     (let d = p div q; r = p mod q
      in if 2 * r < q then d else if q < 2 * r then d + 1 else if even d then d else d + 1)"

text \<open>The quotient \<open>p / q\<close> of a positive \<open>q\<close>, rounded to 24 significant bits, or to the least multiple there is.\<close>

definition round_ratio :: "int \<Rightarrow> int \<Rightarrow> int" where
  "round_ratio p q = (let k = bits (nat (\<bar>p\<bar> div q)) - 24 in half_even p (q * 2 ^ k) * 2 ^ k)"

definition Overflow :: int where
  "Overflow = 2 ^ 277"

definition rounded :: "int \<Rightarrow> int \<Rightarrow> float32" where
  "rounded p q = (let n = round_ratio p q in if Overflow \<le> \<bar>n\<bar> then Inf (n < 0) else Fin n)"

subsection \<open>Operations\<close>

definition isfinite :: "float32 \<Rightarrow> bool" where
  "isfinite x = (case x of Fin _ \<Rightarrow> True | _ \<Rightarrow> False)"

definition f_less :: "float32 \<Rightarrow> float32 \<Rightarrow> bool" where
  "f_less x y =
     (case (x, y) of
        (Fin m, Fin n) \<Rightarrow> m < n
      | (Fin _, Inf neg) \<Rightarrow> \<not> neg
      | (Inf neg, Fin _) \<Rightarrow> neg
      | (Inf neg, Inf neg') \<Rightarrow> neg \<and> \<not> neg'
      | _ \<Rightarrow> False)"

definition f_le :: "float32 \<Rightarrow> float32 \<Rightarrow> bool" where
  "f_le x y = (f_less x y \<or> (x = y \<and> x \<noteq> NaN))"

definition f_neg :: "float32 \<Rightarrow> float32" where
  "f_neg x = (case x of Fin n \<Rightarrow> Fin (- n) | Inf neg \<Rightarrow> Inf (\<not> neg) | NaN \<Rightarrow> NaN)"

definition f_abs :: "float32 \<Rightarrow> float32" where
  "f_abs x = (case x of Fin n \<Rightarrow> Fin \<bar>n\<bar> | Inf _ \<Rightarrow> Inf False | NaN \<Rightarrow> NaN)"

definition f_add :: "float32 \<Rightarrow> float32 \<Rightarrow> float32" where
  "f_add x y =
     (case (x, y) of
        (Fin m, Fin n) \<Rightarrow> rounded (m + n) 1
      | (Fin _, Inf neg) \<Rightarrow> Inf neg
      | (Inf neg, Fin _) \<Rightarrow> Inf neg
      | (Inf neg, Inf neg') \<Rightarrow> if neg = neg' then Inf neg else NaN
      | _ \<Rightarrow> NaN)"

definition f_sub :: "float32 \<Rightarrow> float32 \<Rightarrow> float32" where
  "f_sub x y = f_add x (f_neg y)"

definition f_mul :: "float32 \<Rightarrow> float32 \<Rightarrow> float32" where
  "f_mul x y =
     (case (x, y) of
        (Fin m, Fin n) \<Rightarrow> rounded (m * n) (2 ^ 149)
      | (Fin m, Inf neg) \<Rightarrow> if m = 0 then NaN else Inf (neg \<noteq> (m < 0))
      | (Inf neg, Fin n) \<Rightarrow> if n = 0 then NaN else Inf (neg \<noteq> (n < 0))
      | (Inf neg, Inf neg') \<Rightarrow> Inf (neg \<noteq> neg')
      | _ \<Rightarrow> NaN)"

text \<open>Division by zero is left out: its result depends on the sign of the zero, and the sources that are modelled test for it first.\<close>

definition f_div :: "float32 \<Rightarrow> float32 \<Rightarrow> float32" where
  "f_div x y =
     (case (x, y) of
        (Fin m, Fin n) \<Rightarrow> if 0 < n then rounded (m * 2 ^ 149) n else if n < 0 then rounded (- m * 2 ^ 149) (- n) else NaN
      | (Fin _, Inf _) \<Rightarrow> Fin 0
      | (Inf neg, Fin n) \<Rightarrow> if n = 0 then NaN else Inf (neg \<noteq> (n < 0))
      | _ \<Rightarrow> NaN)"

text \<open>What a \<open>float\<close> can hold: finite numbers have 24 significant bits and stay below the overflow.\<close>

definition representable :: "int \<Rightarrow> bool" where
  "representable n \<longleftrightarrow> (\<exists>m k. n = m * 2 ^ k \<and> \<bar>m\<bar> \<le> 2 ^ 24)"

subsection \<open>Rounding to a grid\<close>

lemma half_even_le: "0 < q \<Longrightarrow> p \<le> m * q \<Longrightarrow> half_even p q \<le> m"
proof -
  assume q: "0 < q" and p: "p \<le> m * q"
  have split: "p = p div q * q + p mod q" by simp
  show "half_even p q \<le> m"
  proof (cases "p mod q = 0")
    case True
    then have "p div q * q \<le> m * q" using p split by simp
    then have "p div q \<le> m" using q by (simp add: mult_le_cancel_right)
    then show ?thesis using True q by (simp add: half_even_def)
  next
    case False
    then have "p div q * q < m * q" using p split q pos_mod_sign [OF q, of p] by linarith
    then have "p div q + 1 \<le> m" using q by (simp add: mult_less_cancel_right)
    then show ?thesis by (auto simp: half_even_def Let_def)
  qed
qed

lemma half_even_ge: "0 < q \<Longrightarrow> m * q \<le> p \<Longrightarrow> m \<le> half_even p q"
proof -
  assume q: "0 < q" and p: "m * q \<le> p"
  have "m = m * q div q" using q by simp
  also have "\<dots> \<le> p div q" using p q by (rule zdiv_mono1)
  also have "\<dots> \<le> half_even p q" by (simp add: half_even_def Let_def)
  finally show ?thesis .
qed

lemma half_even_exact [simp]: "0 < q \<Longrightarrow> half_even (m * q) q = m"
  by (rule antisym) (auto intro: half_even_le half_even_ge)

lemma half_even_near: "0 < q \<Longrightarrow> 2 * \<bar>half_even p q * q - p\<bar> \<le> q"
proof -
  assume q: "0 < q"
  define d r where "d = p div q" and "r = p mod q"
  have p: "p = d * q + r" and r: "0 \<le> r" "r < q" using q by (simp_all add: d_def r_def)
  have "half_even p q = d \<and> 2 * r \<le> q \<or> half_even p q = d + 1 \<and> q \<le> 2 * r"
    by (auto simp: half_even_def Let_def d_def [symmetric] r_def [symmetric])
  then show ?thesis using p r by (auto simp: algebra_simps abs_le_iff)
qed

lemma bits_0 [simp]: "bits 0 = 0"
  by (simp add: bits.simps)

lemma bits_bounds: "0 < n \<Longrightarrow> 2 ^ (bits n - 1) \<le> n \<and> n < 2 ^ bits n"
proof (induction n rule: bits.induct)
  case (1 n)
  show ?case
  proof (cases "n = 1")
    case True
    then show ?thesis by (simp add: bits.simps)
  next
    case False
    with 1 have "0 < n div 2" "n \<noteq> 0" by auto
    with 1 have ih: "2 ^ (bits (n div 2) - 1) \<le> n div 2" "n div 2 < 2 ^ bits (n div 2)" by auto
    obtain b where b: "bits (n div 2) = Suc b" using \<open>0 < n div 2\<close> by (cases "bits (n div 2)") (auto simp: bits.simps [of "n div 2"])
    with ih \<open>n \<noteq> 0\<close> show ?thesis by (subst (1 2) bits.simps) auto
  qed
qed

lemma bits_le: "n < 2 ^ k \<Longrightarrow> bits n \<le> k"
proof (rule ccontr)
  assume n: "n < 2 ^ k" and "\<not> bits n \<le> k"
  then have "0 < n" "k \<le> bits n - 1" by (auto intro: gr0I)
  then have "2 ^ k \<le> (2 :: nat) ^ (bits n - 1)" by simp
  with n bits_bounds [OF \<open>0 < n\<close>] show False by linarith
qed

text \<open>The number of bits the rounding drops, and what is known of a number of 24 bits beside a larger one.\<close>

definition dropped_bits :: "int \<Rightarrow> int \<Rightarrow> nat" where
  "dropped_bits p q = bits (nat (\<bar>p\<bar> div q)) - 24"

lemma round_ratio_alt: "round_ratio p q = half_even p (q * 2 ^ dropped_bits p q) * 2 ^ dropped_bits p q"
  by (simp add: round_ratio_def dropped_bits_def Let_def)

lemma ratio_upper:
  assumes "0 < q"
  shows "\<bar>p\<bar> \<le> 2 ^ 24 * (q * 2 ^ dropped_bits p q)"
proof -
  let ?n = "nat (\<bar>p\<bar> div q)"
  have "?n < 2 ^ bits ?n" using bits_bounds [of ?n] by (cases "?n = 0") auto
  also have "(2 :: nat) ^ bits ?n \<le> 2 ^ (24 + dropped_bits p q)" by (rule power_increasing) (simp_all add: dropped_bits_def)
  finally have "\<bar>p\<bar> div q < 2 ^ (24 + dropped_bits p q)"
    using assms by (simp add: nat_less_iff pos_imp_zdiv_nonneg_iff)
  then have "\<bar>p\<bar> div q + 1 \<le> 2 ^ (24 + dropped_bits p q)" by simp
  then have "(\<bar>p\<bar> div q + 1) * q \<le> 2 ^ (24 + dropped_bits p q) * q" using assms by (simp only: mult_right_mono)
  moreover have "\<bar>p\<bar> \<le> (\<bar>p\<bar> div q + 1) * q"
    using div_mult_mod_eq [of "\<bar>p\<bar>" q] pos_mod_bound [OF assms, of "\<bar>p\<bar>"] unfolding distrib_right by linarith
  ultimately show ?thesis by (simp add: power_add ac_simps)
qed

lemma ratio_lower:
  assumes "0 < q" and "dropped_bits p q \<noteq> 0"
  shows "2 ^ 23 * 2 ^ dropped_bits p q * q \<le> \<bar>p\<bar>"
proof -
  let ?n = "nat (\<bar>p\<bar> div q)"
  have b: "bits ?n - 1 = 23 + dropped_bits p q" using assms(2) by (simp add: dropped_bits_def)
  have "?n \<noteq> 0" using assms(2) unfolding dropped_bits_def by (metis bits_0 diff_0_eq_0)
  then have "0 < ?n" by simp
  then have "2 ^ (23 + dropped_bits p q) \<le> ?n" using bits_bounds [of ?n] b by simp
  then have "2 ^ (23 + dropped_bits p q) \<le> \<bar>p\<bar> div q" by (metis le_nat_iff assms(1) abs_ge_zero of_nat_numeral of_nat_power pos_imp_zdiv_nonneg_iff)
  then have "2 ^ (23 + dropped_bits p q) * q \<le> \<bar>p\<bar> div q * q" using assms(1) by (simp only: mult_right_mono)
  also have "\<dots> \<le> \<bar>p\<bar>" using div_mult_mod_eq [of "\<bar>p\<bar>" q] pos_mod_sign [OF assms(1), of "\<bar>p\<bar>"] by linarith
  finally show ?thesis by (simp add: power_add)
qed

lemma on_grid:
  assumes "representable a" and "0 < q"
  obtains (grid) c where "a = c * 2 ^ dropped_bits p q"
    | (small) "\<bar>a\<bar> \<le> 2 ^ 23 * 2 ^ dropped_bits p q" "2 ^ 23 * 2 ^ dropped_bits p q * q \<le> \<bar>p\<bar>"
proof -
  let ?k = "dropped_bits p q"
  obtain m j where a: "a = m * 2 ^ j" "\<bar>m\<bar> \<le> 2 ^ 24" using assms(1) by (auto simp: representable_def)
  show thesis
  proof (cases "?k \<le> j")
    case True
    then have "a = (m * 2 ^ (j - ?k)) * 2 ^ ?k" using a(1) by (simp add: power_add [symmetric] mult.assoc)
    then show thesis by (rule grid)
  next
    case False
    then have "\<bar>a\<bar> \<le> 2 ^ 24 * 2 ^ j" using a by (simp add: abs_mult)
    also have "\<dots> \<le> 2 ^ 24 * 2 ^ (?k - 1)" using False by (intro mult_left_mono power_increasing) auto
    also have "\<dots> = 2 ^ 23 * 2 ^ ?k" using False by (cases ?k) simp_all
    finally show thesis using ratio_lower [OF assms(2), of p] False by (intro small) auto
  qed
qed

lemma round_ratio_le:
  assumes "0 < q" and "representable a" and "p \<le> a * q"
  shows "round_ratio p q \<le> a"
  using assms(2,1)
proof (cases rule: on_grid [where p = p])
  case (grid c)
  then have "half_even p (q * 2 ^ dropped_bits p q) \<le> c" using assms by (intro half_even_le) (simp_all add: ac_simps)
  then show ?thesis by (simp add: round_ratio_alt grid mult_right_mono)
next
  case small
  let ?k = "dropped_bits p q"
  show ?thesis
  proof (cases "0 \<le> p")
    case True
    then have "2 ^ 23 * 2 ^ ?k * q \<le> a * q" using small(2) assms(3) by simp
    then have "a = 2 ^ 23 * 2 ^ ?k" using small(1) assms(1) by (simp add: mult_le_cancel_right)
    moreover have "half_even p (q * 2 ^ ?k) \<le> 2 ^ 23"
      using assms(1,3) by (intro half_even_le) (simp_all add: calculation ac_simps)
    ultimately show ?thesis by (simp add: round_ratio_alt mult_right_mono)
  next
    case False
    then have "half_even p (q * 2 ^ ?k) \<le> - (2 ^ 23)" using small(2) assms(1) by (intro half_even_le) (simp_all add: ac_simps)
    then have "round_ratio p q \<le> - (2 ^ 23) * 2 ^ ?k" unfolding round_ratio_alt by (rule mult_right_mono) simp
    then show ?thesis using small(1) by linarith
  qed
qed

lemma half_even_minus: "0 < q \<Longrightarrow> half_even (- p) q = - half_even p q"
proof -
  assume q: "0 < q"
  show ?thesis
  proof (cases "p mod q = 0")
    case True
    then show ?thesis using q by (simp add: half_even_def zmod_zminus1_eq_if zdiv_zminus1_eq_if)
  next
    case False
    have "0 \<le> p mod q" "p mod q < q" using q by simp_all
    with False show ?thesis using q by (auto simp: half_even_def Let_def zmod_zminus1_eq_if zdiv_zminus1_eq_if)
  qed
qed

lemma round_ratio_minus: "0 < q \<Longrightarrow> round_ratio (- p) q = - round_ratio p q"
  by (simp add: round_ratio_def half_even_minus Let_def)

lemma representable_minus [simp]: "representable (- a) \<longleftrightarrow> representable a"
proof -
  have "representable (- a)" if "representable a" for a
    using that unfolding representable_def by (metis abs_minus_cancel mult_minus_left)
  from this [of a] this [of "- a"] show ?thesis by auto
qed

lemma round_ratio_ge:
  assumes "0 < q" and "representable a" and "a * q \<le> p"
  shows "a \<le> round_ratio p q"
  using round_ratio_le [of q "- a" "- p"] assms by (simp add: round_ratio_minus)

lemma round_representable: "0 < q \<Longrightarrow> representable (round_ratio p q)"
proof -
  assume q: "0 < q"
  let ?k = "dropped_bits p q"
  have "half_even p (q * 2 ^ ?k) \<le> 2 ^ 24" "- (2 ^ 24) \<le> half_even p (q * 2 ^ ?k)"
    using ratio_upper [OF q, of p] q by (auto intro!: half_even_le half_even_ge)
  then show ?thesis unfolding round_ratio_alt representable_def by (intro exI [of _ "half_even p (q * 2 ^ ?k)"] exI [of _ ?k]) auto
qed

lemma round_near: "0 < q \<Longrightarrow> 2 * \<bar>round_ratio p q * q - p\<bar> \<le> q * 2 ^ dropped_bits p q"
  using half_even_near [of "q * 2 ^ dropped_bits p q" p] by (simp add: round_ratio_alt ac_simps)

lemma round_exact: "representable a \<Longrightarrow> round_ratio a 1 = a"
  using round_ratio_le [of 1 a a] round_ratio_ge [of 1 a a] by simp

subsection \<open>Order\<close>

lemma half_even_mono: "0 < q \<Longrightarrow> p \<le> p' \<Longrightarrow> half_even p q \<le> half_even p' q"
proof -
  assume q: "0 < q" and p: "p \<le> p'"
  have d: "p div q \<le> p' div q" using p q by (rule zdiv_mono1)
  show ?thesis
  proof (cases "p div q = p' div q")
    case True
    with p have "p mod q \<le> p' mod q" using div_mult_mod_eq [of p q] div_mult_mod_eq [of p' q] by (metis add_le_cancel_left)
    with True show ?thesis by (auto simp: half_even_def Let_def)
  next
    case False
    have "half_even p q \<le> p div q + 1" "p' div q \<le> half_even p' q" by (simp_all add: half_even_def Let_def)
    with False d show ?thesis by linarith
  qed
qed

lemma representable_0 [simp]: "representable 0"
  unfolding representable_def by (intro exI [of _ "0 :: int"] exI [of _ "0 :: nat"]) simp

lemma representable_grid: "representable (2 ^ 24 * 2 ^ k)"
  unfolding representable_def by (intro exI [of _ "2 ^ 24 :: int"] exI [of _ k]) simp

lemma powers_step: "j < k \<Longrightarrow> (2 :: int) ^ 24 * 2 ^ j \<le> 2 ^ 23 * 2 ^ k"
  using power_increasing [of "Suc j" k "2 :: int"] by simp

lemma round_ratio_mono_pos:
  assumes "0 < q" "0 \<le> p" "p \<le> p'"
  shows "round_ratio p q \<le> round_ratio p' q"
proof -
  let ?k = "dropped_bits p q" and ?k' = "dropped_bits p' q"
  have upper: "p \<le> 2 ^ 24 * 2 ^ ?k * q" "p' \<le> 2 ^ 24 * 2 ^ ?k' * q"
    using ratio_upper [OF assms(1), of p] ratio_upper [OF assms(1), of p'] assms by (simp_all add: ac_simps)
  consider "?k = ?k'" | "?k < ?k'" | "?k' < ?k" by linarith
  then show ?thesis
  proof cases
    case 1
    then show ?thesis unfolding round_ratio_alt using half_even_mono assms(1,3) by (simp add: mult_right_mono)
  next
    case 2
    then have "2 ^ 23 * 2 ^ ?k' * q \<le> p'" using ratio_lower [OF assms(1), of p'] assms by simp
    moreover have "2 ^ 24 * 2 ^ ?k * q \<le> 2 ^ 23 * 2 ^ ?k' * q" using powers_step [OF 2] assms(1) by (simp only: mult_right_mono)
    ultimately have "2 ^ 24 * 2 ^ ?k * q \<le> p'" by linarith
    then have "2 ^ 24 * 2 ^ ?k \<le> round_ratio p' q" by (rule round_ratio_ge [OF assms(1) representable_grid])
    with round_ratio_le [OF assms(1) representable_grid upper(1)] show ?thesis by linarith
  next
    case 3
    then have "2 ^ 23 * 2 ^ ?k * q \<le> p" using ratio_lower [OF assms(1), of p] assms by simp
    moreover have "2 ^ 24 * 2 ^ ?k' * q \<le> 2 ^ 23 * 2 ^ ?k * q" using powers_step [OF 3] assms(1) by (simp only: mult_right_mono)
    ultimately have "p = p'" using upper(2) assms(3) by linarith
    then show ?thesis by simp
  qed
qed

lemma round_ratio_mono:
  assumes "0 < q" "p \<le> p'"
  shows "round_ratio p q \<le> round_ratio p' q"
proof -
  consider "0 \<le> p" | "p < 0" "0 \<le> p'" | "p' < 0" by linarith
  then show ?thesis
  proof cases
    case 1
    then show ?thesis using assms by (simp add: round_ratio_mono_pos)
  next
    case 2
    then show ?thesis using round_ratio_le [of q 0 p] round_ratio_ge [of q 0 p'] assms(1) by simp
  next
    case 3
    then show ?thesis using round_ratio_mono_pos [of q "- p'" "- p"] assms by (simp add: round_ratio_minus)
  qed
qed

lemma rounded_mono: "0 < q \<Longrightarrow> p \<le> p' \<Longrightarrow> f_le (rounded p q) (rounded p' q)"
  using round_ratio_mono [of q p p'] by (auto simp: rounded_def Let_def f_le_def f_less_def)

lemma f_le_Fin [simp]: "f_le (Fin a) (Fin b) \<longleftrightarrow> a \<le> b"
  by (auto simp: f_le_def f_less_def)

lemma f_less_Fin [simp]: "f_less (Fin a) (Fin b) \<longleftrightarrow> a < b"
  by (simp add: f_less_def)

lemma f_le_trans: "f_le x y \<Longrightarrow> f_le y z \<Longrightarrow> f_le x z"
  by (cases x; cases y; cases z) (auto simp: f_le_def f_less_def)

text \<open>A rounded number stays on its side of zero and within every bound that a \<open>float\<close> can hold.\<close>

lemma rounded_within:
  assumes "0 < q" and "representable b" and "b < Overflow" and "\<bar>p\<bar> \<le> b * q"
  obtains n where "rounded p q = Fin n" "n = round_ratio p q" "\<bar>n\<bar> \<le> b" "0 \<le> p \<Longrightarrow> 0 \<le> n" "p \<le> 0 \<Longrightarrow> n \<le> 0"
proof -
  have "round_ratio p q \<le> b" "- b \<le> round_ratio p q"
    using round_ratio_le [OF assms(1,2), of p] round_ratio_ge [OF assms(1), of "- b" p] assms(2,4) by (simp_all add: abs_le_iff)
  moreover have "0 \<le> p \<Longrightarrow> 0 \<le> round_ratio p q" "p \<le> 0 \<Longrightarrow> round_ratio p q \<le> 0"
    using round_ratio_ge [OF assms(1) representable_0, of p] round_ratio_le [OF assms(1) representable_0, of p] by simp_all
  ultimately show thesis using that [of "round_ratio p q"] assms(3) by (simp add: rounded_def Let_def)
qed

lemma f_add_mono:
  assumes "f_le x x'" "f_le y y'" "f_add x y \<noteq> NaN" "f_add x' y' \<noteq> NaN"
  shows "f_le (f_add x y) (f_add x' y')"
proof (cases "\<exists>a b a' b'. x = Fin a \<and> y = Fin b \<and> x' = Fin a' \<and> y' = Fin b'")
  case True
  then show ?thesis using assms by (auto simp: f_add_def intro!: rounded_mono)
next
  case False
  then show ?thesis using assms
    by (cases x; cases y; cases x'; cases y')
      (auto simp: f_add_def f_le_def f_less_def rounded_def Let_def split: if_splits)
qed

lemma f_mul_mono: "(0 \<le> n \<and> a \<le> b) \<or> (n < 0 \<and> b \<le> a) \<Longrightarrow> f_le (f_mul (Fin n) (Fin a)) (f_mul (Fin n) (Fin b))"
proof -
  assume "(0 \<le> n \<and> a \<le> b) \<or> (n < 0 \<and> b \<le> a)"
  then have "n * a \<le> n * b" by (auto intro: mult_left_mono mult_left_mono_neg)
  then show ?thesis by (simp add: f_mul_def rounded_mono)
qed

subsection \<open>Whole numbers\<close>

definition whole :: "int \<Rightarrow> int" where
  "whole n = n * 2 ^ 149"

lemma representable_whole: "\<bar>n\<bar> \<le> 2 ^ 24 \<Longrightarrow> representable (whole n)"
  unfolding representable_def whole_def by (intro exI [of _ n] exI [of _ "149 :: nat"]) simp

lemma whole_small: "\<bar>n\<bar> \<le> 2 ^ 24 \<Longrightarrow> \<bar>whole n\<bar> < Overflow"
  by (simp add: whole_def Overflow_def abs_mult)

lemma rounded_whole: "0 < q \<Longrightarrow> \<bar>n\<bar> \<le> 2 ^ 24 \<Longrightarrow> rounded (whole n * q) q = Fin (whole n)"
  using round_ratio_le [of q "whole n" "whole n * q"] round_ratio_ge [of q "whole n" "whole n * q"] representable_whole [of n] whole_small [of n]
  by (simp add: rounded_def Let_def)

lemma f_add_whole: "\<bar>m + n\<bar> \<le> 2 ^ 24 \<Longrightarrow> f_add (Fin (whole m)) (Fin (whole n)) = Fin (whole (m + n))"
  using rounded_whole [of 1 "m + n"] by (simp add: f_add_def whole_def distrib_right)

lemma f_sub_whole: "\<bar>m - n\<bar> \<le> 2 ^ 24 \<Longrightarrow> f_sub (Fin (whole m)) (Fin (whole n)) = Fin (whole (m - n))"
  using rounded_whole [of 1 "m - n"] by (simp add: f_sub_def f_neg_def f_add_def whole_def left_diff_distrib)

lemma f_mul_whole: "\<bar>m * n\<bar> \<le> 2 ^ 24 \<Longrightarrow> f_mul (Fin (whole m)) (Fin (whole n)) = Fin (whole (m * n))"
  using rounded_whole [of "2 ^ 149" "m * n"] by (simp add: f_mul_def whole_def ac_simps)

lemma whole_le: "whole m \<le> whole n \<longleftrightarrow> m \<le> n"
  by (simp add: whole_def)

lemma whole_less: "whole m < whole n \<longleftrightarrow> m < n"
  by (simp add: whole_def)

end
