(* ===== verification/Exposure_Curve.thy ===== *)
theory Exposure_Curve
  imports Float32
begin

section \<open>Exposure curves\<close>

text \<open>
  Models \<^verbatim>\<open>public/tge/exposure/exposure_curve.hpp\<close>: up to 16 keys kept in an array in the order of their exposure value, with single
  precision numbers.  Its first \<open>m_numKeys\<close> entries are the keys.
\<close>

record SExposureCurveKey =
  ev100 :: float32
  stops :: float32

definition MaxExposureCurveKeys :: nat where
  "MaxExposureCurveKeys = 16"

record CExposureCurve =
  m_keys :: "SExposureCurveKey list"
  m_numKeys :: nat

text \<open>\<open>1e-4f\<close> is \<open>13743895 * 2^-37\<close>.\<close>

definition DuplicateEpsilon :: float32 where
  "DuplicateEpsilon = Fin (13743895 * 2 ^ 112)"

definition no_key :: SExposureCurveKey where
  "no_key = \<lparr> ev100 = Fin 0, stops = Fin 0 \<rparr>"

definition empty_curve :: CExposureCurve where
  "empty_curve = \<lparr> m_keys = replicate MaxExposureCurveKeys no_key, m_numKeys = 0 \<rparr>"

subsection \<open>The operations\<close>

function find_slot :: "SExposureCurveKey list \<Rightarrow> nat \<Rightarrow> float32 \<Rightarrow> nat \<Rightarrow> nat" where
  "find_slot keys n limit slot =
     (if slot < n \<and> f_less (ev100 (keys ! slot)) limit then find_slot keys n limit (slot + 1) else slot)"
  by pat_completeness auto
termination by (relation "measure (\<lambda>(_, n, _, slot). n - slot)") auto

declare find_slot.simps [simp del]

fun shift_up :: "SExposureCurveKey list \<Rightarrow> nat \<Rightarrow> nat \<Rightarrow> SExposureCurveKey list" where
  "shift_up keys shift slot = (if slot < shift then shift_up (keys[shift := keys ! (shift - 1)]) (shift - 1) slot else keys)"

declare shift_up.simps [simp del]

function shift_down :: "SExposureCurveKey list \<Rightarrow> nat \<Rightarrow> nat \<Rightarrow> SExposureCurveKey list" where
  "shift_down keys n shift = (if shift + 1 < n then shift_down (keys[shift := keys ! (shift + 1)]) n (shift + 1) else keys)"
  by pat_completeness auto
termination by (relation "measure (\<lambda>(_, n, shift). n - shift)") auto

declare shift_down.simps [simp del]

definition AddKey :: "float32 \<Rightarrow> float32 \<Rightarrow> CExposureCurve \<Rightarrow> bool \<times> CExposureCurve" where
  "AddKey ev st c =
     (if isfinite ev \<and> isfinite st
      then
        let slot = find_slot (m_keys c) (m_numKeys c) (f_sub ev DuplicateEpsilon) 0;
            replaces = (slot < m_numKeys c \<and> f_le (f_abs (f_sub (ev100 (m_keys c ! slot)) ev)) DuplicateEpsilon);
            key = \<lparr> ev100 = ev, stops = st \<rparr>
        in if replaces then (True, c\<lparr>m_keys := (m_keys c)[slot := key]\<rparr>)
           else if m_numKeys c < MaxExposureCurveKeys
           then (True, c\<lparr>m_keys := (shift_up (m_keys c) (m_numKeys c) slot)[slot := key], m_numKeys := m_numKeys c + 1\<rparr>)
           else (False, c)
      else (False, c))"

definition RemoveKey :: "nat \<Rightarrow> CExposureCurve \<Rightarrow> bool \<times> CExposureCurve" where
  "RemoveKey index c =
     (if index < m_numKeys c then (True, c\<lparr>m_keys := shift_down (m_keys c) (m_numKeys c) index, m_numKeys := m_numKeys c - 1\<rparr>)
      else (False, c))"

definition Curve_Clear :: "CExposureCurve \<Rightarrow> CExposureCurve" where
  "Curve_Clear c = c\<lparr>m_numKeys := 0\<rparr>"

definition Lerp :: "float32 \<Rightarrow> float32 \<Rightarrow> float32 \<Rightarrow> float32" where
  "Lerp a b t = f_add a (f_mul (f_sub b a) t)"

definition segment_value :: "SExposureCurveKey \<Rightarrow> SExposureCurveKey \<Rightarrow> float32 \<Rightarrow> float32" where
  "segment_value low high ev =
     (let span = f_sub (ev100 high) (ev100 low);
          t = (if f_less (Fin 0) span then f_div (f_sub ev (ev100 low)) span else Fin 0)
      in Lerp (stops low) (stops high) t)"

function segments :: "SExposureCurveKey list \<Rightarrow> nat \<Rightarrow> float32 \<Rightarrow> nat \<Rightarrow> float32 \<Rightarrow> float32" where
  "segments keys n ev segment result =
     (if segment + 1 < n
      then segments keys n ev (segment + 1)
             (let low = keys ! segment; high = keys ! (segment + 1)
              in if f_less (ev100 low) ev \<and> f_le ev (ev100 high) then segment_value low high ev else result)
      else result)"
  by pat_completeness auto
termination by (relation "measure (\<lambda>(_, n, _, segment, _). n - segment)") auto

declare segments.simps [simp del]

definition Evaluate :: "float32 \<Rightarrow> CExposureCurve \<Rightarrow> float32" where
  "Evaluate ev c =
     (if 0 < m_numKeys c
      then if f_le ev (ev100 (m_keys c ! 0)) then stops (m_keys c ! 0)
           else segments (m_keys c) (m_numKeys c) ev 0 (stops (m_keys c ! (m_numKeys c - 1)))
      else Fin 0)"

subsection \<open>The array as a list\<close>

definition keys_of :: "CExposureCurve \<Rightarrow> SExposureCurveKey list" where
  "keys_of c = take (m_numKeys c) (m_keys c)"

definition curve_shape :: "CExposureCurve \<Rightarrow> bool" where
  "curve_shape c \<longleftrightarrow> length (m_keys c) = MaxExposureCurveKeys \<and> m_numKeys c \<le> MaxExposureCurveKeys"

lemma length_shift_up [simp]: "length (shift_up keys shift slot) = length keys"
  by (induction keys shift slot rule: shift_up.induct) (subst shift_up.simps, simp)

lemma length_shift_down [simp]: "length (shift_down keys n shift) = length keys"
  by (induction keys n shift rule: shift_down.induct) (subst shift_down.simps, simp)

lemma shift_up_nth:
  "slot \<le> shift \<Longrightarrow> shift < length keys \<Longrightarrow> i < length keys \<Longrightarrow>
   shift_up keys shift slot ! i = (if slot < i \<and> i \<le> shift then keys ! (i - 1) else keys ! i)"
proof (induction keys shift slot rule: shift_up.induct)
  case (1 keys shift slot)
  show ?case
  proof (cases "slot < shift")
    case True
    then show ?thesis using 1 by (subst shift_up.simps) (auto simp: nth_list_update)
  next
    case False
    then show ?thesis using 1 by (subst shift_up.simps) auto
  qed
qed

lemma shift_down_nth:
  "n \<le> length keys \<Longrightarrow> i < n \<Longrightarrow>
   shift_down keys n shift ! i = (if shift \<le> i \<and> i + 1 < n then keys ! (i + 1) else keys ! i)"
proof (induction keys n shift rule: shift_down.induct)
  case (1 keys n shift)
  show ?case
  proof (cases "shift + 1 < n")
    case True
    then show ?thesis using 1 by (subst shift_down.simps) (auto simp: nth_list_update)
  next
    case False
    then show ?thesis using 1 by (subst shift_down.simps) auto
  qed
qed

lemma find_slot_spec:
  assumes "start \<le> n"
  shows "start \<le> find_slot keys n limit start \<and> find_slot keys n limit start \<le> n \<and>
     (\<forall>i. start \<le> i \<longrightarrow> i < find_slot keys n limit start \<longrightarrow> f_less (ev100 (keys ! i)) limit) \<and>
     (find_slot keys n limit start < n \<longrightarrow> \<not> f_less (ev100 (keys ! find_slot keys n limit start)) limit)"
  using assms
proof (induction keys n limit start rule: find_slot.induct)
  case (1 keys n limit slot)
  show ?case
  proof (cases "slot < n \<and> f_less (ev100 (keys ! slot)) limit")
    case True
    with 1 have "find_slot keys n limit slot = find_slot keys n limit (slot + 1)" by (subst find_slot.simps) simp
    moreover have "slot + 1 \<le> n" using True by simp
    ultimately show ?thesis using 1(1) [OF True] True by (metis Suc_eq_plus1 Suc_leD Suc_leI le_neq_implies_less)
  next
    case False
    then have "find_slot keys n limit slot = slot" by (subst find_slot.simps) auto
    with False 1 show ?thesis by auto
  qed
qed

lemma keys_insert:
  assumes "curve_shape c" and "m_numKeys c < MaxExposureCurveKeys" and "slot \<le> m_numKeys c"
  shows "take (m_numKeys c + 1) ((shift_up (m_keys c) (m_numKeys c) slot)[slot := key]) =
           take slot (keys_of c) @ key # drop slot (keys_of c)"
proof (rule nth_equalityI)
  show "length (take (m_numKeys c + 1) ((shift_up (m_keys c) (m_numKeys c) slot)[slot := key])) =
      length (take slot (keys_of c) @ key # drop slot (keys_of c))"
    using assms by (simp add: curve_shape_def keys_of_def)
next
  fix i
  assume "i < length (take (m_numKeys c + 1) ((shift_up (m_keys c) (m_numKeys c) slot)[slot := key]))"
  then have "i \<le> m_numKeys c" by simp
  with assms show "take (m_numKeys c + 1) ((shift_up (m_keys c) (m_numKeys c) slot)[slot := key]) ! i =
      (take slot (keys_of c) @ key # drop slot (keys_of c)) ! i"
    by (auto simp: curve_shape_def keys_of_def nth_append nth_Cons' nth_list_update shift_up_nth)
qed

lemma keys_delete:
  assumes "curve_shape c" and "index < m_numKeys c"
  shows "take (m_numKeys c - 1) (shift_down (m_keys c) (m_numKeys c) index) = take index (keys_of c) @ drop (index + 1) (keys_of c)"
  by (rule nth_equalityI) (use assms in \<open>auto simp: curve_shape_def keys_of_def nth_append shift_down_nth\<close>)

lemma AddKey_cases:
  assumes "curve_shape c" and "isfinite ev" and "isfinite st"
  obtains (replaced) slot where "slot < m_numKeys c" "f_le (f_abs (f_sub (ev100 (keys_of c ! slot)) ev)) DuplicateEpsilon"
      "fst (AddKey ev st c)" "keys_of (snd (AddKey ev st c)) = (keys_of c)[slot := \<lparr> ev100 = ev, stops = st \<rparr>]"
      "curve_shape (snd (AddKey ev st c))"
    | (inserted) slot where "slot \<le> m_numKeys c" "m_numKeys c < MaxExposureCurveKeys" "fst (AddKey ev st c)"
      "keys_of (snd (AddKey ev st c)) = take slot (keys_of c) @ \<lparr> ev100 = ev, stops = st \<rparr> # drop slot (keys_of c)"
      "curve_shape (snd (AddKey ev st c))"
      "\<forall>i < slot. f_less (ev100 (keys_of c ! i)) (f_sub ev DuplicateEpsilon)"
      "slot < m_numKeys c \<longrightarrow> \<not> f_less (ev100 (keys_of c ! slot)) (f_sub ev DuplicateEpsilon)
          \<and> \<not> f_le (f_abs (f_sub (ev100 (keys_of c ! slot)) ev)) DuplicateEpsilon"
    | (full) slot where "slot \<le> m_numKeys c" "m_numKeys c = MaxExposureCurveKeys" "AddKey ev st c = (False, c)"
      "\<forall>i < slot. f_less (ev100 (keys_of c ! i)) (f_sub ev DuplicateEpsilon)"
      "slot < m_numKeys c \<longrightarrow> \<not> f_less (ev100 (keys_of c ! slot)) (f_sub ev DuplicateEpsilon)
          \<and> \<not> f_le (f_abs (f_sub (ev100 (keys_of c ! slot)) ev)) DuplicateEpsilon"
proof -
  define slot where "slot = find_slot (m_keys c) (m_numKeys c) (f_sub ev DuplicateEpsilon) 0"
  define replaces where "replaces \<longleftrightarrow> slot < m_numKeys c \<and> f_le (f_abs (f_sub (ev100 (m_keys c ! slot)) ev)) DuplicateEpsilon"
  have result: "AddKey ev st c =
      (if replaces then (True, c\<lparr>m_keys := (m_keys c)[slot := \<lparr> ev100 = ev, stops = st \<rparr>]\<rparr>)
       else if m_numKeys c < MaxExposureCurveKeys
       then (True, c\<lparr>m_keys := (shift_up (m_keys c) (m_numKeys c) slot)[slot := \<lparr> ev100 = ev, stops = st \<rparr>], m_numKeys := m_numKeys c + 1\<rparr>)
       else (False, c))"
    using assms(2,3) by (simp add: AddKey_def slot_def [symmetric] replaces_def [symmetric] Let_def)
  have nth: "keys_of c ! i = m_keys c ! i" if "i < m_numKeys c" for i using that by (simp add: keys_of_def)
  have bound: "slot \<le> m_numKeys c" and before: "\<forall>i < slot. f_less (ev100 (keys_of c ! i)) (f_sub ev DuplicateEpsilon)"
    and here: "slot < m_numKeys c \<longrightarrow> \<not> f_less (ev100 (keys_of c ! slot)) (f_sub ev DuplicateEpsilon)"
    using find_slot_spec [of 0 "m_numKeys c" "m_keys c" "f_sub ev DuplicateEpsilon"] by (auto simp: slot_def [symmetric] nth)
  show thesis
  proof (cases replaces)
    case True
    then have "slot < m_numKeys c" by (simp add: replaces_def)
    with True assms(1) show thesis
      by (intro replaced [of slot]) (simp_all add: result replaces_def nth keys_of_def curve_shape_def take_update_swap)
  next
    case False
    then have apart: "slot < m_numKeys c \<longrightarrow> \<not> f_le (f_abs (f_sub (ev100 (keys_of c ! slot)) ev)) DuplicateEpsilon"
      by (simp add: replaces_def nth)
    show thesis
    proof (cases "m_numKeys c < MaxExposureCurveKeys")
      case True
      show thesis
      proof (rule inserted [OF bound True])
        show "keys_of (snd (AddKey ev st c)) = take slot (keys_of c) @ \<lparr> ev100 = ev, stops = st \<rparr> # drop slot (keys_of c)"
          using keys_insert [OF assms(1) True bound] False True by (simp add: result keys_of_def)
      qed (use False True assms(1) before here apart in \<open>simp_all add: result curve_shape_def\<close>)
    next
      case False
      with assms(1) have "m_numKeys c = MaxExposureCurveKeys" by (simp add: curve_shape_def)
      with False \<open>\<not> replaces\<close> bound before here apart show thesis by (intro full [of slot]) (simp_all add: result)
    qed
  qed
qed

subsection \<open>Values a curve may be given\<close>

definition epsilon :: int where
  "epsilon = 13743895 * 2 ^ 112"

lemma epsilon_bounds: "2 ^ 135 < epsilon" "epsilon < 2 ^ 136" "representable (2 * epsilon)" "representable (- (2 * epsilon))"
proof -
  have "2 * epsilon = 13743895 * 2 ^ 113" by (simp add: epsilon_def)
  then show "representable (2 * epsilon)" unfolding representable_def by (intro exI [of _ "13743895 :: int"] exI [of _ "113 :: nat"]) simp
  then show "representable (- (2 * epsilon))" by (simp only: representable_minus)
qed (simp_all add: epsilon_def)

text \<open>Exposure values below 1024 that are equal or more than twice the epsilon apart.\<close>

definition well_apart :: "int set \<Rightarrow> bool" where
  "well_apart E \<longleftrightarrow>
     (\<forall>m \<in> E. representable m \<and> \<bar>m\<bar> < 2 ^ 159) \<and> (\<forall>m \<in> E. \<forall>n \<in> E. m = n \<or> 2 * epsilon < \<bar>m - n\<bar>)"

lemma representable_power: "representable (2 ^ k)"
  unfolding representable_def by (intro exI [of _ "1 :: int"] exI [of _ k]) simp

lemma rounded_small: "\<bar>p\<bar> \<le> 2 ^ 160 \<Longrightarrow> rounded p 1 = Fin (round_ratio p 1)"
proof -
  assume "\<bar>p\<bar> \<le> 2 ^ 160"
  then have "round_ratio p 1 \<le> 2 ^ 160" "- (2 ^ 160) \<le> round_ratio p 1"
    using representable_power [of 160] by (auto intro!: round_ratio_le round_ratio_ge)
  then show ?thesis by (simp add: rounded_def Overflow_def Let_def)
qed

lemma epsilon_float: "DuplicateEpsilon = Fin epsilon"
  by (simp only: DuplicateEpsilon_def epsilon_def)

lemma limit_fin: "\<bar>n\<bar> < 2 ^ 159 \<Longrightarrow> f_sub (Fin n) DuplicateEpsilon = Fin (round_ratio (n - epsilon) 1)"
proof -
  assume "\<bar>n\<bar> < 2 ^ 159"
  then have "\<bar>n - epsilon\<bar> \<le> 2 ^ 160" using epsilon_bounds(1,2) by simp
  then have "rounded (n - epsilon) 1 = Fin (round_ratio (n - epsilon) 1)" by (rule rounded_small)
  then show ?thesis by (simp add: f_sub_def f_neg_def f_add_def epsilon_float)
qed

lemma difference_fin: "\<bar>m\<bar> < 2 ^ 159 \<Longrightarrow> \<bar>n\<bar> < 2 ^ 159 \<Longrightarrow> f_sub (Fin m) (Fin n) = Fin (round_ratio (m - n) 1)"
  by (simp add: f_sub_def f_neg_def f_add_def rounded_small)

lemma limit_below:
  assumes "representable m" and "m < round_ratio (n - epsilon) 1"
  shows "m < n"
proof (rule ccontr)
  assume "\<not> m < n"
  then have "n - epsilon \<le> m * 1" using epsilon_bounds(1) by simp
  with assms round_ratio_le [of 1 m "n - epsilon"] show False by simp
qed

lemma limit_above:
  assumes "\<bar>n\<bar> < 2 ^ 159" and "m < n" and "2 * epsilon < \<bar>m - n\<bar>"
  shows "m < round_ratio (n - epsilon) 1"
proof -
  have "\<bar>n - epsilon\<bar> < 2 ^ 160" using assms(1) epsilon_bounds(1,2) by simp
  then have "nat \<bar>n - epsilon\<bar> < 2 ^ 160" by (simp only: nat_less_iff abs_ge_zero of_nat_power of_nat_numeral)
  then have "bits (nat \<bar>n - epsilon\<bar>) \<le> 160" by (rule bits_le)
  then have "dropped_bits (n - epsilon) 1 \<le> 136" by (simp only: dropped_bits_def div_by_1)
  then have "(2 :: int) ^ dropped_bits (n - epsilon) 1 \<le> 2 ^ 136" by (rule power_increasing) simp
  with round_near [of 1 "n - epsilon"] have "2 * \<bar>round_ratio (n - epsilon) 1 - (n - epsilon)\<bar> \<le> 2 ^ 136" by simp
  with assms(2,3) epsilon_bounds(1) show ?thesis by simp
qed

lemma same_or_apart:
  assumes "m = n \<or> 2 * epsilon < \<bar>m - n\<bar>"
  shows "\<bar>round_ratio (m - n) 1\<bar> \<le> epsilon \<longleftrightarrow> m = n"
proof (cases "m = n")
  case True
  have "representable 0" unfolding representable_def by (intro exI [of _ "0 :: int"] exI [of _ "0 :: nat"]) simp
  from round_exact [OF this] True epsilon_bounds(1) show ?thesis by simp
next
  case False
  then consider "2 * epsilon * 1 \<le> m - n" | "m - n \<le> - (2 * epsilon) * 1" using assms by linarith
  then have "2 * epsilon \<le> round_ratio (m - n) 1 \<or> round_ratio (m - n) 1 \<le> - (2 * epsilon)"
    using round_ratio_ge [OF _ epsilon_bounds(3)] round_ratio_le [OF _ epsilon_bounds(4)] by cases simp_all
  with False epsilon_bounds(1) show ?thesis by auto
qed

lemma same_key_iff:
  assumes "well_apart E" and "m \<in> E" and "n \<in> E"
  shows "f_le (f_abs (f_sub (Fin m) (Fin n))) DuplicateEpsilon \<longleftrightarrow> m = n"
proof -
  have "\<bar>m\<bar> < 2 ^ 159" "\<bar>n\<bar> < 2 ^ 159" "m = n \<or> 2 * epsilon < \<bar>m - n\<bar>" using assms by (simp_all add: well_apart_def)
  then show ?thesis using same_or_apart by (simp add: difference_fin f_abs_def f_le_def f_less_def epsilon_float flip: order_le_less)
qed

lemma less_limit_iff:
  assumes "well_apart E" and "m \<in> E" and "n \<in> E"
  shows "f_less (Fin m) (f_sub (Fin n) DuplicateEpsilon) \<longleftrightarrow> m < n"
proof -
  have "\<bar>n\<bar> < 2 ^ 159" "representable m" "m = n \<or> 2 * epsilon < \<bar>m - n\<bar>" using assms by (simp_all add: well_apart_def)
  then show ?thesis using limit_below limit_above by (auto simp: limit_fin f_less_def)
qed

subsection \<open>What a curve holds\<close>

text \<open>Its keys in strictly rising order, as numbers with their stops.\<close>

definition points :: "CExposureCurve \<Rightarrow> (int \<times> float32) list" where
  "points c = map (\<lambda>k. (case ev100 k of Fin n \<Rightarrow> n | _ \<Rightarrow> 0, stops k)) (keys_of c)"

definition curve_ok :: "int set \<Rightarrow> CExposureCurve \<Rightarrow> bool" where
  "curve_ok E c \<longleftrightarrow>
     curve_shape c \<and> list_all (\<lambda>k. \<exists>n \<in> E. ev100 k = Fin n) (keys_of c) \<and> sorted_wrt (<) (map fst (points c))"

lemma length_keys [simp]: "curve_shape c \<Longrightarrow> length (keys_of c) = m_numKeys c"
  by (simp add: curve_shape_def keys_of_def)

lemma points_nth:
  assumes "curve_ok E c" and "i < m_numKeys c"
  obtains n where "n \<in> E" "ev100 (keys_of c ! i) = Fin n" "points c ! i = (n, stops (keys_of c ! i))"
proof -
  have l: "i < length (keys_of c)" using assms by (simp add: curve_ok_def)
  then obtain n where "n \<in> E" "ev100 (keys_of c ! i) = Fin n" using assms(1) by (auto simp: curve_ok_def list_all_length)
  with l show thesis by (intro that [of n]) (simp_all add: points_def)
qed

lemma insert_sorted:
  fixes n :: int
  assumes "sorted_wrt (<) xs" and "\<forall>i < s. xs ! i < n" and "s < length xs \<longrightarrow> n < xs ! s" and "s \<le> length xs"
  shows "sorted_wrt (<) (take s xs @ n # drop s xs)"
proof -
  have "sorted_wrt (<) (take s xs)" "sorted_wrt (<) (drop s xs)" and cross: "\<forall>x \<in> set (take s xs). \<forall>y \<in> set (drop s xs). x < y"
    using assms(1) sorted_wrt_append [of "(<)" "take s xs" "drop s xs"] by simp_all
  moreover have low: "\<forall>x \<in> set (take s xs). x < n" using assms(2,4) by (auto simp: in_set_conv_nth)
  moreover have "\<forall>y \<in> set (drop s xs). n < y"
  proof (cases "s < length xs")
    case True
    then obtain ys where "drop s xs = xs ! s # ys" by (metis Cons_nth_drop_Suc)
    with True assms(3) \<open>sorted_wrt (<) (drop s xs)\<close> show ?thesis by auto
  qed simp
  ultimately show ?thesis by (auto simp: sorted_wrt_append)
qed

lemma map_of_insert:
  assumes "n \<notin> fst ` set (take s xs)"
  shows "map_of (take s xs @ (n, v) # ys) = (map_of (take s xs @ ys))(n \<mapsto> v)"
proof -
  have "map_of (take s xs) n = None" using assms by (simp add: map_of_eq_None_iff)
  then show ?thesis by (auto simp: map_add_def fun_eq_iff split: option.split)
qed

lemma map_of_replace:
  assumes "s < length xs" and "fst (xs ! s) = n" and "n \<notin> fst ` set (take s xs)"
  shows "map_of (xs[s := (n, v)]) = (map_of xs)(n \<mapsto> v)"
proof -
  have "xs = take s xs @ (n, snd (xs ! s)) # drop (Suc s) xs" using assms(1,2) id_take_nth_drop [of s xs] by (metis prod.collapse)
  then have "map_of xs = (map_of (take s xs @ drop (Suc s) xs))(n \<mapsto> snd (xs ! s))" using map_of_insert [OF assms(3)] by metis
  moreover have "map_of (xs[s := (n, v)]) = (map_of (take s xs @ drop (Suc s) xs))(n \<mapsto> v)"
    using assms(1) map_of_insert [OF assms(3)] by (simp add: upd_conv_take_nth_drop)
  ultimately show ?thesis by simp
qed

lemma rising_not_before:
  fixes n :: int
  assumes "sorted_wrt (<) (map fst xs)" and "s < length xs" and "fst (xs ! s) = n"
  shows "n \<notin> fst ` set (take s xs)"
proof -
  have "\<forall>i < s. fst (xs ! i) < n" using assms by (auto simp: sorted_wrt_iff_nth_less)
  then show ?thesis by (force simp: in_set_conv_nth)
qed

lemma length_points [simp]: "curve_shape c \<Longrightarrow> length (points c) = m_numKeys c"
  by (simp add: points_def)

lemma AddKey_ok:
  assumes E: "well_apart E" and c: "curve_ok E c" and n: "n \<in> E" and st: "isfinite st"
  shows "if fst (AddKey (Fin n) st c)
         then curve_ok E (snd (AddKey (Fin n) st c)) \<and> map_of (points (snd (AddKey (Fin n) st c))) = (map_of (points c))(n \<mapsto> st)
            \<and> (m_numKeys c < MaxExposureCurveKeys \<or> map_of (points c) n \<noteq> None)
         else snd (AddKey (Fin n) st c) = c \<and> m_numKeys c = MaxExposureCurveKeys \<and> map_of (points c) n = None"
proof -
  have shape: "curve_shape c" and sorted: "sorted_wrt (<) (map fst (points c))" and mem: "list_all (\<lambda>k. \<exists>n \<in> E. ev100 k = Fin n) (keys_of c)"
    using c by (simp_all add: curve_ok_def)
  have at: "fst (points c ! i) \<in> E \<and> ev100 (keys_of c ! i) = Fin (fst (points c ! i))" if "i < m_numKeys c" for i
    using points_nth [OF c that] by fastforce
  have place: "(\<forall>i < slot. fst (points c ! i) < n) \<and> (slot < m_numKeys c \<longrightarrow> n < fst (points c ! slot))"
    if "slot \<le> m_numKeys c" and "\<forall>i < slot. f_less (ev100 (keys_of c ! i)) (f_sub (Fin n) DuplicateEpsilon)"
      and "slot < m_numKeys c \<longrightarrow> \<not> f_less (ev100 (keys_of c ! slot)) (f_sub (Fin n) DuplicateEpsilon)
          \<and> \<not> f_le (f_abs (f_sub (ev100 (keys_of c ! slot)) (Fin n))) DuplicateEpsilon" for slot
    using that at less_limit_iff [OF E _ n] same_key_iff [OF E _ n] by (metis less_le_trans linorder_neqE)
  let ?k = "\<lparr> ev100 = Fin n, stops = st \<rparr>"
  have "isfinite (Fin n)" by (simp add: isfinite_def)
  from shape this st show ?thesis
  proof (cases rule: AddKey_cases)
    case (replaced slot)
    have eq: "fst (points c ! slot) = n" using replaced(1,2) at same_key_iff [OF E _ n] by metis
    have pts: "points (snd (AddKey (Fin n) st c)) = (points c)[slot := (n, st)]"
      unfolding points_def replaced(4) by (simp add: map_update)
    have "map fst ((points c)[slot := (n, st)]) = map fst (points c)"
      using replaced(1) shape eq by (metis fst_conv length_points list_update_id map_update nth_map)
    moreover have "list_all (\<lambda>k. \<exists>n \<in> E. ev100 k = Fin n) ((keys_of c)[slot := ?k])"
      using mem n set_update_subset_insert [of "keys_of c" slot ?k] by (auto simp: list_all_iff)
    ultimately have "curve_ok E (snd (AddKey (Fin n) st c))" using sorted replaced(4,5) by (simp add: curve_ok_def pts)
    moreover have "n \<in> fst ` set (points c)" using eq replaced(1) shape by (metis length_points nth_mem rev_image_eqI)
    then have "map_of (points c) n \<noteq> None" by (simp add: map_of_eq_None_iff)
    ultimately show ?thesis
      using replaced(1,3) shape eq map_of_replace [OF _ eq rising_not_before [OF sorted _ eq]] by (simp add: pts)
  next
    case (inserted slot)
    note order = place [OF inserted(1,6,7)]
    have pts: "points (snd (AddKey (Fin n) st c)) = take slot (points c) @ (n, st) # drop slot (points c)"
      unfolding points_def inserted(4) by (simp add: take_map drop_map)
    have "sorted_wrt (<) (take slot (map fst (points c)) @ n # drop slot (map fst (points c)))"
      by (rule insert_sorted [OF sorted]) (use order inserted(1) shape in auto)
    then have "sorted_wrt (<) (map fst (points (snd (AddKey (Fin n) st c))))" by (simp add: pts take_map drop_map)
    moreover have "list_all (\<lambda>k. \<exists>n \<in> E. ev100 k = Fin n) (keys_of (snd (AddKey (Fin n) st c)))"
      using mem n unfolding inserted(4) by (auto simp: list_all_iff dest: in_set_takeD in_set_dropD)
    ultimately have "curve_ok E (snd (AddKey (Fin n) st c))" using inserted(5) by (simp add: curve_ok_def)
    moreover have "n \<notin> fst ` set (take slot (points c))" using order inserted(1) shape by (force simp: in_set_conv_nth)
    ultimately show ?thesis using inserted(3) map_of_insert [of n slot "points c" st "drop slot (points c)"] by (simp only: pts append_take_drop_id if_True simp_thms not_False_eq_True inserted(2))
  next
    case (full slot)
    note order = place [OF full(1,4,5)]
    have "sorted_wrt (<) (take slot (map fst (points c)) @ n # drop slot (map fst (points c)))"
      by (rule insert_sorted [OF sorted]) (use order full(1) shape in auto)
    then have "n \<notin> set (take slot (map fst (points c))) \<union> set (drop slot (map fst (points c)))" by (auto simp: sorted_wrt_append)
    then have "n \<notin> set (map fst (points c))" by (metis append_take_drop_id set_append)
    then show ?thesis using full by (simp add: map_of_eq_None_iff)
  qed
qed

lemma RemoveKey_ok:
  assumes c: "curve_ok E c"
  shows "if index < m_numKeys c
         then fst (RemoveKey index c) \<and> curve_ok E (snd (RemoveKey index c)) \<and>
              points (snd (RemoveKey index c)) = take index (points c) @ drop (index + 1) (points c)
         else RemoveKey index c = (False, c)"
proof (cases "index < m_numKeys c")
  case True
  have shape: "curve_shape c" and sorted: "sorted_wrt (<) (map fst (points c))" and mem: "list_all (\<lambda>k. \<exists>n \<in> E. ev100 k = Fin n) (keys_of c)"
    using c by (simp_all add: curve_ok_def)
  have ks: "keys_of (snd (RemoveKey index c)) = take index (keys_of c) @ drop (index + 1) (keys_of c)"
    using keys_delete [OF shape True] True by (simp add: RemoveKey_def keys_of_def)
  have pts: "points (snd (RemoveKey index c)) = take index (points c) @ drop (index + 1) (points c)"
    unfolding points_def ks by (simp add: take_map drop_map)
  have "sorted_wrt (<) (take index (map fst (points c)) @ drop (index + 1) (map fst (points c)))"
    using sorted True shape by (auto simp: sorted_wrt_iff_nth_less nth_append)
  moreover have "curve_shape (snd (RemoveKey index c))" using shape True by (auto simp: RemoveKey_def curve_shape_def)
  moreover have "list_all (\<lambda>k. \<exists>n \<in> E. ev100 k = Fin n) (keys_of (snd (RemoveKey index c)))"
    using mem unfolding ks by (auto simp: list_all_iff dest: in_set_takeD in_set_dropD)
  ultimately show ?thesis using True by (simp add: curve_ok_def pts take_map drop_map) (simp add: RemoveKey_def)
qed (simp add: RemoveKey_def)

lemma empty_ok: "curve_ok E empty_curve"
  by (simp add: curve_ok_def curve_shape_def empty_curve_def keys_of_def points_def)

lemma clear_ok: "curve_ok E c \<Longrightarrow> curve_ok E (Curve_Clear c)"
  by (simp add: curve_ok_def curve_shape_def Curve_Clear_def keys_of_def points_def)

lemma not_finite_refused: "\<not> (isfinite ev \<and> isfinite st) \<Longrightarrow> AddKey ev st c = (False, c)"
  by (simp only: AddKey_def if_False)

text \<open>Every history of a curve whose exposure values are taken from a set, and all others are not finite.\<close>

inductive curve_run :: "int set \<Rightarrow> CExposureCurve \<Rightarrow> bool" for E where
  made: "curve_run E empty_curve"
| add: "curve_run E c \<Longrightarrow> (\<exists>n \<in> E. ev = Fin n) \<or> \<not> isfinite ev \<Longrightarrow> curve_run E (snd (AddKey ev st c))"
| remove: "curve_run E c \<Longrightarrow> curve_run E (snd (RemoveKey index c))"
| clear: "curve_run E c \<Longrightarrow> curve_run E (Curve_Clear c)"

lemma run_curve_ok: "well_apart E \<Longrightarrow> curve_run E c \<Longrightarrow> curve_ok E c"
proof (rotate_tac, induction rule: curve_run.induct)
  case (add c ev st)
  show ?case
  proof (cases "isfinite ev \<and> isfinite st")
    case True
    with add(2) obtain n where "n \<in> E" "ev = Fin n" by auto
    with AddKey_ok [OF add(4) add(3) [OF add(4)], of n st] True add show ?thesis by (auto split: if_splits)
  qed (use add in \<open>simp add: not_finite_refused\<close>)
next
  case (remove c index)
  with RemoveKey_ok [of E c index] show ?case by (auto split: if_splits)
qed (simp_all add: empty_ok clear_ok)

text \<open>
  C29. A curve whose keys are added at exposure values below 1024 that are equal or more than twice the epsilon apart is a finite map of at most
  16 points in strictly rising order, through every history of additions, removals and clearings: adding a key sets the stops at its exposure
  value and changes no other point, and is refused only when the curve is full and has no point there; removing takes the point at the
  index out; a number that is not finite changes nothing.
\<close>

theorem curve_is_sorted_map:
  assumes "well_apart E" and "curve_run E c" and "n \<in> E" and "isfinite st"
  shows "sorted_wrt (<) (map fst (points c)) \<and> length (points c) = m_numKeys c \<and> m_numKeys c \<le> MaxExposureCurveKeys
    \<and> (fst (AddKey (Fin n) st c) \<longleftrightarrow> m_numKeys c < MaxExposureCurveKeys \<or> map_of (points c) n \<noteq> None)
    \<and> map_of (points (snd (AddKey (Fin n) st c))) = (if fst (AddKey (Fin n) st c) then (map_of (points c))(n \<mapsto> st) else map_of (points c))
    \<and> points (snd (RemoveKey index c)) = (if index < m_numKeys c then take index (points c) @ drop (index + 1) (points c) else points c)"
proof -
  have c: "curve_ok E c" using assms(1,2) by (rule run_curve_ok)
  then have shape: "curve_shape c" by (simp add: curve_ok_def)
  show ?thesis
    using AddKey_ok [OF assms(1) c assms(3,4)] RemoveKey_ok [OF c, of index] c shape
    by (auto simp: curve_ok_def curve_shape_def split: if_splits)
qed

text \<open>A camera curve of two keys, at 10 and 12.\<close>

lemma well_apart_demo: "well_apart {whole 10, whole 12}"
proof -
  have "representable (whole n)" if "\<bar>n\<bar> \<le> 2 ^ 24" for n
    using that unfolding representable_def whole_def by (intro exI [of _ n] exI [of _ "149 :: nat"]) simp
  from this [of 10] this [of 12] have "representable (whole 10)" "representable (whole 12)" by simp_all
  moreover have "\<bar>whole 10\<bar> < 2 ^ 159" "\<bar>whole 12\<bar> < 2 ^ 159" "2 * epsilon < \<bar>whole 10 - whole 12\<bar>" "2 * epsilon < \<bar>whole 12 - whole 10\<bar>"
    by (simp_all add: whole_def epsilon_def)
  ultimately show ?thesis by (auto simp only: well_apart_def ball_simps simp_thms)
qed

lemma empty_keys: "empty_curve = \<lparr> m_keys = no_key # no_key # replicate 14 no_key, m_numKeys = 0 \<rparr>"
  by (simp add: empty_curve_def MaxExposureCurveKeys_def eval_nat_numeral)

theorem curve_is_sorted_map_witness:
  "map_of (points (snd (AddKey (Fin (whole 10)) (Fin 0) (snd (AddKey (Fin (whole 12)) (Fin 1) empty_curve)))))
     = [whole 12 \<mapsto> Fin 1, whole 10 \<mapsto> Fin 0]"
proof -
  let ?c = "snd (AddKey (Fin (whole 12)) (Fin 1) empty_curve)"
  have run: "curve_run {whole 10, whole 12} ?c" by (intro curve_run.intros) auto
  have "map_of (points ?c) = [whole 12 \<mapsto> Fin 1]"
    by (auto simp: AddKey_def isfinite_def find_slot.simps empty_keys MaxExposureCurveKeys_def points_def keys_of_def shift_up.simps)
  moreover have "m_numKeys ?c = 1" by (auto simp: AddKey_def isfinite_def find_slot.simps empty_keys MaxExposureCurveKeys_def)
  ultimately show ?thesis
    using curve_is_sorted_map [OF well_apart_demo run, of "whole 10" "Fin 0" 0] by (simp add: isfinite_def MaxExposureCurveKeys_def)
qed

subsection \<open>Keys that are too near\<close>

text \<open>\<open>12.0f\<close> and the number 105 units of its last place below it, which is \<open>11.99989986\<close>.\<close>

definition near_twelve :: int where
  "near_twelve = (12 * 2 ^ 20 - 105) * 2 ^ 129"

lemma near_limit: "f_sub (Fin (whole 12)) DuplicateEpsilon = Fin near_twelve"
  by (simp add: f_sub_def f_neg_def f_add_def DuplicateEpsilon_def rounded_def round_ratio_def Overflow_def whole_def near_twelve_def
      half_even_def bits.simps)

lemma near_difference: "f_sub (Fin near_twelve) (Fin (whole 12)) = Fin (- (105 * 2 ^ 129))"
  by (simp add: f_sub_def f_neg_def f_add_def rounded_def round_ratio_def Overflow_def whole_def near_twelve_def
      half_even_def bits.simps)

text \<open>
  Two exposure values a little more than the epsilon apart break the order: after a key just below 12 a key at 12 is put in front of it,
  since 12 less the epsilon is rounded to the first value, which is then neither less than it nor within the epsilon of 12; and above 12
  the curve gives the stops of the lower key.
\<close>

theorem near_keys_break_order:
  "let c = snd (AddKey (Fin (whole 12)) (Fin b) (snd (AddKey (Fin near_twelve) (Fin a) empty_curve)))
   in points c = [(whole 12, Fin b), (near_twelve, Fin a)] \<and> near_twelve < whole 12 \<and> Evaluate (Fin (whole 13)) c = Fin a"
proof -
  let ?low = "\<lparr> ev100 = Fin near_twelve, stops = Fin a \<rparr>" and ?high = "\<lparr> ev100 = Fin (whole 12), stops = Fin b \<rparr>"
  have less: "near_twelve < whole 12" "whole 12 < whole 13" by (simp_all add: near_twelve_def whole_def)
  have first: "snd (AddKey (Fin near_twelve) (Fin a) empty_curve) = \<lparr> m_keys = ?low # no_key # replicate 14 no_key, m_numKeys = 1 \<rparr>"
    by (simp add: AddKey_def isfinite_def find_slot.simps empty_keys MaxExposureCurveKeys_def shift_up.simps)
  have "\<not> f_le (f_abs (f_sub (Fin near_twelve) (Fin (whole 12)))) DuplicateEpsilon"
    by (simp add: near_difference f_abs_def f_le_def f_less_def DuplicateEpsilon_def)
  then have second: "snd (AddKey (Fin (whole 12)) (Fin b) \<lparr> m_keys = ?low # no_key # replicate 14 no_key, m_numKeys = 1 \<rparr>) =
      \<lparr> m_keys = ?high # ?low # replicate 14 no_key, m_numKeys = 2 \<rparr>"
    by (simp add: AddKey_def isfinite_def find_slot.simps near_limit f_less_def MaxExposureCurveKeys_def shift_up.simps)
  have "Evaluate (Fin (whole 13)) \<lparr> m_keys = ?high # ?low # replicate 14 no_key, m_numKeys = 2 \<rparr> = Fin a"
    using less by (simp add: Evaluate_def segments.simps f_le_def f_less_def)
  then show ?thesis unfolding first second Let_def using less by (simp add: points_def keys_of_def)
qed

subsection \<open>The numbers in a curve\<close>

text \<open>Half of the largest finite number.\<close>

definition HalfMax :: int where
  "HalfMax = (2 ^ 24 - 1) * 2 ^ 252"

definition moderate :: "float32 \<Rightarrow> bool" where
  "moderate x \<longleftrightarrow> f_le (f_abs x) (Fin HalfMax)"

definition moderate_key :: "SExposureCurveKey \<Rightarrow> bool" where
  "moderate_key k \<longleftrightarrow> moderate (ev100 k) \<and> moderate (stops k)"

text \<open>Operations whose finite arguments are moderate; infinities and the value that is no number may be given too.\<close>

inductive moderate_run :: "CExposureCurve \<Rightarrow> bool" where
  made: "moderate_run empty_curve"
| add: "moderate_run c \<Longrightarrow> isfinite ev \<longrightarrow> moderate ev \<Longrightarrow> isfinite st \<longrightarrow> moderate st \<Longrightarrow> moderate_run (snd (AddKey ev st c))"
| remove: "moderate_run c \<Longrightarrow> moderate_run (snd (RemoveKey index c))"
| clear: "moderate_run c \<Longrightarrow> moderate_run (Curve_Clear c)"

lemma moderate_Fin: "moderate x \<longleftrightarrow> (\<exists>n. x = Fin n \<and> \<bar>n\<bar> \<le> HalfMax)"
  by (cases x) (auto simp: moderate_def f_abs_def f_le_def f_less_def)

lemma update_keys: "list_all P keys \<Longrightarrow> P k \<Longrightarrow> list_all P (keys[i := k])"
  using set_update_subset_insert [of keys i k] by (auto simp: list_all_iff)

lemma shift_up_keys: "list_all P keys \<Longrightarrow> shift < length keys \<Longrightarrow> list_all P (shift_up keys shift slot)"
proof (induction keys shift slot rule: shift_up.induct)
  case (1 keys shift slot)
  then have "list_all P (keys[shift := keys ! (shift - 1)])" by (intro update_keys) (simp_all add: list_all_length)
  with 1 show ?case by (subst shift_up.simps) simp
qed

lemma shift_down_keys: "list_all P keys \<Longrightarrow> n \<le> length keys \<Longrightarrow> list_all P (shift_down keys n shift)"
proof (induction keys n shift rule: shift_down.induct)
  case (1 keys n shift)
  show ?case
  proof (cases "shift + 1 < n")
    case True
    with 1 have "list_all P (keys[shift := keys ! (shift + 1)])" by (intro update_keys) (simp_all add: list_all_length)
    with 1 True show ?thesis by (subst shift_down.simps) simp
  qed (use 1 in \<open>simp add: shift_down.simps\<close>)
qed

lemma moderate_run_ok: "moderate_run c \<Longrightarrow> curve_shape c \<and> list_all moderate_key (m_keys c)"
proof (induction rule: moderate_run.induct)
  case made
  show ?case
    by (simp add: curve_shape_def empty_curve_def list_all_iff no_key_def moderate_key_def moderate_Fin HalfMax_def)
next
  case (add c ev st)
  show ?case
  proof (cases "isfinite ev \<and> isfinite st")
    case True
    with add have "moderate_key \<lparr> ev100 = ev, stops = st \<rparr>" by (simp add: moderate_key_def)
    with add True show ?thesis
      by (auto simp: AddKey_def curve_shape_def Let_def intro!: update_keys shift_up_keys)
  qed (use add in \<open>simp add: not_finite_refused\<close>)
next
  case (remove c index)
  then show ?case by (auto simp: RemoveKey_def curve_shape_def intro!: shift_down_keys)
qed (auto simp: Curve_Clear_def curve_shape_def)

lemma HalfMax_float: "representable HalfMax" "representable (2 * HalfMax)" "2 * HalfMax < Overflow" "0 < HalfMax"
proof -
  show "representable HalfMax" "representable (2 * HalfMax)"
    unfolding representable_def HalfMax_def
    by (intro exI [of _ "2 ^ 24 - 1 :: int"] exI [of _ "252 :: nat"], simp) (intro exI [of _ "2 ^ 24 - 1 :: int"] exI [of _ "253 :: nat"], simp)
qed (simp_all add: HalfMax_def Overflow_def)

text \<open>Between two keys the fraction is between 0 and 1, and nothing on the way leaves the finite numbers.\<close>

lemma fraction_between:
  assumes "l < m" "m \<le> h" "\<bar>l\<bar> \<le> HalfMax" "\<bar>h\<bar> \<le> HalfMax"
  obtains span t where "f_sub (Fin h) (Fin l) = Fin span" "0 < span" "f_div (f_sub (Fin m) (Fin l)) (Fin span) = Fin t" "0 \<le> t" "t \<le> 2 ^ 149"
proof -
  have one: "representable 1" unfolding representable_def by (intro exI [of _ "1 :: int"] exI [of _ "0 :: nat"]) simp
  obtain span where span: "rounded (h - l) 1 = Fin span" "span = round_ratio (h - l) 1"
    by (rule rounded_within [of 1 "2 * HalfMax" "h - l"]) (use assms HalfMax_float in auto)
  obtain u where u: "rounded (m - l) 1 = Fin u" "u = round_ratio (m - l) 1" "0 \<le> m - l \<Longrightarrow> 0 \<le> u"
    by (rule rounded_within [of 1 "2 * HalfMax" "m - l"]) (use assms HalfMax_float in auto)
  have pos: "0 < span" using round_ratio_ge [of 1 1 "h - l"] one assms(1,2) span(2) by simp
  have "u \<le> span" using round_ratio_mono [of 1 "m - l" "h - l"] assms(2) span(2) u(2) by simp
  have u0: "0 \<le> u" using u(3) assms(1) by simp
  have unit: "representable (2 ^ 149)" using representable_whole [of 1] by (simp add: whole_def)
  obtain t where t: "rounded (u * 2 ^ 149) span = Fin t" "\<bar>t\<bar> \<le> 2 ^ 149" "0 \<le> t"
    by (rule rounded_within [of span "2 ^ 149" "u * 2 ^ 149"]) (use \<open>u \<le> span\<close> u0 pos unit in \<open>auto simp: Overflow_def abs_mult\<close>)
  show thesis
    by (rule that [of span t]) (use span(1) u(1) t pos in \<open>simp_all add: f_sub_def f_neg_def f_add_def f_div_def\<close>)
qed

lemma Lerp_finite:
  assumes "\<bar>a\<bar> \<le> HalfMax" "\<bar>b\<bar> \<le> HalfMax" "0 \<le> t" "t \<le> 2 ^ 149"
  obtains n where "Lerp (Fin a) (Fin b) (Fin t) = Fin n" "\<bar>n\<bar> \<le> 2 * HalfMax"
proof -
  let ?d = "round_ratio (b - a) 1"
  obtain d where d: "rounded (b - a) 1 = Fin d" "d = ?d" "\<bar>d\<bar> \<le> 2 * HalfMax" "0 \<le> b - a \<Longrightarrow> 0 \<le> d" "b - a \<le> 0 \<Longrightarrow> d \<le> 0"
    by (rule rounded_within [of 1 "2 * HalfMax" "b - a"]) (use assms(1,2) HalfMax_float in auto)
  have near: "d \<le> HalfMax" if "0 \<le> a" using round_ratio_le [of 1 HalfMax "b - a"] HalfMax_float(1) that assms(2) d(2) by simp
  have near': "- HalfMax \<le> d" if "a \<le> 0" using round_ratio_ge [of 1 "- HalfMax" "b - a"] HalfMax_float(1) that assms(2) d(2) by simp
  have "representable \<bar>d\<bar>" using round_representable [of 1 "b - a"] d(2) by (cases "0 \<le> d") simp_all
  moreover have "\<bar>d * t\<bar> \<le> \<bar>d\<bar> * 2 ^ 149" using assms(3,4) by (simp add: abs_mult mult_left_mono)
  ultimately have d_ok: "representable \<bar>d\<bar>" "\<bar>d * t\<bar> \<le> \<bar>d\<bar> * 2 ^ 149" "\<bar>d\<bar> < Overflow" using d(3) HalfMax_float(3) by simp_all
  obtain p where p: "rounded (d * t) (2 ^ 149) = Fin p" "\<bar>p\<bar> \<le> \<bar>d\<bar>" "0 \<le> d * t \<Longrightarrow> 0 \<le> p" "d * t \<le> 0 \<Longrightarrow> p \<le> 0"
    by (rule rounded_within [of "2 ^ 149" "\<bar>d\<bar>" "d * t"]) (use d_ok in auto)
  have sign: "0 \<le> d \<Longrightarrow> 0 \<le> p" "d \<le> 0 \<Longrightarrow> p \<le> 0"
    using p(3,4) assms(3) by (simp_all add: mult_nonneg_nonneg mult_nonpos_nonneg)
  have "\<bar>a + p\<bar> \<le> 2 * HalfMax"
    using near near' sign p(2) d(3) assms(1) by (cases "0 \<le> a"; cases "0 \<le> d") auto
  then obtain n where "rounded (a + p) 1 = Fin n" "\<bar>n\<bar> \<le> 2 * HalfMax"
    using HalfMax_float rounded_within [of 1 "2 * HalfMax" "a + p"] by auto
  then show thesis using that [of n] d(1) p(1) by (simp add: Lerp_def f_sub_def f_neg_def f_add_def f_mul_def)
qed

definition bounded_value :: "float32 \<Rightarrow> bool" where
  "bounded_value x \<longleftrightarrow> f_le (f_abs x) (Fin (2 * HalfMax))"

lemma bounded_valueI: "\<bar>n\<bar> \<le> 2 * HalfMax \<Longrightarrow> bounded_value (Fin n)"
  by (simp add: bounded_value_def f_abs_def)

lemma segment_bounded:
  assumes "moderate_key low" "moderate_key high" "f_less (ev100 low) ev" "f_le ev (ev100 high)"
  shows "bounded_value (segment_value low high ev)"
proof -
  obtain l a h b where keys: "ev100 low = Fin l" "stops low = Fin a" "ev100 high = Fin h" "stops high = Fin b"
    "\<bar>l\<bar> \<le> HalfMax" "\<bar>a\<bar> \<le> HalfMax" "\<bar>h\<bar> \<le> HalfMax" "\<bar>b\<bar> \<le> HalfMax"
    using assms(1,2) by (auto simp: moderate_key_def moderate_Fin)
  obtain m where m: "ev = Fin m" "l < m" "m \<le> h"
    using assms(3,4) keys(1,3) by (cases ev) (auto simp: f_le_def f_less_def)
  obtain span t where t: "f_sub (Fin h) (Fin l) = Fin span" "0 < span" "f_div (f_sub (Fin m) (Fin l)) (Fin span) = Fin t" "0 \<le> t" "t \<le> 2 ^ 149"
    using fraction_between [OF m(2,3) keys(5,7)] by blast
  obtain n where "Lerp (Fin a) (Fin b) (Fin t) = Fin n" "\<bar>n\<bar> \<le> 2 * HalfMax" using Lerp_finite [OF keys(6,8) t(4,5)] by blast
  then show ?thesis using t keys m by (simp add: segment_value_def bounded_valueI)
qed

lemma segments_bounded:
  "list_all moderate_key keys \<Longrightarrow> n \<le> length keys \<Longrightarrow> bounded_value result \<Longrightarrow> bounded_value (segments keys n ev segment result)"
proof (induction keys n ev segment result rule: segments.induct)
  case (1 keys n ev segment result)
  let ?low = "keys ! segment" and ?high = "keys ! (segment + 1)"
  show ?case
  proof (cases "segment + 1 < n")
    case True
    then have "moderate_key ?low" "moderate_key ?high" using 1(2,3) by (simp_all add: list_all_length)
    then have "bounded_value (if f_less (ev100 ?low) ev \<and> f_le ev (ev100 ?high) then segment_value ?low ?high ev else result)"
      using segment_bounded 1(4) by simp
    with 1(1,2,3) True show ?thesis by (subst segments.simps) (simp add: Let_def cong: if_cong split del: if_split)
  qed (use 1 in \<open>simp add: segments.simps\<close>)
qed

text \<open>The exposure lies between two neighbours; the last such pair decides.\<close>

definition inside :: "SExposureCurveKey list \<Rightarrow> float32 \<Rightarrow> nat \<Rightarrow> bool" where
  "inside keys ev i \<longleftrightarrow> f_less (ev100 (keys ! i)) ev \<and> f_le ev (ev100 (keys ! (i + 1)))"

lemma segments_step:
  "k + 1 < n \<Longrightarrow> segments keys n ev k result =
     segments keys n ev (k + 1) (if inside keys ev k then segment_value (keys ! k) (keys ! (k + 1)) ev else result)"
  by (subst segments.simps) (simp add: Let_def inside_def cong: if_cong)

lemma segments_none: "(\<And>j. k \<le> j \<Longrightarrow> j + 1 < n \<Longrightarrow> \<not> inside keys ev j) \<Longrightarrow> segments keys n ev k result = result"
proof (induction "n - k" arbitrary: k)
  case (Suc m)
  show ?case
  proof (cases "k + 1 < n")
    case True
    then show ?thesis using Suc(1) [of "k + 1"] Suc(2,3) by (simp add: segments_step)
  qed (simp add: segments.simps)
qed (simp add: segments.simps)

lemma segments_last:
  assumes "i + 1 < n" and "inside keys ev i" and "\<And>j. i < j \<Longrightarrow> j + 1 < n \<Longrightarrow> \<not> inside keys ev j" and "k \<le> i"
  shows "segments keys n ev k result = segment_value (keys ! i) (keys ! (i + 1)) ev"
  using assms(4)
proof (induction "i - k" arbitrary: k result)
  case 0
  then have "k = i" by simp
  then show ?case using assms(1,2) segments_none [of "i + 1" n keys ev] assms(3) by (simp add: segments_step)
next
  case (Suc m)
  then show ?case using Suc(1) [of "k + 1"] assms(1) by (simp add: segments_step)
qed

text \<open>Two finite keys at the ends of the range: their span is infinite, and infinity by infinity is no number.\<close>

lemma far_sum: "f_add (Fin (2 * HalfMax)) (Fin (2 * HalfMax)) = Inf False"
  by (simp add: f_add_def rounded_def round_ratio_def Overflow_def HalfMax_def half_even_def bits.simps)

lemma far_limit: "f_le (Fin HalfMax) (f_sub (Fin (2 * HalfMax)) DuplicateEpsilon)"
proof -
  have "rounded HalfMax 1 = Fin HalfMax" using HalfMax_float round_exact [of HalfMax] by (simp add: rounded_def Let_def)
  moreover have "HalfMax \<le> 2 * HalfMax - 13743895 * 2 ^ 112" by (simp add: HalfMax_def)
  ultimately show ?thesis using rounded_mono [of 1 HalfMax "2 * HalfMax - 13743895 * 2 ^ 112"]
    by (simp add: f_sub_def f_neg_def f_add_def DuplicateEpsilon_def)
qed

lemma far_keys_no_number:
  "Evaluate (Fin (2 * HalfMax)) (snd (AddKey (Fin (2 * HalfMax)) (Fin 0) (snd (AddKey (Fin (- (2 * HalfMax))) (Fin 0) empty_curve)))) = NaN"
proof -
  let ?low = "\<lparr> ev100 = Fin (- (2 * HalfMax)), stops = Fin 0 \<rparr>" and ?high = "\<lparr> ev100 = Fin (2 * HalfMax), stops = Fin 0 \<rparr>"
  have first: "snd (AddKey (Fin (- (2 * HalfMax))) (Fin 0) empty_curve) = \<lparr> m_keys = ?low # no_key # replicate 14 no_key, m_numKeys = 1 \<rparr>"
    by (simp add: AddKey_def isfinite_def find_slot.simps empty_keys MaxExposureCurveKeys_def shift_up.simps)
  have below: "f_less (Fin (- (2 * HalfMax))) (f_sub (Fin (2 * HalfMax)) DuplicateEpsilon)"
    using far_limit HalfMax_float(4) by (cases "f_sub (Fin (2 * HalfMax)) DuplicateEpsilon") (auto simp: f_le_def f_less_def)
  then have second: "snd (AddKey (Fin (2 * HalfMax)) (Fin 0) \<lparr> m_keys = ?low # no_key # replicate 14 no_key, m_numKeys = 1 \<rparr>) =
      \<lparr> m_keys = ?low # ?high # replicate 14 no_key, m_numKeys = 2 \<rparr>"
    by (simp add: AddKey_def isfinite_def find_slot.simps MaxExposureCurveKeys_def shift_up.simps)
  have span: "f_sub (Fin (2 * HalfMax)) (Fin (- (2 * HalfMax))) = Inf False" using far_sum by (simp add: f_sub_def f_neg_def)
  have "segment_value ?low ?high (Fin (2 * HalfMax)) = NaN"
    by (simp add: segment_value_def Let_def span) (simp add: span f_less_def f_div_def Lerp_def f_mul_def, simp add: f_sub_def f_neg_def f_add_def split: float32.split)
  then show ?thesis unfolding first second using HalfMax_float(4) by (simp add: Evaluate_def segments.simps)
qed



end
