(* ===== verification/Intersection.thy ===== *)
theory Intersection
  imports Float32
begin

section \<open>Rays, boxes, spheres and frustums\<close>

text \<open>
  Models \<^verbatim>\<open>private/math/intersection.cpp\<close> and \<^verbatim>\<open>public/tge/math/intersection.hpp\<close> in single precision.  Vectors and matrices come from GLM:
  their components are read here as the sources read them, and the functions of GLM that the sources call, \<open>dot\<close>, \<open>distance\<close> and \<open>clamp\<close>,
  are arguments.  The intersection of a ray with a sphere is in \<open>Transform\<close>.
\<close>

record Vec3 =
  v_x :: float32
  v_y :: float32
  v_z :: float32

definition Vec3_at :: "Vec3 \<Rightarrow> nat \<Rightarrow> float32" where
  "Vec3_at v i = (if i = 0 then v_x v else if i = 1 then v_y v else v_z v)"

record SRay =
  ray_origin :: Vec3
  ray_direction :: Vec3

record CAABB =
  aabb_min :: Vec3
  aabb_max :: Vec3

record SSphere =
  sphere_center :: Vec3
  sphere_radius :: float32

record SPlane =
  plane_normal :: Vec3
  plane_distance :: float32

type_synonym SFrustum = "SPlane list"

text \<open>A matrix is given by its columns: \<open>vp c r\<close> is \<open>vp[c][r]\<close>.\<close>

type_synonym Mat4 = "nat \<Rightarrow> nat \<Rightarrow> float32"

definition Epsilon :: float32 where
  "Epsilon = Fin (2 ^ 126)"

definition Math_Infinity :: float32 where
  "Math_Infinity = Inf False"

definition Math_Min :: "float32 \<Rightarrow> float32 \<Rightarrow> float32" where
  "Math_Min a b = (if f_less b a then b else a)"

definition Math_Max :: "float32 \<Rightarrow> float32 \<Rightarrow> float32" where
  "Math_Max a b = (if f_less a b then b else a)"

subsection \<open>The tests\<close>

text \<open>One axis of the test of a ray and a box: \<open>tMin\<close>, \<open>tMax\<close> and whether there still is a hit.\<close>

definition slab :: "SRay \<Rightarrow> CAABB \<Rightarrow> float32 \<times> float32 \<times> bool \<Rightarrow> nat \<Rightarrow> float32 \<times> float32 \<times> bool" where
  "slab ray aabb s i =
     (case s of (tMin, tMax, hit) \<Rightarrow>
        let o' = Vec3_at (ray_origin ray) i; d = Vec3_at (ray_direction ray) i;
            low = Vec3_at (aabb_min aabb) i; high = Vec3_at (aabb_max aabb) i
        in if f_less Epsilon (f_abs d)
           then let t1 = f_div (f_sub low o') d;
                    t2 = f_div (f_sub high o') d;
                    tMin' = Math_Max tMin (Math_Min t1 t2);
                    tMax' = Math_Min tMax (Math_Max t1 t2)
                in (tMin', tMax', if f_less tMax' tMin' then False else hit)
           else (tMin, tMax, if f_less o' low \<or> f_less high o' then False else hit))"

definition Intersects_ray_box :: "SRay \<Rightarrow> CAABB \<Rightarrow> float32 \<times> float32 \<times> bool" where
  "Intersects_ray_box ray aabb = foldl (slab ray aabb) (Fin 0, Math_Infinity, True) [0, 1, 2]"

text \<open>The distance of a plane is written, hit or not, unless the ray is parallel to it.\<close>

definition Intersects_ray_plane :: "(Vec3 \<Rightarrow> Vec3 \<Rightarrow> float32) \<Rightarrow> SRay \<Rightarrow> SPlane \<Rightarrow> float32 \<Rightarrow> bool \<times> float32" where
  "Intersects_ray_plane dot ray plane t =
     (let denom = dot (ray_direction ray) (plane_normal plane)
      in if f_less Epsilon (f_abs denom)
         then let t' = f_div (f_neg (f_add (dot (ray_origin ray) (plane_normal plane)) (plane_distance plane))) denom
              in (f_le (Fin 0) t', t')
         else (False, t))"

definition Intersects_boxes :: "CAABB \<Rightarrow> CAABB \<Rightarrow> bool" where
  "Intersects_boxes a b \<longleftrightarrow>
     f_le (v_x (aabb_min b)) (v_x (aabb_max a)) \<and> f_le (v_x (aabb_min a)) (v_x (aabb_max b))
     \<and> f_le (v_y (aabb_min b)) (v_y (aabb_max a)) \<and> f_le (v_y (aabb_min a)) (v_y (aabb_max b))
     \<and> f_le (v_z (aabb_min b)) (v_z (aabb_max a)) \<and> f_le (v_z (aabb_min a)) (v_z (aabb_max b))"

definition Intersects_spheres :: "(Vec3 \<Rightarrow> Vec3 \<Rightarrow> float32) \<Rightarrow> SSphere \<Rightarrow> SSphere \<Rightarrow> bool" where
  "Intersects_spheres distance a b =
     (let distanceSquared = distance (sphere_center a) (sphere_center b);
          radiusSum = f_add (sphere_radius a) (sphere_radius b)
      in f_le distanceSquared (f_mul radiusSum radiusSum))"

definition Intersects_box_sphere ::
    "(Vec3 \<Rightarrow> Vec3 \<Rightarrow> float32) \<Rightarrow> (Vec3 \<Rightarrow> Vec3 \<Rightarrow> Vec3 \<Rightarrow> Vec3) \<Rightarrow> CAABB \<Rightarrow> SSphere \<Rightarrow> bool" where
  "Intersects_box_sphere distance clamp aabb sphere =
     (let closestPoint = clamp (sphere_center sphere) (aabb_min aabb) (aabb_max aabb);
          distanceSquared = distance (sphere_center sphere) closestPoint
      in f_le distanceSquared (f_mul (sphere_radius sphere) (sphere_radius sphere)))"

definition Contains_box :: "CAABB \<Rightarrow> Vec3 \<Rightarrow> bool" where
  "Contains_box aabb p \<longleftrightarrow>
     f_le (v_x (aabb_min aabb)) (v_x p) \<and> f_le (v_x p) (v_x (aabb_max aabb))
     \<and> f_le (v_y (aabb_min aabb)) (v_y p) \<and> f_le (v_y p) (v_y (aabb_max aabb))
     \<and> f_le (v_z (aabb_min aabb)) (v_z p) \<and> f_le (v_z p) (v_z (aabb_max aabb))"

definition Contains_sphere :: "(Vec3 \<Rightarrow> Vec3 \<Rightarrow> float32) \<Rightarrow> SSphere \<Rightarrow> Vec3 \<Rightarrow> bool" where
  "Contains_sphere distance sphere p =
     (let distanceSquared = distance (sphere_center sphere) p
      in f_le distanceSquared (f_mul (sphere_radius sphere) (sphere_radius sphere)))"

definition ExtractFrustum :: "Mat4 \<Rightarrow> SFrustum" where
  "ExtractFrustum vp =
     [\<lparr> plane_normal = \<lparr> v_x = f_add (vp 0 3) (vp 0 0), v_y = f_add (vp 1 3) (vp 1 0), v_z = f_add (vp 2 3) (vp 2 0) \<rparr>,
        plane_distance = f_add (vp 3 3) (vp 3 0) \<rparr>,
      \<lparr> plane_normal = \<lparr> v_x = f_sub (vp 0 3) (vp 0 0), v_y = f_sub (vp 1 3) (vp 1 0), v_z = f_sub (vp 2 3) (vp 2 0) \<rparr>,
        plane_distance = f_sub (vp 3 3) (vp 3 0) \<rparr>,
      \<lparr> plane_normal = \<lparr> v_x = f_add (vp 0 3) (vp 0 1), v_y = f_add (vp 1 3) (vp 1 1), v_z = f_add (vp 2 3) (vp 2 1) \<rparr>,
        plane_distance = f_add (vp 3 3) (vp 3 1) \<rparr>,
      \<lparr> plane_normal = \<lparr> v_x = f_sub (vp 0 3) (vp 0 1), v_y = f_sub (vp 1 3) (vp 1 1), v_z = f_sub (vp 2 3) (vp 2 1) \<rparr>,
        plane_distance = f_sub (vp 3 3) (vp 3 1) \<rparr>,
      \<lparr> plane_normal = \<lparr> v_x = vp 0 2, v_y = vp 1 2, v_z = vp 2 2 \<rparr>,
        plane_distance = vp 3 2 \<rparr>,
      \<lparr> plane_normal = \<lparr> v_x = f_sub (vp 0 3) (vp 0 2), v_y = f_sub (vp 1 3) (vp 1 2), v_z = f_sub (vp 2 3) (vp 2 2) \<rparr>,
        plane_distance = f_sub (vp 3 3) (vp 3 2) \<rparr>]"

definition positive_vertex :: "CAABB \<Rightarrow> Vec3 \<Rightarrow> Vec3" where
  "positive_vertex aabb n =
     \<lparr> v_x = (if f_le (Fin 0) (v_x n) then v_x (aabb_max aabb) else v_x (aabb_min aabb)),
       v_y = (if f_le (Fin 0) (v_y n) then v_y (aabb_max aabb) else v_y (aabb_min aabb)),
       v_z = (if f_le (Fin 0) (v_z n) then v_z (aabb_max aabb) else v_z (aabb_min aabb)) \<rparr>"

definition plane_side :: "(Vec3 \<Rightarrow> Vec3 \<Rightarrow> float32) \<Rightarrow> SPlane \<Rightarrow> Vec3 \<Rightarrow> float32" where
  "plane_side dot plane p = f_add (dot (plane_normal plane) p) (plane_distance plane)"

fun Intersects_frustum :: "(Vec3 \<Rightarrow> Vec3 \<Rightarrow> float32) \<Rightarrow> CAABB \<Rightarrow> SFrustum \<Rightarrow> bool" where
  "Intersects_frustum dot aabb [] = True"
| "Intersects_frustum dot aabb (plane # planes) =
     (if f_le (Fin 0) (plane_side dot plane (positive_vertex aabb (plane_normal plane)))
      then Intersects_frustum dot aabb planes else False)"

subsection \<open>Order and signs of single precision\<close>

lemma f_le_refl [simp]: "f_le x x \<longleftrightarrow> x \<noteq> NaN"
  by (cases x) (auto simp: f_le_def f_less_def)

lemma f_le_number: "f_le x y \<Longrightarrow> x \<noteq> NaN \<and> y \<noteq> NaN"
  by (cases x; cases y) (auto simp: f_le_def f_less_def)

lemma f_le_total: "x \<noteq> NaN \<Longrightarrow> y \<noteq> NaN \<Longrightarrow> f_le x y \<or> f_less y x"
  by (cases x; cases y) (auto simp: f_le_def f_less_def)

lemma f_less_not_le: "f_less x y \<Longrightarrow> \<not> f_le y x"
  by (cases x; cases y) (auto simp: f_le_def f_less_def)

lemma f_less_le: "f_less x y \<Longrightarrow> f_le x y"
  by (simp add: f_le_def)

lemma f_less_le_trans: "f_less x y \<Longrightarrow> f_le y z \<Longrightarrow> f_less x z"
  by (cases x; cases y; cases z) (auto simp: f_le_def f_less_def)

lemma f_le_less_trans: "f_le x y \<Longrightarrow> f_less y z \<Longrightarrow> f_less x z"
  by (cases x; cases y; cases z) (auto simp: f_le_def f_less_def)

lemma rounded_number [simp]: "rounded p q \<noteq> NaN"
  by (simp add: rounded_def Let_def)

lemma rounded_nonpos: "0 < q \<Longrightarrow> p \<le> 0 \<Longrightarrow> f_le (rounded p q) (Fin 0)"
  using round_ratio_le [of q 0 p] by (auto simp: rounded_def Let_def f_le_def f_less_def Overflow_def)

lemma rounded_nonneg: "0 < q \<Longrightarrow> 0 \<le> p \<Longrightarrow> f_le (Fin 0) (rounded p q)"
  using round_ratio_ge [of q 0 p] by (auto simp: rounded_def Let_def f_le_def f_less_def Overflow_def)

lemma representable_1: "representable 1"
  unfolding representable_def by (intro exI [of _ "1 :: int"] exI [of _ "0 :: nat"]) simp

text \<open>What is at least one unit away from zero keeps its sign.\<close>

lemma rounded_neg: "0 < q \<Longrightarrow> p \<le> - q \<Longrightarrow> f_less (rounded p q) (Fin 0)"
  using round_ratio_le [of q "- 1" p] representable_1 by (auto simp: rounded_def Let_def f_less_def Overflow_def)

lemma rounded_pos: "0 < q \<Longrightarrow> q \<le> p \<Longrightarrow> f_less (Fin 0) (rounded p q)"
  using round_ratio_ge [of q 1 p] representable_1 by (auto simp: rounded_def Let_def f_less_def Overflow_def)

lemma f_sub_Fin: "f_sub (Fin a) (Fin b) = rounded (a - b) 1"
  by (simp add: f_sub_def f_neg_def f_add_def)

lemma f_div_number: "d \<noteq> 0 \<Longrightarrow> x \<noteq> NaN \<Longrightarrow> f_div x (Fin d) \<noteq> NaN"
  by (cases x) (auto simp: f_div_def)

lemma f_div_nonpos: "(0 < d \<and> f_le x (Fin 0)) \<or> (d < 0 \<and> f_le (Fin 0) x) \<Longrightarrow> f_le (f_div x (Fin d)) (Fin 0)"
  by (cases x) (auto simp: f_div_def f_le_def [of "Inf _"] f_le_def [of _ "Inf _"] f_less_def intro!: rounded_nonpos dest: f_le_number)

lemma f_div_nonneg: "(0 < d \<and> f_le (Fin 0) x) \<or> (d < 0 \<and> f_le x (Fin 0)) \<Longrightarrow> f_le (Fin 0) (f_div x (Fin d))"
  by (cases x) (auto simp: f_div_def f_le_def [of "Inf _"] f_le_def [of _ "Inf _"] f_less_def intro!: rounded_nonneg dest: f_le_number)

text \<open>A quotient by a number of at most one keeps the sign, so that it does not vanish.\<close>

lemma f_div_neg:
  assumes "(0 < d \<and> f_less x (Fin 0)) \<or> (d < 0 \<and> f_less (Fin 0) x)" and "\<bar>d\<bar> \<le> 2 ^ 149"
  shows "f_less (f_div x (Fin d)) (Fin 0)"
proof (cases x)
  case (Fin m)
  have "m * 2 ^ 149 \<le> - d" if "0 < d" "m < 0"
    using mult_right_mono [of m "- 1" "2 ^ 149 :: int"] that assms(2) by linarith
  moreover have "- m * 2 ^ 149 \<le> d" if "d < 0" "0 < m"
    using mult_right_mono [of "- m" "- 1" "2 ^ 149 :: int"] that assms(2) by linarith
  ultimately show ?thesis using Fin assms(1) by (auto simp: f_div_def intro!: rounded_neg)
qed (use assms in \<open>auto simp: f_div_def f_less_def\<close>)

lemma Math_Max_number: "a \<noteq> NaN \<Longrightarrow> b \<noteq> NaN \<Longrightarrow> Math_Max a b \<noteq> NaN \<and> f_le a (Math_Max a b) \<and> f_le b (Math_Max a b)"
  using f_le_total [of b a] by (auto simp: Math_Max_def f_less_le)

lemma Math_Min_number: "a \<noteq> NaN \<Longrightarrow> b \<noteq> NaN \<Longrightarrow> Math_Min a b \<noteq> NaN \<and> f_le (Math_Min a b) a \<and> f_le (Math_Min a b) b"
  using f_le_total [of a b] by (auto simp: Math_Min_def f_less_le)

subsection \<open>Boxes\<close>

definition proper_box :: "CAABB \<Rightarrow> bool" where
  "proper_box b \<longleftrightarrow> f_le (v_x (aabb_min b)) (v_x (aabb_max b)) \<and> f_le (v_y (aabb_min b)) (v_y (aabb_max b)) \<and> f_le (v_z (aabb_min b)) (v_z (aabb_max b))"

definition finite_vec :: "Vec3 \<Rightarrow> bool" where
  "finite_vec v \<longleftrightarrow> isfinite (v_x v) \<and> isfinite (v_y v) \<and> isfinite (v_z v)"

lemma intervals_meet:
  assumes "f_le a b" "f_le c d"
  shows "f_le c b \<and> f_le a d \<longleftrightarrow> (\<exists>p. f_le a p \<and> f_le p b \<and> f_le c p \<and> f_le p d)"
proof
  assume "f_le c b \<and> f_le a d"
  moreover have "f_le a (Math_Max a c)" "f_le c (Math_Max a c)" using Math_Max_number [of a c] f_le_number assms by blast+
  moreover have "Math_Max a c = a \<or> Math_Max a c = c" by (simp add: Math_Max_def)
  ultimately show "\<exists>p. f_le a p \<and> f_le p b \<and> f_le c p \<and> f_le p d" using assms by (metis)
qed (blast intro: f_le_trans)

text \<open>
  Two boxes intersect exactly when a point lies in both.
\<close>

theorem boxes_meet:
  assumes "proper_box a" and "proper_box b"
  shows "Intersects_boxes a b \<longleftrightarrow> (\<exists>p. Contains_box a p \<and> Contains_box b p)"
proof -
  have vec: "(\<exists>p :: Vec3. P (v_x p) \<and> Q (v_y p) \<and> R (v_z p)) \<longleftrightarrow> (\<exists>x. P x) \<and> (\<exists>y. Q y) \<and> (\<exists>z. R z)" for P Q R :: "float32 \<Rightarrow> bool"
    by (metis Vec3.select_convs(1,2,3))
  let ?between = "\<lambda>v p. f_le (v (aabb_min a)) p \<and> f_le p (v (aabb_max a)) \<and> f_le (v (aabb_min b)) p \<and> f_le p (v (aabb_max b))"
  have "(\<exists>p. Contains_box a p \<and> Contains_box b p) \<longleftrightarrow> (\<exists>p :: Vec3. ?between v_x (v_x p) \<and> ?between v_y (v_y p) \<and> ?between v_z (v_z p))"
    unfolding Contains_box_def by (rule arg_cong [where f = Ex], rule ext) blast
  also have "\<dots> \<longleftrightarrow> (\<exists>x. ?between v_x x) \<and> (\<exists>y. ?between v_y y) \<and> (\<exists>z. ?between v_z z)" by (rule vec)
  also have "\<dots> \<longleftrightarrow> Intersects_boxes a b"
    using assms unfolding proper_box_def by (simp add: intervals_meet [symmetric] Intersects_boxes_def conj_assoc)
  finally show ?thesis by simp
qed

subsection \<open>Rays and boxes\<close>

definition finite_box :: "CAABB \<Rightarrow> bool" where
  "finite_box b \<longleftrightarrow> finite_vec (aabb_min b) \<and> finite_vec (aabb_max b)"

definition finite_ray :: "SRay \<Rightarrow> bool" where
  "finite_ray r \<longleftrightarrow> finite_vec (ray_origin r) \<and> finite_vec (ray_direction r)"

lemma finite_component: "finite_vec v \<Longrightarrow> \<exists>n. Vec3_at v i = Fin n"
  by (auto simp: finite_vec_def Vec3_at_def isfinite_def split: float32.splits)

text \<open>The numbers of one axis, for the proofs: origin, direction and the two ends of the box.\<close>

definition axis :: "SRay \<Rightarrow> CAABB \<Rightarrow> nat \<Rightarrow> int \<Rightarrow> int \<Rightarrow> int \<Rightarrow> int \<Rightarrow> bool" where
  "axis r b i o' d low high \<longleftrightarrow> Vec3_at (ray_origin r) i = Fin o' \<and> Vec3_at (ray_direction r) i = Fin d
     \<and> Vec3_at (aabb_min b) i = Fin low \<and> Vec3_at (aabb_max b) i = Fin high"

lemma axis_exists: "finite_ray r \<Longrightarrow> finite_box b \<Longrightarrow> \<exists>o' d low high. axis r b i o' d low high"
  using finite_component unfolding finite_ray_def finite_box_def axis_def by meson

lemma slab_axis:
  "axis r b i o' d low high \<Longrightarrow>
   slab r b (tMin, tMax, hit) i =
     (if 2 ^ 126 < \<bar>d\<bar>
      then let t1 = f_div (rounded (low - o') 1) (Fin d); t2 = f_div (rounded (high - o') 1) (Fin d);
               tMin' = Math_Max tMin (Math_Min t1 t2); tMax' = Math_Min tMax (Math_Max t1 t2)
           in (tMin', tMax', \<not> f_less tMax' tMin' \<and> hit)
      else (tMin, tMax, \<not> (o' < low \<or> high < o') \<and> hit))"
  by (simp add: slab_def axis_def Epsilon_def f_abs_def f_sub_Fin Let_def)

definition slab_ordered :: "float32 \<times> float32 \<times> bool \<Rightarrow> bool" where
  "slab_ordered s = (case s of (tMin, tMax, hit) \<Rightarrow> f_le (Fin 0) tMin \<and> tMax \<noteq> NaN \<and> (hit \<longrightarrow> f_le tMin tMax))"

lemma slab_keeps_order:
  assumes "axis r b i o' d low high" and "slab_ordered (tMin, tMax, hit)"
  shows "slab_ordered (slab r b (tMin, tMax, hit) i)"
proof (cases "2 ^ 126 < \<bar>d\<bar>")
  case True
  let ?t1 = "f_div (rounded (low - o') 1) (Fin d)" and ?t2 = "f_div (rounded (high - o') 1) (Fin d)"
  have d: "d \<noteq> 0" using True by auto
  then have t: "?t1 \<noteq> NaN" "?t2 \<noteq> NaN" by (simp_all add: f_div_number)
  have s: "f_le (Fin 0) tMin" "tMin \<noteq> NaN" "tMax \<noteq> NaN" using assms(2) f_le_number by (auto simp: slab_ordered_def)
  let ?m = "Math_Max tMin (Math_Min ?t1 ?t2)" and ?M = "Math_Min tMax (Math_Max ?t1 ?t2)"
  have m: "?m \<noteq> NaN" "f_le tMin ?m" using Math_Max_number [of tMin "Math_Min ?t1 ?t2"] Math_Min_number [of ?t1 ?t2] t s by auto
  have M: "?M \<noteq> NaN" using Math_Min_number [of tMax "Math_Max ?t1 ?t2"] Math_Max_number [of ?t1 ?t2] t s by auto
  have "f_le (Fin 0) ?m" using s(1) m(2) by (rule f_le_trans)
  then show ?thesis using True M f_le_total [OF m(1) M] by (auto simp: slab_axis [OF assms(1)] slab_ordered_def Let_def)
qed (use assms in \<open>auto simp: slab_axis [OF assms(1)] slab_ordered_def\<close>)

lemma slab_from_inside:
  assumes "axis r b i o' d low high" and "low \<le> o'" "o' \<le> high" and "f_le (Fin 0) tMax"
  shows "\<exists>tMax'. slab r b (Fin 0, tMax, True) i = (Fin 0, tMax', True) \<and> f_le (Fin 0) tMax'"
proof (cases "2 ^ 126 < \<bar>d\<bar>")
  case True
  let ?t1 = "f_div (rounded (low - o') 1) (Fin d)" and ?t2 = "f_div (rounded (high - o') 1) (Fin d)"
  have d: "d \<noteq> 0" using True by auto
  have signs: "f_le (rounded (low - o') 1) (Fin 0)" "f_le (Fin 0) (rounded (high - o') 1)"
    using assms(2,3) by (simp_all add: rounded_nonpos rounded_nonneg)
  have around: "(f_le ?t1 (Fin 0) \<and> f_le (Fin 0) ?t2) \<or> (f_le ?t2 (Fin 0) \<and> f_le (Fin 0) ?t1)"
    using d signs f_div_nonpos f_div_nonneg by (cases "0 < d") (auto simp: not_less)
  have t: "?t1 \<noteq> NaN" "?t2 \<noteq> NaN" using d by (simp_all add: f_div_number)
  have "f_le (Math_Min ?t1 ?t2) (Fin 0)" "f_le (Fin 0) (Math_Max ?t1 ?t2)"
    using around Math_Min_number [OF t] Math_Max_number [OF t] f_le_trans by blast+
  moreover from this(1) have "\<not> f_less (Fin 0) (Math_Min ?t1 ?t2)" using f_less_not_le by blast
  moreover have "f_le (Fin 0) (Math_Min tMax (Math_Max ?t1 ?t2))" using assms(4) calculation(2) by (simp add: Math_Min_def)
  moreover from this have "\<not> f_less (Math_Min tMax (Math_Max ?t1 ?t2)) (Fin 0)" using f_less_not_le by blast
  ultimately show ?thesis using True by (simp add: slab_axis [OF assms(1)] Let_def Math_Max_def)
qed (use assms in \<open>simp add: slab_axis [OF assms(1)]\<close>)

lemma slab_stays_missed: "\<not> snd (snd s) \<Longrightarrow> \<not> snd (snd (slab r b s i))"
  by (cases s) (simp add: slab_def Let_def)

lemma slab_behind:
  assumes "axis r b i o' d low high" and "low \<le> high" and "\<bar>d\<bar> \<le> 2 ^ 149" and "slab_ordered s"
    and "(0 \<le> d \<and> high < o') \<or> (d \<le> 0 \<and> o' < low)"
  shows "\<not> snd (snd (slab r b s i))"
proof (cases "2 ^ 126 < \<bar>d\<bar>")
  case True
  obtain tMin tMax hit where s: "s = (tMin, tMax, hit)" by (cases s)
  let ?t1 = "f_div (rounded (low - o') 1) (Fin d)" and ?t2 = "f_div (rounded (high - o') 1) (Fin d)"
  have d: "d \<noteq> 0" using True by auto
  consider "0 < d" "high < o'" | "d < 0" "o' < low" using assms(5) d by linarith
  then have neg: "f_less ?t1 (Fin 0)" "f_less ?t2 (Fin 0)"
    using assms(2,3) by (cases; simp add: f_div_neg rounded_neg rounded_pos)+
  have t: "?t1 \<noteq> NaN" "?t2 \<noteq> NaN" using d by (simp_all add: f_div_number)
  have numbers: "f_le (Fin 0) tMin" "tMin \<noteq> NaN" "tMax \<noteq> NaN" using assms(4) f_le_number s by (auto simp: slab_ordered_def)
  have "f_less (Math_Max ?t1 ?t2) (Fin 0)" using neg by (simp add: Math_Max_def)
  then have "f_less (Math_Min tMax (Math_Max ?t1 ?t2)) (Fin 0)"
    using Math_Min_number [of tMax "Math_Max ?t1 ?t2"] Math_Max_number [OF t] numbers f_le_less_trans by blast
  moreover have "f_le (Fin 0) (Math_Max tMin (Math_Min ?t1 ?t2))"
    using Math_Max_number [of tMin "Math_Min ?t1 ?t2"] Math_Min_number [OF t] numbers f_le_trans by blast
  ultimately have "f_less (Math_Min tMax (Math_Max ?t1 ?t2)) (Math_Max tMin (Math_Min ?t1 ?t2))" by (rule f_less_le_trans)
  then show ?thesis using True by (simp add: s slab_axis [OF assms(1)] Let_def)
qed (use assms in \<open>cases s; auto simp: slab_axis [OF assms(1)]\<close>)

definition one :: float32 where
  "one = Fin (2 ^ 149)"

text \<open>The whole box lies behind the origin on an axis along which the ray does not go back.\<close>

definition behind :: "SRay \<Rightarrow> CAABB \<Rightarrow> nat \<Rightarrow> bool" where
  "behind r b i \<longleftrightarrow>
     (f_le (Fin 0) (Vec3_at (ray_direction r) i) \<and> f_less (Vec3_at (aabb_max b) i) (Vec3_at (ray_origin r) i))
     \<or> (f_le (Vec3_at (ray_direction r) i) (Fin 0) \<and> f_less (Vec3_at (ray_origin r) i) (Vec3_at (aabb_min b) i))"

lemma slab_ordered_start: "slab_ordered (Fin 0, Math_Infinity, True)"
  by (simp add: slab_ordered_def Math_Infinity_def f_le_def f_less_def)

lemma slab_ordered_fold:
  assumes "finite_ray r" "finite_box b" "slab_ordered s"
  shows "slab_ordered (foldl (slab r b) s is)"
  using assms(3)
proof (induction "is" arbitrary: s)
  case (Cons i "is")
  obtain tMin tMax hit where s: "s = (tMin, tMax, hit)" by (cases s)
  from axis_exists [OF assms(1,2)] Cons.prems have "slab_ordered (slab r b s i)" unfolding s using slab_keeps_order by blast
  then show ?case by (simp add: Cons.IH)
qed simp

lemma slab_missed_fold: "\<not> snd (snd s) \<Longrightarrow> \<not> snd (snd (foldl (slab r b) s is))"
  by (induction "is" arbitrary: s) (simp_all add: slab_stays_missed)

lemma slab_inside_fold:
  assumes "finite_ray r" "finite_box b" "f_le (Fin 0) tMax"
    and "\<forall>i \<in> set is. f_le (Vec3_at (aabb_min b) i) (Vec3_at (ray_origin r) i) \<and> f_le (Vec3_at (ray_origin r) i) (Vec3_at (aabb_max b) i)"
  shows "\<exists>tMax'. foldl (slab r b) (Fin 0, tMax, True) is = (Fin 0, tMax', True)"
  using assms(3,4)
proof (induction "is" arbitrary: tMax)
  case (Cons i "is")
  obtain o' d low high where ax: "axis r b i o' d low high" using axis_exists [OF assms(1,2)] by blast
  with Cons.prems have "low \<le> o'" "o' \<le> high" by (simp_all add: axis_def)
  from slab_from_inside [OF ax this Cons.prems(1)] Cons show ?case by auto
qed simp

text \<open>C32.
  
  The test of a ray and a box, with all its roundings, for finite numbers: a ray that starts in the box hits it at zero; what is reported of a hit
  is an interval that begins at or after the origin; and a box that lies wholly behind the origin on some axis, along which the ray does not go back and
  its direction is at most one, is never hit.
\<close>

theorem ray_box:
  assumes "finite_ray r" and "finite_box b" and "proper_box b"
  shows "case Intersects_ray_box r b of (tMin, tMax, hit) \<Rightarrow>
           (Contains_box b (ray_origin r) \<longrightarrow> hit \<and> tMin = Fin 0)
         \<and> (hit \<longrightarrow> f_le (Fin 0) tMin \<and> f_le tMin tMax)
         \<and> (\<forall>i < 3. f_le (f_abs (Vec3_at (ray_direction r) i)) one \<and> behind r b i \<longrightarrow> \<not> hit)"
proof -
  obtain tMin tMax hit where result: "Intersects_ray_box r b = (tMin, tMax, hit)" by (cases "Intersects_ray_box r b")
  have "hit \<and> tMin = Fin 0" if inside: "Contains_box b (ray_origin r)"
  proof -
    have "f_le (Fin 0) Math_Infinity" by (simp add: Math_Infinity_def f_le_def f_less_def)
    moreover have "\<forall>i \<in> set [0, 1, 2]. f_le (Vec3_at (aabb_min b) i) (Vec3_at (ray_origin r) i) \<and> f_le (Vec3_at (ray_origin r) i) (Vec3_at (aabb_max b) i)"
      using inside by (simp add: Contains_box_def Vec3_at_def)
    ultimately show ?thesis using slab_inside_fold [OF assms(1,2), of Math_Infinity "[0, 1, 2]"] result by (auto simp: Intersects_ray_box_def)
  qed
  moreover have "f_le (Fin 0) tMin \<and> f_le tMin tMax" if "hit"
    using slab_ordered_fold [OF assms(1,2) slab_ordered_start, of "[0, 1, 2]"] result that by (simp add: Intersects_ray_box_def slab_ordered_def)
  moreover have "\<not> hit" if i: "i < 3" "f_le (f_abs (Vec3_at (ray_direction r) i)) one" "behind r b i" for i
  proof -
    obtain o' d low high where ax: "axis r b i o' d low high" using axis_exists [OF assms(1,2)] by blast
    have "f_le (Vec3_at (aabb_min b) i) (Vec3_at (aabb_max b) i)" using assms(3) by (simp add: proper_box_def Vec3_at_def)
    with i ax have facts: "low \<le> high" "\<bar>d\<bar> \<le> 2 ^ 149" "(0 \<le> d \<and> high < o') \<or> (d \<le> 0 \<and> o' < low)"
      by (simp_all add: axis_def behind_def one_def f_abs_def)
    let ?s = "foldl (slab r b) (Fin 0, Math_Infinity, True)"
    have missed: "\<not> snd (snd (slab r b (?s is) i))" for "is"
      using slab_behind [OF ax facts(1,2) slab_ordered_fold [OF assms(1,2) slab_ordered_start] facts(3)] .
    have "\<exists>is js. [0, 1, 2] = is @ i # js"
      using i(1) by (intro split_list) auto
    then obtain "is" js where "[0, 1, 2] = is @ i # js" by blast
    then have "Intersects_ray_box r b = foldl (slab r b) (slab r b (?s is) i) js" by (simp add: Intersects_ray_box_def del: foldl_Cons) (simp only: foldl_append foldl_Cons)
    then show ?thesis using slab_missed_fold [OF missed] result by (metis snd_conv)
  qed
  ultimately show ?thesis by (auto simp: result)
qed

definition demo_ray :: SRay where
  "demo_ray = \<lparr> ray_origin = \<lparr> v_x = Fin 0, v_y = Fin 0, v_z = Fin 0 \<rparr>, ray_direction = \<lparr> v_x = Fin 0, v_y = Fin 0, v_z = one \<rparr> \<rparr>"

definition demo_box :: "int \<Rightarrow> int \<Rightarrow> CAABB" where
  "demo_box near far = \<lparr> aabb_min = \<lparr> v_x = Fin (- 5), v_y = Fin (- 5), v_z = Fin near \<rparr>, aabb_max = \<lparr> v_x = Fin 5, v_y = Fin 5, v_z = Fin far \<rparr> \<rparr>"

lemma ray_box_witness:
  "\<not> snd (snd (Intersects_ray_box demo_ray (demo_box (- 9) (- 3)))) \<and> snd (snd (Intersects_ray_box demo_ray (demo_box (- 9) 7)))"
proof -
  have "finite_ray demo_ray" "finite_box (demo_box (- 9) n)" for n
    by (simp_all add: finite_ray_def finite_box_def finite_vec_def isfinite_def demo_ray_def demo_box_def one_def)
  moreover have "proper_box (demo_box (- 9) (- 3))" "proper_box (demo_box (- 9) 7)" by (simp_all add: proper_box_def demo_box_def)
  moreover have "behind demo_ray (demo_box (- 9) (- 3)) 2" "f_le (f_abs (Vec3_at (ray_direction demo_ray) 2)) one"
    by (simp_all add: behind_def demo_ray_def demo_box_def Vec3_at_def one_def f_abs_def)
  moreover have "Contains_box (demo_box (- 9) 7) (ray_origin demo_ray)" by (simp add: Contains_box_def demo_ray_def demo_box_def)
  ultimately show ?thesis
    using ray_box [of demo_ray "demo_box (- 9) (- 3)"] ray_box [of demo_ray "demo_box (- 9) 7"] by (auto split: prod.splits)
qed

subsection \<open>The scalar product\<close>

definition whole_vec :: "int \<Rightarrow> int \<Rightarrow> int \<Rightarrow> Vec3" where
  "whole_vec x y z = \<lparr> v_x = Fin (whole x), v_y = Fin (whole y), v_z = Fin (whole z) \<rparr>"

text \<open>\<open>q\<close> is on every axis at least as far along \<open>n\<close> as \<open>p\<close>.\<close>

definition ahead :: "float32 \<Rightarrow> float32 \<Rightarrow> float32 \<Rightarrow> bool" where
  "ahead n p q \<longleftrightarrow> (if f_le (Fin 0) n then f_le p q else f_le q p)"

definition vec_ahead :: "Vec3 \<Rightarrow> Vec3 \<Rightarrow> Vec3 \<Rightarrow> bool" where
  "vec_ahead n p q \<longleftrightarrow> ahead (v_x n) (v_x p) (v_x q) \<and> ahead (v_y n) (v_y p) (v_y q) \<and> ahead (v_z n) (v_z p) (v_z q)"

text \<open>
  What the sources rely on of \<open>glm::dot\<close>, the sum of the three products: rounded as it may be, it does not fall from a point to one ahead of it,
  and it is exact where all intermediate results are.
\<close>

locale glm_dot =
  fixes dot :: "Vec3 \<Rightarrow> Vec3 \<Rightarrow> float32"
  assumes dot_mono: "finite_vec n \<Longrightarrow> finite_vec p \<Longrightarrow> finite_vec q \<Longrightarrow> vec_ahead n p q \<Longrightarrow> dot n p \<noteq> NaN \<Longrightarrow> dot n q \<noteq> NaN \<Longrightarrow> f_le (dot n p) (dot n q)"
    and dot_whole: "\<bar>a * x\<bar> + \<bar>b * y\<bar> + \<bar>c * z\<bar> \<le> 2 ^ 24 \<Longrightarrow> dot (whole_vec a b c) (whole_vec x y z) = Fin (whole (a * x + b * y + c * z))"
begin

lemma plane_side_mono:
  assumes "finite_vec (plane_normal plane)" "finite_vec p" "finite_vec q" "vec_ahead (plane_normal plane) p q"
    and "plane_side dot plane p \<noteq> NaN" "plane_side dot plane q \<noteq> NaN"
  shows "f_le (plane_side dot plane p) (plane_side dot plane q)"
proof -
  have numbers: "dot (plane_normal plane) p \<noteq> NaN" "dot (plane_normal plane) q \<noteq> NaN" "plane_distance plane \<noteq> NaN"
    using assms(5,6) by (auto simp: plane_side_def f_add_def split: float32.splits)
  show ?thesis unfolding plane_side_def
    using dot_mono [OF assms(1-4)] numbers assms(5,6) by (intro f_add_mono) (simp_all add: plane_side_def)
qed

lemma in_box_ahead: "Contains_box b p \<Longrightarrow> vec_ahead n p (positive_vertex b n)"
  by (simp add: Contains_box_def vec_ahead_def ahead_def positive_vertex_def)

lemma finite_between: "f_le (Fin a) x \<Longrightarrow> f_le x (Fin b) \<Longrightarrow> isfinite x"
  by (cases x) (auto simp: f_le_def f_less_def isfinite_def)

lemma isfinite_Fin: "isfinite x \<Longrightarrow> \<exists>n. x = Fin n"
  by (cases x) (simp_all add: isfinite_def)

lemma finite_in_box: "finite_box b \<Longrightarrow> Contains_box b p \<Longrightarrow> finite_vec p"
  unfolding finite_box_def finite_vec_def Contains_box_def by (metis finite_between isfinite_Fin)

lemma finite_vertex: "finite_box b \<Longrightarrow> finite_vec (positive_vertex b n)"
  by (simp add: finite_box_def finite_vec_def positive_vertex_def)

lemma point_keeps_box:
  assumes "finite_box b" "Contains_box b p"
    and "\<And>plane. plane \<in> set planes \<Longrightarrow> finite_vec (plane_normal plane) \<and> f_le (Fin 0) (plane_side dot plane p)
           \<and> plane_side dot plane (positive_vertex b (plane_normal plane)) \<noteq> NaN"
  shows "Intersects_frustum dot b planes"
  using assms(3)
proof (induction planes)
  case (Cons plane planes)
  let ?v = "positive_vertex b (plane_normal plane)"
  have "finite_vec (plane_normal plane)" "f_le (Fin 0) (plane_side dot plane p)" "plane_side dot plane ?v \<noteq> NaN"
    using Cons.prems [of plane] by simp_all
  moreover have "f_le (plane_side dot plane p) (plane_side dot plane ?v)"
    using plane_side_mono [OF _ finite_in_box [OF assms(1,2)] finite_vertex [OF assms(1)] in_box_ahead [OF assms(2)]] calculation f_le_number
    by blast
  ultimately have "f_le (Fin 0) (plane_side dot plane ?v)" using f_le_trans by blast
  with Cons show ?case by simp
qed simp

end

text \<open>The sum of the products from left to right, as GLM documents it, in single precision.\<close>

definition sum_dot :: "Vec3 \<Rightarrow> Vec3 \<Rightarrow> float32" where
  "sum_dot a b = f_add (f_add (f_mul (v_x a) (v_x b)) (f_mul (v_y a) (v_y b))) (f_mul (v_z a) (v_z b))"

lemma ahead_mul: "isfinite n \<Longrightarrow> isfinite p \<Longrightarrow> isfinite q \<Longrightarrow> ahead n p q \<Longrightarrow> f_le (f_mul n p) (f_mul n q)"
  by (cases n; cases p; cases q) (auto simp: isfinite_def ahead_def intro!: f_mul_mono split: if_splits)

lemma f_add_not_NaN: "f_add x y \<noteq> NaN \<Longrightarrow> x \<noteq> NaN \<and> y \<noteq> NaN"
  by (auto simp: f_add_def split: float32.splits)

interpretation glm: glm_dot sum_dot
proof
  fix n p q :: Vec3
  assume fin: "finite_vec n" "finite_vec p" "finite_vec q" and along: "vec_ahead n p q"
    and numbers: "sum_dot n p \<noteq> NaN" "sum_dot n q \<noteq> NaN"
  have products: "f_le (f_mul (v_x n) (v_x p)) (f_mul (v_x n) (v_x q))" "f_le (f_mul (v_y n) (v_y p)) (f_mul (v_y n) (v_y q))"
      "f_le (f_mul (v_z n) (v_z p)) (f_mul (v_z n) (v_z q))"
    using fin along by (simp_all add: finite_vec_def vec_ahead_def ahead_mul)
  have two: "f_add (f_mul (v_x n) (v_x p)) (f_mul (v_y n) (v_y p)) \<noteq> NaN" "f_add (f_mul (v_x n) (v_x q)) (f_mul (v_y n) (v_y q)) \<noteq> NaN"
    using numbers f_add_not_NaN unfolding sum_dot_def by blast+
  show "f_le (sum_dot n p) (sum_dot n q)"
    unfolding sum_dot_def
    by (rule f_add_mono [OF f_add_mono [OF products(1,2) two] products(3)]) (use numbers in \<open>simp_all add: sum_dot_def\<close>)
next
  fix a x b y c z :: int
  assume small: "\<bar>a * x\<bar> + \<bar>b * y\<bar> + \<bar>c * z\<bar> \<le> 2 ^ 24"
  then have "\<bar>a * x\<bar> \<le> 2 ^ 24" "\<bar>b * y\<bar> \<le> 2 ^ 24" "\<bar>c * z\<bar> \<le> 2 ^ 24" by linarith+
  moreover have "\<bar>a * x + b * y\<bar> \<le> 2 ^ 24" "\<bar>a * x + b * y + c * z\<bar> \<le> 2 ^ 24" using small by linarith+
  ultimately show "sum_dot (whole_vec a b c) (whole_vec x y z) = Fin (whole (a * x + b * y + c * z))"
    by (simp add: sum_dot_def whole_vec_def f_mul_whole f_add_whole)
qed

subsection \<open>Frustums\<close>

text \<open>C23.
  
  Culling never loses anything visible, in spite of rounding: if the numbers a frustum's planes give for some point of a box are none of them negative, the box is
  reported to intersect the frustum, for every scalar product that is as monotone as the rounded sum of products is, and
  as long as no infinity of either sign meets the other at a vertex.
\<close>

theorem frustum_keeps_visible:
  assumes "glm_dot dot" and "finite_box b" and "Contains_box b p"
    and "list_all (\<lambda>plane. finite_vec (plane_normal plane) \<and> f_le (Fin 0) (plane_side dot plane p)
           \<and> plane_side dot plane (positive_vertex b (plane_normal plane)) \<noteq> NaN) planes"
  shows "Intersects_frustum dot b planes"
  using glm_dot.point_keeps_box [OF assms(1-3), of planes] assms(4) by (simp add: list_all_iff)

lemma frustum_keeps_visible_witness:
  "Intersects_frustum sum_dot \<lparr> aabb_min = whole_vec (- 3) (- 1) (- 1), aabb_max = whole_vec 2 1 1 \<rparr>
     [\<lparr> plane_normal = whole_vec 1 (- 1) 0, plane_distance = Fin (whole 1) \<rparr>]"
proof (rule frustum_keeps_visible [where p = "whole_vec 0 0 0"])
  let ?b = "\<lparr> aabb_min = whole_vec (- 3) (- 1) (- 1), aabb_max = whole_vec 2 1 1 \<rparr>" and ?n = "whole_vec 1 (- 1) 0"
  show "glm_dot sum_dot" by (rule glm.glm_dot_axioms)
  show "finite_box ?b" by (simp add: finite_box_def finite_vec_def whole_vec_def isfinite_def)
  show "Contains_box ?b (whole_vec 0 0 0)" by (simp add: Contains_box_def whole_vec_def whole_def)
  have vertex: "positive_vertex ?b ?n = whole_vec 2 (- 1) 1" by (simp add: positive_vertex_def whole_vec_def whole_def)
  have dots: "sum_dot ?n (whole_vec 0 0 0) = Fin (whole 0)" "sum_dot ?n (whole_vec 2 (- 1) 1) = Fin (whole 3)"
    using glm.dot_whole [of 1 0 "- 1" 0 0 0] glm.dot_whole [of 1 2 "- 1" "- 1" 0 1] by simp_all
  have "finite_vec ?n" by (simp add: finite_vec_def whole_vec_def isfinite_def)
  then show "list_all (\<lambda>plane. finite_vec (plane_normal plane) \<and> f_le (Fin 0) (plane_side sum_dot plane (whole_vec 0 0 0))
      \<and> plane_side sum_dot plane (positive_vertex ?b (plane_normal plane)) \<noteq> NaN) [\<lparr> plane_normal = ?n, plane_distance = Fin (whole 1) \<rparr>]"
    by (simp add: plane_side_def vertex dots f_add_whole) (simp add: whole_def)
qed

text \<open>A matrix of whole numbers, and what it makes of a point: its clip coordinates.\<close>

definition whole_matrix :: "(nat \<Rightarrow> nat \<Rightarrow> int) \<Rightarrow> Mat4" where
  "whole_matrix m c r = Fin (whole (m c r))"

definition clip :: "(nat \<Rightarrow> nat \<Rightarrow> int) \<Rightarrow> int \<Rightarrow> int \<Rightarrow> int \<Rightarrow> nat \<Rightarrow> int" where
  "clip m x y z r = m 0 r * x + m 1 r * y + m 2 r * z + m 3 r"

lemma plane_side_whole:
  assumes "glm_dot dot" and "\<bar>a\<bar> \<le> 2 ^ 11" "\<bar>b\<bar> \<le> 2 ^ 11" "\<bar>c\<bar> \<le> 2 ^ 11" "\<bar>d\<bar> \<le> 2 ^ 11" "\<bar>x\<bar> \<le> 2 ^ 10" "\<bar>y\<bar> \<le> 2 ^ 10" "\<bar>z\<bar> \<le> 2 ^ 10"
  shows "plane_side dot \<lparr> plane_normal = whole_vec a b c, plane_distance = Fin (whole d) \<rparr> (whole_vec x y z) = Fin (whole (a * x + b * y + c * z + d))"
proof -
  have product: "\<bar>i * j\<bar> \<le> 2 ^ 21" if "\<bar>i\<bar> \<le> 2 ^ 11" "\<bar>j\<bar> \<le> 2 ^ 10" for i j :: int
    using mult_mono [OF that] by (simp add: abs_mult)
  have p: "\<bar>a * x\<bar> \<le> 2 ^ 21" "\<bar>b * y\<bar> \<le> 2 ^ 21" "\<bar>c * z\<bar> \<le> 2 ^ 21" using assms(2-8) by (simp_all only: product)
  then have "dot (whole_vec a b c) (whole_vec x y z) = Fin (whole (a * x + b * y + c * z))"
    by (intro glm_dot.dot_whole [OF assms(1)]) simp
  moreover have "\<bar>a * x + b * y + c * z + d\<bar> \<le> 2 ^ 24" using p assms(5) by simp
  ultimately show ?thesis by (simp add: plane_side_def f_add_whole)
qed

lemma whole_nonneg: "f_le (Fin 0) (Fin (whole n)) \<longleftrightarrow> 0 \<le> n"
  by (simp add: whole_def zero_le_mult_iff)

text \<open>The six planes taken from a matrix bound its clip volume: where no rounding interferes, for whole numbers of at most 1024, a point is inside of all of them exactly
  when its clip coordinates \<open>x\<close> and \<open>y\<close> lie between \<open>-w\<close> and \<open>w\<close> and \<open>z\<close> between 0 and \<open>w\<close>.
\<close>

theorem frustum_is_clip_volume:
  assumes "glm_dot dot" and "\<forall>c r. \<bar>m c r\<bar> \<le> 2 ^ 10" and "\<bar>x\<bar> \<le> 2 ^ 10" "\<bar>y\<bar> \<le> 2 ^ 10" "\<bar>z\<bar> \<le> 2 ^ 10"
  shows "list_all (\<lambda>plane. f_le (Fin 0) (plane_side dot plane (whole_vec x y z))) (ExtractFrustum (whole_matrix m)) \<longleftrightarrow>
         (let w = clip m x y z 3
          in \<bar>clip m x y z 0\<bar> \<le> w \<and> \<bar>clip m x y z 1\<bar> \<le> w \<and> 0 \<le> clip m x y z 2 \<and> clip m x y z 2 \<le> w)"
proof -
  have sum: "f_add (Fin (whole (m c r))) (Fin (whole (m c' r'))) = Fin (whole (m c r + m c' r'))" "\<bar>m c r + m c' r'\<bar> \<le> 2 ^ 11" for c r c' r'
    using assms(2) [rule_format, of c r] assms(2) [rule_format, of c' r'] by (simp_all add: f_add_whole)
  have diff: "f_sub (Fin (whole (m c r))) (Fin (whole (m c' r'))) = Fin (whole (m c r - m c' r'))" "\<bar>m c r - m c' r'\<bar> \<le> 2 ^ 11" for c r c' r'
    using assms(2) [rule_format, of c r] assms(2) [rule_format, of c' r'] by (simp_all add: f_sub_whole)
  have entry: "\<bar>m c r\<bar> \<le> 2 ^ 11" for c r using assms(2) [rule_format, of c r] by simp
  note side = plane_side_whole [OF assms(1), unfolded whole_vec_def, OF _ _ _ _ assms(3-5)]
  have "list_all (\<lambda>plane. f_le (Fin 0) (plane_side dot plane (whole_vec x y z))) (ExtractFrustum (whole_matrix m)) \<longleftrightarrow>
      0 \<le> clip m x y z 3 + clip m x y z 0 \<and> 0 \<le> clip m x y z 3 - clip m x y z 0
      \<and> 0 \<le> clip m x y z 3 + clip m x y z 1 \<and> 0 \<le> clip m x y z 3 - clip m x y z 1
      \<and> 0 \<le> clip m x y z 2 \<and> 0 \<le> clip m x y z 3 - clip m x y z 2"
    unfolding ExtractFrustum_def whole_matrix_def sum(1) diff(1) list.pred_inject whole_vec_def side [OF sum(2) sum(2) sum(2) sum(2)]
      side [OF diff(2) diff(2) diff(2) diff(2)] side [OF entry entry entry entry] whole_nonneg
    by (simp add: clip_def algebra_simps)
  then show ?thesis unfolding Let_def by (auto simp: abs_le_iff)
qed

subsection \<open>Spheres\<close>

text \<open>Lengths in eighths, and points on the x axis.\<close>

definition eighths :: "int \<Rightarrow> float32" where
  "eighths n = Fin (n * 2 ^ 146)"

definition on_axis :: "int \<Rightarrow> Vec3" where
  "on_axis n = \<lparr> v_x = eighths n, v_y = Fin 0, v_z = Fin 0 \<rparr>"

definition clamp_components :: "Vec3 \<Rightarrow> Vec3 \<Rightarrow> Vec3 \<Rightarrow> Vec3" where
  "clamp_components v low high =
     \<lparr> v_x = Math_Min (Math_Max (v_x v) (v_x low)) (v_x high), v_y = Math_Min (Math_Max (v_y v) (v_y low)) (v_y high),
       v_z = Math_Min (Math_Max (v_z v) (v_z low)) (v_z high) \<rparr>"

lemma eighths_add: "\<bar>m + n\<bar> \<le> 2 ^ 24 \<Longrightarrow> f_add (eighths m) (eighths n) = eighths (m + n)"
proof -
  assume small: "\<bar>m + n\<bar> \<le> 2 ^ 24"
  have "representable ((m + n) * 2 ^ 146)" unfolding representable_def by (intro exI [of _ "m + n"] exI [of _ "146 :: nat"]) (use small in simp)
  then have "round_ratio ((m + n) * 2 ^ 146) 1 = (m + n) * 2 ^ 146" by (rule round_exact)
  moreover have "\<bar>(m + n) * 2 ^ 146\<bar> < Overflow" using small by (simp add: Overflow_def abs_mult)
  ultimately show ?thesis by (simp add: eighths_def f_add_def rounded_def Let_def distrib_right)
qed

lemma eighths_square: "k * k \<le> 2 ^ 24 \<Longrightarrow> f_mul (eighths k) (eighths k) = Fin (k * k * 2 ^ 143)"
proof -
  assume small: "k * k \<le> 2 ^ 24"
  have "representable (k * k * 2 ^ 143)" unfolding representable_def by (intro exI [of _ "k * k"] exI [of _ "143 :: nat"]) (use small in simp)
  then have "round_ratio (k * k * 2 ^ 143 * 2 ^ 149) (2 ^ 149) = k * k * 2 ^ 143"
    using round_ratio_le [of "2 ^ 149" "k * k * 2 ^ 143" "k * k * 2 ^ 143 * 2 ^ 149"] round_ratio_ge [of "2 ^ 149" "k * k * 2 ^ 143" "k * k * 2 ^ 143 * 2 ^ 149"]
    by (simp only: order_refl antisym zero_less_power zero_less_numeral simp_thms)
  moreover have "k * 2 ^ 146 * (k * 2 ^ 146) = k * k * 2 ^ 143 * (2 ^ 149 :: int)" by simp
  moreover have "\<bar>k * k * 2 ^ 143\<bar> < Overflow" using small by (simp add: Overflow_def abs_mult)
  ultimately show ?thesis by (simp add: eighths_def f_mul_def rounded_def Let_def)
qed

lemma eighths_le_square: "f_le (eighths n) (Fin (k * k * 2 ^ 143)) \<longleftrightarrow> 8 * n \<le> k * k"
proof -
  have "f_le (eighths n) (Fin (k * k * 2 ^ 143)) \<longleftrightarrow> 8 * n * 2 ^ 143 \<le> k * k * 2 ^ 143" by (simp add: eighths_def)
  also have "\<dots> \<longleftrightarrow> 8 * n \<le> k * k" by (rule mult_le_cancel_right_pos) simp
  finally show ?thesis .
qed

lemma square_small: "0 \<le> k \<Longrightarrow> k \<le> 2 ^ 12 \<Longrightarrow> k * k \<le> (2 :: int) ^ 24"
  using mult_mono [of k "2 ^ 12" k "2 ^ 12"] by simp

text \<open>C35.
  
  The tests with spheres compare a distance with the square of a radius: of lengths given in eighths, a point at distance \<open>n\<close> of the centre of a sphere
  of radius \<open>r\<close> is reported inside exactly when \<open>8 * n \<le> r * r\<close>, where \<open>n \<le> r\<close> is meant.  So a point at distance 3 lies in
  a sphere of radius 2 for them, and one at distance 3/8 does not in a sphere of radius 1/2; and the same holds of two spheres and of a box and a sphere.
\<close>

theorem sphere_tests_square_radius:
  assumes distance: "\<forall>a b. \<bar>a\<bar> \<le> 2 ^ 12 \<and> \<bar>b\<bar> \<le> 2 ^ 12 \<and> \<bar>a - b\<bar> \<le> 2 ^ 12 \<longrightarrow> distance (on_axis a) (on_axis b) = eighths \<bar>a - b\<bar>"
    and clamp: "\<forall>v low high. clamp v low high = clamp_components v low high"
    and "\<bar>c\<bar> \<le> 2 ^ 12" "0 \<le> n" "\<bar>c + n\<bar> \<le> 2 ^ 12" "n \<le> 2 ^ 12" and "0 \<le> r" "0 \<le> s" "r + s \<le> 2 ^ 12" and "0 \<le> e"
  shows "(Contains_sphere distance \<lparr> sphere_center = on_axis c, sphere_radius = eighths r \<rparr> (on_axis (c + n)) \<longleftrightarrow> 8 * n \<le> r * r)
    \<and> (Intersects_spheres distance \<lparr> sphere_center = on_axis c, sphere_radius = eighths r \<rparr>
          \<lparr> sphere_center = on_axis (c + n), sphere_radius = eighths s \<rparr> \<longleftrightarrow> 8 * n \<le> (r + s) * (r + s))
    \<and> (Intersects_box_sphere distance clamp \<lparr> aabb_min = on_axis (c + n), aabb_max = on_axis (c + n + e) \<rparr>
          \<lparr> sphere_center = on_axis c, sphere_radius = eighths r \<rparr> \<longleftrightarrow> 8 * n \<le> r * r)"
proof -
  have far: "distance (on_axis c) (on_axis (c + n)) = eighths n" using distance [rule_format, of c "c + n"] assms(3-6) by simp
  have squares: "f_mul (eighths r) (eighths r) = Fin (r * r * 2 ^ 143)" "f_mul (eighths (r + s)) (eighths (r + s)) = Fin ((r + s) * (r + s) * 2 ^ 143)"
    using assms(7-9) by (simp_all only: eighths_square square_small add_nonneg_nonneg order_trans [of r "r + s"] le_add_same_cancel1)
  have sum: "f_add (eighths r) (eighths s) = eighths (r + s)" using assms(7-9) by (intro eighths_add) simp
  have nearest: "clamp (on_axis c) (on_axis (c + n)) (on_axis (c + n + e)) = on_axis (c + n)"
    using assms(4,10) by (auto simp: clamp clamp_components_def on_axis_def eighths_def Math_Min_def Math_Max_def)
  show ?thesis
    by (simp only: Contains_sphere_def Intersects_spheres_def Intersects_box_sphere_def SSphere.select_convs CAABB.select_convs Let_def far squares sum
        nearest eighths_le_square simp_thms)
qed

text \<open>A distance that is right on the axis, for the example.\<close>

definition axis_distance :: "Vec3 \<Rightarrow> Vec3 \<Rightarrow> float32" where
  "axis_distance a b = f_abs (f_sub (v_x a) (v_x b))"

lemma axis_distance_exact: "\<bar>a - b\<bar> \<le> 2 ^ 12 \<Longrightarrow> axis_distance (on_axis a) (on_axis b) = eighths \<bar>a - b\<bar>"
proof -
  assume small: "\<bar>a - b\<bar> \<le> 2 ^ 12"
  have "f_sub (eighths a) (eighths b) = f_add (eighths a) (eighths (- b))" by (simp add: f_sub_def f_neg_def eighths_def)
  also have "\<dots> = eighths (a - b)" using small eighths_add [of a "- b"] by simp
  finally have "axis_distance (on_axis a) (on_axis b) = f_abs (eighths (a - b))" by (simp only: axis_distance_def on_axis_def Vec3.select_convs)
  then show ?thesis by (simp only: eighths_def f_abs_def abs_mult float32.case abs_power2 abs_numeral power_abs)
qed

lemma sphere_tests_square_radius_witness:
  "Contains_sphere axis_distance \<lparr> sphere_center = on_axis 0, sphere_radius = eighths 16 \<rparr> (on_axis 24)
   \<and> \<not> Contains_sphere axis_distance \<lparr> sphere_center = on_axis 0, sphere_radius = eighths 4 \<rparr> (on_axis 3)"
  using sphere_tests_square_radius [of axis_distance clamp_components 0 24 16 0 0]
    sphere_tests_square_radius [of axis_distance clamp_components 0 3 4 0 0] by (simp add: axis_distance_exact)

end
