(* ===== verification/Expected_Log.thy ===== *)
theory Expected_Log
  imports Log_System
begin

unbundle bit_operations_syntax

section \<open>Expected messages in tests\<close>

text \<open>
  Models the guards that \<^verbatim>\<open>public/tge/testing/expected_log.hpp\<close> and \<^verbatim>\<open>expected_log_errors.hpp\<close> give the tests of other modules.  The guard is a
  listener of the log system: it is known by its key, and \<open>observed\<close> are the messages a step of the log system hands to it, on each of which its callback
  \<open>Count\<close> runs.  Failures of the test are recorded.
\<close>

datatype test_failure = NotInitialized | GuardsNested | NoSuchChannel | ChannelMasked | WarningCount | ErrorCount | NothingMuted

record CExpectedLog =
  x_channel :: string
  x_numExpectedWarnings :: u32
  x_numExpectedErrors :: u32
  x_numWarnings :: u32
  x_numErrors :: u32
  x_savedTargets :: ETarget
  x_isEchoing :: bool
  x_isArmed :: bool

record test_world =
  w_log :: log_state
  w_isAnyArmed :: bool
  w_failures :: "test_failure list"
  w_printed :: "(stream \<times> string) list"

definition counted :: ELogLevel where
  "counted = Level_Warning OR Level_Error"

definition CExpectedLog_ctor ::
    "(string \<Rightarrow> u64) \<Rightarrow> nat \<Rightarrow> string \<Rightarrow> u32 \<Rightarrow> u32 \<Rightarrow> test_world \<Rightarrow> CExpectedLog \<times> test_world" where
  "CExpectedLog_ctor hash key channel numWarnings numErrors w =
     (let s = w_log w;
          g = \<lparr>x_channel = channel, x_numExpectedWarnings = numWarnings, x_numExpectedErrors = numErrors, x_numWarnings = 0, x_numErrors = 0,
               x_savedTargets = Target_All, x_isEchoing = False, x_isArmed = False\<rparr>;
          fail = (\<lambda>f. (g, w\<lparr>w_failures := w_failures w @ [f]\<rparr>))
      in if \<not> m_initialized s then fail NotInitialized
         else if w_isAnyArmed w then fail GuardsNested
         else if channel \<notin> set (GetChannelNames s) then fail NoSuchChannel
         else if GetLogLevel hash channel s AND counted \<noteq> counted then fail ChannelMasked
         else
           let saved = m_enabledTargets s;
               silenced = (saved OR Target_Listeners) AND NOT Target_Terminal
           in (g\<lparr>x_savedTargets := saved, x_isEchoing := (saved AND Target_Terminal \<noteq> 0), x_isArmed := True\<rparr>,
               w\<lparr>w_log := RegisterListener key Formatted Skip (SetEnabledTargets silenced s), w_isAnyArmed := True\<rparr>))"

definition Echo :: "SLogMessage \<Rightarrow> (stream \<times> string) list \<Rightarrow> (stream \<times> string) list" where
  "Echo msg printed =
     (if mlevel msg = Level_Error then printed @ [(Err, esc @ ''[31m'' @ message msg @ esc @ ''[0m'' @ [CHR 0x0A])]
      else if mlevel msg = Level_Warning then printed @ [(Out, esc @ ''[33m'' @ message msg @ esc @ ''[0m'' @ [CHR 0x0A])]
      else printed @ [(Out, message msg @ [CHR 0x0A])])"

definition Count :: "SLogMessage \<Rightarrow> CExpectedLog \<times> (stream \<times> string) list \<Rightarrow> CExpectedLog \<times> (stream \<times> string) list" where
  "Count msg gp =
     (case gp of (g, printed) \<Rightarrow>
        let isOwnChannel = (channelName msg = x_channel g)
        in if isOwnChannel \<and> mlevel msg = Level_Warning then (g\<lparr>x_numWarnings := x_numWarnings g + 1\<rparr>, printed)
           else if isOwnChannel \<and> mlevel msg = Level_Error then (g\<lparr>x_numErrors := x_numErrors g + 1\<rparr>, printed)
           else if x_isEchoing g then (g, Echo msg printed)
           else (g, printed))"

definition observed :: "nat \<Rightarrow> log_state \<Rightarrow> log_state \<Rightarrow> SLogMessage list" where
  "observed key before after = map (\<lambda>d. snd (snd d)) (filter (\<lambda>d. fst d = key) (drop (length (delivered before)) (delivered after)))"

definition guarded_dispatch :: "nat \<Rightarrow> CExpectedLog \<times> test_world \<Rightarrow> CExpectedLog \<times> test_world" where
  "guarded_dispatch key gw =
     (case gw of (g, w) \<Rightarrow>
        let s' = DispatchListeners (w_log w);
            (g', printed) = fold Count (observed key (w_log w) s') (g, w_printed w)
        in (g', w\<lparr>w_log := s', w_printed := printed\<rparr>))"

definition CExpectedLog_dtor :: "nat \<Rightarrow> CExpectedLog \<times> test_world \<Rightarrow> test_world" where
  "CExpectedLog_dtor key gw =
     (if x_isArmed (fst gw)
      then case guarded_dispatch key gw of (g, w) \<Rightarrow>
             w\<lparr>w_log := SetEnabledTargets (x_savedTargets g) (UnregisterListener key (w_log w)), w_isAnyArmed := False,
               w_failures := w_failures w @ (if x_numWarnings g = x_numExpectedWarnings g then [] else [WarningCount])
                                          @ (if x_numErrors g = x_numExpectedErrors g then [] else [ErrorCount])\<rparr>
      else snd gw)"

text \<open>What the thread of the test does in the scope of the guard.\<close>

datatype test_action = Logs int u64 string nat ELogLevel ETarget string | Dispatches

fun run_test_action :: "nat \<Rightarrow> test_action \<Rightarrow> CExpectedLog \<times> test_world \<Rightarrow> CExpectedLog \<times> test_world" where
  "run_test_action key (Logs now elapsed wall p level target text) (g, w) = (g, w\<lparr>w_log := Write now elapsed wall p level target text (w_log w)\<rparr>)"
| "run_test_action key Dispatches gw = guarded_dispatch key gw"

text \<open>The guard that mutes the errors of a channel.\<close>

definition CExpectedLogErrors_ctor :: "(string \<Rightarrow> u64) \<Rightarrow> string \<Rightarrow> test_world \<Rightarrow> (string \<times> ELogLevel) \<times> test_world" where
  "CExpectedLogErrors_ctor hash channel w =
     (let savedLevel = GetLogLevel hash channel (w_log w);
          (known, s') = SetLogLevel hash channel (savedLevel AND NOT Level_Error) (w_log w)
      in ((channel, savedLevel), w\<lparr>w_log := s', w_failures := w_failures w @ (if known then [] else [NothingMuted])\<rparr>))"

definition CExpectedLogErrors_dtor :: "(string \<Rightarrow> u64) \<Rightarrow> string \<times> ELogLevel \<Rightarrow> test_world \<Rightarrow> test_world" where
  "CExpectedLogErrors_dtor hash g w = w\<lparr>w_log := snd (SetLogLevel hash (fst g) (snd g) (w_log w))\<rparr>"

subsection \<open>What a dispatch hands to the guard\<close>

definition pending_messages :: "log_state \<Rightarrow> SLogMessage list" where
  "pending_messages s = concat (map (\<lambda>(_, p). m_pendingDispatch (logs s p)) (loggers s))"

text \<open>The channels, the listeners and the switches of the log stay as they are while messages are written and dispatched.\<close>

definition same_setup :: "log_state \<Rightarrow> log_state \<Rightarrow> bool" where
  "same_setup s s' \<longleftrightarrow> loggers s' = loggers s \<and> listeners s' = listeners s \<and> m_initialized s' = m_initialized s \<and> m_enabledTargets s' = m_enabledTargets s
     \<and> (\<forall>p. m_name (logs s' p) = m_name (logs s p) \<and> m_levelMask (logs s' p) = m_levelMask (logs s p) \<and> m_listeners (logs s' p) = m_listeners (logs s p))"

lemma same_setup_refl [simp]: "same_setup s s"
  by (simp add: same_setup_def)

lemma same_setup_trans: "same_setup s s' \<Longrightarrow> same_setup s' s'' \<Longrightarrow> same_setup s s''"
  by (simp add: same_setup_def)

lemma same_setup_if: "same_setup s a \<Longrightarrow> same_setup s b \<Longrightarrow> same_setup s (if c then a else b)"
  by simp

lemma write_setups:
  "same_setup s (write_pre_init level text s)"
  "same_setup s s1 \<Longrightarrow> same_setup s (WriteToTerminal msg s1)"
  "same_setup s s1 \<Longrightarrow> same_setup s (WriteToFile msg s1)"
  "same_setup s s1 \<Longrightarrow> same_setup s (log_upd p (\<lambda>x. x\<lparr>m_pendingDispatch := m_pendingDispatch x @ [msg]\<rparr>) s1)"
  by (simp_all add: same_setup_def write_pre_init_def WriteToTerminal_def WriteToFile_def log_upd_def Let_def)

lemma Write_setup: "same_setup s (Write now elapsed wall p level target text s)"
  unfolding Write_def Let_def by (intro same_setup_if write_setups same_setup_refl)

lemma DispatchPending_setup: "same_setup s (DispatchPending p s)"
  by (simp add: same_setup_def DispatchPending_def log_upd_def Let_def)

text \<open>The guard is the one listener with its key.\<close>

definition guard_listens :: "nat \<Rightarrow> log_state \<Rightarrow> bool" where
  "guard_listens key s \<longleftrightarrow> filter (\<lambda>l. l_key l = key) (listeners s) = [\<lparr>l_key = key, l_format = Formatted\<rparr>]
     \<and> (\<forall>p. \<forall>l \<in> set (m_listeners (logs s p)). l_key l \<noteq> key)"

definition formatted :: "SLogMessage \<Rightarrow> SLogMessage" where
  "formatted msg = msg\<lparr>message := FormatMessage msg\<rparr>"

definition handed :: "nat \<Rightarrow> (nat \<times> SLogMessage \<times> SLogMessage) list \<Rightarrow> SLogMessage list" where
  "handed key ds = map (\<lambda>d. snd (snd d)) (filter (\<lambda>d. fst d = key) ds)"

lemma handed_append [simp]: "handed key (ds @ es) = handed key ds @ handed key es"
  by (simp add: handed_def)

lemma handed_Nil [simp]: "handed key [] = []"
  by (simp add: handed_def)

lemma handed_listeners: "handed key (map (\<lambda>k. hand_over k msg) ls) = map (\<lambda>k. given k msg) (filter (\<lambda>k. l_key k = key) ls)"
  by (simp add: handed_def filter_map comp_def hand_over_def)

lemma dispatch_delivers:
  assumes "guard_listens key s"
  shows "\<exists>ds. delivered (DispatchPending p s) = delivered s @ ds \<and> handed key ds = map formatted (m_pendingDispatch (logs s p))"
proof -
  let ?give = "\<lambda>msg. map (\<lambda>k. hand_over k msg) (m_listeners (logs s p)) @ map (\<lambda>k. hand_over k msg) (listeners s)"
  have none: "filter (\<lambda>l. l_key l = key) (m_listeners (logs s p)) = []" and one: "filter (\<lambda>l. l_key l = key) (listeners s) = [\<lparr>l_key = key, l_format = Formatted\<rparr>]"
    using assms by (auto simp: guard_listens_def filter_empty_conv)
  have "handed key (?give msg) = [formatted msg]" for msg
    by (simp add: handed_listeners none one given_def formatted_def)
  then have "handed key (concat (map ?give ms)) = map formatted ms" for ms by (induction ms) simp_all
  then show ?thesis by (auto simp: DispatchPending_def Let_def log_upd_def)
qed

lemma dispatch_pending: "m_pendingDispatch (logs (DispatchPending p s) q) = (if q = p then [] else m_pendingDispatch (logs s q))"
  by (simp add: DispatchPending_def Let_def log_upd_def)

lemma dispatch_all_clears:
  "same_setup s (fold (\<lambda>(_, p). DispatchPending p) ls s)
   \<and> m_pendingDispatch (logs (fold (\<lambda>(_, p). DispatchPending p) ls s) q) = (if q \<in> snd ` set ls then [] else m_pendingDispatch (logs s q))"
proof (induction ls arbitrary: s)
  case (Cons ip ls)
  obtain i p where ip: "ip = (i, p)" by (cases ip)
  show ?case using Cons.IH [of "DispatchPending p s"] same_setup_trans [OF DispatchPending_setup [of s p]] by (auto simp: ip dispatch_pending)
qed simp

lemma dispatch_all_delivers:
  assumes "distinct (map snd ls)" "guard_listens key s"
  shows "\<exists>ds. delivered (fold (\<lambda>(_, p). DispatchPending p) ls s) = delivered s @ ds
          \<and> handed key ds = map formatted (concat (map (\<lambda>(_, p). m_pendingDispatch (logs s p)) ls))"
  using assms
proof (induction ls arbitrary: s)
  case (Cons ip ls)
  obtain i p where ip: "ip = (i, p)" by (cases ip)
  let ?s = "DispatchPending p s"
  have other: "p \<notin> snd ` set ls" and dist: "distinct (map snd ls)" using Cons.prems(1) ip by auto
  have keep: "map (\<lambda>(_, q). m_pendingDispatch (logs ?s q)) ls = map (\<lambda>(_, q). m_pendingDispatch (logs s q)) ls"
    using other by (intro map_cong) (auto simp: dispatch_pending image_iff)
  have "guard_listens key ?s" using Cons.prems(2) DispatchPending_setup [of s p] by (simp add: guard_listens_def same_setup_def)
  from Cons.IH [OF dist this] obtain es where es: "delivered (fold (\<lambda>(_, p). DispatchPending p) ls ?s) = delivered ?s @ es"
      "handed key es = map formatted (concat (map (\<lambda>(_, q). m_pendingDispatch (logs s q)) ls))"
    unfolding keep by blast
  obtain ds where "delivered ?s = delivered s @ ds" "handed key ds = map formatted (m_pendingDispatch (logs s p))"
    using dispatch_delivers [OF Cons.prems(2)] by blast
  with es show ?case using ip by (intro exI [of _ "ds @ es"]) simp
qed simp

lemma dispatch_clears: "same_setup s (DispatchListeners s)" "pending_messages (DispatchListeners s) = []"
proof -
  note all = dispatch_all_clears [of s "loggers s", folded DispatchListeners_def]
  then show same: "same_setup s (DispatchListeners s)" by blast
  then have "loggers (DispatchListeners s) = loggers s" by (simp add: same_setup_def)
  then show "pending_messages (DispatchListeners s) = []" using all by (force simp: pending_messages_def)
qed

lemma dispatch_observed:
  assumes "channels_ok s" "guard_listens key s"
  shows "observed key s (DispatchListeners s) = map formatted (pending_messages s)"
proof -
  have "distinct (map snd (loggers s))" using assms(1) by (simp add: channels_ok_def)
  from dispatch_all_delivers [OF this assms(2), folded DispatchListeners_def] show ?thesis
    by (auto simp: observed_def handed_def pending_messages_def)
qed

subsection \<open>Counting\<close>

definition of_kind :: "string \<Rightarrow> ELogLevel \<Rightarrow> SLogMessage list \<Rightarrow> nat" where
  "of_kind channel level ms = length (filter (\<lambda>m. channelName m = channel \<and> mlevel m = level) ms)"

lemma of_kind_simps [simp]:
  "of_kind channel level [] = 0"
  "of_kind channel level (ms @ ns) = of_kind channel level ms + of_kind channel level ns"
  "of_kind channel level (map formatted ms) = of_kind channel level ms"
  by (simp_all add: of_kind_def filter_map comp_def formatted_def)

lemma levels_differ [simp]: "Level_Warning \<noteq> Level_Error" "Level_Error \<noteq> Level_Warning"
  by (simp_all add: level_defs)

definition same_guard :: "CExpectedLog \<Rightarrow> CExpectedLog \<Rightarrow> bool" where
  "same_guard g g' \<longleftrightarrow> g\<lparr>x_numWarnings := 0, x_numErrors := 0\<rparr> = g'\<lparr>x_numWarnings := 0, x_numErrors := 0\<rparr>"

lemma same_guard_fields:
  "same_guard g g' \<Longrightarrow> x_channel g' = x_channel g \<and> x_numExpectedWarnings g' = x_numExpectedWarnings g \<and> x_numExpectedErrors g' = x_numExpectedErrors g
     \<and> x_savedTargets g' = x_savedTargets g \<and> x_isArmed g' = x_isArmed g"
  unfolding same_guard_def
  by (metis CExpectedLog.select_convs(1,2,3,6,8) CExpectedLog.update_convs(4,5) CExpectedLog.surjective)

lemma fold_Count:
  "fold Count ms (g, printed) = (g', printed') \<Longrightarrow>
     same_guard g g' \<and> x_numWarnings g' = x_numWarnings g + of_nat (of_kind (x_channel g) Level_Warning ms)
     \<and> x_numErrors g' = x_numErrors g + of_nat (of_kind (x_channel g) Level_Error ms)"
proof (induction ms arbitrary: g printed)
  case Nil
  then show ?case by (simp add: same_guard_def)
next
  case (Cons m ms)
  obtain h p where h: "Count m (g, printed) = (h, p)" by (cases "Count m (g, printed)")
  then have same: "same_guard g h" and w: "x_numWarnings h = x_numWarnings g + of_nat (of_kind (x_channel g) Level_Warning [m])"
    and e: "x_numErrors h = x_numErrors g + of_nat (of_kind (x_channel g) Level_Error [m])"
    by (auto simp: Count_def Let_def same_guard_def of_kind_def split: if_splits)
  have "of_kind c l (m # ms) = of_kind c l [m] + of_kind c l ms" for c l by (simp add: of_kind_def)
  then show ?case using Cons.IH [of h p] Cons.prems h w e same same_guard_fields [OF same] by (simp add: same_guard_def ac_simps)
qed

text \<open>What a write adds to the queues.\<close>

lemma pending_tools:
  "logs (write_pre_init level text s) = logs s" "logs (WriteToTerminal msg s) = logs s" "logs (WriteToFile msg s) = logs s"
  by (simp_all add: write_pre_init_def WriteToTerminal_def WriteToFile_def Let_def)

lemma Write_pending:
  assumes "m_initialized s"
  shows "\<exists>msg. channelName msg = m_name (logs s p) \<and> mlevel msg = level \<and>
    (\<forall>q. m_pendingDispatch (logs (Write now elapsed wall p level target text s) q) =
       m_pendingDispatch (logs s q) @
       (if q = p \<and> level AND m_levelMask (logs s p) \<noteq> Level_None \<and> (target AND m_enabledTargets s) AND Target_Listeners \<noteq> 0 then [msg] else []))"
proof -
  let ?msg = "\<lparr>timestamp = now, elapsedMs = elapsed, mlevel = level, mtarget = target AND m_enabledTargets s, channelName = m_name (logs s p), message = text,
      formattedTimestamp = (if m_timestampMode s = WallClock then wall else FormatTimestamp elapsed 32), mcolor = m_color (logs s p)\<rparr>"
  show ?thesis using assms
    by (intro exI [of _ ?msg]) (simp add: Write_def Let_def log_upd_def pending_tools)
qed

lemma of_kind_concat: "of_kind c l (concat xss) = sum_list (map (of_kind c l) xss)"
  by (induction xss) simp_all

lemma of_kind_added:
  assumes "distinct (map snd ls)" "p \<in> snd ` set ls" "\<And>q. f' q = f q @ (if q = p then extra else [])"
  shows "of_kind c l (concat (map (\<lambda>(_, q). f' q) ls)) = of_kind c l (concat (map (\<lambda>(_, q). f q) ls)) + of_kind c l extra"
  using assms(1,2)
proof (induction ls)
  case (Cons iq ls)
  obtain i q where iq: "iq = (i, q)" by (cases iq)
  show ?case
  proof (cases "q = p")
    case True
    then have "map (\<lambda>(_, r). f' r) ls = map (\<lambda>(_, r). f r) ls" using Cons.prems(1) iq by (intro map_cong) (auto simp: assms(3) image_iff)
    then show ?thesis using True iq by (simp add: assms(3) [of p] del: map_eq_conv)
  next
    case False
    then show ?thesis using Cons iq by (simp add: assms(3))
  qed
qed simp

subsection \<open>A guard counts exactly\<close>

lemma bit_targets: "bit Target_Listeners n \<longleftrightarrow> n = 2" "bit Target_Terminal n \<longleftrightarrow> n = 0"
proof -
  have L: "Target_Listeners = 2 ^ 2" and T: "Target_Terminal = 1" by (simp_all add: Target_Listeners_def Target_Terminal_def)
  show "bit Target_Listeners n \<longleftrightarrow> n = 2" unfolding L bit_exp_iff by auto
  show "bit Target_Terminal n \<longleftrightarrow> n = 0" unfolding T by (simp add: bit_1_iff)
qed

lemma silenced_listens: "((saved OR Target_Listeners) AND NOT Target_Terminal) AND Target_Listeners = Target_Listeners"
  by (rule bit_word_eqI) (auto simp: bit_and_iff bit_or_iff bit_not_iff bit_targets)

lemma silenced_terminal: "((saved OR Target_Listeners) AND NOT Target_Terminal) AND Target_Terminal = 0"
  by (rule bit_word_eqI) (auto simp: bit_and_iff bit_or_iff bit_not_iff bit_targets)

lemma reaches_listeners:
  "enabled AND Target_Listeners = Target_Listeners \<Longrightarrow> (target AND enabled) AND Target_Listeners = target AND Target_Listeners"
  by (simp add: and.assoc)

text \<open>The actions that should be counted, given the log when the guard is made.\<close>

definition counts :: "log_state \<Rightarrow> string \<Rightarrow> ELogLevel \<Rightarrow> test_action \<Rightarrow> bool" where
  "counts s channel level a =
     (case a of Logs now elapsed wall p l target text \<Rightarrow> m_name (logs s p) = channel \<and> l = level \<and> target AND Target_Listeners \<noteq> 0 | Dispatches \<Rightarrow> False)"

definition tally :: "log_state \<Rightarrow> string \<Rightarrow> ELogLevel \<Rightarrow> test_action list \<Rightarrow> nat" where
  "tally s channel level acts = length (filter (counts s channel level) acts)"

definition on_channels :: "log_state \<Rightarrow> test_action \<Rightarrow> bool" where
  "on_channels s a = (case a of Logs now elapsed wall p l target text \<Rightarrow> p \<in> snd ` set (loggers s) | Dispatches \<Rightarrow> True)"

text \<open>A log in which the guard of a channel is armed.\<close>

definition guarded :: "nat \<Rightarrow> string \<Rightarrow> log_state \<Rightarrow> bool" where
  "guarded key channel s \<longleftrightarrow> m_initialized s \<and> channels_ok s \<and> guard_listens key s \<and> m_enabledTargets s AND Target_Listeners = Target_Listeners
     \<and> (\<forall>p \<in> snd ` set (loggers s). m_name (logs s p) = channel \<longrightarrow> m_levelMask (logs s p) AND counted = counted)"

lemma guarded_same: "same_setup s s' \<Longrightarrow> guarded key channel s \<Longrightarrow> guarded key channel s'"
  by (simp add: guarded_def same_setup_def channels_ok_def guard_listens_def)

lemma level_passes:
  assumes "mask' AND counted = counted" "level = Level_Warning \<or> level = Level_Error"
  shows "level AND mask' \<noteq> Level_None"
proof -
  have "(level AND mask') AND counted = level AND counted" using assms(1) by (simp add: and.assoc)
  also have "level AND counted \<noteq> 0" using assms(2) by (auto simp: counted_def level_defs)
  finally show ?thesis by (auto simp: Level_None_def)
qed

lemma Write_counts:
  assumes "guarded key channel s" "p \<in> snd ` set (loggers s)" "lv = Level_Warning \<or> lv = Level_Error"
  shows "of_kind channel lv (pending_messages (Write now elapsed wall p level target text s)) =
      of_kind channel lv (pending_messages s) + (if counts s channel lv (Logs now elapsed wall p level target text) then 1 else 0)"
proof -
  have init: "m_initialized s" and dist: "distinct (map snd (loggers s))"
    and enabled: "m_enabledTargets s AND Target_Listeners = Target_Listeners"
    and level_mask: "m_name (logs s p) = channel \<Longrightarrow> m_levelMask (logs s p) AND counted = counted"
    using assms(1,2) by (auto simp: guarded_def channels_ok_def)
  let ?c = "level AND m_levelMask (logs s p) \<noteq> Level_None \<and> (target AND m_enabledTargets s) AND Target_Listeners \<noteq> 0"
  obtain msg where msg: "channelName msg = m_name (logs s p)" "mlevel msg = level"
    and queue: "\<And>q. m_pendingDispatch (logs (Write now elapsed wall p level target text s) q) =
      m_pendingDispatch (logs s q) @ (if q = p \<and> ?c then [msg] else [])"
    using Write_pending [OF init] by blast
  have "loggers (Write now elapsed wall p level target text s) = loggers s" using Write_setup [of s] by (simp add: same_setup_def)
  then have "of_kind channel lv (pending_messages (Write now elapsed wall p level target text s)) =
      of_kind channel lv (pending_messages s) + of_kind channel lv (if ?c then [msg] else [])"
    unfolding pending_messages_def
    by (simp only:) (rule of_kind_added [OF dist assms(2)], simp add: queue)
  also have "of_kind channel lv (if ?c then [msg] else []) = (if counts s channel lv (Logs now elapsed wall p level target text) then 1 else 0)"
  proof (cases "m_name (logs s p) = channel \<and> level = lv")
    case True
    then have "level AND m_levelMask (logs s p) \<noteq> Level_None" using level_passes [OF level_mask] assms(3) by blast
    then show ?thesis using True msg by (simp add: of_kind_def counts_def reaches_listeners [OF enabled])
  next
    case False
    then show ?thesis using msg by (auto simp: of_kind_def counts_def)
  qed
  finally show ?thesis .
qed

definition scope_inv :: "nat \<Rightarrow> log_state \<Rightarrow> CExpectedLog \<Rightarrow> test_world \<Rightarrow> test_action list \<Rightarrow> CExpectedLog \<times> test_world \<Rightarrow> bool" where
  "scope_inv key s0 g0 w0 acts gw \<longleftrightarrow>
     (case gw of (g, w) \<Rightarrow> same_setup s0 (w_log w) \<and> same_guard g0 g \<and> w_isAnyArmed w = w_isAnyArmed w0 \<and> w_failures w = w_failures w0
        \<and> x_numWarnings g + of_nat (of_kind (x_channel g0) Level_Warning (pending_messages (w_log w))) = of_nat (tally s0 (x_channel g0) Level_Warning acts)
        \<and> x_numErrors g + of_nat (of_kind (x_channel g0) Level_Error (pending_messages (w_log w))) = of_nat (tally s0 (x_channel g0) Level_Error acts))"

lemma guarded_dispatch_keeps:
  assumes "guarded key (x_channel g0) s0" "scope_inv key s0 g0 w0 acts (g, w)"
  shows "scope_inv key s0 g0 w0 acts (guarded_dispatch key (g, w)) \<and> pending_messages (w_log (snd (guarded_dispatch key (g, w)))) = []"
proof -
  let ?s = "w_log w"
  have setup': "same_setup s0 ?s" and guard: "same_guard g0 g" using assms(2) by (simp_all add: scope_inv_def)
  from guarded_same [OF setup' assms(1)] have ok: "channels_ok ?s" "guard_listens key ?s" by (simp_all add: guarded_def)
  obtain g' printed where fold: "fold Count (observed key ?s (DispatchListeners ?s)) (g, w_printed w) = (g', printed)" by fastforce
  have channel: "x_channel g = x_channel g0" using same_guard_fields [OF guard] by simp
  note counted' = fold_Count [OF fold, unfolded dispatch_observed [OF ok] of_kind_simps channel]
  have "same_guard g0 g'" using guard counted' by (simp add: same_guard_def)
  then show ?thesis using assms(2) counted' fold dispatch_clears [of ?s] same_setup_trans [OF setup' dispatch_clears(1)]
    by (simp add: scope_inv_def guarded_dispatch_def Let_def)
qed

lemma tally_snoc: "tally s channel lv (acts @ [a]) = tally s channel lv acts + (if counts s channel lv a then 1 else 0)"
  by (simp add: tally_def)

lemma counts_same: "same_setup s s' \<Longrightarrow> counts s' channel lv a = counts s channel lv a"
  by (simp add: counts_def same_setup_def split: test_action.splits)

lemma action_keeps:
  assumes "guarded key (x_channel g0) s0" "scope_inv key s0 g0 w0 acts (g, w)" "on_channels s0 a"
  shows "scope_inv key s0 g0 w0 (acts @ [a]) (run_test_action key a (g, w))"
proof (cases a)
  case Dispatches
  then show ?thesis using guarded_dispatch_keeps [OF assms(1,2)] by (simp add: scope_inv_def tally_snoc counts_def split: prod.splits)
next
  case (Logs now elapsed wall p level target body)
  let ?s = "w_log w" and ?c = "x_channel g0"
  have setup': "same_setup s0 ?s" using assms(2) by (simp add: scope_inv_def)
  from guarded_same [OF setup' assms(1)] have ok: "guarded key ?c ?s" .
  have p: "p \<in> snd ` set (loggers ?s)" using assms(3) setup' Logs by (simp add: on_channels_def same_setup_def)
  have count: "of_kind ?c lv (pending_messages (Write now elapsed wall p level target body ?s)) = of_kind ?c lv (pending_messages ?s) + (if counts s0 ?c lv a then 1 else 0)"
    if "lv = Level_Warning \<or> lv = Level_Error" for lv
    using Write_counts [OF ok p that] counts_same [OF setup'] Logs by simp
  have "same_setup s0 (Write now elapsed wall p level target body ?s)" by (rule same_setup_trans [OF setup' Write_setup])
  then show ?thesis using assms(2) count [of Level_Warning] count [of Level_Error] Logs
    by (auto simp: scope_inv_def tally_snoc add.assoc [symmetric])
qed

lemma actions_keep:
  assumes "guarded key (x_channel g0) s0" "scope_inv key s0 g0 w0 acts gw" "list_all (on_channels s0) as"
  shows "scope_inv key s0 g0 w0 (acts @ as) (fold (run_test_action key) as gw)"
  using assms(2,3)
proof (induction as arbitrary: acts gw)
  case (Cons a as)
  obtain g w where gw: "gw = (g, w)" by (cases gw)
  then have "scope_inv key s0 g0 w0 (acts @ [a]) (run_test_action key a gw)" using action_keeps [OF assms(1)] Cons.prems by simp
  from Cons.IH [OF this] Cons.prems show ?case by simp
qed simp

text \<open>When a guard can be armed.\<close>

definition can_arm :: "(string \<Rightarrow> u64) \<Rightarrow> nat \<Rightarrow> string \<Rightarrow> test_world \<Rightarrow> bool" where
  "can_arm hash key channel w \<longleftrightarrow> m_initialized (w_log w) \<and> \<not> w_isAnyArmed w \<and> channels_ok (w_log w) \<and> unused key (w_log w)
     \<and> list_all (\<lambda>(i, p). i = hash (m_name (logs (w_log w) p))) (loggers (w_log w))
     \<and> channel \<in> set (GetChannelNames (w_log w)) \<and> GetLogLevel hash channel (w_log w) AND counted = counted"

lemma named_channel:
  assumes "can_arm hash key channel w" "p \<in> snd ` set (loggers (w_log w))" "m_name (logs (w_log w) p) = channel"
  shows "m_levelMask (logs (w_log w) p) AND counted = counted"
proof -
  obtain i where "(i, p) \<in> set (loggers (w_log w))" using assms(2) by force
  moreover from this have "i = hash channel" using assms(1,3) by (auto simp: can_arm_def list_all_iff)
  moreover have "distinct (map fst (loggers (w_log w)))" using assms(1) by (simp add: can_arm_def channels_ok_def)
  ultimately have "find_logger (hash channel) (w_log w) = Some p" by (simp add: find_logger_def)
  then show ?thesis using assms(1) by (simp add: can_arm_def GetLogLevel_def)
qed

lemma armed_log:
  assumes "can_arm hash key channel w"
  shows "\<exists>g0 w0. CExpectedLog_ctor hash key channel numWarnings numErrors w = (g0, w0)
    \<and> x_channel g0 = channel \<and> x_numExpectedWarnings g0 = numWarnings \<and> x_numExpectedErrors g0 = numErrors
    \<and> x_savedTargets g0 = m_enabledTargets (w_log w) \<and> x_isArmed g0 \<and> w_failures w0 = w_failures w
    \<and> guarded key channel (w_log w0) \<and> loggers (w_log w0) = loggers (w_log w) \<and> (\<forall>p. m_name (logs (w_log w0) p) = m_name (logs (w_log w) p))
    \<and> listeners (w_log w0) = listeners (w_log w) @ [\<lparr>l_key = key, l_format = Formatted\<rparr>]
    \<and> scope_inv key (w_log w0) g0 w0 [] (g0, w0)"
proof -
  let ?s = "w_log w"
  let ?silenced = "(m_enabledTargets ?s OR Target_Listeners) AND NOT Target_Terminal"
  let ?d = "DispatchListeners (SetEnabledTargets ?silenced ?s)"
  let ?s' = "register_under_lock key Formatted Skip ?d"
  have armed: "m_initialized ?s" "\<not> w_isAnyArmed w" "channel \<in> set (GetChannelNames ?s)" "GetLogLevel hash channel ?s AND counted = counted"
    and ok: "channels_ok ?s" and free: "unused key ?s"
    using assms by (simp_all add: can_arm_def)
  note same = dispatch_clears(1) [of "SetEnabledTargets ?silenced ?s", unfolded same_setup_def]
  have d: "m_initialized ?d" "m_enabledTargets ?d = ?silenced" "loggers ?d = loggers ?s" "listeners ?d = listeners ?s"
      "\<And>p. m_name (logs ?d p) = m_name (logs ?s p)" "\<And>p. m_levelMask (logs ?d p) = m_levelMask (logs ?s p)"
      "\<And>p. m_listeners (logs ?d p) = m_listeners (logs ?s p)"
    using same armed(1) by (simp_all add: SetEnabledTargets_def)
  have r: "m_initialized ?s'" "m_enabledTargets ?s' = ?silenced" "loggers ?s' = loggers ?s" "logs ?s' = logs ?d"
      "listeners ?s' = listeners ?s @ [\<lparr>l_key = key, l_format = Formatted\<rparr>]"
    using d by (simp_all add: register_under_lock_def Let_def)
  have "filter (\<lambda>l. l_key l = key) (listeners ?s) = []" using free by (auto simp: unused_def filter_empty_conv)
  then have "guard_listens key ?s'" using free by (simp add: guard_listens_def r d unused_def)
  then have g: "guarded key channel ?s'"
    using ok named_channel [OF assms] by (simp add: guarded_def r d channels_ok_def silenced_listens)
  have "pending_messages ?s' = pending_messages ?d" using r(3,4) d(3) by (simp add: pending_messages_def)
  then have "pending_messages ?s' = []" by (simp add: dispatch_clears)
  then show ?thesis using armed g r d
    by (simp add: CExpectedLog_ctor_def Let_def RegisterListener_def scope_inv_def same_guard_def tally_def)
qed

lemma tally_same: "loggers s' = loggers s \<Longrightarrow> \<forall>p. m_name (logs s' p) = m_name (logs s p) \<Longrightarrow> tally s' c lv acts = tally s c lv acts"
proof -
  assume same: "\<forall>p. m_name (logs s' p) = m_name (logs s p)"
  then have "counts s' c lv = counts s c lv" by (auto simp: counts_def split: test_action.splits)
  then show ?thesis by (simp add: tally_def)
qed

text \<open>C34.
  
  A guard counts exactly: whatever is written to registered channels in its scope, and wherever the test dispatches, the test fails at the end of the scope exactly when the number of
  warnings, or of errors, written to the listeners of its channel is not the expected one; and the listeners and the enabled targets are left as they were.
\<close>

theorem expected_log_exact:
  assumes "can_arm hash key channel w" and "list_all (on_channels (w_log w)) acts"
  shows "let w' = CExpectedLog_dtor key (fold (run_test_action key) acts (CExpectedLog_ctor hash key channel numWarnings numErrors w))
         in w_failures w' = w_failures w @ (if of_nat (tally (w_log w) channel Level_Warning acts) = numWarnings then [] else [WarningCount])
                                       @ (if of_nat (tally (w_log w) channel Level_Error acts) = numErrors then [] else [ErrorCount])
          \<and> m_enabledTargets (w_log w') = m_enabledTargets (w_log w) \<and> listeners (w_log w') = listeners (w_log w) \<and> \<not> w_isAnyArmed w'"
proof -
  obtain g0 w0 where made: "CExpectedLog_ctor hash key channel numWarnings numErrors w = (g0, w0)"
    and g0: "x_channel g0 = channel" "x_numExpectedWarnings g0 = numWarnings" "x_numExpectedErrors g0 = numErrors"
      "x_savedTargets g0 = m_enabledTargets (w_log w)" "x_isArmed g0"
    and w0: "w_failures w0 = w_failures w" "guarded key channel (w_log w0)" "loggers (w_log w0) = loggers (w_log w)"
      "\<forall>p. m_name (logs (w_log w0) p) = m_name (logs (w_log w) p)"
      "listeners (w_log w0) = listeners (w_log w) @ [\<lparr>l_key = key, l_format = Formatted\<rparr>]" "scope_inv key (w_log w0) g0 w0 [] (g0, w0)"
    using armed_log [OF assms(1)] by blast
  have "on_channels (w_log w0) = on_channels (w_log w)" using w0(3) by (auto simp: on_channels_def split: test_action.splits)
  then have acts: "list_all (on_channels (w_log w0)) acts" using assms(2) by simp
  have guarded: "guarded key (x_channel g0) (w_log w0)" using w0(2) g0(1) by simp
  obtain g w1 where body: "fold (run_test_action key) acts (g0, w0) = (g, w1)" by fastforce
  have inv: "scope_inv key (w_log w0) g0 w0 acts (g, w1)" using actions_keep [OF guarded w0(6) acts] body by simp
  obtain g' w2 where final: "guarded_dispatch key (g, w1) = (g', w2)" by fastforce
  have done_inv: "scope_inv key (w_log w0) g0 w0 acts (g', w2)" "pending_messages (w_log w2) = []"
    using guarded_dispatch_keeps [OF guarded inv] final by simp_all
  have armed: "x_isArmed g" using inv g0(5) same_guard_fields [of g0 g] by (simp add: scope_inv_def)
  have fields: "x_numExpectedWarnings g' = numWarnings" "x_numExpectedErrors g' = numErrors" "x_savedTargets g' = m_enabledTargets (w_log w)"
    using done_inv(1) g0 same_guard_fields [of g0 g'] by (simp_all add: scope_inv_def)
  have counts': "x_numWarnings g' = of_nat (tally (w_log w) channel Level_Warning acts)" "x_numErrors g' = of_nat (tally (w_log w) channel Level_Error acts)"
    using done_inv g0(1) tally_same [OF w0(3,4)] by (simp_all add: scope_inv_def)
  have "listeners (w_log w2) = listeners (w_log w) @ [\<lparr>l_key = key, l_format = Formatted\<rparr>]" "w_failures w2 = w_failures w"
    using done_inv(1) w0(1,5) by (simp_all add: scope_inv_def same_setup_def)
  moreover have "remove_key key (listeners (w_log w)) = listeners (w_log w)"
    using assms(1) by (auto simp: can_arm_def unused_def remove_key_def filter_id_conv)
  ultimately show ?thesis unfolding made body Let_def
    by (simp add: CExpectedLog_dtor_def armed final fields counts' SetEnabledTargets_def UnregisterListener_def) (simp add: remove_key_def)
qed

subsection \<open>What a guard loses, and muted errors\<close>

text \<open>
  What is written to the terminal only while a guard is armed is lost: the terminal is off, no listener is handed it, and so it is
  neither counted nor printed at the end of the scope.
\<close>

theorem terminal_messages_vanish:
  "m_initialized s \<Longrightarrow> m_enabledTargets s = (saved OR Target_Listeners) AND NOT Target_Terminal \<Longrightarrow>
   Write now elapsed wall p level Target_Terminal text s = s"
proof -
  assume init: "m_initialized s" and silenced: "m_enabledTargets s = (saved OR Target_Listeners) AND NOT Target_Terminal"
  have "Target_Terminal AND m_enabledTargets s = 0" using silenced_terminal [of saved] unfolding silenced by (simp only: and.commute)
  then show ?thesis using init by (simp add: Write_def Let_def)
qed

lemma SetLogLevel_twice:
  "snd (SetLogLevel hash channel new (snd (SetLogLevel hash channel old s))) = snd (SetLogLevel hash channel new s)"
  by (auto simp: SetLogLevel_def find_logger_def log_upd_def SetLevelMask_def split: option.splits)

lemma SetLogLevel_same: "snd (SetLogLevel hash channel (GetLogLevel hash channel s) s) = s"
  by (auto simp: SetLogLevel_def GetLogLevel_def log_upd_def SetLevelMask_def split: option.splits)

text \<open>
  The guard that mutes the errors of a channel: no error written to the channel in its scope has any effect, and the levels are restored at its end; for a channel that is not
  registered it changes nothing and the test fails.
\<close>

theorem expected_errors_muted:
  "case CExpectedLogErrors_ctor hash channel w of (g, w') \<Rightarrow>
     w_log (CExpectedLogErrors_dtor hash g w') = w_log w
     \<and> (case find_logger (hash channel) (w_log w) of
          None \<Rightarrow> w_log w' = w_log w \<and> w_failures w' = w_failures w @ [NothingMuted]
        | Some p \<Rightarrow> w_failures w' = w_failures w \<and> Write now elapsed wall p Level_Error target text (w_log w') = w_log w')"
proof -
  have muted: "Level_Error AND (savedLevel AND NOT Level_Error) = 0" for savedLevel :: ELogLevel
    by (rule bit_word_eqI) (simp add: bit_and_iff bit_not_iff)
  let ?muted = "snd (SetLogLevel hash channel (GetLogLevel hash channel (w_log w) AND NOT Level_Error) (w_log w))"
  have ctor: "CExpectedLogErrors_ctor hash channel w =
      ((channel, GetLogLevel hash channel (w_log w)),
       w\<lparr>w_log := ?muted, w_failures := w_failures w @ (if find_logger (hash channel) (w_log w) = None then [NothingMuted] else [])\<rparr>)"
    by (simp add: CExpectedLogErrors_ctor_def SetLogLevel_def Let_def split: option.splits)
  have "Write now elapsed wall p Level_Error target text ?muted = ?muted" if "find_logger (hash channel) (w_log w) = Some p" for p
    using that muted by (simp add: SetLogLevel_def log_upd_def SetLevelMask_def Write_def Let_def Level_None_def)
  then show ?thesis
    by (auto simp: ctor CExpectedLogErrors_dtor_def SetLogLevel_twice SetLogLevel_same split: option.splits) (simp add: SetLogLevel_def)
qed

subsection \<open>A test with a guard\<close>

definition test_demo :: test_world where
  "test_demo = \<lparr>w_log = log_demo, w_isAnyArmed = False, w_failures = [], w_printed = []\<rparr>"

definition demo_test :: "test_action list" where
  "demo_test = [Logs 6 6 [] 1 Level_Warning Target_All ''low'', Dispatches, Logs 7 7 [] 1 Level_Error Target_All ''high'', Logs 8 8 [] 1 Level_Error Target_Terminal ''lost'']"

lemma expected_log_exact_witness:
  "w_failures (CExpectedLog_dtor 3 (fold (run_test_action 3) demo_test (CExpectedLog_ctor (\<lambda>_. 7) 3 ''net'' 1 2 test_demo))) = [ErrorCount]"
proof -
  have name: "m_name (logs log_demo 1) = ''net''" "m_levelMask (logs log_demo 1) = Level_All" "m_initialized log_demo"
    by (simp_all add: log_demo_def log_start_def CLog_ctor_def Register_def IsReservedChannelName_def Log_Initialize_def
      LoadConfig_def Write_def DispatchPending_def log_upd_def find_logger_def level_defs Target_Listeners_def Target_All_def Target_Terminal_def Target_File_def Let_def)
  have arm: "can_arm (\<lambda>_. 7) 3 ''net'' test_demo"
    using log_demo_facts(1,4) name
    by (simp add: can_arm_def test_demo_def channels_ok_def GetChannelNames_def GetLogLevel_def find_logger_def counted_def level_defs)
  have acts: "list_all (on_channels (w_log test_demo)) demo_test"
    using log_demo_facts(4) by (simp add: demo_test_def on_channels_def test_demo_def)
  have "tally log_demo ''net'' Level_Warning demo_test = 1" "tally log_demo ''net'' Level_Error demo_test = 1"
    by (simp_all add: tally_def demo_test_def counts_def name [unfolded One_nat_def] Target_All_def Target_Terminal_def Target_File_def Target_Listeners_def)
  then show ?thesis
    using expected_log_exact [OF arm acts, of 1 2] by (simp add: Let_def test_demo_def)
qed

end
