(* ===== verification/Startup.thy ===== *)
theory Startup
  imports Module_Runtime Command_Registry Job_System Linear_Allocator Expected_Log
begin

section \<open>Start-up and shut-down of the core\<close>

text \<open>
  Models \<^verbatim>\<open>private/init/init.cpp\<close>, \<^verbatim>\<open>private/memory/memory.cpp\<close> and the core's module in \<^verbatim>\<open>private/module/module.cpp\<close>: what they do with the command registry, the job system,
  the log, the allocator of a frame and rpmalloc, whose calls are recorded.  The table of memory statistics is global: both components that update it are given the
  engine's.  An assertion that fails is \<open>None\<close>.  The core is one of the modules that the runtime starts and ends, and so the
  calls in a trace of the runtime are the calls it gets.
\<close>

datatype rpmalloc_call = Rp_Initialize | Rp_ThreadInitialize | Rp_ThreadFinalize | Rp_Finalize

record ('c, 'cb, 'w) engine =
  e_registry :: "('c, 'cb) CRegistry"
  e_jobs :: "'w job_system"
  e_frame :: CLinearAllocator
  e_tracking :: tracking
  e_log :: log_state
  e_rpmalloc :: "rpmalloc_call list"
  e_messages :: "string list"
  m_numWorkerThreads :: size_t

text \<open>\<open>result\<close> is what \<open>rpmalloc_initialize\<close> returns.\<close>

definition Memory_Initialize :: "int \<Rightarrow> ('c, 'cb, 'w) engine \<Rightarrow> bool \<times> ('c, 'cb, 'w) engine" where
  "Memory_Initialize result e =
     (let e1 = e\<lparr>e_rpmalloc := e_rpmalloc e @ [Rp_Initialize]\<rparr>
      in if result \<noteq> 0 then (False, e1\<lparr>e_messages := e_messages e1 @ [''Failed to initialize rpmalloc'']\<rparr>)
         else (True, e1\<lparr>e_rpmalloc := e_rpmalloc e1 @ [Rp_ThreadInitialize], e_messages := e_messages e1 @ [''Initialized'']\<rparr>))"

definition Memory_Terminate :: "('c, 'cb, 'w) engine \<Rightarrow> ('c, 'cb, 'w) engine" where
  "Memory_Terminate e =
     e\<lparr>e_rpmalloc := e_rpmalloc e @ [Rp_ThreadFinalize, Rp_Finalize], e_messages := e_messages e @ [''Terminated'']\<rparr>"

definition Command_Terminate :: "CategoryId \<Rightarrow> size_t \<Rightarrow> ('c, 'cb, 'w) engine \<Rightarrow> ('c, 'cb, 'w) engine option" where
  "Command_Terminate GroupCategory sizeof_CGroup e =
     map_option (\<lambda>r. e\<lparr>e_registry := r, e_tracking := reg_tracker r\<rparr>)
       (Registry_Terminate GroupCategory sizeof_CGroup ((e_registry e)\<lparr>reg_tracker := e_tracking e\<rparr>))"

definition Threading_Initialize :: "u32 \<Rightarrow> size_t \<Rightarrow> ('c, 'cb, 'w) engine \<Rightarrow> bool \<times> ('c, 'cb, 'w) engine" where
  "Threading_Initialize hardware numThreads e = (case Initialize hardware numThreads (e_jobs e) of (ok, js) \<Rightarrow> (ok, e\<lparr>e_jobs := js\<rparr>))"

definition Threading_Terminate :: "('c, 'cb, 'w) engine \<Rightarrow> ('c, 'cb, 'w) engine" where
  "Threading_Terminate e = e\<lparr>e_jobs := Terminate (e_jobs e)\<rparr>"

definition Tge_Terminate :: "CategoryId \<Rightarrow> size_t \<Rightarrow> ('c, 'cb, 'w) engine \<Rightarrow> ('c, 'cb, 'w) engine option" where
  "Tge_Terminate GroupCategory sizeof_CGroup e =
     map_option (\<lambda>e1. Memory_Terminate (Threading_Terminate e1)) (Command_Terminate GroupCategory sizeof_CGroup e)"

definition Tge_Initialize ::
    "CategoryId \<Rightarrow> size_t \<Rightarrow> int \<Rightarrow> u32 \<Rightarrow> size_t \<Rightarrow> ('c, 'cb, 'w) engine \<Rightarrow> (bool \<times> ('c, 'cb, 'w) engine) option" where
  "Tge_Initialize GroupCategory sizeof_CGroup result hardware numThreads e =
     (let (success1, e1) = Memory_Initialize result e;
          (success2, e2) = (if success1 then Threading_Initialize hardware numThreads e1 else (False, e1))
      in if \<not> success2 then map_option (\<lambda>e3. (success2, e3)) (Tge_Terminate GroupCategory sizeof_CGroup e2)
         else Some (success2, e2))"

definition Tge_Update :: "('c, 'cb, 'w) engine \<Rightarrow> ('c, 'cb, 'w) engine option" where
  "Tge_Update e =
     (let e1 = e\<lparr>e_log := DispatchListeners (e_log e)\<rparr>
      in map_option (\<lambda>a. e1\<lparr>e_frame := a, e_tracking := lin_tracker a\<rparr>) (Linear_Reset ((e_frame e1)\<lparr>lin_tracker := e_tracking e1\<rparr>)))"

text \<open>The core as a module: the calls of the runtime that reach it.\<close>

definition Core_Initialize ::
    "CategoryId \<Rightarrow> size_t \<Rightarrow> int \<Rightarrow> u32 \<Rightarrow> ('c, 'cb, 'w) engine \<Rightarrow> (bool \<times> ('c, 'cb, 'w) engine) option" where
  "Core_Initialize GroupCategory sizeof_CGroup result hardware e =
     Tge_Initialize GroupCategory sizeof_CGroup result hardware (m_numWorkerThreads e) e"

definition Core_SetNumWorkerThreads :: "size_t \<Rightarrow> ('c, 'cb, 'w) engine \<Rightarrow> ('c, 'cb, 'w) engine" where
  "Core_SetNumWorkerThreads n e = e\<lparr>m_numWorkerThreads := n\<rparr>"

text \<open>
  One call of a trace: those to the core run its code, whatever else the call does is \<open>other\<close>, code of other modules.
\<close>

definition core_call ::
    "module_ptr \<Rightarrow> CategoryId \<Rightarrow> size_t \<Rightarrow> int \<Rightarrow> u32 \<Rightarrow> ('f runtime_call \<Rightarrow> ('c, 'cb, 'w) engine \<Rightarrow> ('c, 'cb, 'w) engine)
     \<Rightarrow> 'f runtime_call \<Rightarrow> ('c, 'cb, 'w) engine \<Rightarrow> ('c, 'cb, 'w) engine option" where
  "core_call core GroupCategory sizeof_CGroup result hardware other c e =
     (case c of
        SetNumWorkerThreads n \<Rightarrow> Some (Core_SetNumWorkerThreads n e)
      | CallInitialize m \<Rightarrow>
          if m = core then map_option snd (Core_Initialize GroupCategory sizeof_CGroup result hardware e) else Some (other c e)
      | CallTerminate m \<Rightarrow> if m = core then Tge_Terminate GroupCategory sizeof_CGroup e else Some (other c e)
      | CallUpdate m phase delta \<Rightarrow> if m = core then Tge_Update e else Some (other c e)
      | _ \<Rightarrow> Some (other c e))"

fun core_run ::
    "module_ptr \<Rightarrow> CategoryId \<Rightarrow> size_t \<Rightarrow> int \<Rightarrow> u32 \<Rightarrow> ('f runtime_call \<Rightarrow> ('c, 'cb, 'w) engine \<Rightarrow> ('c, 'cb, 'w) engine)
     \<Rightarrow> 'f runtime_call list \<Rightarrow> ('c, 'cb, 'w) engine \<Rightarrow> ('c, 'cb, 'w) engine option" where
  "core_run core cat n result hardware other [] e = Some e"
| "core_run core cat n result hardware other (c # cs) e =
     Option.bind (core_call core cat n result hardware other c e) (core_run core cat n result hardware other cs)"

subsection \<open>What the core does by itself\<close>

lemma release_groups_total: "unat cat < 256 \<Longrightarrow> length (gCategoryStats tr) = 256 \<Longrightarrow> \<exists>tr'. release_groups cat n gs tr = Some tr' \<and> length (gCategoryStats tr') = 256"
proof (induction gs arbitrary: tr)
  case (Cons g gs)
  then obtain tr1 where "TrackDeallocation cat n tr = Some tr1" "length (gCategoryStats tr1) = 256"
    by (simp add: TrackDeallocation_def Let_def)
  then show ?case using Cons by simp
qed simp

lemma Tge_Terminate_total:
  assumes "unat cat < 256" and "length (gCategoryStats (e_tracking e)) = 256"
  obtains e' where "Tge_Terminate cat n e = Some e'" "length (gCategoryStats (e_tracking e')) = 256"
    "e_rpmalloc e' = e_rpmalloc e @ [Rp_ThreadFinalize, Rp_Finalize]" "reg_groups (e_registry e') = []"
    "gThreadPool (e_jobs e') = None" "\<not> gJobScheduler (e_jobs e')"
proof -
  obtain tr where tr: "release_groups cat n (reg_groups (e_registry e)) (e_tracking e) = Some tr" "length (gCategoryStats tr) = 256"
    using release_groups_total [OF assms] by blast
  show thesis
    by (rule that [of "the (Tge_Terminate cat n e)"])
      (simp_all add: Tge_Terminate_def Command_Terminate_def Registry_Terminate_def tr Memory_Terminate_def Threading_Terminate_def Terminate_def
        Terminate_pool_def Let_def split: option.splits)
qed

lemma Core_Initialize_total:
  assumes "unat cat < 256" and "length (gCategoryStats (e_tracking e)) = 256"
  obtains e' where "Core_Initialize cat n result hardware e = Some (result = 0, e')" "length (gCategoryStats (e_tracking e')) = 256"
    "e_rpmalloc e' = e_rpmalloc e @ Rp_Initialize # (if result = 0 then [Rp_ThreadInitialize] else [Rp_ThreadFinalize, Rp_Finalize])"
proof (cases "result = 0")
  case True
  then show thesis
    using assms(2) by (intro that [of "snd (the (Core_Initialize cat n result hardware e))"])
      (simp_all add: Core_Initialize_def Tge_Initialize_def Memory_Initialize_def Threading_Initialize_def Initialize_def Let_def)
next
  case False
  let ?e = "snd (Memory_Initialize result e)"
  have "length (gCategoryStats (e_tracking ?e)) = 256" using assms(2) False by (simp add: Memory_Initialize_def Let_def)
  from Tge_Terminate_total [OF assms(1) this, of n] obtain e' where e': "Tge_Terminate cat n ?e = Some e'" "length (gCategoryStats (e_tracking e')) = 256"
      "e_rpmalloc e' = e_rpmalloc ?e @ [Rp_ThreadFinalize, Rp_Finalize]" by blast
  have "Core_Initialize cat n result hardware e = Some (False, e')"
    using e'(1) False by (simp add: Core_Initialize_def Tge_Initialize_def Memory_Initialize_def Let_def)
  then show thesis using False e' by (intro that [of e']) (simp_all add: Memory_Initialize_def Let_def)
qed

text \<open>
  The core by itself: a start that succeeds sets up threads, one that fails takes everything back; and after the end nothing is left of groups and threads.
\<close>

theorem core_start_and_end:
  assumes "unat cat < 256" and "length (gCategoryStats (e_tracking e)) = 256"
  shows "\<exists>e1 e2. Core_Initialize cat n result hardware e = Some (result = 0, e1) \<and> Tge_Terminate cat n e1 = Some e2
    \<and> reg_groups (e_registry e2) = [] \<and> gThreadPool (e_jobs e2) = None \<and> \<not> gJobScheduler (e_jobs e2)
    \<and> (result = 0 \<longrightarrow> GetNumThreads (e_jobs e1) = (if m_numWorkerThreads e = AutoThreadCount then if hardware = 0 then 4 else ucast hardware else m_numWorkerThreads e))"
proof -
  obtain e1 where e1: "Core_Initialize cat n result hardware e = Some (result = 0, e1)" "length (gCategoryStats (e_tracking e1)) = 256"
    using Core_Initialize_total [OF assms] by metis
  obtain e2 where e2: "Tge_Terminate cat n e1 = Some e2" "reg_groups (e_registry e2) = []" "gThreadPool (e_jobs e2) = None" "\<not> gJobScheduler (e_jobs e2)"
    using Tge_Terminate_total [OF assms(1) e1(2)] by metis
  have "e_jobs e1 = snd (Initialize hardware (m_numWorkerThreads e) (e_jobs e))" if "result = 0"
    using e1(1) that by (auto simp: Core_Initialize_def Tge_Initialize_def Memory_Initialize_def Threading_Initialize_def Let_def split: prod.splits if_splits)
  with e1 e2 GetNumThreads_Initialize [of hardware "m_numWorkerThreads e" "e_jobs e"] show ?thesis by auto
qed

subsection \<open>The core under the runtime\<close>

definition core_calls :: "module_ptr \<Rightarrow> 'f runtime_call list \<Rightarrow> 'f runtime_call list" where
  "core_calls core trace = filter (\<lambda>c. c = CallInitialize core \<or> c = CallTerminate core) trace"

lemma core_calls_simps [simp]:
  "core_calls core [] = []" "core_calls core (xs @ ys) = core_calls core xs @ core_calls core ys"
  "core_calls core (c # xs) = (if c = CallInitialize core \<or> c = CallTerminate core then [c] else []) @ core_calls core xs"
  by (simp_all add: core_calls_def)

lemma core_calls_neutral:
  "(\<And>c. c \<in> set trace \<Longrightarrow> c \<noteq> CallInitialize core \<and> c \<noteq> CallTerminate core) \<Longrightarrow> core_calls core trace = []"
  by (auto simp: core_calls_def filter_empty_conv)

lemma core_calls_notes [simp]:
  "core_calls core (NotifyDependentsInitialized t rt m) = []" "core_calls core (map GraphError es) = []"
  "core_calls core (map (\<lambda>d. OnDependencyTerminating d p) ds) = []" "core_calls core (ValidateSchedule t rt) = []"
  by (rule core_calls_neutral; auto simp: NotifyDependentsInitialized_def ValidateSchedule_def)+

lemma core_calls_schedule: "register_schedule t es rt = (rt', log) \<Longrightarrow> core_calls core log = []"
  by (induction es arbitrary: rt rt' log) (auto simp: RegisterUpdate_def split: prod.splits if_splits)

lemma initialize_loop_other:
  assumes "initialize_loop t init_ok ms rt trace = (ok, rt', trace')" "core \<notin> set ms"
  shows "core_calls core trace' = core_calls core trace \<and> (core \<in> set (m_activeModules rt') \<longleftrightarrow> core \<in> set (m_activeModules rt))"
  using assms by (induction ms arbitrary: rt trace) (auto simp: Let_def split: if_splits)

lemma initialize_loop_distinct:
  assumes "initialize_loop t init_ok ms rt trace = (ok, rt', trace')" "distinct (m_activeModules rt @ ms)"
  shows "distinct (m_activeModules rt')"
  using assms(1) by (cases rule: initialize_loop_trace) (use assms(2) in auto)

lemma initialize_loop_core:
  assumes "initialize_loop t init_ok ms rt trace = (ok, rt', trace')" "distinct (m_activeModules rt @ ms)" "core \<notin> set (m_activeModules rt)"
    and works: "\<And>tr. init_ok tr core = works"
  shows "\<exists>cs. core_calls core trace' = core_calls core trace @ cs \<and>
     (if core \<in> set (m_activeModules rt') then works \<and> cs = [CallInitialize core]
      else cs = [] \<or> \<not> works \<and> cs = [CallInitialize core, CallTerminate core])"
  using assms(1-3)
proof (induction ms arbitrary: rt trace)
  case (Cons m ms)
  let ?rt = "rt\<lparr>m_activeModules := m_activeModules rt @ [m]\<rparr>"
  let ?trace = "trace @ CallInitialize m # NotifyDependentsInitialized t ?rt m"
  show ?case
  proof (cases "init_ok trace m")
    case False
    then show ?thesis using Cons.prems works [of trace] by (cases "m = core") auto
  next
    case True
    then have rest: "initialize_loop t init_ok ms ?rt ?trace = (ok, rt', trace')" using Cons.prems(1) by (simp add: Let_def)
    show ?thesis
    proof (cases "m = core")
      case True
      then have "core \<notin> set ms" using Cons.prems(2) by simp
      from initialize_loop_other [OF rest this] True show ?thesis using \<open>init_ok trace m\<close> works [of trace] by simp
    next
      case False
      from Cons.IH [OF rest] Cons.prems(2,3) False show ?thesis by auto
    qed
  qed
qed simp

lemma terminate_loop_core:
  "distinct active \<Longrightarrow> core_calls core (terminate_loop t active trace) = core_calls core trace @ (if core \<in> set active then [CallTerminate core] else [])"
proof (induction t active trace rule: terminate_loop.induct)
  case (1 t active trace)
  show ?case
  proof (cases "active = []")
    case False
    then obtain xs x where xs: "active = xs @ [x]" by (metis append_butlast_last_id)
    from 1(1) [OF False refl refl] 1(2) xs show ?thesis by (auto simp: terminate_loop.simps [of t "xs @ [x]"] Let_def)
  qed (simp add: terminate_loop.simps)
qed

text \<open>What rpmalloc is told for the calls to the core.\<close>

fun rp_effect :: "bool \<Rightarrow> 'f runtime_call \<Rightarrow> rpmalloc_call list" where
  "rp_effect works (CallInitialize m) = Rp_Initialize # (if works then [Rp_ThreadInitialize] else [Rp_ThreadFinalize, Rp_Finalize])"
| "rp_effect works (CallTerminate m) = [Rp_ThreadFinalize, Rp_Finalize]"
| "rp_effect works c = []"

lemma Tge_Update_total:
  assumes "length (gCategoryStats (e_tracking e)) = 256"
  shows "\<exists>e'. Tge_Update e = Some e' \<and> length (gCategoryStats (e_tracking e')) = 256 \<and> e_rpmalloc e' = e_rpmalloc e"
proof -
  have "\<exists>tr. TrackDeallocation Category_Other b (e_tracking e) = Some tr \<and> length (gCategoryStats tr) = 256" for b
    using assms by (simp add: TrackDeallocation_def Category_Other_def Let_def)
  then obtain tr where "TrackDeallocation Category_Other (m_currentUsage (e_frame e)) (e_tracking e) = Some tr" "length (gCategoryStats tr) = 256" by blast
  with assms show ?thesis by (simp add: Tge_Update_def Linear_Reset_def Let_def)
qed

definition minds_own_business :: "('f runtime_call \<Rightarrow> ('c, 'cb, 'w) engine \<Rightarrow> ('c, 'cb, 'w) engine) \<Rightarrow> bool" where
  "minds_own_business other \<longleftrightarrow> (\<forall>c e. e_rpmalloc (other c e) = e_rpmalloc e
     \<and> length (gCategoryStats (e_tracking (other c e))) = length (gCategoryStats (e_tracking e)))"

lemma core_call_effect:
  assumes "unat cat < 256" "length (gCategoryStats (e_tracking e)) = 256" "minds_own_business other"
  shows "\<exists>e'. core_call core cat n result hardware other c e = Some e' \<and> length (gCategoryStats (e_tracking e')) = 256
    \<and> e_rpmalloc e' = e_rpmalloc e @ concat (map (rp_effect (result = 0)) (core_calls core [c]))"
proof -
  have rest: "e_rpmalloc (other d e) = e_rpmalloc e" "length (gCategoryStats (e_tracking (other d e))) = 256" for d
    using assms(2,3) by (simp_all add: minds_own_business_def)
  show ?thesis
  proof (cases c)
    case (CallInitialize m)
    obtain e' where "Core_Initialize cat n result hardware e = Some (result = 0, e')" "length (gCategoryStats (e_tracking e')) = 256"
      "e_rpmalloc e' = e_rpmalloc e @ Rp_Initialize # (if result = 0 then [Rp_ThreadInitialize] else [Rp_ThreadFinalize, Rp_Finalize])"
      by (rule Core_Initialize_total [OF assms(1,2)])
    with CallInitialize rest show ?thesis by (cases "m = core") (simp_all add: core_call_def)
  next
    case (CallTerminate m)
    obtain e' where "Tge_Terminate cat n e = Some e'" "length (gCategoryStats (e_tracking e')) = 256" "e_rpmalloc e' = e_rpmalloc e @ [Rp_ThreadFinalize, Rp_Finalize]"
      by (rule Tge_Terminate_total [OF assms(1,2)])
    with CallTerminate rest show ?thesis by (cases "m = core") (simp_all add: core_call_def)
  next
    case (CallUpdate m phase delta)
    then show ?thesis using Tge_Update_total [OF assms(2)] rest by (cases "m = core") (auto simp: core_call_def)
  next
    case (SetNumWorkerThreads k)
    then show ?thesis using assms(2) by (simp add: core_call_def Core_SetNumWorkerThreads_def)
  qed (simp_all add: core_call_def rest)
qed

lemma core_run_effect:
  assumes "unat cat < 256" "length (gCategoryStats (e_tracking e)) = 256" "minds_own_business other"
  shows "\<exists>e'. core_run core cat n result hardware other trace e = Some e'
    \<and> e_rpmalloc e' = e_rpmalloc e @ concat (map (rp_effect (result = 0)) (core_calls core trace))"
  using assms(2)
proof (induction trace arbitrary: e)
  case (Cons c trace)
  obtain e1 where e1: "core_call core cat n result hardware other c e = Some e1" "length (gCategoryStats (e_tracking e1)) = 256"
      "e_rpmalloc e1 = e_rpmalloc e @ concat (map (rp_effect (result = 0)) (core_calls core [c]))"
    using core_call_effect [OF assms(1) Cons.prems assms(3)] by blast
  from Cons.IH [OF e1(2)] e1(1,3) show ?case by auto
qed simp

lemma Runtime_Initialize_core:
  fixes trace1 :: "'f runtime_call list"
  assumes "Runtime_Initialize t init_ok context rt [] = (ok, rt1, trace1)" "m_activeModules rt = []"
    and "graph_wf t (m_modules (fold RegisterModule (ctx_modules context) rt))" and works: "\<And>tr. init_ok tr core = works"
  shows "distinct (m_activeModules rt1) \<and>
     (if core \<in> set (m_activeModules rt1) then works \<and> core_calls core trace1 = [CallInitialize core]
      else core_calls core trace1 = [] \<or> \<not> works \<and> core_calls core trace1 = [CallInitialize core, CallTerminate core])"
proof -
  let ?rt1 = "fold RegisterModule (ctx_modules context) rt"
  obtain rt2 and log2 :: "'f runtime_call list" where reg: "register_schedule t (ctx_schedule context) ?rt1 = (rt2, log2)" by fastforce
  let ?rt3 = "fold DeclareNoTick (ctx_noTick context) rt2"
  let ?tr3 = "[LogSystemInitialize ''tge'' (ctx_logsDir context) (ctx_configDir context)] @ log2 @ ValidateSchedule t ?rt3
      @ [SetNumWorkerThreads (ctx_numWorkerThreads context)]"
  obtain ok4 rt4 trace4 where im: "InitializeModules t init_ok ?rt3 ?tr3 = (ok4, rt4, trace4)" by (metis prod_cases3)
  have run: "m_activeModules rt1 = m_activeModules rt4" "core_calls core trace1 = core_calls core trace4"
    using assms(1) reg im by (auto simp: Runtime_Initialize_def Let_def split: if_splits)
  have start: "core_calls core ?tr3 = []" "m_activeModules ?rt3 = []" "m_modules ?rt3 = m_modules ?rt1"
    using core_calls_schedule [OF reg, of core] register_schedule_neutral [OF reg] assms(2) by (simp_all add: fold_DeclareNoTick fold_RegisterModule)
  obtain resolved order errors where res: "Resolve t (m_modules ?rt1) = (resolved, order, errors)" by (metis prod_cases3)
  show ?thesis
  proof (cases resolved)
    case False
    then have "m_activeModules rt4 = []" "core_calls core trace4 = []" using im res start by (auto simp: InitializeModules_def)
    then show ?thesis using run by simp
  next
    case True
    then have loop: "initialize_loop t init_ok order ?rt3 (?tr3 @ map GraphError errors) = (ok4, rt4, trace4)"
      using im res start(3) by (simp add: InitializeModules_def)
    have "mset order = mset (m_modules ?rt1)" using resolve_sound(1) [OF assms(3)] res True by simp
    then have "distinct order" using assms(3) by (metis graph_wf_def mset_eq_imp_distinct_iff)
    then have dist: "distinct (m_activeModules ?rt3 @ order)" using start(2) by simp
    have none: "core \<notin> set (m_activeModules ?rt3)" using start(2) by simp
    have before: "core_calls core (?tr3 @ map GraphError errors) = []" using start(1) by simp
    from initialize_loop_core [OF loop dist none works] initialize_loop_distinct [OF loop dist] show ?thesis
      unfolding run before by auto
  qed
qed

text \<open>C11.
  
  The core under the runtime.  When the runtime has started and ended its modules, with whatever other modules do in between, rpmalloc was initialised and finalised in balance if
  the core started: once each for the process and for the thread.  If \<open>rpmalloc_initialize\<close> failed, both finalisers were called twice, by the core that failed to start and then by
  the runtime that ends the module that failed.  If the core's turn never came, rpmalloc was not called.
\<close>

theorem core_under_runtime:
  fixes trace1 :: "'f runtime_call list"
  assumes run: "Runtime_Initialize t init_ok context rt [] = (ok, rt1, trace1)" and idle: "m_activeModules rt = []"
    and wf: "graph_wf t (m_modules (fold RegisterModule (ctx_modules context) rt))"
    and works: "\<And>tr. init_ok tr core = (result = 0)"
    and stop: "Runtime_Terminate t rt1 trace1 = (rt2, trace2)"
    and tracked: "unat cat < 256" "length (gCategoryStats (e_tracking e)) = 256" and others: "minds_own_business other"
  shows "\<exists>e'. core_run core cat n result hardware other trace2 e = Some e' \<and>
     e_rpmalloc e' = e_rpmalloc e @
       (if CallInitialize core \<notin> set trace2 then []
        else if result = 0 then [Rp_Initialize, Rp_ThreadInitialize, Rp_ThreadFinalize, Rp_Finalize]
        else [Rp_Initialize, Rp_ThreadFinalize, Rp_Finalize, Rp_ThreadFinalize, Rp_Finalize])"
proof -
  note start = Runtime_Initialize_core [OF run idle wf works]
  have "core_calls core trace2 = core_calls core trace1 @ (if core \<in> set (m_activeModules rt1) then [CallTerminate core] else [])"
    using stop terminate_loop_core [of "m_activeModules rt1" core t trace1] start by (auto simp: Runtime_Terminate_def TerminateModules_def)
  then have calls: "core_calls core trace2 \<in> {[], [CallInitialize core, CallTerminate core]}"
    using start by (auto split: if_splits)
  have "CallInitialize core \<in> set trace2 \<longleftrightarrow> CallInitialize core \<in> set (core_calls core trace2)" by (auto simp: core_calls_def)
  with calls core_run_effect [OF tracked others, of core n result hardware trace2] show ?thesis by auto
qed

subsection \<open>A frame\<close>

text \<open>An update hands every message that waits in a registered channel to the listeners and gives back all that was allocated for the frame.\<close>

theorem update_ends_frame:
  assumes "Tge_Update e = Some e'"
  shows "pending_messages (e_log e') = [] \<and> same_setup (e_log e) (e_log e') \<and> lin_offset (e_frame e') = 0 \<and> m_currentUsage (e_frame e') = 0
    \<and> e_tracking e' = lin_tracker (e_frame e') \<and> e_jobs e' = e_jobs e \<and> e_registry e' = e_registry e"
  using assms by (auto simp: Tge_Update_def Linear_Reset_def Let_def dispatch_clears split: if_splits)

subsection \<open>An engine\<close>

definition demo_engine :: "(nat, nat, nat) engine" where
  "demo_engine = \<lparr>e_registry = empty_registry initial_tracking, e_jobs = \<lparr>gThreadPool = None, gJobScheduler = False, js_log = []\<rparr>,
     e_frame = CLinearAllocator_ctor 0 nullptr (\<lambda>_. 0) initial_tracking, e_tracking = initial_tracking, e_log = log_demo, e_rpmalloc = [], e_messages = [],
     m_numWorkerThreads = 2\<rparr>"

lemma demo_tracked: "length (gCategoryStats (e_tracking demo_engine)) = 256"
  by (simp add: demo_engine_def initial_tracking_def)

lemma core_start_and_end_witness:
  "\<exists>e1 e2. Core_Initialize 3 8 0 0 demo_engine = Some (True, e1) \<and> GetNumThreads (e_jobs e1) = 2 \<and> Tge_Terminate 3 8 e1 = Some e2 \<and> gThreadPool (e_jobs e2) = None"
proof -
  have "AutoThreadCount \<noteq> 2" "m_numWorkerThreads demo_engine = 2" by (simp_all add: AutoThreadCount_def demo_engine_def)
  then show ?thesis using core_start_and_end [of 3 demo_engine 8 0 0, OF _ demo_tracked] by auto
qed

lemma called_iff: "CallInitialize m \<in> set trace \<longleftrightarrow> m \<in> set (inits trace)"
  by (induction trace) (auto split: runtime_call.splits)

lemma core_under_runtime_witness:
  "\<exists>trace e'. core_run 3 3 8 0 4 (\<lambda>(c :: nat runtime_call) e. e) trace demo_engine = Some e'
     \<and> e_rpmalloc e' = [Rp_Initialize, Rp_ThreadInitialize, Rp_ThreadFinalize, Rp_Finalize]"
proof -
  obtain rt1 and trace1 :: "nat runtime_call list" where run: "Runtime_Initialize demo_table all_start demo_context initial_runtime [] = (True, rt1, trace1)"
    and inits: "inits trace1 = [3, 1, 2]" using demo_started by auto
  obtain rt2 trace2 where stop: "Runtime_Terminate demo_table rt1 trace1 = (rt2, trace2)" by fastforce
  have "inits trace2 = inits trace1"
    using stop terminate_loop_trace [of demo_table "m_activeModules rt1" trace1] by (auto simp: Runtime_Terminate_def TerminateModules_def)
  then have called: "CallInitialize 3 \<in> set trace2" using inits called_iff [of 3 trace2] by simp
  have "graph_wf demo_table (m_modules (fold RegisterModule (ctx_modules demo_context) initial_runtime))"
    using demo_wf by (simp add: demo_context_def initial_runtime_def RegisterModule_def)
  moreover have "all_start tr 3 = (0 = (0 :: int))" for tr :: "nat runtime_call list" by (simp add: all_start_def)
  moreover have "m_activeModules initial_runtime = []" by (simp add: initial_runtime_def)
  moreover have "minds_own_business (\<lambda>(c :: nat runtime_call) (e :: (nat, nat, nat) engine). e)" by (simp add: minds_own_business_def)
  moreover have "e_rpmalloc demo_engine = []" by (simp add: demo_engine_def)
  ultimately show ?thesis
    using core_under_runtime [OF run _ _ _ stop, of 3 0 3 demo_engine "\<lambda>c e. e" 8 4] demo_tracked called by auto
qed

end
