(* ===== verification/Directories.thy ===== *)
theory Directories
  imports Files
begin

section \<open>Folders and paths\<close>

text \<open>
  Models \<^verbatim>\<open>private/io/directory.cpp\<close> and \<^verbatim>\<open>private/io/path.cpp\<close> on Linux: of \<open>std::filesystem::path\<close> what the sources use, as the text of a path, and a tree of folders for the iterators.
  A folder may refuse to be opened; a link counts as what it leads to, but a search does not go through it.
\<close>

subsection \<open>Paths\<close>

definition is_slash :: "char \<Rightarrow> bool" where
  "is_slash c \<longleftrightarrow> c = CHR ''/''"

definition Join :: "string \<Rightarrow> string \<Rightarrow> string" where
  "Join a b = (if linux_absolute b then b else linux_join a b)"

definition GetFilename :: "string \<Rightarrow> string" where
  "GetFilename p = rev (takeWhile (\<lambda>c. \<not> is_slash c) (rev p))"

text \<open>What is before the last name, without the slashes between them; a path without a name is its own parent.\<close>

definition trim_slashes :: "string \<Rightarrow> string" where
  "trim_slashes p = rev (dropWhile is_slash (rev p))"

definition GetDirectory :: "string \<Rightarrow> string" where
  "GetDirectory p =
     (if list_all is_slash p then p
      else let before = take (length p - length (GetFilename p)) p; parent = trim_slashes before
           in if parent = [] \<and> before \<noteq> [] then ''/'' else parent)"

definition dot_position :: "string \<Rightarrow> nat" where
  "dot_position f =
     (if f = ''.'' \<or> f = ''..'' \<or> CHR ''.'' \<notin> set f then length f
      else let k = length f - length (takeWhile (\<lambda>c. c \<noteq> CHR ''.'') (rev f)) - 1 in if k = 0 then length f else k)"

definition GetExtension :: "string \<Rightarrow> string" where
  "GetExtension p = drop (dot_position (GetFilename p)) (GetFilename p)"

definition GetFilenameWithoutExtension :: "string \<Rightarrow> string" where
  "GetFilenameWithoutExtension p = take (dot_position (GetFilename p)) (GetFilename p)"

definition normal_step :: "bool \<Rightarrow> string list \<Rightarrow> string \<Rightarrow> string list" where
  "normal_step rooted names c =
     (if c = [] \<or> c = ''.'' then names
      else if c = ''..''
      then (if names \<noteq> [] \<and> last names \<noteq> ''..'' then butlast names else if rooted \<and> names = [] then [] else names @ [''..''])
      else names @ [c])"

fun path_text :: "string list \<Rightarrow> string" where
  "path_text [] = []"
| "path_text [n] = n"
| "path_text (n # m # ns) = n @ CHR ''/'' # path_text (m # ns)"

definition Normalize :: "string \<Rightarrow> string" where
  "Normalize p =
     (if p = [] then []
      else let parts = split_at is_slash p;
               names = foldl (normal_step (linux_absolute p)) [] parts;
               closed = (names \<noteq> [] \<and> last names \<noteq> ''..'' \<and> last parts \<in> {[], ''.'', ''..''});
               text = (if linux_absolute p then ''/'' else []) @ path_text names @ (if closed then ''/'' else [])
           in if text = [] then ''.'' else text)"

text \<open>\<open>absolute\<close> and \<open>cwd\<close> are what the system answers.\<close>

definition GetAbsolutePath :: "(string \<Rightarrow> error_code + string) \<Rightarrow> string \<Rightarrow> string" where
  "GetAbsolutePath absolute relativePath = (case absolute relativePath of Inl e \<Rightarrow> relativePath | Inr p \<Rightarrow> p)"

definition Path_IsAbsolute :: "string \<Rightarrow> bool" where
  "Path_IsAbsolute p = linux_absolute p"

definition Path_IsRelative :: "string \<Rightarrow> bool" where
  "Path_IsRelative p = (\<not> linux_absolute p)"

subsection \<open>Folders\<close>

datatype file_kind = K_Regular | K_Directory | K_Other

datatype tree_node = Leaf file_kind | Link file_kind | Folder bool "(string \<times> tree_node) list"

definition kind_of :: "tree_node \<Rightarrow> file_kind" where
  "kind_of n = (case n of Leaf k \<Rightarrow> k | Link k \<Rightarrow> k | Folder readable es \<Rightarrow> K_Directory)"

text \<open>A search: whether it ended by an exception, and the paths it has found until then.\<close>

fun search_folder :: "bool \<Rightarrow> file_kind \<Rightarrow> string \<Rightarrow> (string \<times> tree_node) list \<Rightarrow> bool \<times> string list" where
  "search_folder recursive wanted path [] = (False, [])"
| "search_folder recursive wanted path ((name, n) # rest) =
     (let p = linux_join path name;
          here = (if kind_of n = wanted then [p] else []);
          (thrown, below) = (if recursive then (case n of Folder readable es \<Rightarrow> if readable then search_folder recursive wanted p es else (True, []) | _ \<Rightarrow> (False, []))
                             else (False, []))
      in if thrown then (True, here @ below)
         else case search_folder recursive wanted path rest of (thrown', others) \<Rightarrow> (thrown', here @ below @ others))"

datatype 'a outcome = Returned 'a | Threw

text \<open>\<open>opened\<close> is what opening the folder gives: its entries or an error.\<close>

definition list_folder :: "file_kind \<Rightarrow> error_code + (string \<times> tree_node) list \<Rightarrow> string \<Rightarrow> string list \<Rightarrow> bool \<Rightarrow> bool outcome \<times> string list" where
  "list_folder wanted opened path out recursive =
     (case opened of
        Inl e \<Rightarrow> (Returned False, out)
      | Inr es \<Rightarrow> (case search_folder recursive wanted path es of (thrown, found) \<Rightarrow> (if thrown then Threw else Returned True, out @ found)))"

definition GetFiles :: "error_code + (string \<times> tree_node) list \<Rightarrow> string \<Rightarrow> string list \<Rightarrow> bool \<Rightarrow> bool outcome \<times> string list" where
  "GetFiles = list_folder K_Regular"

definition GetDirectories :: "error_code + (string \<times> tree_node) list \<Rightarrow> string \<Rightarrow> string list \<Rightarrow> bool \<Rightarrow> bool outcome \<times> string list" where
  "GetDirectories = list_folder K_Directory"

text \<open>\<open>create_directories\<close> answers whether it made a folder; the two ways of removing answer with an error or none.\<close>

definition Directory_Create :: "bool \<times> error_code \<Rightarrow> bool" where
  "Directory_Create answer = fst answer"

definition Directory_Delete :: "error_code \<Rightarrow> error_code \<Rightarrow> bool \<Rightarrow> bool" where
  "Directory_Delete remove_all remove_one recursive = ((if recursive then remove_all else remove_one) = no_error)"

definition GetCurrentWorkingDirectory :: "error_code + string \<Rightarrow> string" where
  "GetCurrentWorkingDirectory cwd = (case cwd of Inl e \<Rightarrow> [] | Inr p \<Rightarrow> p)"

text \<open>\<open>readlink\<close> gives at most as many characters as it is asked for.\<close>

definition PATH_MAX :: nat where
  "PATH_MAX = 4096"

definition GetExecutableDirectory :: "(nat \<Rightarrow> string option) \<Rightarrow> string" where
  "GetExecutableDirectory readlink = (case readlink (PATH_MAX - 1) of None \<Rightarrow> [] | Some p \<Rightarrow> GetDirectory p)"

subsection \<open>Names and extensions\<close>

lemma filename_suffix:
  obtains before where "p = before @ GetFilename p" "before = [] \<or> is_slash (last before)" "\<forall>c \<in> set (GetFilename p). \<not> is_slash c"
proof
  let ?b = "rev (dropWhile (\<lambda>c. \<not> is_slash c) (rev p))"
  have "rev p = takeWhile (\<lambda>c. \<not> is_slash c) (rev p) @ dropWhile (\<lambda>c. \<not> is_slash c) (rev p)" by simp
  then show "p = ?b @ GetFilename p" unfolding GetFilename_def by (metis rev_append rev_rev_ident)
  show "?b = [] \<or> is_slash (last ?b)" using hd_dropWhile [of "\<lambda>c. \<not> is_slash c" "rev p"] by (auto simp: last_rev)
  show "\<forall>c \<in> set (GetFilename p). \<not> is_slash c" by (auto simp: GetFilename_def dest: set_takeWhileD)
qed

lemma trim_slashes_snoc: "trim_slashes (xs @ [c]) = (if is_slash c then trim_slashes xs else xs @ [c])"
  by (simp add: trim_slashes_def)

lemma trim_slashes_none: "xs = [] \<or> \<not> is_slash (last xs) \<Longrightarrow> trim_slashes xs = xs"
  by (cases xs rule: rev_cases) (auto simp: trim_slashes_def)

lemma takeWhile_rev_position:
  assumes "c \<in> set f"
  shows "\<exists>k < length f. length f - length (takeWhile (\<lambda>d. d \<noteq> c) (rev f)) - 1 = k \<and> f ! k = c \<and> c \<notin> set (drop (Suc k) f)"
proof -
  let ?n = "length (takeWhile (\<lambda>d. d \<noteq> c) (rev f))"
  have "takeWhile (\<lambda>d. d \<noteq> c) (rev f) \<noteq> rev f" using assms by (simp add: takeWhile_eq_all_conv)
  then have "?n \<noteq> length (rev f)" by (metis takeWhile_eq_take take_all order_refl)
  then have n: "?n < length f" using length_takeWhile_le [of "\<lambda>d. d \<noteq> c" "rev f"] by simp
  then have "rev f ! ?n = c" using nth_length_takeWhile [of "\<lambda>d. d \<noteq> c" "rev f"] by simp
  then have at: "f ! (length f - ?n - 1) = c" using n by (simp add: rev_nth)
  have "drop (Suc (length f - ?n - 1)) f = rev (take ?n (rev f))" using n by (simp add: take_rev Suc_diff_Suc)
  also have "take ?n (rev f) = takeWhile (\<lambda>d. d \<noteq> c) (rev f)" by (metis takeWhile_eq_take)
  finally have "c \<notin> set (drop (Suc (length f - ?n - 1)) f)" by (auto dest: set_takeWhileD)
  with at n show ?thesis by (intro exI [of _ "length f - ?n - 1"]) auto
qed

lemma extension_shape: "GetExtension p = [] \<or> (\<exists>e. GetExtension p = CHR ''.'' # e \<and> CHR ''.'' \<notin> set e)"
proof -
  let ?f = "GetFilename p"
  show ?thesis
  proof (cases "?f = ''.'' \<or> ?f = ''..'' \<or> CHR ''.'' \<notin> set ?f")
    case False
    then obtain k where k: "k < length ?f" "length ?f - length (takeWhile (\<lambda>d. d \<noteq> CHR ''.'') (rev ?f)) - 1 = k" "?f ! k = CHR ''.''"
        "CHR ''.'' \<notin> set (drop (Suc k) ?f)"
      using takeWhile_rev_position [of "CHR ''.''" ?f] by blast
    then have "drop k ?f = CHR ''.'' # drop (Suc k) ?f" using Cons_nth_drop_Suc [of k ?f] by simp
    with k False show ?thesis by (auto simp: GetExtension_def dot_position_def Let_def)
  qed (auto simp: GetExtension_def dot_position_def)
qed

text \<open>
  A path without repeated slashes is put together again from its parts: the folder and the name join to the path, the name holds no slash, and it is its stem
  followed by its extension, which is empty or begins with its only dot.
\<close>

theorem path_parts_join:
  assumes "\<nexists>xs ys. p = xs @ ''//'' @ ys"
  shows "Join (GetDirectory p) (GetFilename p) = p \<and> CHR ''/'' \<notin> set (GetFilename p)
    \<and> GetFilenameWithoutExtension p @ GetExtension p = GetFilename p
    \<and> (GetExtension p = [] \<or> (\<exists>e. GetExtension p = CHR ''.'' # e \<and> CHR ''.'' \<notin> set e))"
proof -
  obtain before where b: "p = before @ GetFilename p" "before = [] \<or> is_slash (last before)" "\<forall>c \<in> set (GetFilename p). \<not> is_slash c"
    by (rule filename_suffix)
  let ?f = "GetFilename p"
  have take: "take (length p - length ?f) p = before" using b(1) by (metis append_eq_conv_conj diff_add_inverse2 length_append)
  have rel: "\<not> linux_absolute ?f" using b(3) by (cases ?f) (auto simp: linux_absolute_def is_slash_def)
  have "Join (GetDirectory p) ?f = p"
  proof (cases "before = []")
    case True
    then have "p = ?f" using b(1) by simp
    moreover have "list_all is_slash p \<Longrightarrow> p = []" using b(3) \<open>p = ?f\<close> by (cases p) auto
    ultimately show ?thesis using rel take True by (auto simp: Join_def GetDirectory_def linux_join_def Let_def trim_slashes_def)
  next
    case False
    then obtain parent where parent: "before = parent @ ''/''" using b(2) by (cases before rule: rev_cases) (auto simp: is_slash_def)
    have p: "p = parent @ CHR ''/'' # ?f" using b(1) parent by simp
    have ends: "parent = [] \<or> \<not> is_slash (last parent)"
    proof (cases parent rule: rev_cases)
      case (snoc xs c)
      have "c \<noteq> CHR ''/''" using assms p snoc by auto
      then show ?thesis using snoc by (simp add: is_slash_def)
    qed simp
    then have trim: "trim_slashes before = parent" using parent by (simp add: trim_slashes_snoc trim_slashes_none is_slash_def)
    show ?thesis
    proof (cases "list_all is_slash p")
      case True
      then have "list_all is_slash (parent @ CHR ''/'' # ?f)" using p by metis
      then have slashes: "\<forall>c \<in> set parent. is_slash c" "\<forall>c \<in> set ?f. is_slash c" by (simp_all add: list_all_iff)
      have "parent = []" using slashes(1) ends last_in_set by blast
      moreover have "?f = []" using slashes(2) b(3) last_in_set by blast
      ultimately show ?thesis using p True by (simp add: GetDirectory_def Join_def linux_absolute_def linux_join_def)
    next
      case False
      then have "GetDirectory p = (if parent = [] then ''/'' else parent)" using take trim parent by (simp add: GetDirectory_def Let_def)
      then show ?thesis using p rel ends by (auto simp: Join_def linux_join_def is_slash_def)
    qed
  qed
  moreover have "GetFilenameWithoutExtension p @ GetExtension p = ?f" by (simp add: GetFilenameWithoutExtension_def GetExtension_def)
  ultimately show ?thesis using extension_shape b(3) by (auto simp: is_slash_def)
qed

lemma path_parts_join_witness:
  "Join (GetDirectory ''/home/u/notes.tar.gz'') (GetFilename ''/home/u/notes.tar.gz'') = ''/home/u/notes.tar.gz''
   \<and> GetExtension ''/home/u/notes.tar.gz'' = ''.gz''"
proof -
  have "\<nexists>xs ys. ''/home/u/notes.tar.gz'' = xs @ ''//'' @ ys" by (auto simp: append_eq_Cons_conv Cons_eq_append_conv)
  from path_parts_join [OF this] show ?thesis by (simp add: GetExtension_def GetFilename_def dot_position_def is_slash_def)
qed

subsection \<open>Normal paths\<close>

definition plain_name :: "string \<Rightarrow> bool" where
  "plain_name n \<longleftrightarrow> n \<noteq> [] \<and> n \<noteq> ''.'' \<and> (\<forall>c \<in> set n. \<not> is_slash c)"

definition normal_names :: "bool \<Rightarrow> string list \<Rightarrow> bool" where
  "normal_names rooted ns \<longleftrightarrow> (\<forall>n \<in> set ns. plain_name n) \<and> (rooted \<longrightarrow> ''..'' \<notin> set ns)
     \<and> (\<exists>k names. ns = replicate k ''..'' @ names \<and> ''..'' \<notin> set names)"

lemma normal_names_Nil [simp]: "normal_names rooted []"
  by (simp add: normal_names_def)

lemma normal_last: "normal_names rooted ns \<Longrightarrow> ns \<noteq> [] \<Longrightarrow> last ns = ''..'' \<Longrightarrow> \<not> rooted \<and> (\<exists>k. ns = replicate k ''..'')"
  unfolding normal_names_def by (metis append_Nil2 last_appendR last_in_set)

lemma normal_step_keeps:
  assumes "normal_names rooted ns" "\<forall>d \<in> set c. \<not> is_slash d"
  shows "normal_names rooted (normal_step rooted ns c)"
proof -
  obtain k names where ns: "ns = replicate k ''..'' @ names" "''..'' \<notin> set names" using assms(1) by (auto simp: normal_names_def)
  consider "c = [] \<or> c = ''.''" | "c = ''..''" "ns \<noteq> []" "last ns \<noteq> ''..''" | "c = ''..''" "ns = []" | "c = ''..''" "ns \<noteq> []" "last ns = ''..''"
    | "c \<noteq> []" "c \<noteq> ''.''" "c \<noteq> ''..''" by blast
  then show ?thesis
  proof cases
    case 1
    then show ?thesis using assms(1) by (simp add: normal_step_def)
  next
    case 2
    then have "names \<noteq> []" using ns by auto
    then have "butlast ns = replicate k ''..'' @ butlast names" using ns by (simp add: butlast_append)
    then have "normal_names rooted (butlast ns)"
      using assms(1) ns in_set_butlastD unfolding normal_names_def by (metis (no_types, lifting))
    then show ?thesis using 2 by (simp add: normal_step_def)
  next
    case 3
    then show ?thesis by (auto simp: normal_step_def normal_names_def plain_name_def is_slash_def intro: exI [of _ "Suc 0"])
  next
    case 4
    then obtain j where "\<not> rooted" "ns = replicate j ''..''" using normal_last [OF assms(1)] by blast
    then show ?thesis using 4
      by (auto simp: normal_step_def normal_names_def plain_name_def is_slash_def replicate_append_same intro!: exI [of _ "Suc j"] exI [of _ "[]"])
  next
    case 5
    then have "normal_names rooted (ns @ [c])"
      using assms ns unfolding normal_names_def by (auto simp: plain_name_def intro!: exI [of _ k] exI [of _ "names @ [c]"])
    then show ?thesis using 5 by (simp add: normal_step_def)
  qed
qed

lemma normal_fold: "normal_names rooted ns \<Longrightarrow> \<forall>c \<in> set cs. \<forall>d \<in> set c. \<not> is_slash d \<Longrightarrow> normal_names rooted (foldl (normal_step rooted) ns cs)"
  by (induction cs arbitrary: ns) (simp_all add: normal_step_keeps)

lemma normal_prefix: "normal_names rooted (xs @ ys) \<Longrightarrow> normal_names rooted xs"
proof -
  assume n: "normal_names rooted (xs @ ys)"
  then obtain k names us where k: "''..'' \<notin> set names" "xs = replicate k ''..'' @ us \<and> us @ ys = names \<or> xs @ us = replicate k ''..'' \<and> ys = us @ names"
    by (auto simp: normal_names_def append_eq_append_conv2)
  have "\<exists>j ms. xs = replicate j ''..'' @ ms \<and> ''..'' \<notin> set ms"
  proof (cases "xs @ us = replicate k ''..''")
    case True
    then have "\<forall>n \<in> set xs. n = ''..''" by (metis Un_iff in_set_replicate set_append)
    then have "xs = replicate (length xs) ''..'' @ []" by (simp add: replicate_length_same)
    then show ?thesis by (metis empty_iff empty_set)
  next
    case False
    then show ?thesis using k by (intro exI [of _ k] exI [of _ us]) auto
  qed
  with n show ?thesis by (auto simp: normal_names_def)
qed

lemma normal_step_same:
  assumes "normal_names rooted (ns @ [n])"
  shows "normal_step rooted ns n = ns @ [n]"
proof -
  have plain: "n \<noteq> []" "n \<noteq> ''.''" using assms by (simp_all add: normal_names_def plain_name_def)
  show ?thesis
  proof (cases "n = ''..''")
    case True
    from normal_last [OF assms] True have "\<not> rooted" "\<exists>k. ns @ [n] = replicate k ''..''" by auto
    then have "ns = [] \<or> last ns = ''..''" by (metis append_is_Nil_conv in_set_conv_decomp in_set_replicate last_in_set Un_iff set_append)
    with \<open>\<not> rooted\<close> True show ?thesis by (auto simp: normal_step_def)
  qed (simp add: normal_step_def plain)
qed

lemma normal_fold_same: "normal_names rooted (acc @ ns) \<Longrightarrow> foldl (normal_step rooted) acc ns = acc @ ns"
proof (induction ns arbitrary: acc)
  case (Cons n ns)
  then have "normal_names rooted ((acc @ [n]) @ ns)" by simp
  with Cons.IH [OF this] normal_prefix [OF this] show ?case by (simp add: normal_step_same)
qed simp

lemma split_parts_plain: "\<forall>c \<in> set (split_at P s). \<forall>d \<in> set c. \<not> P d"
proof (induction s)
  case (Cons a s)
  then show ?case using split_at_nonempty [of P s] by (cases "split_at P s") auto
qed simp

lemma split_path_text:
  assumes "ns \<noteq> []" "\<forall>n \<in> set ns. plain_name n"
  shows "split_at is_slash (path_text ns) = ns" "split_at is_slash (path_text ns @ ''/'') = ns @ [[]]"
proof -
  have slash: "is_slash CHR ''/''" by (simp add: is_slash_def)
  have plain: "split_at is_slash n = [n]" "split_at is_slash (n @ CHR ''/'' # s) = n # split_at is_slash s" if "plain_name n" for n s
    using that split_at_plain [of n is_slash] split_at_sep [of n is_slash "CHR ''/''" s] slash by (auto simp: plain_name_def)
  from assms show "split_at is_slash (path_text ns) = ns" "split_at is_slash (path_text ns @ ''/'') = ns @ [[]]"
    by (induction ns rule: path_text.induct) (simp_all add: plain)
qed

text \<open>Normalising a path twice is normalising it once, and keeps whether it is absolute.\<close>

theorem Normalize_idempotent:
  "Normalize (Normalize p) = Normalize p \<and> Path_IsAbsolute (Normalize p) = Path_IsAbsolute p"
proof (cases "p = []")
  case False
  let ?r = "linux_absolute p" and ?parts = "split_at is_slash p"
  define ns where "ns = foldl (normal_step ?r) [] ?parts"
  define closed where "closed = (ns \<noteq> [] \<and> last ns \<noteq> ''..'' \<and> last ?parts \<in> {[], ''.'', ''..''})"
  define q where "q = (if ?r then ''/'' else []) @ path_text ns @ (if closed then ''/'' else [])"
  have normal: "normal_names ?r ns" unfolding ns_def by (rule normal_fold) (use split_parts_plain [of is_slash p] in auto)
  have N: "Normalize p = (if q = [] then ''.'' else q)"
    using False by (simp add: Normalize_def Let_def q_def closed_def ns_def)
  show ?thesis
  proof (cases "ns = []")
    case True
    then have "q = (if ?r then ''/'' else [])" by (simp add: q_def closed_def)
    then have N': "Normalize p = (if ?r then ''/'' else ''.'')" by (simp add: N)
    have "Normalize ''/'' = ''/''" "Normalize ''.'' = ''.''" "linux_absolute ''/''" "\<not> linux_absolute ''.''"
      by (simp_all add: Normalize_def linux_absolute_def is_slash_def normal_step_def)
    then show ?thesis by (cases ?r) (simp_all only: N' Path_IsAbsolute_def if_True if_False simp_thms)
  next
    case ne: False
    have plain: "\<forall>n \<in> set ns. plain_name n" using normal by (simp add: normal_names_def)
    obtain c t where first: "path_text ns = c # t" "\<not> is_slash c"
      using ne plain by (cases ns rule: path_text.cases; cases "hd ns") (auto simp: plain_name_def)
    have qne: "q \<noteq> []" using first by (simp add: q_def)
    have abs: "linux_absolute q = ?r" using first by (auto simp: q_def linux_absolute_def is_slash_def)
    have "split_at is_slash (path_text ns @ (if closed then ''/'' else [])) = ns @ (if closed then [[]] else [])"
      using split_path_text [OF ne plain] by simp
    then have parts: "split_at is_slash q = (if ?r then [[]] else []) @ ns @ (if closed then [[]] else [])"
      by (simp add: q_def is_slash_def)
    have "foldl (normal_step ?r) [] ns = ns" using normal_fold_same [of ?r "[]" ns] normal by simp
    then have names: "foldl (normal_step ?r) [] (split_at is_slash q) = ns" by (cases ?r) (simp_all add: parts normal_step_def)
    have "last (split_at is_slash q) = (if closed then [] else last ns)" using ne by (simp add: parts)
    moreover have "last ns \<notin> {[], ''.''}" using plain ne last_in_set by (auto simp: plain_name_def)
    ultimately have "(ns \<noteq> [] \<and> last ns \<noteq> ''..'' \<and> last (split_at is_slash q) \<in> {[], ''.'', ''..''}) = closed" by (auto simp: closed_def)
    then have "Normalize q = q" using qne by (simp add: Normalize_def Let_def abs names) (simp add: q_def first)
    then show ?thesis using qne abs by (simp add: N Path_IsAbsolute_def)
  qed
qed (simp add: Normalize_def)

subsection \<open>Searches\<close>

text \<open>The tree_node under a path of names, as a search reaches it: through folders that can be opened, not through links.\<close>

fun node_at :: "(string \<times> tree_node) list \<Rightarrow> string list \<Rightarrow> tree_node option" where
  "node_at es [] = None"
| "node_at es [n] = map_of es n"
| "node_at es (n # m # ns) = (case map_of es n of Some (Folder True below) \<Rightarrow> node_at below (m # ns) | _ \<Rightarrow> None)"

fun path_of :: "string \<Rightarrow> string list \<Rightarrow> string" where
  "path_of path [] = path"
| "path_of path (n # ns) = path_of (linux_join path n) ns"

fun names_once :: "(string \<times> tree_node) list \<Rightarrow> bool" where
  "names_once [] = True"
| "names_once ((n, x) # es) = (n \<notin> fst ` set es \<and> (case x of Folder readable below \<Rightarrow> names_once below | _ \<Rightarrow> True) \<and> names_once es)"

fun all_open :: "(string \<times> tree_node) list \<Rightarrow> bool" where
  "all_open [] = True"
| "all_open ((n, x) # es) = ((case x of Folder readable below \<Rightarrow> readable \<and> all_open below | _ \<Rightarrow> True) \<and> all_open es)"

definition reachable_paths :: "file_kind \<Rightarrow> string \<Rightarrow> (string \<times> tree_node) list \<Rightarrow> string set" where
  "reachable_paths wanted path es = {path_of path ns | ns. \<exists>x. node_at es ns = Some x \<and> kind_of x = wanted}"

lemma node_at_Cons:
  "node_at ((n, x) # es) ns =
     (case ns of [] \<Rightarrow> None
      | m # ms \<Rightarrow> if m = n then (if ms = [] then Some x else case x of Folder True below \<Rightarrow> node_at below ms | _ \<Rightarrow> None) else node_at es ns)"
  by (cases ns rule: path_text.cases) (auto split: tree_node.splits bool.splits)

lemma node_at_first: "node_at es (m # ms) = Some y \<Longrightarrow> m \<in> fst ` set es"
  by (cases ms) (auto split: option.splits dest!: map_of_SomeD intro: rev_image_eqI)

lemma reachableI: "node_at es ns = Some x \<Longrightarrow> kind_of x = wanted \<Longrightarrow> path_of path ns \<in> reachable_paths wanted path es"
  by (auto simp: reachable_paths_def)

lemma reachable_Cons:
  assumes "n \<notin> fst ` set es"
  shows "reachable_paths wanted path ((n, x) # es) =
    (if kind_of x = wanted then {linux_join path n} else {})
    \<union> (case x of Folder True below \<Rightarrow> reachable_paths wanted (linux_join path n) below | _ \<Rightarrow> {}) \<union> reachable_paths wanted path es"
    (is "?L = ?A \<union> ?B \<union> ?C")
proof
  show "?L \<subseteq> ?A \<union> ?B \<union> ?C"
  proof
    fix p assume "p \<in> ?L"
    then obtain ns y where p: "p = path_of path ns" "node_at ((n, x) # es) ns = Some y" "kind_of y = wanted" by (auto simp: reachable_paths_def)
    then obtain m ms where ns: "ns = m # ms" by (cases ns) auto
    consider "m \<noteq> n" "node_at es ns = Some y" | "m = n" "ms = []" "y = x" | below where "m = n" "x = Folder True below" "node_at below ms = Some y"
      using p(2) ns by (auto simp: node_at_Cons split: if_splits tree_node.splits bool.splits)
    then show "p \<in> ?A \<union> ?B \<union> ?C"
    proof cases
      case 1
      then show ?thesis using p(1,3) reachableI [of es ns y wanted path] by simp
    next
      case 2
      then show ?thesis using p(1,3) ns by simp
    next
      case (3 below)
      then show ?thesis using p(1,3) ns reachableI [of below ms y wanted "linux_join path n"] by simp
    qed
  qed
  have "p \<in> ?L" if "p \<in> ?A" for p
  proof -
    have "node_at ((n, x) # es) [n] = Some x" by simp
    from reachableI [OF this, of wanted path] that show ?thesis by (simp split: if_splits)
  qed
  moreover have "p \<in> ?L" if in_below: "p \<in> ?B" for p
  proof -
    obtain below where x: "x = Folder True below" "p \<in> reachable_paths wanted (linux_join path n) below"
      using in_below by (cases x) (auto split: bool.splits)
    then obtain ns y where y: "p = path_of (linux_join path n) ns" "node_at below ns = Some y" "kind_of y = wanted" by (auto simp: reachable_paths_def)
    then have "ns \<noteq> []" by auto
    then have "node_at ((n, x) # es) (n # ns) = Some y" using x(1) y(2) by (simp add: node_at_Cons)
    with y show ?thesis unfolding reachable_paths_def by (auto intro!: exI [of _ "n # ns"])
  qed
  moreover have "p \<in> ?L" if in_rest: "p \<in> ?C" for p
  proof -
    obtain ns y where y: "p = path_of path ns" "node_at es ns = Some y" "kind_of y = wanted" using in_rest by (auto simp: reachable_paths_def)
    then obtain m ms where ns: "ns = m # ms" by (cases ns) auto
    then have "m \<noteq> n" using y(2) node_at_first assms by blast
    then have "node_at ((n, x) # es) ns = Some y" using y(2) ns by (simp add: node_at_Cons)
    with y show ?thesis unfolding reachable_paths_def by blast
  qed
  ultimately show "?A \<union> ?B \<union> ?C \<subseteq> ?L" by blast
qed

text \<open>What a search does with the first entry.\<close>

definition search_below :: "file_kind \<Rightarrow> string \<Rightarrow> tree_node \<Rightarrow> bool \<times> string list" where
  "search_below wanted p x = (case x of Folder readable below \<Rightarrow> if readable then search_folder True wanted p below else (True, []) | _ \<Rightarrow> (False, []))"

lemma search_Cons:
  "fst (search_folder True wanted path ((n, x) # es)) = (fst (search_below wanted (linux_join path n) x) \<or> fst (search_folder True wanted path es))"
  "\<not> fst (search_below wanted (linux_join path n) x) \<Longrightarrow>
   snd (search_folder True wanted path ((n, x) # es)) =
     (if kind_of x = wanted then [linux_join path n] else []) @ snd (search_below wanted (linux_join path n) x) @ snd (search_folder True wanted path es)"
proof -
  obtain t b where below: "search_below wanted (linux_join path n) x = (t, b)" by fastforce
  obtain t' others where rest: "search_folder True wanted path es = (t', others)" by fastforce
  have w: "search_folder True wanted path ((n, x) # es) =
      (let here = (if kind_of x = wanted then [linux_join path n] else []) in if t then (True, here @ b) else (t', here @ b @ others))"
    using below by (simp add: rest search_below_def Let_def cong: if_cong)
  show "fst (search_folder True wanted path ((n, x) # es)) = (fst (search_below wanted (linux_join path n) x) \<or> fst (search_folder True wanted path es))"
    unfolding w below rest Let_def by simp
  show "snd (search_folder True wanted path ((n, x) # es)) =
      (if kind_of x = wanted then [linux_join path n] else []) @ snd (search_below wanted (linux_join path n) x) @ snd (search_folder True wanted path es)"
    if "\<not> fst (search_below wanted (linux_join path n) x)"
    using that unfolding w below rest Let_def by simp
qed

declare search_folder.simps(2) [simp del]

lemma search_throws: "fst (search_folder True wanted path es) \<longleftrightarrow> \<not> all_open es"
proof (induction es arbitrary: path rule: all_open.induct)
  case (2 n x es)
  then show ?case by (cases x) (simp_all add: search_Cons search_below_def)
qed simp

lemma search_finds: "names_once es \<Longrightarrow> all_open es \<Longrightarrow> set (snd (search_folder True wanted path es)) = reachable_paths wanted path es"
proof (induction es arbitrary: path rule: all_open.induct)
  case 1
  have "node_at [] ns = None" for ns by (cases ns rule: path_text.cases) simp_all
  then show ?case by (simp add: reachable_paths_def)
next
  case (2 n x es)
  have once: "n \<notin> fst ` set es" using 2(3) by simp
  show ?case
    by (cases x) (use 2 in \<open>auto simp: search_Cons(2) search_below_def search_throws reachable_Cons [OF once]\<close>)
qed

lemma search_flat: "search_folder False wanted path es = (False, map (\<lambda>e. linux_join path (fst e)) (filter (\<lambda>e. kind_of (snd e) = wanted) es))"
  by (induction es) (auto simp: search_folder.simps(2) Let_def split: prod.splits)

text \<open>
  A recursive search of files finds, if every folder below can be opened, exactly the paths that lead to regular files, links included that lead to one; otherwise it throws, although
  it reports errors by its result.  A flat search finds the entries of the folder itself, and one whose folder cannot be opened answers false and finds nothing.
\<close>

theorem GetFiles_complete:
  assumes "names_once es"
  shows "(all_open es \<longrightarrow> fst (GetFiles (Inr es) path out True) = Returned True
       \<and> (\<exists>found. snd (GetFiles (Inr es) path out True) = out @ found \<and> set found = reachable_paths K_Regular path es))
    \<and> (\<not> all_open es \<longrightarrow> fst (GetFiles (Inr es) path out True) = Threw)
    \<and> GetFiles (Inr es) path out False = (Returned True, out @ map (\<lambda>e. linux_join path (fst e)) (filter (\<lambda>e. kind_of (snd e) = K_Regular) es))
    \<and> GetFiles (Inl e) path out recursive = (Returned False, out)"
proof -
  obtain thrown found where w: "search_folder True K_Regular path es = (thrown, found)" by fastforce
  have "thrown = (\<not> all_open es)" "all_open es \<longrightarrow> set found = reachable_paths K_Regular path es"
    using search_throws [of K_Regular path es] search_finds [OF assms, of K_Regular path] by (simp_all add: w)
  then show ?thesis by (simp add: GetFiles_def list_folder_def search_flat w)
qed

definition demo_tree :: "(string \<times> tree_node) list" where
  "demo_tree = [(''a'', Leaf K_Regular), (''b'', Folder True [(''c'', Link K_Regular), (''d'', Leaf K_Other)]), (''e'', Folder False [])]"

lemma GetFiles_complete_witness:
  "fst (GetFiles (Inr demo_tree) ''/x'' [] True) = Threw \<and> GetFiles (Inr demo_tree) ''/x'' [] False = (Returned True, [''/x/a''])"
  using GetFiles_complete [of demo_tree "''/x''" "[]"] by (simp add: demo_tree_def kind_of_def linux_join_def)

end
