(* ===== verification/Notify_Buffers.thy ===== *)
theory Notify_Buffers
  imports Directory_Watch
begin

section \<open>The buffers in which changes arrive\<close>

text \<open>
  Models how \<^verbatim>\<open>private/io/directory_watch.cpp\<close> reads the bytes that inotify and \<open>ReadDirectoryChangesW\<close> write: entries of variable length with a header, one after the
  other.  A read outside of the buffer has no result (\<open>None\<close>).  The reference is the layout both systems document.
\<close>

unbundle bit_operations_syntax

definition word_of_bytes :: "u8 \<Rightarrow> u8 \<Rightarrow> u8 \<Rightarrow> u8 \<Rightarrow> u32" where
  "word_of_bytes a b c d = ucast a OR push_bit 8 (ucast b) OR push_bit 16 (ucast c) OR push_bit 24 (ucast d)"

text \<open>A field of four bytes at an offset.\<close>

definition read_u32 :: "u8 list \<Rightarrow> nat \<Rightarrow> u32 option" where
  "read_u32 buffer i =
     (if i + 4 \<le> length buffer then Some (word_of_bytes (buffer ! i) (buffer ! (i + 1)) (buffer ! (i + 2)) (buffer ! (i + 3))) else None)"

subsection \<open>inotify\<close>

definition sizeof_inotify_event :: nat where
  "sizeof_inotify_event = 16"

text \<open>The text up to the first zero.\<close>

definition c_string :: "u8 list \<Rightarrow> string option" where
  "c_string bs = (if 0 \<in> set bs then Some (map (\<lambda>b. char_of (unat b)) (takeWhile (\<lambda>b. b \<noteq> 0) bs)) else None)"

text \<open>An event at an offset, and its \<open>len\<close>.\<close>

definition event_at :: "u8 list \<Rightarrow> nat \<Rightarrow> (inotify_event \<times> nat) option" where
  "event_at buffer offset =
     (case (read_u32 buffer offset, read_u32 buffer (offset + 4), read_u32 buffer (offset + 12)) of
        (Some wd, Some m, Some len) \<Rightarrow>
          (case (if len > 0 then c_string (drop (offset + sizeof_inotify_event) buffer) else Some []) of
             Some name \<Rightarrow> Some (\<lparr>e_wd = sint wd, e_mask = m, e_name = name\<rparr>, unat len)
           | None \<Rightarrow> None)
      | _ \<Rightarrow> None)"

function events_from :: "u8 list \<Rightarrow> nat \<Rightarrow> nat \<Rightarrow> inotify_event list option" where
  "events_from buffer count offset =
     (if offset < count
      then (case event_at buffer offset of
              None \<Rightarrow> None
            | Some (e, len) \<Rightarrow> map_option ((#) e) (events_from buffer count (offset + (sizeof_inotify_event + len))))
      else Some [])"
  by pat_completeness auto
termination by (relation "measure (\<lambda>(_, count, offset). count - offset)") (auto simp: sizeof_inotify_event_def)

declare events_from.simps [simp del]

text \<open>\<open>ReadChanges\<close> on what each \<open>read\<close> has put into the buffer, with how many bytes it was; the last one,
  which returned nothing or failed, is the argument of \<open>linux_ReadChanges\<close>.  A name is taken out of an event whether or not the event goes on to use it.\<close>

fun all_events :: "(u8 list \<times> nat) list \<Rightarrow> inotify_event list list option" where
  "all_events [] = Some []"
| "all_events ((buffer, count) # reads) = Option.bind (events_from buffer count 0) (\<lambda>es. map_option ((#) es) (all_events reads))"

definition linux_ReadChanges_bytes ::
    "nat \<Rightarrow> world \<Rightarrow> (u8 list \<times> nat) list \<Rightarrow> int \<Rightarrow> int + int \<Rightarrow> linux_watch \<Rightarrow> ((error_code + SDirectoryChanges) \<times> linux_watch) option" where
  "linux_ReadChanges_bytes fuel w reads failure again s =
     Option.bind (all_events reads) (\<lambda>buffers. linux_ReadChanges fuel w buffers failure again s)"

subsection \<open>ReadDirectoryChangesW\<close>

definition FILE_ACTION_MODIFIED :: u32 where
  "FILE_ACTION_MODIFIED = 3"

definition action_of :: "u32 \<Rightarrow> notify_action" where
  "action_of a = (if a = FILE_ACTION_MODIFIED then Modified else if a = 1 then Added else if a = 2 then Removed else Renamed)"

definition read_u16s :: "u8 list \<Rightarrow> nat \<Rightarrow> nat \<Rightarrow> 16 word list option" where
  "read_u16s buffer i n =
     (if i + 2 * n \<le> length buffer
      then Some (map (\<lambda>k. ucast (buffer ! (i + 2 * k)) OR push_bit 8 (ucast (buffer ! (i + 2 * k + 1)))) [0..<n]) else None)"

text \<open>An entry: the offset of the next one, the action and the name.\<close>

definition entry_at :: "u8 list \<Rightarrow> nat \<Rightarrow> (nat \<times> u32 \<times> 16 word list) option" where
  "entry_at buffer i =
     (case (read_u32 buffer i, read_u32 buffer (i + 4), read_u32 buffer (i + 8)) of
        (Some following, Some action, Some nameLength) \<Rightarrow> map_option (\<lambda>name. (unat following, action, name)) (read_u16s buffer (i + 12) (unat nameLength div 2))
      | _ \<Rightarrow> None)"

lemma entry_at_inside: "entry_at buffer i = Some x \<Longrightarrow> i < length buffer"
  by (auto simp: entry_at_def read_u32_def split: option.splits if_splits)

function entries_from :: "u8 list \<Rightarrow> nat \<Rightarrow> (u32 \<times> 16 word list) list option" where
  "entries_from buffer i =
     (case entry_at buffer i of
        None \<Rightarrow> None
      | Some (following, action, name) \<Rightarrow>
          if following \<noteq> 0 then map_option ((#) (action, name)) (entries_from buffer (i + following)) else Some [(action, name)])"
  by pat_completeness auto
termination by (relation "measure (\<lambda>(buffer, i). length buffer - i)") (auto dest!: entry_at_inside)

declare entries_from.simps [simp del]

text \<open>\<open>CollectPaths\<close> on the buffer; \<open>to_path\<close> makes a path of the wide characters of a name.\<close>

definition CollectPaths_bytes :: "(16 word list \<Rightarrow> rel) \<Rightarrow> (rel \<Rightarrow> bool) \<Rightarrow> u8 list \<Rightarrow> SDirectoryChanges \<Rightarrow> SDirectoryChanges option" where
  "CollectPaths_bytes to_path is_dir buffer changes =
     map_option (\<lambda>es. CollectPaths is_dir (map (\<lambda>(a, name). (action_of a, to_path name)) es) changes) (entries_from buffer 0)"

subsection \<open>What the systems write\<close>

lemma word_of_bytes_in_memory: "bytes_in_memory w = [a, b, c, d] \<Longrightarrow> word_of_bytes a b c d = w"
proof -
  assume "bytes_in_memory w = [a, b, c, d]"
  then have parts: "a = ucast w" "b = ucast (drop_bit 8 w)" "c = ucast (drop_bit 16 w)" "d = ucast (drop_bit 24 w)"
    by (simp_all add: bytes_in_memory_def)
  have "bit (word_of_bytes a b c d) n = bit w n" if "n < 32" for n
  proof -
    consider "n < 8" | "8 \<le> n" "n < 16" | "16 \<le> n" "n < 24" | "24 \<le> n" by linarith
    then show ?thesis by cases (use that in \<open>auto simp: word_of_bytes_def parts bit_simps\<close>)
  qed
  then show ?thesis by (intro bit_word_eqI) simp
qed

lemma read_u32_word: "read_u32 (xs @ bytes_in_memory w @ ys) (length xs) = Some w"
proof -
  obtain a b c d where bytes: "bytes_in_memory w = [a, b, c, d]" by (simp add: bytes_in_memory_def)
  then have "read_u32 (xs @ bytes_in_memory w @ ys) (length xs) = Some (word_of_bytes a b c d)"
    by (simp add: read_u32_def nth_append)
  then show ?thesis using word_of_bytes_in_memory [OF bytes] by simp
qed

text \<open>An event as inotify writes it: its header, then the name with at least one zero, when there is a name.\<close>

record kernel_event =
  k_wd :: u32
  k_mask :: u32
  k_cookie :: u32
  k_name :: "u8 list"
  k_padding :: nat

definition name_field :: "kernel_event \<Rightarrow> u8 list" where
  "name_field e = (if k_name e = [] then [] else k_name e @ replicate (Suc (k_padding e)) 0)"

definition event_bytes :: "kernel_event \<Rightarrow> u8 list" where
  "event_bytes e =
     bytes_in_memory (k_wd e) @ bytes_in_memory (k_mask e) @ bytes_in_memory (k_cookie e) @ bytes_in_memory (of_nat (length (name_field e))) @ name_field e"

definition well_formed_event :: "kernel_event \<Rightarrow> bool" where
  "well_formed_event e \<longleftrightarrow> 0 \<notin> set (k_name e) \<and> length (name_field e) < 2 ^ 32"

definition event_of :: "kernel_event \<Rightarrow> inotify_event" where
  "event_of e = \<lparr>e_wd = sint (k_wd e), e_mask = k_mask e, e_name = map (\<lambda>b. char_of (unat b)) (k_name e)\<rparr>"

lemma length_event_bytes: "length (event_bytes e) = sizeof_inotify_event + length (name_field e)"
  by (simp add: event_bytes_def sizeof_inotify_event_def)

lemma c_string_padded: "0 \<notin> set name \<Longrightarrow> c_string (name @ 0 # rest) = Some (map (\<lambda>b. char_of (unat b)) name)"
proof -
  assume "0 \<notin> set name"
  then have "takeWhile (\<lambda>b. b \<noteq> 0) (name @ 0 # rest) = name" by (induction name) auto
  then show ?thesis by (simp add: c_string_def)
qed

lemma event_at_event_bytes:
  assumes "well_formed_event e"
  shows "event_at (xs @ event_bytes e @ ys) (length xs) = Some (event_of e, length (name_field e))"
proof -
  let ?len = "of_nat (length (name_field e)) :: u32"
  let ?buffer = "xs @ event_bytes e @ ys"
  have len: "unat ?len = length (name_field e)"
    using assms by (simp add: well_formed_event_def unat_of_nat)
  have wd: "read_u32 ?buffer (length xs) = Some (k_wd e)"
    by (simp add: event_bytes_def read_u32_word)
  have mask: "read_u32 ?buffer (length xs + 4) = Some (k_mask e)"
    using read_u32_word [of "xs @ bytes_in_memory (k_wd e)"] by (simp add: event_bytes_def)
  have field: "read_u32 ?buffer (length xs + 12) = Some ?len"
    using read_u32_word [of "xs @ bytes_in_memory (k_wd e) @ bytes_in_memory (k_mask e) @ bytes_in_memory (k_cookie e)"] by (simp add: event_bytes_def)
  have body: "drop (length xs + sizeof_inotify_event) ?buffer = name_field e @ ys"
    by (simp add: event_bytes_def sizeof_inotify_event_def)
  have "?len > 0 \<longleftrightarrow> k_name e \<noteq> []"
    using len by (auto simp: word_greater_zero_iff name_field_def simp flip: unat_eq_0)
  moreover have "k_name e \<noteq> [] \<Longrightarrow> c_string (name_field e @ ys) = Some (e_name (event_of e))"
    using assms c_string_padded [of "k_name e" "replicate (k_padding e) 0 @ ys"] by (simp add: name_field_def well_formed_event_def event_of_def)
  ultimately show ?thesis
    unfolding event_at_def wd mask field body using len by (simp add: event_of_def)
qed

lemma events_from_event_bytes:
  "\<forall>e\<in>set es. well_formed_event e \<Longrightarrow>
   events_from (xs @ concat (map event_bytes es) @ rest) (length xs + length (concat (map event_bytes es))) (length xs) = Some (map event_of es)"
proof (induction es arbitrary: xs)
  case Nil
  then show ?case by (simp add: events_from.simps)
next
  case (Cons e es)
  have "event_at (xs @ event_bytes e @ concat (map event_bytes es) @ rest) (length xs) = Some (event_of e, length (name_field e))"
    using Cons.prems by (intro event_at_event_bytes) simp
  moreover have "events_from ((xs @ event_bytes e) @ concat (map event_bytes es) @ rest)
      (length (xs @ event_bytes e) + length (concat (map event_bytes es))) (length (xs @ event_bytes e)) = Some (map event_of es)"
    using Cons.prems by (intro Cons.IH) simp
  ultimately show ?case
    by (subst events_from.simps) (simp add: length_event_bytes sizeof_inotify_event_def add.assoc)
qed

text \<open>An entry as \<open>ReadDirectoryChangesW\<close> writes it: the offset of the next one, zero in the last, the action, the length in bytes, and the name, followed by what aligns the next.\<close>

record kernel_entry =
  n_action :: u32
  n_name :: "16 word list"
  n_gap :: nat

definition wide_bytes :: "16 word \<Rightarrow> u8 list" where
  "wide_bytes c = [ucast c, ucast (drop_bit 8 c)]"

definition entry_size :: "kernel_entry \<Rightarrow> nat" where
  "entry_size e = 12 + 2 * length (n_name e) + n_gap e"

definition entry_bytes :: "nat \<Rightarrow> kernel_entry \<Rightarrow> u8 list" where
  "entry_bytes following e =
     bytes_in_memory (of_nat following) @ bytes_in_memory (n_action e) @ bytes_in_memory (of_nat (2 * length (n_name e))) @
     concat (map wide_bytes (n_name e)) @ replicate (n_gap e) 0"

fun notify_bytes :: "kernel_entry list \<Rightarrow> u8 list" where
  "notify_bytes [] = []"
| "notify_bytes [e] = entry_bytes 0 e"
| "notify_bytes (e # f # es) = entry_bytes (entry_size e) e @ notify_bytes (f # es)"

lemma length_concat_wide_bytes [simp]: "length (concat (map wide_bytes cs)) = 2 * length cs"
  by (induction cs) (simp_all add: wide_bytes_def)

lemma length_entry_bytes: "length (entry_bytes following e) = entry_size e"
  by (simp add: entry_bytes_def entry_size_def)

lemma wide_of_bytes: "ucast (ucast c :: u8) OR push_bit 8 (ucast (ucast (drop_bit 8 c) :: u8)) = (c :: 16 word)"
proof -
  have "bit (ucast (ucast c :: u8) OR push_bit 8 (ucast (ucast (drop_bit 8 c) :: u8)) :: 16 word) n = bit c n" if "n < 16" for n
    by (cases "n < 8") (use that in \<open>auto simp: bit_simps\<close>)
  then show ?thesis by (intro bit_word_eqI) simp
qed

lemma nth_wide_bytes:
  "k < length cs \<Longrightarrow> (concat (map wide_bytes cs) @ ys) ! (2 * k) = ucast (cs ! k)"
  "k < length cs \<Longrightarrow> (concat (map wide_bytes cs) @ ys) ! Suc (2 * k) = ucast (drop_bit 8 (cs ! k))"
  by (induction cs arbitrary: k; auto simp: wide_bytes_def nth_Cons split: nat.splits)+

lemma read_u16s_wide_bytes: "read_u16s (xs @ concat (map wide_bytes cs) @ ys) (length xs) (length cs) = Some cs"
proof -
  have at: "(xs @ concat (map wide_bytes cs) @ ys) ! (length xs + j) = (concat (map wide_bytes cs) @ ys) ! j"
    "(xs @ concat (map wide_bytes cs) @ ys) ! Suc (length xs + j) = (concat (map wide_bytes cs) @ ys) ! Suc j" for j
    by (simp_all add: nth_append)
  have "map (\<lambda>k. ucast ((xs @ concat (map wide_bytes cs) @ ys) ! (length xs + 2 * k)) OR
          push_bit 8 (ucast ((xs @ concat (map wide_bytes cs) @ ys) ! (length xs + 2 * k + 1)))) [0..<length cs] = cs"
    by (rule nth_equalityI) (simp_all add: at nth_wide_bytes wide_of_bytes)
  then show ?thesis by (simp add: read_u16s_def)
qed

lemma entry_at_entry_bytes:
  assumes "following < 2 ^ 32" "2 * length (n_name e) < 2 ^ 32"
  shows "entry_at (xs @ entry_bytes following e @ ys) (length xs) = Some (following, n_action e, n_name e)"
proof -
  let ?buffer = "xs @ entry_bytes following e @ ys"
  let ?head = "xs @ bytes_in_memory (of_nat following)"
  let ?bytes = "of_nat (2 * length (n_name e)) :: u32"
  have next_offset: "read_u32 ?buffer (length xs) = Some (of_nat following)"
    by (simp add: entry_bytes_def read_u32_word)
  have action: "read_u32 ?buffer (length xs + 4) = Some (n_action e)"
    using read_u32_word [of ?head] by (simp add: entry_bytes_def)
  have bytes: "read_u32 ?buffer (length xs + 8) = Some ?bytes"
    using read_u32_word [of "?head @ bytes_in_memory (n_action e)" ?bytes] by (simp add: entry_bytes_def)
  have name: "read_u16s ?buffer (length xs + 12) (length (n_name e)) = Some (n_name e)"
    using read_u16s_wide_bytes [of "?head @ bytes_in_memory (n_action e) @ bytes_in_memory ?bytes"] by (simp add: entry_bytes_def)
  have "unat (of_nat following :: u32) = following" "unat ?bytes div 2 = length (n_name e)"
    using assms by (simp_all only: unat_of_nat len_of_numeral_defs mod_less) simp_all
  then show ?thesis
    unfolding entry_at_def next_offset action bytes by (simp add: name)
qed

definition well_formed_entry :: "kernel_entry \<Rightarrow> bool" where
  "well_formed_entry e \<longleftrightarrow> entry_size e < 2 ^ 32"

lemma entries_from_notify_bytes:
  "es \<noteq> [] \<Longrightarrow> \<forall>e\<in>set es. well_formed_entry e \<Longrightarrow>
   entries_from (xs @ notify_bytes es @ rest) (length xs) = Some (map (\<lambda>e. (n_action e, n_name e)) es)"
proof (induction es arbitrary: xs rule: notify_bytes.induct)
  case 1
  then show ?case by simp
next
  case (2 e)
  then have "entry_at (xs @ entry_bytes 0 e @ rest) (length xs) = Some (0, n_action e, n_name e)"
    by (intro entry_at_entry_bytes) (simp_all add: well_formed_entry_def entry_size_def)
  then show ?case by (subst entries_from.simps) simp
next
  case (3 e f es)
  then have "entry_at (xs @ entry_bytes (entry_size e) e @ notify_bytes (f # es) @ rest) (length xs) = Some (entry_size e, n_action e, n_name e)"
    by (intro entry_at_entry_bytes) (simp_all add: well_formed_entry_def entry_size_def)
  moreover have "entries_from ((xs @ entry_bytes (entry_size e) e) @ notify_bytes (f # es) @ rest) (length (xs @ entry_bytes (entry_size e) e)) =
      Some (map (\<lambda>e. (n_action e, n_name e)) (f # es))"
    using 3 by (intro "3.IH") simp_all
  moreover have "entry_size e \<noteq> 0" by (simp add: entry_size_def)
  ultimately show ?case by (subst entries_from.simps) (simp add: length_entry_bytes)
qed

subsection \<open>What the watch reads\<close>

text \<open>What one \<open>read\<close> returns: the events, the bytes behind them that it has left alone, and the count.\<close>

definition read_bytes :: "kernel_event list \<times> u8 list \<Rightarrow> u8 list \<times> nat" where
  "read_bytes = (\<lambda>(es, rest). (concat (map event_bytes es) @ rest, length (concat (map event_bytes es))))"

lemma all_events_read_bytes:
  "\<forall>(es, rest)\<in>set reads. \<forall>e\<in>set es. well_formed_event e \<Longrightarrow> all_events (map read_bytes reads) = Some (map (map event_of \<circ> fst) reads)"
proof (induction reads)
  case (Cons r reads)
  moreover obtain es rest where "r = (es, rest)" by (cases r)
  ultimately show ?case
    using events_from_event_bytes [of es "[]" rest] by (simp add: read_bytes_def)
qed simp

text \<open>C25.  Whatever number of events, with names of whatever length and padding, each \<open>read\<close> of inotify returns, \<open>ReadChanges\<close> takes exactly these events out of the buffer, in their
  order: it reads nothing outside of the bytes returned, skips no event and does not depend on what an earlier \<open>read\<close> left in the buffer.\<close>

theorem inotify_events_parsed:
  assumes "\<forall>(es, rest)\<in>set reads. \<forall>e\<in>set es. well_formed_event e"
  shows "linux_ReadChanges_bytes fuel w (map read_bytes reads) failure again s = linux_ReadChanges fuel w (map (map event_of \<circ> fst) reads) failure again s"
  using all_events_read_bytes [OF assms] by (simp add: linux_ReadChanges_bytes_def)

lemma inotify_events_parsed_witness:
  "all_events [read_bytes ([\<lparr>k_wd = 1, k_mask = 8, k_cookie = 0, k_name = [97], k_padding = 2\<rparr>], [7])] = Some [[\<lparr>e_wd = 1, e_mask = 8, e_name = ''a''\<rparr>]] \<and>
   linux_ReadChanges_bytes 0 undefined [read_bytes ([\<lparr>k_wd = 1, k_mask = 8, k_cookie = 0, k_name = [97], k_padding = 2\<rparr>], [7])] EAGAIN (Inr 1) undefined =
   linux_ReadChanges 0 undefined [[\<lparr>e_wd = 1, e_mask = 8, e_name = ''a''\<rparr>]] EAGAIN (Inr 1) undefined"
proof -
  let ?reads = "[([\<lparr>k_wd = 1, k_mask = 8, k_cookie = 0, k_name = [97], k_padding = 2\<rparr>], [7])]"
  have formed: "\<forall>(es, rest)\<in>set ?reads. \<forall>e\<in>set es. well_formed_event e"
    by (simp add: well_formed_event_def name_field_def)
  have events: "map (map event_of \<circ> fst) ?reads = [[\<lparr>e_wd = 1, e_mask = 8, e_name = ''a''\<rparr>]]"
    by (simp add: event_of_def char_of_def bit_Suc_0_iff)
  show ?thesis
    using inotify_events_parsed [OF formed, of 0 undefined EAGAIN "Inr 1" undefined] all_events_read_bytes [OF formed] unfolding events by simp
qed

text \<open>Whatever entries the system has written into the buffer, and whatever aligns them, \<open>CollectPaths\<close> finds every one of them with its action and its name and no other, and ends
  after the last.\<close>

theorem notify_entries_parsed:
  assumes "es \<noteq> []" "\<forall>e\<in>set es. well_formed_entry e"
  shows "CollectPaths_bytes to_path is_dir (notify_bytes es @ rest) changes =
     Some (CollectPaths is_dir (map (\<lambda>e. (action_of (n_action e), to_path (n_name e))) es) changes)"
  using entries_from_notify_bytes [OF assms, of "[]" rest] by (simp add: CollectPaths_bytes_def comp_def)

lemma notify_entries_parsed_witness:
  "CollectPaths_bytes (\<lambda>name. [map (\<lambda>c. char_of (unat c)) name]) (\<lambda>p. True)
     (notify_bytes [\<lparr>n_action = 1, n_name = [97, 98], n_gap = 0\<rparr>, \<lparr>n_action = 3, n_name = [99], n_gap = 2\<rparr>] @ [5]) \<lparr>c_paths = [], hasOverflowed = False\<rparr> =
   Some \<lparr>c_paths = [[''ab'']], hasOverflowed = False\<rparr>"
proof -
  let ?es = "[\<lparr>n_action = 1, n_name = [97, 98], n_gap = 0\<rparr>, \<lparr>n_action = 3, n_name = [99], n_gap = 2\<rparr>]"
  have formed: "?es \<noteq> []" "\<forall>e\<in>set ?es. well_formed_entry e"
    by (simp_all add: well_formed_entry_def entry_size_def)
  show ?thesis
    unfolding notify_entries_parsed [OF formed] by (simp add: action_of_def FILE_ACTION_MODIFIED_def char_of_def bit_Suc_0_iff)
qed

end
