(* ===== verification/Transform.thy ===== *)
theory Transform
  imports Intersection
begin

section \<open>Vectors and transforms\<close>

text \<open>
  Models parts of \<^verbatim>\<open>public/tge/math/functions.hpp\<close> and \<^verbatim>\<open>private/math/transform.cpp\<close> in single precision: the order of vectors that maps use, and
  how a matrix is taken apart into position, rotation and scale; and the intersection of a ray with a sphere.  The functions of GLM that are called are arguments, and its
  quaternion is a type of which nothing is known; the operators of a vector work on its components.
\<close>

subsection \<open>Functions\<close>

definition LengthSquared :: "(Vec3 \<Rightarrow> Vec3 \<Rightarrow> float32) \<Rightarrow> Vec3 \<Rightarrow> float32" where
  "LengthSquared dot v = dot v v"

definition f_noteq :: "float32 \<Rightarrow> float32 \<Rightarrow> bool" where
  "f_noteq x y \<longleftrightarrow> x \<noteq> y \<or> x = NaN"

definition Vec3LexicographicLess :: "Vec3 \<Rightarrow> Vec3 \<Rightarrow> bool" where
  "Vec3LexicographicLess a b =
     (if f_noteq (v_x a) (v_x b) then f_less (v_x a) (v_x b)
      else if f_noteq (v_y a) (v_y b) then f_less (v_y a) (v_y b)
      else f_less (v_z a) (v_z b))"

definition Vec3_of :: "(nat \<Rightarrow> float32) \<Rightarrow> Vec3" where
  "Vec3_of column = \<lparr> v_x = column 0, v_y = column 1, v_z = column 2 \<rparr>"

definition GetRightVector :: "Mat4 \<Rightarrow> Vec3" where "GetRightVector m = Vec3_of (m 0)"
definition GetUpVector :: "Mat4 \<Rightarrow> Vec3" where "GetUpVector m = Vec3_of (m 1)"
definition GetForwardVector :: "Mat4 \<Rightarrow> Vec3" where "GetForwardVector m = Vec3_of (m 2)"
definition GetTranslation :: "Mat4 \<Rightarrow> Vec3" where "GetTranslation m = Vec3_of (m 3)"

lemma f_less_trans: "f_less x y \<Longrightarrow> f_less y z \<Longrightarrow> f_less x z"
  by (auto simp: f_less_def split: float32.splits)

lemma f_less_irrefl [simp]: "\<not> f_less x x"
  by (auto simp: f_less_def split: float32.splits)

lemma f_less_total: "x \<noteq> NaN \<Longrightarrow> y \<noteq> NaN \<Longrightarrow> x \<noteq> y \<Longrightarrow> f_less x y \<or> f_less y x"
  by (auto simp: f_less_def split: float32.splits)

definition no_NaN :: "Vec3 \<Rightarrow> bool" where
  "no_NaN v \<longleftrightarrow> v_x v \<noteq> NaN \<and> v_y v \<noteq> NaN \<and> v_z v \<noteq> NaN"

text \<open>Without a NaN the order is total and strict, so that a map can use it as its order.\<close>

lemma lexicographic_trans:
  "no_NaN a \<Longrightarrow> no_NaN b \<Longrightarrow> no_NaN c \<Longrightarrow> Vec3LexicographicLess a b \<Longrightarrow> Vec3LexicographicLess b c \<Longrightarrow> Vec3LexicographicLess a c"
  by (auto simp: Vec3LexicographicLess_def f_noteq_def no_NaN_def dest: f_less_trans split: if_splits)

lemma lexicographic_total:
  "no_NaN a \<Longrightarrow> no_NaN b \<Longrightarrow> a = b \<or> Vec3LexicographicLess a b \<or> Vec3LexicographicLess b a"
  using f_less_total by (cases a; cases b) (auto simp: Vec3LexicographicLess_def f_noteq_def no_NaN_def)
lemma lexicographic_strict: "\<not> Vec3LexicographicLess a a"
  by (simp add: Vec3LexicographicLess_def)

text \<open>With one, neither of two vectors may come before a third, although one of them comes before the other: not an order a map can use.\<close>

lemma NaN_breaks_order:
  defines "u \<equiv> \<lparr> v_x = NaN, v_y = Fin 0, v_z = Fin 0 \<rparr>"
  shows "\<not> Vec3LexicographicLess (whole_vec 1 0 0) u \<and> \<not> Vec3LexicographicLess u (whole_vec 1 0 0)
    \<and> \<not> Vec3LexicographicLess (whole_vec 2 0 0) u \<and> \<not> Vec3LexicographicLess u (whole_vec 2 0 0)
    \<and> Vec3LexicographicLess (whole_vec 1 0 0) (whole_vec 2 0 0)"
  by (simp add: u_def Vec3LexicographicLess_def f_noteq_def whole_vec_def f_less_def whole_def)

subsection \<open>Transforms\<close>

record 'q CTransform =
  t_position :: Vec3
  t_rotation :: 'q
  t_scale :: Vec3

text \<open>A matrix of three columns.\<close>

type_synonym Mat3 = "Vec3 list"

definition vec_div :: "Vec3 \<Rightarrow> float32 \<Rightarrow> Vec3" where
  "vec_div v s = \<lparr> v_x = f_div (v_x v) s, v_y = f_div (v_y v) s, v_z = f_div (v_z v) s \<rparr>"

definition IdentityMat3 :: Mat3 where
  "IdentityMat3 = [whole_vec 1 0 0, whole_vec 0 1 0, whole_vec 0 0 1]"

definition set_column :: "nat \<Rightarrow> Vec3 \<Rightarrow> float32 \<Rightarrow> Mat3 \<Rightarrow> Mat3" where
  "set_column c basis s m = (if f_noteq s (Fin 0) then m[c := vec_div basis s] else m)"

definition FromMatrix ::
    "(Vec3 \<Rightarrow> Vec3 \<Rightarrow> float32) \<Rightarrow> (Vec3 \<Rightarrow> Vec3 \<Rightarrow> Vec3) \<Rightarrow> (Vec3 \<Rightarrow> float32) \<Rightarrow> (Mat3 \<Rightarrow> 'q) \<Rightarrow> Mat4 \<Rightarrow> 'q CTransform" where
  "FromMatrix dot cross length_of QuaternionFromMatrix matrix =
     (let position = Vec3_of (matrix 3);
          scale_x = Vec3_of (matrix 0); scale_y = Vec3_of (matrix 1); scale_z = Vec3_of (matrix 2);
          determinant = dot (cross scale_x scale_y) scale_z;
          signX = (if f_less determinant (Fin 0) then Fin (whole (- 1)) else Fin (whole 1));
          scale = \<lparr> v_x = f_mul signX (length_of scale_x), v_y = length_of scale_y, v_z = length_of scale_z \<rparr>;
          rotationMatrix = set_column 2 scale_z (v_z scale) (set_column 1 scale_y (v_y scale) (set_column 0 scale_x (v_x scale) IdentityMat3))
      in \<lparr> t_position = position, t_rotation = QuaternionFromMatrix rotationMatrix, t_scale = scale \<rparr>)"

definition ToMatrix ::
    "(Vec3 \<Rightarrow> 'm) \<Rightarrow> ('q \<Rightarrow> 'm) \<Rightarrow> (Vec3 \<Rightarrow> 'm) \<Rightarrow> ('m \<Rightarrow> 'm \<Rightarrow> 'm) \<Rightarrow> 'q CTransform \<Rightarrow> 'm" where
  "ToMatrix Translate QuaternionToMatrix Scale product t =
     (let translationMatrix = Translate (t_position t); rotationMatrix = QuaternionToMatrix (t_rotation t); scaleMatrix = Scale (t_scale t)
      in product (product translationMatrix rotationMatrix) scaleMatrix)"

text \<open>Matrices of whole numbers: \<open>R c r\<close> is row \<open>r\<close> of column \<open>c\<close>.\<close>

definition int_det :: "(nat \<Rightarrow> nat \<Rightarrow> int) \<Rightarrow> int" where
  "int_det R = (R 0 1 * R 1 2 - R 0 2 * R 1 1) * R 2 0 + (R 0 2 * R 1 0 - R 0 0 * R 1 2) * R 2 1 + (R 0 0 * R 1 1 - R 0 1 * R 1 0) * R 2 2"

definition gram :: "(nat \<Rightarrow> nat \<Rightarrow> int) \<Rightarrow> nat \<Rightarrow> nat \<Rightarrow> int" where
  "gram R c c' = R c 0 * R c' 0 + R c 1 * R c' 1 + R c 2 * R c' 2"

definition orthonormal :: "(nat \<Rightarrow> nat \<Rightarrow> int) \<Rightarrow> bool" where
  "orthonormal R \<longleftrightarrow> gram R 0 0 = 1 \<and> gram R 1 1 = 1 \<and> gram R 2 2 = 1 \<and> gram R 0 1 = 0 \<and> gram R 0 2 = 0 \<and> gram R 1 2 = 0"

definition columns_of :: "(nat \<Rightarrow> nat \<Rightarrow> int) \<Rightarrow> Mat3" where
  "columns_of R = map (\<lambda>c. whole_vec (R c 0) (R c 1) (R c 2)) [0, 1, 2]"

lemma det_orthonormal: "orthonormal R \<Longrightarrow> int_det R * int_det R = 1"
  unfolding orthonormal_def gram_def int_det_def by algebra

lemma f_div_whole: "k \<noteq> 0 \<Longrightarrow> \<bar>e\<bar> \<le> 2 ^ 24 \<Longrightarrow> f_div (Fin (whole (e * k))) (Fin (whole k)) = Fin (whole e)"
proof -
  assume k: "k \<noteq> 0" and e: "\<bar>e\<bar> \<le> 2 ^ 24"
  show ?thesis
  proof (cases "0 < k")
    case True
    then have "0 < whole k" by (simp add: whole_def)
    moreover have "whole (e * k) * 2 ^ 149 = whole e * whole k" by (simp add: whole_def)
    ultimately show ?thesis using rounded_whole [OF _ e, of "whole k"] by (simp add: f_div_def)
  next
    case False
    with k have "whole k < 0" by (simp add: whole_def)
    moreover have "- whole (e * k) * 2 ^ 149 = whole e * - whole k" by (simp add: whole_def)
    ultimately show ?thesis using rounded_whole [OF _ e, of "- whole k"] by (simp add: f_div_def)
  qed
qed

lemma vec_div_whole:
  "k \<noteq> 0 \<Longrightarrow> \<bar>a\<bar> \<le> 1 \<Longrightarrow> \<bar>b\<bar> \<le> 1 \<Longrightarrow> \<bar>c\<bar> \<le> 1 \<Longrightarrow> vec_div (whole_vec (a * k) (b * k) (c * k)) (Fin (whole k)) = whole_vec a b c"
  by (simp add: vec_div_def whole_vec_def f_div_whole)

lemma unit_entry:
  fixes a b c :: int
  assumes "a * a + b * b + c * c = 1"
  shows "\<bar>a\<bar> \<le> 1" "\<bar>b\<bar> \<le> 1" "\<bar>c\<bar> \<le> 1"
proof -
  have small: "x * x \<le> 1 \<Longrightarrow> \<bar>x\<bar> \<le> 1" for x :: int
    using abs_le_square_iff [of x 1] by (simp add: power2_eq_square)
  have squares: "0 \<le> a * a" "0 \<le> b * b" "0 \<le> c * c" by simp_all
  show "\<bar>a\<bar> \<le> 1" using squares assms by (intro small) linarith
  show "\<bar>b\<bar> \<le> 1" using squares assms by (intro small) linarith
  show "\<bar>c\<bar> \<le> 1" using squares assms by (intro small) linarith
qed

text \<open>
  A matrix that scales the columns of \<open>R\<close> by \<open>k\<close>, with a position; its last row is not read.
\<close>

definition scaled_matrix :: "(nat \<Rightarrow> nat \<Rightarrow> int) \<Rightarrow> (nat \<Rightarrow> int) \<Rightarrow> (nat \<Rightarrow> float32) \<Rightarrow> Mat4" where
  "scaled_matrix R k position c r = (if c = 3 then position r else Fin (whole (R c r * k c)))"

text \<open>Where the calls of GLM on the three columns are exact.\<close>

definition exact_on :: "(nat \<Rightarrow> nat \<Rightarrow> int) \<Rightarrow> (nat \<Rightarrow> int) \<Rightarrow> (Vec3 \<Rightarrow> Vec3 \<Rightarrow> float32) \<Rightarrow> (Vec3 \<Rightarrow> Vec3 \<Rightarrow> Vec3) \<Rightarrow> (Vec3 \<Rightarrow> float32) \<Rightarrow> bool" where
  "exact_on R k dot cross length_of \<longleftrightarrow>
     (let M = (\<lambda>c r. R c r * k c); column = (\<lambda>c. whole_vec (M c 0) (M c 1) (M c 2))
      in dot (cross (column 0) (column 1)) (column 2) = Fin (whole (int_det M))
         \<and> length_of (column 0) = Fin (whole (k 0)) \<and> length_of (column 1) = Fin (whole (k 1)) \<and> length_of (column 2) = Fin (whole (k 2)))"

lemma det_scaled: "int_det (\<lambda>c r. R c r * k c) = int_det R * (k 0 * k 1 * k 2)"
  by (simp add: int_det_def algebra_simps)

lemma mirror_decomposed:
  assumes R: "orthonormal R" and k: "\<forall>c<3. 0 < k c \<and> k c \<le> 2 ^ 24" and exact: "exact_on R k dot cross length_of"
  shows "FromMatrix dot cross length_of cast (scaled_matrix R k position) =
    \<lparr> t_position = Vec3_of position, t_rotation = cast (columns_of (R(0 := \<lambda>r. int_det R * R 0 r))), t_scale = whole_vec (int_det R * k 0) (k 1) (k 2) \<rparr>"
proof -
  let ?column = "\<lambda>c. whole_vec (R c 0 * k c) (R c 1 * k c) (R c 2 * k c)"
  let ?d = "int_det R"
  have positive: "0 < k 0" "0 < k 1" "0 < k 2" and small: "k 0 \<le> 2 ^ 24"
    using k by auto
  have columns: "Vec3_of (scaled_matrix R k position 0) = ?column 0" "Vec3_of (scaled_matrix R k position 1) = ?column 1" "Vec3_of (scaled_matrix R k position 2) = ?column 2"
    by (simp_all add: Vec3_of_def scaled_matrix_def whole_vec_def)
  have d: "?d = 1 \<or> ?d = - 1"
    using det_orthonormal [OF R] by (simp add: zmult_eq_1_iff)
  have determinant: "dot (cross (?column 0) (?column 1)) (?column 2) = Fin (whole (?d * (k 0 * k 1 * k 2)))"
    using exact by (simp add: exact_on_def Let_def det_scaled)
  have negative: "f_less (Fin (whole (?d * p))) (Fin 0) \<longleftrightarrow> ?d = - 1" if "0 < p" for p
    using d that by (auto simp: whole_def)
  have sign: "f_less (Fin (whole (?d * (k 0 * k 1 * k 2)))) (Fin 0) \<longleftrightarrow> ?d = - 1"
    by (rule negative) (intro mult_pos_pos positive)
  have lengths: "length_of (?column 0) = Fin (whole (k 0))" "length_of (?column 1) = Fin (whole (k 1))" "length_of (?column 2) = Fin (whole (k 2))"
    using exact by (simp_all add: exact_on_def Let_def)
  have scale_x: "f_mul (if f_less (Fin (whole (?d * (k 0 * k 1 * k 2)))) (Fin 0) then Fin (whole (- 1)) else Fin (whole 1)) (Fin (whole (k 0))) = Fin (whole (?d * k 0))"
    unfolding sign using d positive small by (auto simp: f_mul_whole)
  have entries: "\<bar>R c 0\<bar> \<le> 1" "\<bar>R c 1\<bar> \<le> 1" "\<bar>R c 2\<bar> \<le> 1" if "gram R c c = 1" for c
    using unit_entry [of "R c 0" "R c 1" "R c 2"] that by (simp_all add: gram_def)
  have unit: "gram R 0 0 = 1" "gram R 1 1 = 1" "gram R 2 2 = 1" using R by (simp_all add: orthonormal_def)
  have first: "vec_div (?column 0) (Fin (whole (?d * k 0))) = whole_vec (?d * R 0 0) (?d * R 0 1) (?d * R 0 2)"
  proof -
    have "whole_vec (?d * R 0 0 * (?d * k 0)) (?d * R 0 1 * (?d * k 0)) (?d * R 0 2 * (?d * k 0)) = ?column 0"
      using d by auto
    moreover have "?d * k 0 \<noteq> 0" "\<bar>?d * R 0 0\<bar> \<le> 1" "\<bar>?d * R 0 1\<bar> \<le> 1" "\<bar>?d * R 0 2\<bar> \<le> 1"
      using d positive entries [OF unit(1)] by auto
    ultimately show ?thesis using vec_div_whole by metis
  qed
  have others: "vec_div (?column 1) (Fin (whole (k 1))) = whole_vec (R 1 0) (R 1 1) (R 1 2)"
      "vec_div (?column 2) (Fin (whole (k 2))) = whole_vec (R 2 0) (R 2 1) (R 2 2)"
    using positive entries [OF unit(2)] entries [OF unit(3)] by (simp_all add: vec_div_whole)
  have given: "f_noteq (Fin (whole (?d * k 0))) (Fin 0)" "f_noteq (Fin (whole (k 1))) (Fin 0)" "f_noteq (Fin (whole (k 2))) (Fin 0)"
    using d positive by (auto simp: whole_def f_noteq_def)
  have position: "Vec3_of (scaled_matrix R k position 3) = Vec3_of position"
    by (simp add: Vec3_of_def scaled_matrix_def)
  show ?thesis
    unfolding FromMatrix_def Let_def position columns determinant lengths scale_x
    by (simp add: set_column_def given [simplified] first [simplified] others [simplified] IdentityMat3_def columns_of_def whole_vec_def [of "?d * k 0" "k 1" "k 2", simplified])
qed

lemma mirror_is_rotation: "orthonormal R \<Longrightarrow> orthonormal (R(0 := \<lambda>r. int_det R * R 0 r)) \<and> int_det (R(0 := \<lambda>r. int_det R * R 0 r)) = 1"
proof -
  assume R: "orthonormal R"
  define d where "d = int_det R"
  have d: "d = 1 \<or> d = - 1" using det_orthonormal [OF R] by (simp add: d_def zmult_eq_1_iff)
  have "int_det (R(0 := \<lambda>r. d * R 0 r)) = d * int_det R" by (simp add: int_det_def algebra_simps)
  moreover have "orthonormal (R(0 := \<lambda>r. d * R 0 r))"
    using d R by (auto simp: orthonormal_def gram_def)
  ultimately show ?thesis using d by (auto simp: d_def)
qed

text \<open>C30.  A matrix that rotates by quarter turns, scales by any whole numbers and may mirror is taken apart into its position, a scale and what a proper rotation makes of a quaternion: the
  mirror is carried by the sign of the first scale alone, and rotation times scale gives every entry of the matrix back exactly.\<close>

theorem mirrors_survive:
  assumes "orthonormal R" "\<forall>c<3. 0 < k c \<and> k c \<le> 2 ^ 24" "exact_on R k dot cross length_of"
  shows "\<exists>Q s. orthonormal Q \<and> int_det Q = 1 \<and>
     FromMatrix dot cross length_of cast (scaled_matrix R k position) =
       \<lparr> t_position = Vec3_of position, t_rotation = cast (columns_of Q), t_scale = whole_vec (s 0) (s 1) (s 2) \<rparr> \<and>
     (\<forall>c<3. \<forall>r<3. f_mul (Fin (whole (Q c r))) (Fin (whole (s c))) = scaled_matrix R k position c r)"
proof (intro exI conjI)
  let ?d = "int_det R" and ?Q = "R(0 := \<lambda>r. int_det R * R 0 r)" and ?s = "k(0 := int_det R * k 0)"
  show Q: "orthonormal ?Q" "int_det ?Q = 1" using mirror_is_rotation [OF assms(1)] by simp_all
  show "FromMatrix dot cross length_of cast (scaled_matrix R k position) =
      \<lparr> t_position = Vec3_of position, t_rotation = cast (columns_of ?Q), t_scale = whole_vec (?s 0) (?s 1) (?s 2) \<rparr>"
    using mirror_decomposed [OF assms, of cast position] by simp
  have d: "?d * ?d = 1" "?d = 1 \<or> ?d = - 1" using det_orthonormal [OF assms(1)] by (simp_all add: zmult_eq_1_iff)
  show "\<forall>c<3. \<forall>r<3. f_mul (Fin (whole (?Q c r))) (Fin (whole (?s c))) = scaled_matrix R k position c r"
  proof (intro allI impI)
    fix c r :: nat
    assume c: "c < 3" and r: "r < 3"
    have "gram R c c = 1" using assms(1) c by (auto simp: orthonormal_def numeral_3_eq_3 numeral_2_eq_2 less_Suc_eq)
    then have "\<bar>R c 0\<bar> \<le> 1" "\<bar>R c 1\<bar> \<le> 1" "\<bar>R c 2\<bar> \<le> 1"
      using unit_entry [of "R c 0" "R c 1" "R c 2"] by (simp_all add: gram_def)
    then have "\<bar>R c r\<bar> \<le> 1" using r by (auto simp: numeral_3_eq_3 numeral_2_eq_2 less_Suc_eq)
    moreover have k: "0 < k c" "k c \<le> 2 ^ 24" using assms(2) c by auto
    ultimately have "\<bar>R c r * k c\<bar> \<le> 2 ^ 24" using mult_mono [of "\<bar>R c r\<bar>" 1 "k c" "2 ^ 24"] by (simp add: abs_mult)
    moreover have "?Q c r * ?s c = R c r * k c" using d(2) by auto
    ultimately show "f_mul (Fin (whole (?Q c r))) (Fin (whole (?s c))) = scaled_matrix R k position c r"
      using c by (simp add: f_mul_whole scaled_matrix_def)
  qed
qed

text \<open>A quarter turn about the z axis with a mirror, as GLM would have its lengths.\<close>

definition quarter_mirror :: "nat \<Rightarrow> nat \<Rightarrow> int" where
  "quarter_mirror c r = (if (c, r) = (0, 1) \<or> (c, r) = (1, 0) \<or> (c, r) = (2, 2) then 1 else 0)"

definition on_axis_length :: "Vec3 \<Rightarrow> float32" where
  "on_axis_length v = Math_Max (f_abs (v_x v)) (Math_Max (f_abs (v_y v)) (f_abs (v_z v)))"

definition sum_cross :: "Vec3 \<Rightarrow> Vec3 \<Rightarrow> Vec3" where
  "sum_cross a b =
     \<lparr> v_x = f_sub (f_mul (v_y a) (v_z b)) (f_mul (v_z a) (v_y b)),
       v_y = f_sub (f_mul (v_z a) (v_x b)) (f_mul (v_x a) (v_z b)),
       v_z = f_sub (f_mul (v_x a) (v_y b)) (f_mul (v_y a) (v_x b)) \<rparr>"

lemma sum_cross_whole:
  "\<bar>a\<bar> \<le> 2 ^ 11 \<Longrightarrow> \<bar>b\<bar> \<le> 2 ^ 11 \<Longrightarrow> \<bar>c\<bar> \<le> 2 ^ 11 \<Longrightarrow> \<bar>x\<bar> \<le> 2 ^ 11 \<Longrightarrow> \<bar>y\<bar> \<le> 2 ^ 11 \<Longrightarrow> \<bar>z\<bar> \<le> 2 ^ 11 \<Longrightarrow>
   sum_cross (whole_vec a b c) (whole_vec x y z) = whole_vec (b * z - c * y) (c * x - a * z) (a * y - b * x)"
proof -
  have product: "\<bar>i * j\<bar> \<le> 2 ^ 22" if "\<bar>i\<bar> \<le> 2 ^ 11" "\<bar>j\<bar> \<le> 2 ^ 11" for i j :: int
    using mult_mono [OF that] by (simp add: abs_mult)
  have difference: "f_sub (f_mul (Fin (whole i)) (Fin (whole j))) (f_mul (Fin (whole m)) (Fin (whole n))) = Fin (whole (i * j - m * n))"
    if "\<bar>i\<bar> \<le> 2 ^ 11" "\<bar>j\<bar> \<le> 2 ^ 11" "\<bar>m\<bar> \<le> 2 ^ 11" "\<bar>n\<bar> \<le> 2 ^ 11" for i j m n
    using product [OF that(1,2)] product [OF that(3,4)] by (simp add: f_mul_whole f_sub_whole)
  assume "\<bar>a\<bar> \<le> 2 ^ 11" "\<bar>b\<bar> \<le> 2 ^ 11" "\<bar>c\<bar> \<le> 2 ^ 11" "\<bar>x\<bar> \<le> 2 ^ 11" "\<bar>y\<bar> \<le> 2 ^ 11" "\<bar>z\<bar> \<le> 2 ^ 11"
  then show ?thesis by (simp add: sum_cross_def whole_vec_def difference)
qed

lemma quarter_mirror_exact: "exact_on quarter_mirror (\<lambda>c. int c + 2) sum_dot sum_cross on_axis_length"
proof -
  have "sum_cross (whole_vec 0 2 0) (whole_vec 3 0 0) = whole_vec 0 0 (- 6)" by (simp add: sum_cross_whole)
  moreover have "sum_dot (whole_vec 0 0 (- 6)) (whole_vec 0 0 4) = Fin (whole (- 24))" using glm.dot_whole [of 0 0 0 0 "- 6" 4] by simp
  ultimately show ?thesis
    by (simp add: exact_on_def Let_def quarter_mirror_def int_det_def on_axis_length_def whole_vec_def f_abs_def Math_Max_def)
      (simp add: whole_def)
qed

lemma mirrors_survive_witness:
  "int_det quarter_mirror = - 1 \<and>
   (\<exists>Q (s :: nat \<Rightarrow> int). orthonormal Q \<and> int_det Q = 1 \<and>
     FromMatrix sum_dot sum_cross on_axis_length id (scaled_matrix quarter_mirror (\<lambda>c. int c + 2) (\<lambda>r. Fin 0)) =
       \<lparr> t_position = Vec3_of (\<lambda>r. Fin 0), t_rotation = columns_of Q, t_scale = whole_vec (s 0) (s 1) (s 2) \<rparr>)"
proof
  show "int_det quarter_mirror = - 1" by (simp add: int_det_def quarter_mirror_def)
  have "orthonormal quarter_mirror" by (simp add: orthonormal_def gram_def quarter_mirror_def)
  moreover have "\<forall>c<3. 0 < int c + 2 \<and> int c + 2 \<le> 2 ^ 24" by auto
  ultimately show "\<exists>Q (s :: nat \<Rightarrow> int). orthonormal Q \<and> int_det Q = 1 \<and>
     FromMatrix sum_dot sum_cross on_axis_length id (scaled_matrix quarter_mirror (\<lambda>c. int c + 2) (\<lambda>r. Fin 0)) =
       \<lparr> t_position = Vec3_of (\<lambda>r. Fin 0), t_rotation = columns_of Q, t_scale = whole_vec (s 0) (s 1) (s 2) \<rparr>"
    using mirrors_survive [OF _ _ quarter_mirror_exact, of id "\<lambda>r. Fin 0"] by fastforce
qed

text \<open>
  A matrix that turns by a quarter and has no extent along its second axis is not: the column that is missing is filled from the identity and equals the first one, so that
  what is handed on as a rotation is none.
\<close>

lemma flattened_is_no_rotation:
  assumes "0 < a" "a \<le> 2 ^ 24" "0 < b" "b \<le> 2 ^ 24"
    and "dot (cross (whole_vec 0 a 0) (whole_vec 0 0 0)) (whole_vec 0 0 b) = Fin (whole 0)"
    and "length_of (whole_vec 0 a 0) = Fin (whole a)" "length_of (whole_vec 0 0 0) = Fin (whole 0)" "length_of (whole_vec 0 0 b) = Fin (whole b)"
  shows "t_rotation (FromMatrix dot cross length_of cast
      (\<lambda>c. if c = 0 then (\<lambda>r. Fin (whole (if r = 1 then a else 0))) else if c = 2 then (\<lambda>r. Fin (whole (if r = 2 then b else 0))) else (\<lambda>r. Fin (whole 0)))) =
    cast [whole_vec 0 1 0, whole_vec 0 1 0, whole_vec 0 0 1]"
proof -
  have divisions: "vec_div (whole_vec 0 a 0) (Fin (whole a)) = whole_vec 0 1 0" "vec_div (whole_vec 0 0 b) (Fin (whole b)) = whole_vec 0 0 1"
    using vec_div_whole [of a 0 1 0] vec_div_whole [of b 0 0 1] assms(1,3) by simp_all
  have nonzero: "whole a \<noteq> 0" "whole b \<noteq> 0" "\<not> f_noteq (Fin (whole 0)) (Fin 0)" "\<not> f_less (Fin (whole 0)) (Fin 0)" "\<not> whole 0 < 0" using assms(1,3) by (simp_all add: whole_def f_noteq_def)
  have sign: "f_mul (Fin (whole 1)) (Fin (whole a)) = Fin (whole a)" using f_mul_whole [of 1 a] assms(1,2) by simp
  have given: "f_noteq (Fin (whole a)) (Fin 0)" "f_noteq (Fin (whole b)) (Fin 0)" using nonzero by (simp_all add: f_noteq_def)
  have columns: "\<lparr> v_x = Fin (whole 0), v_y = Fin (whole a), v_z = Fin (whole 0) \<rparr> = whole_vec 0 a 0"
      "\<lparr> v_x = Fin (whole 0), v_y = Fin (whole 0), v_z = Fin (whole b) \<rparr> = whole_vec 0 0 b"
      "\<lparr> v_x = Fin (whole 0), v_y = Fin (whole 0), v_z = Fin (whole 0) \<rparr> = whole_vec 0 0 0"
    by (simp_all add: whole_vec_def)
  show ?thesis
    by (simp add: FromMatrix_def Let_def Vec3_of_def columns assms(5-8) sign set_column_def given nonzero divisions IdentityMat3_def)
qed

subsection \<open>Rays and spheres\<close>

text \<open>\<open>division\<close> is the division of two numbers, \<open>f_div\<close> unless it is by zero, and \<open>sqrt_of\<close> is \<open>std::sqrt\<close>.\<close>

definition vec_sub :: "Vec3 \<Rightarrow> Vec3 \<Rightarrow> Vec3" where
  "vec_sub a b = \<lparr> v_x = f_sub (v_x a) (v_x b), v_y = f_sub (v_y a) (v_y b), v_z = f_sub (v_z a) (v_z b) \<rparr>"

definition Intersects_ray_sphere ::
    "(Vec3 \<Rightarrow> Vec3 \<Rightarrow> float32) \<Rightarrow> (float32 \<Rightarrow> float32) \<Rightarrow> (float32 \<Rightarrow> float32 \<Rightarrow> float32) \<Rightarrow> SRay \<Rightarrow> SSphere \<Rightarrow> float32 \<Rightarrow> bool \<times> float32" where
  "Intersects_ray_sphere dot sqrt_of division ray sphere t =
     (let oc = vec_sub (ray_origin ray) (sphere_center sphere);
          a = dot (ray_direction ray) (ray_direction ray);
          b = f_mul (Fin (whole 2)) (dot oc (ray_direction ray));
          c = f_sub (dot oc oc) (f_mul (sphere_radius sphere) (sphere_radius sphere));
          discriminant = f_sub (f_mul b b) (f_mul (f_mul (Fin (whole 4)) a) c)
      in if f_le (Fin 0) discriminant
         then let sqrtDiscriminant = sqrt_of discriminant;
                  t0 = division (f_sub (f_neg b) sqrtDiscriminant) (f_mul (Fin (whole 2)) a);
                  t1 = division (f_add (f_neg b) sqrtDiscriminant) (f_mul (Fin (whole 2)) a)
              in if f_less Epsilon t0 then (True, t0) else if f_less Epsilon t1 then (True, t1) else (False, t)
         else (False, t))"

lemma vec_sub_whole:
  "\<bar>a - x\<bar> \<le> 2 ^ 24 \<Longrightarrow> \<bar>b - y\<bar> \<le> 2 ^ 24 \<Longrightarrow> \<bar>c - z\<bar> \<le> 2 ^ 24 \<Longrightarrow> vec_sub (whole_vec a b c) (whole_vec x y z) = whole_vec (a - x) (b - y) (c - z)"
  by (simp add: vec_sub_def whole_vec_def f_sub_whole)

lemma Epsilon_less_whole: "f_less Epsilon (Fin (whole n)) \<longleftrightarrow> 0 < n"
proof -
  have "(2 :: int) ^ 126 < n * 2 ^ 149 \<longleftrightarrow> 0 < n"
  proof
    assume "0 < n"
    then have "1 * 2 ^ 149 \<le> n * 2 ^ 149" by (intro mult_right_mono) simp_all
    then show "2 ^ 126 < n * 2 ^ 149" by simp
  next
    assume "(2 :: int) ^ 126 < n * 2 ^ 149"
    then have "0 < n * 2 ^ 149" by (rule less_trans [rotated]) simp
    then show "0 < n" by (simp add: zero_less_mult_iff)
  qed
  then show ?thesis by (simp add: Epsilon_def whole_def)
qed

text \<open>
  Where nothing is rounded, the ray from the origin of the coordinates meets the sphere around \<open>(p, q, s)\<close> at the nearer of the two solutions of its equation that lies ahead, and not at all when both
  lie behind or there is none.  A ray that starts inside meets it where it leaves.
\<close>

lemma ray_sphere_exact:
  fixes p q s x y z radius r0 r1 :: int
  defines "a \<equiv> x * x + y * y + z * z" and "h \<equiv> - (p * x + q * y + s * z)" and "c \<equiv> p * p + q * q + s * s - radius * radius"
  assumes "glm_dot dot" and division: "\<And>m n. n \<noteq> Fin 0 \<Longrightarrow> division m n = f_div m n"
    and small: "\<bar>x\<bar> \<le> 2 ^ 4" "\<bar>y\<bar> \<le> 2 ^ 4" "\<bar>z\<bar> \<le> 2 ^ 4" "\<bar>p\<bar> \<le> 2 ^ 4" "\<bar>q\<bar> \<le> 2 ^ 4" "\<bar>s\<bar> \<le> 2 ^ 4" "\<bar>radius\<bar> \<le> 2 ^ 4"
    and moves: "0 < a" and root: "0 \<le> d" "d \<le> 2 ^ 12" "d * d = (2 * h) * (2 * h) - 4 * a * c" "sqrt_of (Fin (whole (d * d))) = Fin (whole d)"
    and roots: "- (2 * h) - d = r0 * (2 * a)" "- (2 * h) + d = r1 * (2 * a)" "\<bar>r0\<bar> \<le> 2 ^ 24" "\<bar>r1\<bar> \<le> 2 ^ 24"
  shows "Intersects_ray_sphere dot sqrt_of division \<lparr> ray_origin = whole_vec 0 0 0, ray_direction = whole_vec x y z \<rparr>
      \<lparr> sphere_center = whole_vec p q s, sphere_radius = Fin (whole radius) \<rparr> t =
    (if 0 < r0 then (True, Fin (whole r0)) else if 0 < r1 then (True, Fin (whole r1)) else (False, t))"
proof -
  have product: "\<bar>i * j\<bar> \<le> 2 ^ 8" if "\<bar>i\<bar> \<le> 2 ^ 4" "\<bar>j\<bar> \<le> 2 ^ 4" for i j :: int
    using mult_mono [OF that] by (simp add: abs_mult)
  have products: "\<bar>x * x\<bar> \<le> 2 ^ 8" "\<bar>y * y\<bar> \<le> 2 ^ 8" "\<bar>z * z\<bar> \<le> 2 ^ 8" "\<bar>p * x\<bar> \<le> 2 ^ 8" "\<bar>q * y\<bar> \<le> 2 ^ 8" "\<bar>s * z\<bar> \<le> 2 ^ 8"
      "\<bar>p * p\<bar> \<le> 2 ^ 8" "\<bar>q * q\<bar> \<le> 2 ^ 8" "\<bar>s * s\<bar> \<le> 2 ^ 8" "\<bar>radius * radius\<bar> \<le> 2 ^ 8"
    using small by (simp_all only: product)
  moreover have "0 \<le> p * p" "0 \<le> q * q" "0 \<le> s * s" "0 \<le> radius * radius" by simp_all
  ultimately have sizes: "\<bar>a\<bar> \<le> 2 ^ 10" "\<bar>h\<bar> \<le> 2 ^ 10" "\<bar>c\<bar> \<le> 2 ^ 10"
    unfolding a_def h_def c_def by (simp_all add: abs_le_iff) (smt (verit) zero_le_square)
  have wide: "\<bar>i * j\<bar> \<le> 2 ^ 22" if "\<bar>i\<bar> \<le> 2 ^ 12" "\<bar>j\<bar> \<le> 2 ^ 10" for i j :: int
    using mult_mono [OF that] by (simp add: abs_mult)
  have wides: "\<bar>(2 * h) * (2 * h)\<bar> \<le> 2 ^ 22" "\<bar>(4 * a) * c\<bar> \<le> 2 ^ 22"
    using sizes wide [of "4 * h" h] wide [of "4 * a" c] by (simp_all add: mult.assoc)
  have dots: "dot (whole_vec x y z) (whole_vec x y z) = Fin (whole a)" "dot (whole_vec (- p) (- q) (- s)) (whole_vec x y z) = Fin (whole h)"
      "dot (whole_vec (- p) (- q) (- s)) (whole_vec (- p) (- q) (- s)) = Fin (whole (p * p + q * q + s * s))"
    using products glm_dot.dot_whole [OF assms(4), of x x y y z z] glm_dot.dot_whole [OF assms(4), of "- p" x "- q" y "- s" z]
      glm_dot.dot_whole [OF assms(4), of "- p" "- p" "- q" "- q" "- s" "- s"] by (simp_all add: a_def h_def)
  have oc: "vec_sub (whole_vec 0 0 0) (whole_vec p q s) = whole_vec (- p) (- q) (- s)"
    using small vec_sub_whole [of 0 p 0 q 0 s] by simp
  have b: "f_mul (Fin (whole 2)) (Fin (whole h)) = Fin (whole (2 * h))" using sizes by (simp add: f_mul_whole)
  have c: "f_sub (Fin (whole (p * p + q * q + s * s))) (f_mul (Fin (whole radius)) (Fin (whole radius))) = Fin (whole c)"
    using products sizes(3) by (simp add: f_mul_whole f_sub_whole c_def)
  have discriminant: "f_sub (f_mul (Fin (whole (2 * h))) (Fin (whole (2 * h)))) (f_mul (f_mul (Fin (whole 4)) (Fin (whole a))) (Fin (whole c))) = Fin (whole (d * d))"
  proof -
    have "\<bar>(2 * h) * (2 * h) - (4 * a) * c\<bar> \<le> 2 ^ 22 + 2 ^ 22" using wides by (rule order.trans [OF abs_triangle_ineq4 add_mono])
    then have "\<bar>(2 * h) * (2 * h) - (4 * a) * c\<bar> \<le> 2 ^ 24" by (rule order.trans) simp
    moreover have "\<bar>(2 * h) * (2 * h)\<bar> \<le> 2 ^ 24" "\<bar>(4 * a) * c\<bar> \<le> 2 ^ 24" "\<bar>4 * a\<bar> \<le> 2 ^ 24" using wides sizes by simp_all
    ultimately show ?thesis by (simp only: f_mul_whole f_sub_whole root(3))
  qed
  have twice: "f_mul (Fin (whole 2)) (Fin (whole a)) = Fin (whole (2 * a))" using sizes by (simp add: f_mul_whole)
  have neg: "f_neg (Fin (whole (2 * h))) = Fin (whole (- (2 * h)))" by (simp add: f_neg_def whole_def)
  have sums: "f_sub (Fin (whole (- (2 * h)))) (Fin (whole d)) = Fin (whole (r0 * (2 * a)))" "f_add (Fin (whole (- (2 * h)))) (Fin (whole d)) = Fin (whole (r1 * (2 * a)))"
    using sizes root(1,2) roots(1,2) f_sub_whole [of "- (2 * h)" d] f_add_whole [of "- (2 * h)" d] by simp_all
  have quotients: "division (Fin (whole (r0 * (2 * a)))) (Fin (whole (2 * a))) = Fin (whole r0)" "division (Fin (whole (r1 * (2 * a)))) (Fin (whole (2 * a))) = Fin (whole r1)"
    using moves roots(3,4) division [of "Fin (whole (2 * a))"] f_div_whole [of "2 * a"] by (simp_all add: whole_def)
  have "0 \<le> whole (d * d)" by (simp add: whole_def)
  then show ?thesis
    unfolding Intersects_ray_sphere_def Let_def
    by (simp add: oc dots b c discriminant root(4) twice neg sums quotients Epsilon_less_whole)
qed

text \<open>A sphere of radius 3 ahead, and one around the origin of the ray: hit where the ray enters, and where it leaves.\<close>

lemma ray_sphere_examples:
  "Intersects_ray_sphere sum_dot (\<lambda>_. Fin (whole 6)) f_div \<lparr> ray_origin = whole_vec 0 0 0, ray_direction = whole_vec 1 0 0 \<rparr>
     \<lparr> sphere_center = whole_vec 8 0 0, sphere_radius = Fin (whole 3) \<rparr> t = (True, Fin (whole 5))"
  "Intersects_ray_sphere sum_dot (\<lambda>_. Fin (whole 6)) f_div \<lparr> ray_origin = whole_vec 0 0 0, ray_direction = whole_vec 1 0 0 \<rparr>
     \<lparr> sphere_center = whole_vec 2 0 0, sphere_radius = Fin (whole 3) \<rparr> t = (True, Fin (whole 5))"
  using ray_sphere_exact [OF glm.glm_dot_axioms, where division = f_div and sqrt_of = "\<lambda>_. Fin (whole 6)" and d = 6 and x = 1 and y = 0 and z = 0
      and p = 8 and q = 0 and s = 0 and radius = 3 and ?r0.0 = 5 and ?r1.0 = 11]
    ray_sphere_exact [OF glm.glm_dot_axioms, where division = f_div and sqrt_of = "\<lambda>_. Fin (whole 6)" and d = 6 and x = 1 and y = 0 and z = 0
      and p = 2 and q = 0 and s = 0 and radius = 3 and ?r0.0 = "- 1" and ?r1.0 = 5] by simp_all

end
