(* ===== verification/Event_Types.thy ===== *)
theory Event_Types
  imports Event_System
begin

section \<open>The types of events\<close>

text \<open>
  Models the typed interface of \<^verbatim>\<open>public/tge/events/system.hpp\<close> over \<open>Event_System\<close>, and \<^verbatim>\<open>private/events/globals.cpp\<close>.  A type of event gets its number when it is asked for
  first: the \<open>static\<close> of \<open>EventTypeIdOf\<close> is one number for each type that has run, so an asking is one step of the record below.
\<close>

record 't type_ids =
  next_id :: u32
  ids :: "'t \<rightharpoonup> EventTypeId"

definition initial_ids :: "'t type_ids" where
  "initial_ids = \<lparr>next_id = 0, ids = Map.empty\<rparr>"

definition NextEventTypeId :: "'t type_ids \<Rightarrow> EventTypeId \<times> 't type_ids" where
  "NextEventTypeId s = (next_id s, s\<lparr>next_id := next_id s + 1\<rparr>)"

definition EventTypeIdOf :: "'t \<Rightarrow> 't type_ids \<Rightarrow> EventTypeId \<times> 't type_ids" where
  "EventTypeIdOf t s =
     (case ids s t of
        Some i \<Rightarrow> (i, s)
      | None \<Rightarrow> (let (i, s1) = NextEventTypeId s in (i, s1\<lparr>ids := (ids s1)(t \<mapsto> i)\<rparr>)))"

text \<open>A handler takes the event or nothing.\<close>

datatype 'h typed_handler = Takes_Event 'h | Takes_Nothing 'h

definition run_handler :: "('h \<Rightarrow> 'p \<Rightarrow> 's \<Rightarrow> 's) \<Rightarrow> ('h \<Rightarrow> 's \<Rightarrow> 's) \<Rightarrow> 'h typed_handler \<Rightarrow> 'p \<Rightarrow> 's \<Rightarrow> 's" where
  "run_handler with_event without handler payload s =
     (case handler of Takes_Event h \<Rightarrow> with_event h payload s | Takes_Nothing h \<Rightarrow> without h s)"

definition Subscribe :: "'t \<Rightarrow> 'h \<Rightarrow> 't type_ids \<Rightarrow> ('h, 'p) CSystem \<Rightarrow> EventHandle \<times> 't type_ids \<times> ('h, 'p) CSystem" where
  "Subscribe t handler numbers s =
     (let (i, numbers1) = EventTypeIdOf t numbers; (handle, s1) = SubscribeErased i handler s in (handle, numbers1, s1))"

definition Emit ::
    "('h \<Rightarrow> 'p \<Rightarrow> ('h, 'p) CSystem \<Rightarrow> ('h, 'p) CSystem) \<Rightarrow> 't \<Rightarrow> 'p \<Rightarrow> 't type_ids \<Rightarrow> ('h, 'p) CSystem \<Rightarrow> nat list \<times> 't type_ids \<times> ('h, 'p) CSystem" where
  "Emit call t payload numbers s =
     (let (i, numbers1) = EventTypeIdOf t numbers; (s1, invoked) = EmitErased call i payload s in (invoked, numbers1, s1))"

definition Emit_default ::
    "('t \<Rightarrow> 'p) \<Rightarrow> ('h \<Rightarrow> 'p \<Rightarrow> ('h, 'p) CSystem \<Rightarrow> ('h, 'p) CSystem) \<Rightarrow> 't \<Rightarrow> 't type_ids \<Rightarrow> ('h, 'p) CSystem \<Rightarrow> nat list \<times> 't type_ids \<times> ('h, 'p) CSystem" where
  "Emit_default initial_value call t numbers s = Emit call t (initial_value t) numbers s"

subsection \<open>Numbers and types\<close>

text \<open>The types asked for so far, in the order in which they were asked for first.\<close>

definition numbered :: "'t type_ids \<Rightarrow> 't list \<Rightarrow> bool" where
  "numbered s us \<longleftrightarrow> distinct us \<and> dom (ids s) = set us \<and> next_id s = of_nat (length us) \<and> (\<forall>k<length us. ids s (us ! k) = Some (of_nat k))"

lemma numbered_initial: "numbered initial_ids []"
  by (simp add: numbered_def initial_ids_def)

lemma numbered_new:
  assumes "numbered s us" and "t \<notin> set us"
  shows "EventTypeIdOf t s = (of_nat (length us), s\<lparr>next_id := of_nat (length us) + 1, ids := (ids s)(t \<mapsto> of_nat (length us))\<rparr>)"
    and "numbered (snd (EventTypeIdOf t s)) (us @ [t])"
proof -
  have "ids s t = None" using assms by (auto simp: numbered_def)
  then show eq: "EventTypeIdOf t s = (of_nat (length us), s\<lparr>next_id := of_nat (length us) + 1, ids := (ids s)(t \<mapsto> of_nat (length us))\<rparr>)"
    using assms by (simp add: EventTypeIdOf_def NextEventTypeId_def numbered_def)
  show "numbered (snd (EventTypeIdOf t s)) (us @ [t])"
    using assms unfolding eq by (auto simp: numbered_def nth_append less_Suc_eq)
qed

lemma numbered_known:
  assumes "numbered s us" and "k < length us"
  shows "EventTypeIdOf (us ! k) s = (of_nat k, s)"
  using assms by (simp add: EventTypeIdOf_def numbered_def)

lemma numbered_step:
  assumes "numbered s us" and "EventTypeIdOf t s = (i, s')"
  obtains us' k where "numbered s' us'" "k < length us'" "us' ! k = t" "i = of_nat k" "length us' \<le> length us + 1" "set us' = insert t (set us)"
proof (cases "t \<in> set us")
  case True
  then obtain k where k: "k < length us" "us ! k = t" by (auto simp: in_set_conv_nth)
  then have "i = of_nat k" "s' = s" using numbered_known [OF assms(1) k(1)] assms(2) by auto
  then show thesis using that [of us k] assms(1) k True by auto
next
  case False
  then have "i = of_nat (length us)" "numbered s' (us @ [t])" using numbered_new [OF assms(1) False] assms(2) by simp_all
  then show thesis using that [of "us @ [t]" "length us"] by simp
qed

text \<open>Below \<open>2 ^ 32\<close> types a number stands for one type.\<close>

lemma numbered_ids_eq:
  assumes "numbered s us" "length us \<le> 2 ^ 32" "j < length us" "k < length us"
  shows "(of_nat j :: u32) = of_nat k \<longleftrightarrow> us ! j = us ! k"
proof -
  have "(of_nat j :: u32) = of_nat k \<longleftrightarrow> j = k"
    using assms(2-4) by (simp add: word_of_nat_eq_iff take_bit_nat_eq_self)
  then show ?thesis using assms(1,3,4) by (simp add: numbered_def nth_eq_iff_index_eq)
qed

text \<open>As long as there are no more than \<open>2 ^ 32\<close> types of events, a subscription for a type is added to the subscribers of the number that this type has from then on, at their end, and
  to those of no other type, whether or not either had a number before.\<close>

theorem typed_subscriptions:
  assumes "numbered numbers us" "length us + 2 \<le> 2 ^ 32" "events_wf s"
    and "Subscribe t handler numbers s = (handle, numbers1, s1)" "EventTypeIdOf u numbers1 = (i, numbers2)"
  shows "subscription_list s1 i = subscription_list s i @ (if u = t then [(handle, handler)] else [])"
proof -
  obtain it where it: "EventTypeIdOf t numbers = (it, numbers1)" and sub: "SubscribeErased it handler s = (handle, s1)"
    using assms(4) by (auto simp: Subscribe_def split: prod.splits)
  obtain ts j where ts: "numbered numbers1 ts" "j < length ts" "ts ! j = t" "it = of_nat j" "length ts \<le> length us + 1"
    using numbered_step [OF assms(1) it] by metis
  obtain vs k where vs: "numbered numbers2 vs" "k < length vs" "vs ! k = u" "i = of_nat k" "length vs \<le> length ts + 1"
    using numbered_step [OF ts(1) assms(5)] by metis
  have "ids numbers2 t = Some it"
    using ts assms(5) by (auto simp: EventTypeIdOf_def NextEventTypeId_def numbered_def split: option.splits)
  moreover from this obtain m where m: "m < length vs" "vs ! m = t"
    using vs(1) by (metis domI in_set_conv_nth numbered_def)
  ultimately have "it = of_nat m" using vs(1) by (auto simp: numbered_def)
  then have "i = it \<longleftrightarrow> u = t"
    using numbered_ids_eq [OF vs(1) _ vs(2) m(1)] vs ts m assms(2) by simp
  then show ?thesis using subscription_list_subscribe [OF assms(3) sub] by simp
qed

lemma typed_subscriptions_witness:
  "subscription_list (snd (snd (Subscribe ''Resized'' 7 initial_ids (initial_system :: (nat, nat) CSystem)))) 0 = [(1, 7)]"
proof -
  obtain handle numbers1 s1 where sub: "Subscribe ''Resized'' 7 initial_ids (initial_system :: (nat, nat) CSystem) = (handle, numbers1, s1)"
    by (metis prod_cases3)
  then have eqs: "handle = 1" "numbers1 = \<lparr>next_id = 1, ids = [''Resized'' \<mapsto> 0]\<rparr>"
    by (auto simp: Subscribe_def EventTypeIdOf_def NextEventTypeId_def initial_ids_def SubscribeErased_def initial_system_def Let_def)
  then have "EventTypeIdOf ''Resized'' numbers1 = (0, numbers1)" by (simp add: EventTypeIdOf_def)
  moreover have "subscription_list (initial_system :: (nat, nat) CSystem) 0 = []"
    by (simp add: subscription_list_def subscribers_def slot_of_def initial_system_def empty_slot_def)
  moreover have "events_wf (initial_system :: (nat, nat) CSystem)" by (rule initial_wf)
  ultimately show ?thesis
    using typed_subscriptions [OF numbered_initial _ _ sub, of "''Resized''" 0 numbers1] sub eqs by simp
qed

end
