(* ===== verification/Thread_Name.thy ===== *)
theory Thread_Name
  imports Prelude
begin

section \<open>The names of threads\<close>

text \<open>
  Models \<^verbatim>\<open>private/threading/thread_name.cpp\<close>.  A place of the array on the stack that has not been written is \<open>None\<close>; a write outside of it or a system call that reads such a place has
  no result.  Calls of the hook are recorded.
\<close>

record thread_names =
  gThreadNameHook :: bool
  os_name :: "u8 list option"
  os_wide_name :: "16 word list option"
  hook_calls :: "u8 list list"

definition SetThreadNameHook :: "bool \<Rightarrow> thread_names \<Rightarrow> thread_names" where
  "SetThreadNameHook hook s = s\<lparr>gThreadNameHook := hook\<rparr>"

definition MaxOsNameLength :: nat where
  "MaxOsNameLength = 15"

definition memcpy :: "u8 list \<Rightarrow> nat \<Rightarrow> u8 option list \<Rightarrow> u8 option list option" where
  "memcpy source n target = (if n \<le> length source \<and> n \<le> length target then Some (map Some (take n source) @ drop n target) else None)"

definition put_char :: "nat \<Rightarrow> u8 \<Rightarrow> u8 option list \<Rightarrow> u8 option list option" where
  "put_char i c target = (if i < length target then Some (target[i := Some c]) else None)"

text \<open>What \<open>pthread_setname_np\<close> reads, up to the first zero.\<close>

fun read_c_string :: "u8 option list \<Rightarrow> u8 list option" where
  "read_c_string [] = None"
| "read_c_string (None # cs) = None"
| "read_c_string (Some c # cs) = (if c = 0 then Some [] else map_option ((#) c) (read_c_string cs))"

definition call_hook :: "u8 list \<Rightarrow> thread_names \<Rightarrow> thread_names" where
  "call_hook name s = (if gThreadNameHook s then s\<lparr>hook_calls := hook_calls s @ [name]\<rparr> else s)"

definition linux_SetCurrentThreadName :: "u8 list \<Rightarrow> thread_names \<Rightarrow> thread_names option" where
  "linux_SetCurrentThreadName name s =
     (let osName = replicate (MaxOsNameLength + 1) None;
          copyLength = (if length name < MaxOsNameLength then length name else MaxOsNameLength)
      in Option.bind (memcpy name copyLength osName) (\<lambda>copied.
         Option.bind (put_char copyLength 0 copied) (\<lambda>closed.
         Option.bind (read_c_string closed) (\<lambda>label. Some (call_hook name (s\<lparr>os_name := Some label\<rparr>))))))"

text \<open>On Windows \<open>to_wide\<close> is what \<open>MultiByteToWideChar\<close> writes, and its length what it answers when asked for that alone.\<close>

definition windows_SetCurrentThreadName :: "(u8 list \<Rightarrow> 16 word list) \<Rightarrow> u8 list \<Rightarrow> thread_names \<Rightarrow> thread_names" where
  "windows_SetCurrentThreadName to_wide name s =
     (let numWide = length (to_wide name); wideName = take numWide (to_wide name) @ replicate (numWide - length (to_wide name)) 0
      in call_hook name (s\<lparr>os_wide_name := Some (takeWhile (\<lambda>c. c \<noteq> 0) wideName)\<rparr>))"

lemma read_c_string_closed: "read_c_string (map Some cs @ Some 0 # rest) = Some (takeWhile (\<lambda>c. c \<noteq> 0) cs)"
  by (induction cs) auto

text \<open>For every name the array holds what is put into it, the system reads no place that has not been written and gets at most the first 15 characters, all of a shorter name, and the hook gets the name
  whole.\<close>

theorem thread_name_fits:
  "linux_SetCurrentThreadName name s = Some (call_hook name (s\<lparr>os_name := Some (takeWhile (\<lambda>c. c \<noteq> 0) (take 15 name))\<rparr>))"
proof -
  define n where "n = min (length name) 15"
  have n: "(if length name < MaxOsNameLength then length name else MaxOsNameLength) = n" "n \<le> 15" "n \<le> length name" "take n name = take 15 name"
    by (auto simp: n_def MaxOsNameLength_def min_def)
  obtain m where m: "replicate (16 - n) (None :: u8 option) = None # m"
    using n(2) by (cases "16 - n") auto
  have "memcpy name n (replicate (MaxOsNameLength + 1) None) = Some (map Some (take 15 name) @ None # m)"
    using n m by (simp add: memcpy_def MaxOsNameLength_def)
  moreover have "put_char n 0 (map Some (take 15 name) @ None # m) = Some (map Some (take 15 name) @ Some 0 # m)"
    using n by (simp add: put_char_def list_update_append n_def min.commute)
  ultimately show ?thesis
    unfolding linux_SetCurrentThreadName_def Let_def n(1) by (simp add: read_c_string_closed)
qed

lemma thread_name_length: "linux_SetCurrentThreadName name s = Some s' \<Longrightarrow> \<exists>label. os_name s' = Some label \<and> length label \<le> 15"
  using length_takeWhile_le [of "\<lambda>c. c \<noteq> 0" "take 15 name"] by (auto simp: thread_name_fits call_hook_def)

end
