(* ===== verification/Spec2Isabelle.thy ===== *)
theory Spec2Isabelle
  imports Module_Graph Module_Runtime Event_System Linear_Allocator Stack_Allocator Pool_Allocator Free_List_Allocator Global_Operators Command_Registry Command_Line Parse_Ipv4 Job_System Serial_Job_Queue Event_Loop Log_System Log_Console File_Read Directory_Watch Child_Process Address_Lookup Certificates Binary_Stream Files Exposure_Curve Intersection Startup Directories Notify_Buffers Transform Event_Types Thread_Name
begin

text \<open>
  A verification of the core library of the TGE engine: modules and their life cycle, events, memory, commands, logging, threads, files, child processes and the
  network.  Every definition is a translation of the C++ sources under \<^verbatim>\<open>src/\<close>; the theorems say what these parts promise each other and their clients.

  \<^bold>\<open>Conventions.\<close>  A class is a \<open>record\<close> with the names of its members, a method a function from its state to its result and its new state.  Machine integers are words of their
  width, so that they wrap around as in C++; \<open>size_t\<close> and pointers have 64 bits.  \<open>std::expected\<close> is a sum with the error on the left, \<open>std::optional\<close> an \<open>option\<close>.
  What the operating system, another library (rpmalloc, GLM, gtest) or a callback of the client answers is an argument of the definitions, so that theorems hold for every answer; where a
  theorem relies on more, its premise or its locale says so.  Concurrent code is an inductive step relation with one step per access to shared state, and its theorems are
  about every reachable state, so about every interleaving, under sequential consistency.

  \<^bold>\<open>Foundations.\<close>  \<open>Prelude\<close> names the integer types and holds the lemmas on words and lists that the theories share.  \<open>Raw_Memory\<close> is byte-addressed memory with fields of
  eight bytes, and the alignment expression.  \<open>Allocator_Interface\<close> is the contract of \<open>IAllocator\<close>, a locale that every allocator interprets and in which the client of an
  allocator is verified once: its blocks are aligned, inside of the arena and disjoint, and keep what was written to them.  \<open>Os_Errors\<close> is \<open>std::error_code\<close>.  \<open>Float32\<close> is the \<open>float\<close> of the
  sources with IEEE rounding, monotone and exact where nothing has to be rounded.

  \<^bold>\<open>Modules and events.\<close>  \<open>Module_Graph\<close> (\<^verbatim>\<open>private/module/module_graph.cpp\<close>) orders the modules by their dependencies: what \<open>Resolve\<close> accepts, the order it
  returns and the errors it logs.  \<open>Module_Runtime\<close> (\<^verbatim>\<open>private/module/runtime.cpp\<close>) starts, updates and ends the modules in that order; its state has the trace of the calls into modules, and the
  theorems on it rest on those of the graph.  \<open>Event_System\<close> (\<^verbatim>\<open>private/events/system.cpp\<close>) has subscriptions, emission and the queue, and refines plain lists of
  subscriptions; a handler is an arbitrary transformer of the state of the system, which it may call back.
  \<open>Event_Types\<close> has the typed interface of \<^verbatim>\<open>public/tge/events/system.hpp\<close> over it, with the numbers that types of events get.

  \<^bold>\<open>Memory\<close> (\<^verbatim>\<open>private/memory/\<close>).  \<open>Memory_Tracking\<close> has the statistics; \<open>Linear_Allocator\<close>, \<open>Stack_Allocator\<close>, \<open>Pool_Allocator\<close> and \<open>Free_List_Allocator\<close> the four allocators, each
  with its bookkeeping inside of the memory it hands out.  The free list is shown to refine first fit with coalescing on a list.  The walks over a list in memory follow its pointers as partial functions; that they end
  follows from the invariant.  \<open>Global_Operators\<close> has operators \<open>new\<close> and \<open>delete\<close>, the default allocator and the adapter for containers.

  \<^bold>\<open>Commands and text.\<close>  \<open>Command_Registry\<close> (\<^verbatim>\<open>private/command/\<close>) has the groups, the tokenizer and the dispatch, with the calls a command makes on the registry while it runs; \<open>Command_Line\<close> the quoting of the arguments of a child process, read
  back by the rules of the C runtime; \<open>Parse_Ipv4\<close> the parser of addresses; \<open>Log_Format\<close>, \<open>Log_System\<close> and \<open>Log_Console\<close> (\<^verbatim>\<open>private/logging/log_system.cpp\<close>) the levels, the configuration, the
  channels with their listeners, which are handed every message owed to them once, and the borrowed console.  \<open>Expected_Log\<close> (\<^verbatim>\<open>public/tge/testing/\<close>) has the guards with which tests expect messages, over the model of the log system.

  \<^bold>\<open>Threads\<close> (\<^verbatim>\<open>private/threading/\<close>, \<^verbatim>\<open>public/tge/threading/\<close>).  \<open>Mpsc_Queue\<close> is the lock-free queue at its atomic accesses; \<open>Thread_Pool\<close> the pool over the locale of a priority queue, with workers that sleep on the condition variable and
  notifications as steps of their own; \<open>Job_Group\<close>
  the groups with waiting and cancelling; \<open>Job_System\<close> the start, the counters and parallel loops; \<open>Serial_Job_Queue\<close> the queue with one worker and its condition variable; \<open>Thread_Name\<close> what the system is told of a name; \<open>Poller\<close> and
  \<open>Event_Loop\<close> the loop over the locale that the poller interprets, where the fuel of a pass
  is shown to suffice when it exceeds the timers there are and the posts that wait.

  \<^bold>\<open>Files and processes.\<close>  \<open>File_Write\<close> and \<open>File_Read\<close> (\<^verbatim>\<open>private/io/\<close>) write atomically and read whole files; every state of the disk on the way is recorded, with what is flushed in it, so that a crash
  can make anything of what is not, and a list of answers of
  the system that runs out before the loop ends gives \<open>None\<close>.  \<open>Directory_Watch\<close> watches a tree through inotify or Windows; its walk has a fuel, and more than the number of watch descriptors
  is shown to be enough; folders that cannot be watched and listings that fail on the way are part of the tree it is shown.  \<open>Notify_Buffers\<close> reads the events out of the bytes that both systems write, and shows that exactly those are found that were written.  \<open>Files\<close>, \<open>Binary_Stream\<close> and \<open>Directories\<close> have plain files, the folders of the user, streams, folders and paths.  \<open>Program_Search\<close> and \<open>Child_Process\<close> (\<^verbatim>\<open>private/process/\<close>)
  find a program, start it with exactly its three descriptors and report its end.

  \<^bold>\<open>Network\<close> (\<^verbatim>\<open>private/net/\<close>).  \<open>Sockets\<close> has the operations and a ledger of what is open; \<open>Address_Lookup\<close> lookups that the system completes on a thread of its own; \<open>Pem\<close> and
  \<open>Certificates\<close> certificate files, roots and the verification of a chain.

  \<^bold>\<open>Geometry.\<close>  \<open>Exposure_Curve\<close> (\<^verbatim>\<open>public/tge/exposure/exposure_curve.hpp\<close>) keeps a sorted array of keys and evaluates to finite numbers within a bound; \<open>Intersection\<close> (\<^verbatim>\<open>private/math/intersection.cpp\<close>) has the tests of rays, boxes, spheres
  and frustums, over the locale of GLM's scalar product.  \<open>Transform\<close> (\<^verbatim>\<open>private/math/transform.cpp\<close>) takes a matrix apart into position, rotation and scale, and has the test of a ray and a sphere.

  \<^bold>\<open>Composition.\<close>  The runtime uses the graph, the pool is used by groups and the job system, the event loop uses the poller and the lock-free queue, and reading
  a file is composed with writing it.  \<open>Startup\<close> (\<^verbatim>\<open>private/init/init.cpp\<close>) puts commands, threads, memory and the log together, and this theory
  the parser of addresses and the sockets.

  \<^bold>\<open>Not modelled.\<close>  The rest of \<^verbatim>\<open>public/tge/math\<close>, materials, lights and geometry data are fields or single calls of GLM, whose sources are not here.  The profiling hooks and the error categories
  are one call of the system or text only.  Weak memory orders, fused multiply-add, the sign of zero and exceptions for want of memory are left out throughout.  Informational log
  lines are left out where nothing depends on them.
\<close>

subsection \<open>From a text or a name to the wire\<close>

lemma htonl_bytes:
  "bytes_in_memory (htonl (push_bit 24 (ucast a) OR push_bit 16 (ucast b) OR push_bit 8 (ucast c) OR ucast d)) = [a, b, c, d]"
proof -
  have outside: "\<not> bit x n" if "8 \<le> n" for x :: u8 and n using that by (auto dest: bit_imp_le_length)
  show ?thesis by (simp add: bytes_in_memory_def) (intro conjI bit_word_eqI; auto simp: bit_simps bit_htonl outside)
qed

text \<open>
  C33. An IPv4 text goes onto the wire as it is written: the address \<open>ParseIpv4\<close> reads from four decimal numbers is handed to the system, by
  whatever connects, binds or sends with it, as the bytes of those four numbers in the order of the text, and
  the endpoint the system reports for those bytes is the one that was given.
\<close>

theorem dotted_address_on_wire:
  "\<exists>address. ParseIpv4 (dotted (map unat [a, b, c, d :: u8])) = Some address
     \<and> bytes_in_memory (s_addr (ToAddress \<lparr> ep_address = address, ep_port = port \<rparr>)) = [a, b, c, d]
     \<and> GetBoundEndpoint (Inr (ToAddress \<lparr> ep_address = address, ep_port = port \<rparr>)) = Inr \<lparr> ep_address = address, ep_port = port \<rparr>"
proof -
  have small: "unat x \<le> 255" for x :: u8 using unat_lt_word [of x] by simp
  let ?address = "push_bit 24 (ucast a) OR push_bit 16 (ucast b) OR push_bit 8 (ucast c) OR ucast d :: u32"
  have "ParseIpv4 (dotted (map unat [a, b, c, d])) = Some ?address"
    using ParseIpv4_dotted [OF small small small small, of a b c d] by simp
  then show ?thesis using htonl_bytes [of a b c d] by (simp add: ToAddress_def GetBoundEndpoint_def ToEndpoint_def)
qed

end
